(* ===== verification/BlotPrelude.thy ===== *)
theory BlotPrelude
  imports Main "HOL-Library.Word" "HOL-Library.AList"
begin

text \<open>
  Shared vocabulary of the development: Rust's \<open>Result\<close> as a sum with its \<open>?\<close> operator,
  machine integers with their checked operations, and Rust's \<open>BTreeMap\<close> as an association
  list sorted by key together with the interface its clients rely on.
\<close>

named_theorems result_simps \<open>evaluation and inversion of the \<open>?\<close> operator\<close>
named_theorems checked_simps \<open>checked machine arithmetic in terms of integers\<close>

section \<open>Results\<close>

text \<open>
  \<open>Result<T, E>\<close> is \<open>'e + 'a\<close>: \<open>Inl\<close> is \<open>Err\<close>, \<open>Inr\<close> is \<open>Ok\<close>. The operator \<open>e?\<close>
  followed by the rest of the body is \<open>and_then e (\<lambda>x. rest)\<close>.
\<close>

type_synonym ('e, 'a) result = "'e + 'a"

definition and_then :: "('e, 'a) result \<Rightarrow> ('a \<Rightarrow> ('e, 'b) result) \<Rightarrow> ('e, 'b) result" where
  "and_then r k = (case r of Inl e \<Rightarrow> Inl e | Inr x \<Rightarrow> k x)"

lemma and_then_Inl [simp, code]: "and_then (Inl e) k = Inl e"
  by (simp add: and_then_def)

lemma and_then_Inr [simp, code]: "and_then (Inr x) k = k x"
  by (simp add: and_then_def)

lemma and_then_cong [fundef_cong]:
  "r = r' \<Longrightarrow> (\<And>x. r' = Inr x \<Longrightarrow> k x = k' x) \<Longrightarrow> and_then r k = and_then r' k'"
  by (cases r') auto

lemma and_then_eq_Inr [result_simps]: "and_then r k = Inr y \<longleftrightarrow> (\<exists>x. r = Inr x \<and> k x = Inr y)"
  by (cases r) auto

lemma and_then_eq_Inl [result_simps]:
  "and_then r k = Inl e \<longleftrightarrow> r = Inl e \<or> (\<exists>x. r = Inr x \<and> k x = Inl e)"
  by (cases r) auto

lemma and_then_InrE:
  assumes "and_then r k = Inr y"
  obtains x where "r = Inr x" "k x = Inr y"
  using assms by (auto simp: and_then_eq_Inr)

text \<open>\<open>if cond { return Err(e) }\<close>.\<close>

definition ensure :: "bool \<Rightarrow> 'e \<Rightarrow> ('e, unit) result" where
  "ensure b e = (if b then Inr () else Inl e)"

lemma ensure_eq_Inr [simp]: "ensure b e = Inr u \<longleftrightarrow> b"
  by (simp add: ensure_def)

lemma ensure_eq_Inl [simp]: "ensure b e = Inl e' \<longleftrightarrow> \<not> b \<and> e' = e"
  by (auto simp: ensure_def)

lemma ensure_True [simp]: "ensure True e = Inr ()"
  by (simp add: ensure_def)

text \<open>A loop that stops at the first error, without and with a result per element.\<close>

fun check_each :: "('a \<Rightarrow> ('e, unit) result) \<Rightarrow> 'a list \<Rightarrow> ('e, unit) result" where
  "check_each f [] = Inr ()"
| "check_each f (x # xs) = and_then (f x) (\<lambda>_. check_each f xs)"

lemma check_each_Inr [result_simps]:
  "check_each f xs = Inr u \<longleftrightarrow> (\<forall>x \<in> set xs. f x = Inr ())"
  by (induction xs) (auto simp: and_then_eq_Inr)

fun collect :: "('a \<Rightarrow> ('e, 'b) result) \<Rightarrow> 'a list \<Rightarrow> ('e, 'b list) result" where
  "collect f [] = Inr []"
| "collect f (x # xs) = and_then (f x) (\<lambda>y. and_then (collect f xs) (\<lambda>ys. Inr (y # ys)))"

lemma collect_Inr [result_simps]:
  "collect f xs = Inr ys \<longleftrightarrow> list_all2 (\<lambda>x y. f x = Inr y) xs ys"
  by (induction xs arbitrary: ys) (auto simp: and_then_eq_Inr list_all2_Cons1)

lemma collect_cong [fundef_cong]:
  "xs = ys \<Longrightarrow> (\<And>x. x \<in> set ys \<Longrightarrow> f x = g x) \<Longrightarrow> collect f xs = collect g ys"
  by (induction xs arbitrary: ys) (auto intro!: and_then_cong)

lemma check_each_cong [fundef_cong]:
  "xs = ys \<Longrightarrow> (\<And>x. x \<in> set ys \<Longrightarrow> f x = g x) \<Longrightarrow> check_each f xs = check_each g ys"
  by (induction xs arbitrary: ys) (auto intro!: and_then_cong)

text \<open>A loop that threads its state, and stops at the first error.\<close>

fun fold_each :: "('a \<Rightarrow> 's \<Rightarrow> ('e, 's) result) \<Rightarrow> 'a list \<Rightarrow> 's \<Rightarrow> ('e, 's) result" where
  "fold_each f [] s = Inr s"
| "fold_each f (x # xs) s = and_then (f x s) (fold_each f xs)"

lemma fold_each_cong [fundef_cong]:
  "xs = ys \<Longrightarrow> s = t \<Longrightarrow> (\<And>x s. x \<in> set ys \<Longrightarrow> f x s = g x s) \<Longrightarrow> fold_each f xs s = fold_each g ys t"
  by (induction xs arbitrary: ys s t) (auto intro!: and_then_cong)

lemma fold_each_append: "fold_each f (xs @ ys) s = and_then (fold_each f xs s) (fold_each f ys)"
  by (induction xs arbitrary: s) (auto simp: and_then_def split: sum.split)

lemma fold_each_invariant:
  "fold_each f xs s = Inr t \<Longrightarrow> P s \<Longrightarrow> (\<And>x s t. x \<in> set xs \<Longrightarrow> P s \<Longrightarrow> f x s = Inr t \<Longrightarrow> P t) \<Longrightarrow> P t"
  by (induction xs arbitrary: s) (auto simp: and_then_eq_Inr)

lemma fold_each_no_error:
  "(\<And>x s. x \<in> set xs \<Longrightarrow> f x s \<noteq> Inl e) \<Longrightarrow> fold_each f xs s \<noteq> Inl e"
  by (induction xs arbitrary: s) (auto simp: and_then_eq_Inl)

section \<open>Machine integers\<close>

type_synonym u8 = "8 word"
type_synonym u32 = "32 word"
type_synonym u64 = "64 word"
type_synonym i64 = "64 word"
type_synonym i128 = "128 word"

text \<open>The value of an \<open>i64\<close> is \<open>sint\<close>; the range test its checked operations make.\<close>

definition in_i64 :: "int \<Rightarrow> bool" where
  "in_i64 v \<longleftrightarrow> - (2 ^ 63) \<le> v \<and> v < 2 ^ 63"

lemma sint_in_i64 [simp]: "in_i64 (sint (w :: i64))"
  using sint_lt [of w] sint_ge [of w] by (simp add: in_i64_def)

lemma sint_of_int_i64 [checked_simps]: "in_i64 v \<Longrightarrow> sint (word_of_int v :: i64) = v"
  by (simp add: in_i64_def sint_sbintrunc' signed_take_bit_int_eq_self)

lemma sint_inject [simp]: "sint (a :: 'a::len word) = sint b \<longleftrightarrow> a = b"
  by (auto intro: signed_word_eqI)

lemma sint_eq_0_iff [simp]: "sint (a :: 'a::len word) = 0 \<longleftrightarrow> a = 0"
  using sint_inject [of a 0] by simp

definition checked_i64 :: "int \<Rightarrow> i64 option" where
  "checked_i64 v = (if in_i64 v then Some (word_of_int v) else None)"

lemma checked_i64_Some: "checked_i64 v = Some w \<longleftrightarrow> in_i64 v \<and> sint w = v"
  by (auto simp: checked_i64_def checked_simps)

lemma checked_i64_None [simp]: "checked_i64 v = None \<longleftrightarrow> \<not> in_i64 v"
  by (simp add: checked_i64_def)

lemma checked_i64_sint [simp]: "checked_i64 (sint w) = Some w"
  by (simp add: checked_i64_def)

text \<open>Rust's \<open>/\<close> and \<open>%\<close> truncate towards zero.\<close>

definition quot_trunc :: "int \<Rightarrow> int \<Rightarrow> int" where
  "quot_trunc a b = sgn a * sgn b * (\<bar>a\<bar> div \<bar>b\<bar>)"

definition rem_trunc :: "int \<Rightarrow> int \<Rightarrow> int" where
  "rem_trunc a b = a - b * quot_trunc a b"

lemma quot_rem_trunc: "b * quot_trunc a b + rem_trunc a b = a"
  by (simp add: rem_trunc_def)

lemma abs_quot_trunc_le: "\<bar>quot_trunc a b\<bar> \<le> \<bar>a\<bar>"
proof -
  have "\<bar>quot_trunc a b\<bar> \<le> \<bar>a\<bar> div \<bar>b\<bar>"
    by (auto simp: quot_trunc_def abs_mult sgn_if pos_imp_zdiv_nonneg_iff)
  also have "\<dots> \<le> \<bar>a\<bar>"
    by (cases "b = 0") (auto simp: zdiv_mono2 intro: order_trans [OF zdiv_mono2 [of _ 1]])
  finally show ?thesis .
qed

text \<open>\<open>u32::checked_add\<close>, \<open>u32::checked_mul\<close>.\<close>

definition checked_add_u32 :: "u32 \<Rightarrow> u32 \<Rightarrow> u32 option" where
  "checked_add_u32 a b = (if unat a + unat b < 2 ^ 32 then Some (a + b) else None)"

definition checked_mul_u32 :: "u32 \<Rightarrow> u32 \<Rightarrow> u32 option" where
  "checked_mul_u32 a b = (if unat a * unat b < 2 ^ 32 then Some (a * b) else None)"

lemma unat_u32_bound [simp]: "unat (a :: u32) < 4294967296"
  using unsigned_less [of a, where ?'a = nat] by simp

lemma checked_add_u32_Some [checked_simps]:
  "checked_add_u32 a b = Some c \<longleftrightarrow> unat c = unat a + unat b"
  using unat_u32_bound [of c]
  by (auto simp: checked_add_u32_def unat_word_ariths word_unat_eq_iff simp del: unat_u32_bound)

lemma checked_add_u32_None [checked_simps]:
  "checked_add_u32 a b = None \<longleftrightarrow> 2 ^ 32 \<le> unat a + unat b"
  by (auto simp: checked_add_u32_def)

lemma checked_mul_u32_Some [checked_simps]:
  "checked_mul_u32 a b = Some c \<longleftrightarrow> unat c = unat a * unat b"
  using unat_u32_bound [of c]
  by (auto simp: checked_mul_u32_def unat_word_ariths word_unat_eq_iff simp del: unat_u32_bound)

lemma checked_mul_u32_None [checked_simps]:
  "checked_mul_u32 a b = None \<longleftrightarrow> 2 ^ 32 \<le> unat a * unat b"
  by (auto simp: checked_mul_u32_def)

section \<open>Half-open intervals\<close>

lemma half_open_split:
  "(lo :: 'a::linorder) \<le> m \<Longrightarrow> m \<le> hi \<Longrightarrow>
     (lo \<le> x \<and> x < hi) \<longleftrightarrow> (lo \<le> x \<and> x < m) \<or> (m \<le> x \<and> x < hi)"
  by (meson leI order.strict_trans2 order.trans)

section \<open>Ordered maps\<close>

text \<open>
  \<open>BTreeMap\<close> as its entries in key order. \<open>map.entry(k).and_modify(g).or_insert(d)\<close> is
  \<open>btree_update k f map\<close> with \<open>f None = d\<close> and \<open>f (Some v) = g v\<close>.
\<close>

fun btree_update :: "'k::linorder \<Rightarrow> ('v option \<Rightarrow> 'v) \<Rightarrow> ('k \<times> 'v) list \<Rightarrow> ('k \<times> 'v) list" where
  "btree_update k f [] = [(k, f None)]"
| "btree_update k f ((k', v) # m) =
     (if k < k' then (k, f None) # (k', v) # m
      else if k = k' then (k', f (Some v)) # m
      else (k', v) # btree_update k f m)"

definition btree_ok :: "('k::linorder \<times> 'v) list \<Rightarrow> bool" where
  "btree_ok m \<longleftrightarrow> sorted_wrt (<) (map fst m)"

text \<open>
  What a client of an entry map relies on: an update changes one key, and the entries
  come in strictly increasing key order.
\<close>

locale entry_map =
  fixes empty :: 'm
    and upd :: "'k::linorder \<Rightarrow> ('v option \<Rightarrow> 'v) \<Rightarrow> 'm \<Rightarrow> 'm"
    and entries :: "'m \<Rightarrow> ('k \<times> 'v) list"
    and ok :: "'m \<Rightarrow> bool"
  assumes ok_empty: "ok empty"
    and entries_empty: "entries empty = []"
    and ok_upd: "ok m \<Longrightarrow> ok (upd k f m)"
    and entries_upd:
      "ok m \<Longrightarrow> map_of (entries (upd k f m)) = (map_of (entries m))(k \<mapsto> f (map_of (entries m) k))"
    and entries_sorted: "ok m \<Longrightarrow> sorted_wrt (<) (map fst (entries m))"
begin

lemma entries_distinct: "ok m \<Longrightarrow> distinct (map fst (entries m))"
  using entries_sorted strict_sorted_iff by blast

lemma entries_map_of: "ok m \<Longrightarrow> (k, v) \<in> set (entries m) \<longleftrightarrow> map_of (entries m) k = Some v"
  using map_of_eq_Some_iff [OF entries_distinct] by metis

lemma ok_fold: "ok m \<Longrightarrow> ok (fold (\<lambda>(k, x). upd k (g x)) kvs m)"
  by (induction kvs arbitrary: m) (auto simp: ok_upd)

text \<open>
  Keeping one bound per key keeps exactly the facts the bounds state: a property that an
  update \<open>g x\<close> turns into the property of both the old entry and the new one holds of all
  entries afterwards exactly when it held of all before and holds of all updates.
\<close>

lemma entries_upd_all:
  assumes "ok m"
    and none: "P k (g x None) \<longleftrightarrow> Q k x"
    and some: "\<And>v. P k (g x (Some v)) \<longleftrightarrow> P k v \<and> Q k x"
  shows "(\<forall>(k', v) \<in> set (entries (upd k (g x) m)). P k' v) \<longleftrightarrow>
         (\<forall>(k', v) \<in> set (entries m). P k' v) \<and> Q k x"
proof -
  have after: "(\<forall>(k', v) \<in> set (entries (upd k (g x) m)). P k' v) \<longleftrightarrow>
      (\<forall>k' v. ((map_of (entries m))(k \<mapsto> g x (map_of (entries m) k))) k' = Some v \<longrightarrow> P k' v)"
    using assms(1) by (auto simp: entries_map_of ok_upd entries_upd split: if_splits)
  have before: "(\<forall>(k', v) \<in> set (entries m). P k' v) \<longleftrightarrow>
      (\<forall>k' v. map_of (entries m) k' = Some v \<longrightarrow> P k' v)"
    using assms(1) by (auto simp: entries_map_of)
  show ?thesis
    unfolding after before using none some
    by (cases "map_of (entries m) k") (auto split: if_splits)
qed

lemma entries_fold_all:
  assumes "ok m"
    and none: "\<And>k x. P k (g x None) \<longleftrightarrow> Q k x"
    and some: "\<And>k x v. P k (g x (Some v)) \<longleftrightarrow> P k v \<and> Q k x"
  shows "(\<forall>(k, v) \<in> set (entries (fold (\<lambda>(k, x). upd k (g x)) kvs m)). P k v) \<longleftrightarrow>
         (\<forall>(k, v) \<in> set (entries m). P k v) \<and> (\<forall>(k, x) \<in> set kvs. Q k x)"
  using assms(1)
proof (induction kvs arbitrary: m)
  case (Cons kx kvs)
  obtain k x where "kx = (k, x)" by force
  with Cons ok_upd entries_upd_all [OF Cons.prems, of P k g x Q] none some show ?case by auto
qed simp

end

lemma btree_update_keys: "fst ` set (btree_update k f m) = insert k (fst ` set m)"
  by (induction k f m rule: btree_update.induct) auto

lemma btree_ok_Cons: "btree_ok ((k, v) # m) \<longleftrightarrow> (\<forall>k' \<in> fst ` set m. k < k') \<and> btree_ok m"
  by (simp add: btree_ok_def)

lemma btree_ok_update: "btree_ok m \<Longrightarrow> btree_ok (btree_update k f m)"
proof (induction k f m rule: btree_update.induct)
  case (2 k f k' v m)
  then show ?case
    by (cases k k' rule: linorder_cases) (auto simp: btree_ok_Cons btree_update_keys)
qed (simp add: btree_ok_def)

lemma map_of_btree_update:
  "btree_ok m \<Longrightarrow> map_of (btree_update k f m) = (map_of m)(k \<mapsto> f (map_of m k))"
proof (induction k f m rule: btree_update.induct)
  case (2 k f k' v m)
  have "map_of m k = None" if "k \<le> k'"
    using that "2.prems" by (force simp: btree_ok_Cons map_of_eq_None_iff)
  with 2 show ?case
    by (cases k k' rule: linorder_cases) (auto simp: btree_ok_Cons fun_eq_iff)
qed auto

interpretation btree: entry_map "[]" btree_update "\<lambda>m. m" btree_ok
  by unfold_locales (simp_all add: btree_ok_update map_of_btree_update, simp_all add: btree_ok_def)

end
