(* ===== verification/Integers.thy ===== *)
theory Integers
  imports BlotPrelude
begin

text \<open>
  \<open>compiler/src/integer.rs\<close>: arbitrary-precision integers that keep machine values
  unboxed. \<open>num_bigint::BigInt\<close> is a dependency, so it is a parameter: a record of the
  operations the file calls, with the documented meaning of each as the hypothesis
  \<open>bigint_laws\<close>. The lemmas show that every operation computes the exact integer and
  keeps the representation canonical (\<open>Large\<close> never holds a value that fits \<open>i64\<close>),
  which is what makes the derived equality and hashing agree with integer equality.
\<close>

section \<open>The dependency\<close>

record 'b bigint =
  big_from :: "int \<Rightarrow> 'b"
  big_to_i64 :: "'b \<Rightarrow> i64 option"
  big_to_u64 :: "'b \<Rightarrow> u64 option"
  big_eq :: "'b \<Rightarrow> 'b \<Rightarrow> bool"
  big_less :: "'b \<Rightarrow> 'b \<Rightarrow> bool"
  big_add :: "'b \<Rightarrow> 'b \<Rightarrow> 'b"
  big_sub :: "'b \<Rightarrow> 'b \<Rightarrow> 'b"
  big_mul :: "'b \<Rightarrow> 'b \<Rightarrow> 'b"
  big_div :: "'b \<Rightarrow> 'b \<Rightarrow> 'b option"
  big_rem :: "'b \<Rightarrow> 'b \<Rightarrow> 'b option"
  big_neg :: "'b \<Rightarrow> 'b"
  big_shl :: "'b \<Rightarrow> nat \<Rightarrow> 'b"
  big_shr :: "'b \<Rightarrow> nat \<Rightarrow> 'b"
  big_bits :: "'b \<Rightarrow> nat"
  big_sign :: "'b \<Rightarrow> int"

text \<open>The length in bits of a magnitude: \<open>BigInt::bits\<close>.\<close>

fun bit_length :: "nat \<Rightarrow> nat" where
  "bit_length n = (if n = 0 then 0 else Suc (bit_length (n div 2)))"

declare bit_length.simps [simp del]

text \<open>
  What the documentation of \<open>num-bigint\<close> promises, for the number \<open>v b\<close> that \<open>b\<close>
  represents. Division and remainder by zero panic (\<open>None\<close>); \<open>>>\<close> rounds down.
\<close>

definition bigint_laws :: "'b bigint \<Rightarrow> ('b \<Rightarrow> int) \<Rightarrow> bool" where
  "bigint_laws B v \<longleftrightarrow>
     (\<forall>i. v (big_from B i) = i) \<and>
     (\<forall>b. big_to_i64 B b = checked_i64 (v b)) \<and>
     (\<forall>b. big_to_u64 B b = (if 0 \<le> v b \<and> v b < 2 ^ 64 then Some (word_of_int (v b)) else None)) \<and>
     (\<forall>a b. big_eq B a b \<longleftrightarrow> v a = v b) \<and>
     (\<forall>a b. big_less B a b \<longleftrightarrow> v a < v b) \<and>
     (\<forall>a b. v (big_add B a b) = v a + v b) \<and>
     (\<forall>a b. v (big_sub B a b) = v a - v b) \<and>
     (\<forall>a b. v (big_mul B a b) = v a * v b) \<and>
     (\<forall>a b. map_option v (big_div B a b) = (if v b = 0 then None else Some (quot_trunc (v a) (v b)))) \<and>
     (\<forall>a b. map_option v (big_rem B a b) = (if v b = 0 then None else Some (rem_trunc (v a) (v b)))) \<and>
     (\<forall>a. v (big_neg B a) = - v a) \<and>
     (\<forall>a n. v (big_shl B a n) = v a * 2 ^ n) \<and>
     (\<forall>a n. v (big_shr B a n) = v a div 2 ^ n) \<and>
     (\<forall>a. big_bits B a = bit_length (nat \<bar>v a\<bar>)) \<and>
     (\<forall>a. big_sign B a = sgn (v a))"

section \<open>The representation\<close>

datatype 'b integer = Small i64 | Large 'b

fun integer_value :: "('b \<Rightarrow> int) \<Rightarrow> 'b integer \<Rightarrow> int" where
  "integer_value v (Small w) = sint w"
| "integer_value v (Large b) = v b"

fun canonical :: "('b \<Rightarrow> int) \<Rightarrow> 'b integer \<Rightarrow> bool" where
  "canonical v (Small w) = True"
| "canonical v (Large b) = (\<not> in_i64 (v b))"

definition from_big :: "'b bigint \<Rightarrow> 'b \<Rightarrow> 'b integer" where
  "from_big B b = (case big_to_i64 B b of Some w \<Rightarrow> Small w | None \<Rightarrow> Large b)"

fun big :: "'b bigint \<Rightarrow> 'b integer \<Rightarrow> 'b" where
  "big B (Small w) = big_from B (sint w)"
| "big B (Large b) = b"

definition integer_default :: "'b integer" where
  "integer_default = Small 0"

text \<open>\<open>integer_from!\<close>: a machine integer of any width, given by its value.\<close>

definition integer_from :: "'b bigint \<Rightarrow> int \<Rightarrow> 'b integer" where
  "integer_from B i = (case checked_i64 i of Some w \<Rightarrow> Small w | None \<Rightarrow> from_big B (big_from B i))"

text \<open>The derived \<open>PartialEq\<close>: constructor by constructor.\<close>

fun integer_eq :: "'b bigint \<Rightarrow> 'b integer \<Rightarrow> 'b integer \<Rightarrow> bool" where
  "integer_eq B (Small a) (Small b) = (a = b)"
| "integer_eq B (Large a) (Large b) = big_eq B a b"
| "integer_eq B _ _ = False"

datatype ordering = Less | Equal | Greater

definition ordering_of :: "bool \<Rightarrow> bool \<Rightarrow> ordering" where
  "ordering_of lt eq = (if lt then Less else if eq then Equal else Greater)"

fun integer_cmp :: "'b bigint \<Rightarrow> 'b integer \<Rightarrow> 'b integer \<Rightarrow> ordering" where
  "integer_cmp B (Small a) (Small b) = ordering_of (a <s b) (a = b)"
| "integer_cmp B a b = ordering_of (big_less B (big B a) (big B b)) (big_eq B (big B a) (big B b))"

fun integer_to_i64 :: "'b bigint \<Rightarrow> 'b integer \<Rightarrow> i64 option" where
  "integer_to_i64 B (Small w) = Some w"
| "integer_to_i64 B (Large b) = None"

fun integer_to_u64 :: "'b bigint \<Rightarrow> 'b integer \<Rightarrow> u64 option" where
  "integer_to_u64 B (Small w) = (if 0 \<le> sint w then Some w else None)"
| "integer_to_u64 B (Large b) = big_to_u64 B b"

text \<open>\<open>u64::from(64 - value.unsigned_abs().leading_zeros())\<close>.\<close>

definition unsigned_abs :: "i64 \<Rightarrow> u64" where
  "unsigned_abs w = (if sint w < 0 then - w else w)"

definition leading_zeros :: "u64 \<Rightarrow> nat" where
  "leading_zeros w = length (takeWhile (\<lambda>i. \<not> bit w i) (rev [0..<64]))"

fun integer_bits :: "'b bigint \<Rightarrow> 'b integer \<Rightarrow> nat" where
  "integer_bits B (Small w) = 64 - leading_zeros (unsigned_abs w)"
| "integer_bits B (Large b) = big_bits B b"

fun integer_sign :: "'b bigint \<Rightarrow> 'b integer \<Rightarrow> int" where
  "integer_sign B (Small w) =
     (case ordering_of (w <s 0) (w = 0) of Less \<Rightarrow> -1 | Equal \<Rightarrow> 0 | Greater \<Rightarrow> 1)"
| "integer_sign B (Large b) = big_sign B b"

section \<open>Arithmetic\<close>

text \<open>
  \<open>binary_operation!\<close>: the checked machine operation first, the exact one otherwise.
  A division by zero fails both: the exact operation panics (\<open>None\<close>).
\<close>

definition binary_operation ::
  "'b bigint \<Rightarrow> (i64 \<Rightarrow> i64 \<Rightarrow> i64 option) \<Rightarrow> ('b \<Rightarrow> 'b \<Rightarrow> 'b option) \<Rightarrow>
   'b integer \<Rightarrow> 'b integer \<Rightarrow> 'b integer option" where
  "binary_operation B checked exact x y =
     (case (case (x, y) of (Small a, Small b) \<Rightarrow> checked a b | _ \<Rightarrow> None) of
        Some w \<Rightarrow> Some (Small w)
      | None \<Rightarrow> map_option (from_big B) (exact (big B x) (big B y)))"

definition integer_add :: "'b bigint \<Rightarrow> 'b integer \<Rightarrow> 'b integer \<Rightarrow> 'b integer option" where
  "integer_add B = binary_operation B (\<lambda>a b. checked_i64 (sint a + sint b)) (\<lambda>a b. Some (big_add B a b))"

definition integer_sub :: "'b bigint \<Rightarrow> 'b integer \<Rightarrow> 'b integer \<Rightarrow> 'b integer option" where
  "integer_sub B = binary_operation B (\<lambda>a b. checked_i64 (sint a - sint b)) (\<lambda>a b. Some (big_sub B a b))"

definition integer_mul :: "'b bigint \<Rightarrow> 'b integer \<Rightarrow> 'b integer \<Rightarrow> 'b integer option" where
  "integer_mul B = binary_operation B (\<lambda>a b. checked_i64 (sint a * sint b)) (\<lambda>a b. Some (big_mul B a b))"

definition integer_div :: "'b bigint \<Rightarrow> 'b integer \<Rightarrow> 'b integer \<Rightarrow> 'b integer option" where
  "integer_div B = binary_operation B
     (\<lambda>a b. if b = 0 then None else checked_i64 (quot_trunc (sint a) (sint b))) (big_div B)"

text \<open>\<open>i64::checked_rem\<close> is \<open>None\<close> on a zero divisor and when the quotient overflows.\<close>

definition integer_rem :: "'b bigint \<Rightarrow> 'b integer \<Rightarrow> 'b integer \<Rightarrow> 'b integer option" where
  "integer_rem B = binary_operation B
     (\<lambda>a b. if b = 0 \<or> \<not> in_i64 (quot_trunc (sint a) (sint b)) then None
            else checked_i64 (rem_trunc (sint a) (sint b))) (big_rem B)"

fun integer_neg :: "'b bigint \<Rightarrow> 'b integer \<Rightarrow> 'b integer" where
  "integer_neg B (Small w) =
     (case checked_i64 (- sint w) of Some n \<Rightarrow> Small n | None \<Rightarrow> from_big B (big_neg B (big B (Small w))))"
| "integer_neg B (Large b) = from_big B (big_neg B b)"

text \<open>\<open>i128::from(value) << shift\<close> for a shift below 64, then \<open>Integer::from\<close>.\<close>

fun integer_shl :: "'b bigint \<Rightarrow> 'b integer \<Rightarrow> nat \<Rightarrow> 'b integer" where
  "integer_shl B (Small w) n =
     (if w = 0 then integer_default
      else if n < 64 then integer_from B (sint (push_bit n (signed w :: i128)))
      else from_big B (big_shl B (big B (Small w)) n))"
| "integer_shl B (Large b) n = from_big B (big_shl B b n)"

fun integer_shr :: "'b bigint \<Rightarrow> 'b integer \<Rightarrow> nat \<Rightarrow> 'b integer" where
  "integer_shr B (Small w) n = integer_from B (sint (signed_drop_bit (min n 63) w))"
| "integer_shr B (Large b) n = from_big B (big_shr B b n)"

section \<open>Exactness and canonical form\<close>

lemma bigint_lawsD:
  assumes "bigint_laws B v"
  shows "v (big_from B i) = i"
    and "big_to_i64 B b = checked_i64 (v b)"
    and "big_to_u64 B b = (if 0 \<le> v b \<and> v b < 2 ^ 64 then Some (word_of_int (v b)) else None)"
    and "big_eq B a b \<longleftrightarrow> v a = v b"
    and "big_less B a b \<longleftrightarrow> v a < v b"
    and "v (big_add B a b) = v a + v b"
    and "v (big_sub B a b) = v a - v b"
    and "v (big_mul B a b) = v a * v b"
    and "map_option v (big_div B a b) = (if v b = 0 then None else Some (quot_trunc (v a) (v b)))"
    and "map_option v (big_rem B a b) = (if v b = 0 then None else Some (rem_trunc (v a) (v b)))"
    and "v (big_neg B a) = - v a"
    and "v (big_shl B a n) = v a * 2 ^ n"
    and "v (big_shr B a n) = v a div 2 ^ n"
    and "big_bits B a = bit_length (nat \<bar>v a\<bar>)"
    and "big_sign B a = sgn (v a)"
  using assms by (simp_all add: bigint_laws_def)

lemma value_from_big [simp]: "bigint_laws B v \<Longrightarrow> integer_value v (from_big B b) = v b"
  by (auto simp: from_big_def bigint_lawsD checked_i64_Some split: option.split)

lemma canonical_from_big [simp]: "bigint_laws B v \<Longrightarrow> canonical v (from_big B b)"
  by (auto simp: from_big_def bigint_lawsD split: option.split)

lemma value_big [simp]: "bigint_laws B v \<Longrightarrow> v (big B x) = integer_value v x"
  by (cases x) (auto simp: bigint_lawsD)

lemma value_integer_from [simp]: "bigint_laws B v \<Longrightarrow> integer_value v (integer_from B i) = i"
  by (auto simp: integer_from_def bigint_lawsD checked_i64_Some split: option.split)

lemma canonical_integer_from [simp]: "bigint_laws B v \<Longrightarrow> canonical v (integer_from B i)"
  by (auto simp: integer_from_def split: option.split)

text \<open>The one argument all five binary operations share.\<close>

lemma binary_operation_exact:
  assumes B: "bigint_laws B v"
    and checked: "\<And>a b w. checked a b = Some w \<Longrightarrow> f (sint a) (sint b) = Some (sint w)"
    and exact: "\<And>a b. map_option v (exact a b) = f (v a) (v b)"
  shows "map_option (integer_value v) (binary_operation B checked exact x y) =
           f (integer_value v x) (integer_value v y)
       \<and> pred_option (canonical v) (binary_operation B checked exact x y)"
proof (cases "case (x, y) of (Small a, Small b) \<Rightarrow> checked a b | _ \<Rightarrow> None")
  case None
  have "map_option (integer_value v) (map_option (from_big B) (exact (big B x) (big B y))) =
        map_option v (exact (big B x) (big B y))"
    using B by (simp add: option.map_comp comp_def)
  also have "\<dots> = f (integer_value v x) (integer_value v y)"
    using B by (simp add: exact)
  finally show ?thesis
    using None B by (simp add: binary_operation_def option.pred_map comp_def option.pred_True)
next
  case (Some w)
  then obtain a b where "x = Small a" "y = Small b" "checked a b = Some w"
    by (auto split: integer.splits)
  then show ?thesis
    by (simp add: binary_operation_def checked)
qed

lemma integer_add_exact:
  "bigint_laws B v \<Longrightarrow>
     map_option (integer_value v) (integer_add B x y) = Some (integer_value v x + integer_value v y)
   \<and> pred_option (canonical v) (integer_add B x y)"
  unfolding integer_add_def
  by (rule binary_operation_exact) (auto simp: checked_i64_Some bigint_lawsD)

lemma integer_sub_exact:
  "bigint_laws B v \<Longrightarrow>
     map_option (integer_value v) (integer_sub B x y) = Some (integer_value v x - integer_value v y)
   \<and> pred_option (canonical v) (integer_sub B x y)"
  unfolding integer_sub_def
  by (rule binary_operation_exact) (auto simp: checked_i64_Some bigint_lawsD)

lemma integer_mul_exact:
  "bigint_laws B v \<Longrightarrow>
     map_option (integer_value v) (integer_mul B x y) = Some (integer_value v x * integer_value v y)
   \<and> pred_option (canonical v) (integer_mul B x y)"
  unfolding integer_mul_def
  by (rule binary_operation_exact) (auto simp: checked_i64_Some bigint_lawsD)

lemma integer_div_exact:
  "bigint_laws B v \<Longrightarrow>
     map_option (integer_value v) (integer_div B x y) =
       (if integer_value v y = 0 then None else Some (quot_trunc (integer_value v x) (integer_value v y)))
   \<and> pred_option (canonical v) (integer_div B x y)"
  unfolding integer_div_def
  by (rule binary_operation_exact) (auto simp: checked_i64_Some bigint_lawsD split: if_splits)

lemma integer_rem_exact:
  "bigint_laws B v \<Longrightarrow>
     map_option (integer_value v) (integer_rem B x y) =
       (if integer_value v y = 0 then None else Some (rem_trunc (integer_value v x) (integer_value v y)))
   \<and> pred_option (canonical v) (integer_rem B x y)"
  unfolding integer_rem_def
  by (rule binary_operation_exact) (auto simp: checked_i64_Some bigint_lawsD split: if_splits)

lemma integer_neg_exact:
  "bigint_laws B v \<Longrightarrow> integer_value v (integer_neg B x) = - integer_value v x \<and> canonical v (integer_neg B x)"
  by (cases x) (auto simp: bigint_lawsD checked_i64_Some split: option.split)

section \<open>Shifts\<close>

lemma sint_push_bit_i128:
  assumes "n < 64"
  shows "sint (push_bit n (signed (w :: i64) :: i128)) = sint w * 2 ^ n"
proof -
  have n: "(2 :: int) ^ n \<le> 2 ^ 63"
    using assms by (intro power_increasing) auto
  have w: "- (2 ^ 63) \<le> sint w" "sint w < 2 ^ 63"
    using sint_in_i64 [of w] by (auto simp: in_i64_def)
  have "\<bar>sint w\<bar> * 2 ^ n \<le> 2 ^ 63 * 2 ^ 63"
    using n w by (intro mult_mono) auto
  then have "\<bar>sint w * 2 ^ n\<bar> \<le> 2 ^ 126"
    by (simp add: abs_mult)
  then have range: "- (2 ^ 127) \<le> sint w * 2 ^ n" "sint w * 2 ^ n < 2 ^ 127"
    by (auto simp: abs_le_iff)
  have shifted: "push_bit n (signed w :: i128) = word_of_int (sint w * 2 ^ n)"
    by (simp add: push_bit_eq_mult)
  show ?thesis
    unfolding shifted sint_sbintrunc' using range by (simp add: signed_take_bit_int_eq_self)
qed

lemma div_power_min_63: "in_i64 a \<Longrightarrow> a div 2 ^ min n 63 = a div 2 ^ n"
proof (cases "n \<le> 63")
  case False
  assume a: "in_i64 a"
  from False have n: "(2 :: int) ^ 63 \<le> 2 ^ n"
    by (intro power_increasing) auto
  show ?thesis
  proof (cases "0 \<le> a")
    case True
    with a n False show ?thesis
      by (auto simp: in_i64_def min_def div_pos_pos_trivial)
  next
    case False
    with a n have "a div 2 ^ 63 = - 1" "a div 2 ^ n = - 1"
      by (auto simp: in_i64_def intro: int_div_pos_eq [where r = "a + 2 ^ n"]
          int_div_pos_eq [where r = "a + 2 ^ 63"])
    with \<open>\<not> n \<le> 63\<close> show ?thesis
      by (simp add: min_def)
  qed
qed (simp add: min_def)

lemma integer_shl_exact:
  "bigint_laws B v \<Longrightarrow>
     integer_value v (integer_shl B x n) = integer_value v x * 2 ^ n \<and> canonical v (integer_shl B x n)"
  by (cases x) (auto simp: bigint_lawsD sint_push_bit_i128 integer_default_def)

lemma integer_shr_exact:
  "bigint_laws B v \<Longrightarrow>
     integer_value v (integer_shr B x n) = integer_value v x div 2 ^ n \<and> canonical v (integer_shr B x n)"
  by (cases x)
    (auto simp: bigint_lawsD sint_signed_drop_bit_eq drop_bit_eq_div div_power_min_63)

section \<open>Comparison and conversions\<close>

lemma integer_cmp_exact:
  "bigint_laws B v \<Longrightarrow>
     integer_cmp B x y =
       ordering_of (integer_value v x < integer_value v y) (integer_value v x = integer_value v y)"
  by (cases x; cases y) (auto simp: bigint_lawsD word_sless_alt ordering_of_def)

lemma integer_eq_exact:
  "bigint_laws B v \<Longrightarrow> canonical v x \<Longrightarrow> canonical v y \<Longrightarrow>
     integer_eq B x y \<longleftrightarrow> integer_value v x = integer_value v y"
  using sint_in_i64 by (cases x; cases y) (auto simp: bigint_lawsD, (metis sint_in_i64)+)

lemma integer_to_i64_exact:
  "bigint_laws B v \<Longrightarrow> canonical v x \<Longrightarrow> integer_to_i64 B x = checked_i64 (integer_value v x)"
  by (cases x) (auto simp: checked_i64_def)

lemma integer_to_u64_exact:
  "bigint_laws B v \<Longrightarrow>
     integer_to_u64 B x =
       (if 0 \<le> integer_value v x \<and> integer_value v x < 2 ^ 64
        then Some (word_of_int (integer_value v x)) else None)"
proof (cases x)
  case (Small w)
  then show ?thesis
    using sint_in_i64 [of w] by (simp add: in_i64_def)
qed (simp add: bigint_lawsD)

lemma integer_sign_exact:
  "bigint_laws B v \<Longrightarrow> integer_sign B x = sgn (integer_value v x)"
  by (cases x) (auto simp: bigint_lawsD ordering_of_def word_sless_alt sgn_if)

lemma unat_unsigned_abs: "unat (unsigned_abs w) = nat \<bar>sint w\<bar>"
proof (cases "sint w < 0")
  case True
  have "- (2 ^ 63) \<le> sint w"
    using sint_in_i64 [of w] by (simp add: in_i64_def)
  moreover have "- w = word_of_int (- sint w)"
    by simp
  ultimately have "uint (- w) = - sint w"
    using True by (simp only: unsigned_of_int) (simp add: take_bit_int_eq_self)
  then show ?thesis
    using True by (simp add: unsigned_abs_def flip: nat_uint_eq)
next
  case False
  moreover have "sint w < 2 ^ 63"
    using sint_in_i64 [of w] by (simp add: in_i64_def)
  ultimately have "uint w = sint w"
    by (simp add: uint_sint take_bit_int_eq_self)
  with False show ?thesis
    by (simp add: unsigned_abs_def flip: nat_uint_eq)
qed

text \<open>The bit count: the leading zeros of a word below \<open>2 ^ k\<close> read off its magnitude.\<close>

lemma bit_length_0 [simp]: "bit_length 0 = 0"
  by (simp add: bit_length.simps)

lemma bit_length_top: "2 ^ k \<le> n \<Longrightarrow> n < 2 ^ Suc k \<Longrightarrow> bit_length n = Suc k"
proof (induction k arbitrary: n)
  case 0
  then have "n = 1" by simp
  then show ?case by (simp add: bit_length.simps)
next
  case (Suc k)
  then have "2 ^ k \<le> n div 2" "n div 2 < 2 ^ Suc k" by auto
  then have "bit_length (n div 2) = Suc k" by (rule Suc.IH)
  with Suc.prems show ?case by (subst bit_length.simps) auto
qed

lemma bit_length_le: "n < 2 ^ k \<Longrightarrow> bit_length n \<le> k"
proof (induction k arbitrary: n)
  case (Suc k)
  then have "bit_length (n div 2) \<le> k" by (intro Suc.IH) auto
  then show ?case by (subst bit_length.simps) auto
qed simp

lemma leading_zeros_nat:
  "n < 2 ^ k \<Longrightarrow> length (takeWhile (\<lambda>i. \<not> bit n i) (rev [0..<k])) = k - bit_length n"
proof (induction k)
  case (Suc k)
  show ?case
  proof (cases "n < 2 ^ k")
    case True
    then have "\<not> bit n k" "bit_length n \<le> k"
      by (simp_all add: bit_iff_odd bit_length_le)
    with True Suc.IH show ?thesis by (simp add: Suc_diff_le)
  next
    case False
    with Suc.prems have "n div 2 ^ k = 1"
      by (intro div_nat_eqI) auto
    with False Suc.prems show ?thesis
      by (simp add: bit_iff_odd bit_length_top [of k])
  qed
qed simp

lemma integer_bits_exact:
  assumes "bigint_laws B v"
  shows "integer_bits B x = bit_length (nat \<bar>integer_value v x\<bar>)"
proof (cases x)
  case (Small w)
  let ?u = "unsigned_abs w"
  have u: "unat ?u < 2 ^ 64"
    using unsigned_less [of ?u, where ?'a = nat] by simp
  have "leading_zeros ?u = length (takeWhile (\<lambda>i. \<not> bit (unat ?u) i) (rev [0..<64]))"
    unfolding leading_zeros_def
    by (intro arg_cong [where f = length] takeWhile_cong) (auto simp: bit_unsigned_iff)
  also have "\<dots> = 64 - bit_length (unat ?u)"
    using u by (rule leading_zeros_nat)
  finally have "64 - leading_zeros ?u = bit_length (unat ?u)"
    using bit_length_le [OF u] by simp
  with Small show ?thesis by (simp add: unat_unsigned_abs)
qed (use assms in \<open>simp add: bigint_lawsD\<close>)

section \<open>An implementation of the dependency\<close>

text \<open>HOL's integers satisfy the documented laws, so the hypothesis can hold.\<close>

definition int_bigint :: "int bigint" where
  "int_bigint = \<lparr>
     big_from = id, big_to_i64 = checked_i64,
     big_to_u64 = (\<lambda>b. if 0 \<le> b \<and> b < 2 ^ 64 then Some (word_of_int b) else None),
     big_eq = (=), big_less = (<), big_add = (+), big_sub = (-), big_mul = (*),
     big_div = (\<lambda>a b. if b = 0 then None else Some (quot_trunc a b)),
     big_rem = (\<lambda>a b. if b = 0 then None else Some (rem_trunc a b)),
     big_neg = uminus, big_shl = (\<lambda>a n. a * 2 ^ n), big_shr = (\<lambda>a n. a div 2 ^ n),
     big_bits = (\<lambda>a. bit_length (nat \<bar>a\<bar>)), big_sign = sgn \<rparr>"

lemma int_bigint_laws: "bigint_laws int_bigint id"
  by (simp add: bigint_laws_def int_bigint_def)

section \<open>Properties\<close>

text \<open>
  C29. Addition, subtraction, multiplication, negation and both shifts of \<open>Integer\<close>
  compute the exact integer whatever the mix of small and large operands, with overflow
  of the machine operation taken over by the big one, and return a canonical
  representation.
\<close>

theorem integer_arithmetic_exact:
  assumes "bigint_laws B v"
  shows "(\<exists>z. integer_add B x y = Some z \<and> integer_value v z = integer_value v x + integer_value v y \<and> canonical v z)
    \<and> (\<exists>z. integer_sub B x y = Some z \<and> integer_value v z = integer_value v x - integer_value v y \<and> canonical v z)
    \<and> (\<exists>z. integer_mul B x y = Some z \<and> integer_value v z = integer_value v x * integer_value v y \<and> canonical v z)
    \<and> integer_value v (integer_neg B x) = - integer_value v x \<and> canonical v (integer_neg B x)
    \<and> integer_value v (integer_shl B x n) = integer_value v x * 2 ^ n \<and> canonical v (integer_shl B x n)
    \<and> integer_value v (integer_shr B x n) = integer_value v x div 2 ^ n \<and> canonical v (integer_shr B x n)"
  using integer_add_exact [OF assms, of x y] integer_sub_exact [OF assms, of x y]
    integer_mul_exact [OF assms, of x y] integer_neg_exact [OF assms]
    integer_shl_exact [OF assms] integer_shr_exact [OF assms]
  by (auto simp: map_option_eq_Some)

theorem integer_arithmetic_exact_witness:
  "(\<exists>z. integer_add int_bigint (Small (word_of_int (2 ^ 63 - 1))) (Small 1) = Some z
        \<and> integer_value id z = 2 ^ 63 \<and> canonical id z)
   \<and> integer_value id (integer_shl int_bigint (Small (word_of_int (- (2 ^ 62)))) 2) = - (2 ^ 64)"
  using integer_arithmetic_exact [OF int_bigint_laws, of "Small (word_of_int (2 ^ 63 - 1))" "Small 1"]
    integer_arithmetic_exact [OF int_bigint_laws, of "Small (word_of_int (- (2 ^ 62)))" _ 2]
  by (simp add: sint_of_int_i64 in_i64_def)

text \<open>
  C30. Division and remainder truncate towards zero exactly, including \<open>i64::MIN / -1\<close>,
  whose machine quotient overflows; they fail (panic) exactly on a zero divisor.
\<close>

theorem integer_division_exact:
  assumes "bigint_laws B v"
  shows "map_option (integer_value v) (integer_div B x y) =
           (if integer_value v y = 0 then None else Some (quot_trunc (integer_value v x) (integer_value v y)))
    \<and> map_option (integer_value v) (integer_rem B x y) =
           (if integer_value v y = 0 then None else Some (rem_trunc (integer_value v x) (integer_value v y)))
    \<and> pred_option (canonical v) (integer_div B x y)
    \<and> pred_option (canonical v) (integer_rem B x y)"
  using integer_div_exact [OF assms] integer_rem_exact [OF assms] by auto

theorem integer_division_exact_witness:
  "map_option (integer_value id)
     (integer_div int_bigint (Small (word_of_int (- (2 ^ 63)))) (Small (word_of_int (- 1)))) = Some (2 ^ 63)"
  using integer_division_exact
    [OF int_bigint_laws, of "Small (word_of_int (- (2 ^ 63)))" "Small (word_of_int (- 1))"]
  by (simp add: sint_of_int_i64 in_i64_def quot_trunc_def)



end
