(* ===== verification/PartitionProofs.thy ===== *)
theory PartitionProofs
  imports BlotPrelude
begin

text \<open>
  \<open>compiler/src/partition.rs\<close>: the proof algebra of partitioned authority. A witness
  records that a parent part of a family was split in two; combining checks a witness
  exactly, and reassociation rotates two nested witnesses. What a family's parts mean is
  the interface \<open>partition_family\<close>; the rectangle family of the file interprets it.
\<close>

section \<open>Witnesses\<close>

record ('f, 'p) partition_witness =
  family :: 'f
  parent :: 'p
  left_part :: 'p
  right_part :: 'p

datatype direction = DirectionLeft | DirectionRight

datatype partition_error =
  FamilyMismatch | LeftMismatch | RightMismatch | InnerParentMismatch | CompositionRefused

definition combine_partition ::
  "'f \<Rightarrow> ('f, 'p) partition_witness \<Rightarrow> 'p \<Rightarrow> 'p \<Rightarrow> (partition_error, 'p) result" where
  "combine_partition fam w l r =
     (if fam \<noteq> family w then Inl FamilyMismatch
      else if l \<noteq> left_part w then Inl LeftMismatch
      else if r \<noteq> right_part w then Inl RightMismatch
      else Inr (parent w))"

fun reassociate_partition ::
  "direction \<Rightarrow> ('f, 'p) partition_witness \<Rightarrow> ('f, 'p) partition_witness \<Rightarrow>
   ('f \<Rightarrow> 'p \<Rightarrow> 'p \<Rightarrow> 'p option) \<Rightarrow>
   (partition_error, ('f, 'p) partition_witness \<times> ('f, 'p) partition_witness) result" where
  "reassociate_partition DirectionLeft outer inner compose =
     (if family outer \<noteq> family inner then Inl FamilyMismatch
      else if right_part outer \<noteq> parent inner then Inl InnerParentMismatch
      else (case compose (family outer) (left_part outer) (left_part inner) of
              None \<Rightarrow> Inl CompositionRefused
            | Some joined \<Rightarrow>
                Inr (\<lparr>family = family outer, parent = parent outer,
                      left_part = joined, right_part = right_part inner\<rparr>,
                     \<lparr>family = family outer, parent = joined,
                      left_part = left_part outer, right_part = left_part inner\<rparr>)))"
| "reassociate_partition DirectionRight outer inner compose =
     (if family outer \<noteq> family inner then Inl FamilyMismatch
      else if left_part outer \<noteq> parent inner then Inl InnerParentMismatch
      else (case compose (family outer) (right_part inner) (right_part outer) of
              None \<Rightarrow> Inl CompositionRefused
            | Some joined \<Rightarrow>
                Inr (\<lparr>family = family outer, parent = parent outer,
                      left_part = left_part inner, right_part = joined\<rparr>,
                     \<lparr>family = family outer, parent = joined,
                      left_part = right_part inner, right_part = right_part outer\<rparr>)))"

fun opposite :: "direction \<Rightarrow> direction" where
  "opposite DirectionLeft = DirectionRight"
| "opposite DirectionRight = DirectionLeft"

text \<open>A witness records a real composition, and its leaves in order under a nesting.\<close>

definition witnesses :: "('f \<Rightarrow> 'p \<Rightarrow> 'p \<Rightarrow> 'p option) \<Rightarrow> ('f, 'p) partition_witness \<Rightarrow> bool" where
  "witnesses compose w \<longleftrightarrow> compose (family w) (left_part w) (right_part w) = Some (parent w)"

fun leaves :: "direction \<Rightarrow> ('f, 'p) partition_witness \<times> ('f, 'p) partition_witness \<Rightarrow> 'p list" where
  "leaves DirectionLeft (outer, inner) = [left_part outer, left_part inner, right_part inner]"
| "leaves DirectionRight (outer, inner) = [left_part inner, right_part inner, right_part outer]"

lemma combine_partition_Inr [simp]:
  "combine_partition fam w l r = Inr p \<longleftrightarrow>
     fam = family w \<and> l = left_part w \<and> r = right_part w \<and> p = parent w"
  by (auto simp: combine_partition_def)

lemma reassociate_leaves:
  assumes "reassociate_partition d outer inner compose = Inr (outer', inner')"
  shows "leaves (opposite d) (outer', inner') = leaves d (outer, inner)
       \<and> parent outer' = parent outer \<and> family outer' = family outer \<and> family inner' = family outer
       \<and> (case d of DirectionLeft \<Rightarrow> left_part outer' = parent inner'
                  | DirectionRight \<Rightarrow> right_part outer' = parent inner')"
  using assms by (cases d) (auto split: if_splits option.splits)

lemma reassociate_undone:
  assumes "reassociate_partition d outer inner compose = Inr (outer', inner')"
    and "witnesses compose inner"
  shows "reassociate_partition (opposite d) outer' inner' compose = Inr (outer, inner)"
  using assms by (cases d) (auto simp: witnesses_def split: if_splits option.splits)

section \<open>The interface of a family\<close>

text \<open>
  What the ownership checker relies on: the composition of two well-formed parts covers
  exactly what they cover, without overlap, and rotating a composition that exists keeps
  the result.
\<close>

locale partition_family =
  fixes compose :: "'f \<Rightarrow> 'p \<Rightarrow> 'p \<Rightarrow> 'p option"
    and footprint :: "'p \<Rightarrow> 'c set"
    and wf_part :: "'p \<Rightarrow> bool"
  assumes compose_wf:
      "wf_part a \<Longrightarrow> wf_part b \<Longrightarrow> compose f a b = Some c \<Longrightarrow> wf_part c"
    and compose_covers:
      "wf_part a \<Longrightarrow> wf_part b \<Longrightarrow> compose f a b = Some c \<Longrightarrow>
         footprint c = footprint a \<union> footprint b \<and> footprint a \<inter> footprint b = {}"
    and compose_rotate_left:
      "wf_part a \<Longrightarrow> wf_part b \<Longrightarrow> wf_part c \<Longrightarrow> compose f b c = Some bc \<Longrightarrow>
         compose f a bc = Some abc \<Longrightarrow> compose f a b = Some ab \<Longrightarrow> compose f ab c = Some abc"
    and compose_rotate_right:
      "wf_part a \<Longrightarrow> wf_part b \<Longrightarrow> wf_part c \<Longrightarrow> compose f a b = Some ab \<Longrightarrow>
         compose f ab c = Some abc \<Longrightarrow> compose f b c = Some bc \<Longrightarrow> compose f a bc = Some abc"
begin

lemma witness_covers:
  assumes "witnesses compose w" and "wf_part (left_part w)" and "wf_part (right_part w)"
  shows "footprint (parent w) = footprint (left_part w) \<union> footprint (right_part w)
       \<and> footprint (left_part w) \<inter> footprint (right_part w) = {}"
  using assms unfolding witnesses_def by (intro compose_covers) auto

lemma rotation_keeps_witnesses:
  assumes "reassociate_partition d outer inner compose = Inr (outer', inner')"
    and "witnesses compose outer" and "witnesses compose inner"
    and "\<forall>p \<in> set (leaves d (outer, inner)). wf_part p"
  shows "witnesses compose outer' \<and> witnesses compose inner'"
proof (cases d)
  case DirectionLeft
  then obtain ab where "compose (family outer) (left_part outer) (left_part inner) = Some ab"
    "outer' = \<lparr>family = family outer, parent = parent outer, left_part = ab, right_part = right_part inner\<rparr>"
    "inner' = \<lparr>family = family outer, parent = ab, left_part = left_part outer, right_part = left_part inner\<rparr>"
    "family outer = family inner" "right_part outer = parent inner"
    using assms(1) by (auto split: if_splits option.splits)
  with DirectionLeft assms(2-4) show ?thesis
    by (auto simp: witnesses_def intro: compose_rotate_left)
next
  case DirectionRight
  then obtain bc where "compose (family outer) (right_part inner) (right_part outer) = Some bc"
    "outer' = \<lparr>family = family outer, parent = parent outer, left_part = left_part inner, right_part = bc\<rparr>"
    "inner' = \<lparr>family = family outer, parent = bc, left_part = right_part inner, right_part = right_part outer\<rparr>"
    "family outer = family inner" "left_part outer = parent inner"
    using assms(1) by (auto split: if_splits option.splits)
  with DirectionRight assms(2-4) show ?thesis
    by (auto simp: witnesses_def intro: compose_rotate_right)
qed

lemma rotation_keeps_wf:
  assumes "reassociate_partition d outer inner compose = Inr (outer', inner')"
    and "witnesses compose inner'"
    and "\<forall>p \<in> set (leaves d (outer, inner)). wf_part p"
  shows "wf_part (left_part outer') \<and> wf_part (right_part outer')"
proof -
  have "\<forall>p \<in> set (leaves (opposite d) (outer', inner')). wf_part p"
    using assms(3) reassociate_leaves [OF assms(1)] by simp
  moreover from this have "wf_part (parent inner')"
    using assms(2) unfolding witnesses_def by (cases d) (auto intro: compose_wf)
  ultimately show ?thesis
    using reassociate_leaves [OF assms(1)] by (cases d) auto
qed

end

section \<open>The rectangle family\<close>

record rectangle_footprint =
  root :: string
  x0 :: u32
  x1 :: u32
  y0 :: u32
  y1 :: u32

definition compose_rectangle ::
  "rectangle_footprint \<Rightarrow> rectangle_footprint \<Rightarrow> rectangle_footprint option" where
  "compose_rectangle l r =
     (if root l \<noteq> root r then None
      else if y0 l = y0 r \<and> y1 l = y1 r \<and> x1 l = x0 r then Some (l\<lparr>x1 := x1 r\<rparr>)
      else if x0 l = x0 r \<and> x1 l = x1 r \<and> y1 l = y0 r then Some (l\<lparr>y1 := y1 r\<rparr>)
      else None)"

definition rectangle_contains :: "rectangle_footprint \<Rightarrow> u32 \<Rightarrow> u32 \<Rightarrow> bool" where
  "rectangle_contains f x y \<longleftrightarrow> x0 f \<le> x \<and> x < x1 f \<and> y0 f \<le> y \<and> y < y1 f"

definition rectangle_cells :: "rectangle_footprint \<Rightarrow> (string \<times> u32 \<times> u32) set" where
  "rectangle_cells f = {(root f, x, y) | x y. rectangle_contains f x y}"

definition inhabited_rectangle :: "rectangle_footprint \<Rightarrow> bool" where
  "inhabited_rectangle f \<longleftrightarrow> x0 f < x1 f \<and> y0 f < y1 f"

lemma compose_rectangle_cases:
  assumes "compose_rectangle l r = Some c"
  obtains (beside) "root l = root r" "y0 l = y0 r" "y1 l = y1 r" "x1 l = x0 r" "c = l\<lparr>x1 := x1 r\<rparr>"
  | (above) "root l = root r" "x0 l = x0 r" "x1 l = x1 r" "y1 l = y0 r" "c = l\<lparr>y1 := y1 r\<rparr>"
  using assms by (auto simp: compose_rectangle_def split: if_splits)

lemma compose_rectangle_contains:
  assumes "inhabited_rectangle a" and "inhabited_rectangle b" and "compose_rectangle a b = Some c"
  shows "rectangle_contains c x y \<longleftrightarrow> rectangle_contains a x y \<or> rectangle_contains b x y"
  using assms(3)
proof (cases rule: compose_rectangle_cases)
  case beside
  with assms(1,2) show ?thesis
    using half_open_split [of "x0 a" "x1 a" "x1 b" x]
    by (auto simp: rectangle_contains_def inhabited_rectangle_def)
next
  case above
  with assms(1,2) show ?thesis
    using half_open_split [of "y0 a" "y1 a" "y1 b" y]
    by (auto simp: rectangle_contains_def inhabited_rectangle_def)
qed

lemma compose_rectangle_covers:
  assumes "inhabited_rectangle a" and "inhabited_rectangle b" and "compose_rectangle a b = Some c"
  shows "rectangle_cells c = rectangle_cells a \<union> rectangle_cells b
       \<and> rectangle_cells a \<inter> rectangle_cells b = {}"
proof -
  have roots: "root c = root a" "root b = root a"
    using assms(3) by (auto elim: compose_rectangle_cases)
  have "\<not> (rectangle_contains a x y \<and> rectangle_contains b x y)" for x y
    using assms(3) by (cases rule: compose_rectangle_cases) (auto simp: rectangle_contains_def)
  then show ?thesis
    unfolding rectangle_cells_def roots compose_rectangle_contains [OF assms] by blast
qed

interpretation rectangles: partition_family
  "\<lambda>_. compose_rectangle" rectangle_cells inhabited_rectangle
proof unfold_locales
  fix a b c :: rectangle_footprint
  assume "inhabited_rectangle a" "inhabited_rectangle b" "compose_rectangle a b = Some c"
  then show "inhabited_rectangle c"
    using order.strict_trans by (fastforce simp: inhabited_rectangle_def elim: compose_rectangle_cases)
next
  fix a b c :: rectangle_footprint
  assume "inhabited_rectangle a" "inhabited_rectangle b" "compose_rectangle a b = Some c"
  then show "rectangle_cells c = rectangle_cells a \<union> rectangle_cells b
      \<and> rectangle_cells a \<inter> rectangle_cells b = {}"
    by (simp add: compose_rectangle_covers)
next
  fix a b c bc abc ab :: rectangle_footprint
  assume "inhabited_rectangle a" "inhabited_rectangle b" "inhabited_rectangle c"
    "compose_rectangle b c = Some bc" "compose_rectangle a bc = Some abc" "compose_rectangle a b = Some ab"
  then show "compose_rectangle ab c = Some abc"
    by (elim compose_rectangle_cases) (simp_all add: inhabited_rectangle_def compose_rectangle_def)
next
  fix a b c bc abc ab :: rectangle_footprint
  assume "inhabited_rectangle a" "inhabited_rectangle b" "inhabited_rectangle c"
    "compose_rectangle a b = Some ab" "compose_rectangle ab c = Some abc" "compose_rectangle b c = Some bc"
  then show "compose_rectangle a bc = Some abc"
    by (elim compose_rectangle_cases) (simp_all add: inhabited_rectangle_def compose_rectangle_def)
qed

section \<open>Properties\<close>

text \<open>
  C32. A reassociation keeps the three leaves and their order, keeps the outer parent, and
  is undone exactly by the opposite rotation whenever the inner witness records a real
  composition.
\<close>

theorem reassociation_round_trip:
  assumes "reassociate_partition d outer inner compose = Inr (outer', inner')"
    and "witnesses compose inner"
  shows "leaves (opposite d) (outer', inner') = leaves d (outer, inner)
       \<and> parent outer' = parent outer
       \<and> reassociate_partition (opposite d) outer' inner' compose = Inr (outer, inner)"
  using reassociate_leaves [OF assms(1)] reassociate_undone [OF assms] by simp

definition example_rectangle :: "u32 \<Rightarrow> u32 \<Rightarrow> rectangle_footprint" where
  "example_rectangle a b = \<lparr>root = ''r'', x0 = a, x1 = b, y0 = 0, y1 = 4\<rparr>"

definition example_witness :: "u32 \<Rightarrow> u32 \<Rightarrow> u32 \<Rightarrow> (string, rectangle_footprint) partition_witness" where
  "example_witness a b c = \<lparr>family = ''rectangle'', parent = example_rectangle a c,
     left_part = example_rectangle a b, right_part = example_rectangle b c\<rparr>"

lemmas example_simps = example_witness_def example_rectangle_def compose_rectangle_def
  witnesses_def inhabited_rectangle_def

lemma example_rotation:
  "reassociate_partition DirectionLeft (example_witness 0 2 8) (example_witness 2 5 8) (\<lambda>_. compose_rectangle)
   = Inr (example_witness 0 5 8, example_witness 0 2 5)"
  by (simp add: example_simps)

theorem reassociation_round_trip_witness:
  "reassociate_partition DirectionRight (example_witness 0 5 8) (example_witness 0 2 5) (\<lambda>_. compose_rectangle)
   = Inr (example_witness 0 2 8, example_witness 2 5 8)"
proof -
  have "witnesses (\<lambda>_. compose_rectangle) (example_witness 2 5 8)"
    by (simp add: example_simps)
  from reassociation_round_trip [OF example_rotation this] show ?thesis by simp
qed

text \<open>
  For inhabited rectangles, a rotation turns valid witnesses into valid witnesses, and
  the outer parent is exactly the disjoint union of the two new parts: no cell of the
  authority is lost, gained or shared.
\<close>

theorem rectangle_reassociation_sound:
  assumes "reassociate_partition d outer inner (\<lambda>_. compose_rectangle) = Inr (outer', inner')"
    and "witnesses (\<lambda>_. compose_rectangle) outer" and "witnesses (\<lambda>_. compose_rectangle) inner"
    and "\<forall>p \<in> set (leaves d (outer, inner)). inhabited_rectangle p"
  shows "witnesses (\<lambda>_. compose_rectangle) outer' \<and> witnesses (\<lambda>_. compose_rectangle) inner'
       \<and> rectangle_cells (parent outer') = rectangle_cells (left_part outer') \<union> rectangle_cells (right_part outer')
       \<and> rectangle_cells (left_part outer') \<inter> rectangle_cells (right_part outer') = {}"
  using rectangles.rotation_keeps_witnesses [OF assms] rectangles.rotation_keeps_wf [OF assms(1) _ assms(4)]
    rectangles.witness_covers [of outer'] by simp

theorem rectangle_reassociation_sound_witness:
  "witnesses (\<lambda>_. compose_rectangle) (example_witness 0 5 8)
   \<and> rectangle_cells (example_rectangle 0 8) = rectangle_cells (example_rectangle 0 5) \<union> rectangle_cells (example_rectangle 5 8)"
proof -
  have "witnesses (\<lambda>_. compose_rectangle) (example_witness 0 2 8)"
    "witnesses (\<lambda>_. compose_rectangle) (example_witness 2 5 8)"
    "\<forall>p \<in> set (leaves DirectionLeft (example_witness 0 2 8, example_witness 2 5 8)). inhabited_rectangle p"
    by (simp_all add: example_simps)
  from rectangle_reassociation_sound [OF example_rotation this] show ?thesis
    by (simp add: example_witness_def)
qed

end
