(* ===== verification/DifferenceConstraints.thy ===== *)
theory DifferenceConstraints
  imports BlotPrelude "HOL-Library.Product_Lexorder"
begin

text \<open>
  \<open>compiler/src/relational_proof.rs\<close>: the difference constraints behind array-index
  proofs. A term is a literal or a variable with an offset; a constraint bounds the
  difference of two nodes; entailment is a bounded shortest-path search; \<open>forget_identity\<close>
  projects a variable away; \<open>Constraints\<close> indexes the edges by node and cuts a proof out
  of them. \<open>Integer\<close> is \<open>int\<close> here: theory \<open>Integers\<close> shows its operations exact. The
  meaning of a constraint is an inequality of node valuations; the lemmas show the search
  sound and complete and the projection exact for it.
\<close>

section \<open>Terms and constraints\<close>

type_synonym identity = u32

datatype node = Zero | NodeVariable identity

datatype rterm = Literal int | TermVariable identity int

record constraint =
  c_left :: node
  c_right :: node
  c_bound :: int

definition refinement_term_budget :: nat where "refinement_term_budget = 512"
definition refinement_edge_budget :: nat where "refinement_edge_budget = 2048"

text \<open>The derived \<open>Ord\<close>: \<open>Zero\<close> first, then the variables by identity.\<close>

instantiation node :: linorder
begin

fun less_eq_node :: "node \<Rightarrow> node \<Rightarrow> bool" where
  "less_eq_node Zero _ = True"
| "less_eq_node (NodeVariable i) Zero = False"
| "less_eq_node (NodeVariable i) (NodeVariable j) = (i \<le> j)"

definition less_node :: "node \<Rightarrow> node \<Rightarrow> bool" where
  "less_node a b \<longleftrightarrow> a \<le> b \<and> \<not> b \<le> a"

instance
proof
  fix a b c :: node
  show "a < b \<longleftrightarrow> a \<le> b \<and> \<not> b \<le> a" by (simp add: less_node_def)
  show "a \<le> a" by (cases a) auto
  show "a \<le> b \<Longrightarrow> b \<le> c \<Longrightarrow> a \<le> c" by (cases a; cases b; cases c) auto
  show "a \<le> b \<Longrightarrow> b \<le> a \<Longrightarrow> a = b" by (cases a; cases b) auto
  show "a \<le> b \<or> b \<le> a" by (cases a; cases b) auto
qed

end

fun term_node :: "rterm \<Rightarrow> node \<times> int" where
  "term_node (Literal v) = (Zero, v)"
| "term_node (TermVariable i k) = (NodeVariable i, k)"

fun shift :: "rterm \<Rightarrow> int \<Rightarrow> rterm" where
  "shift (Literal v) k = Literal (v + k)"
| "shift (TermVariable i c) k = TermVariable i (c + k)"

definition constraints_difference :: "rterm \<Rightarrow> rterm \<Rightarrow> int \<Rightarrow> constraint list" where
  "constraints_difference l r delta =
     (let (left_node, left_offset) = term_node l;
          (right_node, right_offset) = term_node r
      in [\<lparr>c_left = left_node, c_right = right_node, c_bound = right_offset - left_offset + delta\<rparr>])"

definition constraints_less_than :: "rterm \<Rightarrow> rterm \<Rightarrow> constraint list" where
  "constraints_less_than l r = constraints_difference l r (- 1)"

definition constraints_at_least :: "rterm \<Rightarrow> rterm \<Rightarrow> constraint list" where
  "constraints_at_least l r = constraints_difference r l 0"

definition constraints_at_most :: "rterm \<Rightarrow> rterm \<Rightarrow> constraint list" where
  "constraints_at_most l r = constraints_difference l r 0"

definition constraints_greater_than :: "rterm \<Rightarrow> rterm \<Rightarrow> constraint list" where
  "constraints_greater_than l r = constraints_difference r l (- 1)"

definition constraints_equal :: "rterm \<Rightarrow> rterm \<Rightarrow> constraint list" where
  "constraints_equal l r = constraints_difference l r 0 @ constraints_difference r l 0"

section \<open>Entailment\<close>

text \<open>
  One relaxation and one pass over the constraints; a pass reports whether it changed a
  distance. A missing key of the \<open>HashMap\<close> is a node not reached.
\<close>

type_synonym distances = "node \<rightharpoonup> int"

definition relax :: "constraint \<Rightarrow> distances \<times> bool \<Rightarrow> distances \<times> bool" where
  "relax c = (\<lambda>(d, changed).
     case d (c_right c) of
       None \<Rightarrow> (d, changed)
     | Some r \<Rightarrow>
         let candidate = r + c_bound c in
         (case d (c_left c) of
            Some current \<Rightarrow>
              if current \<le> candidate then (d, changed) else (d(c_left c \<mapsto> candidate), True)
          | None \<Rightarrow> (d(c_left c \<mapsto> candidate), True)))"

definition relax_pass :: "constraint list \<Rightarrow> distances \<Rightarrow> distances \<times> bool" where
  "relax_pass cs d = fold relax cs (d, False)"

fun relax_rounds :: "constraint list \<Rightarrow> nat \<Rightarrow> distances \<Rightarrow> distances" where
  "relax_rounds cs 0 d = d"
| "relax_rounds cs (Suc n) d =
     (let (d', changed) = relax_pass cs d in if \<not> changed then d' else relax_rounds cs n d')"

definition shortest_paths_from :: "node \<Rightarrow> constraint list \<Rightarrow> nat \<Rightarrow> distances" where
  "shortest_paths_from source cs node_count = relax_rounds cs node_count [source \<mapsto> 0]"

definition constraint_nodes :: "constraint list \<Rightarrow> node list" where
  "constraint_nodes cs = concat (map (\<lambda>c. [c_left c, c_right c]) cs) @ [Zero]"

fun entails_loop ::
  "constraint list \<Rightarrow> nat \<Rightarrow> (node \<rightharpoonup> distances) \<Rightarrow> constraint list \<Rightarrow> bool" where
  "entails_loop cs node_count cache [] = True"
| "entails_loop cs node_count cache (r # rs) =
     (let start = (case cache (c_right r) of
                     Some d \<Rightarrow> d
                   | None \<Rightarrow> shortest_paths_from (c_right r) cs node_count);
          cache' = cache(c_right r \<mapsto> start)
      in (case start (c_left r) of
            Some distance \<Rightarrow> if distance \<le> c_bound r then entails_loop cs node_count cache' rs else False
          | None \<Rightarrow> False))"

definition entails :: "constraint list \<Rightarrow> constraint list \<Rightarrow> bool" where
  "entails required cs = entails_loop cs (card (set (constraint_nodes cs))) Map.empty required"

definition term_less_than :: "rterm \<Rightarrow> rterm \<Rightarrow> constraint list \<Rightarrow> bool" where
  "term_less_than l r cs = entails (constraints_less_than l r) cs"

definition term_at_least :: "rterm \<Rightarrow> rterm \<Rightarrow> constraint list \<Rightarrow> bool" where
  "term_at_least l r cs = entails (constraints_at_least l r) cs"

definition term_at_least_zero :: "rterm \<Rightarrow> constraint list \<Rightarrow> bool" where
  "term_at_least_zero t cs = term_at_least t (Literal 0) cs"

section \<open>Projection\<close>

text \<open>\<open>and_modify(if new < old)\<close> and \<open>or_insert\<close>: keep the least bound.\<close>

definition keep_least :: "int \<Rightarrow> int option \<Rightarrow> int" where
  "keep_least b old = (case old of None \<Rightarrow> b | Some c \<Rightarrow> if b < c then b else c)"

record projection =
  into_dead :: "(node \<times> int) list"
  from_dead :: "(node \<times> int) list"
  projected :: "((node \<times> node) \<times> int) list"

definition forget_step :: "node \<Rightarrow> constraint \<Rightarrow> projection \<Rightarrow> projection" where
  "forget_step dead c p =
     (if c_left c = dead \<and> c_right c \<noteq> dead then
        p\<lparr>into_dead := btree_update (c_right c) (keep_least (c_bound c)) (into_dead p)\<rparr>
      else if c_right c = dead \<and> c_left c \<noteq> dead then
        p\<lparr>from_dead := btree_update (c_left c) (keep_least (c_bound c)) (from_dead p)\<rparr>
      else if c_left c = dead \<or> c_right c = dead then p
      else p\<lparr>projected := btree_update (c_left c, c_right c) (keep_least (c_bound c)) (projected p)\<rparr>)"

definition bridge ::
  "(node \<times> int) list \<Rightarrow> (node \<times> int) list \<Rightarrow> ((node \<times> node) \<times> int) list" where
  "bridge into from =
     concat (map (\<lambda>(r, into_bound). map (\<lambda>(l, from_bound). ((l, r), into_bound + from_bound))
                                        (filter (\<lambda>(l, _). l \<noteq> r) from)) into)"

definition forget_identity :: "constraint list \<Rightarrow> identity \<Rightarrow> constraint list" where
  "forget_identity cs i =
     (let dead = NodeVariable i in
      if \<not> list_ex (\<lambda>c. c_left c = dead \<or> c_right c = dead) cs then cs
      else
        (let p = fold (forget_step dead) cs \<lparr>into_dead = [], from_dead = [], projected = []\<rparr>;
             all = fold (\<lambda>(k, b). btree_update k (keep_least b)) (bridge (into_dead p) (from_dead p)) (projected p)
         in map (\<lambda>((l, r), b). \<lparr>c_left = l, c_right = r, c_bound = b\<rparr>) all))"

section \<open>The indexed graph\<close>

text \<open>
  \<open>Constraints\<close>: the edges and, for every node but \<open>Zero\<close>, the positions of the edges that
  touch it. The \<open>HashMap\<close> is read by key and by size only, so its entries are kept in key
  order.
\<close>

record constraints =
  edges :: "constraint list"
  incident :: "(node \<times> nat list) list"

definition constraints_default :: constraints where
  "constraints_default = \<lparr>edges = [], incident = []\<rparr>"

definition within_budget :: "constraints \<Rightarrow> bool" where
  "within_budget g \<longleftrightarrow>
     length (edges g) \<le> refinement_edge_budget \<and> length (incident g) < refinement_term_budget"

definition push_incident :: "nat \<Rightarrow> node \<Rightarrow> (node \<times> nat list) list \<Rightarrow> (node \<times> nat list) list" where
  "push_incident index n m =
     (if n \<noteq> Zero then btree_update n (\<lambda>old. (case old of None \<Rightarrow> [] | Some l \<Rightarrow> l) @ [index]) m else m)"

definition push :: "constraint \<Rightarrow> constraints \<Rightarrow> constraints" where
  "push c g =
     (let index = length (edges g)
      in g\<lparr>incident := fold (push_incident index) [c_left c, c_right c] (incident g),
           edges := edges g @ [c]\<rparr>)"

definition extend_edges :: "constraint list \<Rightarrow> constraints \<Rightarrow> constraints" where
  "extend_edges cs g = fold push cs g"

definition forget :: "identity \<Rightarrow> constraints \<Rightarrow> constraints" where
  "forget i g = fold push (forget_identity (edges g) i) (g\<lparr>edges := [], incident := []\<rparr>)"

text \<open>
  \<open>Constraints::proof\<close>: the state of its traversal, one newly met node, the loop over the
  edges at a node, the loop over the pending nodes (a stack, its top first). A position
  that is out of range is Rust's index panic.
\<close>

datatype 'span proof_error = RefinementBudget 'span | IndexPanic

record traversal =
  seen_nodes :: "node set"
  pending :: "node list"
  seen_edges :: "nat set"

definition discover :: "node \<Rightarrow> traversal \<Rightarrow> traversal" where
  "discover n w =
     (if n \<in> seen_nodes w then w
      else w\<lparr>seen_nodes := insert n (seen_nodes w), pending := n # pending w\<rparr>)"

definition visit_edge :: "constraint list \<Rightarrow> nat \<Rightarrow> traversal \<Rightarrow> traversal" where
  "visit_edge es index w =
     (let edge = es ! index
      in fold discover [c_left edge, c_right edge] (w\<lparr>seen_edges := insert index (seen_edges w)\<rparr>))"

fun visit_edges ::
  "constraint list \<Rightarrow> 'span \<Rightarrow> nat list \<Rightarrow> traversal \<Rightarrow> ('span proof_error, traversal) result" where
  "visit_edges es span [] w = Inr w"
| "visit_edges es span (index # rest) w =
     (if index \<in> seen_edges w then visit_edges es span rest w
      else if length es \<le> index then Inl IndexPanic
      else
        (let w' = visit_edge es index w
         in if card (seen_nodes w') > refinement_term_budget \<or> card (seen_edges w') > refinement_edge_budget
            then Inl (RefinementBudget span)
            else visit_edges es span rest w'))"

lemma visit_edges_invariant:
  assumes "visit_edges es span indices w = Inr w'" and "P w"
    and "\<And>index w. P w \<Longrightarrow> index \<in> set indices \<Longrightarrow> index \<notin> seen_edges w \<Longrightarrow> index < length es \<Longrightarrow>
           P (visit_edge es index w)"
  shows "P w'"
  using assms
proof (induction indices arbitrary: w)
  case (Cons index rest)
  show ?case
  proof (cases "index \<in> seen_edges w")
    case False
    with Cons.prems(1) have "index < length es" "visit_edges es span rest (visit_edge es index w) = Inr w'"
      by (auto simp: Let_def split: if_splits)
    with False show ?thesis
      using Cons.prems by (intro Cons.IH [of "visit_edge es index w"]) auto
  qed (use Cons in simp)
qed simp

definition incident_edges :: "constraints \<Rightarrow> node \<Rightarrow> nat list" where
  "incident_edges g n = (case map_of (incident g) n of None \<Rightarrow> [] | Some l \<Rightarrow> l)"

definition graph_nodes :: "constraints \<Rightarrow> node set" where
  "graph_nodes g = set (constraint_nodes (edges g))"

definition undiscovered :: "constraints \<Rightarrow> traversal \<Rightarrow> nat" where
  "undiscovered g w = 2 * card (graph_nodes g - seen_nodes w) + length (pending w)"

lemma undiscovered_discover:
  "n \<in> graph_nodes g \<Longrightarrow> undiscovered g (discover n w) \<le> undiscovered g w"
proof (cases "n \<in> seen_nodes w")
  case False
  assume n: "n \<in> graph_nodes g"
  have "graph_nodes g - insert n (seen_nodes w) = (graph_nodes g - seen_nodes w) - {n}" by blast
  moreover have "0 < card (graph_nodes g - seen_nodes w)"
    using n False by (auto simp: card_gt_0_iff graph_nodes_def)
  ultimately show ?thesis
    using n False by (simp add: discover_def undiscovered_def)
qed (simp add: discover_def)

lemma edge_nodes_in_graph:
  "i < length (edges g) \<Longrightarrow> c_left (edges g ! i) \<in> graph_nodes g \<and> c_right (edges g ! i) \<in> graph_nodes g"
  by (auto simp: graph_nodes_def constraint_nodes_def)

lemma undiscovered_visit:
  assumes "visit_edges (edges g) span indices w = Inr w'"
  shows "undiscovered g w' \<le> undiscovered g w"
  using assms
proof (rule visit_edges_invariant)
  fix index w2
  assume le: "undiscovered g w2 \<le> undiscovered g w" and range: "index < length (edges g)"
  let ?w = "w2\<lparr>seen_edges := insert index (seen_edges w2)\<rparr>"
  have "undiscovered g (visit_edge (edges g) index w2) \<le> undiscovered g ?w"
    unfolding visit_edge_def Let_def fold_simps
    by (rule order.trans; rule undiscovered_discover) (simp_all add: edge_nodes_in_graph [OF range])
  with le show "undiscovered g (visit_edge (edges g) index w2) \<le> undiscovered g w"
    by (simp add: undiscovered_def)
qed simp

function traverse ::
  "constraints \<Rightarrow> 'span \<Rightarrow> traversal \<Rightarrow> ('span proof_error, traversal) result" where
  "traverse g span w =
     (case pending w of
        [] \<Rightarrow> Inr w
      | n # rest \<Rightarrow>
          and_then (visit_edges (edges g) span (incident_edges g n) (w\<lparr>pending := rest\<rparr>)) (traverse g span))"
  by pat_completeness auto

termination
proof (relation "measure (\<lambda>(g, span, w). undiscovered g w)")
  fix g span w n rest w'
  assume "pending w = n # rest" "visit_edges (edges g) span (incident_edges g n) (w\<lparr>pending := rest\<rparr>) = Inr w'"
  then show "((g, span, w'), g, span, w) \<in> measure (\<lambda>(g, span, w). undiscovered g w)"
    using undiscovered_visit [of g span "incident_edges g n" "w\<lparr>pending := rest\<rparr>" w']
    by (simp add: undiscovered_def)
qed simp

declare traverse.simps [simp del]

definition proof_edges ::
  "constraints \<Rightarrow> rterm \<Rightarrow> rterm \<Rightarrow> 'span \<Rightarrow> ('span proof_error, constraint list) result" where
  "proof_edges g index length_term span =
     (let start = fold discover [fst (term_node index), fst (term_node length_term)]
                    \<lparr>seen_nodes = {Zero}, pending = [], seen_edges = {}\<rparr>
      in and_then (traverse g span start) (\<lambda>w.
           Inr (map (\<lambda>i. edges g ! i) (sorted_list_of_set (seen_edges w)))))"

section \<open>Meaning\<close>

text \<open>
  A valuation gives every node an integer, \<open>Zero\<close> being 0. A constraint says
  \<open>left - right \<le> bound\<close>.
\<close>

definition sat :: "(node \<Rightarrow> int) \<Rightarrow> constraint \<Rightarrow> bool" where
  "sat v c \<longleftrightarrow> v (c_left c) - v (c_right c) \<le> c_bound c"

definition sat_all :: "(node \<Rightarrow> int) \<Rightarrow> constraint list \<Rightarrow> bool" where
  "sat_all v cs \<longleftrightarrow> (\<forall>c \<in> set cs. sat v c)"

definition term_value :: "(node \<Rightarrow> int) \<Rightarrow> rterm \<Rightarrow> int" where
  "term_value v t = (case term_node t of (n, k) \<Rightarrow> v n + k)"

definition valuation :: "(node \<Rightarrow> int) \<Rightarrow> bool" where
  "valuation v \<longleftrightarrow> v Zero = 0"

definition follows :: "constraint list \<Rightarrow> constraint list \<Rightarrow> bool" where
  "follows cs required \<longleftrightarrow> (\<forall>v. valuation v \<and> sat_all v cs \<longrightarrow> sat_all v required)"

definition consistent :: "constraint list \<Rightarrow> bool" where
  "consistent cs \<longleftrightarrow> (\<exists>v. valuation v \<and> sat_all v cs)"

lemma sat_all_simps [simp]:
  "sat_all v []" "sat_all v (c # cs) \<longleftrightarrow> sat v c \<and> sat_all v cs"
  "sat_all v (cs @ ds) \<longleftrightarrow> sat_all v cs \<and> sat_all v ds"
  by (auto simp: sat_all_def)

lemma sat_difference:
  "sat_all v (constraints_difference l r delta) \<longleftrightarrow> term_value v l \<le> term_value v r + delta"
  by (auto simp: constraints_difference_def term_value_def sat_def split: prod.split)

lemma sat_term_constraints:
  "sat_all v (constraints_less_than l r) \<longleftrightarrow> term_value v l < term_value v r"
  "sat_all v (constraints_at_least l r) \<longleftrightarrow> term_value v r \<le> term_value v l"
  "sat_all v (constraints_at_most l r) \<longleftrightarrow> term_value v l \<le> term_value v r"
  "sat_all v (constraints_greater_than l r) \<longleftrightarrow> term_value v r < term_value v l"
  "sat_all v (constraints_equal l r) \<longleftrightarrow> term_value v l = term_value v r"
  by (auto simp: constraints_less_than_def constraints_at_least_def constraints_at_most_def
      constraints_greater_than_def constraints_equal_def sat_difference)

lemma term_value_literal [simp]: "valuation v \<Longrightarrow> term_value v (Literal k) = k"
  by (simp add: term_value_def valuation_def)

lemma term_value_shift [simp]: "term_value v (shift t k) = term_value v t + k"
  by (cases t) (auto simp: term_value_def)

text \<open>Constraints see differences only, so the value of \<open>Zero\<close> can be moved to 0.\<close>

lemma sat_translate [simp]: "sat (\<lambda>n. v n + k) c \<longleftrightarrow> sat v c"
  by (simp add: sat_def)

lemma follows_any: "follows cs required \<longleftrightarrow> (\<forall>v. sat_all v cs \<longrightarrow> sat_all v required)"
proof
  assume f: "follows cs required"
  show "\<forall>v. sat_all v cs \<longrightarrow> sat_all v required"
  proof (intro allI impI)
    fix v assume "sat_all v cs"
    then have "sat_all (\<lambda>n. v n + (- v Zero)) cs"
      unfolding sat_all_def sat_translate .
    with f have "sat_all (\<lambda>n. v n + (- v Zero)) required"
      by (simp add: follows_def valuation_def)
    then show "sat_all v required"
      unfolding sat_all_def sat_translate .
  qed
qed (simp add: follows_def)

lemma consistent_any: "consistent cs \<longleftrightarrow> (\<exists>v. sat_all v cs)"
proof
  assume "\<exists>v. sat_all v cs"
  then obtain v where "sat_all v cs" ..
  then have "sat_all (\<lambda>n. v n + (- v Zero)) cs"
    unfolding sat_all_def sat_translate .
  then show "consistent cs"
    unfolding consistent_def valuation_def by (intro exI [of _ "\<lambda>n. v n + (- v Zero)"]) simp
qed (auto simp: consistent_def)

section \<open>Soundness of the search\<close>

text \<open>Every distance is the weight of a chain of constraints from the source.\<close>

fun chain :: "node \<Rightarrow> constraint list \<Rightarrow> node \<Rightarrow> bool" where
  "chain a [] b = (a = b)"
| "chain a (e # es) b = (c_right e = a \<and> chain (c_left e) es b)"

definition weight :: "constraint list \<Rightarrow> int" where
  "weight es = sum_list (map c_bound es)"

lemma weight_simps [simp]:
  "weight [] = 0" "weight (e # es) = c_bound e + weight es" "weight (xs @ ys) = weight xs + weight ys"
  by (simp_all add: weight_def)

lemma chain_append: "chain a (xs @ ys) b \<longleftrightarrow> (\<exists>m. chain a xs m \<and> chain m ys b)"
  by (induction xs arbitrary: a) auto

lemma chain_sat: "chain a es b \<Longrightarrow> sat_all v es \<Longrightarrow> v b - v a \<le> weight es"
  by (induction es arbitrary: a) (auto simp: sat_def, fastforce)

definition realised :: "constraint list \<Rightarrow> node \<Rightarrow> distances \<Rightarrow> bool" where
  "realised cs s d \<longleftrightarrow>
     (\<forall>n x. d n = Some x \<longrightarrow> (\<exists>es. set es \<subseteq> set cs \<and> chain s es n \<and> weight es = x))"

lemma realised_extend:
  assumes "realised cs s d" and "c \<in> set cs" and "d (c_right c) = Some r"
  shows "realised cs s (d(c_left c \<mapsto> r + c_bound c))"
proof -
  obtain es where "set es \<subseteq> set cs" "chain s es (c_right c)" "weight es = r"
    using assms by (auto simp: realised_def)
  then have "set (es @ [c]) \<subseteq> set cs \<and> chain s (es @ [c]) (c_left c) \<and> weight (es @ [c]) = r + c_bound c"
    using assms(2) by (auto simp: chain_append)
  with assms(1) show ?thesis
    unfolding realised_def by (metis fun_upd_apply option.inject)
qed

lemma realised_relax:
  "realised cs s (fst p) \<Longrightarrow> c \<in> set cs \<Longrightarrow> realised cs s (fst (relax c p))"
  by (auto simp: relax_def Let_def realised_extend split: prod.split option.split)

lemma realised_fold:
  "set es \<subseteq> set cs \<Longrightarrow> realised cs s (fst p) \<Longrightarrow> realised cs s (fst (fold relax es p))"
  by (induction es arbitrary: p) (auto simp: realised_relax)

lemma realised_rounds: "realised cs s d \<Longrightarrow> realised cs s (relax_rounds cs n d)"
proof (induction n arbitrary: d)
  case (Suc n)
  then have "realised cs s (fst (relax_pass cs d))"
    unfolding relax_pass_def by (intro realised_fold) auto
  with Suc.IH show ?case by (auto split: prod.split)
qed simp

lemma realised_shortest: "realised cs s (shortest_paths_from s cs n)"
proof -
  have "realised cs s [s \<mapsto> 0]"
    unfolding realised_def by (intro allI impI exI [of _ "[]"]) (auto split: if_splits)
  then show ?thesis
    unfolding shortest_paths_from_def by (rule realised_rounds)
qed

lemma shortest_paths_sound:
  assumes "shortest_paths_from s cs n m = Some x" and "sat_all v cs"
  shows "v m - v s \<le> x"
proof -
  obtain es where "set es \<subseteq> set cs" "chain s es m" "weight es = x"
    using assms(1) realised_shortest by (force simp: realised_def)
  with chain_sat [of s es m v] assms(2) show ?thesis
    by (auto simp: sat_all_def)
qed

text \<open>The cache of the loop only saves recomputation.\<close>

definition reached_within :: "constraint list \<Rightarrow> nat \<Rightarrow> constraint \<Rightarrow> bool" where
  "reached_within cs n r \<longleftrightarrow>
     (case shortest_paths_from (c_right r) cs n (c_left r) of None \<Rightarrow> False | Some x \<Rightarrow> x \<le> c_bound r)"

lemma entails_loop_eq:
  "(\<And>s d. cache s = Some d \<Longrightarrow> d = shortest_paths_from s cs n) \<Longrightarrow>
     entails_loop cs n cache rs \<longleftrightarrow> (\<forall>r \<in> set rs. reached_within cs n r)"
proof (induction rs arbitrary: cache)
  case (Cons r rs)
  let ?start = "case cache (c_right r) of Some d \<Rightarrow> d | None \<Rightarrow> shortest_paths_from (c_right r) cs n"
  have start: "?start = shortest_paths_from (c_right r) cs n"
    using Cons.prems by (auto split: option.split)
  have "entails_loop cs n (cache(c_right r \<mapsto> ?start)) rs \<longleftrightarrow> (\<forall>r \<in> set rs. reached_within cs n r)"
    using Cons.prems start by (intro Cons.IH) (auto split: if_splits)
  then show ?case
    by (auto simp: start reached_within_def Let_def split: option.splits)
qed simp

lemma entails_eq:
  "entails required cs \<longleftrightarrow> (\<forall>r \<in> set required. reached_within cs (card (set (constraint_nodes cs))) r)"
  unfolding entails_def by (rule entails_loop_eq) simp

lemma entails_sound: "entails required cs \<Longrightarrow> follows cs required"
  unfolding entails_eq follows_def sat_all_def sat_def reached_within_def
  by (force split: option.splits dest: shortest_paths_sound simp: sat_all_def sat_def)

section \<open>Completeness of the search\<close>

text \<open>Distances only shrink, and one pass relaxes every constraint.\<close>

definition below :: "distances \<Rightarrow> distances \<Rightarrow> bool" where
  "below d' d \<longleftrightarrow> (\<forall>n x. d n = Some x \<longrightarrow> (\<exists>y. d' n = Some y \<and> y \<le> x))"

lemma below_refl [simp]: "below d d"
  by (auto simp: below_def)

lemma below_trans: "below a b \<Longrightarrow> below b c \<Longrightarrow> below a c"
  unfolding below_def by (meson order.trans)

lemma below_relax: "below (fst (relax c p)) (fst p)"
  by (auto simp: below_def relax_def Let_def split: prod.split option.split)

lemma below_fold: "below (fst (fold relax cs p)) (fst p)"
proof (induction cs arbitrary: p)
  case (Cons e es)
  show ?case
    unfolding fold_Cons comp_apply by (rule below_trans [OF Cons.IH below_relax])
qed simp

lemma relax_relaxes:
  assumes "d (c_right c) = Some r"
  shows "\<exists>y. fst (relax c (d, b)) (c_left c) = Some y \<and> y \<le> r + c_bound c"
  using assms by (auto simp: relax_def Let_def split: option.split)

lemma fold_relaxes:
  assumes "c \<in> set cs" and "fst p (c_right c) = Some r"
  shows "\<exists>y. fst (fold relax cs p) (c_left c) = Some y \<and> y \<le> r + c_bound c"
  using assms
proof (induction cs arbitrary: p r)
  case (Cons e es)
  show ?case
  proof (cases "c = e")
    case True
    then obtain y where y: "fst (relax c p) (c_left c) = Some y" "y \<le> r + c_bound c"
      using Cons.prems relax_relaxes [of "fst p" c r "snd p"] by auto
    with below_fold [of es "relax c p"] True show ?thesis
      by (fastforce simp: below_def)
  next
    case False
    obtain r' where "fst (relax e p) (c_right c) = Some r'" "r' \<le> r"
      using below_relax [of e p] Cons.prems by (auto simp: below_def)
    with Cons.IH [of "relax e p" r'] Cons.prems False show ?thesis by force
  qed
qed simp

lemma relax_changed: "snd p \<Longrightarrow> snd (relax c p)"
  by (auto simp: relax_def Let_def split: prod.split option.split)

lemma fold_changed: "snd p \<Longrightarrow> snd (fold relax cs p)"
  by (induction cs arbitrary: p) (simp_all add: relax_changed)

lemma relax_unchanged: "\<not> snd (relax c p) \<Longrightarrow> relax c p = p"
  by (auto simp: relax_def Let_def split: prod.splits option.splits if_splits)

lemma pass_unchanged: "\<not> snd (fold relax cs p) \<Longrightarrow> fold relax cs p = p"
proof (induction cs arbitrary: p)
  case (Cons e es)
  then have "relax e p = p"
    using fold_changed [of "relax e p" es] relax_unchanged [of e p] by auto
  with Cons show ?case by simp
qed simp

lemma rounds_funpow: "relax_rounds cs n d = ((\<lambda>d. fst (relax_pass cs d)) ^^ n) d"
proof (induction n arbitrary: d)
  case (Suc n)
  show ?case
  proof (cases "snd (relax_pass cs d)")
    case True
    with Suc show ?thesis
      by (auto simp: funpow_Suc_right simp del: funpow.simps split: prod.split)
  next
    case False
    then have unchanged: "fst (relax_pass cs d) = d"
      using pass_unchanged [of cs "(d, False)"] by (simp add: relax_pass_def)
    then have "((\<lambda>d. fst (relax_pass cs d)) ^^ k) d = d" for k
      by (induction k) auto
    with False unchanged show ?thesis by (auto split: prod.split)
  qed
qed simp

text \<open>After \<open>n\<close> rounds a distance is at most the weight of any chain of \<open>n\<close> edges.\<close>

lemma rounds_reach_chain:
  "set es \<subseteq> set cs \<Longrightarrow> chain s es m \<Longrightarrow> length es \<le> n \<Longrightarrow>
     \<exists>x. relax_rounds cs n [s \<mapsto> 0] m = Some x \<and> x \<le> weight es"
proof (induction n arbitrary: es m)
  case (Suc n)
  let ?d = "relax_rounds cs n [s \<mapsto> 0]"
  have round: "relax_rounds cs (Suc n) [s \<mapsto> 0] = fst (fold relax cs (?d, False))"
    by (simp add: rounds_funpow relax_pass_def)
  show ?case
  proof (cases es rule: rev_cases)
    case Nil
    with Suc.prems Suc.IH [of "[]" m] below_fold [of cs "(?d, False)"] show ?thesis
      unfolding round by (fastforce simp: below_def)
  next
    case (snoc fs c)
    with Suc.prems have "set fs \<subseteq> set cs" "chain s fs (c_right c)" "length fs \<le> n" "c \<in> set cs" "m = c_left c"
      by (auto simp: chain_append)
    with Suc.IH obtain x where "?d (c_right c) = Some x" "x \<le> weight fs"
      by blast
    with fold_relaxes [of c cs "(?d, False)" x] \<open>c \<in> set cs\<close> \<open>m = c_left c\<close> snoc show ?thesis
      unfolding round by force
  qed
qed simp

text \<open>Consistent constraints have no negative cycle, so long chains can be shortened.\<close>

lemma cycle_nonnegative: "sat_all v es \<Longrightarrow> chain m es m \<Longrightarrow> 0 \<le> weight es"
  using chain_sat [of m es m v] by simp

definition chain_nodes :: "node \<Rightarrow> constraint list \<Rightarrow> node list" where
  "chain_nodes a es = a # map c_left es"

lemma chain_end: "chain a es b \<Longrightarrow> last (chain_nodes a es) = b"
  by (induction es arbitrary: a) (auto simp: chain_nodes_def split: if_splits)

lemma chain_take:
  assumes "chain a es b" and "k \<le> length es"
  shows "chain a (take k es) (chain_nodes a es ! k) \<and> chain (chain_nodes a es ! k) (drop k es) b"
  using assms
proof (induction es arbitrary: a k)
  case (Cons e es)
  then show ?case by (cases k) (auto simp: chain_nodes_def)
qed (simp add: chain_nodes_def)

lemma repeated_node_shortens:
  assumes "chain a es b" and "\<not> distinct (chain_nodes a es)" and "sat_all v es"
  shows "\<exists>fs. set fs \<subseteq> set es \<and> chain a fs b \<and> weight fs \<le> weight es \<and> length fs < length es"
proof -
  obtain i j where ij: "i < j" "j < length (chain_nodes a es)" "chain_nodes a es ! i = chain_nodes a es ! j"
    using assms(2) by (auto simp: distinct_conv_nth) (metis linorder_neqE_nat)
  then have j: "j \<le> length es" by (simp add: chain_nodes_def)
  let ?m = "chain_nodes a es ! j"
  have prefix: "chain a (take i es) ?m" and suffix: "chain ?m (drop j es) b"
    using chain_take [OF assms(1), of i] chain_take [OF assms(1), of j] ij j by auto
  have parts: "take i es @ take (j - i) (drop i es) = take j es"
    using ij(1) by (metis less_imp_le_nat le_add_diff_inverse take_add)
  have "chain a (take i es @ take (j - i) (drop i es)) ?m"
    unfolding parts using chain_take [OF assms(1) j] by simp
  then obtain m' where "chain a (take i es) m'" "chain m' (take (j - i) (drop i es)) ?m"
    by (auto simp: chain_append)
  moreover have "chain a xs p \<Longrightarrow> chain a xs q \<Longrightarrow> p = q" for xs p q
    using chain_end by blast
  ultimately have "chain ?m (take (j - i) (drop i es)) ?m"
    using prefix by metis
  moreover have "sat_all v (take (j - i) (drop i es))"
    using assms(3) by (auto simp: sat_all_def dest: in_set_takeD in_set_dropD)
  ultimately have middle: "0 \<le> weight (take (j - i) (drop i es))"
    by (simp add: cycle_nonnegative)
  have "weight es = weight (take i es) + weight (take (j - i) (drop i es)) + weight (drop j es)"
    by (metis append_take_drop_id parts weight_simps(3))
  with middle prefix suffix ij(1) j show ?thesis
    by (intro exI [of _ "take i es @ drop j es"])
      (auto simp: chain_append dest: in_set_takeD in_set_dropD)
qed

lemma chain_shortens:
  assumes "chain a es b" and "sat_all v es"
  shows "\<exists>fs. set fs \<subseteq> set es \<and> chain a fs b \<and> weight fs \<le> weight es \<and> distinct (chain_nodes a fs)"
  using assms
proof (induction "length es" arbitrary: es rule: less_induct)
  case less
  show ?case
  proof (cases "distinct (chain_nodes a es)")
    case True
    with less.prems show ?thesis by blast
  next
    case False
    with repeated_node_shortens [OF less.prems(1) _ less.prems(2)] obtain fs
      where fs: "set fs \<subseteq> set es" "chain a fs b" "weight fs \<le> weight es" "length fs < length es" by blast
    then have "sat_all v fs"
      using less.prems(2) by (auto simp: sat_all_def)
    with less.hyps [OF fs(4) fs(2)] fs show ?thesis by (meson order.trans)
  qed
qed

lemma chain_nodes_subset:
  assumes "chain s es m" and "set es \<subseteq> set cs" and "es \<noteq> []"
  shows "set (chain_nodes s es) \<subseteq> set (constraint_nodes cs)"
proof -
  have "s \<in> set (constraint_nodes cs)"
    using assms by (cases es) (auto simp: constraint_nodes_def)
  with assms(2) show ?thesis
    by (auto simp: chain_nodes_def constraint_nodes_def)
qed

lemma shortest_paths_minimal:
  assumes "chain s es m" and "set es \<subseteq> set cs" and "sat_all v cs"
  shows "\<exists>x. shortest_paths_from s cs (card (set (constraint_nodes cs))) m = Some x \<and> x \<le> weight es"
proof -
  have "sat_all v es"
    using assms(2,3) by (auto simp: sat_all_def)
  with chain_shortens [OF assms(1)] obtain fs
    where fs: "set fs \<subseteq> set es" "chain s fs m" "weight fs \<le> weight es" "distinct (chain_nodes s fs)"
    by blast
  have "length fs \<le> card (set (constraint_nodes cs))"
  proof (cases "fs = []")
    case False
    have "card (set (chain_nodes s fs)) \<le> card (set (constraint_nodes cs))"
      using chain_nodes_subset [OF fs(2) _ False] fs(1) assms(2) by (intro card_mono) auto
    with fs(4) show ?thesis by (simp add: distinct_card) (simp add: chain_nodes_def)
  qed simp
  with rounds_reach_chain [of fs cs s m] fs assms(2) show ?thesis
    unfolding shortest_paths_from_def by (meson order.trans)
qed

lemma upper_bound_exists: "\<exists>M. \<forall>x \<in> set xs. f x \<le> (M :: int)"
  by (induction xs) (auto intro: exI [of _ "max _ _"], meson linear order.trans)

lemma entails_complete:
  assumes "consistent cs" and "follows cs required"
  shows "entails required cs"
  unfolding entails_eq
proof
  fix r assume r: "r \<in> set required"
  let ?d = "shortest_paths_from (c_right r) cs (card (set (constraint_nodes cs)))"
  obtain v0 where v0: "sat_all v0 cs" using assms(1) by (auto simp: consistent_def)
  have reach: "\<exists>x. ?d m = Some x \<and> x \<le> weight es"
    if "set es \<subseteq> set cs" "chain (c_right r) es m" for es m
    using shortest_paths_minimal [OF that(2) that(1) v0] .
  have walk: "\<exists>es. set es \<subseteq> set cs \<and> chain (c_right r) es n \<and> weight es = x" if "?d n = Some x" for n x
    using realised_shortest that by (auto simp: realised_def)
  obtain M where M: "\<And>c. c \<in> set cs \<Longrightarrow> the (?d (c_left c)) - v0 (c_right c) - c_bound c \<le> M"
    using upper_bound_exists [of cs "\<lambda>c. the (?d (c_left c)) - v0 (c_right c) - c_bound c"] by blast
  obtain K where K: "M \<le> K" "c_bound r - v0 (c_left r) < K"
    by (rule that [of "max M (c_bound r - v0 (c_left r) + 1)"]) auto
  define v where "v = (\<lambda>n. case ?d n of Some x \<Rightarrow> x | None \<Rightarrow> K + v0 n)"
  have "sat v c" if c: "c \<in> set cs" for c
  proof (cases "?d (c_right c)")
    case (Some x)
    with walk obtain es where "set es \<subseteq> set cs" "chain (c_right r) es (c_right c)" "weight es = x" by blast
    with reach [of "es @ [c]" "c_left c"] c Some show ?thesis
      by (auto simp: chain_append sat_def v_def)
  next
    case None
    with M [OF c] K(1) v0 c show ?thesis
      by (auto simp: sat_def v_def sat_all_def split: option.split)
  qed
  with assms(2) r have sat: "v (c_left r) - v (c_right r) \<le> c_bound r"
    by (auto simp: follows_any sat_all_def sat_def)
  obtain x where x: "?d (c_right r) = Some x" "x \<le> 0" using reach [of "[]" "c_right r"] by auto
  show "reached_within cs (card (set (constraint_nodes cs))) r"
  proof (cases "?d (c_left r)")
    case None
    with sat x K(2) show ?thesis by (simp add: v_def)
  next
    case (Some y)
    with sat x show ?thesis by (simp add: v_def reached_within_def)
  qed
qed

section \<open>The projection is exact\<close>

lemma keep_least_le:
  "x \<le> keep_least b None \<longleftrightarrow> x \<le> b"
  "x \<le> keep_least b (Some c) \<longleftrightarrow> x \<le> c \<and> x \<le> b"
  by (auto simp: keep_least_def)

text \<open>What the three maps of the projection say of a valuation.\<close>

definition says_into :: "(node \<Rightarrow> int) \<Rightarrow> int \<Rightarrow> (node \<times> int) list \<Rightarrow> bool" where
  "says_into v x m \<longleftrightarrow> (\<forall>(n, b) \<in> set m. x - v n \<le> b)"

definition says_from :: "(node \<Rightarrow> int) \<Rightarrow> int \<Rightarrow> (node \<times> int) list \<Rightarrow> bool" where
  "says_from v x m \<longleftrightarrow> (\<forall>(n, b) \<in> set m. v n - x \<le> b)"

definition says_pairs :: "(node \<Rightarrow> int) \<Rightarrow> ((node \<times> node) \<times> int) list \<Rightarrow> bool" where
  "says_pairs v m \<longleftrightarrow> (\<forall>(n, b) \<in> set m. v (fst n) - v (snd n) \<le> b)"

definition projection_ok :: "projection \<Rightarrow> bool" where
  "projection_ok p \<longleftrightarrow> btree_ok (into_dead p) \<and> btree_ok (from_dead p) \<and> btree_ok (projected p)"

lemma says_update:
  "btree_ok m \<Longrightarrow> says_into v x (btree_update n (keep_least b) m) \<longleftrightarrow> says_into v x m \<and> x - v n \<le> b"
  "btree_ok m \<Longrightarrow> says_from v x (btree_update n (keep_least b) m) \<longleftrightarrow> says_from v x m \<and> v n - x \<le> b"
  "btree_ok m' \<Longrightarrow> says_pairs v (btree_update k (keep_least b) m') \<longleftrightarrow>
     says_pairs v m' \<and> v (fst k) - v (snd k) \<le> b"
  unfolding says_into_def says_from_def says_pairs_def
  by (rule btree.entries_upd_all; simp add: keep_least_le)+

lemma forget_step_says:
  assumes "projection_ok p" and "v dead = x"
    and "\<not> (c_left c = dead \<and> c_right c = dead)"
  shows "projection_ok (forget_step dead c p) \<and>
    (says_into v x (into_dead (forget_step dead c p)) \<and> says_from v x (from_dead (forget_step dead c p)) \<and>
     says_pairs v (projected (forget_step dead c p)) \<longleftrightarrow>
     says_into v x (into_dead p) \<and> says_from v x (from_dead p) \<and> says_pairs v (projected p) \<and> sat v c)"
  using assms
  by (auto simp: forget_step_def projection_ok_def btree_ok_update says_update sat_def)

definition avoids :: "node \<Rightarrow> projection \<Rightarrow> bool" where
  "avoids dead p \<longleftrightarrow> dead \<notin> fst ` set (into_dead p) \<and> dead \<notin> fst ` set (from_dead p) \<and>
     dead \<notin> fst ` fst ` set (projected p) \<and> dead \<notin> snd ` fst ` set (projected p)"

lemma avoids_forget_step: "avoids dead p \<Longrightarrow> avoids dead (forget_step dead c p)"
  by (auto simp: avoids_def forget_step_def btree_update_keys)

lemma avoids_fold: "avoids dead p \<Longrightarrow> avoids dead (fold (forget_step dead) cs p)"
  by (induction cs arbitrary: p) (auto simp: avoids_forget_step)

lemma says_upd [simp]:
  "avoids dead p \<Longrightarrow> says_into (v(dead := y)) x (into_dead p) = says_into v x (into_dead p)"
  "avoids dead p \<Longrightarrow> says_from (v(dead := y)) x (from_dead p) = says_from v x (from_dead p)"
  "avoids dead p \<Longrightarrow> says_pairs (v(dead := y)) (projected p) = says_pairs v (projected p)"
  by (fastforce simp: avoids_def says_into_def says_from_def says_pairs_def image_iff)+

lemma forget_fold_says:
  assumes "projection_ok p" and "v dead = x"
    and "\<forall>c \<in> set cs. c_left c = dead \<and> c_right c = dead \<longrightarrow> 0 \<le> c_bound c"
  shows "projection_ok (fold (forget_step dead) cs p) \<and>
    (says_into v x (into_dead (fold (forget_step dead) cs p)) \<and>
     says_from v x (from_dead (fold (forget_step dead) cs p)) \<and>
     says_pairs v (projected (fold (forget_step dead) cs p)) \<longleftrightarrow>
     says_into v x (into_dead p) \<and> says_from v x (from_dead p) \<and> says_pairs v (projected p) \<and> sat_all v cs)"
  using assms
proof (induction cs arbitrary: p)
  case (Cons c cs)
  show ?case
  proof (cases "c_left c = dead \<and> c_right c = dead")
    case True
    with Cons show ?thesis by (auto simp: forget_step_def sat_def)
  next
    case False
    with Cons forget_step_says [of p v dead x c] show ?thesis by auto
  qed
qed simp

lemma between_exists:
  assumes "\<forall>a \<in> set as. \<forall>b \<in> set bs. f a \<le> (g b :: int)"
  shows "\<exists>x. (\<forall>a \<in> set as. f a \<le> x) \<and> (\<forall>b \<in> set bs. x \<le> g b)"
proof (cases "as = []")
  case True
  obtain M where "\<forall>b \<in> set bs. - g b \<le> M" using upper_bound_exists [of bs "\<lambda>b. - g b"] ..
  with True show ?thesis by (intro exI [of _ "- M"]) auto
next
  case False
  then have "Max (f ` set as) \<in> f ` set as" by (intro Max_in) auto
  with assms show ?thesis by (intro exI [of _ "Max (f ` set as)"]) auto
qed

lemma bridge_says:
  "(\<forall>(k, b) \<in> set (bridge into from). v (fst k) - v (snd k) \<le> b) \<longleftrightarrow>
     (\<forall>(r, ib) \<in> set into. \<forall>(l, fb) \<in> set from. l \<noteq> r \<longrightarrow> v l - v r \<le> ib + (fb :: int))"
  by (fastforce simp: bridge_def)

lemma says_pairs_fold:
  "btree_ok m \<Longrightarrow> says_pairs v (fold (\<lambda>(k, b). btree_update k (keep_least b)) kbs m) \<longleftrightarrow>
     says_pairs v m \<and> (\<forall>(k, b) \<in> set kbs. v (fst k) - v (snd k) \<le> b)"
  unfolding says_pairs_def by (rule btree.entries_fold_all; simp add: keep_least_le)

abbreviation empty_projection :: projection where
  "empty_projection \<equiv> \<lparr>into_dead = [], from_dead = [], projected = []\<rparr>"

lemma empty_projection_says [simp]:
  "projection_ok empty_projection" "avoids dead empty_projection"
  "says_into v x []" "says_from v x []" "says_pairs v []"
  by (auto simp: projection_ok_def btree_ok_def avoids_def says_into_def says_from_def says_pairs_def)

lemma sat_projected:
  "sat_all v (map (\<lambda>((l, r), b). \<lparr>c_left = l, c_right = r, c_bound = b\<rparr>) m) \<longleftrightarrow> says_pairs v m"
  by (induction m) (auto simp: says_pairs_def sat_def)

lemma forget_identity_eq:
  assumes "list_ex (\<lambda>c. c_left c = NodeVariable i \<or> c_right c = NodeVariable i) cs"
    and "p = fold (forget_step (NodeVariable i)) cs empty_projection"
  shows "forget_identity cs i = map (\<lambda>((l, r), b). \<lparr>c_left = l, c_right = r, c_bound = b\<rparr>)
    (fold (\<lambda>(k, b). btree_update k (keep_least b)) (bridge (into_dead p) (from_dead p)) (projected p))"
  using assms by (simp add: forget_identity_def Let_def)

lemma forget_identity_exact:
  assumes "consistent cs"
  shows "sat_all v (forget_identity cs i) \<longleftrightarrow> (\<exists>x. sat_all (v(NodeVariable i := x)) cs)"
proof (cases "list_ex (\<lambda>c. c_left c = NodeVariable i \<or> c_right c = NodeVariable i) cs")
  case False
  then have "sat_all (v(NodeVariable i := x)) cs = sat_all v cs" for x
    by (auto simp: sat_all_def sat_def list_ex_iff)
  with False show ?thesis by (simp add: forget_identity_def)
next
  case True
  let ?dead = "NodeVariable i"
  define p where "p = fold (forget_step ?dead) cs empty_projection"
  obtain v0 where v0: "sat_all v0 cs" using assms by (auto simp: consistent_def)
  then have loops: "\<forall>c \<in> set cs. c_left c = ?dead \<and> c_right c = ?dead \<longrightarrow> 0 \<le> c_bound c"
    by (auto simp: sat_all_def sat_def)
  have away: "avoids ?dead p"
    unfolding p_def by (rule avoids_fold) simp
  have ok: "projection_ok p" and
    iff: "says_into w (w ?dead) (into_dead p) \<and> says_from w (w ?dead) (from_dead p) \<and>
       says_pairs w (projected p) \<longleftrightarrow> sat_all w cs" for w
    using forget_fold_says [of empty_projection w ?dead "w ?dead" cs] loops
    unfolding p_def by simp_all
  have same: "0 \<le> ib + fb" if "(n, ib) \<in> set (into_dead p)" "(n, fb) \<in> set (from_dead p)" for n ib fb
    using iff [of v0] v0 that by (force simp: says_into_def says_from_def)
  have "(\<exists>x. sat_all (v(?dead := x)) cs) \<longleftrightarrow>
      (\<exists>x. says_into v x (into_dead p) \<and> says_from v x (from_dead p)) \<and> says_pairs v (projected p)"
    using iff [of "v(?dead := x)" for x] away by auto
  also have "(\<exists>x. says_into v x (into_dead p) \<and> says_from v x (from_dead p)) \<longleftrightarrow>
      (\<forall>(r, ib) \<in> set (into_dead p). \<forall>(l, fb) \<in> set (from_dead p). v l - v r \<le> ib + fb)"
    (is "?one \<longleftrightarrow> ?all")
  proof
    assume ?all
    then have "\<exists>x. (\<forall>a \<in> set (from_dead p). v (fst a) - snd a \<le> x) \<and>
        (\<forall>b \<in> set (into_dead p). x \<le> v (fst b) + snd b)"
      by (intro between_exists) fastforce
    then show ?one
      by (elim ex_forward) (fastforce simp: says_into_def says_from_def)
  qed (fastforce simp: says_into_def says_from_def)
  also have "\<dots> \<longleftrightarrow> (\<forall>(k, b) \<in> set (bridge (into_dead p) (from_dead p)). v (fst k) - v (snd k) \<le> b)"
    unfolding bridge_says using same by fastforce
  also have "(\<dots> \<and> says_pairs v (projected p)) \<longleftrightarrow> sat_all v (forget_identity cs i)"
    using ok unfolding projection_ok_def forget_identity_eq [OF True p_def] sat_projected
    by (simp add: says_pairs_fold conj_commute)
  finally show ?thesis by (rule sym)
qed

text \<open>The variable is gone from the result.\<close>

lemma fold_btree_update_keys:
  "fst ` set (fold (\<lambda>(k, b). btree_update k (g b)) kbs m) = fst ` set kbs \<union> fst ` set m"
  by (induction kbs arbitrary: m) (simp_all add: btree_update_keys split_beta)

lemma bridge_keys: "fst ` set (bridge into from) \<subseteq> (fst ` set from) \<times> (fst ` set into)"
  by (force simp: bridge_def)

lemma forget_identity_removes:
  assumes "c \<in> set (forget_identity cs i)"
  shows "c_left c \<noteq> NodeVariable i \<and> c_right c \<noteq> NodeVariable i"
proof (cases "list_ex (\<lambda>c. c_left c = NodeVariable i \<or> c_right c = NodeVariable i) cs")
  case False
  with assms show ?thesis by (auto simp: forget_identity_def list_ex_iff)
next
  case True
  define p where "p = fold (forget_step (NodeVariable i)) cs empty_projection"
  have away: "avoids (NodeVariable i) p"
    unfolding p_def by (rule avoids_fold) simp
  obtain b where "((c_left c, c_right c), b) \<in> set (fold (\<lambda>(k, b). btree_update k (keep_least b))
      (bridge (into_dead p) (from_dead p)) (projected p))"
    using assms unfolding forget_identity_eq [OF True p_def] by auto
  then have "(c_left c, c_right c) \<in> fst ` set (fold (\<lambda>(k, b). btree_update k (keep_least b))
      (bridge (into_dead p) (from_dead p)) (projected p))"
    by (metis fst_conv image_eqI)
  then have "(c_left c, c_right c) \<in> fst ` set (bridge (into_dead p) (from_dead p)) \<union> fst ` set (projected p)"
    by (simp only: fold_btree_update_keys)
  then consider "(c_left c, c_right c) \<in> (fst ` set (from_dead p)) \<times> (fst ` set (into_dead p))"
    | "(c_left c, c_right c) \<in> fst ` set (projected p)"
    using bridge_keys [of "into_dead p" "from_dead p"] by (elim UnE) (meson subsetD)+
  then show ?thesis
  proof cases
    case 1
    with away show ?thesis by (simp add: avoids_def) metis
  next
    case 2
    then have "c_left c \<in> fst ` fst ` set (projected p)" "c_right c \<in> snd ` fst ` set (projected p)"
      using image_iff by fastforce+
    with away show ?thesis by (simp add: avoids_def) metis
  qed
qed

section \<open>The index\<close>

definition touches :: "constraint \<Rightarrow> node \<Rightarrow> bool" where
  "touches c n \<longleftrightarrow> c_left c = n \<or> c_right c = n"

text \<open>The index holds, for every node but \<open>Zero\<close>, exactly the positions of its edges.\<close>

definition indexed :: "constraints \<Rightarrow> bool" where
  "indexed g \<longleftrightarrow> btree_ok (incident g) \<and>
     (\<forall>n \<in> fst ` set (incident g). n \<noteq> Zero \<and> incident_edges g n \<noteq> []) \<and>
     (\<forall>n. n \<noteq> Zero \<longrightarrow> set (incident_edges g n) = {i. i < length (edges g) \<and> touches (edges g ! i) n})"

lemma indexed_default: "indexed constraints_default"
  by (simp add: indexed_def constraints_default_def btree_ok_def incident_edges_def)

lemma push_incident_ok: "btree_ok m \<Longrightarrow> btree_ok (push_incident i n m)"
  by (simp add: push_incident_def btree_ok_update)

lemma push_incident_keys:
  "fst ` set (push_incident i n m) = (if n \<noteq> Zero then insert n (fst ` set m) else fst ` set m)"
  by (simp add: push_incident_def btree_update_keys)

lemma incident_push:
  assumes "btree_ok (incident g)"
  shows "incident_edges (g\<lparr>incident := push_incident i n (incident g)\<rparr>) k =
    incident_edges g k @ (if n \<noteq> Zero \<and> k = n then [i] else [])"
  using assms by (auto simp: incident_edges_def push_incident_def map_of_btree_update split: option.split)

lemma push_edges [simp]: "edges (push c g) = edges g @ [c]"
  by (simp add: push_def Let_def)

lemma incident_edges_cong: "incident g = incident g' \<Longrightarrow> incident_edges g n = incident_edges g' n"
  by (simp add: incident_edges_def)

lemma incident_edges_push:
  assumes "btree_ok (incident g)"
  shows "incident_edges (push c g) k = incident_edges g k @
    (if k \<noteq> Zero \<and> k = c_left c then [length (edges g)] else []) @
    (if k \<noteq> Zero \<and> k = c_right c then [length (edges g)] else [])"
proof -
  let ?g = "g\<lparr>incident := push_incident (length (edges g)) (c_left c) (incident g)\<rparr>"
  have "incident_edges (push c g) k =
      incident_edges (?g\<lparr>incident := push_incident (length (edges g)) (c_right c) (incident ?g)\<rparr>) k"
    by (rule incident_edges_cong) (simp add: push_def Let_def)
  also have "\<dots> = incident_edges ?g k @ (if c_right c \<noteq> Zero \<and> k = c_right c then [length (edges g)] else [])"
    using assms by (subst incident_push) (auto simp: push_incident_ok)
  also have "incident_edges ?g k = incident_edges g k @
      (if c_left c \<noteq> Zero \<and> k = c_left c then [length (edges g)] else [])"
    using assms by (rule incident_push)
  finally show ?thesis by auto
qed

lemma indexed_push: "indexed g \<Longrightarrow> indexed (push c g)"
proof -
  assume g: "indexed g"
  then have ok: "btree_ok (incident g)" by (simp add: indexed_def)
  have keys: "fst ` set (incident (push c g)) = fst ` set (incident g) \<union> ({c_left c, c_right c} - {Zero})"
    by (auto simp: push_def Let_def push_incident_keys)
  have "btree_ok (incident (push c g))"
    by (simp add: push_def Let_def push_incident_ok ok)
  moreover have "\<forall>n \<in> fst ` set (incident (push c g)). n \<noteq> Zero \<and> incident_edges (push c g) n \<noteq> []"
    unfolding keys incident_edges_push [OF ok] using g by (auto simp: indexed_def)
  moreover have "set (incident_edges (push c g) n) =
      {i. i < length (edges (push c g)) \<and> touches (edges (push c g) ! i) n}" if "n \<noteq> Zero" for n
    unfolding incident_edges_push [OF ok] using g that
    by (auto simp: indexed_def touches_def nth_append less_Suc_eq)
  ultimately show ?thesis by (simp add: indexed_def)
qed

lemma indexed_fold_push: "indexed g \<Longrightarrow> indexed (fold push cs g)"
  by (induction cs arbitrary: g) (auto simp: indexed_push)

lemma fold_push_edges: "edges (fold push cs g) = edges g @ cs"
  by (induction cs arbitrary: g) auto

lemma indexed_cleared: "indexed (g\<lparr>edges := [], incident := []\<rparr>)"
  by (simp add: indexed_def btree_ok_def incident_edges_def)

section \<open>The proof slice\<close>

lemma discover_simps [simp]:
  "seen_nodes (discover n w) = insert n (seen_nodes w)"
  "seen_edges (discover n w) = seen_edges w"
  "set (pending (discover n w)) = set (pending w) \<union> ({n} - seen_nodes w)"
  by (auto simp: discover_def)

lemma visit_edge_simps [simp]:
  "seen_nodes (visit_edge es i w) = {c_left (es ! i), c_right (es ! i)} \<union> seen_nodes w"
  "seen_edges (visit_edge es i w) = insert i (seen_edges w)"
  "set (pending (visit_edge es i w)) = set (pending w) \<union> ({c_left (es ! i), c_right (es ! i)} - seen_nodes w)"
  by (auto simp: visit_edge_def Let_def)

text \<open>
  The invariant of the traversal, the nodes \<open>X\<close> being worked on: the seen edges have
  their ends among the seen nodes, and a seen node that is not pending has all its edges seen.
\<close>

definition slicing :: "constraints \<Rightarrow> node set \<Rightarrow> traversal \<Rightarrow> bool" where
  "slicing g X w \<longleftrightarrow>
     Zero \<in> seen_nodes w \<and> finite (seen_nodes w) \<and> seen_edges w \<subseteq> {..<length (edges g)} \<and>
     (\<forall>i \<in> seen_edges w. {c_left (edges g ! i), c_right (edges g ! i)} \<subseteq> seen_nodes w) \<and>
     (\<forall>n \<in> seen_nodes w - {Zero} - set (pending w) - X. set (incident_edges g n) \<subseteq> seen_edges w)"

lemma slicing_visit_edge:
  "slicing g X w \<Longrightarrow> i < length (edges g) \<Longrightarrow> slicing g X (visit_edge (edges g) i w)"
  by (auto simp: slicing_def)

lemma visit_edges_covers:
  "visit_edges es span indices w = Inr w' \<Longrightarrow>
     set indices \<union> seen_edges w \<subseteq> seen_edges w' \<and> seen_nodes w \<subseteq> seen_nodes w'"
proof (induction indices arbitrary: w)
  case (Cons i rest)
  then show ?case
    by (cases "i \<in> seen_edges w") (fastforce simp: Let_def split: if_splits)+
qed simp

lemma slicing_step:
  assumes "slicing g {} w" and "pending w = n # rest"
    and "visit_edges (edges g) span (incident_edges g n) (w\<lparr>pending := rest\<rparr>) = Inr w'"
  shows "slicing g {} w'"
proof -
  have "slicing g {n} (w\<lparr>pending := rest\<rparr>)"
    using assms(1,2) by (auto simp: slicing_def)
  with assms(3) have "slicing g {n} w'"
    by (rule visit_edges_invariant) (rule slicing_visit_edge)
  moreover have "set (incident_edges g n) \<subseteq> seen_edges w'"
    using visit_edges_covers [OF assms(3)] by blast
  ultimately show ?thesis
    unfolding slicing_def by (elim conjE, intro conjI ballI; (assumption | simp)?) (metis Diff_iff singletonD)
qed

lemma slicing_traverse:
  "traverse g span w = Inr w' \<Longrightarrow> slicing g {} w \<Longrightarrow>
     slicing g {} w' \<and> pending w' = [] \<and> seen_nodes w \<subseteq> seen_nodes w'"
proof (induction g span w rule: traverse.induct)
  case (1 g span w)
  show ?case
  proof (cases "pending w")
    case Nil
    with 1 show ?thesis by (simp add: traverse.simps)
  next
    case (Cons n rest)
    with "1.prems"(1) obtain w2 where w2:
      "visit_edges (edges g) span (incident_edges g n) (w\<lparr>pending := rest\<rparr>) = Inr w2" "traverse g span w2 = Inr w'"
      by (auto simp: traverse.simps [of g span w] result_simps)
    have "slicing g {} w2" by (rule slicing_step [OF "1.prems"(2) Cons w2(1)])
    with "1.IH" [OF Cons w2] have "slicing g {} w' \<and> pending w' = [] \<and> seen_nodes w2 \<subseteq> seen_nodes w'" .
    moreover have "seen_nodes w \<subseteq> seen_nodes w2"
      using visit_edges_covers [OF w2(1)] by simp
    ultimately show ?thesis by blast
  qed
qed

definition constraint_ends :: "constraint \<Rightarrow> node set" where
  "constraint_ends c = {c_left c, c_right c}"

text \<open>
  The slice leaves out only edges that do not touch the connected part of the two terms:
  a valuation of the slice extends to one of the whole graph.
\<close>

lemma sat_all_merge:
  assumes "consistent cs" and "valuation v" and "sat_all v part"
    and inside: "\<And>c. c \<in> set part \<Longrightarrow> constraint_ends c \<subseteq> V"
    and outside: "\<And>c. c \<in> set cs \<Longrightarrow> c \<notin> set part \<Longrightarrow> constraint_ends c \<inter> V \<subseteq> {Zero}"
  shows "\<exists>w. valuation w \<and> sat_all w cs \<and> (\<forall>n \<in> V \<union> {Zero}. w n = v n)"
proof -
  obtain v0 where v0: "valuation v0" "sat_all v0 cs"
    using assms(1) by (auto simp: consistent_def)
  let ?w = "\<lambda>n. if n \<in> V then v n else v0 n"
  have "sat ?w c" if "c \<in> set cs" for c
  proof (cases "c \<in> set part")
    case True
    with inside [OF True] assms(3) show ?thesis
      by (auto simp: sat_def sat_all_def constraint_ends_def)
  next
    case False
    have "?w n = v0 n" if "n \<in> constraint_ends c" for n
      using outside [OF \<open>c \<in> set cs\<close> False] that assms(2) v0(1) by (auto simp: valuation_def)
    with v0(2) \<open>c \<in> set cs\<close> show ?thesis
      by (auto simp: sat_def sat_all_def constraint_ends_def)
  qed
  then show ?thesis
    using assms(2) v0(1) by (intro exI [of _ ?w]) (auto simp: sat_all_def valuation_def)
qed

lemma follows_slice:
  assumes "consistent cs" and "set part \<subseteq> set cs"
    and "\<And>c. c \<in> set part \<Longrightarrow> constraint_ends c \<subseteq> V"
    and "\<And>c. c \<in> set cs \<Longrightarrow> c \<notin> set part \<Longrightarrow> constraint_ends c \<inter> V \<subseteq> {Zero}"
    and "\<And>r. r \<in> set required \<Longrightarrow> constraint_ends r \<subseteq> V \<union> {Zero}"
  shows "follows part required \<longleftrightarrow> follows cs required"
proof
  assume cs: "follows cs required"
  show "follows part required"
    unfolding follows_def
  proof (intro allI impI, elim conjE)
    fix v assume v: "valuation v" "sat_all v part"
    with sat_all_merge [OF assms(1) _ _ assms(3,4)] obtain w
      where w: "valuation w" "sat_all w cs" "\<forall>n \<in> V \<union> {Zero}. w n = v n" by metis
    with cs have "sat_all w required" by (simp add: follows_def)
    with w(3) assms(5) show "sat_all v required"
      by (force simp: sat_all_def sat_def constraint_ends_def)
  qed
qed (use assms(2) in \<open>auto simp: follows_def sat_all_def\<close>)

lemma entails_iff_follows: "consistent cs \<Longrightarrow> entails required cs \<longleftrightarrow> follows cs required"
  using entails_sound entails_complete by blast

abbreviation proof_start :: "rterm \<Rightarrow> rterm \<Rightarrow> traversal" where
  "proof_start a b \<equiv> fold discover [fst (term_node a), fst (term_node b)]
     \<lparr>seen_nodes = {Zero}, pending = [], seen_edges = {}\<rparr>"

lemma slicing_start: "slicing g {} (proof_start a b)"
  by (auto simp: slicing_def)

lemma proof_edges_slice:
  assumes "indexed g" and "proof_edges g a b span = Inr part"
  obtains V where "set part \<subseteq> set (edges g)"
    and "{Zero, fst (term_node a), fst (term_node b)} \<subseteq> V"
    and "\<And>c. c \<in> set part \<Longrightarrow> constraint_ends c \<subseteq> V"
    and "\<And>c. c \<in> set (edges g) \<Longrightarrow> c \<notin> set part \<Longrightarrow> constraint_ends c \<inter> V \<subseteq> {Zero}"
proof -
  obtain w where w: "traverse g span (proof_start a b) = Inr w"
    and part: "part = map (\<lambda>i. edges g ! i) (sorted_list_of_set (seen_edges w))"
    using assms(2) by (auto simp: proof_edges_def result_simps Let_def)
  have s: "slicing g {} w" "pending w = []" "{Zero, fst (term_node a), fst (term_node b)} \<subseteq> seen_nodes w"
    using slicing_traverse [OF w slicing_start] by auto
  have "finite (seen_edges w)"
    using s(1) finite_subset by (fastforce simp: slicing_def)
  with part have set_part: "set part = (\<lambda>i. edges g ! i) ` seen_edges w" by simp
  show ?thesis
  proof (rule that [of "seen_nodes w"])
    show "set part \<subseteq> set (edges g)"
      using s(1) unfolding set_part slicing_def by auto
    show "constraint_ends c \<subseteq> seen_nodes w" if "c \<in> set part" for c
      using s(1) that unfolding set_part slicing_def constraint_ends_def by auto
    show "constraint_ends c \<inter> seen_nodes w \<subseteq> {Zero}" if "c \<in> set (edges g)" "c \<notin> set part" for c
    proof (rule ccontr)
      assume "\<not> constraint_ends c \<inter> seen_nodes w \<subseteq> {Zero}"
      then obtain n where n: "n \<noteq> Zero" "n \<in> seen_nodes w" "touches c n"
        by (auto simp: constraint_ends_def touches_def)
      obtain i where i: "i < length (edges g)" "edges g ! i = c"
        using \<open>c \<in> set (edges g)\<close> by (auto simp: in_set_conv_nth)
      with n assms(1) have "i \<in> set (incident_edges g n)" by (auto simp: indexed_def)
      with n s(1,2) have "i \<in> seen_edges w" by (auto simp: slicing_def)
      with i \<open>c \<notin> set part\<close> show False by (auto simp: set_part)
    qed
  qed (use s(3) in simp)
qed

text \<open>The traversal stays within the graph, so it errs only when the graph is too large.\<close>

lemma indexed_range:
  assumes "indexed g"
  shows "set (incident_edges g n) \<subseteq> {..<length (edges g)}"
proof (cases "n = Zero")
  case True
  with assms have "map_of (incident g) n = None"
    by (auto simp: indexed_def map_of_eq_None_iff)
  then show ?thesis by (simp add: incident_edges_def)
qed (use assms in \<open>auto simp: indexed_def\<close>)

lemma visit_edges_no_panic:
  "set indices \<subseteq> {..<length es} \<Longrightarrow> visit_edges es span indices w \<noteq> Inl IndexPanic"
  by (induction indices arbitrary: w) (auto simp: Let_def)

lemma traverse_no_panic: "indexed g \<Longrightarrow> traverse g span w \<noteq> Inl IndexPanic"
proof (induction g span w rule: traverse.induct)
  case (1 g span w)
  then show ?case
    using visit_edges_no_panic [OF indexed_range [OF 1(2)], where span = span]
    by (subst traverse.simps) (auto simp: result_simps split: list.split)
qed

lemma visit_edges_returns:
  assumes "set indices \<subseteq> {..<length (edges g)}" and "slicing g X w" and "seen_nodes w \<subseteq> U"
    and "graph_nodes g \<subseteq> U" and "finite U" and "card U \<le> refinement_term_budget"
    and "length (edges g) \<le> refinement_edge_budget"
  shows "\<exists>w'. visit_edges (edges g) span indices w = Inr w' \<and> seen_nodes w' \<subseteq> U"
  using assms(1-3)
proof (induction indices arbitrary: w)
  case (Cons i rest)
  show ?case
  proof (cases "i \<in> seen_edges w")
    case False
    let ?w = "visit_edge (edges g) i w"
    have i: "i < length (edges g)" using Cons.prems by simp
    have s: "slicing g X ?w" using slicing_visit_edge [OF Cons.prems(2) i] .
    have U: "seen_nodes ?w \<subseteq> U"
      using Cons.prems(3) assms(4) edge_nodes_in_graph [OF i] by auto
    have "card (seen_nodes ?w) \<le> refinement_term_budget"
      using card_mono [OF assms(5) U] assms(6) by simp
    moreover have "card (seen_edges ?w) \<le> refinement_edge_budget"
      using s card_mono [of "{..<length (edges g)}" "seen_edges ?w"] assms(7)
      by (simp del: visit_edge_simps add: slicing_def)
    ultimately show ?thesis
      using Cons.IH [OF _ s U] Cons.prems(1) False i by (simp del: visit_edge_simps add: Let_def)
  qed (use Cons in simp)
qed simp

lemma traverse_returns:
  assumes "slicing g {} w" and "seen_nodes w \<subseteq> U" and "indexed g"
    and "graph_nodes g \<subseteq> U" "finite U" "card U \<le> refinement_term_budget"
    and "length (edges g) \<le> refinement_edge_budget"
  shows "\<exists>w'. traverse g span w = Inr w'"
  using assms
proof (induction g span w rule: traverse.induct)
  case (1 g span w)
  show ?case
  proof (cases "pending w")
    case (Cons n rest)
    have s: "slicing g {n} (w\<lparr>pending := rest\<rparr>)"
      using "1.prems"(1) Cons by (auto simp: slicing_def)
    obtain w2 where w2: "visit_edges (edges g) span (incident_edges g n) (w\<lparr>pending := rest\<rparr>) = Inr w2"
        "seen_nodes w2 \<subseteq> U"
      using visit_edges_returns [OF indexed_range [OF "1.prems"(3)] s _ "1.prems"(4-7), where span = span]
        "1.prems"(2) by simp blast
    have "\<exists>w'. traverse g span w2 = Inr w'"
      by (rule "1.IH" [OF Cons w2(1) slicing_step [OF "1.prems"(1) Cons w2(1)] w2(2) "1.prems"(3-7)])
    with Cons w2(1) show ?thesis by (simp add: traverse.simps [of g span w])
  qed (simp add: traverse.simps)
qed

lemma graph_nodes_indexed:
  assumes "indexed g"
  shows "graph_nodes g \<subseteq> insert Zero (fst ` set (incident g))"
proof
  fix n assume "n \<in> graph_nodes g"
  then consider "n = Zero" | i where "n \<noteq> Zero" "i < length (edges g)" "touches (edges g ! i) n"
    by (auto simp: graph_nodes_def constraint_nodes_def touches_def in_set_conv_nth) metis+
  then show "n \<in> insert Zero (fst ` set (incident g))"
  proof cases
    case 2
    with assms have "i \<in> set (incident_edges g n)" by (auto simp: indexed_def)
    then show ?thesis
      by (cases "map_of (incident g) n") (auto simp: incident_edges_def dest: map_of_SomeD intro: rev_image_eqI)
  qed simp
qed

text \<open>The terms of a proof are known to the graph when they are literals or indexed variables.\<close>

definition known_term :: "constraints \<Rightarrow> rterm \<Rightarrow> bool" where
  "known_term g t \<longleftrightarrow> fst (term_node t) \<in> insert Zero (fst ` set (incident g))"

lemma proof_edges_returns:
  assumes "indexed g" and "within_budget g" and "known_term g a" and "known_term g b"
  shows "\<exists>part. proof_edges g a b span = Inr part"
proof -
  let ?U = "insert Zero (fst ` set (incident g))"
  have "card ?U \<le> Suc (card (set (incident g)))"
    by (simp add: card_insert_if card_image_le le_SucI)
  also have "\<dots> \<le> refinement_term_budget"
    using assms(2) card_length [of "incident g"] by (simp add: within_budget_def)
  finally have "\<exists>w'. traverse g span (proof_start a b) = Inr w'"
    using assms by (intro traverse_returns [where U = ?U] slicing_start graph_nodes_indexed)
      (auto simp: known_term_def within_budget_def)
  then show ?thesis by (auto simp: proof_edges_def Let_def)
qed

section \<open>Properties\<close>

text \<open>
  C23. The bounded search decides entailment: what \<open>entails\<close> accepts holds in every
  valuation of the constraints, and when the constraints have a valuation everything that
  holds in all of them is accepted, so the \<open>node_count\<close> rounds are enough.
\<close>

theorem entailment_decided:
  "(entails required cs \<longrightarrow> follows cs required) \<and>
   (consistent cs \<longrightarrow> follows cs required \<longrightarrow> entails required cs)"
  using entails_sound entails_complete by blast

abbreviation demo_constraints :: "constraint list" where
  "demo_constraints \<equiv>
     [\<lparr>c_left = NodeVariable 1, c_right = NodeVariable 2, c_bound = - 1\<rparr>,
      \<lparr>c_left = Zero, c_right = NodeVariable 1, c_bound = 0\<rparr>]"

lemma demo_consistent: "consistent demo_constraints"
  unfolding consistent_any
  by (intro exI [of _ "\<lambda>n. case n of Zero \<Rightarrow> 0 | NodeVariable i \<Rightarrow> if i = 1 then 1 else 3"]) (simp add: sat_def)

lemma demo_entails:
  "entails [\<lparr>c_left = Zero, c_right = NodeVariable 2, c_bound = - 1\<rparr>] demo_constraints"
  by code_simp

theorem entailment_decided_witness:
  "follows demo_constraints [\<lparr>c_left = Zero, c_right = NodeVariable 2, c_bound = - 1\<rparr>] \<and>
   consistent demo_constraints"
  using entailment_decided [of "[\<lparr>c_left = Zero, c_right = NodeVariable 2, c_bound = - 1\<rparr>]" demo_constraints]
    demo_entails demo_consistent by blast

text \<open>
  C26. An array access whose two obligations are accepted is in bounds under every valuation
  of the known constraints.
\<close>

theorem accepted_index_in_bounds:
  assumes "term_at_least_zero index cs" and "term_less_than index length_term cs"
    and "valuation v" and "sat_all v cs"
  shows "0 \<le> term_value v index \<and> term_value v index < term_value v length_term"
proof -
  have "follows cs (constraints_at_least index (Literal 0))" "follows cs (constraints_less_than index length_term)"
    using assms(1,2) entails_sound by (simp_all add: term_at_least_zero_def term_at_least_def term_less_than_def)
  with assms(3,4) show ?thesis
    by (simp add: follows_def sat_term_constraints)
qed

lemma demo_accepted:
  "term_at_least_zero (TermVariable 1 0) demo_constraints \<and>
   term_less_than (TermVariable 1 0) (TermVariable 2 0) demo_constraints"
  by code_simp

theorem accepted_index_in_bounds_witness:
  "term_value (\<lambda>n. case n of Zero \<Rightarrow> 0 | NodeVariable i \<Rightarrow> if i = 1 then 1 else 3) (TermVariable 1 0) < (3 :: int)"
  using accepted_index_in_bounds [of "TermVariable 1 0" demo_constraints "TermVariable 2 0"
      "\<lambda>n. case n of Zero \<Rightarrow> 0 | NodeVariable i \<Rightarrow> if i = 1 then 1 else 3"] demo_accepted
  by (simp add: valuation_def sat_def term_value_def)

text \<open>
  C24. Forgetting a variable of consistent constraints is exact: the result has the
  valuations that some value of the variable extends to the original constraints, and no
  constraint of the result mentions the variable.
\<close>

theorem forgetting_exact:
  assumes "consistent cs"
  shows "(sat_all v (forget_identity cs i) \<longleftrightarrow> (\<exists>x. sat_all (v(NodeVariable i := x)) cs)) \<and>
    (\<forall>c \<in> set (forget_identity cs i). c_left c \<noteq> NodeVariable i \<and> c_right c \<noteq> NodeVariable i)"
  using forget_identity_exact [OF assms] forget_identity_removes by blast

theorem forgetting_exact_witness:
  "sat_all (\<lambda>_. 0) (forget_identity demo_constraints 1) =
   (\<exists>x. sat_all ((\<lambda>_. 0)(NodeVariable 1 := x)) demo_constraints)"
  using forgetting_exact [OF demo_consistent, of "\<lambda>_. 0" 1] by blast

text \<open>
  C28. The index by node is kept by every operation: it lists exactly the edges at a node,
  while \<open>push\<close> and \<open>extend\<close> append edges and \<open>forget\<close> projects them.
\<close>

theorem index_maintained:
  assumes "indexed g"
  shows "(indexed (push c g) \<and> edges (push c g) = edges g @ [c]) \<and>
    (indexed (extend_edges cs g) \<and> edges (extend_edges cs g) = edges g @ cs) \<and>
    (indexed (forget i g) \<and> edges (forget i g) = forget_identity (edges g) i)"
  using assms
  by (simp add: indexed_push extend_edges_def forget_def indexed_fold_push fold_push_edges indexed_cleared)

theorem index_maintained_witness:
  "indexed (extend_edges demo_constraints constraints_default)"
  using index_maintained [OF indexed_default] by blast

text \<open>
  C25. The slice cut out of consistent constraints proves an access exactly when the whole
  graph does: every obligation over the two terms and literals is accepted on the slice
  exactly when it is accepted on all edges.
\<close>

theorem proof_slice_exact:
  assumes "indexed g" and "consistent (edges g)" and "proof_edges g a b span = Inr part"
    and "\<And>r. r \<in> set required \<Longrightarrow> constraint_ends r \<subseteq> {Zero, fst (term_node a), fst (term_node b)}"
  shows "set part \<subseteq> set (edges g) \<and> (entails required part \<longleftrightarrow> entails required (edges g))"
proof -
  obtain V where V: "set part \<subseteq> set (edges g)"
    "{Zero, fst (term_node a), fst (term_node b)} \<subseteq> V"
    "\<And>c. c \<in> set part \<Longrightarrow> constraint_ends c \<subseteq> V"
    "\<And>c. c \<in> set (edges g) \<Longrightarrow> c \<notin> set part \<Longrightarrow> constraint_ends c \<inter> V \<subseteq> {Zero}"
    using proof_edges_slice [OF assms(1,3)] by metis
  have "consistent part"
    using assms(2) V(1) by (auto simp: consistent_def sat_all_def)
  moreover have "follows part required \<longleftrightarrow> follows (edges g) required"
    by (rule follows_slice [OF assms(2) V(1,3,4)]) (use assms(4) V(2) in blast)+
  ultimately show ?thesis
    using V(1) assms(2) by (simp add: entails_iff_follows)
qed

definition demo_graph :: constraints where
  "demo_graph = extend_edges demo_constraints constraints_default"

lemma demo_graph_facts: "indexed demo_graph" "edges demo_graph = demo_constraints"
  unfolding demo_graph_def extend_edges_def fold_push_edges
  by (rule indexed_fold_push [OF indexed_default]) (simp add: constraints_default_def)

lemma demo_known: "known_term demo_graph (TermVariable 1 0)" "known_term demo_graph (TermVariable 2 0)"
  by code_simp+

lemma demo_within_budget: "within_budget demo_graph"
  by code_simp

theorem proof_slice_exact_witness:
  "\<exists>part. term_less_than (TermVariable 1 0) (TermVariable 2 0) part \<and> set part \<subseteq> set demo_constraints"
proof -
  obtain part where part: "proof_edges demo_graph (TermVariable 1 0) (TermVariable 2 0) () = Inr part"
    using proof_edges_returns [OF demo_graph_facts(1) demo_within_budget demo_known, of "()"] by blast
  have "set part \<subseteq> set demo_constraints \<and>
      (entails (constraints_less_than (TermVariable 1 0) (TermVariable 2 0)) part \<longleftrightarrow>
       entails (constraints_less_than (TermVariable 1 0) (TermVariable 2 0)) demo_constraints)"
    unfolding demo_graph_facts(2) [symmetric]
    by (rule proof_slice_exact [OF demo_graph_facts(1) _ part])
      (simp_all only: demo_graph_facts(2) demo_consistent,
       simp add: constraint_ends_def constraints_less_than_def constraints_difference_def)
  with demo_accepted show ?thesis
    by (auto simp only: term_less_than_def)
qed

text \<open>
  C27. The traversal of an indexed graph never indexes out of range, and a graph within
  its budget yields a slice for every pair of terms it knows.
\<close>

theorem proof_slice_returned:
  assumes "indexed g"
  shows "proof_edges g a b span \<noteq> Inl IndexPanic \<and>
    (within_budget g \<longrightarrow> known_term g a \<longrightarrow> known_term g b \<longrightarrow> (\<exists>part. proof_edges g a b span = Inr part))"
  using traverse_no_panic [OF assms, where span = span] proof_edges_returns [OF assms, of a b span]
  by (simp add: proof_edges_def Let_def result_simps)

theorem proof_slice_returned_witness:
  "\<exists>part. proof_edges demo_graph (TermVariable 1 0) (TermVariable 2 0) () = Inr part"
  using proof_slice_returned [OF demo_graph_facts(1), of "TermVariable 1 0" "TermVariable 2 0" "()"]
    demo_within_budget demo_known by blast

end
