(* ===== verification/Ast.thy ===== *)
theory Ast
  imports BlotPrelude "HOL-Library.Code_Target_Nat"
begin

text \<open>
  \<open>compiler/src/ast.rs\<close>: the portable syntax tree as an arena of expressions, patterns and
  declarations that refer to each other by index, and \<open>Module::validate\<close>, which accepts an
  arena only when every index is in range, the references are acyclic and the tree they
  unfold to is small. A float is carried as its bits; an \<open>Integer\<close> as its value.
\<close>

section \<open>The arena\<close>

record span =
  span_start :: u32
  span_end :: u32

datatype expression_id = ExpressionId u32
datatype pattern_id = PatternId u32
datatype declaration_id = DeclarationId u32

datatype qualifier = NoQualifier | Linear | Affine | Borrow

record shape_pattern_field =
  field_name :: string
  field_pattern :: pattern_id

datatype pattern =
  NamePattern string qualifier span
| WildcardPattern span
| PinPattern string span
| IntPattern int span
| FloatPattern u64 span
| TextPattern string span
| UnitPattern span
| TuplePattern "pattern_id list" span
| ArrayPattern "pattern_id list" span
| ConstructorPattern string "pattern_id option" span
| ShapePattern "shape_pattern_field list" span

record array_element =
  element_spread :: bool
  element_value :: expression_id

datatype shape_member =
  FieldMember string expression_id
| ComputedMember expression_id expression_id
| SpreadMember expression_id

record branch =
  branch_condition :: expression_id
  branch_consequence :: expression_id

record arm =
  arm_pattern :: pattern_id
  arm_body :: expression_id

datatype result_effects = PureResult | AmbientResult
datatype declaration_kind = LetKind | EffectKind | ConstKind

datatype expression =
  EVar string span
| EInt int span
| EFloat u64 span
| EText string span
| EUnit span
| EIntrinsic string span
| ETag string span
| EApply expression_id expression_id span
| EField expression_id string span
| ELambda pattern_id expression_id bool span
| EArray "array_element list" span
| ETuple "expression_id list" span
| EShape "shape_member list" span
| EIf "branch list" "expression_id option" span
| ECase expression_id "arm list" span
| EBlock "declaration_id list" expression_id result_effects span
| ERec expression_id span

record declaration_tag =
  tag_descriptor :: expression_id
  tag_span :: span

datatype ast_declaration =
  SignatureDeclaration declaration_kind bool string expression_id span
| BindingDeclaration declaration_kind "declaration_tag list" pattern_id expression_id span
| ShadowDeclaration string expression_id span
| OpenDeclaration expression_id span

record ast_arena =
  expressions :: "expression list"
  patterns :: "pattern list"
  declarations :: "ast_declaration list"
  synthetic_expressions :: "expression_id set"
  synthetic_closure_bodies :: "expression_id set"
  synthetic_runtime_type_expressions :: "expression_id set"
  synthetic_static_closure_bodies :: "expression_id set"

record ast_module =
  module_parameter :: "pattern_id option"
  module_declarations :: "declaration_id list"
  module_result :: expression_id
  module_result_effects :: result_effects
  module_span :: span
  module_arena :: ast_arena

text \<open>The derived equality ignores the synthetic marks.\<close>

definition arena_eq :: "ast_arena \<Rightarrow> ast_arena \<Rightarrow> bool" where
  "arena_eq a b \<longleftrightarrow>
     expressions a = expressions b \<and> patterns a = patterns b \<and> declarations a = declarations b"

text \<open>Allocation: the id is the length before the push, cut to 32 bits by \<open>as u32\<close>.\<close>

definition alloc_expression :: "expression \<Rightarrow> ast_arena \<Rightarrow> expression_id \<times> ast_arena" where
  "alloc_expression e a =
     (ExpressionId (of_nat (length (expressions a))), a\<lparr>expressions := expressions a @ [e]\<rparr>)"

definition alloc_pattern :: "pattern \<Rightarrow> ast_arena \<Rightarrow> pattern_id \<times> ast_arena" where
  "alloc_pattern p a =
     (PatternId (of_nat (length (patterns a))), a\<lparr>patterns := patterns a @ [p]\<rparr>)"

definition alloc_declaration :: "ast_declaration \<Rightarrow> ast_arena \<Rightarrow> declaration_id \<times> ast_arena" where
  "alloc_declaration d a =
     (DeclarationId (of_nat (length (declarations a))), a\<lparr>declarations := declarations a @ [d]\<rparr>)"

definition mark_expressions_synthetic_from :: "nat \<Rightarrow> ast_arena \<Rightarrow> ast_arena" where
  "mark_expressions_synthetic_from first a =
     (let bodies = List.map_filter (\<lambda>e. case e of ELambda _ body _ _ \<Rightarrow> Some body | _ \<Rightarrow> None)
                     (drop first (expressions a));
          ids = map (\<lambda>i. ExpressionId (of_nat i)) [first..<length (expressions a)]
      in a\<lparr>synthetic_closure_bodies := synthetic_closure_bodies a \<union> set bodies,
           synthetic_expressions := synthetic_expressions a \<union> set ids\<rparr>)"

fun span_of_expression :: "expression \<Rightarrow> span" where
  "span_of_expression (EVar _ s) = s"
| "span_of_expression (EInt _ s) = s"
| "span_of_expression (EFloat _ s) = s"
| "span_of_expression (EText _ s) = s"
| "span_of_expression (EUnit s) = s"
| "span_of_expression (EIntrinsic _ s) = s"
| "span_of_expression (ETag _ s) = s"
| "span_of_expression (EApply _ _ s) = s"
| "span_of_expression (EField _ _ s) = s"
| "span_of_expression (ELambda _ _ _ s) = s"
| "span_of_expression (EArray _ s) = s"
| "span_of_expression (ETuple _ s) = s"
| "span_of_expression (EShape _ s) = s"
| "span_of_expression (EIf _ _ s) = s"
| "span_of_expression (ECase _ _ s) = s"
| "span_of_expression (EBlock _ _ _ s) = s"
| "span_of_expression (ERec _ s) = s"

text \<open>\<open>AstArena::expression_span\<close>; the index of an absent expression panics (\<open>None\<close>).\<close>

fun get_expression :: "ast_arena \<Rightarrow> expression_id \<Rightarrow> expression option" where
  "get_expression a (ExpressionId i) =
     (if unat i < length (expressions a) then Some (expressions a ! unat i) else None)"

fun get_pattern :: "ast_arena \<Rightarrow> pattern_id \<Rightarrow> pattern option" where
  "get_pattern a (PatternId i) =
     (if unat i < length (patterns a) then Some (patterns a ! unat i) else None)"

definition arena_expression_span :: "ast_arena \<Rightarrow> expression_id \<Rightarrow> span option" where
  "arena_expression_span a e = map_option span_of_expression (get_expression a e)"

section \<open>Validation\<close>

text \<open>
  The error messages of \<open>Module::validate\<close> as values. \<open>IndexPanic\<close> is Rust's out-of-range
  panic, which the theorems below rule out.
\<close>

datatype location =
  AtModule | AtParameter | AtModuleDeclaration nat | AtResult
| AtExpression nat | AtPattern nat | AtDeclaration nat

datatype validate_error =
  SpanReversed location
| ExpressionOutside location u32
| PatternOutside location u32
| DeclarationOutside location u32
| DepthExceeded nat nat
| ExpansionExceeded nat nat
| CycleAt nat
| CycleFromTo nat nat
| RootsExceeded nat
| IndexPanic

definition artifact_reference_path_limit :: nat where "artifact_reference_path_limit = 128"
definition artifact_expanded_reference_limit :: nat where "artifact_expanded_reference_limit = 1048576"

definition validate_span :: "span \<Rightarrow> location \<Rightarrow> (validate_error, unit) result" where
  "validate_span s loc = (if span_end s < span_start s then Inl (SpanReversed loc) else Inr ())"

text \<open>Nodes are numbered: the expressions, then the patterns, then the declarations.\<close>

definition expression_count :: "ast_arena \<Rightarrow> nat" where
  "expression_count a = length (expressions a)"

definition pattern_offset :: "ast_arena \<Rightarrow> nat" where
  "pattern_offset a = length (expressions a)"

definition declaration_offset :: "ast_arena \<Rightarrow> nat" where
  "declaration_offset a = length (expressions a) + length (patterns a)"

definition node_count :: "ast_arena \<Rightarrow> nat" where
  "node_count a = length (expressions a) + length (patterns a) + length (declarations a)"

fun expression_index :: "ast_arena \<Rightarrow> location \<Rightarrow> expression_id \<Rightarrow> (validate_error, nat) result" where
  "expression_index a loc (ExpressionId i) =
     (if length (expressions a) \<le> unat i then Inl (ExpressionOutside loc i) else Inr (unat i))"

fun pattern_index :: "ast_arena \<Rightarrow> location \<Rightarrow> pattern_id \<Rightarrow> (validate_error, nat) result" where
  "pattern_index a loc (PatternId i) =
     (if length (patterns a) \<le> unat i then Inl (PatternOutside loc i) else Inr (pattern_offset a + unat i))"

fun declaration_index :: "ast_arena \<Rightarrow> location \<Rightarrow> declaration_id \<Rightarrow> (validate_error, nat) result" where
  "declaration_index a loc (DeclarationId i) =
     (if length (declarations a) \<le> unat i then Inl (DeclarationOutside loc i)
      else Inr (declaration_offset a + unat i))"

text \<open>The references of a node, in the order the code pushes them.\<close>

datatype reference =
  ToExpression expression_id | ToPattern pattern_id | ToDeclaration declaration_id

fun reference_index :: "ast_arena \<Rightarrow> location \<Rightarrow> reference \<Rightarrow> (validate_error, nat) result" where
  "reference_index a loc (ToExpression e) = expression_index a loc e"
| "reference_index a loc (ToPattern p) = pattern_index a loc p"
| "reference_index a loc (ToDeclaration d) = declaration_index a loc d"

fun member_references :: "shape_member \<Rightarrow> reference list" where
  "member_references (FieldMember _ value) = [ToExpression value]"
| "member_references (SpreadMember value) = [ToExpression value]"
| "member_references (ComputedMember name value) = [ToExpression name, ToExpression value]"

fun expression_references :: "expression \<Rightarrow> reference list" where
  "expression_references (EApply f x _) = [ToExpression f, ToExpression x]"
| "expression_references (EField t _ _) = [ToExpression t]"
| "expression_references (ELambda p b _ _) = [ToPattern p, ToExpression b]"
| "expression_references (EArray elements _) = map (\<lambda>e. ToExpression (element_value e)) elements"
| "expression_references (ETuple elements _) = map ToExpression elements"
| "expression_references (EShape members _) = concat (map member_references members)"
| "expression_references (EIf branches fallback _) =
     concat (map (\<lambda>b. [ToExpression (branch_condition b), ToExpression (branch_consequence b)]) branches) @
     (case fallback of None \<Rightarrow> [] | Some e \<Rightarrow> [ToExpression e])"
| "expression_references (ECase t arms _) =
     ToExpression t # concat (map (\<lambda>r. [ToPattern (arm_pattern r), ToExpression (arm_body r)]) arms)"
| "expression_references (EBlock ds r _ _) = map ToDeclaration ds @ [ToExpression r]"
| "expression_references (ERec l _) = [ToExpression l]"
| "expression_references _ = []"

fun span_of_pattern :: "pattern \<Rightarrow> span" where
  "span_of_pattern (NamePattern _ _ s) = s"
| "span_of_pattern (WildcardPattern s) = s"
| "span_of_pattern (PinPattern _ s) = s"
| "span_of_pattern (IntPattern _ s) = s"
| "span_of_pattern (FloatPattern _ s) = s"
| "span_of_pattern (TextPattern _ s) = s"
| "span_of_pattern (UnitPattern s) = s"
| "span_of_pattern (TuplePattern _ s) = s"
| "span_of_pattern (ArrayPattern _ s) = s"
| "span_of_pattern (ConstructorPattern _ _ s) = s"
| "span_of_pattern (ShapePattern _ s) = s"

fun pattern_references :: "pattern \<Rightarrow> reference list" where
  "pattern_references (TuplePattern elements _) = map ToPattern elements"
| "pattern_references (ArrayPattern elements _) = map ToPattern elements"
| "pattern_references (ConstructorPattern _ payload _) =
     (case payload of None \<Rightarrow> [] | Some p \<Rightarrow> [ToPattern p])"
| "pattern_references (ShapePattern fs _) = map (\<lambda>f. ToPattern (field_pattern f)) fs"
| "pattern_references _ = []"

definition expression_edges ::
  "ast_arena \<Rightarrow> nat \<times> expression \<Rightarrow> (validate_error, nat list) result" where
  "expression_edges a = (\<lambda>(index, e).
     and_then (validate_span (span_of_expression e) (AtExpression index)) (\<lambda>_.
       collect (reference_index a (AtExpression index)) (expression_references e)))"

definition pattern_edges ::
  "ast_arena \<Rightarrow> nat \<times> pattern \<Rightarrow> (validate_error, nat list) result" where
  "pattern_edges a = (\<lambda>(index, p).
     and_then (validate_span (span_of_pattern p) (AtPattern index)) (\<lambda>_.
       collect (reference_index a (AtPattern index)) (pattern_references p)))"

fun declaration_edges ::
  "ast_arena \<Rightarrow> nat \<times> ast_declaration \<Rightarrow> (validate_error, nat list) result" where
  "declaration_edges a (index, SignatureDeclaration _ _ _ value s) =
     and_then (validate_span s (AtDeclaration index)) (\<lambda>_.
     and_then (expression_index a (AtDeclaration index) value) (\<lambda>v. Inr [v]))"
| "declaration_edges a (index, BindingDeclaration _ tags pat value s) =
     and_then (validate_span s (AtDeclaration index)) (\<lambda>_.
     and_then (collect (\<lambda>tag. and_then (validate_span (tag_span tag) (AtDeclaration index)) (\<lambda>_.
                 expression_index a (AtDeclaration index) (tag_descriptor tag))) tags) (\<lambda>ts.
     and_then (pattern_index a (AtDeclaration index) pat) (\<lambda>p.
     and_then (expression_index a (AtDeclaration index) value) (\<lambda>v. Inr (ts @ [p, v])))))"
| "declaration_edges a (index, ShadowDeclaration _ value s) =
     and_then (validate_span s (AtDeclaration index)) (\<lambda>_.
     and_then (expression_index a (AtDeclaration index) value) (\<lambda>v. Inr [v]))"
| "declaration_edges a (index, OpenDeclaration value s) =
     and_then (validate_span s (AtDeclaration index)) (\<lambda>_.
     and_then (expression_index a (AtDeclaration index) value) (\<lambda>v. Inr [v]))"

definition arena_edges :: "ast_arena \<Rightarrow> (validate_error, nat list list) result" where
  "arena_edges a =
     and_then (collect (expression_edges a) (enumerate 0 (expressions a))) (\<lambda>es.
     and_then (collect (pattern_edges a) (enumerate 0 (patterns a))) (\<lambda>ps.
     and_then (collect (declaration_edges a) (enumerate 0 (declarations a))) (\<lambda>ds.
       Inr (es @ ps @ ds))))"

definition module_roots :: "ast_module \<Rightarrow> (validate_error, nat list) result" where
  "module_roots m =
     (let a = module_arena m
      in and_then (case module_parameter m of
                     None \<Rightarrow> Inr [] | Some p \<Rightarrow> and_then (pattern_index a AtParameter p) (\<lambda>i. Inr [i])) (\<lambda>ps.
         and_then (collect (\<lambda>(ordinal, d). declaration_index a (AtModuleDeclaration ordinal) d)
                     (enumerate 0 (module_declarations m))) (\<lambda>ds.
         and_then (expression_index a AtResult (module_result m)) (\<lambda>r.
           Inr (ps @ ds @ [r])))))"

section \<open>The reference walk\<close>

text \<open>
  The depth-first walk with its explicit stack. \<open>states\<close> holds 0, 1, 2 for a node not yet
  entered, entered, and left; \<open>reference_depths\<close> and \<open>expanded_references\<close> are filled when
  a node is left. The saturating sums are on \<open>usize\<close> and \<open>u64\<close>.
\<close>

datatype visit_state = Unseen | Active | Finished

record walk =
  states :: "visit_state list"
  reference_depths :: "nat list"
  expanded_references :: "nat list"

definition word_max :: nat where "word_max = 2 ^ 64 - 1"

definition saturating_add :: "nat \<Rightarrow> nat \<Rightarrow> nat" where
  "saturating_add a b = min (a + b) word_max"

definition expanded_overflow :: nat where
  "expanded_overflow = artifact_expanded_reference_limit + 1"

definition measure_targets :: "walk \<Rightarrow> nat list \<Rightarrow> nat \<times> nat" where
  "measure_targets w targets =
     fold (\<lambda>target (depth, expanded).
             (max depth (saturating_add (reference_depths w ! target) 1),
              min (saturating_add expanded (expanded_references w ! target)) expanded_overflow))
       targets (0, 1)"

definition leave_node :: "nat list list \<Rightarrow> nat \<Rightarrow> walk \<Rightarrow> (validate_error, walk) result" where
  "leave_node edges node w =
     (let (depth, expanded) = measure_targets w (edges ! node)
      in if depth > artifact_reference_path_limit then Inl (DepthExceeded node depth)
         else if expanded > artifact_expanded_reference_limit then Inl (ExpansionExceeded node expanded)
         else Inr (w\<lparr>reference_depths := (reference_depths w)[node := depth],
                     expanded_references := (expanded_references w)[node := expanded],
                     states := (states w)[node := Finished]\<rparr>))"

fun push_targets ::
  "visit_state list \<Rightarrow> nat \<Rightarrow> nat list \<Rightarrow> (nat \<times> bool) list \<Rightarrow> (validate_error, (nat \<times> bool) list) result" where
  "push_targets marks node [] stack = Inr stack"
| "push_targets marks node (target # targets) stack =
     (if length marks \<le> target then Inl IndexPanic
      else if marks ! target = Active then Inl (CycleFromTo node target)
      else if marks ! target = Unseen then push_targets marks node targets ((target, False) # stack)
      else push_targets marks node targets stack)"

definition unseen_count :: "walk \<Rightarrow> nat" where
  "unseen_count w = length (filter (\<lambda>m. m = Unseen) (states w))"

lemma unseen_count_eq: "unseen_count w = card {i. i < length (states w) \<and> states w ! i = Unseen}"
  by (simp add: unseen_count_def length_filter_conv_card)

lemma unseen_count_update:
  "m \<noteq> Unseen \<Longrightarrow> unseen_count (w\<lparr>states := (states w)[node := m]\<rparr>) \<le> unseen_count w"
  unfolding unseen_count_eq
  by (cases "node < length (states w)") (auto intro!: card_mono simp: nth_list_update split: if_splits)

lemma unseen_count_enter:
  "states w ! node = Unseen \<Longrightarrow> node < length (states w) \<Longrightarrow> m \<noteq> Unseen \<Longrightarrow>
     unseen_count (w\<lparr>states := (states w)[node := m]\<rparr>) < unseen_count w"
  unfolding unseen_count_eq by (rule psubset_card_mono) (auto simp: nth_list_update split: if_splits)

lemma leave_node_Inr:
  "leave_node edges node w = Inr w' \<longleftrightarrow>
     fst (measure_targets w (edges ! node)) \<le> artifact_reference_path_limit \<and>
     snd (measure_targets w (edges ! node)) \<le> artifact_expanded_reference_limit \<and>
     w' = w\<lparr>reference_depths := (reference_depths w)[node := fst (measure_targets w (edges ! node))],
            expanded_references := (expanded_references w)[node := snd (measure_targets w (edges ! node))],
            states := (states w)[node := Finished]\<rparr>"
  by (auto simp: leave_node_def split: prod.split)

function walk_stack ::
  "nat list list \<Rightarrow> (nat \<times> bool) list \<Rightarrow> walk \<Rightarrow> (validate_error, walk) result" where
  "walk_stack edges [] w = Inr w"
| "walk_stack edges ((node, exiting) # stack) w =
     (if length (states w) \<le> node then Inl IndexPanic
      else if exiting then and_then (leave_node edges node w) (walk_stack edges stack)
      else if states w ! node = Finished then walk_stack edges stack w
      else if states w ! node = Active then Inl (CycleAt node)
      else
        (let w' = w\<lparr>states := (states w)[node := Active]\<rparr>
         in and_then (push_targets (states w') node (rev (edges ! node)) ((node, True) # stack)) (\<lambda>stack'.
              walk_stack edges stack' w')))"
  by pat_completeness auto

termination
proof (relation "measures [\<lambda>(edges, stack, w). unseen_count w, \<lambda>(edges, stack, w). length stack]")
  fix edges :: "nat list list" and node exiting stack and w w' :: walk
  assume "leave_node edges node w = Inr w'"
  then have "unseen_count w' \<le> unseen_count w"
    by (auto simp: leave_node_Inr unseen_count_def)
      (use unseen_count_update [of Finished w node] in \<open>simp add: unseen_count_def\<close>)
  then show "((edges, stack, w'), (edges, (node, exiting) # stack, w)) \<in>
      measures [\<lambda>(edges, stack, w). unseen_count w, \<lambda>(edges, stack, w). length stack]"
    by auto
next
  fix edges :: "nat list list" and node exiting stack stack' and w w' :: walk
  assume "\<not> length (states w) \<le> node" "states w ! node \<noteq> Finished" "states w ! node \<noteq> Active"
    and "w' = w\<lparr>states := (states w)[node := Active]\<rparr>"
  then show "((edges, stack', w'), (edges, (node, exiting) # stack, w)) \<in>
      measures [\<lambda>(edges, stack, w). unseen_count w, \<lambda>(edges, stack, w). length stack]"
    using unseen_count_enter [of w node Active] by (cases "states w ! node") auto
qed auto

fun walk_roots :: "nat list list \<Rightarrow> nat list \<Rightarrow> walk \<Rightarrow> (validate_error, walk) result" where
  "walk_roots edges [] w = Inr w"
| "walk_roots edges (root # roots) w =
     (if states w ! root \<noteq> Unseen then walk_roots edges roots w
      else and_then (walk_stack edges [(root, False)] w) (walk_roots edges roots))"

fun sum_roots :: "walk \<Rightarrow> nat list \<Rightarrow> nat \<Rightarrow> (validate_error, unit) result" where
  "sum_roots w [] acc = Inr ()"
| "sum_roots w (root # roots) acc =
     (let acc' = min (saturating_add acc (expanded_references w ! root)) expanded_overflow
      in if acc' > artifact_expanded_reference_limit then Inl (RootsExceeded acc')
         else sum_roots w roots acc')"

definition initial_walk :: "nat \<Rightarrow> walk" where
  "initial_walk n =
     \<lparr>states = replicate n Unseen, reference_depths = replicate n 0, expanded_references = replicate n 0\<rparr>"

definition validate_graph :: "nat list list \<Rightarrow> nat list \<Rightarrow> (validate_error, unit) result" where
  "validate_graph edges roots =
     and_then (walk_roots edges [0..<length edges] (initial_walk (length edges))) (\<lambda>w.
       sum_roots w roots 0)"

text \<open>\<open>Module::validate\<close>.\<close>

definition validate_module :: "ast_module \<Rightarrow> (validate_error, unit) result" where
  "validate_module m =
     and_then (validate_span (module_span m) AtModule) (\<lambda>_.
     and_then (module_roots m) (\<lambda>roots.
     and_then (arena_edges (module_arena m)) (\<lambda>edges.
       validate_graph edges roots)))"

section \<open>What the walk decides\<close>

text \<open>
  The tree a node unfolds to. A node has one exactly when no cycle is reachable from it;
  its height is the longest reference path and its size the number of references of the
  expanded tree, the node included.
\<close>

datatype expansion = Unfold (root: nat) (parts: "expansion list")

fun unfolds :: "nat list list \<Rightarrow> expansion \<Rightarrow> bool" where
  "unfolds edges (Unfold n us) \<longleftrightarrow>
     n < length edges \<and> map root us = edges ! n \<and> (\<forall>u \<in> set us. unfolds edges u)"

fun height :: "expansion \<Rightarrow> nat" where
  "height (Unfold n us) = fold max (map (\<lambda>u. height u + 1) us) 0"

fun references :: "expansion \<Rightarrow> nat" where
  "references (Unfold n us) = 1 + sum_list (map references us)"

definition bounded_unfolding :: "nat list list \<Rightarrow> nat \<Rightarrow> expansion \<Rightarrow> bool" where
  "bounded_unfolding edges n u \<longleftrightarrow> unfolds edges u \<and> root u = n \<and>
     height u \<le> artifact_reference_path_limit \<and> references u \<le> artifact_expanded_reference_limit"

text \<open>A node has one unfolding at most, and none when it lies on a cycle.\<close>

lemma unfolding_unique: "unfolds edges u \<Longrightarrow> unfolds edges u' \<Longrightarrow> root u = root u' \<Longrightarrow> u = u'"
proof (induction u arbitrary: u')
  case (Unfold n us)
  obtain us' where u': "u' = Unfold n us'" using Unfold.prems(3) by (cases u') simp
  have "us = us'"
  proof (rule nth_equalityI)
    show len: "length us = length us'"
      using Unfold.prems u' by (metis length_map unfolds.simps)
    fix i assume i: "i < length us"
    have "root (us ! i) = root (us' ! i)"
      using Unfold.prems u' i len by (metis nth_map unfolds.simps)
    with Unfold.prems u' i len show "us ! i = us' ! i"
      by (intro Unfold.IH) auto
  qed
  with u' show ?case by simp
qed

definition reference_relation :: "nat list list \<Rightarrow> (nat \<times> nat) set" where
  "reference_relation edges = {(i, j). i < length edges \<and> j \<in> set (edges ! i)}"

lemma unfolding_step:
  assumes "unfolds edges u" and "(root u, j) \<in> reference_relation edges"
  obtains u' where "unfolds edges u'" "root u' = j" "size u' < size u"
proof (cases u)
  case (Unfold n us)
  with assms have "j \<in> set (map root us)"
    by (simp add: reference_relation_def)
  then obtain u' where u': "u' \<in> set us" "root u' = j" by auto
  then have "size u' < size u"
    using Unfold size_list_estimation' [of u' us "size u'" size] by simp
  with u' assms(1) Unfold show ?thesis by (intro that [of u']) auto
qed

lemma unfolding_path:
  "(i, j) \<in> (reference_relation edges)\<^sup>+ \<Longrightarrow> unfolds edges u \<Longrightarrow> root u = i \<Longrightarrow>
     \<exists>u'. unfolds edges u' \<and> root u' = j \<and> size u' < size u"
proof (induction rule: trancl_induct)
  case (base y)
  then show ?case using unfolding_step by metis
next
  case (step y z)
  then obtain u' where "unfolds edges u'" "root u' = y" "size u' < size u" by blast
  with step(2) unfolding_step [of edges u' z] show ?case by (metis order.strict_trans)
qed

lemma unfolding_no_cycle:
  assumes "unfolds edges u" shows "(root u, root u) \<notin> (reference_relation edges)\<^sup>+"
proof
  assume "(root u, root u) \<in> (reference_relation edges)\<^sup>+"
  then obtain u' where "unfolds edges u'" "root u' = root u" "size u' < size u"
    using unfolding_path [OF _ assms refl] by blast
  with unfolding_unique [OF assms, of u'] show False by simp
qed

text \<open>The walk's bookkeeping is right at a node when it holds its unfolding's measures.\<close>

definition measured :: "nat list list \<Rightarrow> walk \<Rightarrow> nat \<Rightarrow> bool" where
  "measured edges w n \<longleftrightarrow> (\<exists>u. bounded_unfolding edges n u \<and>
     reference_depths w ! n = height u \<and> expanded_references w ! n = references u)"

lemma fold_measures:
  assumes "\<And>u. u \<in> set us \<Longrightarrow>
      height u \<le> artifact_reference_path_limit \<and> references u \<le> artifact_expanded_reference_limit \<and>
      reference_depths w ! root u = height u \<and> expanded_references w ! root u = references u"
    and "e0 \<le> expanded_overflow" and "e0 = min e expanded_overflow"
  shows "fold (\<lambda>target (depth, expanded).
             (max depth (saturating_add (reference_depths w ! target) 1),
              min (saturating_add expanded (expanded_references w ! target)) expanded_overflow))
       (map root us) (d, e0) =
     (fold max (map (\<lambda>u. height u + 1) us) d, min (e + sum_list (map references us)) expanded_overflow)"
  using assms
proof (induction us arbitrary: d e0 e)
  case (Cons u us)
  have sat: "saturating_add (height u) 1 = height u + 1"
    using Cons.prems(1) [of u] by (simp add: saturating_add_def word_max_def artifact_reference_path_limit_def)
  have sum: "min (saturating_add e0 (references u)) expanded_overflow = min (e + references u) expanded_overflow"
    using Cons.prems(1) [of u] Cons.prems(2,3)
    by (auto simp: saturating_add_def word_max_def expanded_overflow_def artifact_expanded_reference_limit_def)
  have "fold (\<lambda>target (depth, expanded).
             (max depth (saturating_add (reference_depths w ! target) 1),
              min (saturating_add expanded (expanded_references w ! target)) expanded_overflow))
       (map root us) (max d (height u + 1), min (e + references u) expanded_overflow) =
     (fold max (map (\<lambda>u. height u + 1) us) (max d (height u + 1)),
      min (e + references u + sum_list (map references us)) expanded_overflow)"
    by (rule Cons.IH) (use Cons.prems(1) in auto)
  then show ?case
    using Cons.prems(1) [of u] sum sat by (simp add: max.commute add.assoc)
qed simp

lemma measure_targets_unfolding:
  assumes "unfolds edges (Unfold n us)" and "\<And>t. t \<in> set (edges ! n) \<Longrightarrow> measured edges w t"
  shows "measure_targets w (edges ! n) =
    (height (Unfold n us), min (references (Unfold n us)) expanded_overflow)"
proof -
  have "height u \<le> artifact_reference_path_limit \<and> references u \<le> artifact_expanded_reference_limit \<and>
      reference_depths w ! root u = height u \<and> expanded_references w ! root u = references u"
    if u: "u \<in> set us" for u
  proof -
    have "set (edges ! n) = root ` set us"
      using assms(1) by (metis list.set_map unfolds.simps)
    with u assms(1) have "unfolds edges u" "root u \<in> set (edges ! n)" by auto
    from assms(2) [OF this(2)] obtain u' where u': "bounded_unfolding edges (root u) u'"
        "reference_depths w ! root u = height u'" "expanded_references w ! root u = references u'"
      by (auto simp: measured_def)
    moreover have "u' = u"
      using u'(1) \<open>unfolds edges u\<close> by (intro unfolding_unique) (auto simp: bounded_unfolding_def)
    ultimately show ?thesis by (simp add: bounded_unfolding_def)
  qed
  then show ?thesis
    using assms(1) fold_measures [of us w 1 1 0]
    by (simp add: measure_targets_def expanded_overflow_def artifact_expanded_reference_limit_def)
qed

lemma targets_unfold:
  assumes "n < length edges" and "\<And>t. t \<in> set (edges ! n) \<Longrightarrow> measured edges w t"
  shows "\<exists>us. unfolds edges (Unfold n us)"
proof -
  have "\<forall>t \<in> set (edges ! n). \<exists>u. unfolds edges u \<and> root u = t"
    using assms(2) by (auto simp: measured_def bounded_unfolding_def)
  then obtain f where f: "\<forall>t \<in> set (edges ! n). unfolds edges (f t) \<and> root (f t) = t" by metis
  then have "unfolds edges (Unfold n (map f (edges ! n)))"
    using assms(1) by (auto simp: map_idI)
  then show ?thesis ..
qed

section \<open>The invariant of the walk\<close>

text \<open>
  A stack entry is a target of the nearest node below it that has been entered; a node
  that has been entered and not left is on the stack, and each of its targets is finished
  or above it on the stack.
\<close>

fun top_entered :: "(nat \<times> bool) list \<Rightarrow> nat option" where
  "top_entered [] = None"
| "top_entered ((n, entered) # stack) = (if entered then Some n else top_entered stack)"

fun linked :: "nat list list \<Rightarrow> (nat \<times> bool) list \<Rightarrow> bool" where
  "linked edges [] = True"
| "linked edges ((n, entered) # stack) \<longleftrightarrow> n < length edges \<and> linked edges stack \<and>
     (case top_entered stack of None \<Rightarrow> True | Some v \<Rightarrow> (v, n) \<in> reference_relation edges)"

fun covered :: "nat list list \<Rightarrow> visit_state list \<Rightarrow> nat set \<Rightarrow> (nat \<times> bool) list \<Rightarrow> bool" where
  "covered edges marks higher [] = True"
| "covered edges marks higher ((n, entered) # stack) \<longleftrightarrow>
     (entered \<longrightarrow> (\<forall>t \<in> set (edges ! n). marks ! t = Finished \<or> t \<in> higher)) \<and>
     covered edges marks (insert n higher) stack"

definition walk_inv :: "nat list list \<Rightarrow> (nat \<times> bool) list \<Rightarrow> walk \<Rightarrow> bool" where
  "walk_inv edges stack w \<longleftrightarrow>
     length (states w) = length edges \<and> length (reference_depths w) = length edges \<and>
     length (expanded_references w) = length edges \<and>
     (\<forall>i < length edges. states w ! i = Active \<longrightarrow> (i, True) \<in> set stack) \<and>
     (\<forall>i < length edges. states w ! i = Finished \<longrightarrow> measured edges w i) \<and>
     linked edges stack \<and> covered edges (states w) {} stack"

definition edges_in_range :: "nat list list \<Rightarrow> bool" where
  "edges_in_range edges \<longleftrightarrow> (\<forall>ts \<in> set edges. \<forall>t \<in> set ts. t < length edges)"

lemma edges_in_rangeD: "edges_in_range edges \<Longrightarrow> n < length edges \<Longrightarrow> t \<in> set (edges ! n) \<Longrightarrow> t < length edges"
  by (auto simp: edges_in_range_def)

lemma covered_mono:
  assumes "covered edges marks higher stack"
    and "\<And>i. marks ! i = Finished \<Longrightarrow> marks' ! i = Finished"
    and "\<And>i. i \<in> higher \<Longrightarrow> i \<in> higher' \<or> marks' ! i = Finished"
  shows "covered edges marks' higher' stack"
  using assms
proof (induction stack arbitrary: higher higher')
  case (Cons e stack)
  obtain n b where e: "e = (n, b)" by force
  have "covered edges marks' (insert n higher') stack"
    using Cons.prems by (intro Cons.IH [of "insert n higher"]) (auto simp: e)
  with Cons.prems e show ?case by (auto simp: e)
qed simp

lemma covered_pushed:
  "covered edges marks higher (map (\<lambda>t. (t, False)) ts @ stack) \<longleftrightarrow> covered edges marks (set ts \<union> higher) stack"
  by (induction ts arbitrary: higher) (auto simp: Un_left_commute)

lemma top_entered_pushed [simp]: "top_entered (map (\<lambda>t. (t, False)) ts @ stack) = top_entered stack"
  by (induction ts) auto

lemma linked_pushed:
  "linked edges stack \<Longrightarrow> (\<And>t. t \<in> set ts \<Longrightarrow> t < length edges) \<Longrightarrow>
     (\<And>t v. t \<in> set ts \<Longrightarrow> top_entered stack = Some v \<Longrightarrow> (v, t) \<in> reference_relation edges) \<Longrightarrow>
     linked edges (map (\<lambda>t. (t, False)) ts @ stack)"
  by (induction ts) (auto split: option.split)

lemma entered_reaches_top:
  "linked edges stack \<Longrightarrow> (y, True) \<in> set stack \<Longrightarrow>
     \<exists>v. top_entered stack = Some v \<and> (y, v) \<in> (reference_relation edges)\<^sup>*"
proof (induction edges stack rule: linked.induct)
  case (2 edges n entered stack)
  show ?case
  proof (cases "(y, True) \<in> set stack")
    case True
    with 2 obtain v where "top_entered stack = Some v" "(y, v) \<in> (reference_relation edges)\<^sup>*" by auto
    with "2.prems"(1) show ?thesis by (auto intro: rtrancl_into_rtrancl)
  next
    case False
    with "2.prems"(2) show ?thesis by auto
  qed
qed simp

lemma entered_reaches_pending:
  assumes "linked edges ((n, False) # stack)" and "(y, True) \<in> set stack"
  shows "(y, n) \<in> (reference_relation edges)\<^sup>+"
  using assms entered_reaches_top [of edges stack y]
  by (auto simp: rtrancl_into_trancl1)

lemma push_targets_Inr:
  "push_targets marks node ts stack = Inr stack' \<longleftrightarrow>
     (\<forall>t \<in> set ts. t < length marks \<and> marks ! t \<noteq> Active) \<and>
     stack' = map (\<lambda>t. (t, False)) (rev (filter (\<lambda>t. marks ! t = Unseen) ts)) @ stack"
  by (induction marks node ts stack rule: push_targets.induct) auto

lemma push_targets_Inl:
  "push_targets marks node ts stack = Inl e \<Longrightarrow> \<exists>t \<in> set ts. length marks \<le> t \<or> marks ! t = Active"
  by (induction marks node ts stack rule: push_targets.induct) (auto split: if_splits)

lemma walk_inv_skip:
  assumes "walk_inv edges ((n, False) # stack) w" and "states w ! n = Finished"
  shows "walk_inv edges stack w"
proof -
  have "covered edges (states w) {} stack"
    by (rule covered_mono [of _ "states w" "{n}"]) (use assms in \<open>auto simp: walk_inv_def\<close>)
  with assms show ?thesis by (auto simp: walk_inv_def)
qed

lemma walk_inv_enter:
  assumes inv: "walk_inv edges ((n, False) # stack) w" and "states w ! n = Unseen"
    and range: "edges_in_range edges"
    and push: "push_targets ((states w)[n := Active]) n (rev (edges ! n)) ((n, True) # stack) = Inr stack'"
  shows "walk_inv edges stack' (w\<lparr>states := (states w)[n := Active]\<rparr>)"
proof -
  let ?marks = "(states w)[n := Active]"
  let ?ts = "filter (\<lambda>t. ?marks ! t = Unseen) (edges ! n)"
  have n: "n < length edges" "length (states w) = length edges"
    using inv by (auto simp: walk_inv_def)
  have stack': "stack' = map (\<lambda>t. (t, False)) ?ts @ (n, True) # stack"
    and not_active: "\<forall>t \<in> set (edges ! n). ?marks ! t \<noteq> Active"
    using push by (auto simp: push_targets_Inr rev_filter)
  have seen: "?marks ! t = Finished \<or> t \<in> set ?ts" if "t \<in> set (edges ! n)" for t
    using not_active that by (cases "?marks ! t") auto
  have "covered edges ?marks (insert n (set ?ts)) stack"
    by (rule covered_mono [of _ "states w" "{n}"])
      (use inv assms(2) n in \<open>auto simp: walk_inv_def nth_list_update\<close>)
  with seen have "covered edges ?marks {} stack'"
    unfolding stack' covered_pushed by auto
  moreover have "linked edges stack'"
    unfolding stack' by (rule linked_pushed)
      (use inv n edges_in_rangeD [OF range n(1)] in \<open>auto simp: walk_inv_def reference_relation_def\<close>)
  moreover have "measured edges (w\<lparr>states := ?marks\<rparr>) i = measured edges w i" for i
    by (simp add: measured_def)
  ultimately show ?thesis
    using inv n assms(2) stack' by (auto simp: walk_inv_def nth_list_update)
qed

lemma walk_inv_measures:
  assumes "walk_inv edges ((n, True) # stack) w" and "edges_in_range edges"
  shows "\<exists>us. unfolds edges (Unfold n us) \<and>
    measure_targets w (edges ! n) = (height (Unfold n us), min (references (Unfold n us)) expanded_overflow)"
proof -
  have n: "n < length edges" using assms(1) by (simp add: walk_inv_def)
  have "measured edges w t" if t: "t \<in> set (edges ! n)" for t
    using assms(1) t edges_in_rangeD [OF assms(2) n t] by (auto simp: walk_inv_def)
  with targets_unfold [OF n, of w] measure_targets_unfolding [of edges n _ w] show ?thesis by blast
qed

lemma walk_inv_leave:
  assumes inv: "walk_inv edges ((n, True) # stack) w" and range: "edges_in_range edges"
    and leave: "leave_node edges n w = Inr w'"
  shows "walk_inv edges stack w'"
proof -
  have n: "n < length edges" "length (states w) = length edges"
    "length (reference_depths w) = length edges" "length (expanded_references w) = length edges"
    using inv by (auto simp: walk_inv_def)
  obtain us where us: "unfolds edges (Unfold n us)"
    "measure_targets w (edges ! n) = (height (Unfold n us), min (references (Unfold n us)) expanded_overflow)"
    using walk_inv_measures [OF inv range] by blast
  have small: "height (Unfold n us) \<le> artifact_reference_path_limit"
    "min (references (Unfold n us)) expanded_overflow \<le> artifact_expanded_reference_limit"
    and w': "w' = w\<lparr>reference_depths := (reference_depths w)[n := height (Unfold n us)],
      expanded_references := (expanded_references w)[n := min (references (Unfold n us)) expanded_overflow],
      states := (states w)[n := Finished]\<rparr>"
    using leave by (simp_all only: leave_node_Inr us(2) fst_conv snd_conv)
  have "min r (limit + 1) \<le> limit \<Longrightarrow> min r (limit + 1) = r \<and> r \<le> limit" for r limit :: nat by simp
  then have exact: "min (references (Unfold n us)) expanded_overflow = references (Unfold n us)"
    "references (Unfold n us) \<le> artifact_expanded_reference_limit"
    using small(2) unfolding expanded_overflow_def by blast+
  have "measured edges w' n"
    unfolding measured_def using us(1) small(1) exact w' n
    by (intro exI [of _ "Unfold n us"]) (simp add: bounded_unfolding_def)
  moreover have "measured edges w' i" if "i \<noteq> n" "measured edges w i" for i
    using that w' by (simp add: measured_def)
  moreover have "covered edges (states w') {} stack"
    by (rule covered_mono [of _ "states w" "{n}"])
      (use inv w' n in \<open>auto simp: walk_inv_def nth_list_update\<close>)
  ultimately show ?thesis
    using inv w' n by (auto simp: walk_inv_def nth_list_update)
qed

section \<open>Soundness and completeness of the walk\<close>

lemma walk_stack_sound:
  "walk_stack edges stack w = Inr w' \<Longrightarrow> edges_in_range edges \<Longrightarrow> walk_inv edges stack w \<Longrightarrow>
     walk_inv edges [] w' \<and> (\<forall>i. states w ! i \<noteq> Unseen \<longrightarrow> states w' ! i \<noteq> Unseen) \<and>
     (\<forall>e \<in> set stack. states w' ! fst e \<noteq> Unseen)"
proof (induction edges stack w rule: walk_stack.induct)
  case (2 edges n entered stack w)
  have n: "n < length (states w)"
    using "2.prems"(3) by (auto simp: walk_inv_def)
  note range = "2.prems"(2) and inv = "2.prems"(3)
  show ?case
  proof (cases entered)
    case True
    with "2.prems"(1) n obtain w2 where w2: "leave_node edges n w = Inr w2" "walk_stack edges stack w2 = Inr w'"
      by (auto simp: and_then_eq_Inr)
    have marks: "states w2 = (states w)[n := Finished]"
      using w2(1) by (auto simp: leave_node_Inr)
    have "walk_inv edges stack w2"
      using walk_inv_leave [OF _ range w2(1)] inv True by simp
    from "2.IH"(1) [OF _ True w2 range this] n marks show ?thesis
      by (auto simp: nth_list_update split: if_splits)
  next
    case False
    show ?thesis
    proof (cases "states w ! n = Finished")
      case True
      have "walk_inv edges stack w" using walk_inv_skip [OF _ True] inv False by simp
      with "2.IH"(2) "2.prems"(1) n False True range show ?thesis by auto
    next
      case unfinished: False
      define w2 where "w2 = w\<lparr>states := (states w)[n := Active]\<rparr>"
      obtain stack' where push: "push_targets (states w2) n (rev (edges ! n)) ((n, True) # stack) = Inr stack'"
        and rest: "walk_stack edges stack' w2 = Inr w'" and unseen: "states w ! n = Unseen"
        using "2.prems"(1) n False unfinished
        by (cases "states w ! n") (auto simp: and_then_eq_Inr w2_def)
      have "walk_inv edges stack' w2"
        using walk_inv_enter [OF _ unseen range] inv False push by (simp add: w2_def)
      from "2.IH"(3) [OF _ False unfinished _ w2_def push rest range this] n unseen
      have IH: "walk_inv edges [] w'" "\<forall>i. states w2 ! i \<noteq> Unseen \<longrightarrow> states w' ! i \<noteq> Unseen"
        "\<forall>e \<in> set stack'. states w' ! fst e \<noteq> Unseen"
        by auto
      moreover have "set ((n, True) # stack) \<subseteq> set stack'"
        using push by (auto simp: push_targets_Inr)
      ultimately show ?thesis
        using n unseen by (auto simp: w2_def nth_list_update split: if_splits)
    qed
  qed
qed simp

definition acceptable :: "nat list list \<Rightarrow> bool" where
  "acceptable edges \<longleftrightarrow> (\<forall>n < length edges. \<exists>u. bounded_unfolding edges n u)"

lemma acceptable_no_cycle: "acceptable edges \<Longrightarrow> (n, n) \<notin> (reference_relation edges)\<^sup>+"
proof
  assume "acceptable edges" and cycle: "(n, n) \<in> (reference_relation edges)\<^sup>+"
  moreover from cycle have "n < length edges"
    by (induction rule: converse_trancl_induct) (auto simp: reference_relation_def)
  ultimately obtain u where "unfolds edges u" "root u = n"
    by (auto simp: acceptable_def bounded_unfolding_def)
  with unfolding_no_cycle cycle show False by blast
qed

lemma walk_stack_complete:
  "acceptable edges \<Longrightarrow> edges_in_range edges \<Longrightarrow> walk_inv edges stack w \<Longrightarrow> \<exists>w'. walk_stack edges stack w = Inr w'"
proof (induction edges stack w rule: walk_stack.induct)
  case (2 edges n entered stack w)
  note good = "2.prems"(1) and range = "2.prems"(2) and inv = "2.prems"(3)
  have n: "n < length (states w)" "n < length edges" "length (states w) = length edges"
    using inv by (auto simp: walk_inv_def)
  show ?case
  proof (cases entered)
    case True
    obtain us where us: "unfolds edges (Unfold n us)"
      "measure_targets w (edges ! n) = (height (Unfold n us), min (references (Unfold n us)) expanded_overflow)"
      using walk_inv_measures [OF _ range, of n stack w] inv True by auto
    obtain u where "bounded_unfolding edges n u" using good n by (auto simp: acceptable_def)
    moreover from this us(1) have "u = Unfold n us"
      by (intro unfolding_unique) (auto simp: bounded_unfolding_def simp del: unfolds.simps)
    ultimately obtain w2 where w2: "leave_node edges n w = Inr w2"
      unfolding leave_node_Inr us(2) by (simp add: bounded_unfolding_def min.coboundedI1 del: height.simps references.simps)
    have "walk_inv edges stack w2"
      using walk_inv_leave [OF _ range w2] inv True by simp
    with "2.IH"(1) [OF _ True w2 good range] True w2 n show ?thesis by simp
  next
    case False
    have not_active: "states w ! n \<noteq> Active"
    proof
      assume "states w ! n = Active"
      with inv n False have "(n, True) \<in> set stack" by (auto simp: walk_inv_def)
      with entered_reaches_pending [of edges n stack n] inv False acceptable_no_cycle [OF good, of n]
      show False by (simp add: walk_inv_def)
    qed
    show ?thesis
    proof (cases "states w ! n = Finished")
      case True
      have "walk_inv edges stack w" using walk_inv_skip [OF _ True] inv False by simp
      with "2.IH"(2) [OF _ False True good range] True False n show ?thesis by simp
    next
      case unfinished: False
      define w2 where "w2 = w\<lparr>states := (states w)[n := Active]\<rparr>"
      have unseen: "states w ! n = Unseen"
        using not_active unfinished by (cases "states w ! n") auto
      have "\<exists>stack'. push_targets (states w2) n (rev (edges ! n)) ((n, True) # stack) = Inr stack'"
      proof (cases "push_targets (states w2) n (rev (edges ! n)) ((n, True) # stack)")
        case (Inl e)
        then obtain t where t: "t \<in> set (edges ! n)" "length (states w2) \<le> t \<or> states w2 ! t = Active"
          using push_targets_Inl by fastforce
        have range_t: "t < length edges" using edges_in_rangeD [OF range n(2) t(1)] .
        have edge: "(n, t) \<in> reference_relation edges"
          using t(1) n by (simp add: reference_relation_def)
        have "t = n \<or> (t, True) \<in> set stack"
          using t(2) range_t n inv False by (auto simp: w2_def walk_inv_def nth_list_update split: if_splits)
        then have "(t, n) \<in> (reference_relation edges)\<^sup>*"
          using entered_reaches_pending [of edges n stack t] inv False
          by (auto simp: walk_inv_def dest: trancl_into_rtrancl)
        with edge acceptable_no_cycle [OF good] show ?thesis
          by (meson rtrancl_into_trancl1)
      qed auto
      then obtain stack' where push: "push_targets (states w2) n (rev (edges ! n)) ((n, True) # stack) = Inr stack'" ..
      have "walk_inv edges stack' w2"
        using walk_inv_enter [OF _ unseen range] inv False push by (simp add: w2_def)
      with "2.IH"(3) [OF _ False unfinished not_active w2_def push good range] push False unfinished not_active n
      show ?thesis by (simp add: w2_def)
    qed
  qed
qed simp

lemma walk_inv_root:
  assumes "walk_inv edges [] w" and "r < length edges"
  shows "walk_inv edges [(r, False)] w"
  using assms by (auto simp: walk_inv_def)

lemma walk_roots_sound:
  "walk_roots edges roots w = Inr w' \<Longrightarrow> edges_in_range edges \<Longrightarrow> walk_inv edges [] w \<Longrightarrow>
     (\<forall>r \<in> set roots. r < length edges) \<Longrightarrow>
     walk_inv edges [] w' \<and> (\<forall>i. states w ! i \<noteq> Unseen \<longrightarrow> states w' ! i \<noteq> Unseen) \<and>
     (\<forall>r \<in> set roots. states w' ! r \<noteq> Unseen)"
proof (induction edges roots w rule: walk_roots.induct)
  case (2 edges r roots w)
  show ?case
  proof (cases "states w ! r \<noteq> Unseen")
    case False
    with "2.prems"(1) obtain w2 where w2: "walk_stack edges [(r, False)] w = Inr w2" "walk_roots edges roots w2 = Inr w'"
      by (auto simp: and_then_eq_Inr)
    from walk_stack_sound [OF w2(1) "2.prems"(2)] walk_inv_root "2.prems"(3,4)
    have "walk_inv edges [] w2" "\<forall>i. states w ! i \<noteq> Unseen \<longrightarrow> states w2 ! i \<noteq> Unseen" "states w2 ! r \<noteq> Unseen"
      by auto
    with "2.IH"(2) [OF _ w2 "2.prems"(2)] False "2.prems"(4) show ?thesis by auto
  qed (use 2 in auto)
qed simp

lemma walk_roots_complete:
  "acceptable edges \<Longrightarrow> edges_in_range edges \<Longrightarrow> walk_inv edges [] w \<Longrightarrow> (\<forall>r \<in> set roots. r < length edges) \<Longrightarrow>
     \<exists>w'. walk_roots edges roots w = Inr w'"
proof (induction edges roots w rule: walk_roots.induct)
  case (2 edges r roots w)
  show ?case
  proof (cases "states w ! r \<noteq> Unseen")
    case False
    obtain w2 where w2: "walk_stack edges [(r, False)] w = Inr w2"
      using walk_stack_complete "2.prems" walk_inv_root by (metis list.set_intros(1))
    have "walk_inv edges [] w2"
      using walk_stack_sound [OF w2 "2.prems"(2)] walk_inv_root "2.prems"(3,4) by auto
    with "2.IH"(2) [OF _ w2] False "2.prems" w2 show ?thesis by auto
  qed (use 2 in auto)
qed simp

lemma walk_inv_initial: "walk_inv edges [] (initial_walk (length edges))"
  by (simp add: walk_inv_def initial_walk_def)

text \<open>The unfolding of a node of an acceptable graph, and the size of a list of roots.\<close>

fun roots_expand :: "nat list list \<Rightarrow> nat list \<Rightarrow> nat \<Rightarrow> bool" where
  "roots_expand edges [] total_size \<longleftrightarrow> total_size = 0"
| "roots_expand edges (r # rs) total_size \<longleftrightarrow>
     (\<exists>u rest. unfolds edges u \<and> root u = r \<and> roots_expand edges rs rest \<and> total_size = references u + rest)"

lemma sum_roots_Inr:
  assumes "\<And>r. r \<in> set roots \<Longrightarrow> measured edges w r" and "acc \<le> artifact_expanded_reference_limit"
  shows "sum_roots w roots acc = Inr () \<longleftrightarrow>
    (\<exists>s. roots_expand edges roots s \<and> acc + s \<le> artifact_expanded_reference_limit)"
  using assms
proof (induction roots arbitrary: acc)
  case (Cons r roots)
  obtain u where u: "bounded_unfolding edges r u" "expanded_references w ! r = references u"
    using Cons.prems(1) by (auto simp: measured_def)
  then have facts: "unfolds edges u" "root u = r" "references u \<le> artifact_expanded_reference_limit"
    by (auto simp: bounded_unfolding_def)
  have same: "references u' = references u" if "unfolds edges u'" "root u' = r" for u'
    using unfolding_unique [of edges u u'] facts that by simp
  have next_acc: "min (saturating_add acc (references u)) expanded_overflow = min (acc + references u) expanded_overflow"
    using facts(3) Cons.prems(2)
    by (simp add: saturating_add_def word_max_def expanded_overflow_def artifact_expanded_reference_limit_def)
  have cons: "roots_expand edges (r # roots) s \<longleftrightarrow>
      (\<exists>rest. roots_expand edges roots rest \<and> s = references u + rest)" for s
  proof
    assume "roots_expand edges (r # roots) s"
    then show "\<exists>rest. roots_expand edges roots rest \<and> s = references u + rest"
      using same by (elim roots_expand.elims) auto
  next
    assume "\<exists>rest. roots_expand edges roots rest \<and> s = references u + rest"
    with facts(1,2) show "roots_expand edges (r # roots) s"
      unfolding roots_expand.simps by blast
  qed
  show ?case
  proof (cases "acc + references u \<le> artifact_expanded_reference_limit")
    case True
    then have "min (acc + references u) expanded_overflow = acc + references u"
      by (simp add: expanded_overflow_def)
    moreover have "sum_roots w roots (acc + references u) = Inr () \<longleftrightarrow>
        (\<exists>s. roots_expand edges roots s \<and> acc + references u + s \<le> artifact_expanded_reference_limit)"
      using True Cons.prems(1) by (intro Cons.IH) auto
    ultimately show ?thesis
      using True unfolding cons by (auto simp: u(2) next_acc Let_def add.assoc)
  next
    case False
    then have "artifact_expanded_reference_limit < min (acc + references u) expanded_overflow"
      by (simp add: expanded_overflow_def)
    moreover have "\<not> acc + s \<le> artifact_expanded_reference_limit" if "roots_expand edges (r # roots) s" for s
      using that False unfolding cons by auto
    ultimately show ?thesis by (auto simp: u(2) next_acc Let_def simp del: roots_expand.simps)
  qed
qed simp

lemma validate_graph_Inr:
  assumes range: "edges_in_range edges" and roots: "\<And>r. r \<in> set roots \<Longrightarrow> r < length edges"
  shows "validate_graph edges roots = Inr () \<longleftrightarrow>
    acceptable edges \<and> (\<exists>s. roots_expand edges roots s \<and> s \<le> artifact_expanded_reference_limit)"
proof -
  let ?start = "initial_walk (length edges)"
  have finished: "\<forall>i < length edges. measured edges w i" if "walk_roots edges [0..<length edges] ?start = Inr w" for w
  proof (intro allI impI)
    fix i assume i: "i < length edges"
    have "walk_inv edges [] w" "states w ! i \<noteq> Unseen"
      using walk_roots_sound [OF that range walk_inv_initial] i by auto
    with i show "measured edges w i"
      by (cases "states w ! i") (auto simp: walk_inv_def)
  qed
  show ?thesis
  proof (cases "walk_roots edges [0..<length edges] ?start")
    case (Inl e)
    with walk_roots_complete [OF _ range walk_inv_initial, of "[0..<length edges]"]
    show ?thesis by (auto simp: validate_graph_def)
  next
    case (Inr w)
    then have "acceptable edges"
      using finished by (fastforce simp: acceptable_def measured_def)
    moreover have "sum_roots w roots 0 = Inr () \<longleftrightarrow>
        (\<exists>s. roots_expand edges roots s \<and> 0 + s \<le> artifact_expanded_reference_limit)"
      using finished [OF Inr] roots by (intro sum_roots_Inr) auto
    ultimately show ?thesis by (simp add: validate_graph_def Inr)
  qed
qed

section \<open>Well-formed modules\<close>

text \<open>
  The specification of \<open>Module::validate\<close>: spans do not end before they start, references
  stay in their arena, and the graph of references unfolds to bounded trees.
\<close>

definition ordered_span :: "span \<Rightarrow> bool" where
  "ordered_span s \<longleftrightarrow> span_start s \<le> span_end s"

fun in_arena :: "ast_arena \<Rightarrow> reference \<Rightarrow> bool" where
  "in_arena a (ToExpression (ExpressionId i)) \<longleftrightarrow> unat i < length (expressions a)"
| "in_arena a (ToPattern (PatternId i)) \<longleftrightarrow> unat i < length (patterns a)"
| "in_arena a (ToDeclaration (DeclarationId i)) \<longleftrightarrow> unat i < length (declarations a)"

fun target_node :: "ast_arena \<Rightarrow> reference \<Rightarrow> nat" where
  "target_node a (ToExpression (ExpressionId i)) = unat i"
| "target_node a (ToPattern (PatternId i)) = length (expressions a) + unat i"
| "target_node a (ToDeclaration (DeclarationId i)) = length (expressions a) + length (patterns a) + unat i"

fun declaration_references :: "ast_declaration \<Rightarrow> reference list" where
  "declaration_references (SignatureDeclaration _ _ _ value _) = [ToExpression value]"
| "declaration_references (BindingDeclaration _ tags pat value _) =
     map (\<lambda>tag. ToExpression (tag_descriptor tag)) tags @ [ToPattern pat, ToExpression value]"
| "declaration_references (ShadowDeclaration _ value _) = [ToExpression value]"
| "declaration_references (OpenDeclaration value _) = [ToExpression value]"

fun declaration_spans :: "ast_declaration \<Rightarrow> span list" where
  "declaration_spans (SignatureDeclaration _ _ _ _ s) = [s]"
| "declaration_spans (BindingDeclaration _ tags _ _ s) = s # map tag_span tags"
| "declaration_spans (ShadowDeclaration _ _ s) = [s]"
| "declaration_spans (OpenDeclaration _ s) = [s]"

definition node_references :: "ast_arena \<Rightarrow> reference list list" where
  "node_references a = map expression_references (expressions a) @ map pattern_references (patterns a) @
     map declaration_references (declarations a)"

definition arena_spans :: "ast_arena \<Rightarrow> span list" where
  "arena_spans a = map span_of_expression (expressions a) @ map span_of_pattern (patterns a) @
     concat (map declaration_spans (declarations a))"

definition reference_graph :: "ast_arena \<Rightarrow> nat list list" where
  "reference_graph a = map (map (target_node a)) (node_references a)"

definition module_references :: "ast_module \<Rightarrow> reference list" where
  "module_references m = (case module_parameter m of None \<Rightarrow> [] | Some p \<Rightarrow> [ToPattern p]) @
     map ToDeclaration (module_declarations m) @ [ToExpression (module_result m)]"

definition well_formed_module :: "ast_module \<Rightarrow> bool" where
  "well_formed_module m \<longleftrightarrow>
     list_all ordered_span (module_span m # arena_spans (module_arena m)) \<and>
     list_all (in_arena (module_arena m)) (module_references m @ concat (node_references (module_arena m))) \<and>
     acceptable (reference_graph (module_arena m)) \<and>
     (\<exists>s. roots_expand (reference_graph (module_arena m))
            (map (target_node (module_arena m)) (module_references m)) s \<and>
          s \<le> artifact_expanded_reference_limit)"

lemma validate_span_Inr [simp]: "validate_span s loc = Inr u \<longleftrightarrow> ordered_span s"
  by (auto simp: validate_span_def ordered_span_def not_less)

lemma index_Inr [simp]:
  "expression_index a loc e = Inr i \<longleftrightarrow> in_arena a (ToExpression e) \<and> i = target_node a (ToExpression e)"
  "pattern_index a loc p = Inr i \<longleftrightarrow> in_arena a (ToPattern p) \<and> i = target_node a (ToPattern p)"
  "declaration_index a loc d = Inr i \<longleftrightarrow> in_arena a (ToDeclaration d) \<and> i = target_node a (ToDeclaration d)"
  by (cases e, cases p, cases d; auto simp: pattern_offset_def declaration_offset_def)+

lemma reference_index_Inr [simp]:
  "reference_index a loc r = Inr i \<longleftrightarrow> in_arena a r \<and> i = target_node a r"
  by (cases r) simp_all

lemma collect_pointwise:
  assumes "\<And>x y. f x = Inr y \<longleftrightarrow> P x \<and> y = g x"
  shows "collect f xs = Inr ys \<longleftrightarrow> list_all P xs \<and> ys = map g xs"
  by (induction xs arbitrary: ys) (auto simp: assms and_then_eq_Inr)

lemma collect_enumerated:
  assumes "\<And>i x y. f (i, x) = Inr y \<longleftrightarrow> P x \<and> y = g x"
  shows "collect f (enumerate k xs) = Inr ys \<longleftrightarrow> list_all P xs \<and> ys = map g xs"
  by (induction xs arbitrary: ys k) (auto simp: assms and_then_eq_Inr)

lemma expression_edges_Inr:
  "expression_edges a (i, e) = Inr ts \<longleftrightarrow>
     (ordered_span (span_of_expression e) \<and> list_all (in_arena a) (expression_references e)) \<and>
     ts = map (target_node a) (expression_references e)"
  by (auto simp: expression_edges_def and_then_eq_Inr collect_pointwise [where P = "in_arena a" and g = "target_node a"])

lemma pattern_edges_Inr:
  "pattern_edges a (i, p) = Inr ts \<longleftrightarrow>
     (ordered_span (span_of_pattern p) \<and> list_all (in_arena a) (pattern_references p)) \<and>
     ts = map (target_node a) (pattern_references p)"
  by (auto simp: pattern_edges_def and_then_eq_Inr collect_pointwise [where P = "in_arena a" and g = "target_node a"])

lemma declaration_edges_Inr:
  "declaration_edges a (i, d) = Inr ts \<longleftrightarrow>
     (list_all ordered_span (declaration_spans d) \<and> list_all (in_arena a) (declaration_references d)) \<and>
     ts = map (target_node a) (declaration_references d)"
proof (cases d)
  case (BindingDeclaration k tags p v s)
  have "collect (\<lambda>tag. and_then (validate_span (tag_span tag) (AtDeclaration i)) (\<lambda>_.
          expression_index a (AtDeclaration i) (tag_descriptor tag))) tags = Inr js \<longleftrightarrow>
      list_all (\<lambda>tag. ordered_span (tag_span tag) \<and> in_arena a (ToExpression (tag_descriptor tag))) tags \<and>
      js = map (\<lambda>tag. target_node a (ToExpression (tag_descriptor tag))) tags" for js
    by (rule collect_pointwise) (auto simp: and_then_eq_Inr)
  with BindingDeclaration show ?thesis
    by (auto simp: and_then_eq_Inr list_all_iff)
qed (auto simp: and_then_eq_Inr)

lemma arena_edges_Inr:
  "arena_edges a = Inr es \<longleftrightarrow>
     (list_all ordered_span (arena_spans a) \<and> list_all (in_arena a) (concat (node_references a))) \<and>
     es = reference_graph a"
 (is "_ \<longleftrightarrow> ?ok \<and> _")
proof -
  have e: "collect (expression_edges a) (enumerate 0 xs) = Inr ys \<longleftrightarrow>
      list_all (\<lambda>e. ordered_span (span_of_expression e) \<and> list_all (in_arena a) (expression_references e)) xs \<and>
      ys = map (\<lambda>e. map (target_node a) (expression_references e)) xs" for xs ys
    by (rule collect_enumerated) (rule expression_edges_Inr)
  have p: "collect (pattern_edges a) (enumerate 0 xs) = Inr ys \<longleftrightarrow>
      list_all (\<lambda>e. ordered_span (span_of_pattern e) \<and> list_all (in_arena a) (pattern_references e)) xs \<and>
      ys = map (\<lambda>e. map (target_node a) (pattern_references e)) xs" for xs ys
    by (rule collect_enumerated) (rule pattern_edges_Inr)
  have d: "collect (declaration_edges a) (enumerate 0 xs) = Inr ys \<longleftrightarrow>
      list_all (\<lambda>e. list_all ordered_span (declaration_spans e) \<and> list_all (in_arena a) (declaration_references e)) xs \<and>
      ys = map (\<lambda>e. map (target_node a) (declaration_references e)) xs" for xs ys
    by (rule collect_enumerated) (rule declaration_edges_Inr)
  show ?thesis
    unfolding arena_edges_def
    by (auto simp: and_then_eq_Inr e p d arena_spans_def node_references_def reference_graph_def list_all_iff)
qed

lemma module_roots_Inr:
  "module_roots m = Inr rs \<longleftrightarrow> list_all (in_arena (module_arena m)) (module_references m) \<and>
     rs = map (target_node (module_arena m)) (module_references m)"
  unfolding module_roots_def
  by (auto simp: and_then_eq_Inr module_references_def Let_def list_all_iff
      collect_enumerated [where P = "\<lambda>d. in_arena (module_arena m) (ToDeclaration d)"
        and g = "\<lambda>d. target_node (module_arena m) (ToDeclaration d)"] split: option.split)

lemma target_node_bound: "in_arena a r \<Longrightarrow> target_node a r < node_count a"
  by (cases "(a, r)" rule: in_arena.cases) (auto simp: node_count_def)

lemma length_reference_graph [simp]: "length (reference_graph a) = node_count a"
  by (simp add: reference_graph_def node_references_def node_count_def)

lemma reference_graph_in_range:
  "list_all (in_arena a) (concat (node_references a)) \<Longrightarrow> edges_in_range (reference_graph a)"
  unfolding edges_in_range_def length_reference_graph
  by (fastforce simp: reference_graph_def list_all_iff target_node_bound)

lemma validate_module_Inr:
  "validate_module m = Inr () \<longleftrightarrow> well_formed_module m"
proof -
  let ?a = "module_arena m"
  have "validate_graph (reference_graph ?a) (map (target_node ?a) (module_references m)) = Inr () \<longleftrightarrow>
      acceptable (reference_graph ?a) \<and>
      (\<exists>s. roots_expand (reference_graph ?a) (map (target_node ?a) (module_references m)) s \<and>
           s \<le> artifact_expanded_reference_limit)"
    if "list_all (in_arena ?a) (module_references m)" "list_all (in_arena ?a) (concat (node_references ?a))"
    using that by (intro validate_graph_Inr reference_graph_in_range) (auto simp: list_all_iff target_node_bound)
  then show ?thesis
    by (auto simp: validate_module_def well_formed_module_def and_then_eq_Inr arena_edges_Inr module_roots_Inr)
qed

lemma acceptable_wf:
  assumes "acceptable edges" and "edges_in_range edges"
  shows "wf ((reference_relation edges)\<inverse>)"
proof (rule finite_acyclic_wf_converse)
  have "reference_relation edges \<subseteq> {..<length edges} \<times> {..<length edges}"
    using edges_in_rangeD [OF assms(2)] by (auto simp: reference_relation_def)
  then show "finite (reference_relation edges)"
    by (rule finite_subset) simp
  show "acyclic (reference_relation edges)"
    using acceptable_no_cycle [OF assms(1)] by (simp add: acyclic_def)
qed

text \<open>No access of the walk is out of range.\<close>

lemma leave_node_no_panic: "leave_node edges n w \<noteq> Inl IndexPanic"
  by (auto simp: leave_node_def split: prod.split)

lemma push_targets_no_panic:
  "(\<forall>t \<in> set ts. t < length marks) \<Longrightarrow> push_targets marks n ts stack \<noteq> Inl IndexPanic"
  by (induction marks n ts stack rule: push_targets.induct) auto

lemma walk_stack_no_panic:
  "edges_in_range edges \<Longrightarrow> walk_inv edges stack w \<Longrightarrow> walk_stack edges stack w \<noteq> Inl IndexPanic"
proof (induction edges stack w rule: walk_stack.induct)
  case (2 edges n entered stack w)
  note range = "2.prems"(1) and inv = "2.prems"(2)
  have n: "n < length (states w)" "n < length edges" "length (states w) = length edges"
    using inv by (auto simp: walk_inv_def)
  show ?case
  proof (cases entered)
    case True
    have "walk_stack edges stack w2 \<noteq> Inl IndexPanic" if "leave_node edges n w = Inr w2" for w2
      using "2.IH"(1) [OF _ True that range] walk_inv_leave [OF _ range that] inv True n by simp
    with True n leave_node_no_panic show ?thesis by (auto simp: and_then_eq_Inl)
  next
    case False
    show ?thesis
    proof (cases "states w ! n = Unseen")
      case unseen: True
      define w2 where "w2 = w\<lparr>states := (states w)[n := Active]\<rparr>"
      have "walk_stack edges stack' w2 \<noteq> Inl IndexPanic"
        if push: "push_targets (states w2) n (rev (edges ! n)) ((n, True) # stack) = Inr stack'" for stack'
      proof -
        have "walk_inv edges stack' w2"
          using walk_inv_enter [OF _ unseen range] inv False push by (simp add: w2_def)
        with "2.IH"(3) [OF _ False _ _ w2_def push range] unseen n show ?thesis by simp
      qed
      moreover have "push_targets (states w2) n (rev (edges ! n)) ((n, True) # stack) \<noteq> Inl IndexPanic"
        using edges_in_rangeD [OF range n(2)] n by (intro push_targets_no_panic) (auto simp: w2_def)
      ultimately show ?thesis
        using False unseen n by (auto simp: and_then_eq_Inl w2_def)
    next
      case seen: False
      show ?thesis
      proof (cases "states w ! n = Finished")
        case True
        have "walk_inv edges stack w" using walk_inv_skip [OF _ True] inv False by simp
        with "2.IH"(2) [OF _ False True range] True False n show ?thesis by simp
      next
        case False
        with seen \<open>\<not> entered\<close> n show ?thesis by (cases "states w ! n") auto
      qed
    qed
  qed
qed simp

lemma walk_roots_no_panic:
  "edges_in_range edges \<Longrightarrow> walk_inv edges [] w \<Longrightarrow> (\<forall>r \<in> set roots. r < length edges) \<Longrightarrow>
     walk_roots edges roots w \<noteq> Inl IndexPanic"
proof (induction edges roots w rule: walk_roots.induct)
  case (2 edges r roots w)
  show ?case
  proof (cases "states w ! r \<noteq> Unseen")
    case False
    have inv: "walk_inv edges [(r, False)] w" using walk_inv_root "2.prems" by simp
    have "walk_roots edges roots w2 \<noteq> Inl IndexPanic" if w2: "walk_stack edges [(r, False)] w = Inr w2" for w2
      using walk_stack_sound [OF w2 "2.prems"(1) inv] "2.IH"(2) [OF _ w2] False "2.prems" by simp
    with False walk_stack_no_panic [OF "2.prems"(1) inv] show ?thesis by (auto simp: and_then_eq_Inl)
  qed (use 2 in auto)
qed simp

lemma index_no_panic:
  "expression_index a loc e \<noteq> Inl IndexPanic" "pattern_index a loc p \<noteq> Inl IndexPanic"
  "declaration_index a loc d \<noteq> Inl IndexPanic" "validate_span s loc \<noteq> Inl IndexPanic"
  by (cases e, cases p, cases d; simp add: validate_span_def)+

lemma reference_index_no_panic: "reference_index a loc r \<noteq> Inl IndexPanic"
  by (cases r) (simp_all add: index_no_panic)

lemma collect_no_error: "(\<And>x. f x \<noteq> Inl e) \<Longrightarrow> collect f xs \<noteq> Inl e"
  by (induction xs) (auto simp: and_then_eq_Inl)

lemma expression_edges_no_panic: "expression_edges a e \<noteq> Inl IndexPanic"
  by (cases e) (simp add: expression_edges_def and_then_eq_Inl index_no_panic collect_no_error reference_index_no_panic)

lemma pattern_edges_no_panic: "pattern_edges a p \<noteq> Inl IndexPanic"
  by (cases p) (simp add: pattern_edges_def and_then_eq_Inl index_no_panic collect_no_error reference_index_no_panic)

lemma declaration_edges_no_panic: "declaration_edges a d \<noteq> Inl IndexPanic"
proof -
  have "collect (\<lambda>tag. and_then (validate_span (tag_span tag) loc) (\<lambda>_.
      expression_index a loc (tag_descriptor tag))) tags \<noteq> Inl IndexPanic" for tags loc
    by (rule collect_no_error) (simp add: and_then_eq_Inl index_no_panic)
  then show ?thesis
    by (cases "(a, d)" rule: declaration_edges.cases) (auto simp: and_then_eq_Inl index_no_panic)
qed

lemmas edges_no_panic = expression_edges_no_panic pattern_edges_no_panic declaration_edges_no_panic

lemma arena_edges_no_panic: "arena_edges a \<noteq> Inl IndexPanic"
  by (simp add: arena_edges_def and_then_eq_Inl collect_no_error edges_no_panic)

lemma module_roots_no_panic: "module_roots m \<noteq> Inl IndexPanic"
proof -
  have "collect (\<lambda>(ordinal, d). declaration_index (module_arena m) (AtModuleDeclaration ordinal) d)
      (enumerate 0 (module_declarations m)) \<noteq> Inl IndexPanic"
    by (rule collect_no_error) (auto simp: index_no_panic)
  then show ?thesis
    by (auto simp: module_roots_def Let_def and_then_eq_Inl index_no_panic split: option.split)
qed

lemma sum_roots_no_panic: "sum_roots w roots acc \<noteq> Inl IndexPanic"
  by (induction w roots acc rule: sum_roots.induct) (auto simp: Let_def)

section \<open>Properties\<close>

text \<open>
  C22. \<open>Module::validate\<close> decides its specification: it accepts a module exactly when the
  module is well-formed, so on acceptance every index is in range, no reference path is
  cyclic or longer than 128, and no node nor the module expands beyond 1048576 references.
\<close>

theorem validation_decides:
  "validate_module m = Inr () \<longleftrightarrow> well_formed_module m"
  by (rule validate_module_Inr)

text \<open>
  An accepted module has no cyclic reference: no node of its arena can be reached from
  itself, so a traversal that follows references ends.
\<close>

theorem validated_acyclic:
  assumes "validate_module m = Inr ()"
  shows "(n, n) \<notin> (reference_relation (reference_graph (module_arena m)))\<^sup>+ \<and>
    wf ((reference_relation (reference_graph (module_arena m)))\<inverse>)"
proof -
  have "acceptable (reference_graph (module_arena m))" "edges_in_range (reference_graph (module_arena m))"
    using assms by (auto simp: validate_module_Inr well_formed_module_def intro: reference_graph_in_range)
  then show ?thesis
    using acceptable_no_cycle acceptable_wf by blast
qed

definition sample_span :: span where
  "sample_span = \<lparr>span_start = 0, span_end = 4\<rparr>"

definition sample_module :: ast_module where
  "sample_module =
     \<lparr>module_parameter = Some (PatternId 0), module_declarations = [DeclarationId 0],
      module_result = ExpressionId 2, module_result_effects = PureResult, module_span = sample_span,
      module_arena =
        \<lparr>expressions = [EVar ''f'' sample_span, EInt 1 sample_span,
                        EApply (ExpressionId 0) (ExpressionId 1) sample_span,
                        ELambda (PatternId 1) (ExpressionId 2) False sample_span],
         patterns = [NamePattern ''p'' NoQualifier sample_span, WildcardPattern sample_span],
         declarations = [ShadowDeclaration ''f'' (ExpressionId 3) sample_span],
         synthetic_expressions = {}, synthetic_closure_bodies = {},
         synthetic_runtime_type_expressions = {}, synthetic_static_closure_bodies = {}\<rparr>\<rparr>"

lemma sample_module_valid: "validate_module sample_module = Inr ()"
  by code_simp

theorem validated_acyclic_witness:
  "(2, 2) \<notin> (reference_relation (reference_graph (module_arena sample_module)))\<^sup>+"
  using validated_acyclic [OF sample_module_valid] by blast

text \<open>
  Validation itself never indexes out of range: the walk's own accesses are covered by
  the range checks made before it.
\<close>

theorem validation_never_panics:
  "validate_module m \<noteq> Inl IndexPanic"
proof
  assume "validate_module m = Inl IndexPanic"
  then obtain roots edges where parts: "module_roots m = Inr roots" "arena_edges (module_arena m) = Inr edges"
    and graph: "validate_graph edges roots = Inl IndexPanic"
    by (auto simp: validate_module_def and_then_eq_Inl index_no_panic module_roots_no_panic arena_edges_no_panic)
  have range: "edges_in_range edges"
    using parts(2) reference_graph_in_range by (auto simp: arena_edges_Inr)
  have "walk_roots edges [0..<length edges] (initial_walk (length edges)) \<noteq> Inl IndexPanic"
    by (rule walk_roots_no_panic [OF range walk_inv_initial]) simp
  with graph show False
    by (auto simp: validate_graph_def and_then_eq_Inl sum_roots_no_panic)
qed

end
