(* ===== verification/IntervalSets.thy ===== *)
theory IntervalSets
  imports BlotPrelude Integers "HOL-Library.Option_ord"
begin

text \<open>
  The interval algebra of \<open>compiler/src/predicate_refinement.rs\<close>: sets of integers as
  lists of intervals with optional ends, their normal form, union, intersection, complement
  and the intervals of a comparison with a known integer. \<open>Integer\<close> is \<open>int\<close> here.
\<close>

section \<open>Intervals\<close>

record interval =
  low :: "int option"
  high :: "int option"

text \<open>\<open>normalize\<close>: drop the empty intervals, sort by lower end, merge those that touch.\<close>

definition nonempty_interval :: "interval \<Rightarrow> bool" where
  "nonempty_interval i = (case (low i, high i) of (Some l, Some h) \<Rightarrow> l \<le> h | _ \<Rightarrow> True)"

definition interval_touches :: "interval \<Rightarrow> interval \<Rightarrow> bool" where
  "interval_touches previous next_one =
     (case (high previous, low next_one) of (Some h, Some l) \<Rightarrow> l \<le> h + 1 | _ \<Rightarrow> True)"

definition join_high :: "int option \<Rightarrow> int option \<Rightarrow> int option" where
  "join_high a b = (case (a, b) of (Some l, Some r) \<Rightarrow> Some (max l r) | _ \<Rightarrow> None)"

definition merge_step :: "interval list \<Rightarrow> interval \<Rightarrow> interval list" where
  "merge_step merged next_one =
     (if merged = [] then [next_one]
      else (let previous = last merged
            in if \<not> interval_touches previous next_one then merged @ [next_one]
               else butlast merged @ [previous\<lparr>high := join_high (high previous) (high next_one)\<rparr>]))"

definition normalize :: "interval list \<Rightarrow> interval list" where
  "normalize intervals = foldl merge_step [] (sort_key low (filter nonempty_interval intervals))"

fun maximum_low :: "int option \<Rightarrow> int option \<Rightarrow> int option" where
  "maximum_low None value = value"
| "maximum_low value None = value"
| "maximum_low (Some l) (Some r) = Some (max l r)"

fun minimum_high :: "int option \<Rightarrow> int option \<Rightarrow> int option" where
  "minimum_high None value = value"
| "minimum_high value None = value"
| "minimum_high (Some l) (Some r) = Some (min l r)"

text \<open>\<open>intersection\<close>: the interval that ends first is advanced.\<close>

definition overlap :: "interval \<Rightarrow> interval \<Rightarrow> interval" where
  "overlap one other = \<lparr>low = maximum_low (low one) (low other), high = minimum_high (high one) (high other)\<rparr>"

function intersection :: "interval list \<Rightarrow> interval list \<Rightarrow> interval list" where
  "intersection [] rs = []"
| "intersection (l # ls) [] = []"
| "intersection (l # ls) (r # rs) =
     (let overlaps = (if nonempty_interval (overlap l r) then [overlap l r] else [])
      in overlaps @
         (case (high l, high r) of
            (None, None) \<Rightarrow> []
          | (None, Some _) \<Rightarrow> intersection (l # ls) rs
          | (Some _, None) \<Rightarrow> intersection ls (r # rs)
          | (Some a, Some b) \<Rightarrow>
              (case ordering_of (a < b) (a = b) of
                 Less \<Rightarrow> intersection ls (r # rs)
               | Greater \<Rightarrow> intersection (l # ls) rs
               | Equal \<Rightarrow> intersection ls rs)))"
  by pat_completeness auto
termination by (relation "measure (\<lambda>(ls, rs). length ls + length rs)") auto

fun complement_loop :: "int option \<Rightarrow> interval list \<Rightarrow> interval list" where
  "complement_loop start [] = [\<lparr>low = start, high = None\<rparr>]"
| "complement_loop start (i # is) =
     (let piece = (case low i of None \<Rightarrow> [] | Some l \<Rightarrow> [\<lparr>low = start, high = Some (l - 1)\<rparr>])
      in case high i of
           None \<Rightarrow> piece
         | Some h \<Rightarrow> piece @ complement_loop (Some (h + 1)) is)"

definition complement :: "interval list \<Rightarrow> interval list" where
  "complement intervals = normalize (complement_loop None (normalize intervals))"

definition comparison_intervals :: "ordering set \<Rightarrow> int \<Rightarrow> interval list" where
  "comparison_intervals orderings witness = normalize
     ((if Less \<in> orderings then [\<lparr>low = None, high = Some (witness - 1)\<rparr>] else []) @
      (if Equal \<in> orderings then [\<lparr>low = Some witness, high = Some witness\<rparr>] else []) @
      (if Greater \<in> orderings then [\<lparr>low = Some (witness + 1), high = None\<rparr>] else []))"

definition mirror :: "ordering set \<Rightarrow> ordering set" where
  "mirror orderings =
     (if Less \<in> orderings then {Greater} else {}) \<union>
     (if Equal \<in> orderings then {Equal} else {}) \<union>
     (if Greater \<in> orderings then {Less} else {})"

definition minimum_i64 :: int where "minimum_i64 = - push_bit 63 1"
definition maximum_i64 :: int where "maximum_i64 = push_bit 63 1 - 1"

definition runtime_integer_domain :: "interval list" where
  "runtime_integer_domain = [\<lparr>low = Some minimum_i64, high = Some maximum_i64\<rparr>]"

section \<open>Meaning\<close>

definition inside :: "interval \<Rightarrow> int \<Rightarrow> bool" where
  "inside i n \<longleftrightarrow> (case low i of None \<Rightarrow> True | Some l \<Rightarrow> l \<le> n) \<and>
                  (case high i of None \<Rightarrow> True | Some h \<Rightarrow> n \<le> h)"

definition member :: "interval list \<Rightarrow> int \<Rightarrow> bool" where
  "member is n \<longleftrightarrow> (\<exists>i \<in> set is. inside i n)"

text \<open>The normal form: no interval is empty and each ends at least two before the next begins.\<close>

definition apart :: "interval \<Rightarrow> interval \<Rightarrow> bool" where
  "apart i j \<longleftrightarrow> (case (high i, low j) of (Some h, Some l) \<Rightarrow> h + 1 < l | _ \<Rightarrow> False)"

definition normal :: "interval list \<Rightarrow> bool" where
  "normal is \<longleftrightarrow> sorted_wrt apart is \<and> list_all nonempty_interval is"

lemma member_simps [simp]:
  "member [] n \<longleftrightarrow> False" "member (i # is) n \<longleftrightarrow> inside i n \<or> member is n"
  "member (is @ js) n \<longleftrightarrow> member is n \<or> member js n"
  by (auto simp: member_def)

lemma normal_simps [simp]:
  "normal []" "normal (i # is) \<longleftrightarrow> nonempty_interval i \<and> (\<forall>j \<in> set is. apart i j) \<and> normal is"
  by (auto simp: normal_def)

lemma empty_interval: "\<not> nonempty_interval i \<Longrightarrow> \<not> inside i n"
  by (auto simp: nonempty_interval_def inside_def split: option.splits)

lemma member_filter: "member (filter nonempty_interval is) n \<longleftrightarrow> member is n"
  using empty_interval by (auto simp: member_def)

lemma member_cong: "set is = set js \<Longrightarrow> member is n = member js n"
  by (simp add: member_def)

section \<open>Normal form\<close>

fun sweep :: "interval \<Rightarrow> interval list \<Rightarrow> interval list" where
  "sweep previous [] = [previous]"
| "sweep previous (i # is) =
     (if interval_touches previous i then sweep (previous\<lparr>high := join_high (high previous) (high i)\<rparr>) is
      else previous # sweep i is)"

lemma foldl_merge_step: "foldl merge_step (merged @ [previous]) is = merged @ sweep previous is"
proof (induction "is" arbitrary: merged previous)
  case (Cons i "is")
  show ?case
  proof (cases "interval_touches previous i")
    case True
    then have "merge_step (merged @ [previous]) i =
        merged @ [previous\<lparr>high := join_high (high previous) (high i)\<rparr>]"
      by (simp add: merge_step_def)
    with Cons [of merged] True show ?thesis by simp
  next
    case False
    then have "merge_step (merged @ [previous]) i = (merged @ [previous]) @ [i]"
      by (simp add: merge_step_def)
    with Cons [of "merged @ [previous]" i] False show ?thesis by simp
  qed
qed simp

lemma normalize_sweep:
  "normalize is = (case sort_key low (filter nonempty_interval is) of [] \<Rightarrow> [] | i # rest \<Rightarrow> sweep i rest)"
  using foldl_merge_step [of "[]"] by (simp add: normalize_def merge_step_def split: list.split)

lemma low_joined: "low (i\<lparr>high := h\<rparr>) = low i" by simp

lemma inside_joined:
  assumes "interval_touches i j" "low i \<le> low j" "nonempty_interval i" "nonempty_interval j"
  shows "inside (i\<lparr>high := join_high (high i) (high j)\<rparr>) n \<longleftrightarrow> inside i n \<or> inside j n"
  using assms
  by (cases "low i"; cases "low j"; cases "high i"; cases "high j")
    (auto simp: interval_touches_def join_high_def inside_def nonempty_interval_def)

lemma nonempty_joined:
  "nonempty_interval i \<Longrightarrow> nonempty_interval (i\<lparr>high := join_high (high i) h\<rparr>)"
  by (cases "low i"; cases "high i"; cases h) (auto simp: join_high_def nonempty_interval_def)

lemma member_sweep:
  "sorted (map low (i # is)) \<Longrightarrow> list_all nonempty_interval (i # is) \<Longrightarrow>
     member (sweep i is) n \<longleftrightarrow> inside i n \<or> member is n"
proof (induction "is" arbitrary: i)
  case (Cons j "is")
  then show ?case
    using nonempty_joined [of i "high j"] inside_joined [of i j n] by auto
qed simp

lemma sweep_low: "j \<in> set (sweep i is) \<Longrightarrow> low j \<in> low ` set (i # is)"
  by (induction "is" arbitrary: i) (fastforce split: if_splits)+

lemma normal_sweep:
  "sorted (map low (i # is)) \<Longrightarrow> list_all nonempty_interval (i # is) \<Longrightarrow> normal (sweep i is)"
proof (induction "is" arbitrary: i)
  case (Cons j "is")
  show ?case
  proof (cases "interval_touches i j")
    case True
    with Cons nonempty_joined show ?thesis by auto
  next
    case False
    then obtain h l where hl: "high i = Some h" "low j = Some l" "h + 1 < l"
      by (auto simp: interval_touches_def split: option.splits)
    have "apart i k" if "k \<in> set (sweep j is)" for k
    proof -
      have "low j \<le> low k" using sweep_low [OF that] Cons.prems(1) by auto
      with hl show ?thesis by (cases "low k") (auto simp: apart_def)
    qed
    with False Cons show ?thesis by simp
  qed
qed simp

lemma normalize_normal: "normal (normalize is)"
proof (cases "sort_key low (filter nonempty_interval is)")
  case (Cons i rest)
  have "set (i # rest) = set (filter nonempty_interval is)" by (metis Cons set_sort)
  then have "list_all nonempty_interval (i # rest)"
    by (simp only: list_all_iff) simp
  moreover have "sorted (map low (i # rest))" by (metis Cons sorted_sort_key)
  ultimately have "normal (sweep i rest)" by (intro normal_sweep)
  with Cons show ?thesis by (simp add: normalize_sweep)
qed (simp add: normalize_sweep)

lemma member_normalize [simp]: "member (normalize is) n \<longleftrightarrow> member is n"
proof (cases "sort_key low (filter nonempty_interval is)")
  case Nil
  then have "filter nonempty_interval is = []" by (metis set_sort set_empty)
  with Nil member_filter [of "is" n] show ?thesis by (simp add: normalize_sweep)
next
  case (Cons i rest)
  have same: "set (i # rest) = set (filter nonempty_interval is)" by (metis Cons set_sort)
  then have "list_all nonempty_interval (i # rest)"
    by (simp only: list_all_iff) simp
  moreover have "sorted (map low (i # rest))" by (metis Cons sorted_sort_key)
  ultimately have "member (sweep i rest) n \<longleftrightarrow> member (i # rest) n"
    by (simp only: member_simps) (rule member_sweep)
  with Cons member_cong [OF same, of n] member_filter show ?thesis by (simp add: normalize_sweep)
qed

section \<open>Intersection\<close>

lemma inside_overlap:
  "inside (overlap i j) n \<longleftrightarrow> inside i n \<and> inside j n"
  by (cases "low i"; cases "low j"; cases "high i"; cases "high j") (auto simp: overlap_def inside_def)

lemma apart_outside: "apart i j \<Longrightarrow> inside j n \<Longrightarrow> (\<exists>h. high i = Some h \<and> h + 1 < n)"
  by (auto simp: apart_def inside_def split: option.splits)

lemma normal_rest:
  assumes "\<forall>j \<in> set is. apart i j" "member is n"
  obtains h where "high i = Some h" "h + 1 < n"
  using assms apart_outside by (auto simp: member_def) blast

lemma inside_high: "inside i n \<Longrightarrow> high i = Some h \<Longrightarrow> n \<le> h"
  by (auto simp: inside_def split: option.splits)

lemma member_intersection:
  "normal ls \<Longrightarrow> normal rs \<Longrightarrow> member (intersection ls rs) n \<longleftrightarrow> member ls n \<and> member rs n"
proof (induction ls rs rule: intersection.induct)
  case (3 l ls r rs)
  let ?o = "overlap l r"
  have o: "member (if nonempty_interval ?o then [?o] else []) n \<longleftrightarrow> inside l n \<and> inside r n"
    using inside_overlap [of l r n] empty_interval [of ?o n] by auto
  have l: "\<exists>h. high l = Some h \<and> h + 1 < n" if "member ls n"
    using normal_rest [of ls l n] "3.prems"(1) that by auto
  have r: "\<exists>h. high r = Some h \<and> h + 1 < n" if "member rs n"
    using normal_rest [of rs r n] "3.prems"(2) that by auto
  have lh: "n \<le> h" if "inside l n" "high l = Some h" for h using inside_high that by blast
  have rh: "n \<le> h" if "inside r n" "high r = Some h" for h using inside_high that by blast
  show ?case
  proof (cases "high l")
    case None
    with 3 o l r lh rh show ?thesis
      by (cases "high r") (auto simp: Let_def)
  next
    case (Some a)
    note a = this
    show ?thesis
    proof (cases "high r")
      case None
      with 3 o l r lh rh a show ?thesis by (auto simp: Let_def)
    next
      case (Some b)
      consider "a < b" | "a = b" | "b < a" by linarith
      then show ?thesis
      proof cases
        case 1
        with 3 o l r lh rh a Some show ?thesis by (force simp: Let_def ordering_of_def)
      next
        case 2
        with 3 o l r lh rh a Some show ?thesis by (force simp: Let_def ordering_of_def)
      next
        case 3
        with "3.IH" "3.prems" o l r lh rh a Some show ?thesis by (force simp: Let_def ordering_of_def)
      qed
    qed
  qed
qed simp_all

definition overlaps_of :: "interval list \<Rightarrow> interval list \<Rightarrow> interval set" where
  "overlaps_of ls rs = {x. \<exists>i \<in> set ls. \<exists>j \<in> set rs. x = overlap i j}"

lemma overlaps_of_Cons:
  "overlap l r \<in> overlaps_of (l # ls) (r # rs)" "overlaps_of ls (r # rs) \<subseteq> overlaps_of (l # ls) (r # rs)"
  "overlaps_of (l # ls) rs \<subseteq> overlaps_of (l # ls) (r # rs)" "overlaps_of ls rs \<subseteq> overlaps_of (l # ls) (r # rs)"
  by (auto simp: overlaps_of_def)

lemma intersection_step_within:
  "set (intersection (l # ls) (r # rs)) \<subseteq> insert (overlap l r)
     (set (intersection ls (r # rs)) \<union> set (intersection (l # ls) rs) \<union> set (intersection ls rs))"
  by (auto simp: Let_def ordering_of_def split: option.split)

lemma intersection_within: "set (intersection ls rs) \<subseteq> overlaps_of ls rs"
proof (induction ls arbitrary: rs)
  case (Cons l ls)
  note shorter = Cons.IH
  show ?case
  proof (induction rs)
    case (Cons r rs)
    have "insert (overlap l r) (set (intersection ls (r # rs)) \<union> set (intersection (l # ls) rs) \<union>
        set (intersection ls rs)) \<subseteq> overlaps_of (l # ls) (r # rs)"
      by (intro insert_subsetI Un_least overlaps_of_Cons order.trans [OF shorter] order.trans [OF Cons.IH])
    with intersection_step_within show ?case by (rule order.trans)
  qed simp
qed simp

lemma apart_overlap:
  assumes "nonempty_interval (overlap i j)" and "apart i i' \<or> apart j j'"
  shows "apart (overlap i j) (overlap i' j')"
  using assms
  by (cases "high i"; cases "high j"; cases "low i'"; cases "low j'") (auto simp: apart_def overlap_def)

lemma nonempty_intersection: "list_all nonempty_interval (intersection ls rs)"
  by (induction ls rs rule: intersection.induct)
    (auto simp: Let_def ordering_of_def split: option.split)

lemma overlap_apart_later:
  assumes "normal (l # ls)" "normal (r # rs)" "nonempty_interval (overlap l r)"
    and "x \<in> set (intersection ls (r # rs)) \<or> x \<in> set (intersection (l # ls) rs) \<or> x \<in> set (intersection ls rs)"
  shows "apart (overlap l r) x"
proof -
  obtain ls' rs' where within: "x \<in> set (intersection ls' rs')"
    and "ls' = ls \<or> rs' = rs" "ls' = l # ls \<or> ls' = ls" "rs' = r # rs \<or> rs' = rs"
    using assms(4) by blast
  moreover from subsetD [OF intersection_within within]
  obtain i j where "x = overlap i j" "i \<in> set ls'" "j \<in> set rs'" by (auto simp: overlaps_of_def)
  ultimately have "x = overlap i j" "apart l i \<or> apart r j"
    using assms(1,2) by auto
  with apart_overlap [OF assms(3)] show ?thesis by simp
qed

lemma normal_intersection: "normal ls \<Longrightarrow> normal rs \<Longrightarrow> normal (intersection ls rs)"
proof (induction ls arbitrary: rs)
  case (Cons l ls)
  note shorter = Cons.IH and left = Cons.prems(1)
  from Cons.prems(2) show ?case
  proof (induction rs)
    case (Cons r rs)
    have step: "intersection (l # ls) (r # rs) = (if nonempty_interval (overlap l r) then [overlap l r] else []) @ rest \<Longrightarrow>
        normal rest \<Longrightarrow> set rest \<subseteq> set (intersection ls (r # rs)) \<union> set (intersection (l # ls) rs) \<union> set (intersection ls rs) \<Longrightarrow>
        normal (intersection (l # ls) (r # rs))" for rest
      using overlap_apart_later [OF left Cons.prems] by (auto simp del: intersection.simps)
    have "normal (intersection ls (r # rs))" "normal (intersection (l # ls) rs)" "normal (intersection ls rs)"
      using shorter left Cons.IH Cons.prems by simp_all
    then show ?case
      by (intro step [where rest = "case (high l, high r) of
            (None, None) \<Rightarrow> []
          | (None, Some _) \<Rightarrow> intersection (l # ls) rs
          | (Some _, None) \<Rightarrow> intersection ls (r # rs)
          | (Some a, Some b) \<Rightarrow>
              (case ordering_of (a < b) (a = b) of
                 Less \<Rightarrow> intersection ls (r # rs)
               | Greater \<Rightarrow> intersection (l # ls) rs
               | Equal \<Rightarrow> intersection ls rs)"])
        (simp_all only: intersection.simps Let_def split: option.split ordering.split prod.split, auto)
  qed simp
qed simp

section \<open>Complement and comparison\<close>

lemma member_complement_loop:
  assumes "normal is" and "case start of None \<Rightarrow> True | Some s \<Rightarrow> \<forall>i \<in> set is. \<exists>l. low i = Some l \<and> s < l"
  shows "member (complement_loop start is) n \<longleftrightarrow>
    (case start of None \<Rightarrow> True | Some s \<Rightarrow> s \<le> n) \<and> \<not> member is n"
  using assms
proof (induction start "is" rule: complement_loop.induct)
  case (2 start i "is")
  show ?case
  proof (cases "high i")
    case None
    with "2.prems"(1) have "is = []" by (cases "is") (auto simp: apart_def)
    with None 2 show ?thesis
      by (cases start; cases "low i") (auto simp: inside_def)
  next
    case (Some h)
    have after: "\<forall>j \<in> set is. \<exists>l. low j = Some l \<and> h + 1 < l"
      using "2.prems"(1) Some by (auto simp: apart_def split: option.splits)
    then have rest: "member (complement_loop (Some (h + 1)) is) n \<longleftrightarrow> h + 1 \<le> n \<and> \<not> member is n"
      using "2.IH" [OF refl Some] "2.prems"(1) by simp
    have "h < n" if "member is n"
      using after that by (auto simp: member_def inside_def)
    with rest Some "2.prems" show ?thesis
      by (cases start; cases "low i") (auto simp: inside_def nonempty_interval_def)
  qed
qed (auto simp: inside_def split: option.split)

lemma complement_normal: "normal (complement is)"
  by (simp add: complement_def normalize_normal)

lemma member_complement [simp]: "member (complement is) n \<longleftrightarrow> \<not> member is n"
  using member_complement_loop [OF normalize_normal, where start = None and n = n] by (simp add: complement_def)

lemma comparison_intervals_normal: "normal (comparison_intervals os k)"
  by (simp add: comparison_intervals_def normalize_normal)

lemma member_comparison [simp]:
  "member (comparison_intervals os k) n \<longleftrightarrow> ordering_of (n < k) (n = k) \<in> os"
  by (auto simp: comparison_intervals_def inside_def ordering_of_def)

lemma mirror_ordering: "ordering_of (n < k) (n = k) \<in> mirror os \<longleftrightarrow> ordering_of (k < n) ((k :: int) = n) \<in> os"
  by (auto simp: mirror_def ordering_of_def)

lemma member_runtime_domain [simp]: "member runtime_integer_domain n \<longleftrightarrow> in_i64 n"
  by (auto simp: runtime_integer_domain_def inside_def minimum_i64_def maximum_i64_def in_i64_def push_bit_eq_mult)

lemma runtime_domain_normal: "normal runtime_integer_domain"
  by (simp add: runtime_integer_domain_def nonempty_interval_def minimum_i64_def maximum_i64_def push_bit_eq_mult)

lemma normal_nonempty: "normal is \<Longrightarrow> is \<noteq> [] \<Longrightarrow> \<exists>n. member is n"
proof (cases "is")
  case (Cons i js)
  moreover assume "normal is"
  ultimately show ?thesis
    by (cases "low i"; cases "high i") (auto simp: nonempty_interval_def inside_def intro: exI)
qed simp

section \<open>Properties\<close>

text \<open>
  C35. The interval operations compute the set operations exactly, for every list of intervals
  that is in normal form, and every result is in normal form again.
\<close>

theorem interval_algebra_exact:
  assumes "normal ls" and "normal rs"
  shows "(normal (intersection ls rs) \<and> (member (intersection ls rs) n \<longleftrightarrow> member ls n \<and> member rs n)) \<and>
    (normal (normalize (ls @ rs)) \<and> (member (normalize (ls @ rs)) n \<longleftrightarrow> member ls n \<or> member rs n)) \<and>
    (normal (complement ls) \<and> (member (complement ls) n \<longleftrightarrow> \<not> member ls n)) \<and>
    (normal (comparison_intervals os k) \<and>
     (member (comparison_intervals os k) n \<longleftrightarrow> ordering_of (n < k) (n = k) \<in> os))"
  using assms
  by (simp add: normal_intersection member_intersection normalize_normal complement_normal
      comparison_intervals_normal)

theorem interval_algebra_exact_witness:
  "member (intersection [\<lparr>low = None, high = Some 5\<rparr>] [\<lparr>low = Some 2, high = None\<rparr>]) 4 =
   (member [\<lparr>low = None, high = Some 5\<rparr>] 4 \<and> member [\<lparr>low = Some 2, high = None\<rparr>] 4)"
  using interval_algebra_exact [of "[\<lparr>low = None, high = Some 5\<rparr>]" "[\<lparr>low = Some 2, high = None\<rparr>]" 4]
  by (simp add: nonempty_interval_def)

end
