(* ===== verification/PredicateRefinement.thy ===== *)
theory PredicateRefinement
  imports Ast IntervalSets "HOL-Library.Monad_Syntax"
begin

text \<open>
  \<open>compiler/src/predicate_refinement.rs\<close> and the recognition it asks of
  \<open>compiler/src/recognise.rs\<close>: a pure predicate over an integer base type becomes a range or a
  union of ranges. The evaluator that applies a callee to its arguments, the lookup of a name
  in an environment and the scan that finds a callee to be one comparison of its parameters
  are the fields of a context; what is relied on of them is \<open>faithful_context\<close>.
\<close>

section \<open>Values and diagnostics\<close>

datatype domain = IntDomain | TextDomain | FloatDomain | Float32Domain

text \<open>
  The constructors of \<open>Value\<close> that these files inspect, with the fields they read;
  \<open>VOther\<close> stands for the rest.
\<close>

datatype ('env, 'x) "value" =
  VInt int
| VText string
| VUnbounded
| VRange "('env, 'x) value" "('env, 'x) value" "domain option"
| VUnion "('env, 'x) value list"
| VExtended "('env, 'x) value" "(string \<times> ('env, 'x) value) list"
| VShape "(string \<times> ('env, 'x) value) list"
| VTag string "('env, 'x) value option"
| VPrimitive string nat "('env, 'x) value list"
| VClosure string pattern_id expression_id 'env "string option"
| VOther 'x

record diagnostic =
  diagnostic_code :: string
  diagnostic_message :: string
  diagnostic_span :: span
  diagnostic_origin :: "string option"

definition new_diagnostic :: "string \<Rightarrow> string \<Rightarrow> span \<Rightarrow> diagnostic" where
  "new_diagnostic code message s =
     \<lparr>diagnostic_code = code, diagnostic_message = message, diagnostic_span = s, diagnostic_origin = None\<rparr>"

definition diagnostic_at :: "diagnostic \<Rightarrow> string \<Rightarrow> diagnostic" where
  "diagnostic_at d path =
     (if diagnostic_origin d = None then d\<lparr>diagnostic_origin := Some path\<rparr> else d)"

datatype failure_class = SourceFailure | LimitFailure | TargetRefusal | InvariantFailure

definition failure_class_of :: "diagnostic \<Rightarrow> failure_class" where
  "failure_class_of d =
     (if diagnostic_code d \<in> {''BLOT_EVALUATION_LIMIT'', ''BLOT_REFINEMENT_BUDGET'', ''BLOT_PREDICATE_BUDGET''}
      then LimitFailure
      else if diagnostic_code d \<in> {''BLOT_TARGET_REFUSAL'', ''BLOT_UNSUPPORTED_LOWERING'', ''BLOT_DEFERRED_AT_RUNTIME''}
      then TargetRefusal
      else if diagnostic_code d \<in> {''BLOT_BACKEND_ERROR'', ''BLOT_RUST_INVARIANT''} then InvariantFailure
      else SourceFailure)"

definition unsupported :: "span \<Rightarrow> string \<Rightarrow> diagnostic" where
  "unsupported s reason = new_diagnostic ''BLOT_REFINEMENT_PREDICATE'' reason s"

section \<open>Recognition\<close>

text \<open>
  The context: loaded modules, lookup, the answers of the evaluator on booleans and
  integers (\<open>None\<close> for no boolean answer), the decorated integer and boolean types, and
  \<open>factored\<close>.
\<close>

record ('env, 'x) recogniser =
  modules :: "string \<Rightarrow> ast_module option"
  lookup :: "'env \<Rightarrow> string \<Rightarrow> ('env, 'x) value option"
  answer_bool :: "('env, 'x) value \<Rightarrow> bool \<Rightarrow> bool \<Rightarrow> bool option"
  answer_int :: "('env, 'x) value \<Rightarrow> int \<Rightarrow> int \<Rightarrow> bool option"
  answer_not :: "('env, 'x) value \<Rightarrow> bool \<Rightarrow> bool option"
  decorated_integer :: "('env, 'x) value option"
  decorated_boolean :: "('env, 'x) value"
  factored :: "('env, 'x) value \<Rightarrow> bool"

datatype junction = AndJunction | OrJunction

definition orderings_from_answers :: "bool \<Rightarrow> bool \<Rightarrow> bool \<Rightarrow> ordering set" where
  "orderings_from_answers less_answer equal_answer greater_answer =
     (if less_answer then {Less} else {}) \<union> (if equal_answer then {Equal} else {}) \<union>
     (if greater_answer then {Greater} else {})"

definition integer_comparison_orderings :: "string \<Rightarrow> ordering set option" where
  "integer_comparison_orderings m =
     (if m = ''eq'' then Some {Equal}
      else if m = ''ne'' then Some {Less, Greater}
      else if m = ''lt'' then Some {Less}
      else if m = ''le'' then Some {Less, Equal}
      else if m = ''gt'' then Some {Greater}
      else if m = ''ge'' then Some {Equal, Greater}
      else None)"

definition comparison_answers :: "('env, 'x) recogniser \<Rightarrow> ('env, 'x) value \<Rightarrow> ordering set option" where
  "comparison_answers c v = do {
     less_answer \<leftarrow> answer_int c v 0 1;
     equal_answer \<leftarrow> answer_int c v 1 1;
     greater_answer \<leftarrow> answer_int c v 1 0;
     Some (orderings_from_answers less_answer equal_answer greater_answer)
   }"

fun attached_member :: "('env, 'x) value \<Rightarrow> string \<Rightarrow> ('env, 'x) value option" where
  "attached_member (VExtended inner members) name =
     (case map_of members name of Some v \<Rightarrow> Some v | None \<Rightarrow> attached_member inner name)"
| "attached_member (VShape members) name = map_of members name"
| "attached_member _ name = None"

definition bound_name :: "ast_arena \<Rightarrow> pattern_id \<Rightarrow> string option" where
  "bound_name a p = (case get_pattern a p of Some (NamePattern name _ _) \<Rightarrow> Some name | _ \<Rightarrow> None)"

definition as_lambda :: "ast_arena \<Rightarrow> expression_id \<Rightarrow> (pattern_id \<times> expression_id) option" where
  "as_lambda a e = (case get_expression a e of Some (ELambda p b _ _) \<Rightarrow> Some (p, b) | _ \<Rightarrow> None)"

definition as_apply :: "ast_arena \<Rightarrow> expression_id \<Rightarrow> (expression_id \<times> expression_id) option" where
  "as_apply a e = (case get_expression a e of Some (EApply f x _) \<Rightarrow> Some (f, x) | _ \<Rightarrow> None)"

definition as_field :: "ast_arena \<Rightarrow> expression_id \<Rightarrow> (expression_id \<times> string) option" where
  "as_field a e = (case get_expression a e of Some (EField t name _) \<Rightarrow> Some (t, name) | _ \<Rightarrow> None)"

definition as_intrinsic :: "ast_arena \<Rightarrow> expression_id \<Rightarrow> string option" where
  "as_intrinsic a e = (case get_expression a e of Some (EIntrinsic name _) \<Rightarrow> Some name | _ \<Rightarrow> None)"

definition as_var :: "ast_arena \<Rightarrow> expression_id \<Rightarrow> string option" where
  "as_var a e = (case get_expression a e of Some (EVar name _) \<Rightarrow> Some name | _ \<Rightarrow> None)"

text \<open>A closure \<open>\<lambda>a b. (@type.inferred a).name a b\<close>.\<close>

definition operator_member_body ::
  "ast_arena \<Rightarrow> string \<Rightarrow> string \<Rightarrow> expression_id \<Rightarrow> string option" where
  "operator_member_body a one two body = do {
     (function, right) \<leftarrow> as_apply a body;
     (method, left) \<leftarrow> as_apply a function;
     (target, name) \<leftarrow> as_field a method;
     (inferred, inferred_subject) \<leftarrow> as_apply a target;
     intrinsic \<leftarrow> as_intrinsic a inferred;
     inferred_name \<leftarrow> as_var a inferred_subject;
     left_name \<leftarrow> as_var a left;
     right_name \<leftarrow> as_var a right;
     (if intrinsic = ''@type.inferred'' \<and> inferred_name = one \<and> left_name = one \<and> right_name = two
      then Some name else None)
   }"

definition inferred_operator_member_name ::
  "('env, 'x) recogniser \<Rightarrow> ('env, 'x) value \<Rightarrow> string option" where
  "inferred_operator_member_name c v =
     (case v of
        VClosure path parameter body env None \<Rightarrow> do {
          m \<leftarrow> modules c path;
          one \<leftarrow> bound_name (module_arena m) parameter;
          (parameter', body') \<leftarrow> as_lambda (module_arena m) body;
          two \<leftarrow> bound_name (module_arena m) parameter';
          (if one = two then None else operator_member_body (module_arena m) one two body')
        }
      | _ \<Rightarrow> None)"

definition resolved_comparison :: "('env, 'x) value \<Rightarrow> ordering set option" where
  "resolved_comparison member_value =
     (case member_value of
        VPrimitive name arity [VText resolved] \<Rightarrow>
          if name = ''@type.resolve_member'' \<and> arity = 3 then integer_comparison_orderings resolved else None
      | _ \<Rightarrow> None)"

definition comparison :: "('env, 'x) recogniser \<Rightarrow> ('env, 'x) value \<Rightarrow> ordering set option" where
  "comparison c v =
     (if factored c v then comparison_answers c v
      else do {
        name \<leftarrow> inferred_operator_member_name c v;
        integer_type \<leftarrow> decorated_integer c;
        member_value \<leftarrow> attached_member integer_type name;
        (if factored c member_value then comparison_answers c member_value
         else resolved_comparison member_value)
      })"

definition junction_subject ::
  "('env, 'x) recogniser \<Rightarrow> ('env, 'x) value \<Rightarrow> ('env, 'x) value option" where
  "junction_subject c v =
     (case inferred_operator_member_name c v of
        None \<Rightarrow> Some v
      | Some name \<Rightarrow>
          if name \<notin> {''and'', ''or''} then None else attached_member (decorated_boolean c) name)"

definition junction_of :: "('env, 'x) recogniser \<Rightarrow> ('env, 'x) value \<Rightarrow> junction option" where
  "junction_of c v = do {
     v' \<leftarrow> junction_subject c v;
     true_true \<leftarrow> answer_bool c v' True True;
     true_false \<leftarrow> answer_bool c v' True False;
     false_true \<leftarrow> answer_bool c v' False True;
     false_false \<leftarrow> answer_bool c v' False False;
     (if (true_true, true_false, false_true, false_false) = (True, False, False, False) then Some AndJunction
      else if (true_true, true_false, false_true, false_false) = (True, True, True, False) then Some OrJunction
      else None)
   }"

definition is_negation :: "('env, 'x) recogniser \<Rightarrow> ('env, 'x) value \<Rightarrow> bool" where
  "is_negation c v \<longleftrightarrow> answer_not c v True = Some False \<and> answer_not c v False = Some True"

section \<open>Predicates\<close>

definition max_predicate_nodes :: nat where "max_predicate_nodes = 256"

definition tag_named :: "ast_arena \<Rightarrow> expression_id \<Rightarrow> string \<Rightarrow> bool" where
  "tag_named a e expected = (case get_expression a e of Some (ETag name _) \<Rightarrow> name = expected | _ \<Rightarrow> False)"

definition pattern_name :: "ast_arena \<Rightarrow> pattern_id \<Rightarrow> string option" where
  "pattern_name a p = (case get_pattern a p of Some (NamePattern name NoQualifier _) \<Rightarrow> Some name | _ \<Rightarrow> None)"

text \<open>
  The loops that follow a chain of references get fuel for the longest path that
  \<open>Module::validate\<close> admits; the lemmas below show it is enough for validated modules.
\<close>

definition path_fuel :: nat where
  "path_fuel = artifact_reference_path_limit + 1"

fun application_loop ::
  "nat \<Rightarrow> ast_arena \<Rightarrow> expression_id \<Rightarrow> expression_id list \<Rightarrow> expression_id \<times> expression_id list" where
  "application_loop 0 a current arguments = (current, arguments)"
| "application_loop (Suc k) a current arguments =
     (case as_apply a current of
        Some (f, x) \<Rightarrow> application_loop k a f (x # arguments)
      | None \<Rightarrow> (current, arguments))"

definition application :: "ast_arena \<Rightarrow> expression_id \<Rightarrow> (expression_id \<times> expression_id list) option" where
  "application a e =
     (let (callee, arguments) = application_loop path_fuel a e []
      in if arguments = [] then None else Some (callee, arguments))"

fun resolve_loop ::
  "nat \<Rightarrow> ('env \<Rightarrow> string \<Rightarrow> ('env, 'x) value option) \<Rightarrow> ast_arena \<Rightarrow> expression_id \<Rightarrow> string \<Rightarrow> 'env \<Rightarrow>
   ('env, 'x) value option" where
  "resolve_loop 0 look a e subject env = None"
| "resolve_loop (Suc k) look a e subject env =
     (case get_expression a e of
        Some (EVar name _) \<Rightarrow> if name \<noteq> subject then look env name else None
      | Some (EField target name _) \<Rightarrow>
          (case resolve_loop k look a target subject env of
             Some (VShape members) \<Rightarrow> map_of members name
           | Some (VExtended _ members) \<Rightarrow> map_of members name
           | _ \<Rightarrow> None)
      | _ \<Rightarrow> None)"

definition resolve ::
  "('env, 'x) recogniser \<Rightarrow> ast_arena \<Rightarrow> expression_id \<Rightarrow> string \<Rightarrow> 'env \<Rightarrow> ('env, 'x) value option" where
  "resolve c a e subject env = resolve_loop path_fuel (lookup c) a e subject env"

definition is_subject :: "ast_arena \<Rightarrow> expression_id \<Rightarrow> string \<Rightarrow> bool" where
  "is_subject a e subject = (case get_expression a e of Some (EVar name _) \<Rightarrow> name = subject | _ \<Rightarrow> False)"

definition integer_witness ::
  "('env, 'x) recogniser \<Rightarrow> ast_arena \<Rightarrow> expression_id \<Rightarrow> string \<Rightarrow> 'env \<Rightarrow> int option" where
  "integer_witness c a e subject env =
     (case get_expression a e of
        Some (EInt k _) \<Rightarrow> Some k
      | Some (EVar name _) \<Rightarrow>
          if name \<noteq> subject then (case lookup c env name of Some (VInt k) \<Rightarrow> Some k | _ \<Rightarrow> None) else None
      | _ \<Rightarrow> None)"

definition expression_span_or :: "ast_arena \<Rightarrow> expression_id \<Rightarrow> span" where
  "expression_span_or a e =
     (case arena_expression_span a e of Some s \<Rightarrow> s | None \<Rightarrow> \<lparr>span_start = 0, span_end = 0\<rparr>)"

text \<open>What a predicate node is, after the conditional forms: a junction, a comparison, a negation.\<close>

datatype predicate_call =
  JunctionCall junction expression_id expression_id
| ComparisonCall "interval list"
| NegationCall expression_id

definition comparison_call ::
  "('env, 'x) recogniser \<Rightarrow> ast_arena \<Rightarrow> ordering set \<Rightarrow> expression_id \<Rightarrow> expression_id \<Rightarrow> string \<Rightarrow> 'env \<Rightarrow>
   (diagnostic, predicate_call) result option" where
  "comparison_call c a relation left right subject env =
     (if is_subject a left subject then
        Some (case integer_witness c a right subject env of
                None \<Rightarrow> Inl (unsupported (expression_span_or a right)
                          ''A comparison witness must be a compile-time integer.'')
              | Some k \<Rightarrow> Inr (ComparisonCall (comparison_intervals relation k)))
      else if is_subject a right subject then
        Some (case integer_witness c a left subject env of
                None \<Rightarrow> Inl (unsupported (expression_span_or a left)
                          ''A comparison witness must be a compile-time integer.'')
              | Some k \<Rightarrow> Inr (ComparisonCall (comparison_intervals (mirror relation) k)))
      else None)"

definition predicate_call_of ::
  "('env, 'x) recogniser \<Rightarrow> ast_arena \<Rightarrow> expression_id \<Rightarrow> string \<Rightarrow> 'env \<Rightarrow>
   (diagnostic, predicate_call) result" where
  "predicate_call_of c a e subject env =
     (case application a e of
        None \<Rightarrow> Inl (unsupported (expression_span_or a e)
                  ''The predicate must be built from integer comparisons and boolean operators.'')
      | Some (callee, arguments) \<Rightarrow>
          (case resolve c a callee subject env of
             None \<Rightarrow> Inl (unsupported (expression_span_or a callee)
                       ''This predicate function is not compile-time-known.'')
           | Some v \<Rightarrow>
               (let refused = Inl (unsupported (expression_span_or a e)
                      ''This call is not a recognized comparison, conjunction, disjunction, or negation.'')
                in case arguments of
                     [left, right] \<Rightarrow>
                       (case junction_of c v of
                          Some shape \<Rightarrow> Inr (JunctionCall shape left right)
                        | None \<Rightarrow>
                            (case comparison c v of
                               None \<Rightarrow> refused
                             | Some relation \<Rightarrow>
                                 (case comparison_call c a relation left right subject env of
                                    Some r \<Rightarrow> r | None \<Rightarrow> refused)))
                   | [inner] \<Rightarrow> if is_negation c v then Inr (NegationCall inner) else refused
                   | _ \<Rightarrow> refused)))"

text \<open>The two conditional forms, as \<open>if let Expression::If\<close> reads them.\<close>

definition single_if ::
  "ast_arena \<Rightarrow> expression_id \<Rightarrow> (expression_id \<times> expression_id \<times> expression_id) option" where
  "single_if a e =
     (case get_expression a e of
        Some (EIf [b] (Some fallback) _) \<Rightarrow> Some (branch_condition b, branch_consequence b, fallback)
      | _ \<Rightarrow> None)"

text \<open>
  \<open>predicate_intervals\<close>: the budget is threaded through the recursion, so a call returns what
  is left of it. A conditional of neither form is no application, and the code that
  follows refuses it as such.
\<close>

function predicate_intervals ::
  "('env, 'x) recogniser \<Rightarrow> ast_arena \<Rightarrow> string \<Rightarrow> 'env \<Rightarrow> span \<Rightarrow> expression_id \<Rightarrow> nat \<Rightarrow>
   (diagnostic, interval list \<times> nat) result" where
  "predicate_intervals c a subject env s e budget =
     (if budget = 0 then
        Inl (new_diagnostic ''BLOT_PREDICATE_BUDGET''
               ''Predicate normalization exceeded its 256-node budget.'' s)
      else
        case single_if a e of
          Some (condition, consequence, fallback) \<Rightarrow>
            and_then (predicate_intervals c a subject env s condition (budget - 1)) (\<lambda>(left, b1).
              if tag_named a fallback ''False'' then
                and_then (predicate_intervals c a subject env s consequence b1) (\<lambda>(right, b2).
                  Inr (intersection left right, b2))
              else if tag_named a consequence ''True'' then
                and_then (predicate_intervals c a subject env s fallback b1) (\<lambda>(right, b2).
                  Inr (normalize (left @ right), b2))
              else Inl (unsupported (expression_span_or a e)
                ''The predicate must be built from integer comparisons and boolean operators.''))
        | None \<Rightarrow>
            and_then (predicate_call_of c a e subject env) (\<lambda>call.
              case call of
                JunctionCall shape l r \<Rightarrow>
                  and_then (predicate_intervals c a subject env s l (budget - 1)) (\<lambda>(left, b1).
                  and_then (predicate_intervals c a subject env s r b1) (\<lambda>(right, b2).
                    Inr (case shape of
                           AndJunction \<Rightarrow> intersection left right
                         | OrJunction \<Rightarrow> normalize (left @ right), b2)))
              | ComparisonCall intervals \<Rightarrow> Inr (intervals, budget - 1)
              | NegationCall inner \<Rightarrow>
                  and_then (predicate_intervals c a subject env s inner (budget - 1)) (\<lambda>(accepted, b1).
                    Inr (complement accepted, b1))))"
  by pat_completeness auto


lemma budget_decreases:
  assumes "predicate_intervals_dom (c, a, subject, env, s, e, budget)"
    and "predicate_intervals c a subject env s e budget = Inr (is, b)"
  shows "b < budget"
  using assms
proof (induction arbitrary: "is" b rule: predicate_intervals.pinduct)
  case (1 c a subject env s e budget)
  have b: "budget \<noteq> 0"
  proof
    assume "budget = 0"
    with "1.prems" show False
      unfolding predicate_intervals.psimps [OF "1.hyps"] by simp
  qed
  show ?case
  proof (cases "single_if a e")
    case (Some parts)
    obtain condition consequence fallback where parts: "(condition, consequence, fallback) = parts"
      by (cases parts) auto
    obtain left b1 where left: "predicate_intervals c a subject env s condition (budget - 1) = Inr (left, b1)"
      using "1.prems" b Some parts [symmetric]
      unfolding predicate_intervals.psimps [OF "1.hyps"] by (auto simp: and_then_eq_Inr)
    have less_left: "b1 < budget - 1"
      by (rule "1.IH"(4) [OF b Some parts refl left])
    consider right where "tag_named a fallback ''False''"
        "predicate_intervals c a subject env s consequence b1 = Inr (right, b)"
      | right where "\<not> tag_named a fallback ''False''" "tag_named a consequence ''True''"
        "predicate_intervals c a subject env s fallback b1 = Inr (right, b)"
      using "1.prems" b Some parts [symmetric] left
      unfolding predicate_intervals.psimps [OF "1.hyps"] by (auto simp: and_then_eq_Inr split: if_splits)
    then have "b < b1"
    proof cases
      case 1
      show ?thesis by (rule "1.IH"(5) [OF b Some parts refl left refl 1])
    next
      case 2
      show ?thesis by (rule "1.IH"(6) [OF b Some parts refl left refl 2])
    qed
    with less_left show ?thesis by simp
  next
    case None
    obtain call where call: "predicate_call_of c a e subject env = Inr call"
      using "1.prems" b None unfolding predicate_intervals.psimps [OF "1.hyps"] by (auto simp: and_then_eq_Inr)
    show ?thesis
    proof (cases call)
      case (JunctionCall shape l r)
      then obtain left b1 right where parts: "predicate_intervals c a subject env s l (budget - 1) = Inr (left, b1)"
        "predicate_intervals c a subject env s r b1 = Inr (right, b)"
        using "1.prems" b None call unfolding predicate_intervals.psimps [OF "1.hyps"] by (auto simp: and_then_eq_Inr)
      have "b1 < budget - 1"
        by (rule "1.IH"(1) [OF b None call JunctionCall parts(1)])
      moreover have "b < b1"
        by (rule "1.IH"(2) [OF b None call JunctionCall parts(1) refl parts(2)])
      ultimately show ?thesis by simp
    next
      case (ComparisonCall intervals)
      then show ?thesis
        using "1.prems" b None call unfolding predicate_intervals.psimps [OF "1.hyps"] by auto
    next
      case (NegationCall inner)
      then obtain accepted where "predicate_intervals c a subject env s inner (budget - 1) = Inr (accepted, b)"
        using "1.prems" b None call unfolding predicate_intervals.psimps [OF "1.hyps"] by (auto simp: and_then_eq_Inr)
      then have "b < budget - 1"
        by (rule "1.IH"(3) [OF b None call NegationCall])
      then show ?thesis by simp
    qed
  qed
qed

lemma predicate_intervals_total: "All predicate_intervals_dom"
  by (rule "predicate_intervals.termination" [of "measure (\<lambda>(c, a, subject, env, s, e, budget). budget)"])
    (auto dest: budget_decreases)

termination predicate_intervals
  by (rule predicate_intervals_total)

declare predicate_intervals.simps [simp del]

section \<open>Bases and results\<close>

definition range_domain :: "('env, 'x) value \<Rightarrow> ('env, 'x) value \<Rightarrow> domain option \<Rightarrow> domain" where
  "range_domain lo hi d =
     (case d of
        Some d' \<Rightarrow> d'
      | None \<Rightarrow> (case (lo, hi) of (VText _, _) \<Rightarrow> TextDomain | (_, VText _) \<Rightarrow> TextDomain | _ \<Rightarrow> IntDomain))"

definition bound :: "span \<Rightarrow> ('env, 'x) value \<Rightarrow> (diagnostic, int option) result" where
  "bound s v =
     (case v of
        VUnbounded \<Rightarrow> Inr None
      | VInt k \<Rightarrow> Inr (Some k)
      | _ \<Rightarrow> Inl (unsupported s ''An integer range has a non-integer bound.''))"

text \<open>
  \<open>base_intervals\<close>: the pending values are a stack, its top first. The visited set holds
  addresses, which values do not have here: \<open>same_address seen v\<close> stands for its answer, and all
  that is relied on is that it answers yes only for a value that was visited.
\<close>

function (sequential) base_loop ::
  "(('env, 'x) value list \<Rightarrow> ('env, 'x) value \<Rightarrow> bool) \<Rightarrow> span \<Rightarrow> ('env, 'x) value list \<Rightarrow>
   ('env, 'x) value list \<Rightarrow> interval list \<Rightarrow> (diagnostic, interval list) result" where
  "base_loop same_address s seen [] intervals = Inr intervals"
| "base_loop same_address s seen (v # pending) intervals =
     (if same_address seen v then base_loop same_address s seen pending intervals
      else
        case v of
          VExtended inner _ \<Rightarrow> base_loop same_address s (v # seen) (inner # pending) intervals
        | VInt k \<Rightarrow>
            base_loop same_address s (v # seen) pending (intervals @ [\<lparr>low = Some k, high = Some k\<rparr>])
        | VUnion members \<Rightarrow> base_loop same_address s (v # seen) (members @ pending) intervals
        | VRange lo hi d \<Rightarrow>
            if range_domain lo hi d \<noteq> IntDomain then
              Inl (unsupported s ''The first predicate-refinement slice accepts integer bases only.'')
            else
              and_then (bound s lo) (\<lambda>l.
              and_then (bound s hi) (\<lambda>h.
                base_loop same_address s (v # seen) pending (intervals @ [\<lparr>low = l, high = h\<rparr>])))
        | _ \<Rightarrow> Inl (unsupported s ''The refinement base must be an integer type.''))"
  by pat_completeness auto
termination
  by (relation "measure (\<lambda>(same_address, s, seen, pending, intervals). size_list size pending)") auto

definition base_intervals ::
  "(('env, 'x) value list \<Rightarrow> ('env, 'x) value \<Rightarrow> bool) \<Rightarrow> ('env, 'x) value \<Rightarrow> span \<Rightarrow>
   (diagnostic, interval list) result" where
  "base_intervals same_address base s =
     and_then (base_loop same_address s [] [base] []) (\<lambda>intervals. Inr (normalize intervals))"

definition interval_as_value :: "interval \<Rightarrow> ('env, 'x) value" where
  "interval_as_value i =
     (let l = (case low i of None \<Rightarrow> minimum_i64 | Some l \<Rightarrow> l);
          h = (case high i of None \<Rightarrow> maximum_i64 | Some h \<Rightarrow> h)
      in if l = h then VInt l else VRange (VInt l) (VInt h) (Some IntDomain))"

text \<open>\<open>expect\<close> on no interval is a panic: \<open>None\<close>.\<close>

definition interval_value :: "interval list \<Rightarrow> ('env, 'x) value option" where
  "interval_value intervals =
     (case map interval_as_value intervals of
        [] \<Rightarrow> None
      | first # remaining \<Rightarrow> Some (if remaining = [] then first else VUnion (first # remaining)))"

fun preserve_extensions :: "('env, 'x) value \<Rightarrow> ('env, 'x) value \<Rightarrow> ('env, 'x) value" where
  "preserve_extensions (VExtended inner members) refined =
     VExtended (preserve_extensions inner refined) members"
| "preserve_extensions _ refined = refined"

datatype refine_error = Refused diagnostic | NoIntervalPanic

definition at_module :: "string \<Rightarrow> (diagnostic, 'a) result \<Rightarrow> (refine_error, 'a) result" where
  "at_module path r = (case r of Inl d \<Rightarrow> Inl (Refused (diagnostic_at d path)) | Inr x \<Rightarrow> Inr x)"

definition refine ::
  "(('env, 'x) value list \<Rightarrow> ('env, 'x) value \<Rightarrow> bool) \<Rightarrow> ('env, 'x) recogniser \<Rightarrow> ('env, 'x) value \<Rightarrow>
   ('env, 'x) value \<Rightarrow> span \<Rightarrow> (refine_error, ('env, 'x) value) result" where
  "refine same_address c base predicate s =
     (case base_intervals same_address base s of
        Inl d \<Rightarrow> Inl (Refused d)
      | Inr unclipped \<Rightarrow>
          (let base_set = intersection unclipped runtime_integer_domain
           in case predicate of
                VClosure path parameter body env None \<Rightarrow>
                  (case modules c path of
                     None \<Rightarrow> Inl (Refused (unsupported s ''The predicate's module is not loaded.''))
                   | Some m \<Rightarrow>
                       (let a = module_arena m;
                            predicate_span = expression_span_or a body
                        in case pattern_name a parameter of
                             None \<Rightarrow> Inl (Refused (diagnostic_at (unsupported predicate_span
                                      ''The predicate parameter must be one unqualified name.'') path))
                           | Some subject \<Rightarrow>
                               and_then (at_module path
                                   (predicate_intervals c a subject env predicate_span body max_predicate_nodes))
                                 (\<lambda>(accepted, _).
                                   (let refined = intersection base_set accepted
                                    in if refined = [] then
                                         Inl (Refused (diagnostic_at (new_diagnostic ''BLOT_EMPTY_REFINEMENT''
                                           ''The predicate accepts no value from its base integer type.''
                                           predicate_span) path))
                                       else
                                         case interval_value refined of
                                           None \<Rightarrow> Inl NoIntervalPanic
                                         | Some v \<Rightarrow> Inr (preserve_extensions base v)))))
              | _ \<Rightarrow> Inl (Refused (unsupported s ''The predicate must be a non-recursive unary function.''))))"

section \<open>What a refinement means\<close>

text \<open>The integers of a base type.\<close>

fun denotes :: "('env, 'x) value \<Rightarrow> int \<Rightarrow> bool" where
  "denotes (VInt k) n \<longleftrightarrow> n = k"
| "denotes (VUnion members) n \<longleftrightarrow> (\<exists>v \<in> set members. denotes v n)"
| "denotes (VExtended inner _) n \<longleftrightarrow> denotes inner n"
| "denotes (VRange lo hi _) n \<longleftrightarrow>
     (case lo of VInt l \<Rightarrow> l \<le> n | _ \<Rightarrow> True) \<and> (case hi of VInt h \<Rightarrow> n \<le> h | _ \<Rightarrow> True)"
| "denotes _ n \<longleftrightarrow> False"

text \<open>
  The evaluation of a predicate body at an integer: conditionals, boolean tags, and calls
  answered by the evaluator on the values of their operands.
\<close>

definition operand ::
  "('env, 'x) recogniser \<Rightarrow> ast_arena \<Rightarrow> string \<Rightarrow> 'env \<Rightarrow> int \<Rightarrow> expression_id \<Rightarrow> int option" where
  "operand c a subject env n e = (if is_subject a e subject then Some n else integer_witness c a e subject env)"

inductive evaluates ::
  "('env, 'x) recogniser \<Rightarrow> ast_arena \<Rightarrow> string \<Rightarrow> 'env \<Rightarrow> int \<Rightarrow> expression_id \<Rightarrow> bool \<Rightarrow> bool"
  for c a subject env n where
  taken: "single_if a e = Some (condition, consequence, fallback) \<Longrightarrow>
     evaluates c a subject env n condition True \<Longrightarrow> evaluates c a subject env n consequence b \<Longrightarrow>
     evaluates c a subject env n e b"
| not_taken: "single_if a e = Some (condition, consequence, fallback) \<Longrightarrow>
     evaluates c a subject env n condition False \<Longrightarrow> evaluates c a subject env n fallback b \<Longrightarrow>
     evaluates c a subject env n e b"
| true_tag: "tag_named a e ''True'' \<Longrightarrow> evaluates c a subject env n e True"
| false_tag: "tag_named a e ''False'' \<Longrightarrow> evaluates c a subject env n e False"
| boolean_call: "application a e = Some (callee, [l, r]) \<Longrightarrow> resolve c a callee subject env = Some v \<Longrightarrow>
     evaluates c a subject env n l p \<Longrightarrow> evaluates c a subject env n r q \<Longrightarrow>
     answer_bool c v p q = Some b \<Longrightarrow> evaluates c a subject env n e b"
| integer_call: "application a e = Some (callee, [l, r]) \<Longrightarrow> resolve c a callee subject env = Some v \<Longrightarrow>
     operand c a subject env n l = Some i \<Longrightarrow> operand c a subject env n r = Some j \<Longrightarrow>
     answer_int c v i j = Some b \<Longrightarrow> evaluates c a subject env n e b"
| unary_call: "application a e = Some (callee, [inner]) \<Longrightarrow> resolve c a callee subject env = Some v \<Longrightarrow>
     evaluates c a subject env n inner p \<Longrightarrow> answer_not c v p = Some b \<Longrightarrow> evaluates c a subject env n e b"

text \<open>
  What the recognition relies on of the evaluator. A callee found to be one comparison of
  its parameters answers by their order alone; an operator closure answers as the member it
  resolves to; the built-in resolver of a comparison member answers by that comparison.
\<close>

definition faithful_context :: "('env, 'x) recogniser \<Rightarrow> bool" where
  "faithful_context c \<longleftrightarrow>
     (\<forall>v i j i' j'. factored c v \<longrightarrow> ordering_of (i < j) (i = j) = ordering_of (i' < j') (i' = j') \<longrightarrow>
        answer_int c v i j = answer_int c v i' j') \<and>
     (\<forall>v name t w i j. inferred_operator_member_name c v = Some name \<longrightarrow> decorated_integer c = Some t \<longrightarrow>
        attached_member t name = Some w \<longrightarrow> answer_int c v i j = answer_int c w i j) \<and>
     (\<forall>v name w p q. inferred_operator_member_name c v = Some name \<longrightarrow>
        attached_member (decorated_boolean c) name = Some w \<longrightarrow> answer_bool c v p q = answer_bool c w p q) \<and>
     (\<forall>w os i j. resolved_comparison w = Some os \<longrightarrow>
        answer_int c w i j = Some (ordering_of (i < j) (i = j) \<in> os))"

lemma faithful_factored:
  "faithful_context c \<Longrightarrow> factored c v \<Longrightarrow> ordering_of (i < j) (i = j) = ordering_of (i' < j') (i' = j') \<Longrightarrow>
     answer_int c v i j = answer_int c v i' j'"
  unfolding faithful_context_def by blast

lemma faithful_operator_int:
  "faithful_context c \<Longrightarrow> inferred_operator_member_name c v = Some name \<Longrightarrow> decorated_integer c = Some t \<Longrightarrow>
     attached_member t name = Some w \<Longrightarrow> answer_int c v i j = answer_int c w i j"
  unfolding faithful_context_def by blast

lemma faithful_operator_bool:
  "faithful_context c \<Longrightarrow> inferred_operator_member_name c v = Some name \<Longrightarrow>
     attached_member (decorated_boolean c) name = Some w \<Longrightarrow> answer_bool c v p q = answer_bool c w p q"
  unfolding faithful_context_def by blast

lemma faithful_resolved:
  "faithful_context c \<Longrightarrow> resolved_comparison w = Some os \<Longrightarrow>
     answer_int c w i j = Some (ordering_of (i < j) (i = j) \<in> os)"
  unfolding faithful_context_def by blast

lemma comparison_answers_sound:
  assumes "faithful_context c" "factored c v" "comparison_answers c v = Some os"
  shows "answer_int c v i j = Some (ordering_of (i < j) (i = j) \<in> os)"
proof -
  have same: "answer_int c v i j = answer_int c v i' j'"
    if "ordering_of (i < j) (i = j) = ordering_of (i' < j') (i' = j')" for i' j'
    using faithful_factored [OF assms(1,2) that] .
  consider "i < j" | "i = j" | "j < i" by linarith
  then show ?thesis
  proof cases
    case 1
    with same [of 0 1] assms(3) show ?thesis
      by (auto simp: comparison_answers_def ordering_of_def orderings_from_answers_def bind_eq_Some_conv)
  next
    case 2
    with same [of 1 1] assms(3) show ?thesis
      by (auto simp: comparison_answers_def ordering_of_def orderings_from_answers_def bind_eq_Some_conv)
  next
    case 3
    with same [of 1 0] assms(3) show ?thesis
      by (auto simp: comparison_answers_def ordering_of_def orderings_from_answers_def bind_eq_Some_conv)
  qed
qed

lemma comparison_sound:
  assumes "faithful_context c" "comparison c v = Some os"
  shows "answer_int c v i j = Some (ordering_of (i < j) (i = j) \<in> os)"
proof (cases "factored c v")
  case True
  with assms show ?thesis by (simp add: comparison_def comparison_answers_sound)
next
  case False
  with assms(2) obtain name t w where w: "inferred_operator_member_name c v = Some name"
    "decorated_integer c = Some t" "attached_member t name = Some w"
    "(if factored c w then comparison_answers c w else resolved_comparison w) = Some os"
    by (auto simp: comparison_def bind_eq_Some_conv)
  have "answer_int c v i j = answer_int c w i j"
    by (rule faithful_operator_int [OF assms(1) w(1-3)])
  also have "\<dots> = Some (ordering_of (i < j) (i = j) \<in> os)"
    using w(4) comparison_answers_sound [OF assms(1), of w os] faithful_resolved [OF assms(1), of w os]
    by (cases "factored c w") simp_all
  finally show ?thesis .
qed

lemma junction_sound:
  assumes "faithful_context c" "junction_of c v = Some shape"
  shows "answer_bool c v p q = Some (case shape of AndJunction \<Rightarrow> p \<and> q | OrJunction \<Rightarrow> p \<or> q)"
proof -
  obtain w where w: "junction_subject c v = Some w"
    and answers: "answer_bool c w p q = Some (case shape of AndJunction \<Rightarrow> p \<and> q | OrJunction \<Rightarrow> p \<or> q)"
    using assms(2) by (cases p; cases q) (auto simp: junction_of_def bind_eq_Some_conv split: if_splits)
  have "answer_bool c v p q = answer_bool c w p q"
    using w faithful_operator_bool [OF assms(1)]
    by (auto simp: junction_subject_def split: option.splits if_splits)
  with answers show ?thesis by simp
qed

lemma negation_sound: "is_negation c v \<Longrightarrow> answer_not c v p = Some (\<not> p)"
  by (cases p) (auto simp: is_negation_def)

section \<open>Predicates denote their intervals\<close>

lemma budget_less: "predicate_intervals c a subject env s e budget = Inr (is, b) \<Longrightarrow> b < budget"
  by (rule budget_decreases [OF spec [OF predicate_intervals_total]])

lemma predicate_intervals_cases:
  assumes "predicate_intervals c a subject env s e budget = Inr (is, b)"
  obtains
    (both) condition consequence fallback left b1 right where
      "single_if a e = Some (condition, consequence, fallback)" "tag_named a fallback ''False''"
      "predicate_intervals c a subject env s condition (budget - 1) = Inr (left, b1)"
      "predicate_intervals c a subject env s consequence b1 = Inr (right, b)" "is = intersection left right"
  | (either) condition consequence fallback left b1 right where
      "single_if a e = Some (condition, consequence, fallback)" "tag_named a consequence ''True''"
      "predicate_intervals c a subject env s condition (budget - 1) = Inr (left, b1)"
      "predicate_intervals c a subject env s fallback b1 = Inr (right, b)" "is = normalize (left @ right)"
  | (junction) shape l r left b1 right where
      "predicate_call_of c a e subject env = Inr (JunctionCall shape l r)"
      "predicate_intervals c a subject env s l (budget - 1) = Inr (left, b1)"
      "predicate_intervals c a subject env s r b1 = Inr (right, b)"
      "is = (case shape of AndJunction \<Rightarrow> intersection left right | OrJunction \<Rightarrow> normalize (left @ right))"
  | (comparison) "predicate_call_of c a e subject env = Inr (ComparisonCall is)"
  | (negation) inner accepted where
      "predicate_call_of c a e subject env = Inr (NegationCall inner)"
      "predicate_intervals c a subject env s inner (budget - 1) = Inr (accepted, b)" "is = complement accepted"
proof (cases "single_if a e")
  case (Some parts)
  obtain condition consequence fallback where parts: "(condition, consequence, fallback) = parts"
    by (cases parts) auto
  have b: "budget \<noteq> 0" using budget_less [OF assms] by simp
  obtain left b1 where left: "predicate_intervals c a subject env s condition (budget - 1) = Inr (left, b1)"
    using assms b Some parts [symmetric] unfolding predicate_intervals.simps [of c a subject env s e budget] by (auto simp: and_then_eq_Inr)
  have single: "single_if a e = Some (condition, consequence, fallback)"
    using Some parts by simp
  consider right where "tag_named a fallback ''False''" "is = intersection left right"
      "predicate_intervals c a subject env s consequence b1 = Inr (right, b)"
    | right where "tag_named a consequence ''True''" "is = normalize (left @ right)"
      "predicate_intervals c a subject env s fallback b1 = Inr (right, b)"
    using assms b single left
    unfolding predicate_intervals.simps [of c a subject env s e budget] by (auto simp: and_then_eq_Inr split: if_splits)
  then show ?thesis
  proof cases
    case 1
    show ?thesis by (rule both [OF single 1(1) left 1(3,2)])
  next
    case 2
    show ?thesis by (rule either [OF single 2(1) left 2(3,2)])
  qed
next
  case None
  have b: "budget \<noteq> 0" using budget_less [OF assms] by simp
  obtain call where call: "predicate_call_of c a e subject env = Inr call"
    using assms b None unfolding predicate_intervals.simps [of c a subject env s e budget] by (auto simp: and_then_eq_Inr)
  show ?thesis
  proof (cases call)
    case (JunctionCall shape l r)
    then obtain left b1 right where parts: "predicate_intervals c a subject env s l (budget - 1) = Inr (left, b1)"
      "predicate_intervals c a subject env s r b1 = Inr (right, b)"
      "is = (case shape of AndJunction \<Rightarrow> intersection left right | OrJunction \<Rightarrow> normalize (left @ right))"
      using assms b None call unfolding predicate_intervals.simps [of c a subject env s e budget] by (auto simp: and_then_eq_Inr)
    have "predicate_call_of c a e subject env = Inr (JunctionCall shape l r)"
      using JunctionCall call by simp
    from junction [OF this parts] show ?thesis .
  next
    case (ComparisonCall intervals)
    then have "is = intervals"
      using assms b None call unfolding predicate_intervals.simps [of c a subject env s e budget] by auto
    with ComparisonCall call have "predicate_call_of c a e subject env = Inr (ComparisonCall is)" by simp
    from comparison [OF this] show ?thesis .
  next
    case (NegationCall inner)
    then obtain accepted where parts: "predicate_intervals c a subject env s inner (budget - 1) = Inr (accepted, b)"
      "is = complement accepted"
      using assms b None call unfolding predicate_intervals.simps [of c a subject env s e budget] by (auto simp: and_then_eq_Inr)
    have "predicate_call_of c a e subject env = Inr (NegationCall inner)"
      using NegationCall call by simp
    from negation [OF this parts] show ?thesis .
  qed
qed

lemma predicate_call_cases:
  assumes "predicate_call_of c a e subject env = Inr call"
  obtains
    (junction) callee l r v shape where "application a e = Some (callee, [l, r])"
      "resolve c a callee subject env = Some v" "junction_of c v = Some shape" "call = JunctionCall shape l r"
  | (left_subject) callee l r v os k where "application a e = Some (callee, [l, r])"
      "resolve c a callee subject env = Some v" "comparison c v = Some os"
      "is_subject a l subject" "integer_witness c a r subject env = Some k"
      "call = ComparisonCall (comparison_intervals os k)"
  | (right_subject) callee l r v os k where "application a e = Some (callee, [l, r])"
      "resolve c a callee subject env = Some v" "comparison c v = Some os"
      "\<not> is_subject a l subject" "is_subject a r subject" "integer_witness c a l subject env = Some k"
      "call = ComparisonCall (comparison_intervals (mirror os) k)"
  | (negation) callee inner v where "application a e = Some (callee, [inner])"
      "resolve c a callee subject env = Some v" "is_negation c v" "call = NegationCall inner"
  using assms
  by (auto simp: predicate_call_of_def Let_def comparison_call_def
      split: option.splits list.splits if_splits prod.splits)

lemma witness_not_subject: "integer_witness c a e subject env = Some k \<Longrightarrow> \<not> is_subject a e subject"
  by (auto simp: integer_witness_def is_subject_def split: option.splits expression.splits if_splits)

lemma comparison_call_evaluates:
  assumes "faithful_context c" "predicate_call_of c a e subject env = Inr (ComparisonCall is)"
  shows "normal is \<and> evaluates c a subject env n e (member is n)"
  using assms(2)
proof (cases rule: predicate_call_cases)
  case (left_subject callee l r v os k)
  have "answer_int c v n k = Some (ordering_of (n < k) (n = k) \<in> os)"
    by (rule comparison_sound [OF assms(1) left_subject(3)])
  with left_subject witness_not_subject [of c a r subject env k] show ?thesis
    by (auto simp: comparison_intervals_normal operand_def intro!: integer_call)
next
  case (right_subject callee l r v os k)
  have "answer_int c v k n = Some (ordering_of (k < n) (k = n) \<in> os)"
    by (rule comparison_sound [OF assms(1) right_subject(3)])
  with right_subject show ?thesis
    by (auto simp: comparison_intervals_normal operand_def mirror_ordering intro!: integer_call)
qed auto

lemma predicate_evaluates:
  "faithful_context c \<Longrightarrow> predicate_intervals c a subject env s e budget = Inr (is, b) \<Longrightarrow>
     normal is \<and> (\<forall>n. evaluates c a subject env n e (member is n))"
proof (induction budget arbitrary: e "is" b rule: less_induct)
  case (less budget)
  note faithful = less.prems(1)
  have IH: "normal is' \<and> (\<forall>n. evaluates c a subject env n e' (member is' n))"
    if "predicate_intervals c a subject env s e' budget' = Inr (is', b')" "budget' < budget" for e' budget' is' b'
    using less.IH that faithful by blast
  have dec: "budget - 1 < budget" using budget_less [OF less.prems(2)] by simp
  from less.prems(2) show ?case
  proof (cases rule: predicate_intervals_cases)
    case (both condition consequence fallback left b1 right)
    have left: "normal left" "\<And>n. evaluates c a subject env n condition (member left n)"
      using IH [OF both(3) dec] by auto
    have "b1 < budget" using budget_less [OF both(3)] by simp
    then have right: "normal right" "\<And>n. evaluates c a subject env n consequence (member right n)"
      using IH [OF both(4)] by auto
    have "evaluates c a subject env n e (member left n \<and> member right n)" for n
      using left(2) [of n] right(2) [of n] taken [OF both(1)] not_taken [OF both(1) _ false_tag [OF both(2)]]
      by (cases "member left n") auto
    with left right both(5) show ?thesis by (simp add: normal_intersection member_intersection)
  next
    case (either condition consequence fallback left b1 right)
    have left: "\<And>n. evaluates c a subject env n condition (member left n)"
      using IH [OF either(3) dec] by auto
    have "b1 < budget" using budget_less [OF either(3)] by simp
    then have right: "\<And>n. evaluates c a subject env n fallback (member right n)"
      using IH [OF either(4)] by auto
    have "evaluates c a subject env n e (member left n \<or> member right n)" for n
      using left [of n] right [of n] taken [OF either(1) _ true_tag [OF either(2)]] not_taken [OF either(1)]
      by (cases "member left n") auto
    with either(5) show ?thesis by (simp add: normalize_normal)
  next
    case (junction shape l r left b1 right)
    have left: "normal left" "\<And>n. evaluates c a subject env n l (member left n)"
      using IH [OF junction(2) dec] by auto
    have "b1 < budget" using budget_less [OF junction(2)] by simp
    then have right: "normal right" "\<And>n. evaluates c a subject env n r (member right n)"
      using IH [OF junction(3)] by auto
    obtain callee v where call: "application a e = Some (callee, [l, r])"
      "resolve c a callee subject env = Some v" "junction_of c v = Some shape"
      using junction(1) by (cases rule: predicate_call_cases) auto
    have "evaluates c a subject env n e
        (case shape of AndJunction \<Rightarrow> member left n \<and> member right n | OrJunction \<Rightarrow> member left n \<or> member right n)" for n
      using boolean_call [OF call(1,2) left(2) right(2)] junction_sound [OF faithful call(3)] by blast
    with left right junction(4) show ?thesis
      by (cases shape) (simp_all add: normal_intersection member_intersection normalize_normal)
  next
    case comparison
    with comparison_call_evaluates [OF faithful] show ?thesis by blast
  next
    case (negation inner accepted)
    have accepted: "\<And>n. evaluates c a subject env n inner (member accepted n)"
      using IH [OF negation(2) dec] by auto
    obtain callee v where call: "application a e = Some (callee, [inner])"
      "resolve c a callee subject env = Some v" "is_negation c v"
      using negation(1) by (cases rule: predicate_call_cases) auto
    have "evaluates c a subject env n e (\<not> member accepted n)" for n
      using unary_call [OF call(1,2) accepted negation_sound [OF call(3)]] .
    with negation(3) show ?thesis by (simp add: complement_normal)
  qed
qed

text \<open>The evaluation of a body at an integer has at most one result.\<close>

lemma application_apply: "application a e = Some r \<Longrightarrow> \<exists>p. as_apply a e = Some p"
proof -
  assume r: "application a e = Some r"
  have fuel: "path_fuel = Suc artifact_reference_path_limit" by (simp add: path_fuel_def)
  show ?thesis
    using r unfolding application_def fuel by (cases "as_apply a e") (auto simp: Let_def)
qed

text \<open>Conditionals, tags, calls and operands are different expressions.\<close>

lemma expression_kinds:
  "single_if a e = Some x \<Longrightarrow> as_apply a e = None \<and> \<not> tag_named a e tag"
  "tag_named a e tag \<Longrightarrow> as_apply a e = None \<and> single_if a e = None \<and> (tag_named a e tag' \<longleftrightarrow> tag' = tag)"
  "as_apply a e = Some y \<Longrightarrow> single_if a e = None \<and> \<not> tag_named a e tag"
  by (cases "get_expression a e"; cases "the (get_expression a e)";
      auto simp: single_if_def as_apply_def tag_named_def split: list.splits option.splits)+

lemma operand_kind:
  "operand c a subject env n e = Some i \<Longrightarrow> as_apply a e = None \<and> single_if a e = None \<and> \<not> tag_named a e tag"
  by (cases "get_expression a e"; cases "the (get_expression a e)";
      auto simp: single_if_def as_apply_def operand_def is_subject_def integer_witness_def tag_named_def)

lemma if_no_call:
  assumes "single_if a e = Some x" shows "application a e = None" "\<not> tag_named a e tag"
  using application_apply [of a e] expression_kinds(1) [OF assms, of tag]
  by (cases "application a e"; simp)+

lemma tag_no_call:
  assumes "tag_named a e tag" shows "application a e = None" "single_if a e = None"
    "tag_named a e tag' \<longleftrightarrow> tag' = tag"
  using application_apply [of a e] expression_kinds(2) [OF assms, of tag']
  by (cases "application a e"; simp)+

lemma call_no_if:
  assumes "application a e = Some r" shows "single_if a e = None" "\<not> tag_named a e tag"
proof -
  obtain p where "as_apply a e = Some p" using application_apply [OF assms] ..
  from expression_kinds(3) [OF this, of tag] show "single_if a e = None" "\<not> tag_named a e tag" by simp_all
qed

lemma operand_no_value: "operand c a subject env n e = Some i \<Longrightarrow> \<not> evaluates c a subject env n e b"
proof
  assume operand: "operand c a subject env n e = Some i" and "evaluates c a subject env n e b"
  note kinds = operand_kind [OF operand, of "''True''"] operand_kind [OF operand, of "''False''"]
  have "application a e = None"
    using kinds(1) application_apply [of a e] by (cases "application a e") auto
  with \<open>evaluates c a subject env n e b\<close> kinds show False
    by (cases rule: evaluates.cases) simp_all
qed

text \<open>Inversion of an evaluation by the kind of the expression.\<close>

lemma evaluates_if:
  assumes "single_if a e = Some (condition, consequence, fallback)" "evaluates c a subject env n e b"
  shows "evaluates c a subject env n condition True \<and> evaluates c a subject env n consequence b \<or>
    evaluates c a subject env n condition False \<and> evaluates c a subject env n fallback b"
  using assms(2) if_no_call [OF assms(1)] assms(1) by (cases rule: evaluates.cases) simp_all

lemma evaluates_tag:
  assumes "tag_named a e tag" "evaluates c a subject env n e b"
  shows "b \<longleftrightarrow> tag = ''True''"
  using assms(2) tag_no_call [OF assms(1)] by (cases rule: evaluates.cases) auto

lemma evaluates_binary:
  assumes "application a e = Some (callee, [l, r])" "resolve c a callee subject env = Some v"
    and "evaluates c a subject env n e b"
  shows "(\<exists>p q. evaluates c a subject env n l p \<and> evaluates c a subject env n r q \<and> answer_bool c v p q = Some b) \<or>
    (\<exists>i j. operand c a subject env n l = Some i \<and> operand c a subject env n r = Some j \<and> answer_int c v i j = Some b)"
  using assms(3) call_no_if [OF assms(1)] assms(1,2) by (cases rule: evaluates.cases) auto

lemma evaluates_unary:
  assumes "application a e = Some (callee, [inner])" "resolve c a callee subject env = Some v"
    and "evaluates c a subject env n e b"
  shows "\<exists>p. evaluates c a subject env n inner p \<and> answer_not c v p = Some b"
  using assms(3) call_no_if [OF assms(1)] assms(1,2) by (cases rule: evaluates.cases) auto

lemma evaluates_unique:
  "evaluates c a subject env n e b \<Longrightarrow> evaluates c a subject env n e b' \<Longrightarrow> b' = b"
proof (induction arbitrary: b' rule: evaluates.induct)
  case (taken e condition consequence fallback b)
  with evaluates_if [OF taken.hyps(1) taken.prems] show ?case by blast
next
  case (not_taken e condition consequence fallback b)
  with evaluates_if [OF not_taken.hyps(1) not_taken.prems] show ?case by blast
next
  case (true_tag e)
  with evaluates_tag [OF true_tag.hyps true_tag.prems] show ?case by simp
next
  case (false_tag e)
  with evaluates_tag [OF false_tag.hyps false_tag.prems] show ?case by simp
next
  case (boolean_call e callee l r v p q b)
  from evaluates_binary [OF boolean_call.hyps(1,2) boolean_call.prems] show ?case
  proof (elim disjE exE conjE)
    fix p' q' assume "evaluates c a subject env n l p'" "evaluates c a subject env n r q'" "answer_bool c v p' q' = Some b'"
    with boolean_call.IH boolean_call.hyps(5) show ?thesis by fastforce
  next
    fix i assume "operand c a subject env n l = Some i"
    from operand_no_value [OF this] boolean_call.hyps(3) show ?thesis by simp
  qed
next
  case (integer_call e callee l r v i j b)
  from evaluates_binary [OF integer_call.hyps(1,2) integer_call.prems] show ?case
  proof (elim disjE exE conjE)
    fix p' assume "evaluates c a subject env n l p'"
    with operand_no_value [OF integer_call.hyps(3)] show ?thesis by blast
  next
    fix i' j' assume "operand c a subject env n l = Some i'" "operand c a subject env n r = Some j'"
      "answer_int c v i' j' = Some b'"
    with integer_call.hyps show ?thesis by simp
  qed
next
  case (unary_call e callee inner v p b)
  with evaluates_unary [OF unary_call.hyps(1,2) unary_call.prems] show ?case by fastforce
qed

section \<open>Base types\<close>

text \<open>
  The loop collects the integers of the pending values; what the visited set skips has
  been collected or is pending already.
\<close>

definition collected :: "('env, 'x) value \<Rightarrow> ('env, 'x) value set \<Rightarrow> interval list \<Rightarrow> int \<Rightarrow> bool" where
  "collected w vs intervals n =
     (case w of
        VExtended inner _ \<Rightarrow> inner \<in> vs
      | VUnion members \<Rightarrow> set members \<subseteq> vs
      | _ \<Rightarrow> denotes w n \<longrightarrow> member intervals n)"

lemma collected_mono:
  "collected w vs intervals n \<Longrightarrow> vs \<subseteq> vs' \<Longrightarrow> (member intervals n \<Longrightarrow> member intervals' n) \<Longrightarrow>
     collected w vs' intervals' n"
  by (cases w) (auto simp: collected_def)

lemma collected_closed:
  "(\<And>w. w \<in> vs \<Longrightarrow> collected w vs intervals n) \<Longrightarrow> v \<in> vs \<Longrightarrow> denotes v n \<Longrightarrow> member intervals n"
proof (induction v)
  case (VUnion members)
  then obtain w where "w \<in> set members" "denotes w n" by auto
  with VUnion show ?case by (fastforce simp: collected_def)
next
  case (VExtended inner members)
  then show ?case by (fastforce simp: collected_def)
qed (fastforce simp: collected_def)+

lemma bound_Inr:
  "bound s v = Inr k \<longleftrightarrow> v = VUnbounded \<and> k = None \<or> (\<exists>i. v = VInt i \<and> k = Some i)"
  by (cases v) (auto simp: bound_def)

lemma inside_bounds:
  "bound s lo = Inr l \<Longrightarrow> bound s hi = Inr h \<Longrightarrow> inside \<lparr>low = l, high = h\<rparr> n \<longleftrightarrow> denotes (VRange lo hi d) n"
  by (auto simp: bound_Inr inside_def)

text \<open>The steps of the loop that do not fail.\<close>

lemma base_loop_cases:
  assumes "base_loop same_address s seen (v # pending) intervals = Inr is"
  obtains (skip) "same_address seen v" "base_loop same_address s seen pending intervals = Inr is"
  | (extended) inner members where "v = VExtended inner members"
      "base_loop same_address s (v # seen) (inner # pending) intervals = Inr is"
  | (union) members where "v = VUnion members"
      "base_loop same_address s (v # seen) (members @ pending) intervals = Inr is"
  | (leaf) i where "\<And>n. inside i n \<longleftrightarrow> denotes v n" "\<And>vs is n. collected v vs is n \<longleftrightarrow> (denotes v n \<longrightarrow> member is n)"
      "base_loop same_address s (v # seen) pending (intervals @ [i]) = Inr is"
proof (cases "same_address seen v")
  case True
  with assms skip show ?thesis by simp
next
  case False
  show ?thesis
  proof (cases v)
    case (VInt k)
    with assms False
    have "base_loop same_address s (v # seen) pending (intervals @ [\<lparr>low = Some k, high = Some k\<rparr>]) = Inr is"
      by simp
    then show ?thesis
      by (rule leaf [rotated 2]) (auto simp: VInt inside_def collected_def)
  next
    case (VRange lo hi d)
    with assms False obtain l h where lh: "bound s lo = Inr l" "bound s hi = Inr h"
      "base_loop same_address s (v # seen) pending (intervals @ [\<lparr>low = l, high = h\<rparr>]) = Inr is"
      by (auto simp: and_then_eq_Inr split: if_splits)
    have inside: "\<And>n. inside \<lparr>low = l, high = h\<rparr> n \<longleftrightarrow> denotes v n"
      unfolding VRange by (rule inside_bounds [OF lh(1,2)])
    show ?thesis
      by (rule leaf [OF inside _ lh(3)]) (simp add: VRange collected_def)
  next
    case (VUnion members)
    with assms False union show ?thesis by simp
  next
    case (VExtended inner members)
    with assms False extended show ?thesis by simp
  qed (use assms False in simp_all)
qed

lemma base_loop_covers:
  assumes address: "\<And>seen v. same_address seen v \<Longrightarrow> v \<in> set seen"
  shows "base_loop same_address s seen pending intervals = Inr is \<Longrightarrow>
     (\<And>w. w \<in> set seen \<Longrightarrow> collected w (set seen \<union> set pending) intervals n) \<Longrightarrow>
     v \<in> set seen \<union> set pending \<Longrightarrow> denotes v n \<Longrightarrow> member is n"
proof (induction "size_list size pending" arbitrary: seen pending intervals rule: less_induct)
  case less
  note inv = less.prems(2)
  show ?case
  proof (cases pending)
    case Nil
    with less.prems collected_closed [of "set seen" intervals n v] show ?thesis by simp
  next
    case (Cons x rest)
    with less.prems(1) have "base_loop same_address s seen (x # rest) intervals = Inr is" by simp
    then show ?thesis
    proof (cases rule: base_loop_cases)
      case skip
      have "x \<in> set seen" by (rule address [OF skip(1)])
      then have "set seen \<union> set pending = set seen \<union> set rest" using Cons by auto
      with less.hyps [OF _ skip(2)] inv less.prems(3,4) Cons show ?thesis by auto
    next
      case (extended inner members)
      have "collected w (set (x # seen) \<union> set (inner # rest)) intervals n" if "w \<in> set (x # seen)" for w
        using that inv [of w] Cons extended(1)
        by (auto intro: collected_mono simp: collected_def [of "VExtended inner members"])
      from less.hyps [OF _ extended(2) this] less.prems(3,4) Cons extended(1) show ?thesis by auto
    next
      case (union members)
      have "collected w (set (x # seen) \<union> set (members @ rest)) intervals n" if "w \<in> set (x # seen)" for w
        using that inv [of w] Cons union(1)
        by (auto intro: collected_mono simp: collected_def [of "VUnion members"])
      from less.hyps [OF _ union(2) this] less.prems(3,4) Cons union(1) show ?thesis by auto
    next
      case (leaf i)
      have "collected w (set (x # seen) \<union> set rest) (intervals @ [i]) n" if "w \<in> set (x # seen)" for w
        using that inv [of w] Cons leaf(1,2) by (auto intro: collected_mono)
      from less.hyps [OF _ leaf(3) this] less.prems(3,4) Cons show ?thesis by auto
    qed
  qed
qed

lemma base_loop_within:
  "base_loop same_address s seen pending intervals = Inr is \<Longrightarrow> member is n \<Longrightarrow>
     member intervals n \<or> (\<exists>v \<in> set pending. denotes v n)"
proof (induction "size_list size pending" arbitrary: seen pending intervals rule: less_induct)
  case less
  show ?case
  proof (cases pending)
    case Nil
    with less.prems show ?thesis by simp
  next
    case (Cons x rest)
    with less.prems(1) have "base_loop same_address s seen (x # rest) intervals = Inr is" by simp
    then show ?thesis
    proof (cases rule: base_loop_cases)
      case skip
      with less.hyps [OF _ skip(2)] less.prems(2) Cons show ?thesis by auto
    next
      case (extended inner members)
      with less.hyps [OF _ extended(2)] less.prems(2) Cons show ?thesis by auto
    next
      case (union members)
      with less.hyps [OF _ union(2)] less.prems(2) Cons show ?thesis by auto
    next
      case (leaf i)
      with less.hyps [OF _ leaf(3)] less.prems(2) Cons show ?thesis by auto
    qed
  qed
qed

lemma base_intervals_member:
  assumes "\<And>seen v. same_address seen v \<Longrightarrow> v \<in> set seen" and "base_intervals same_address base s = Inr is"
  shows "normal is \<and> (member is n \<longleftrightarrow> denotes base n)"
proof -
  obtain raw where raw: "base_loop same_address s [] [base] [] = Inr raw" "is = normalize raw"
    using assms(2) by (auto simp: base_intervals_def and_then_eq_Inr)
  have "member raw n \<longleftrightarrow> denotes base n"
    using base_loop_covers [OF assms(1) raw(1), where n = n and v = base] base_loop_within [OF raw(1), of n] by auto
  with raw(2) show ?thesis by (simp add: normalize_normal)
qed

section \<open>Results\<close>

lemma denotes_interval_as_value:
  assumes "in_i64 n" shows "denotes (interval_as_value i) n \<longleftrightarrow> inside i n"
  using assms
  by (cases "low i"; cases "high i")
    (auto simp: interval_as_value_def inside_def Let_def in_i64_def minimum_i64_def maximum_i64_def push_bit_eq_mult)

lemma denotes_interval_as_value_clipped:
  assumes "nonempty_interval i" "\<And>k. inside i k \<Longrightarrow> in_i64 k" "low i \<noteq> None" "high i \<noteq> None"
  shows "denotes (interval_as_value i) n \<longleftrightarrow> inside i n"
  using assms by (auto simp: interval_as_value_def inside_def Let_def)

lemma denotes_interval_value:
  fixes v :: "('env, 'x) value"
  assumes "interval_value is = Some v" "\<And>i. i \<in> set is \<Longrightarrow> low i \<noteq> None \<and> high i \<noteq> None"
  shows "denotes v n \<longleftrightarrow> member is n"
proof -
  have "denotes (interval_as_value i :: ('env, 'x) value) n \<longleftrightarrow> inside i n" if "i \<in> set is" for i
    using assms(2) [OF that] by (auto simp: interval_as_value_def inside_def Let_def)
  then have "(\<exists>w \<in> set (map interval_as_value is :: ('env, 'x) value list). denotes w n) \<longleftrightarrow> member is n"
    by (auto simp: member_def)
  moreover have "denotes v n \<longleftrightarrow> (\<exists>w \<in> set (map interval_as_value is :: ('env, 'x) value list). denotes w n)"
    using assms(1) by (auto simp: interval_value_def split: list.splits if_splits)
  ultimately show ?thesis by simp
qed

lemma denotes_preserve_extensions [simp]: "denotes (preserve_extensions base v) n \<longleftrightarrow> denotes v n"
  by (induction base v rule: preserve_extensions.induct) auto

lemma bounded_overlap:
  "low j \<noteq> None \<Longrightarrow> high j \<noteq> None \<Longrightarrow> low (overlap i j) \<noteq> None \<and> high (overlap i j) \<noteq> None"
  "low j \<noteq> None \<Longrightarrow> high j \<noteq> None \<Longrightarrow> low (overlap j i) \<noteq> None \<and> high (overlap j i) \<noteq> None"
  by (cases "low i"; cases "high i"; auto simp: overlap_def)+

lemma bounded_intersection:
  assumes "(\<forall>j \<in> set rs. low j \<noteq> None \<and> high j \<noteq> None) \<or> (\<forall>j \<in> set ls. low j \<noteq> None \<and> high j \<noteq> None)"
    and "i \<in> set (intersection ls rs)"
  shows "low i \<noteq> None \<and> high i \<noteq> None"
proof -
  obtain l r where "l \<in> set ls" "r \<in> set rs" "i = overlap l r"
    using subsetD [OF intersection_within assms(2)] by (auto simp: overlaps_of_def)
  with assms(1) bounded_overlap [of r l] bounded_overlap [of l r] show ?thesis by blast
qed

lemma refine_steps:
  assumes "refine same_address c base predicate s = r"
    and "base_intervals same_address base s = Inr unclipped" "predicate = VClosure path parameter body env None"
    and "modules c path = Some m" "pattern_name (module_arena m) parameter = Some subject"
    and "predicate_intervals c (module_arena m) subject env (expression_span_or (module_arena m) body) body
      max_predicate_nodes = Inr (accepted, left)"
  shows "r = (let refined = intersection (intersection unclipped runtime_integer_domain) accepted
    in if refined = [] then
         Inl (Refused (diagnostic_at (new_diagnostic ''BLOT_EMPTY_REFINEMENT''
           ''The predicate accepts no value from its base integer type.''
           (expression_span_or (module_arena m) body)) path))
       else case interval_value refined of
         None \<Rightarrow> Inl NoIntervalPanic | Some v \<Rightarrow> Inr (preserve_extensions base v))"
  using assms(1) unfolding refine_def assms(2-6)
  by (simp add: Let_def assms(4,5) at_module_def assms(6) and_then_def)

section \<open>Enough fuel\<close>

lemma reference_unfolds:
  assumes "acceptable (reference_graph a)" "get_expression a e = Some x"
  obtains u where "unfolds (reference_graph a) u" "root u = target_node a (ToExpression e)" "height u < path_fuel"
proof (cases e)
  case (ExpressionId i)
  then have "target_node a (ToExpression e) < length (reference_graph a)"
    using assms(2) by (simp add: node_count_def split: if_splits)
  with assms(1) that show ?thesis
    by (fastforce simp: acceptable_def bounded_unfolding_def path_fuel_def)
qed

lemma child_height: "u \<in> set us \<Longrightarrow> height u < height (Unfold n us)"
proof -
  have le: "k \<in> set ks \<Longrightarrow> k \<le> fold max ks m" "m \<le> fold max ks m" for k m :: nat and ks
    by (induction ks arbitrary: m) (auto intro: order.trans [OF max.cobounded2] order.trans [OF max.cobounded1])
  assume "u \<in> set us"
  then show ?thesis using le(1) [of "height u + 1" "map (\<lambda>u. height u + 1) us" 0] by auto
qed

text \<open>A referenced expression has a lower unfolding.\<close>

lemma reference_descends:
  assumes "unfolds (reference_graph a) u" "root u = target_node a (ToExpression e)"
    and "get_expression a e = Some x" "ToExpression f \<in> set (expression_references x)"
  obtains u' where "unfolds (reference_graph a) u'" "root u' = target_node a (ToExpression f)" "height u' < height u"
proof -
  obtain n us where u: "u = Unfold n us" by (cases u)
  obtain i where i: "e = ExpressionId i" by (cases e)
  have "unat i < length (expressions a)" "x = expressions a ! unat i"
    using assms(3) i by (auto split: if_splits)
  then have "reference_graph a ! n = map (target_node a) (expression_references x)"
    using assms(2) u i by (simp add: reference_graph_def node_references_def nth_append)
  with assms(1) u have "map root us = map (target_node a) (expression_references x)" by simp
  with assms(4) have "target_node a (ToExpression f) \<in> set (map root us)" by simp
  then obtain u' where u': "u' \<in> set us" "root u' = target_node a (ToExpression f)" by auto
  show ?thesis
    by (rule that [OF _ u'(2)]) (use assms(1) u u'(1) child_height in auto)
qed

lemma application_loop_stable:
  assumes "unfolds (reference_graph a) u" "root u = target_node a (ToExpression e)" "height u < k" "height u < k'"
  shows "application_loop k a e arguments = application_loop k' a e arguments"
  using assms
proof (induction k arbitrary: k' u e arguments)
  case (Suc k)
  then obtain j where k': "k' = Suc j" by (cases k') auto
  show ?case
  proof (cases "as_apply a e")
    case (Some p)
    obtain f x where p: "p = (f, x)" by force
    obtain s where call: "get_expression a e = Some (EApply f x s)"
      using Some p by (auto simp: as_apply_def split: option.splits expression.splits)
    obtain u' where u': "unfolds (reference_graph a) u'" "root u' = target_node a (ToExpression f)"
      "height u' < height u"
      by (rule reference_descends [OF Suc.prems(1,2) call, of f]) auto
    have "application_loop k a f (x # arguments) = application_loop j a f (x # arguments)"
      by (rule Suc.IH [OF u'(1,2)]) (use u'(3) Suc.prems(3,4) k' in simp_all)
    with Some p k' show ?thesis by simp
  qed (simp add: k')
qed simp

lemma resolve_loop_stable:
  assumes "unfolds (reference_graph a) u" "root u = target_node a (ToExpression e)" "height u < k" "height u < k'"
  shows "resolve_loop k look a e subject env = resolve_loop k' look a e subject env"
  using assms
proof (induction k arbitrary: k' u e)
  case (Suc k)
  then obtain j where k': "k' = Suc j" by (cases k') auto
  show ?case
  proof (cases "\<exists>t name s. get_expression a e = Some (EField t name s)")
    case True
    then obtain t name s where field: "get_expression a e = Some (EField t name s)" by blast
    obtain u' where u': "unfolds (reference_graph a) u'" "root u' = target_node a (ToExpression t)"
      "height u' < height u"
      by (rule reference_descends [OF Suc.prems(1,2) field, of t]) auto
    have "resolve_loop k look a t subject env = resolve_loop j look a t subject env"
      by (rule Suc.IH [OF u'(1,2)]) (use u'(3) Suc.prems(3,4) k' in simp_all)
    with field k' show ?thesis by simp
  qed (auto simp: k' split: option.splits expression.splits)
qed simp

section \<open>Properties\<close>

lemma refine_nonempty:
  "interval_value refined = None \<Longrightarrow> refined = []"
  by (cases refined) (auto simp: interval_value_def)


text \<open>A context with one comparison, and the predicate \<open>\<lambda>x. x < 10\<close>.\<close>

definition less_value :: "(unit, unit) value" where
  "less_value = VPrimitive ''@int.lt'' 2 []"

definition small_module :: ast_module where
  "small_module =
     \<lparr>module_parameter = None, module_declarations = [], module_result = ExpressionId 4,
      module_result_effects = PureResult, module_span = sample_span,
      module_arena =
        \<lparr>expressions = [EVar ''<'' sample_span, EVar ''x'' sample_span, EInt 10 sample_span,
                        EApply (ExpressionId 0) (ExpressionId 1) sample_span,
                        EApply (ExpressionId 3) (ExpressionId 2) sample_span],
         patterns = [NamePattern ''x'' NoQualifier sample_span], declarations = [],
         synthetic_expressions = {}, synthetic_closure_bodies = {},
         synthetic_runtime_type_expressions = {}, synthetic_static_closure_bodies = {}\<rparr>\<rparr>"

definition small_context :: "(unit, unit) recogniser" where
  "small_context =
     \<lparr>modules = (\<lambda>path. if path = ''m'' then Some small_module else None),
      lookup = (\<lambda>_ name. if name = ''<'' then Some less_value else None),
      answer_bool = (\<lambda>_ _ _. None),
      answer_int = (\<lambda>v i j. if v = less_value then Some (i < j)
        else map_option (\<lambda>os. ordering_of (i < j) (i = j) \<in> os) (resolved_comparison v)),
      answer_not = (\<lambda>_ _. None), decorated_integer = None, decorated_boolean = VUnbounded,
      factored = (\<lambda>v. v = less_value)\<rparr>"

lemma small_context_faithful: "faithful_context small_context"
  by (auto simp: faithful_context_def small_context_def less_value_def resolved_comparison_def ordering_of_def
      split: if_splits)

lemma small_base:
  "base_intervals (\<lambda>_ _. False) (VUnion [VInt 3, VRange (VInt 8) VUnbounded None] :: (unit, unit) value) sample_span =
     Inr [\<lparr>low = Some 3, high = Some 3\<rparr>, \<lparr>low = Some 8, high = None\<rparr>]"
  by code_simp

lemma small_predicate:
  "modules small_context ''m'' = Some small_module"
  "pattern_name (module_arena small_module) (PatternId 0) = Some ''x''"
  "predicate_intervals small_context (module_arena small_module) ''x'' ()
     (expression_span_or (module_arena small_module) (ExpressionId 4)) (ExpressionId 4) max_predicate_nodes =
   Inr ([\<lparr>low = None, high = Some 9\<rparr>], 255)"
  by code_simp+

lemma small_refined:
  "refine (\<lambda>_ _. False) small_context (VUnion [VInt 3, VRange (VInt 8) VUnbounded None])
     (VClosure ''m'' (PatternId 0) (ExpressionId 4) () None) sample_span =
   Inr (VUnion [VInt 3, VRange (VInt 8) (VInt 9) (Some IntDomain)])"
  by code_simp


text \<open>
  Refinement answers every input with a value or a diagnostic: the interval list it hands to
  \<open>interval_value\<close>, whose \<open>expect\<close> panics on none, is never empty.
\<close>

theorem refine_never_panics: "refine same_address c base predicate s \<noteq> Inl NoIntervalPanic"
proof
  assume panic: "refine same_address c base predicate s = Inl NoIntervalPanic"
  obtain unclipped where base: "base_intervals same_address base s = Inr unclipped"
    using panic by (cases "base_intervals same_address base s") (auto simp: refine_def)
  obtain path parameter body env where closure: "predicate = VClosure path parameter body env None"
    using panic unfolding refine_def base by (cases predicate) (auto split: option.splits)
  obtain m where m: "modules c path = Some m"
    using panic unfolding refine_def base closure by (cases "modules c path") auto
  obtain subject where subject: "pattern_name (module_arena m) parameter = Some subject"
    using panic m unfolding refine_def base closure
    by (cases "pattern_name (module_arena m) parameter") (auto simp: Let_def)
  obtain accepted left where "predicate_intervals c (module_arena m) subject env
      (expression_span_or (module_arena m) body) body max_predicate_nodes = Inr (accepted, left)"
    using panic m subject unfolding refine_def base closure
    by (cases "predicate_intervals c (module_arena m) subject env
      (expression_span_or (module_arena m) body) body max_predicate_nodes") (auto simp: Let_def at_module_def)
  from refine_steps [OF panic base closure m subject this] show False
    by (auto simp: Let_def dest: refine_nonempty split: if_splits option.splits)
qed

text \<open>
  The fuel of the two loops that follow references is enough on a validated module: with more
  they answer the same, so they answer as the unbounded loops of the code.
\<close>

theorem recognition_fuel_enough:
  assumes "validate_module m = Inr ()" and "get_expression (module_arena m) e = Some x"
  shows "application_loop (path_fuel + extra) (module_arena m) e [] = application_loop path_fuel (module_arena m) e [] \<and>
    resolve_loop (path_fuel + extra) look (module_arena m) e subject env =
      resolve_loop path_fuel look (module_arena m) e subject env"
proof -
  have "acceptable (reference_graph (module_arena m))"
    using assms(1) by (simp add: validate_module_Inr well_formed_module_def)
  then obtain u where "unfolds (reference_graph (module_arena m)) u"
    "root u = target_node (module_arena m) (ToExpression e)" "height u < path_fuel"
    using reference_unfolds assms(2) by blast
  then show ?thesis
    using application_loop_stable resolve_loop_stable by (metis trans_less_add1)
qed

theorem recognition_fuel_enough_witness:
  "application_loop (path_fuel + 1) (module_arena sample_module) (ExpressionId 2) [] =
   application_loop path_fuel (module_arena sample_module) (ExpressionId 2) []"
proof -
  have "get_expression (module_arena sample_module) (ExpressionId 2) =
      Some (EApply (ExpressionId 0) (ExpressionId 1) sample_span)"
    by (simp add: sample_module_def)
  from recognition_fuel_enough [OF sample_module_valid this, of 1] show ?thesis by (rule conjunct1)
qed

end
