(* ===== verification/QCore.thy ===== *)
theory QCore
  imports BlotPrelude "HOL-Library.Code_Target_Nat"
begin

text \<open>
  The quantitative core: the node types of \<open>compiler/src/qcore_generated.rs\<close> with their tags,
  and the grade arithmetic of \<open>compiler/src/qcore.rs\<close>. A grade is an interval of use counts;
  what each operation computes is stated of the counts it admits.
\<close>

section \<open>Handles and keys\<close>

datatype value_id = ValueId u32
datatype computation_id = ComputationId u32
datatype effect_row_id = EffectRowId u32
datatype grade_id = GradeId u32
datatype proof_id = ProofId u32
datatype source_origin_id = SourceOriginId u32
datatype definition_key = DefinitionKey string
datatype semantic_key = SemanticKey string

definition qcore_schema_version :: u32 where "qcore_schema_version = 5"

section \<open>Nodes\<close>

datatype universe = TypeUniverse u32 | Prop

datatype universe_tag = TypeUniverseTag | PropTag

fun universe_tag_of :: "universe \<Rightarrow> universe_tag" where
  "universe_tag_of (TypeUniverse _) = TypeUniverseTag"
| "universe_tag_of Prop = PropTag"

datatype grade_upper_bound = Finite u32 | Unbounded

datatype grade_upper_bound_tag = FiniteTag | UnboundedTag

fun grade_upper_bound_tag_of :: "grade_upper_bound \<Rightarrow> grade_upper_bound_tag" where
  "grade_upper_bound_tag_of (Finite _) = FiniteTag"
| "grade_upper_bound_tag_of Unbounded = UnboundedTag"

datatype effect_row = EmptyRow | VariableRow u32 | ExtendRow semantic_key effect_row_id

datatype effect_row_tag = EmptyRowTag | VariableRowTag | ExtendRowTag

fun effect_row_tag_of :: "effect_row \<Rightarrow> effect_row_tag" where
  "effect_row_tag_of EmptyRow = EmptyRowTag"
| "effect_row_tag_of (VariableRow _) = VariableRowTag"
| "effect_row_tag_of (ExtendRow _ _) = ExtendRowTag"

datatype range_domain = IntegerDomain | TextDomain | Float64Domain | Float32Domain

datatype scalar_bound = UnboundedScalar | IntegerScalar string | TextScalar string

datatype scalar_bound_tag = UnboundedScalarTag | IntegerScalarTag | TextScalarTag

fun scalar_bound_tag_of :: "scalar_bound \<Rightarrow> scalar_bound_tag" where
  "scalar_bound_tag_of UnboundedScalar = UnboundedScalarTag"
| "scalar_bound_tag_of (IntegerScalar _) = IntegerScalarTag"
| "scalar_bound_tag_of (TextScalar _) = TextScalarTag"

text \<open>\<open>Value\<close>, with the fields in the order of the declaration.\<close>

datatype qvalue =
  BoundVariable u32
| GlobalDefinition definition_key semantic_key
| UniverseValue universe
| DependentPi value_id value_id effect_row_id grade_id
| DependentSigma value_id value_id
| LambdaValue computation_id
| PairValue value_id value_id
| FirstProjection value_id
| SecondProjection value_id
| ThunkValue computation_id
| EffectRowValue effect_row_id
| IntervalGrade grade_id
| ProofValue proof_id value_id
| StructuralRigid u32
| StructuralForall "u32 list" value_id
| StructuralRange range_domain scalar_bound scalar_bound
| StructuralUnit
| StructuralFunction bool value_id value_id value_id
| StructuralRecord "string list" "value_id list"
| StructuralRecordUpdate value_id "string list" "value_id list"
| StructuralArray value_id
| StructuralRegion value_id
| StructuralScratch value_id
| StructuralVariant "string list" "value_id list" bool
| StructuralEffects "string list"
| StructuralOpenEffects "string list" value_id
| StructuralUnion "value_id list"
| StructuralOpaque string
| StructuralTop
| StructuralBottom
| StructuralQualified value_id "string list" "value_id list" "value_id list"
| StructuralResource string value_id

text \<open>\<open>ValueTag\<close> is its discriminant, a \<open>u8\<close>.\<close>

datatype value_tag = ValueTag u8

fun value_tag_of :: "qvalue \<Rightarrow> value_tag" where
  "value_tag_of (BoundVariable _) = ValueTag 0"
| "value_tag_of (GlobalDefinition _ _) = ValueTag 1"
| "value_tag_of (UniverseValue _) = ValueTag 2"
| "value_tag_of (DependentPi _ _ _ _) = ValueTag 3"
| "value_tag_of (DependentSigma _ _) = ValueTag 4"
| "value_tag_of (LambdaValue _) = ValueTag 5"
| "value_tag_of (PairValue _ _) = ValueTag 6"
| "value_tag_of (FirstProjection _) = ValueTag 7"
| "value_tag_of (SecondProjection _) = ValueTag 8"
| "value_tag_of (ThunkValue _) = ValueTag 9"
| "value_tag_of (EffectRowValue _) = ValueTag 10"
| "value_tag_of (IntervalGrade _) = ValueTag 11"
| "value_tag_of (ProofValue _ _) = ValueTag 12"
| "value_tag_of (StructuralRigid _) = ValueTag 13"
| "value_tag_of (StructuralForall _ _) = ValueTag 14"
| "value_tag_of (StructuralRange _ _ _) = ValueTag 15"
| "value_tag_of StructuralUnit = ValueTag 16"
| "value_tag_of (StructuralFunction _ _ _ _) = ValueTag 17"
| "value_tag_of (StructuralRecord _ _) = ValueTag 18"
| "value_tag_of (StructuralRecordUpdate _ _ _) = ValueTag 19"
| "value_tag_of (StructuralArray _) = ValueTag 20"
| "value_tag_of (StructuralRegion _) = ValueTag 21"
| "value_tag_of (StructuralScratch _) = ValueTag 22"
| "value_tag_of (StructuralVariant _ _ _) = ValueTag 23"
| "value_tag_of (StructuralEffects _) = ValueTag 24"
| "value_tag_of (StructuralOpenEffects _ _) = ValueTag 25"
| "value_tag_of (StructuralUnion _) = ValueTag 26"
| "value_tag_of (StructuralOpaque _) = ValueTag 27"
| "value_tag_of StructuralTop = ValueTag 28"
| "value_tag_of StructuralBottom = ValueTag 29"
| "value_tag_of (StructuralQualified _ _ _ _) = ValueTag 30"
| "value_tag_of (StructuralResource _ _) = ValueTag 31"

datatype qcomputation =
  ReturnValue value_id
| LetValue value_id computation_id
| BindComputation computation_id computation_id
| ApplyComputation value_id value_id
| ForceComputation value_id
| PerformComputation semantic_key semantic_key value_id
| HandleComputation semantic_key computation_id value_id

datatype computation_tag = ComputationTag u8

fun computation_tag_of :: "qcomputation \<Rightarrow> computation_tag" where
  "computation_tag_of (ReturnValue _) = ComputationTag 0"
| "computation_tag_of (LetValue _ _) = ComputationTag 1"
| "computation_tag_of (BindComputation _ _) = ComputationTag 2"
| "computation_tag_of (ApplyComputation _ _) = ComputationTag 3"
| "computation_tag_of (ForceComputation _) = ComputationTag 4"
| "computation_tag_of (PerformComputation _ _ _) = ComputationTag 5"
| "computation_tag_of (HandleComputation _ _ _) = ComputationTag 6"

datatype definition_body =
  ValueBody value_id value_id
| ComputationBody computation_id value_id effect_row_id

datatype definition_body_tag = ValueBodyTag | ComputationBodyTag

fun definition_body_tag_of :: "definition_body \<Rightarrow> definition_body_tag" where
  "definition_body_tag_of (ValueBody _ _) = ValueBodyTag"
| "definition_body_tag_of (ComputationBody _ _ _) = ComputationBodyTag"

section \<open>Records\<close>

record source_origin =
  origin_source :: semantic_key
  origin_start :: u32
  origin_end :: u32

record definition_reference =
  reference_definition :: definition_key
  reference_semantics :: semantic_key
  reference_origin :: source_origin_id

record grade_interval =
  grade_lower :: u32
  grade_upper :: grade_upper_bound

record proof_reference =
  proof_slot :: proof_id
  proof_proposition :: value_id
  proof_origin :: source_origin_id

record value_node =
  value_origin :: source_origin_id
  value_term :: qvalue

record computation_node =
  computation_origin :: source_origin_id
  computation_term :: qcomputation

record effect_row_node =
  effect_row_origin :: source_origin_id
  row_of :: effect_row

record grade_node =
  grade_origin :: source_origin_id
  interval_of :: grade_interval

record qdefinition =
  definition_reference_of :: definition_reference
  definition_body_of :: definition_body

record qarena =
  arena_origins :: "source_origin list"
  arena_values :: "value_node list"
  arena_computations :: "computation_node list"
  arena_effect_rows :: "effect_row_node list"
  arena_grades :: "grade_node list"
  arena_proofs :: "proof_reference list"

record qmodule =
  schema_version :: u32
  qmodule_key :: semantic_key
  effect_parameter_count :: u32
  qmodule_imports :: "definition_reference list"
  qmodule_definitions :: "qdefinition list"
  qmodule_arena :: qarena

section \<open>Grades\<close>

datatype grade_operation = GradeAddition | GradeMultiplication

datatype grade_arithmetic_error = InvalidInterval grade_interval | GradeOverflow grade_operation

definition validate_grade_interval :: "grade_interval \<Rightarrow> (grade_arithmetic_error, unit) result" where
  "validate_grade_interval g =
     (case grade_upper g of
        Finite v \<Rightarrow> if grade_lower g > v then Inl (InvalidInterval g) else Inr ()
      | Unbounded \<Rightarrow> Inr ())"

fun upper_leq :: "grade_upper_bound \<Rightarrow> grade_upper_bound \<Rightarrow> bool" where
  "upper_leq (Finite l) (Finite r) \<longleftrightarrow> l \<le> r"
| "upper_leq _ Unbounded \<longleftrightarrow> True"
| "upper_leq Unbounded (Finite _) \<longleftrightarrow> False"

definition grade_leq :: "grade_interval \<Rightarrow> grade_interval \<Rightarrow> (grade_arithmetic_error, bool) result" where
  "grade_leq l r =
     and_then (validate_grade_interval l) (\<lambda>_.
     and_then (validate_grade_interval r) (\<lambda>_.
       Inr (grade_lower r \<le> grade_lower l \<and> upper_leq (grade_upper l) (grade_upper r))))"

definition checked_grade ::
  "(u32 \<Rightarrow> u32 \<Rightarrow> u32 option) \<Rightarrow> grade_operation \<Rightarrow> u32 \<Rightarrow> u32 \<Rightarrow> (grade_arithmetic_error, u32) result" where
  "checked_grade f operation l r =
     (case f l r of None \<Rightarrow> Inl (GradeOverflow operation) | Some v \<Rightarrow> Inr v)"

fun add_upper_bounds ::
  "grade_upper_bound \<Rightarrow> grade_upper_bound \<Rightarrow> (grade_arithmetic_error, grade_upper_bound) result" where
  "add_upper_bounds (Finite l) (Finite r) =
     and_then (checked_grade checked_add_u32 GradeAddition l r) (\<lambda>v. Inr (Finite v))"
| "add_upper_bounds _ _ = Inr Unbounded"

definition add_grades ::
  "grade_interval \<Rightarrow> grade_interval \<Rightarrow> (grade_arithmetic_error, grade_interval) result" where
  "add_grades l r =
     and_then (validate_grade_interval l) (\<lambda>_.
     and_then (validate_grade_interval r) (\<lambda>_.
     and_then (checked_grade checked_add_u32 GradeAddition (grade_lower l) (grade_lower r)) (\<lambda>low.
     and_then (add_upper_bounds (grade_upper l) (grade_upper r)) (\<lambda>high.
       Inr \<lparr>grade_lower = low, grade_upper = high\<rparr>))))"

definition multiply_upper_bounds ::
  "grade_upper_bound \<Rightarrow> grade_upper_bound \<Rightarrow> (grade_arithmetic_error, grade_upper_bound) result" where
  "multiply_upper_bounds l r =
     (if l = Finite 0 \<or> r = Finite 0 then Inr (Finite 0)
      else case (l, r) of
        (Finite a, Finite b) \<Rightarrow>
          and_then (checked_grade checked_mul_u32 GradeMultiplication a b) (\<lambda>v. Inr (Finite v))
      | _ \<Rightarrow> Inr Unbounded)"

definition multiply_grades ::
  "grade_interval \<Rightarrow> grade_interval \<Rightarrow> (grade_arithmetic_error, grade_interval) result" where
  "multiply_grades l r =
     and_then (validate_grade_interval l) (\<lambda>_.
     and_then (validate_grade_interval r) (\<lambda>_.
     and_then (checked_grade checked_mul_u32 GradeMultiplication (grade_lower l) (grade_lower r)) (\<lambda>low.
     and_then (multiply_upper_bounds (grade_upper l) (grade_upper r)) (\<lambda>high.
       Inr \<lparr>grade_lower = low, grade_upper = high\<rparr>))))"

section \<open>Use counts\<close>

definition admits :: "grade_interval \<Rightarrow> nat \<Rightarrow> bool" where
  "admits g n \<longleftrightarrow> unat (grade_lower g) \<le> n \<and>
     (case grade_upper g of Finite v \<Rightarrow> n \<le> unat v | Unbounded \<Rightarrow> True)"

lemma validate_grade_interval_Inr [simp]:
  "validate_grade_interval g = Inr u \<longleftrightarrow> (\<exists>n. admits g n)"
  by (auto simp: validate_grade_interval_def admits_def not_less word_less_nat_alt word_le_nat_alt split: grade_upper_bound.split)

lemma checked_grade_Inr [simp]: "checked_grade f operation l r = Inr v \<longleftrightarrow> f l r = Some v"
  by (auto simp: checked_grade_def split: option.split)

lemma admits_lower: "admits g n \<Longrightarrow> admits g (unat (grade_lower g))"
  by (auto simp: admits_def split: grade_upper_bound.splits)

lemma admits_upper: "admits g n \<Longrightarrow> grade_upper g = Finite v \<Longrightarrow> admits g (unat v)"
  by (auto simp: admits_def)

lemma admits_more: "admits g n \<Longrightarrow> grade_upper g = Unbounded \<Longrightarrow> n \<le> k \<Longrightarrow> admits g k"
  by (auto simp: admits_def)

lemma grade_leq_subset:
  assumes "grade_leq l r = Inr b" shows "b \<longleftrightarrow> (\<forall>n. admits l n \<longrightarrow> admits r n)"
proof -
  obtain n k where n: "admits l n" and k: "admits r k"
    and b: "b \<longleftrightarrow> grade_lower r \<le> grade_lower l \<and> upper_leq (grade_upper l) (grade_upper r)"
    using assms by (auto simp: grade_leq_def and_then_eq_Inr)
  have low: "grade_lower r \<le> grade_lower l" if "\<forall>n. admits l n \<longrightarrow> admits r n"
    using that admits_lower [OF n] by (auto simp: admits_def word_le_nat_alt)
  have high: "upper_leq (grade_upper l) (grade_upper r)" if sub: "\<forall>n. admits l n \<longrightarrow> admits r n"
  proof (cases "grade_upper r")
    case r: (Finite v)
    show ?thesis
    proof (cases "grade_upper l")
      case (Finite u)
      with sub r admits_upper [OF n] show ?thesis by (auto simp: admits_def word_le_nat_alt)
    next
      case Unbounded
      have "admits l (max n (Suc (unat v)))" by (rule admits_more [OF n Unbounded]) simp
      with sub r show ?thesis by (auto simp: admits_def)
    qed
  qed (cases "grade_upper l"; simp)
  have "admits r m" if "b" "admits l m" for m
    using that b by (cases "grade_upper l"; cases "grade_upper r")
      (auto simp: admits_def word_le_nat_alt)
  with low high b show ?thesis by blast
qed

lemma grade_leq_defined: "(\<exists>b. grade_leq l r = Inr b) \<longleftrightarrow> (\<exists>n. admits l n) \<and> (\<exists>n. admits r n)"
  by (simp add: grade_leq_def and_then_eq_Inr)

lemma sum_split: "a + b \<le> n \<Longrightarrow> n \<le> c + d \<Longrightarrow> a \<le> c \<Longrightarrow> b \<le> d \<Longrightarrow>
    \<exists>i j. a \<le> i \<and> i \<le> c \<and> b \<le> j \<and> j \<le> d \<and> n = i + (j :: nat)"
  by (rule exI [of _ "min c (n - b)"], rule exI [of _ "n - min c (n - b)"]) auto

lemma admits_from: "grade_upper g = Unbounded \<Longrightarrow> admits g n \<longleftrightarrow> unat (grade_lower g) \<le> n"
  by (simp add: admits_def)

lemma add_grades_sound:
  assumes "add_grades l r = Inr g" "admits l i" "admits r j"
  shows "admits g (i + j)"
proof -
  have low: "unat (grade_lower g) = unat (grade_lower l) + unat (grade_lower r)"
    and high: "add_upper_bounds (grade_upper l) (grade_upper r) = Inr (grade_upper g)"
    using assms(1) by (auto simp: add_grades_def and_then_eq_Inr checked_simps)
  have "unat (grade_lower g) \<le> i + j"
    using assms(2,3) low by (simp add: admits_def)
  moreover have "i + j \<le> unat v" if v: "grade_upper g = Finite v" for v
  proof -
    obtain a b where "grade_upper l = Finite a" "grade_upper r = Finite b" "unat v = unat a + unat b"
      using high v by (cases "grade_upper l"; cases "grade_upper r") (auto simp: and_then_eq_Inr checked_simps)
    with assms(2,3) show ?thesis by (simp add: admits_def)
  qed
  ultimately show ?thesis by (simp add: admits_def split: grade_upper_bound.split)
qed

lemma add_grades_complete:
  assumes "add_grades l r = Inr g" "admits g n"
  shows "\<exists>i j. admits l i \<and> admits r j \<and> n = i + j"
proof -
  obtain i j where ij: "admits l i" "admits r j" and low: "unat (grade_lower g) = unat (grade_lower l) + unat (grade_lower r)"
    and high: "add_upper_bounds (grade_upper l) (grade_upper r) = Inr (grade_upper g)"
    using assms(1) by (auto simp: add_grades_def and_then_eq_Inr checked_simps)
  have n: "unat (grade_lower l) + unat (grade_lower r) \<le> n"
    using assms(2) low by (simp add: admits_def)
  consider "grade_upper l = Unbounded" | "grade_upper r = Unbounded"
    | a b where "grade_upper l = Finite a" "grade_upper r = Finite b"
    by (cases "grade_upper l"; cases "grade_upper r") auto
  then show ?thesis
  proof cases
    case 1
    have "admits l (n - unat (grade_lower r))" using n admits_from [OF 1] by simp
    with admits_lower [OF ij(2)] n show ?thesis
      by (intro exI [of _ "n - unat (grade_lower r)"] exI [of _ "unat (grade_lower r)"]) simp
  next
    case 2
    have "admits r (n - unat (grade_lower l))" using n admits_from [OF 2] by simp
    with admits_lower [OF ij(1)] n show ?thesis
      by (intro exI [of _ "unat (grade_lower l)"] exI [of _ "n - unat (grade_lower l)"]) simp
  next
    case 3
    have "\<exists>v. grade_upper g = Finite v \<and> unat v = unat a + unat b"
      using high 3 by (auto simp: and_then_eq_Inr checked_simps dest: sym)
    then have "n \<le> unat a + unat b" using assms(2) by (auto simp: admits_def)
    moreover have "unat (grade_lower l) \<le> unat a" "unat (grade_lower r) \<le> unat b"
      using ij 3 by (simp_all add: admits_def)
    ultimately obtain i' j' where "unat (grade_lower l) \<le> i'" "i' \<le> unat a" "unat (grade_lower r) \<le> j'"
      "j' \<le> unat b" "n = i' + j'"
      using sum_split [OF n] by blast
    with 3 show ?thesis by (auto simp: admits_def)
  qed
qed

text \<open>Multiplication gives the least interval that contains the products.\<close>

lemma multiply_grades_sound:
  assumes "multiply_grades l r = Inr g" "admits l i" "admits r j"
  shows "admits g (i * j)"
proof -
  have low: "unat (grade_lower g) = unat (grade_lower l) * unat (grade_lower r)"
    and high: "multiply_upper_bounds (grade_upper l) (grade_upper r) = Inr (grade_upper g)"
    using assms(1) by (auto simp: multiply_grades_def and_then_eq_Inr checked_simps)
  have "unat (grade_lower g) \<le> i * j"
    using assms(2,3) low by (simp add: admits_def mult_le_mono)
  moreover have "i * j \<le> unat v" if "grade_upper g = Finite v" for v
    using that high assms(2,3)
    by (auto simp: multiply_upper_bounds_def admits_def and_then_eq_Inr checked_simps mult_le_mono
        split: grade_upper_bound.splits if_splits)
  ultimately show ?thesis by (simp add: admits_def split: grade_upper_bound.split)
qed

lemma multiply_grades_attained:
  assumes "multiply_grades l r = Inr g"
  shows "\<exists>i j. admits l i \<and> admits r j \<and> unat (grade_lower g) = i * j"
    and "grade_upper g = Finite v \<Longrightarrow> \<exists>i j. admits l i \<and> admits r j \<and> unat v = i * j"
    and "grade_upper g = Unbounded \<Longrightarrow> \<exists>i j. admits l i \<and> admits r j \<and> m \<le> i * j"
proof -
  obtain i j where ij: "admits l i" "admits r j"
    and low: "unat (grade_lower g) = unat (grade_lower l) * unat (grade_lower r)"
    and high: "multiply_upper_bounds (grade_upper l) (grade_upper r) = Inr (grade_upper g)"
    using assms by (auto simp: multiply_grades_def and_then_eq_Inr checked_simps)
  note lower = admits_lower [OF ij(1)] admits_lower [OF ij(2)]
  show "\<exists>i j. admits l i \<and> admits r j \<and> unat (grade_lower g) = i * j"
    using low lower by blast
  show "\<exists>i j. admits l i \<and> admits r j \<and> unat v = i * j" if v: "grade_upper g = Finite v"
  proof -
    consider "grade_upper l = Finite 0" "v = 0" | "grade_upper r = Finite 0" "v = 0"
      | a b where "grade_upper l = Finite a" "grade_upper r = Finite b" "unat v = unat a * unat b"
      using high v by (auto simp: multiply_upper_bounds_def and_then_eq_Inr checked_simps
          split: grade_upper_bound.splits if_splits)
    then show ?thesis
    proof cases
      case 1
      with admits_upper [OF ij(1) 1(1)] ij(2) show ?thesis
        by (intro exI [of _ 0] exI [of _ j]) simp
    next
      case 2
      with admits_upper [OF ij(2) 2(1)] ij(1) show ?thesis
        by (intro exI [of _ i] exI [of _ 0]) simp
    next
      case 3
      with admits_upper [OF ij(1) 3(1)] admits_upper [OF ij(2) 3(2)] show ?thesis by blast
    qed
  qed
  show "\<exists>i j. admits l i \<and> admits r j \<and> m \<le> i * j" if open_bound: "grade_upper g = Unbounded"
  proof -
    have one: "\<exists>k. admits h k \<and> 0 < k" if "admits h k'" "grade_upper h \<noteq> Finite 0" for h k'
    proof (cases "grade_upper h")
      case (Finite v)
      with that(2) have "v \<noteq> 0" by simp
      then have "0 < unat v" by (simp add: unat_gt_0)
      with admits_upper [OF that(1) Finite] show ?thesis by blast
    next
      case Unbounded
      from admits_more [OF that(1) this, of "Suc k'"] show ?thesis by auto
    qed
    have nonzero: "grade_upper l \<noteq> Finite 0" "grade_upper r \<noteq> Finite 0"
      using high open_bound by (auto simp: multiply_upper_bounds_def split: if_splits)
    obtain i' j' where pos: "admits l i'" "0 < i'" "admits r j'" "0 < j'"
      using one [OF ij(1) nonzero(1)] one [OF ij(2) nonzero(2)] by blast
    consider "grade_upper l = Unbounded" | "grade_upper r = Unbounded"
      using high open_bound by (auto simp: multiply_upper_bounds_def and_then_eq_Inr
          split: grade_upper_bound.splits if_splits)
    then show ?thesis
    proof cases
      case 1
      have "m \<le> max i m * j'" using pos(4) by (simp add: max_def mult_le_mono le_trans [OF _ mult_le_mono2 [of 1]])
      with admits_more [OF ij(1) 1, of "max i m"] pos(3) show ?thesis by auto
    next
      case 2
      have "m \<le> i' * max j m" using pos(2) by (cases i') auto
      with admits_more [OF ij(2) 2, of "max j m"] pos(1) show ?thesis by auto
    qed
  qed
qed

lemma multiply_grades_least:
  assumes "multiply_grades l r = Inr g" and products: "\<And>i j. admits l i \<Longrightarrow> admits r j \<Longrightarrow> admits k (i * j)"
    and "admits g n"
  shows "admits k n"
proof -
  have "unat (grade_lower k) \<le> unat (grade_lower g)"
    using multiply_grades_attained(1) [OF assms(1)] products by (fastforce simp: admits_def)
  with \<open>admits g n\<close> have low: "unat (grade_lower k) \<le> n" by (simp add: admits_def)
  have "n \<le> unat v" if v: "grade_upper k = Finite v" for v
  proof (cases "grade_upper g")
    case (Finite u)
    then have "unat u \<le> unat v"
      using multiply_grades_attained(2) [OF assms(1) Finite] products v by (fastforce simp: admits_def)
    with \<open>admits g n\<close> Finite show ?thesis by (simp add: admits_def)
  next
    case Unbounded
    obtain i j where "admits l i" "admits r j" "Suc (unat v) \<le> i * j"
      using multiply_grades_attained(3) [OF assms(1) Unbounded] by blast
    with products [of i j] v show ?thesis by (simp add: admits_def)
  qed
  with low show ?thesis by (simp add: admits_def split: grade_upper_bound.split)
qed

lemma same_lower:
  assumes "\<And>n. admits g n \<longleftrightarrow> P n" "P m" "\<And>n. P n \<Longrightarrow> m \<le> n"
  shows "unat (grade_lower g) = m"
  using assms admits_lower [of g m] by (metis admits_def le_antisym)

lemma same_upper:
  assumes "\<And>n. admits g n \<longleftrightarrow> P n" "P m" "\<And>n. P n \<Longrightarrow> n \<le> m"
  shows "\<exists>v. grade_upper g = Finite v \<and> unat v = m"
proof (cases "grade_upper g")
  case (Finite v)
  have "admits g m" using assms(1,2) by blast
  then have "P (unat v)" using admits_upper [OF _ Finite] assms(1) by blast
  then have "unat v \<le> m" by (rule assms(3))
  with \<open>admits g m\<close> Finite show ?thesis by (auto simp: admits_def)
next
  case Unbounded
  from assms(1,2) have "admits g (Suc m)" using admits_more [OF _ Unbounded, of m] by simp
  with assms(1,3) show ?thesis by (meson not_less_eq_eq order_refl)
qed

lemma add_grades_overflow:
  "add_grades l r = Inl (GradeOverflow operation) \<longleftrightarrow> operation = GradeAddition \<and>
     (\<exists>i. admits l i) \<and> (\<exists>j. admits r j) \<and>
     (2 ^ 32 \<le> unat (grade_lower l) + unat (grade_lower r) \<or>
      (\<exists>a b. grade_upper l = Finite a \<and> grade_upper r = Finite b \<and> 2 ^ 32 \<le> unat a + unat b))"
proof -
  have invalid: "validate_grade_interval g \<noteq> Inl (GradeOverflow operation)" for g
    by (simp add: validate_grade_interval_def split: grade_upper_bound.split)
  have lower: "checked_grade checked_add_u32 GradeAddition x y = Inl (GradeOverflow operation) \<longleftrightarrow>
      operation = GradeAddition \<and> 2 ^ 32 \<le> unat x + unat y" for x y
    by (auto simp: checked_grade_def checked_add_u32_def)
  have upper: "add_upper_bounds x y = Inl (GradeOverflow operation) \<longleftrightarrow> operation = GradeAddition \<and>
      (\<exists>a b. x = Finite a \<and> y = Finite b \<and> 2 ^ 32 \<le> unat a + unat b)" for x y
    by (cases x; cases y) (auto simp: and_then_eq_Inl lower)
  have defined: "(\<exists>v. checked_grade checked_add_u32 GradeAddition x y = Inr v) \<longleftrightarrow> unat x + unat y < 2 ^ 32" for x y
    by (simp add: checked_add_u32_def)
  show ?thesis
    unfolding add_grades_def and_then_eq_Inl
    using invalid lower upper defined [of "grade_lower l" "grade_lower r"] by (auto simp: not_less)
qed

section \<open>Properties\<close>


definition once :: grade_interval where "once = \<lparr>grade_lower = 1, grade_upper = Finite 1\<rparr>"
definition at_least_two :: grade_interval where "at_least_two = \<lparr>grade_lower = 2, grade_upper = Unbounded\<rparr>"
definition at_least_three :: grade_interval where "at_least_three = \<lparr>grade_lower = 3, grade_upper = Unbounded\<rparr>"

lemma example_grades:
  "grade_leq once at_least_two = Inr False" "add_grades once at_least_two = Inr at_least_three"
  "multiply_grades once at_least_two = Inr at_least_two"
  by code_simp+


text \<open>
  Addition reports an overflow exactly when both grades are valid and no interval with
  32-bit bounds admits exactly the sums of their counts.
\<close>

theorem addition_overflow_exact:
  "add_grades l r = Inl (GradeOverflow GradeAddition) \<longleftrightarrow>
     (\<exists>i. admits l i) \<and> (\<exists>j. admits r j) \<and>
     (\<nexists>g. \<forall>n. admits g n \<longleftrightarrow> (\<exists>i j. admits l i \<and> admits r j \<and> n = i + j))"
proof (cases "(\<exists>i. admits l i) \<and> (\<exists>j. admits r j)")
  case valid: True
  let ?sum = "\<lambda>n. \<exists>i j. admits l i \<and> admits r j \<and> n = i + j"
  have representable: "add_grades l r \<noteq> Inl (GradeOverflow GradeAddition)" if g: "\<And>n. admits g n \<longleftrightarrow> ?sum n" for g
  proof -
    from valid have low: "?sum (unat (grade_lower l) + unat (grade_lower r))"
      using admits_lower by blast
    have "unat (grade_lower g) = unat (grade_lower l) + unat (grade_lower r)"
      by (rule same_lower [OF g low]) (auto simp: admits_def)
    then have "unat (grade_lower l) + unat (grade_lower r) < 2 ^ 32"
      using unat_u32_bound [of "grade_lower g"] by simp
    moreover have "unat a + unat b < 2 ^ 32" if ab: "grade_upper l = Finite a" "grade_upper r = Finite b" for a b
    proof -
      have "?sum (unat a + unat b)" using valid admits_upper ab by blast
      moreover have "n \<le> unat a + unat b" if "?sum n" for n
        using that ab by (auto simp: admits_def)
      ultimately obtain v :: u32 where "unat v = unat a + unat b"
        using same_upper [OF g] by blast
      with unat_u32_bound [of v] show ?thesis by simp
    qed
    ultimately show ?thesis unfolding add_grades_overflow by (meson not_less)
  qed
  have "\<exists>g. add_grades l r = Inr g" if "add_grades l r \<noteq> Inl (GradeOverflow GradeAddition)"
  proof -
    have "unat (grade_lower l) + unat (grade_lower r) < 2 ^ 32"
      "\<And>a b. grade_upper l = Finite a \<Longrightarrow> grade_upper r = Finite b \<Longrightarrow> unat a + unat b < 2 ^ 32"
      using that valid by (auto simp: add_grades_overflow)
    with valid show ?thesis
      by (cases "grade_upper l"; cases "grade_upper r")
        (auto simp: add_grades_def and_then_eq_Inr checked_add_u32_def)
  qed
  then have "\<exists>g. \<forall>n. admits g n \<longleftrightarrow> ?sum n" if "add_grades l r \<noteq> Inl (GradeOverflow GradeAddition)"
    using that add_grades_sound add_grades_complete by metis
  with representable valid show ?thesis by blast
next
  case False
  then show ?thesis by (auto simp: add_grades_overflow)
qed

end
