(* ===== verification/CoreCalculus.thy ===== *)
theory CoreCalculus
  imports QCore
begin

text \<open>
  The calculus that the pure core fragment of \<open>compiler/src/qcore_typing.rs\<close> is checked
  against: de Bruijn terms over natural numbers, lifting, substitution, one-step reduction, its
  confluence, and the conversion it generates. Values and computations share one datatype, and
  nothing of the representation remains: no arena identifiers, no machine integers, no limits.
\<close>

section \<open>Terms\<close>

datatype core_term =
  CVar nat
| CGlobal definition_key semantic_key
| CUniverse universe
| CPi core_term core_term grade_interval
| CSigma core_term core_term
| CLam core_term
| CPair core_term core_term
| CFst core_term
| CSnd core_term
| CReturn core_term
| CLet core_term core_term
| CBind core_term core_term
| CApp core_term core_term

fun lift :: "nat \<Rightarrow> nat \<Rightarrow> core_term \<Rightarrow> core_term" where
  "lift n k (CVar i) = (if i \<ge> k then CVar (i + n) else CVar i)"
| "lift n k (CPi a b g) = CPi (lift n k a) (lift n (Suc k) b) g"
| "lift n k (CSigma a b) = CSigma (lift n k a) (lift n (Suc k) b)"
| "lift n k (CLam b) = CLam (lift n (Suc k) b)"
| "lift n k (CPair a b) = CPair (lift n k a) (lift n k b)"
| "lift n k (CFst a) = CFst (lift n k a)"
| "lift n k (CSnd a) = CSnd (lift n k a)"
| "lift n k (CReturn a) = CReturn (lift n k a)"
| "lift n k (CLet a b) = CLet (lift n k a) (lift n (Suc k) b)"
| "lift n k (CBind a b) = CBind (lift n k a) (lift n (Suc k) b)"
| "lift n k (CApp a b) = CApp (lift n k a) (lift n k b)"
| "lift n k (CGlobal d s) = CGlobal d s"
| "lift n k (CUniverse u) = CUniverse u"

fun subst :: "core_term \<Rightarrow> nat \<Rightarrow> core_term \<Rightarrow> core_term" where
  "subst s d (CVar i) = (if i = d then lift d 0 s else if i > d then CVar (i - 1) else CVar i)"
| "subst s d (CPi a b g) = CPi (subst s d a) (subst s (Suc d) b) g"
| "subst s d (CSigma a b) = CSigma (subst s d a) (subst s (Suc d) b)"
| "subst s d (CLam b) = CLam (subst s (Suc d) b)"
| "subst s d (CPair a b) = CPair (subst s d a) (subst s d b)"
| "subst s d (CFst a) = CFst (subst s d a)"
| "subst s d (CSnd a) = CSnd (subst s d a)"
| "subst s d (CReturn a) = CReturn (subst s d a)"
| "subst s d (CLet a b) = CLet (subst s d a) (subst s (Suc d) b)"
| "subst s d (CBind a b) = CBind (subst s d a) (subst s (Suc d) b)"
| "subst s d (CApp a b) = CApp (subst s d a) (subst s d b)"
| "subst s d (CGlobal k m) = CGlobal k m"
| "subst s d (CUniverse u) = CUniverse u"

text \<open>Occurrences of a variable.\<close>

fun occurrences :: "core_term \<Rightarrow> nat \<Rightarrow> nat" where
  "occurrences (CVar i) k = (if i = k then 1 else 0)"
| "occurrences (CPi a b _) k = occurrences a k + occurrences b (Suc k)"
| "occurrences (CSigma a b) k = occurrences a k + occurrences b (Suc k)"
| "occurrences (CLam b) k = occurrences b (Suc k)"
| "occurrences (CPair a b) k = occurrences a k + occurrences b k"
| "occurrences (CFst a) k = occurrences a k"
| "occurrences (CSnd a) k = occurrences a k"
| "occurrences (CReturn a) k = occurrences a k"
| "occurrences (CLet a b) k = occurrences a k + occurrences b (Suc k)"
| "occurrences (CBind a b) k = occurrences a k + occurrences b (Suc k)"
| "occurrences (CApp a b) k = occurrences a k + occurrences b k"
| "occurrences (CGlobal d s) k = 0"
| "occurrences (CUniverse u) k = 0"

section \<open>Lifting and substitution\<close>

lemma lift_none [simp]: "lift 0 k t = t"
  by (induction t arbitrary: k) auto

lemma lift_through: "i \<le> j \<Longrightarrow> j \<le> i + m \<Longrightarrow> lift n j (lift m i t) = lift (m + n) i t"
  by (induction t arbitrary: i j) (auto simp: algebra_simps)

lemma lift_swap: "i \<le> k \<Longrightarrow> lift m (k + n) (lift n i t) = lift n i (lift m k t)"
proof (induction t arbitrary: i k)
  case (CPi t1 t2 g) from CPi.IH(1) [OF CPi.prems] CPi.IH(2) [of "Suc i" "Suc k"] CPi.prems show ?case by simp
next
  case (CSigma t1 t2) from CSigma.IH(1) [OF CSigma.prems] CSigma.IH(2) [of "Suc i" "Suc k"] CSigma.prems show ?case by simp
next
  case (CLam t) from CLam.IH [of "Suc i" "Suc k"] CLam.prems show ?case by simp
next
  case (CLet t1 t2) from CLet.IH(1) [OF CLet.prems] CLet.IH(2) [of "Suc i" "Suc k"] CLet.prems show ?case by simp
next
  case (CBind t1 t2) from CBind.IH(1) [OF CBind.prems] CBind.IH(2) [of "Suc i" "Suc k"] CBind.prems show ?case by simp
qed auto

lemma subst_under_lift: "i \<le> d \<Longrightarrow> d \<le> i + n \<Longrightarrow> subst s d (lift (Suc n) i t) = lift n i t"
  by (induction t arbitrary: i d) auto

lemma subst_over_lift: "i \<le> d \<Longrightarrow> subst s (d + n) (lift n i t) = lift n i (subst s d t)"
proof (induction t arbitrary: i d)
  case (CVar x) then show ?case by (auto simp: lift_through [of 0 i d])
next
  case (CPi t1 t2 g) from CPi.IH(1) [OF CPi.prems] CPi.IH(2) [of "Suc i" "Suc d"] CPi.prems show ?case by simp
next
  case (CSigma t1 t2) from CSigma.IH(1) [OF CSigma.prems] CSigma.IH(2) [of "Suc i" "Suc d"] CSigma.prems show ?case by simp
next
  case (CLam t) from CLam.IH [of "Suc i" "Suc d"] CLam.prems show ?case by simp
next
  case (CLet t1 t2) from CLet.IH(1) [OF CLet.prems] CLet.IH(2) [of "Suc i" "Suc d"] CLet.prems show ?case by simp
next
  case (CBind t1 t2) from CBind.IH(1) [OF CBind.prems] CBind.IH(2) [of "Suc i" "Suc d"] CBind.prems show ?case by simp
qed auto

lemma lift_subst: "lift n (d + k) (subst s d t) = subst (lift n k s) d (lift n (Suc (d + k)) t)"
proof (induction t arbitrary: d)
  case (CVar x) show ?case
    using lift_swap [of 0 k n d s] by (auto simp: add.commute)
next
  case (CPi t1 t2 g) from CPi.IH(1) [of d] CPi.IH(2) [of "Suc d"] show ?case by simp
next
  case (CSigma t1 t2) from CSigma.IH(1) [of d] CSigma.IH(2) [of "Suc d"] show ?case by simp
next
  case (CLam t) from CLam.IH [of "Suc d"] show ?case by simp
next
  case (CLet t1 t2) from CLet.IH(1) [of d] CLet.IH(2) [of "Suc d"] show ?case by simp
next
  case (CBind t1 t2) from CBind.IH(1) [of d] CBind.IH(2) [of "Suc d"] show ?case by simp
qed auto

lemma subst_subst: "subst s (j + d) (subst r j t) = subst (subst s d r) j (subst s (Suc (j + d)) t)"
proof (induction t arbitrary: j)
  case (CVar x) show ?case
    using subst_over_lift [of 0 d s j r] subst_under_lift [of 0 j "j + d" "subst s d r" s]
    by (auto simp: add.commute)
next
  case (CPi t1 t2 g) from CPi.IH(1) [of j] CPi.IH(2) [of "Suc j"] show ?case by simp
next
  case (CSigma t1 t2) from CSigma.IH(1) [of j] CSigma.IH(2) [of "Suc j"] show ?case by simp
next
  case (CLam t) from CLam.IH [of "Suc j"] show ?case by simp
next
  case (CLet t1 t2) from CLet.IH(1) [of j] CLet.IH(2) [of "Suc j"] show ?case by simp
next
  case (CBind t1 t2) from CBind.IH(1) [of j] CBind.IH(2) [of "Suc j"] show ?case by simp
qed auto

lemmas lift_subst_top = lift_subst [of _ 0, simplified]
lemmas subst_subst_top = subst_subst [of _ 0, simplified]

section \<open>Reduction\<close>

inductive step :: "core_term \<Rightarrow> core_term \<Rightarrow> bool" where
  beta: "step (CApp (CLam b) a) (subst a 0 b)"
| first: "step (CFst (CPair a b)) a"
| second: "step (CSnd (CPair a b)) b"
| bound: "step (CLet a b) (subst a 0 b)"
| returned: "step (CBind (CReturn a) b) (subst a 0 b)"
| in_pi1: "step a a' \<Longrightarrow> step (CPi a b g) (CPi a' b g)"
| in_pi2: "step b b' \<Longrightarrow> step (CPi a b g) (CPi a b' g)"
| in_sigma1: "step a a' \<Longrightarrow> step (CSigma a b) (CSigma a' b)"
| in_sigma2: "step b b' \<Longrightarrow> step (CSigma a b) (CSigma a b')"
| in_lam: "step b b' \<Longrightarrow> step (CLam b) (CLam b')"
| in_pair1: "step a a' \<Longrightarrow> step (CPair a b) (CPair a' b)"
| in_pair2: "step b b' \<Longrightarrow> step (CPair a b) (CPair a b')"
| in_fst: "step a a' \<Longrightarrow> step (CFst a) (CFst a')"
| in_snd: "step a a' \<Longrightarrow> step (CSnd a) (CSnd a')"
| in_return: "step a a' \<Longrightarrow> step (CReturn a) (CReturn a')"
| in_let1: "step a a' \<Longrightarrow> step (CLet a b) (CLet a' b)"
| in_let2: "step b b' \<Longrightarrow> step (CLet a b) (CLet a b')"
| in_bind1: "step a a' \<Longrightarrow> step (CBind a b) (CBind a' b)"
| in_bind2: "step b b' \<Longrightarrow> step (CBind a b) (CBind a b')"
| in_app1: "step a a' \<Longrightarrow> step (CApp a b) (CApp a' b)"
| in_app2: "step b b' \<Longrightarrow> step (CApp a b) (CApp a b')"

abbreviation steps :: "core_term \<Rightarrow> core_term \<Rightarrow> bool" where
  "steps \<equiv> step\<^sup>*\<^sup>*"

lemma steps_context:
  assumes "\<And>x y. step x y \<Longrightarrow> step (C x) (C y)" "steps a b"
  shows "steps (C a) (C b)"
  using assms(2) by (induction) (auto intro: rtranclp.rtrancl_into_rtrancl assms(1))

lemma steps_context2:
  assumes "\<And>x y z. step x y \<Longrightarrow> step (C x z) (C y z)" "\<And>x y z. step x y \<Longrightarrow> step (C z x) (C z y)"
    and "steps a a'" "steps b b'"
  shows "steps (C a b) (C a' b')"
  using steps_context [of "\<lambda>x. C x b" a a'] steps_context [of "C a'" b b'] assms
  by (meson rtranclp_trans)

lemma steps_compose:
  "steps a a' \<Longrightarrow> steps b b' \<Longrightarrow> steps (CPi a b g) (CPi a' b' g)"
  "steps a a' \<Longrightarrow> steps b b' \<Longrightarrow> steps (CSigma a b) (CSigma a' b')"
  "steps a a' \<Longrightarrow> steps b b' \<Longrightarrow> steps (CPair a b) (CPair a' b')"
  "steps a a' \<Longrightarrow> steps b b' \<Longrightarrow> steps (CLet a b) (CLet a' b')"
  "steps a a' \<Longrightarrow> steps b b' \<Longrightarrow> steps (CBind a b) (CBind a' b')"
  "steps a a' \<Longrightarrow> steps b b' \<Longrightarrow> steps (CApp a b) (CApp a' b')"
  "steps b b' \<Longrightarrow> steps (CLam b) (CLam b')"
  "steps a a' \<Longrightarrow> steps (CFst a) (CFst a')"
  "steps a a' \<Longrightarrow> steps (CSnd a) (CSnd a')"
  "steps a a' \<Longrightarrow> steps (CReturn a) (CReturn a')"
proof -
  show "steps a a' \<Longrightarrow> steps b b' \<Longrightarrow> steps (CPi a b g) (CPi a' b' g)"
    by (rule steps_context2 [of "\<lambda>x y. CPi x y g"]) (auto intro: step.intros)
qed (rule steps_context2 steps_context; (assumption | rule step.intros; assumption))+

section \<open>Confluence\<close>

inductive par :: "core_term \<Rightarrow> core_term \<Rightarrow> bool" where
  par_beta: "par b b' \<Longrightarrow> par a a' \<Longrightarrow> par (CApp (CLam b) a) (subst a' 0 b')"
| par_first: "par a a' \<Longrightarrow> par (CFst (CPair a b)) a'"
| par_second: "par b b' \<Longrightarrow> par (CSnd (CPair a b)) b'"
| par_bound: "par a a' \<Longrightarrow> par b b' \<Longrightarrow> par (CLet a b) (subst a' 0 b')"
| par_returned: "par a a' \<Longrightarrow> par b b' \<Longrightarrow> par (CBind (CReturn a) b) (subst a' 0 b')"
| par_var [simp, intro!]: "par (CVar i) (CVar i)"
| par_global [simp, intro!]: "par (CGlobal d s) (CGlobal d s)"
| par_universe [simp, intro!]: "par (CUniverse u) (CUniverse u)"
| par_pi: "par a a' \<Longrightarrow> par b b' \<Longrightarrow> par (CPi a b g) (CPi a' b' g)"
| par_sigma: "par a a' \<Longrightarrow> par b b' \<Longrightarrow> par (CSigma a b) (CSigma a' b')"
| par_lam: "par b b' \<Longrightarrow> par (CLam b) (CLam b')"
| par_pair: "par a a' \<Longrightarrow> par b b' \<Longrightarrow> par (CPair a b) (CPair a' b')"
| par_fst: "par a a' \<Longrightarrow> par (CFst a) (CFst a')"
| par_snd: "par a a' \<Longrightarrow> par (CSnd a) (CSnd a')"
| par_return: "par a a' \<Longrightarrow> par (CReturn a) (CReturn a')"
| par_let: "par a a' \<Longrightarrow> par b b' \<Longrightarrow> par (CLet a b) (CLet a' b')"
| par_bind: "par a a' \<Longrightarrow> par b b' \<Longrightarrow> par (CBind a b) (CBind a' b')"
| par_app: "par a a' \<Longrightarrow> par b b' \<Longrightarrow> par (CApp a b) (CApp a' b')"

lemmas par_structure = par_pi par_sigma par_lam par_pair par_fst par_snd par_return par_let par_bind par_app
lemmas par_contraction = par_beta par_first par_second par_bound par_returned

inductive_cases par_pairE: "par (CPair a b) t"
inductive_cases par_lamE: "par (CLam b) t"
inductive_cases par_returnE: "par (CReturn a) t"

lemma par_refl [simp]: "par t t"
  by (induction t) (auto intro: par_structure)

lemma step_par: "step t u \<Longrightarrow> par t u"
  by (induction rule: step.induct) (auto intro: par_structure par_contraction)

lemma par_steps: "par t u \<Longrightarrow> steps t u"
proof (induction rule: par.induct)
  case (par_beta b b' a a')
  then have "steps (CApp (CLam b) a) (CApp (CLam b') a')" by (auto intro: steps_compose)
  then show ?case by (rule rtranclp.rtrancl_into_rtrancl) (rule step.beta)
next
  case (par_first a a' b)
  then show ?case by (meson steps_compose(3,8) step.first rtranclp.rtrancl_into_rtrancl rtranclp.rtrancl_refl)
next
  case (par_second b b' a)
  then show ?case by (meson steps_compose(3,9) step.second rtranclp.rtrancl_into_rtrancl rtranclp.rtrancl_refl)
next
  case (par_bound a a' b b')
  then show ?case by (meson steps_compose(4) step.bound rtranclp.rtrancl_into_rtrancl)
next
  case (par_returned a a' b b')
  then show ?case by (meson steps_compose(5,10) step.returned rtranclp.rtrancl_into_rtrancl)
qed (auto intro: steps_compose)

lemma par_lift: "par t u \<Longrightarrow> par (lift n k t) (lift n k u)"
proof (induction arbitrary: k rule: par.induct)
  case (par_beta b b' a a')
  then show ?case using par.par_beta [of "lift n (Suc k) b" "lift n (Suc k) b'" "lift n k a" "lift n k a'"]
    by (simp add: lift_subst_top)
next
  case (par_bound a a' b b')
  then show ?case using par.par_bound [of "lift n k a" "lift n k a'" "lift n (Suc k) b" "lift n (Suc k) b'"]
    by (simp add: lift_subst_top)
next
  case (par_returned a a' b b')
  then show ?case using par.par_returned [of "lift n k a" "lift n k a'" "lift n (Suc k) b" "lift n (Suc k) b'"]
    by (simp add: lift_subst_top)
qed (auto intro: par_structure par_contraction)

lemma par_subst: "par t u \<Longrightarrow> par s r \<Longrightarrow> par (subst s d t) (subst r d u)"
proof (induction arbitrary: d rule: par.induct)
  case (par_beta b b' a a')
  then show ?case using par.par_beta [of "subst s (Suc d) b" "subst r (Suc d) b'" "subst s d a" "subst r d a'"]
    by (simp add: subst_subst_top)
next
  case (par_bound a a' b b')
  then show ?case using par.par_bound [of "subst s d a" "subst r d a'" "subst s (Suc d) b" "subst r (Suc d) b'"]
    by (simp add: subst_subst_top)
next
  case (par_returned a a' b b')
  then show ?case using par.par_returned [of "subst s d a" "subst r d a'" "subst s (Suc d) b" "subst r (Suc d) b'"]
    by (simp add: subst_subst_top)
qed (auto intro: par_structure par_contraction par_lift)

text \<open>The complete development: every redex of the term contracted at once.\<close>

fun develop :: "core_term \<Rightarrow> core_term" where
  "develop (CApp (CLam b) a) = subst (develop a) 0 (develop b)"
| "develop (CApp f a) = CApp (develop f) (develop a)"
| "develop (CFst (CPair a b)) = develop a"
| "develop (CFst a) = CFst (develop a)"
| "develop (CSnd (CPair a b)) = develop b"
| "develop (CSnd a) = CSnd (develop a)"
| "develop (CLet a b) = subst (develop a) 0 (develop b)"
| "develop (CBind (CReturn a) b) = subst (develop a) 0 (develop b)"
| "develop (CBind a b) = CBind (develop a) (develop b)"
| "develop (CPi a b g) = CPi (develop a) (develop b) g"
| "develop (CSigma a b) = CSigma (develop a) (develop b)"
| "develop (CLam b) = CLam (develop b)"
| "develop (CPair a b) = CPair (develop a) (develop b)"
| "develop (CReturn a) = CReturn (develop a)"
| "develop (CVar i) = CVar i"
| "develop (CGlobal d s) = CGlobal d s"
| "develop (CUniverse u) = CUniverse u"

lemma par_develop: "par t u \<Longrightarrow> par u (develop t)"
proof (induction rule: par.induct)
  case (par_app a a' b b')
  show ?case
  proof (cases a)
    case (CLam c)
    with par_app obtain c' where c': "a' = CLam c'" "par c c'" by (auto elim: par_lamE)
    from par_app.IH(1) CLam c' have "par c' (develop c)" by (auto elim: par_lamE)
    with par_app.IH(2) c' CLam show ?thesis by (auto intro: par_beta)
  qed (use par_app.IH in \<open>auto intro: par_structure\<close>)
next
  case (par_fst a a')
  show ?case
  proof (cases a)
    case (CPair c d)
    with par_fst obtain c' d' where c': "a' = CPair c' d'" by (auto elim: par_pairE)
    from par_fst.IH CPair c' have "par c' (develop c)" by (auto elim: par_pairE)
    with c' CPair show ?thesis by (auto intro: par_first)
  qed (use par_fst.IH in \<open>auto intro: par_structure\<close>)
next
  case (par_snd a a')
  show ?case
  proof (cases a)
    case (CPair c d)
    with par_snd obtain c' d' where c': "a' = CPair c' d'" by (auto elim: par_pairE)
    from par_snd.IH CPair c' have "par d' (develop d)" by (auto elim: par_pairE)
    with c' CPair show ?thesis by (auto intro: par_second)
  qed (use par_snd.IH in \<open>auto intro: par_structure\<close>)
next
  case (par_bind a a' b b')
  show ?case
  proof (cases a)
    case (CReturn c)
    with par_bind obtain c' where c': "a' = CReturn c'" by (auto elim: par_returnE)
    from par_bind.IH(1) CReturn c' have "par c' (develop c)" by (auto elim: par_returnE)
    with par_bind.IH(2) c' CReturn show ?thesis by (auto intro: par_returned)
  qed (use par_bind.IH in \<open>auto intro: par_structure\<close>)
qed (auto intro: par_structure par_contraction par_subst)

lemma par_diamond: "par t u \<Longrightarrow> par t v \<Longrightarrow> \<exists>w. par u w \<and> par v w"
  using par_develop by blast

lemma par_strip: "par\<^sup>*\<^sup>* t u \<Longrightarrow> par t v \<Longrightarrow> \<exists>w. par u w \<and> par\<^sup>*\<^sup>* v w"
proof (induction rule: rtranclp_induct)
  case (step u u')
  then obtain w where "par u w" "par\<^sup>*\<^sup>* v w" by blast
  with par_diamond [OF step.hyps(2)] show ?case by (meson rtranclp.rtrancl_into_rtrancl)
qed auto

lemma par_confluent: "par\<^sup>*\<^sup>* t u \<Longrightarrow> par\<^sup>*\<^sup>* t v \<Longrightarrow> \<exists>w. par\<^sup>*\<^sup>* u w \<and> par\<^sup>*\<^sup>* v w"
proof (induction arbitrary: v rule: converse_rtranclp_induct)
  case (step t t')
  from par_strip [OF step.prems step.hyps(1)] obtain w where w: "par v w" "par\<^sup>*\<^sup>* t' w" by blast
  from step.IH [OF w(2)] w(1) show ?case by (meson converse_rtranclp_into_rtranclp)
qed auto

lemma steps_eq_par: "steps = par\<^sup>*\<^sup>*"
proof (intro ext iffI)
  fix t u show "steps t u \<Longrightarrow> par\<^sup>*\<^sup>* t u"
    by (induction rule: rtranclp_induct) (auto intro: step_par rtranclp.rtrancl_into_rtrancl)
  show "par\<^sup>*\<^sup>* t u \<Longrightarrow> steps t u"
    by (induction rule: rtranclp_induct) (auto dest: par_steps intro: rtranclp_trans)
qed

lemma confluent: "steps t u \<Longrightarrow> steps t v \<Longrightarrow> \<exists>w. steps u w \<and> steps v w"
  unfolding steps_eq_par by (rule par_confluent)

section \<open>Conversion\<close>

text \<open>The equivalence that reduction generates.\<close>

inductive converts :: "core_term \<Rightarrow> core_term \<Rightarrow> bool" where
  conv_refl [simp, intro!]: "converts t t"
| conv_step: "step t u \<Longrightarrow> converts t u"
| conv_sym: "converts t u \<Longrightarrow> converts u t"
| conv_trans: "converts t u \<Longrightarrow> converts u v \<Longrightarrow> converts t v"

lemma steps_converts: "steps t u \<Longrightarrow> converts t u"
  by (induction rule: rtranclp_induct) (auto intro: conv_step conv_trans)

lemma converts_joinable: "converts t u \<longleftrightarrow> (\<exists>v. steps t v \<and> steps u v)"
proof
  show "converts t u \<Longrightarrow> \<exists>v. steps t v \<and> steps u v"
  proof (induction rule: converts.induct)
    case (conv_trans t u v)
    then obtain a b where "steps t a" "steps u a" "steps u b" "steps v b" by blast
    with confluent [of u a b] show ?case by (meson rtranclp_trans)
  qed auto
  show "\<exists>v. steps t v \<and> steps u v \<Longrightarrow> converts t u"
    by (blast intro: steps_converts conv_sym conv_trans)
qed

definition normal :: "core_term \<Rightarrow> bool" where
  "normal t \<longleftrightarrow> (\<nexists>u. step t u)"

lemma normal_steps: "normal t \<Longrightarrow> steps t u \<Longrightarrow> u = t"
  by (auto simp: normal_def elim: converse_rtranclpE)

text \<open>Two terms with normal forms convert exactly when these are the same.\<close>

lemma converts_normal_forms:
  assumes "steps t t'" "normal t'" "steps u u'" "normal u'"
  shows "converts t u \<longleftrightarrow> t' = u'"
proof
  assume "converts t u"
  with assms have "converts t' u'" by (meson steps_converts conv_sym conv_trans)
  then show "t' = u'" using assms by (auto simp: converts_joinable dest: normal_steps)
next
  assume "t' = u'"
  with assms show "converts t u" by (auto simp: converts_joinable)
qed

inductive_simps step_simps:
  "step (CVar i) t" "step (CGlobal d s) t" "step (CUniverse u) t" "step (CPi a b g) t" "step (CSigma a b) t"
  "step (CLam b) t" "step (CPair a b) t" "step (CFst a) t" "step (CSnd a) t" "step (CReturn a) t"
  "step (CLet a b) t" "step (CBind a b) t" "step (CApp a b) t"

text \<open>Normal forms by structure.\<close>

lemma normal_forms [simp]:
  "normal (CVar i)" "normal (CGlobal d s)" "normal (CUniverse u)"
  "normal (CPi a b g) \<longleftrightarrow> normal a \<and> normal b" "normal (CSigma a b) \<longleftrightarrow> normal a \<and> normal b"
  "normal (CLam b) \<longleftrightarrow> normal b" "normal (CPair a b) \<longleftrightarrow> normal a \<and> normal b"
  "normal (CReturn a) \<longleftrightarrow> normal a" "\<not> normal (CLet a b)"
  "normal (CFst a) \<longleftrightarrow> normal a \<and> (\<nexists>b c. a = CPair b c)"
  "normal (CSnd a) \<longleftrightarrow> normal a \<and> (\<nexists>b c. a = CPair b c)"
  "normal (CBind a b) \<longleftrightarrow> normal a \<and> normal b \<and> (\<nexists>c. a = CReturn c)"
  "normal (CApp a b) \<longleftrightarrow> normal a \<and> normal b \<and> (\<nexists>c. a = CLam c)"
  unfolding normal_def by (auto simp: step_simps)

text \<open>Conversion is preserved by substituting convertible terms.\<close>

lemma steps_subst: "steps t u \<Longrightarrow> steps s r \<Longrightarrow> steps (subst s d t) (subst r d u)"
proof -
  have one: "steps (subst s d t) (subst s d u)" if "steps t u" for s t u
    using that by (induction rule: rtranclp_induct) (auto intro: rtranclp_trans par_steps [OF par_subst [OF step_par par_refl]])
  have two: "steps (subst s d u) (subst r d u)" if "steps s r" for s r u
    using that by (induction rule: rtranclp_induct) (auto intro: rtranclp_trans par_steps [OF par_subst [OF par_refl step_par]])
  show "steps t u \<Longrightarrow> steps s r \<Longrightarrow> steps (subst s d t) (subst r d u)"
    using one two by (meson rtranclp_trans)
qed

lemma converts_subst: "converts t u \<Longrightarrow> converts s r \<Longrightarrow> converts (subst s d t) (subst r d u)"
  unfolding converts_joinable by (meson steps_subst)

lemma converts_lift: "converts t u \<Longrightarrow> converts (lift n k t) (lift n k u)"
proof -
  have "steps (lift n k t) (lift n k u)" if "steps t u" for t u
    using that by (induction rule: rtranclp_induct) (auto intro: rtranclp_trans par_steps [OF par_lift [OF step_par]])
  then show "converts t u \<Longrightarrow> converts (lift n k t) (lift n k u)"
    unfolding converts_joinable by blast
qed

end
