(* ===== verification/QCoreTerms.thy ===== *)
theory QCoreTerms
  imports CoreCalculus
begin

text \<open>
  The terms of the pure core fragment (\<open>compiler/src/qcore_typing.rs\<close>): \<open>PureValue\<close> and
  \<open>PureComputation\<close>, shifting, substitution, removal of a binder, use counting and structural
  equality, with the 32-bit indices and every overflow check of the source. Erasing a term to
  \<open>core_term\<close> forgets arena identifiers, and each operation refines the one of the calculus.
\<close>

section \<open>Errors\<close>

datatype typing_node =
  NodeDefinition definition_key
| NodeValue value_id
| NodeComputation computation_id
| NodeEffectRow effect_row_id

datatype unsupported_feature =
  ImportedDefinitionType definition_key
| ComputationDefinitionAsValue definition_key
| EffectRowVariable
| EffectOperation
| EffectHandler
| ThunkFeature
| ForceFeature
| ProofWitness
| StructuralCertificate value_tag
| EffectRowValueFeature
| IntervalGradeValue
| DependentBindResult

text \<open>
  \<open>TypingPanic\<close> is a Rust panic (an index out of range, an overflowing \<open>depth + 1\<close>), and
  \<open>OutOfFuel\<close> marks a run of the lowering that its fuel cut off.
\<close>

datatype typing_error =
  Unsupported typing_node unsupported_feature
| UniverseLevelOverflow value_id u32
| ExpectedType value_id string
| CannotInferValue value_id value_tag
| ExpectedFunction computation_id string
| ExpectedPair value_id string
| ValueTypeMismatch value_id string string
| ComputationTypeMismatch computation_id string string
| GradeViolation value_id grade_id u32 grade_upper_bound u64
| SynthesizedGradeOverflow value_id u64
| DefinitionKindMismatch definition_key definition_key
| UnknownPureDefinition definition_key
| MissingGlobalBoundary definition_key
| BindingIndexOverflow typing_node
| BindingOutOfScope value_id u32 nat
| NormalizationLimitExceeded typing_node u64
| TypingPanic
| OutOfFuel

section \<open>Terms\<close>

text \<open>A node is its \<open>source\<close> and its \<open>term\<close>: the first argument of each constructor is the source.\<close>

datatype pure_value =
  VBound value_id u32
| VGlobal value_id definition_key semantic_key
| VUniverse value_id universe
| VPi value_id pure_value pure_value grade_id grade_interval
| VSigma value_id pure_value pure_value
| VLambda value_id pure_computation
| VPair value_id pure_value pure_value
| VFirst value_id pure_value
| VSecond value_id pure_value
and pure_computation =
  PReturn computation_id pure_value
| PLet computation_id pure_value pure_computation
| PBind computation_id pure_computation pure_computation
| PApply computation_id pure_value pure_value

fun value_source :: "pure_value \<Rightarrow> value_id" where
  "value_source (VBound s _) = s"
| "value_source (VGlobal s _ _) = s"
| "value_source (VUniverse s _) = s"
| "value_source (VPi s _ _ _ _) = s"
| "value_source (VSigma s _ _) = s"
| "value_source (VLambda s _) = s"
| "value_source (VPair s _ _) = s"
| "value_source (VFirst s _) = s"
| "value_source (VSecond s _) = s"

fun computation_source :: "pure_computation \<Rightarrow> computation_id" where
  "computation_source (PReturn s _) = s"
| "computation_source (PLet s _ _) = s"
| "computation_source (PBind s _ _) = s"
| "computation_source (PApply s _ _) = s"

text \<open>What a term means in the calculus.\<close>

primrec erase_value :: "pure_value \<Rightarrow> core_term"
  and erase_computation :: "pure_computation \<Rightarrow> core_term" where
  "erase_value (VBound s i) = CVar (unat i)"
| "erase_value (VGlobal s d m) = CGlobal d m"
| "erase_value (VUniverse s u) = CUniverse u"
| "erase_value (VPi s a b g i) = CPi (erase_value a) (erase_value b) i"
| "erase_value (VSigma s a b) = CSigma (erase_value a) (erase_value b)"
| "erase_value (VLambda s c) = CLam (erase_computation c)"
| "erase_value (VPair s a b) = CPair (erase_value a) (erase_value b)"
| "erase_value (VFirst s a) = CFst (erase_value a)"
| "erase_value (VSecond s a) = CSnd (erase_value a)"
| "erase_computation (PReturn s a) = CReturn (erase_value a)"
| "erase_computation (PLet s a b) = CLet (erase_value a) (erase_computation b)"
| "erase_computation (PBind s a b) = CBind (erase_computation a) (erase_computation b)"
| "erase_computation (PApply s a b) = CApp (erase_value a) (erase_value b)"

section \<open>Shifting\<close>

definition next_binding_depth :: "u32 \<Rightarrow> typing_node \<Rightarrow> (typing_error, u32) result" where
  "next_binding_depth depth node =
     (case checked_add_u32 depth 1 of None \<Rightarrow> Inl (BindingIndexOverflow node) | Some d \<Rightarrow> Inr d)"

lemma next_binding_depth_Inr [simp]:
  "next_binding_depth d n = Inr d' \<longleftrightarrow> unat d' = Suc (unat d)"
  using checked_add_u32_Some [of d 1 d'] by (auto simp: next_binding_depth_def split: option.splits)

lemma next_binding_depth_Inl [simp]:
  "next_binding_depth d n = Inl e \<longleftrightarrow> unat d = 2 ^ 32 - 1 \<and> e = BindingIndexOverflow n"
  using checked_add_u32_None [of d 1] unat_u32_bound [of d, unfolded less_eq_Suc_le]
  by (auto simp: next_binding_depth_def split: option.splits)

definition shift_index :: "value_id \<Rightarrow> u32 \<Rightarrow> u32 \<Rightarrow> u32 \<Rightarrow> (typing_error, u32) result" where
  "shift_index source amount cutoff index =
     (if index \<ge> cutoff then
        (case checked_add_u32 index amount of
           None \<Rightarrow> Inl (BindingIndexOverflow (NodeValue source)) | Some i \<Rightarrow> Inr i)
      else Inr index)"

fun shift_value :: "pure_value \<Rightarrow> u32 \<Rightarrow> u32 \<Rightarrow> (typing_error, pure_value) result"
  and shift_computation :: "pure_computation \<Rightarrow> u32 \<Rightarrow> u32 \<Rightarrow> (typing_error, pure_computation) result" where
  "shift_value (VBound s index) amount cutoff =
     and_then (shift_index s amount cutoff index) (\<lambda>shifted. Inr (VBound s shifted))"
| "shift_value (VGlobal s d m) amount cutoff = Inr (VGlobal s d m)"
| "shift_value (VUniverse s u) amount cutoff = Inr (VUniverse s u)"
| "shift_value (VPi s domain codomain grade interval) amount cutoff =
     and_then (shift_value domain amount cutoff) (\<lambda>domain'.
     and_then (next_binding_depth cutoff (NodeValue s)) (\<lambda>below.
     and_then (shift_value codomain amount below) (\<lambda>codomain'.
       Inr (VPi s domain' codomain' grade interval))))"
| "shift_value (VSigma s one two) amount cutoff =
     and_then (shift_value one amount cutoff) (\<lambda>one'.
     and_then (next_binding_depth cutoff (NodeValue s)) (\<lambda>below.
     and_then (shift_value two amount below) (\<lambda>two'.
       Inr (VSigma s one' two'))))"
| "shift_value (VLambda s body) amount cutoff =
     and_then (next_binding_depth cutoff (NodeValue s)) (\<lambda>below.
     and_then (shift_computation body amount below) (\<lambda>body'. Inr (VLambda s body')))"
| "shift_value (VPair s one two) amount cutoff =
     and_then (shift_value one amount cutoff) (\<lambda>one'.
     and_then (shift_value two amount cutoff) (\<lambda>two'. Inr (VPair s one' two')))"
| "shift_value (VFirst s pair) amount cutoff =
     and_then (shift_value pair amount cutoff) (\<lambda>pair'. Inr (VFirst s pair'))"
| "shift_value (VSecond s pair) amount cutoff =
     and_then (shift_value pair amount cutoff) (\<lambda>pair'. Inr (VSecond s pair'))"
| "shift_computation (PReturn s v) amount cutoff =
     and_then (shift_value v amount cutoff) (\<lambda>v'. Inr (PReturn s v'))"
| "shift_computation (PLet s v body) amount cutoff =
     and_then (shift_value v amount cutoff) (\<lambda>v'.
     and_then (next_binding_depth cutoff (NodeComputation s)) (\<lambda>below.
     and_then (shift_computation body amount below) (\<lambda>body'. Inr (PLet s v' body'))))"
| "shift_computation (PBind s one body) amount cutoff =
     and_then (shift_computation one amount cutoff) (\<lambda>one'.
     and_then (next_binding_depth cutoff (NodeComputation s)) (\<lambda>below.
     and_then (shift_computation body amount below) (\<lambda>body'. Inr (PBind s one' body'))))"
| "shift_computation (PApply s function argument) amount cutoff =
     and_then (shift_value function amount cutoff) (\<lambda>function'.
     and_then (shift_value argument amount cutoff) (\<lambda>argument'. Inr (PApply s function' argument')))"

lemma shift_index_lift: "shift_index s n k i = Inr j \<Longrightarrow> CVar (unat j) = lift (unat n) (unat k) (CVar (unat i))"
  by (auto simp: shift_index_def checked_simps word_le_nat_alt split: if_splits option.splits)

lemma shift_refines:
  "shift_value v n k = Inr v' \<Longrightarrow> erase_value v' = lift (unat n) (unat k) (erase_value v)"
  "shift_computation c n k = Inr c' \<Longrightarrow> erase_computation c' = lift (unat n) (unat k) (erase_computation c)"
  by (induction v n k and c n k arbitrary: v' and c' rule: shift_value_shift_computation.induct)
    (auto simp: and_then_eq_Inr dest: shift_index_lift simp del: lift.simps(1))

lemma shift_error:
  "shift_value v n k = Inl e \<Longrightarrow> \<exists>node. e = BindingIndexOverflow node"
  "shift_computation c n k = Inl e \<Longrightarrow> \<exists>node. e = BindingIndexOverflow node"
  by (induction v n k and c n k arbitrary: e and e rule: shift_value_shift_computation.induct)
    (auto simp: and_then_eq_Inl shift_index_def split: if_splits option.splits)

section \<open>Substitution\<close>

fun substitute_value :: "pure_value \<Rightarrow> pure_value \<Rightarrow> u32 \<Rightarrow> (typing_error, pure_value) result"
  and substitute_computation :: "pure_computation \<Rightarrow> pure_value \<Rightarrow> u32 \<Rightarrow> (typing_error, pure_computation) result" where
  "substitute_value (VBound s index) r depth =
     (if index = depth then shift_value r depth 0
      else Inr (VBound s (if index > depth then index - 1 else index)))"
| "substitute_value (VGlobal s d m) r depth = Inr (VGlobal s d m)"
| "substitute_value (VUniverse s u) r depth = Inr (VUniverse s u)"
| "substitute_value (VPi s domain codomain grade interval) r depth =
     and_then (substitute_value domain r depth) (\<lambda>domain'.
     and_then (next_binding_depth depth (NodeValue s)) (\<lambda>below.
     and_then (substitute_value codomain r below) (\<lambda>codomain'.
       Inr (VPi s domain' codomain' grade interval))))"
| "substitute_value (VSigma s one two) r depth =
     and_then (substitute_value one r depth) (\<lambda>one'.
     and_then (next_binding_depth depth (NodeValue s)) (\<lambda>below.
     and_then (substitute_value two r below) (\<lambda>two'.
       Inr (VSigma s one' two'))))"
| "substitute_value (VLambda s body) r depth =
     and_then (next_binding_depth depth (NodeValue s)) (\<lambda>below.
     and_then (substitute_computation body r below) (\<lambda>body'. Inr (VLambda s body')))"
| "substitute_value (VPair s one two) r depth =
     and_then (substitute_value one r depth) (\<lambda>one'.
     and_then (substitute_value two r depth) (\<lambda>two'. Inr (VPair s one' two')))"
| "substitute_value (VFirst s pair) r depth =
     and_then (substitute_value pair r depth) (\<lambda>pair'. Inr (VFirst s pair'))"
| "substitute_value (VSecond s pair) r depth =
     and_then (substitute_value pair r depth) (\<lambda>pair'. Inr (VSecond s pair'))"
| "substitute_computation (PReturn s v) r depth =
     and_then (substitute_value v r depth) (\<lambda>v'. Inr (PReturn s v'))"
| "substitute_computation (PLet s v body) r depth =
     and_then (substitute_value v r depth) (\<lambda>v'.
     and_then (next_binding_depth depth (NodeComputation s)) (\<lambda>below.
     and_then (substitute_computation body r below) (\<lambda>body'. Inr (PLet s v' body'))))"
| "substitute_computation (PBind s one body) r depth =
     and_then (substitute_computation one r depth) (\<lambda>one'.
     and_then (next_binding_depth depth (NodeComputation s)) (\<lambda>below.
     and_then (substitute_computation body r below) (\<lambda>body'. Inr (PBind s one' body'))))"
| "substitute_computation (PApply s function argument) r depth =
     and_then (substitute_value function r depth) (\<lambda>function'.
     and_then (substitute_value argument r depth) (\<lambda>argument'. Inr (PApply s function' argument')))"

definition substitute_value_top :: "pure_value \<Rightarrow> pure_value \<Rightarrow> (typing_error, pure_value) result" where
  "substitute_value_top v r = substitute_value v r 0"

lemma unat_pred: "unat (d :: u32) < unat i \<Longrightarrow> unat (i - 1) = unat i - 1"
  by (rule unat_minus_one) auto

lemma substitute_refines:
  "substitute_value v r d = Inr v' \<Longrightarrow> erase_value v' = subst (erase_value r) (unat d) (erase_value v)"
  "substitute_computation c r d = Inr c' \<Longrightarrow>
     erase_computation c' = subst (erase_value r) (unat d) (erase_computation c)"
proof (induction v r d and c r d arbitrary: v' and c' rule: substitute_value_substitute_computation.induct)
  case (1 s i r d)
  then show ?case
    by (auto dest: shift_refines simp: unat_pred [of d i] word_less_nat_alt [of d i] word_unat_eq_iff split: if_splits)
qed (auto simp: and_then_eq_Inr)

lemma substitute_error:
  "substitute_value v r d = Inl e \<Longrightarrow> \<exists>node. e = BindingIndexOverflow node"
  "substitute_computation c r d = Inl e \<Longrightarrow> \<exists>node. e = BindingIndexOverflow node"
  by (induction v r d and c r d arbitrary: e and e rule: substitute_value_substitute_computation.induct)
    (auto simp: and_then_eq_Inl dest: shift_error split: if_splits)

section \<open>Removing a binder\<close>

text \<open>
  The source answers \<open>Err(())\<close> when the variable occurs, and adds one to the depth without a
  check: \<open>DepthOverflow\<close> is that panic.
\<close>

datatype removal_error = VariableOccurs | DepthOverflow

definition deeper_binder :: "u32 \<Rightarrow> (removal_error, u32) result" where
  "deeper_binder depth = (case checked_add_u32 depth 1 of None \<Rightarrow> Inl DepthOverflow | Some d \<Rightarrow> Inr d)"

lemma deeper_binder_Inr [simp]: "deeper_binder d = Inr d' \<longleftrightarrow> unat d' = Suc (unat d)"
  using checked_add_u32_Some [of d 1 d'] by (auto simp: deeper_binder_def split: option.splits)

lemma deeper_binder_Inl [simp]: "deeper_binder d = Inl e \<longleftrightarrow> unat d = 2 ^ 32 - 1 \<and> e = DepthOverflow"
  using checked_add_u32_None [of d 1] unat_u32_bound [of d, unfolded less_eq_Suc_le]
  by (auto simp: deeper_binder_def split: option.splits)

fun remove_value_binder :: "pure_value \<Rightarrow> u32 \<Rightarrow> (removal_error, pure_value) result"
  and remove_computation_binder :: "pure_computation \<Rightarrow> u32 \<Rightarrow> (removal_error, pure_computation) result" where
  "remove_value_binder (VBound s index) depth =
     (if index = depth then Inl VariableOccurs
      else Inr (VBound s (if index > depth then index - 1 else index)))"
| "remove_value_binder (VGlobal s d m) depth = Inr (VGlobal s d m)"
| "remove_value_binder (VUniverse s u) depth = Inr (VUniverse s u)"
| "remove_value_binder (VPi s domain codomain grade interval) depth =
     and_then (remove_value_binder domain depth) (\<lambda>domain'.
     and_then (deeper_binder depth) (\<lambda>below.
     and_then (remove_value_binder codomain below) (\<lambda>codomain'.
       Inr (VPi s domain' codomain' grade interval))))"
| "remove_value_binder (VSigma s one two) depth =
     and_then (remove_value_binder one depth) (\<lambda>one'.
     and_then (deeper_binder depth) (\<lambda>below.
     and_then (remove_value_binder two below) (\<lambda>two'. Inr (VSigma s one' two'))))"
| "remove_value_binder (VLambda s body) depth =
     and_then (deeper_binder depth) (\<lambda>below.
     and_then (remove_computation_binder body below) (\<lambda>body'. Inr (VLambda s body')))"
| "remove_value_binder (VPair s one two) depth =
     and_then (remove_value_binder one depth) (\<lambda>one'.
     and_then (remove_value_binder two depth) (\<lambda>two'. Inr (VPair s one' two')))"
| "remove_value_binder (VFirst s pair) depth =
     and_then (remove_value_binder pair depth) (\<lambda>pair'. Inr (VFirst s pair'))"
| "remove_value_binder (VSecond s pair) depth =
     and_then (remove_value_binder pair depth) (\<lambda>pair'. Inr (VSecond s pair'))"
| "remove_computation_binder (PReturn s v) depth =
     and_then (remove_value_binder v depth) (\<lambda>v'. Inr (PReturn s v'))"
| "remove_computation_binder (PLet s v body) depth =
     and_then (remove_value_binder v depth) (\<lambda>v'.
     and_then (deeper_binder depth) (\<lambda>below.
     and_then (remove_computation_binder body below) (\<lambda>body'. Inr (PLet s v' body'))))"
| "remove_computation_binder (PBind s one body) depth =
     and_then (remove_computation_binder one depth) (\<lambda>one'.
     and_then (deeper_binder depth) (\<lambda>below.
     and_then (remove_computation_binder body below) (\<lambda>body'. Inr (PBind s one' body'))))"
| "remove_computation_binder (PApply s function argument) depth =
     and_then (remove_value_binder function depth) (\<lambda>function'.
     and_then (remove_value_binder argument depth) (\<lambda>argument'. Inr (PApply s function' argument')))"

lemma remove_refines:
  "remove_value_binder v d = Inr v' \<Longrightarrow> lift 1 (unat d) (erase_value v') = erase_value v \<and> occurrences (erase_value v) (unat d) = 0"
  "remove_computation_binder c d = Inr c' \<Longrightarrow>
     lift 1 (unat d) (erase_computation c') = erase_computation c \<and> occurrences (erase_computation c) (unat d) = 0"
proof (induction v d and c d arbitrary: v' and c' rule: remove_value_binder_remove_computation_binder.induct)
  case (1 s i d)
  then show ?case
    by (auto simp: unat_pred [of d i] word_less_nat_alt [of d i] word_unat_eq_iff split: if_splits)
qed (auto simp: and_then_eq_Inr)

lemma remove_occurs:
  "remove_value_binder v d = Inl VariableOccurs \<Longrightarrow> occurrences (erase_value v) (unat d) > 0"
  "remove_computation_binder c d = Inl VariableOccurs \<Longrightarrow> occurrences (erase_computation c) (unat d) > 0"
  by (induction v d and c d rule: remove_value_binder_remove_computation_binder.induct)
    (fastforce simp: and_then_eq_Inl split: if_splits)+

section \<open>Counting uses\<close>

definition use_count_limit :: u64 where "use_count_limit = 2 ^ 32"

definition saturating_add_u64 :: "u64 \<Rightarrow> u64 \<Rightarrow> u64" where
  "saturating_add_u64 a b = (if unat a + unat b < 2 ^ 64 then a + b else - 1)"

definition add_uses :: "u64 \<Rightarrow> u64 \<Rightarrow> u64" where
  "add_uses l r = min (saturating_add_u64 l r) use_count_limit"

fun grade_contains :: "grade_interval \<Rightarrow> u64 \<Rightarrow> bool" where
  "grade_contains g uses =
     (if uses < ucast (grade_lower g) then False
      else case grade_upper g of Finite v \<Rightarrow> uses \<le> ucast v | Unbounded \<Rightarrow> True)"

text \<open>
  \<open>UsageCounter\<close> and \<open>Normalizer\<close> remember results under the address of a shared node. Which
  lookups find an entry depends on the sharing of the input, so the model takes it as an
  argument: \<open>shared n\<close> says whether the node of the \<open>n\<close>-th lookup is one already in the
  table. Nodes in a table stay alive, so an address stands for one term, and an answer is one
  the table holds for that term.
\<close>

definition recall :: "(nat \<Rightarrow> bool) \<Rightarrow> nat \<Rightarrow> ('k \<times> 'v) list \<Rightarrow> 'k \<Rightarrow> 'v option" where
  "recall shared n table k = (if shared n then map_of table k else None)"

lemma recall_Some: "recall shared n table k = Some v \<Longrightarrow> (k, v) \<in> set table"
  by (auto simp: recall_def dest: map_of_SomeD split: if_splits)

record usage_counter =
  value_uses :: "((pure_value \<times> u32) \<times> u64) list"
  computation_uses :: "((pure_computation \<times> u32) \<times> u64) list"
  use_lookups :: nat

definition new_usage_counter :: usage_counter where
  "new_usage_counter = \<lparr>value_uses = [], computation_uses = [], use_lookups = 0\<rparr>"

definition remember_value_uses :: "pure_value \<Rightarrow> u32 \<Rightarrow> u64 \<times> usage_counter \<Rightarrow> u64 \<times> usage_counter" where
  "remember_value_uses v target r = (fst r, (snd r)\<lparr>value_uses := ((v, target), fst r) # value_uses (snd r)\<rparr>)"

definition remember_computation_uses ::
  "pure_computation \<Rightarrow> u32 \<Rightarrow> u64 \<times> usage_counter \<Rightarrow> u64 \<times> usage_counter" where
  "remember_computation_uses c target r =
     (fst r, (snd r)\<lparr>computation_uses := ((c, target), fst r) # computation_uses (snd r)\<rparr>)"

definition uses_lookup :: "usage_counter \<Rightarrow> usage_counter" where
  "uses_lookup st = st\<lparr>use_lookups := Suc (use_lookups st)\<rparr>"

text \<open>The remembered count, or else \<open>count\<close> and remember it.\<close>

definition value_uses_or ::
  "(nat \<Rightarrow> bool) \<Rightarrow> pure_value \<Rightarrow> u32 \<Rightarrow> usage_counter \<Rightarrow>
   (usage_counter \<Rightarrow> (typing_error, u64 \<times> usage_counter) result) \<Rightarrow> (typing_error, u64 \<times> usage_counter) result" where
  "value_uses_or shared v target st count =
     (case recall shared (use_lookups st) (value_uses st) (v, target) of
        Some uses \<Rightarrow> Inr (uses, uses_lookup st)
      | None \<Rightarrow> and_then (count (uses_lookup st)) (\<lambda>r. Inr (remember_value_uses v target r)))"

definition computation_uses_or ::
  "(nat \<Rightarrow> bool) \<Rightarrow> pure_computation \<Rightarrow> u32 \<Rightarrow> usage_counter \<Rightarrow>
   (usage_counter \<Rightarrow> (typing_error, u64 \<times> usage_counter) result) \<Rightarrow> (typing_error, u64 \<times> usage_counter) result" where
  "computation_uses_or shared c target st count =
     (case recall shared (use_lookups st) (computation_uses st) (c, target) of
        Some uses \<Rightarrow> Inr (uses, uses_lookup st)
      | None \<Rightarrow> and_then (count (uses_lookup st)) (\<lambda>r. Inr (remember_computation_uses c target r)))"

lemma value_uses_or_cong [fundef_cong]:
  "v = v' \<Longrightarrow> (\<And>s. count s = count' s) \<Longrightarrow>
   value_uses_or shared v t st count = value_uses_or shared v' t st count'"
  by (metis ext)

lemma computation_uses_or_cong [fundef_cong]:
  "c = c' \<Longrightarrow> (\<And>s. count s = count' s) \<Longrightarrow>
   computation_uses_or shared c t st count = computation_uses_or shared c' t st count'"
  by (metis ext)

fun count_value :: "(nat \<Rightarrow> bool) \<Rightarrow> pure_value \<Rightarrow> u32 \<Rightarrow> usage_counter \<Rightarrow> (typing_error, u64 \<times> usage_counter) result"
  and count_computation ::
    "(nat \<Rightarrow> bool) \<Rightarrow> pure_computation \<Rightarrow> u32 \<Rightarrow> usage_counter \<Rightarrow> (typing_error, u64 \<times> usage_counter) result" where
  "count_value sh (VBound s i) target st =
     value_uses_or sh (VBound s i) target st (\<lambda>st. Inr (if i = target then 1 else 0, st))"
| "count_value sh (VGlobal s d m) target st =
     value_uses_or sh (VGlobal s d m) target st (\<lambda>st. Inr (0, st))"
| "count_value sh (VUniverse s u) target st =
     value_uses_or sh (VUniverse s u) target st (\<lambda>st. Inr (0, st))"
| "count_value sh (VPi s domain codomain grade interval) target st =
     value_uses_or sh (VPi s domain codomain grade interval) target st (\<lambda>st.
       and_then (next_binding_depth target (NodeValue s)) (\<lambda>below.
       and_then (count_value sh domain target st) (\<lambda>(m, st).
       and_then (count_value sh codomain below st) (\<lambda>(n, st). Inr (add_uses m n, st)))))"
| "count_value sh (VSigma s one two) target st =
     value_uses_or sh (VSigma s one two) target st (\<lambda>st.
       and_then (next_binding_depth target (NodeValue s)) (\<lambda>below.
       and_then (count_value sh one target st) (\<lambda>(m, st).
       and_then (count_value sh two below st) (\<lambda>(n, st). Inr (add_uses m n, st)))))"
| "count_value sh (VLambda s body) target st =
     value_uses_or sh (VLambda s body) target st (\<lambda>st.
       and_then (next_binding_depth target (NodeValue s)) (\<lambda>below. count_computation sh body below st))"
| "count_value sh (VPair s one two) target st =
     value_uses_or sh (VPair s one two) target st (\<lambda>st.
       and_then (count_value sh one target st) (\<lambda>(m, st).
       and_then (count_value sh two target st) (\<lambda>(n, st). Inr (add_uses m n, st))))"
| "count_value sh (VFirst s pair) target st =
     value_uses_or sh (VFirst s pair) target st (\<lambda>st. count_value sh pair target st)"
| "count_value sh (VSecond s pair) target st =
     value_uses_or sh (VSecond s pair) target st (\<lambda>st. count_value sh pair target st)"
| "count_computation sh (PReturn s v) target st =
     computation_uses_or sh (PReturn s v) target st (\<lambda>st. count_value sh v target st)"
| "count_computation sh (PLet s v body) target st =
     computation_uses_or sh (PLet s v body) target st (\<lambda>st.
       and_then (next_binding_depth target (NodeComputation s)) (\<lambda>below.
       and_then (count_value sh v target st) (\<lambda>(m, st).
       and_then (count_computation sh body below st) (\<lambda>(n, st). Inr (add_uses m n, st)))))"
| "count_computation sh (PBind s one body) target st =
     computation_uses_or sh (PBind s one body) target st (\<lambda>st.
       and_then (next_binding_depth target (NodeComputation s)) (\<lambda>below.
       and_then (count_computation sh one target st) (\<lambda>(m, st).
       and_then (count_computation sh body below st) (\<lambda>(n, st). Inr (add_uses m n, st)))))"
| "count_computation sh (PApply s function argument) target st =
     computation_uses_or sh (PApply s function argument) target st (\<lambda>st.
       and_then (count_value sh function target st) (\<lambda>(m, st).
       and_then (count_value sh argument target st) (\<lambda>(n, st). Inr (add_uses m n, st))))"

definition count_bound_computation ::
  "(nat \<Rightarrow> bool) \<Rightarrow> pure_computation \<Rightarrow> u32 \<Rightarrow> (typing_error, u64) result" where
  "count_bound_computation sh c target =
     and_then (count_computation sh c target new_usage_counter) (\<lambda>r. Inr (fst r))"

text \<open>What the counter computes: occurrences, cut off at the limit.\<close>

definition counted :: "core_term \<Rightarrow> nat \<Rightarrow> u64 \<Rightarrow> bool" where
  "counted t k n \<longleftrightarrow> unat n = min (occurrences t k) (2 ^ 32)"

definition counter_ok :: "usage_counter \<Rightarrow> bool" where
  "counter_ok st \<longleftrightarrow>
     (\<forall>((v, k), n) \<in> set (value_uses st). counted (erase_value v) (unat k) n) \<and>
     (\<forall>((c, k), n) \<in> set (computation_uses st). counted (erase_computation c) (unat k) n)"

lemma counter_ok_new [simp]: "counter_ok new_usage_counter"
  by (simp add: counter_ok_def new_usage_counter_def)

lemma counter_ok_lookup [simp]: "counter_ok (uses_lookup st) = counter_ok st"
  by (simp add: counter_ok_def uses_lookup_def)

lemma counter_ok_remember_value:
  "counted (erase_value v) (unat k) n \<Longrightarrow> counter_ok s \<Longrightarrow> counter_ok (snd (remember_value_uses v k (n, s)))"
  by (simp add: remember_value_uses_def counter_ok_def)

lemma counter_ok_recall_value:
  "recall sh i (value_uses st) (v, k) = Some n \<Longrightarrow> counter_ok st \<Longrightarrow> counted (erase_value v) (unat k) n"
  by (drule recall_Some) (fastforce simp: counter_ok_def)

lemma value_uses_or_ok:
  assumes "value_uses_or sh v k st count = Inr (n, st')" "counter_ok st"
    and "\<And>s n s'. counter_ok s \<Longrightarrow> count s = Inr (n, s') \<Longrightarrow> counted (erase_value v) (unat k) n \<and> counter_ok s'"
  shows "counted (erase_value v) (unat k) n \<and> counter_ok st'"
proof (cases "recall sh (use_lookups st) (value_uses st) (v, k)")
  case None
  with assms(1) obtain m s where run: "count (uses_lookup st) = Inr (m, s)"
      and res: "remember_value_uses v k (m, s) = (n, st')"
    by (auto simp: value_uses_or_def and_then_eq_Inr)
  from assms(2) assms(3) [OF _ run] have ok: "counted (erase_value v) (unat k) m" "counter_ok s" by simp_all
  with counter_ok_remember_value [OF ok] res show ?thesis by (auto simp: remember_value_uses_def)
next
  case (Some m)
  with assms(1,2) counter_ok_recall_value [OF Some] show ?thesis by (auto simp: value_uses_or_def)
qed

lemma counter_ok_remember_computation:
  "counted (erase_computation v) (unat k) n \<Longrightarrow> counter_ok s \<Longrightarrow> counter_ok (snd (remember_computation_uses v k (n, s)))"
  by (simp add: remember_computation_uses_def counter_ok_def)

lemma counter_ok_recall_computation:
  "recall sh i (computation_uses st) (v, k) = Some n \<Longrightarrow> counter_ok st \<Longrightarrow> counted (erase_computation v) (unat k) n"
  by (drule recall_Some) (fastforce simp: counter_ok_def)

lemma computation_uses_or_ok:
  assumes "computation_uses_or sh v k st count = Inr (n, st')" "counter_ok st"
    and "\<And>s n s'. counter_ok s \<Longrightarrow> count s = Inr (n, s') \<Longrightarrow> counted (erase_computation v) (unat k) n \<and> counter_ok s'"
  shows "counted (erase_computation v) (unat k) n \<and> counter_ok st'"
proof (cases "recall sh (use_lookups st) (computation_uses st) (v, k)")
  case None
  with assms(1) obtain m s where run: "count (uses_lookup st) = Inr (m, s)"
      and res: "remember_computation_uses v k (m, s) = (n, st')"
    by (auto simp: computation_uses_or_def and_then_eq_Inr)
  from assms(2) assms(3) [OF _ run] have ok: "counted (erase_computation v) (unat k) m" "counter_ok s" by simp_all
  with counter_ok_remember_computation [OF ok] res show ?thesis by (auto simp: remember_computation_uses_def)
next
  case (Some m)
  with assms(1,2) counter_ok_recall_computation [OF Some] show ?thesis by (auto simp: computation_uses_or_def)
qed

lemma unat_saturating_add: "unat (saturating_add_u64 a b) = min (unat a + unat b) (2 ^ 64 - 1)"
  using unsigned_less [of a, where ?'a = nat] unsigned_less [of b, where ?'a = nat]
  by (auto simp: saturating_add_u64_def unat_word_ariths min_def unsigned_minus_1_eq_mask mask_eq_exp_minus_1)

lemma add_uses_counted:
  assumes "unat m = min a (2 ^ 32)" "unat n = min b (2 ^ 32)"
  shows "unat (add_uses m n) = min (a + b) (2 ^ 32)"
proof -
  have "unat (add_uses m n) = min (min (unat m + unat n) (2 ^ 64 - 1)) (2 ^ 32)"
    unfolding add_uses_def min_def [of "saturating_add_u64 m n"] word_le_nat_alt unat_saturating_add use_count_limit_def
    by (auto simp: unat_saturating_add)
  also have "\<dots> = min (unat m + unat n) (2 ^ 32)" by (simp add: min_def)
  also have "\<dots> = min (a + b) (2 ^ 32)" unfolding assms by (simp add: min_def)
  finally show ?thesis .
qed

text \<open>A counting step that keeps the tables right and counts the occurrences.\<close>

definition counts ::
  "(usage_counter \<Rightarrow> (typing_error, u64 \<times> usage_counter) result) \<Rightarrow> core_term \<Rightarrow> nat \<Rightarrow> bool" where
  "counts f t k \<longleftrightarrow>
     (\<forall>st n st'. counter_ok st \<longrightarrow> f st = Inr (n, st') \<longrightarrow> counted t k n \<and> counter_ok st')"

lemma counts_const: "counted t k n \<Longrightarrow> counts (\<lambda>st. Inr (n, st)) t k"
  by (auto simp: counts_def)

lemma counts_same: "counts f a i \<Longrightarrow> occurrences t k = occurrences a i \<Longrightarrow> counts f t k"
  by (auto simp: counts_def counted_def)

lemma counts_both:
  assumes "counts f a i" "counts g b j" "occurrences t k = occurrences a i + occurrences b j"
  shows "counts (\<lambda>st. and_then (f st) (\<lambda>(m, st). and_then (g st) (\<lambda>(n, st). Inr (add_uses m n, st)))) t k"
  unfolding counts_def
proof (intro allI impI)
  fix st u st' assume ok: "counter_ok st"
    and run: "and_then (f st) (\<lambda>(m, st). and_then (g st) (\<lambda>(n, st). Inr (add_uses m n, st))) = Inr (u, st')"
  from run obtain m s n where fst: "f st = Inr (m, s)" and snd: "g s = Inr (n, st')" and u: "u = add_uses m n"
    by (auto simp: and_then_eq_Inr)
  from assms(1) ok fst have m: "counted a i m" "counter_ok s" by (auto simp: counts_def)
  from assms(2) m(2) snd have n: "counted b j n" "counter_ok st'" by (auto simp: counts_def)
  from m(1) n assms(3) show "counted t k u \<and> counter_ok st'"
    by (simp add: counted_def u add_uses_counted)
qed

lemma counts_below:
  assumes "\<And>below. unat below = Suc (unat k) \<Longrightarrow> counts (f below) t i"
  shows "counts (\<lambda>st. and_then (next_binding_depth k node) (\<lambda>below. f below st)) t i"
  unfolding counts_def
proof (intro allI impI)
  fix st n st' assume ok: "counter_ok st"
    and run: "and_then (next_binding_depth k node) (\<lambda>below. f below st) = Inr (n, st')"
  from run obtain below where "unat below = Suc (unat k)" "f below st = Inr (n, st')"
    by (auto simp: and_then_eq_Inr)
  with assms ok show "counted t i n \<and> counter_ok st'" by (auto simp: counts_def)
qed

lemma counts_value_uses_or:
  "counts f (erase_value v) (unat k) \<Longrightarrow> counts (\<lambda>st. value_uses_or sh v k st f) (erase_value v) (unat k)"
  unfolding counts_def [of "\<lambda>st. value_uses_or sh v k st f"] by (auto dest!: value_uses_or_ok simp: counts_def)

lemma counts_computation_uses_or:
  "counts f (erase_computation c) (unat k) \<Longrightarrow>
     counts (\<lambda>st. computation_uses_or sh c k st f) (erase_computation c) (unat k)"
  unfolding counts_def [of "\<lambda>st. computation_uses_or sh c k st f"] by (auto dest!: computation_uses_or_ok simp: counts_def)

lemmas count_unfold = count_value.simps [THEN ext] count_computation.simps [THEN ext]

lemma count_exact:
  "counts (count_value sh v k) (erase_value v) (unat k)"
  "counts (count_computation sh c k) (erase_computation c) (unat k)"
proof (induction v and c arbitrary: k and k)
  case (VBound s i)
  show ?case unfolding count_unfold
    by (intro counts_value_uses_or counts_const) (auto simp: counted_def word_unat_eq_iff)
next
  case (VGlobal s d m)
  show ?case unfolding count_unfold by (intro counts_value_uses_or counts_const) (simp add: counted_def)
next
  case (VUniverse s u)
  show ?case unfolding count_unfold by (intro counts_value_uses_or counts_const) (simp add: counted_def)
next
  case (VPi s a b g i)
  show ?case unfolding count_unfold
    by (intro counts_value_uses_or counts_below counts_both [OF VPi.IH]) simp
next
  case (VSigma s a b)
  show ?case unfolding count_unfold
    by (intro counts_value_uses_or counts_below counts_both [OF VSigma.IH]) simp
next
  case (VLambda s c)
  show ?case unfolding count_unfold
    by (intro counts_value_uses_or counts_below counts_same [OF VLambda.IH]) simp
next
  case (VPair s a b)
  show ?case unfolding count_unfold
    by (intro counts_value_uses_or counts_both [OF VPair.IH]) simp
next
  case (VFirst s a)
  show ?case unfolding count_unfold by (intro counts_value_uses_or counts_same [OF VFirst.IH]) simp
next
  case (VSecond s a)
  show ?case unfolding count_unfold by (intro counts_value_uses_or counts_same [OF VSecond.IH]) simp
next
  case (PReturn s a)
  show ?case unfolding count_unfold by (intro counts_computation_uses_or counts_same [OF PReturn.IH]) simp
next
  case (PLet s a b)
  show ?case unfolding count_unfold
    by (intro counts_computation_uses_or counts_below counts_both [OF PLet.IH]) simp
next
  case (PBind s a b)
  show ?case unfolding count_unfold
    by (intro counts_computation_uses_or counts_below counts_both [OF PBind.IH]) simp
next
  case (PApply s a b)
  show ?case unfolding count_unfold
    by (intro counts_computation_uses_or counts_both [OF PApply.IH]) simp
qed

lemma count_bound_exact:
  "count_bound_computation sh c k = Inr n \<Longrightarrow> counted (erase_computation c) (unat k) n"
  using count_exact(2) [of sh c k] counter_ok_new unfolding counts_def count_bound_computation_def and_then_eq_Inr
  by (metis prod.collapse sum.inject(2))

lemma unat_ucast_u64 [simp]: "unat (ucast (v :: u32) :: u64) = unat v"
  using unat_u32_bound [of v] by (simp add: unsigned_ucast_eq take_bit_nat_eq_self del: unat_u32_bound)

lemma grade_contains_admits:
  assumes "counted t k n"
  shows "grade_contains g n \<longleftrightarrow> admits g (occurrences t k)"
proof -
  have cut: "unat n < unat v \<longleftrightarrow> occurrences t k < unat v" "unat n \<le> unat v \<longleftrightarrow> occurrences t k \<le> unat v" for v :: u32
    using assms unat_u32_bound [of v] by (auto simp: counted_def min_def simp del: unat_u32_bound)
  show ?thesis
    by (cases "grade_upper g") (auto simp: admits_def word_less_nat_alt word_le_nat_alt cut)
qed

section \<open>Structural equality\<close>

text \<open>\<open>values_equal\<close> and \<open>computations_equal\<close>, whose second conjunct is not reached when the first fails.\<close>

definition and_also :: "('e, bool) result \<Rightarrow> ('e, bool) result \<Rightarrow> ('e, bool) result" where
  "and_also l r = and_then l (\<lambda>b. if b then r else Inr False)"

fun values_equal :: "pure_value \<Rightarrow> pure_value \<Rightarrow> (typing_error, bool) result"
  and computations_equal :: "pure_computation \<Rightarrow> pure_computation \<Rightarrow> (typing_error, bool) result" where
  "values_equal (VBound _ l) r = (case r of VBound _ r \<Rightarrow> Inr (l = r) | _ \<Rightarrow> Inr False)"
| "values_equal (VGlobal _ d s) r = (case r of VGlobal _ d' s' \<Rightarrow> Inr (d = d' \<and> s = s') | _ \<Rightarrow> Inr False)"
| "values_equal (VUniverse _ l) r = (case r of VUniverse _ r \<Rightarrow> Inr (l = r) | _ \<Rightarrow> Inr False)"
| "values_equal (VPi _ a b _ i) r = (case r of VPi _ a' b' _ i' \<Rightarrow> 
       if i = i' then and_also (values_equal a a') (values_equal b b') else Inr False | _ \<Rightarrow> Inr False)"
| "values_equal (VSigma _ a b) r = (case r of VSigma _ a' b' \<Rightarrow> and_also (values_equal a a') (values_equal b b') | _ \<Rightarrow> Inr False)"
| "values_equal (VLambda _ l) r = (case r of VLambda _ r \<Rightarrow> computations_equal l r | _ \<Rightarrow> Inr False)"
| "values_equal (VPair _ a b) r = (case r of VPair _ a' b' \<Rightarrow> and_also (values_equal a a') (values_equal b b') | _ \<Rightarrow> Inr False)"
| "values_equal (VFirst _ l) r = (case r of VFirst _ r \<Rightarrow> values_equal l r | _ \<Rightarrow> Inr False)"
| "values_equal (VSecond _ l) r = (case r of VSecond _ r \<Rightarrow> values_equal l r | _ \<Rightarrow> Inr False)"
| "computations_equal (PReturn _ l) r = (case r of PReturn _ r \<Rightarrow> values_equal l r | _ \<Rightarrow> Inr False)"
| "computations_equal (PLet _ a b) r = (case r of PLet _ a' b' \<Rightarrow> and_also (values_equal a a') (computations_equal b b') | _ \<Rightarrow> Inr False)"
| "computations_equal (PBind _ a b) r = (case r of PBind _ a' b' \<Rightarrow> and_also (computations_equal a a') (computations_equal b b') | _ \<Rightarrow> Inr False)"
| "computations_equal (PApply _ a b) r = (case r of PApply _ a' b' \<Rightarrow> and_also (values_equal a a') (values_equal b b') | _ \<Rightarrow> Inr False)"

lemma and_also_Inr [simp]: "and_also (Inr a) (Inr b) = Inr (a \<and> b)"
  by (simp add: and_also_def)

lemma equal_exact [simp]:
  "values_equal l r = Inr (erase_value l = erase_value r)"
  "computations_equal c d = Inr (erase_computation c = erase_computation d)"
  by (induction l and c arbitrary: r and d)
    (auto simp: word_unat_eq_iff split: pure_value.split pure_computation.split)

section \<open>Display\<close>

fun decimal_digits :: "nat \<Rightarrow> string" where
  "decimal_digits n =
     (if n < 10 then [char_of (48 + n)] else decimal_digits (n div 10) @ [char_of (48 + n mod 10)])"

declare decimal_digits.simps [simp del]

fun key_name :: "definition_key \<Rightarrow> string" where
  "key_name (DefinitionKey s) = s"

fun display_value :: "pure_value \<Rightarrow> string" where
  "display_value (VBound _ i) = ''#'' @ decimal_digits (unat i)"
| "display_value (VGlobal _ d _) = key_name d"
| "display_value (VUniverse _ Prop) = ''Prop''"
| "display_value (VUniverse _ (TypeUniverse l)) = ''Type('' @ decimal_digits (unat l) @ '')''"
| "display_value (VPi _ _ _ _ _) = ''Pi''"
| "display_value (VSigma _ _ _) = ''Sigma''"
| "display_value (VLambda _ _) = ''lambda''"
| "display_value (VPair _ _ _) = ''pair''"
| "display_value (VFirst _ _) = ''first projection''"
| "display_value (VSecond _ _) = ''second projection''"

section \<open>What the operations guarantee\<close>

text \<open>Binders on a path, which bound the depth a traversal reaches.\<close>

fun binder_depth :: "core_term \<Rightarrow> nat" where
  "binder_depth (CPi a b _) = max (binder_depth a) (Suc (binder_depth b))"
| "binder_depth (CSigma a b) = max (binder_depth a) (Suc (binder_depth b))"
| "binder_depth (CLam b) = Suc (binder_depth b)"
| "binder_depth (CPair a b) = max (binder_depth a) (binder_depth b)"
| "binder_depth (CFst a) = binder_depth a"
| "binder_depth (CSnd a) = binder_depth a"
| "binder_depth (CReturn a) = binder_depth a"
| "binder_depth (CLet a b) = max (binder_depth a) (Suc (binder_depth b))"
| "binder_depth (CBind a b) = max (binder_depth a) (Suc (binder_depth b))"
| "binder_depth (CApp a b) = max (binder_depth a) (binder_depth b)"
| "binder_depth _ = 0"

definition next_depth :: "u32 \<Rightarrow> u32" where "next_depth k = k + 1"

lemma next_binding_depth_fits [simp]:
  "Suc (unat k) < 2 ^ 32 \<Longrightarrow> next_binding_depth k node = Inr (next_depth k)"
  by (simp add: next_depth_def unat_word_ariths)

lemma unat_next_depth [simp]: "Suc (unat k) < 2 ^ 32 \<Longrightarrow> unat (next_depth k) = Suc (unat k)"
  by (simp add: next_depth_def unat_word_ariths)

definition answers :: "(usage_counter \<Rightarrow> (typing_error, u64 \<times> usage_counter) result) \<Rightarrow> bool" where
  "answers f \<longleftrightarrow> (\<forall>st. \<exists>r. f st = Inr r)"

lemma answers_const: "answers (\<lambda>st. Inr (n, st))"
  by (simp add: answers_def)

lemma answers_both:
  "answers f \<Longrightarrow> answers g \<Longrightarrow>
     answers (\<lambda>st. and_then (f st) (\<lambda>(m, st). and_then (g st) (\<lambda>(n, st). Inr (add_uses m n, st))))"
  unfolding answers_def by (metis (no_types, lifting) and_then_Inr case_prod_beta)

lemma answers_uses_or:
  "answers f \<Longrightarrow> answers (\<lambda>st. value_uses_or sh v k st f)"
  "answers f \<Longrightarrow> answers (\<lambda>st. computation_uses_or sh c k st f)"
  unfolding answers_def value_uses_or_def computation_uses_or_def
  by (metis (no_types, lifting) and_then_Inr option.exhaust option.simps(4,5))+

lemma answers_below:
  "Suc (unat k) < 2 ^ 32 \<Longrightarrow> answers (f (next_depth k)) \<Longrightarrow>
     answers (\<lambda>st. and_then (next_binding_depth k node) (\<lambda>below. f below st))"
  by simp

lemma count_answers:
  "unat k + binder_depth (erase_value v) < 2 ^ 32 \<Longrightarrow> answers (count_value sh v k)"
  "unat k + binder_depth (erase_computation c) < 2 ^ 32 \<Longrightarrow> answers (count_computation sh c k)"
  by (induction v and c arbitrary: k and k, unfold count_unfold)
    (auto intro!: answers_uses_or answers_both answers_const)

text \<open>
  C38. Counting the uses of a variable is exact whatever nodes the term shares: the count is the
  number of its occurrences, cut off at \<open>2 ^ 32\<close>, and testing a count against a grade decides
  whether the grade admits the number of occurrences. The counter answers whenever the binders
  of the term fit the 32-bit depth.
\<close>

theorem use_counting_exact:
  assumes "unat k + binder_depth (erase_computation c) < 2 ^ 32"
  shows "\<exists>n. count_bound_computation shared c k = Inr n \<and>
    unat n = min (occurrences (erase_computation c) (unat k)) (2 ^ 32) \<and>
    (\<forall>g. grade_contains g n \<longleftrightarrow> admits g (occurrences (erase_computation c) (unat k)))"
proof -
  from count_answers(2) [OF assms, of shared] obtain n where n: "count_bound_computation shared c k = Inr n"
    unfolding answers_def count_bound_computation_def by (metis and_then_Inr)
  from count_bound_exact [OF n] grade_contains_admits [OF count_bound_exact [OF n]] n show ?thesis
    unfolding counted_def by blast
qed

definition sample_body :: pure_computation where
  "sample_body = PReturn (ComputationId 0) (VPair (ValueId 0) (VBound (ValueId 1) 0) (VBound (ValueId 1) 0))"

theorem use_counting_exact_witness:
  "\<exists>n. count_bound_computation (\<lambda>_. True) sample_body 0 = Inr n \<and> unat n = 2"
  using use_counting_exact [of 0 sample_body "\<lambda>_. True"] by (auto simp: sample_body_def)

lemma shift_index_by_one:
  "shift_index s 1 d i = Inr j \<longleftrightarrow> j \<noteq> d \<and> i = (if j > d then j - 1 else j)"
proof -
  have "shift_index s 1 d i = Inr j \<longleftrightarrow> (if unat d \<le> unat i then unat j = Suc (unat i) else i = j)"
    using checked_add_u32_Some [of i 1 j]
    by (auto simp: shift_index_def word_le_nat_alt split: option.split)
  also have "\<dots> \<longleftrightarrow> unat j \<noteq> unat d \<and> unat i = (if unat j > unat d then unat j - 1 else unat j)"
    by (auto simp: word_unat_eq_iff)
  also have "\<dots> \<longleftrightarrow> unat j \<noteq> unat d \<and> unat i = unat (if j > d then j - 1 else j)"
    using unat_pred [of d j] by (auto simp: word_less_nat_alt)
  finally show ?thesis
    unfolding word_unat_eq_iff [of j d] word_unat_eq_iff [of i] by blast
qed

lemma remove_shifted:
  "shift_value v 1 d = Inr w \<Longrightarrow> remove_value_binder w d = Inr v"
  "shift_computation c 1 d = Inr e \<Longrightarrow> remove_computation_binder e d = Inr c"
  by (induction v and c arbitrary: d w and d e) (fastforce simp: and_then_eq_Inr shift_index_by_one)+

lemma shift_removed:
  "remove_value_binder w d = Inr v \<Longrightarrow> shift_value v 1 d = Inr w"
  "remove_computation_binder e d = Inr c \<Longrightarrow> shift_computation c 1 d = Inr e"
  by (induction w and e arbitrary: d v and d c)
    (fastforce simp: and_then_eq_Inr shift_index_by_one split: if_splits)+

text \<open>
  Removing a binder inverts shifting by one, identifiers included: it succeeds exactly on
  the results of a shift. So no value in which the removed variable occurs is accepted.
\<close>

theorem binder_removal_inverts_shift:
  "(shift_value v 1 d = Inr w) = (remove_value_binder w d = Inr v) \<and>
   (shift_computation c 1 d = Inr e) = (remove_computation_binder e d = Inr c)"
  using remove_shifted shift_removed by blast

end
