(* ===== verification/QCoreNormalization.thy ===== *)
theory QCoreNormalization
  imports QCoreTerms
begin

text \<open>
  The normalizer of \<open>compiler/src/qcore_typing.rs\<close>: its budget, its tables, normalization of
  values and computations, and the conversion test. The results are related to the reduction of
  the calculus: the normal form is the one of the erased term whatever the tables answer, and
  the conversion test decides the equivalence that reduction generates.
\<close>

section \<open>The budget\<close>

definition normalization_reduction_limit :: u64 where
  "normalization_reduction_limit = 1000000"

text \<open>\<open>Normalizer\<close> with its \<open>NormalizationBudget\<close>; \<open>normal_lookups\<close> numbers the lookups (see \<open>recall\<close>).\<close>

record normalizer =
  remaining_reductions :: u64
  reduction_limit :: u64
  normal_values :: "(pure_value \<times> pure_value) list"
  normal_computations :: "(pure_computation \<times> pure_computation) list"
  normal_lookups :: nat

definition normalizer_with_limit :: "u64 \<Rightarrow> normalizer" where
  "normalizer_with_limit n =
     \<lparr>remaining_reductions = n, reduction_limit = n, normal_values = [], normal_computations = [], normal_lookups = 0\<rparr>"

definition reduce :: "typing_node \<Rightarrow> normalizer \<Rightarrow> (typing_error, normalizer) result" where
  "reduce node st =
     (if remaining_reductions st = 0 then Inl (NormalizationLimitExceeded node (reduction_limit st))
      else Inr (st\<lparr>remaining_reductions := remaining_reductions st - 1\<rparr>))"

definition normal_lookup :: "normalizer \<Rightarrow> normalizer" where
  "normal_lookup st = st\<lparr>normal_lookups := Suc (normal_lookups st)\<rparr>"

definition remember_value :: "pure_value \<Rightarrow> pure_value \<times> normalizer \<Rightarrow> pure_value \<times> normalizer" where
  "remember_value v r = (fst r, (snd r)\<lparr>normal_values := (v, fst r) # normal_values (snd r)\<rparr>)"

definition remember_computation ::
  "pure_computation \<Rightarrow> pure_computation \<times> normalizer \<Rightarrow> pure_computation \<times> normalizer" where
  "remember_computation c r = (fst r, (snd r)\<lparr>normal_computations := (c, fst r) # normal_computations (snd r)\<rparr>)"

definition value_normal_or ::
  "(nat \<Rightarrow> bool) \<Rightarrow> pure_value \<Rightarrow> normalizer \<Rightarrow>
   (normalizer \<Rightarrow> (typing_error, pure_value \<times> normalizer) result) \<Rightarrow>
   (typing_error, pure_value \<times> normalizer) result" where
  "value_normal_or shared v st compute =
     (case recall shared (normal_lookups st) (normal_values st) v of
        Some w \<Rightarrow> Inr (w, normal_lookup st)
      | None \<Rightarrow> and_then (compute (normal_lookup st)) (\<lambda>r. Inr (remember_value v r)))"

definition computation_normal_or ::
  "(nat \<Rightarrow> bool) \<Rightarrow> pure_computation \<Rightarrow> normalizer \<Rightarrow>
   (normalizer \<Rightarrow> (typing_error, pure_computation \<times> normalizer) result) \<Rightarrow>
   (typing_error, pure_computation \<times> normalizer) result" where
  "computation_normal_or shared c st compute =
     (case recall shared (normal_lookups st) (normal_computations st) c of
        Some w \<Rightarrow> Inr (w, normal_lookup st)
      | None \<Rightarrow> and_then (compute (normal_lookup st)) (\<lambda>r. Inr (remember_computation c r)))"

lemma normal_or_cong [fundef_cong]:
  "st = st' \<Longrightarrow> (\<And>s. s = normal_lookup st' \<Longrightarrow> f s = g s) \<Longrightarrow> value_normal_or sh v st f = value_normal_or sh v st' g"
  "st = st' \<Longrightarrow> (\<And>s. s = normal_lookup st' \<Longrightarrow> h s = k s) \<Longrightarrow>
     computation_normal_or sh c st h = computation_normal_or sh c st' k"
  by (simp_all add: value_normal_or_def computation_normal_or_def split: option.split)

section \<open>Normalization\<close>

function (domintros) normalizer_value ::
    "(nat \<Rightarrow> bool) \<Rightarrow> pure_value \<Rightarrow> normalizer \<Rightarrow> (typing_error, pure_value \<times> normalizer) result"
  and normalizer_computation ::
    "(nat \<Rightarrow> bool) \<Rightarrow> pure_computation \<Rightarrow> normalizer \<Rightarrow> (typing_error, pure_computation \<times> normalizer) result" where
  "normalizer_value sh (VBound s i) st = value_normal_or sh (VBound s i) st (\<lambda>st. Inr (VBound s i, st))"
| "normalizer_value sh (VGlobal s d m) st = value_normal_or sh (VGlobal s d m) st (\<lambda>st. Inr (VGlobal s d m, st))"
| "normalizer_value sh (VUniverse s u) st = value_normal_or sh (VUniverse s u) st (\<lambda>st. Inr (VUniverse s u, st))"
| "normalizer_value sh (VPi s domain codomain grade interval) st =
     value_normal_or sh (VPi s domain codomain grade interval) st (\<lambda>st.
       and_then (normalizer_value sh domain st) (\<lambda>(domain', st).
       and_then (normalizer_value sh codomain st) (\<lambda>(codomain', st).
         Inr (VPi s domain' codomain' grade interval, st))))"
| "normalizer_value sh (VSigma s one two) st =
     value_normal_or sh (VSigma s one two) st (\<lambda>st.
       and_then (normalizer_value sh one st) (\<lambda>(one', st).
       and_then (normalizer_value sh two st) (\<lambda>(two', st). Inr (VSigma s one' two', st))))"
| "normalizer_value sh (VLambda s body) st =
     value_normal_or sh (VLambda s body) st (\<lambda>st.
       and_then (normalizer_computation sh body st) (\<lambda>(body', st). Inr (VLambda s body', st)))"
| "normalizer_value sh (VPair s one two) st =
     value_normal_or sh (VPair s one two) st (\<lambda>st.
       and_then (normalizer_value sh one st) (\<lambda>(one', st).
       and_then (normalizer_value sh two st) (\<lambda>(two', st). Inr (VPair s one' two', st))))"
| "normalizer_value sh (VFirst s pair) st =
     value_normal_or sh (VFirst s pair) st (\<lambda>st.
       and_then (normalizer_value sh pair st) (\<lambda>(pair', st).
         case pair' of
           VPair _ one _ \<Rightarrow> and_then (reduce (NodeValue s) st) (\<lambda>st. Inr (one, st))
         | _ \<Rightarrow> Inr (VFirst s pair', st)))"
| "normalizer_value sh (VSecond s pair) st =
     value_normal_or sh (VSecond s pair) st (\<lambda>st.
       and_then (normalizer_value sh pair st) (\<lambda>(pair', st).
         case pair' of
           VPair _ _ two \<Rightarrow> and_then (reduce (NodeValue s) st) (\<lambda>st. Inr (two, st))
         | _ \<Rightarrow> Inr (VSecond s pair', st)))"
| "normalizer_computation sh (PReturn s v) st =
     computation_normal_or sh (PReturn s v) st (\<lambda>st.
       and_then (normalizer_value sh v st) (\<lambda>(v', st). Inr (PReturn s v', st)))"
| "normalizer_computation sh (PLet s v body) st =
     computation_normal_or sh (PLet s v body) st (\<lambda>st.
       and_then (normalizer_value sh v st) (\<lambda>(v', st).
       and_then (reduce (NodeComputation s) st) (\<lambda>st.
       and_then (substitute_computation body v' 0) (\<lambda>body'. normalizer_computation sh body' st))))"
| "normalizer_computation sh (PBind s one body) st =
     computation_normal_or sh (PBind s one body) st (\<lambda>st.
       and_then (normalizer_computation sh one st) (\<lambda>(one', st).
         case one' of
           PReturn _ v \<Rightarrow>
             and_then (reduce (NodeComputation s) st) (\<lambda>st.
             and_then (substitute_computation body v 0) (\<lambda>body'. normalizer_computation sh body' st))
         | _ \<Rightarrow>
             and_then (normalizer_computation sh body st) (\<lambda>(body', st). Inr (PBind s one' body', st))))"
| "normalizer_computation sh (PApply s function argument) st =
     computation_normal_or sh (PApply s function argument) st (\<lambda>st.
       and_then (normalizer_value sh function st) (\<lambda>(function', st).
       and_then (normalizer_value sh argument st) (\<lambda>(argument', st).
         case function' of
           VLambda _ body \<Rightarrow>
             and_then (reduce (NodeComputation s) st) (\<lambda>st.
             and_then (substitute_computation body argument' 0) (\<lambda>body'. normalizer_computation sh body' st))
         | _ \<Rightarrow> Inr (PApply s function' argument', st))))"
  by pat_completeness auto

lemma remaining_lookup [simp]: "remaining_reductions (normal_lookup st) = remaining_reductions st"
  by (simp add: normal_lookup_def)

lemma remaining_reduce:
  "reduce node st = Inr st' \<Longrightarrow> unat (remaining_reductions st') < unat (remaining_reductions st)"
  by (auto simp: reduce_def unat_minus_one unat_gt_0 split: if_splits)

definition within :: "normalizer \<Rightarrow> (typing_error, 'a \<times> normalizer) result \<Rightarrow> bool" where
  "within st r \<longleftrightarrow> (\<forall>x st'. r = Inr (x, st') \<longrightarrow> unat (remaining_reductions st') \<le> unat (remaining_reductions st))"

lemma within_value_normal_or:
  "within (normal_lookup st) (f (normal_lookup st)) \<Longrightarrow> within st (value_normal_or sh v st f)"
  by (auto simp: within_def value_normal_or_def remember_value_def and_then_eq_Inr split: option.splits)

lemma within_computation_normal_or:
  "within (normal_lookup st) (f (normal_lookup st)) \<Longrightarrow> within st (computation_normal_or sh c st f)"
  by (auto simp: within_def computation_normal_or_def remember_computation_def and_then_eq_Inr split: option.splits)

lemma within_Inr: "within st (Inr (x, st))"
  by (simp add: within_def)

lemma within_and_then:
  "within st r \<Longrightarrow> (\<And>x st'. r = Inr (x, st') \<Longrightarrow> within st' (k x st')) \<Longrightarrow> within st (and_then r (\<lambda>(x, st). k x st))"
  by (fastforce simp: within_def and_then_eq_Inr)

lemma within_reduce: "(\<And>st'. reduce node st = Inr st' \<Longrightarrow> within st' (k st')) \<Longrightarrow> within st (and_then (reduce node st) k)"
  by (fastforce simp: within_def and_then_eq_Inr dest: remaining_reduce)

lemma within_substitute:
  "(\<And>c. substitute_computation b v d = Inr c \<Longrightarrow> within st (k c)) \<Longrightarrow>
     within st (and_then (substitute_computation b v d) k)"
  by (auto simp: within_def and_then_eq_Inr)

lemma within_normalizer:
  "normalizer_value_normalizer_computation_dom (Inl (sh, v, st)) \<Longrightarrow> within st (normalizer_value sh v st)"
  "normalizer_value_normalizer_computation_dom (Inr (sh, c, st)) \<Longrightarrow> within st (normalizer_computation sh c st)"
proof (induction sh v st and sh c st rule: normalizer_value_normalizer_computation.pinduct)
  case (1 sh s i st)
  show ?case unfolding normalizer_value.psimps(1) [OF 1]
    by (intro within_value_normal_or within_Inr)
next
  case (2 sh s d m st)
  show ?case unfolding normalizer_value.psimps(2) [OF 2]
    by (intro within_value_normal_or within_Inr)
next
  case (3 sh s u st)
  show ?case unfolding normalizer_value.psimps(3) [OF 3]
    by (intro within_value_normal_or within_Inr)
next
  case (4 sh s a b g i st)
  show ?case unfolding normalizer_value.psimps(4) [OF 4(1)]
    by (intro within_value_normal_or within_and_then within_Inr; use 4(2-) in blast)
next
  case (5 sh s a b st)
  show ?case unfolding normalizer_value.psimps(5) [OF 5(1)]
    by (intro within_value_normal_or within_and_then within_Inr; use 5(2-) in blast)
next
  case (6 sh s c st)
  show ?case unfolding normalizer_value.psimps(6) [OF 6(1)]
    by (intro within_value_normal_or within_and_then within_Inr; use 6(2-) in blast)
next
  case (7 sh s a b st)
  show ?case unfolding normalizer_value.psimps(7) [OF 7(1)]
    by (intro within_value_normal_or within_and_then within_Inr; use 7(2-) in blast)
next
  case (8 sh s a st)
  show ?case unfolding normalizer_value.psimps(8) [OF 8(1)]
    by (intro within_value_normal_or within_and_then)
      (use 8(2-) in \<open>auto split: pure_value.split intro!: within_reduce within_Inr\<close>)
next
  case (9 sh s a st)
  show ?case unfolding normalizer_value.psimps(9) [OF 9(1)]
    by (intro within_value_normal_or within_and_then)
      (use 9(2-) in \<open>auto split: pure_value.split intro!: within_reduce within_Inr\<close>)
next
  case (10 sh s a st)
  show ?case unfolding normalizer_computation.psimps(1) [OF 10(1)]
    by (intro within_computation_normal_or within_and_then within_Inr; use 10(2-) in blast)
next
  case (11 sh s a b st)
  show ?case unfolding normalizer_computation.psimps(2) [OF 11(1)]
    by (intro within_computation_normal_or within_and_then within_reduce within_substitute; use 11(2-) in blast)
next
  case (12 sh s a b st)
  show ?case unfolding normalizer_computation.psimps(3) [OF 12(1)]
    by (intro within_computation_normal_or within_and_then)
      (use 12(2-) in \<open>auto split: pure_computation.split intro!: within_reduce within_substitute within_and_then within_Inr\<close>)
next
  case (13 sh s a b st)
  show ?case unfolding normalizer_computation.psimps(4) [OF 13(1)]
    by (intro within_computation_normal_or within_and_then)
      (use 13(2-) in \<open>auto split: pure_value.split intro!: within_reduce within_substitute within_Inr\<close>)
qed

fun normalizer_size :: "(nat \<Rightarrow> bool) \<times> pure_value \<times> normalizer + (nat \<Rightarrow> bool) \<times> pure_computation \<times> normalizer \<Rightarrow> nat" where
  "normalizer_size (Inl (sh, v, st)) = size v"
| "normalizer_size (Inr (sh, c, st)) = size c"

fun normalizer_budget :: "(nat \<Rightarrow> bool) \<times> pure_value \<times> normalizer + (nat \<Rightarrow> bool) \<times> pure_computation \<times> normalizer \<Rightarrow> nat" where
  "normalizer_budget (Inl (sh, v, st)) = unat (remaining_reductions st)"
| "normalizer_budget (Inr (sh, c, st)) = unat (remaining_reductions st)"

lemma within_normalizerD:
  "normalizer_value_normalizer_computation_dom (Inl (sh, v, st)) \<Longrightarrow> normalizer_value sh v st = Inr (w, st') \<Longrightarrow>
     unat (remaining_reductions st') \<le> unat (remaining_reductions st)"
  "normalizer_value_normalizer_computation_dom (Inr (sh, c, st)) \<Longrightarrow> normalizer_computation sh c st = Inr (d, st') \<Longrightarrow>
     unat (remaining_reductions st') \<le> unat (remaining_reductions st)"
  using within_normalizer by (auto simp: within_def)

termination normalizer_value
proof (relation "measures [normalizer_budget, normalizer_size]")
qed (auto dest!: within_normalizerD remaining_reduce)

section \<open>Entry points\<close>

definition normalize_value :: "(nat \<Rightarrow> bool) \<Rightarrow> pure_value \<Rightarrow> (typing_error, pure_value) result" where
  "normalize_value sh v =
     and_then (normalizer_value sh v (normalizer_with_limit normalization_reduction_limit)) (\<lambda>r. Inr (fst r))"

definition normalize_computation :: "(nat \<Rightarrow> bool) \<Rightarrow> pure_computation \<Rightarrow> (typing_error, pure_computation) result" where
  "normalize_computation sh c =
     and_then (normalizer_computation sh c (normalizer_with_limit normalization_reduction_limit)) (\<lambda>r. Inr (fst r))"

text \<open>The two sides of a conversion are different runs, so each has its own sharing.\<close>

definition values_convert :: "(nat \<Rightarrow> nat \<Rightarrow> bool) \<Rightarrow> pure_value \<Rightarrow> pure_value \<Rightarrow> (typing_error, bool) result" where
  "values_convert sh l r =
     and_then (normalize_value (sh 0) l) (\<lambda>l'.
     and_then (normalize_value (sh 1) r) (\<lambda>r'. values_equal l' r'))"

definition computations_convert ::
  "(nat \<Rightarrow> nat \<Rightarrow> bool) \<Rightarrow> pure_computation \<Rightarrow> pure_computation \<Rightarrow> (typing_error, bool) result" where
  "computations_convert sh l r =
     and_then (normalize_computation (sh 0) l) (\<lambda>l'.
     and_then (normalize_computation (sh 1) r) (\<lambda>r'. computations_equal l' r'))"

section \<open>Normal forms\<close>

definition normal_of :: "core_term \<Rightarrow> core_term \<Rightarrow> bool" where
  "normal_of t u \<longleftrightarrow> steps t u \<and> normal u"

lemma normal_of_unique: "normal_of t u \<Longrightarrow> normal_of t v \<Longrightarrow> u = v"
  using converts_normal_forms [of t u t v] by (simp add: normal_of_def)

lemma normal_of_compose:
  "normal_of a a' \<Longrightarrow> normal_of b b' \<Longrightarrow> normal_of (CPi a b g) (CPi a' b' g)"
  "normal_of a a' \<Longrightarrow> normal_of b b' \<Longrightarrow> normal_of (CSigma a b) (CSigma a' b')"
  "normal_of a a' \<Longrightarrow> normal_of b b' \<Longrightarrow> normal_of (CPair a b) (CPair a' b')"
  "normal_of b b' \<Longrightarrow> normal_of (CLam b) (CLam b')"
  "normal_of a a' \<Longrightarrow> normal_of (CReturn a) (CReturn a')"
  "normal_of a a' \<Longrightarrow> \<nexists>x y. a' = CPair x y \<Longrightarrow> normal_of (CFst a) (CFst a')"
  "normal_of a a' \<Longrightarrow> \<nexists>x y. a' = CPair x y \<Longrightarrow> normal_of (CSnd a) (CSnd a')"
  "normal_of a a' \<Longrightarrow> normal_of b b' \<Longrightarrow> \<nexists>x. a' = CReturn x \<Longrightarrow> normal_of (CBind a b) (CBind a' b')"
  "normal_of a a' \<Longrightarrow> normal_of b b' \<Longrightarrow> \<nexists>x. a' = CLam x \<Longrightarrow> normal_of (CApp a b) (CApp a' b')"
  by (auto simp: normal_of_def intro: steps_compose)

lemma normal_of_leaf: "normal t \<Longrightarrow> normal_of t t"
  by (simp add: normal_of_def)

lemma normal_of_contract:
  assumes "steps t u" "step u v" "normal_of v w" shows "normal_of t w"
  using assms by (auto simp: normal_of_def intro: rtranclp_trans converse_rtranclp_into_rtranclp)

lemma normal_of_contractions:
  "normal_of a (CPair x y) \<Longrightarrow> normal_of (CFst a) x"
  "normal_of a (CPair x y) \<Longrightarrow> normal_of (CSnd a) y"
  "normal_of a a' \<Longrightarrow> normal_of (subst a' 0 b) u \<Longrightarrow> normal_of (CLet a b) u"
  "normal_of a (CReturn x) \<Longrightarrow> normal_of (subst x 0 b) u \<Longrightarrow> normal_of (CBind a b) u"
  "normal_of f (CLam b) \<Longrightarrow> normal_of a a' \<Longrightarrow> normal_of (subst a' 0 b) u \<Longrightarrow> normal_of (CApp f a) u"
proof -
  show "normal_of a (CPair x y) \<Longrightarrow> normal_of (CFst a) x"
    by (rule normal_of_contract [OF steps_compose(8) step.first]) (auto simp: normal_of_def)
  show "normal_of a (CPair x y) \<Longrightarrow> normal_of (CSnd a) y"
    by (rule normal_of_contract [OF steps_compose(9) step.second]) (auto simp: normal_of_def)
  show "normal_of a a' \<Longrightarrow> normal_of (subst a' 0 b) u \<Longrightarrow> normal_of (CLet a b) u"
    by (rule normal_of_contract [OF steps_compose(4) step.bound]) (auto simp: normal_of_def)
  show "normal_of a (CReturn x) \<Longrightarrow> normal_of (subst x 0 b) u \<Longrightarrow> normal_of (CBind a b) u"
    by (rule normal_of_contract [OF steps_compose(5) step.returned]) (auto simp: normal_of_def)
  show "normal_of f (CLam b) \<Longrightarrow> normal_of a a' \<Longrightarrow> normal_of (subst a' 0 b) u \<Longrightarrow> normal_of (CApp f a) u"
    by (rule normal_of_contract [OF steps_compose(6) step.beta]) (auto simp: normal_of_def)
qed

text \<open>The tables hold normal forms.\<close>

definition tables_normal :: "normalizer \<Rightarrow> bool" where
  "tables_normal st \<longleftrightarrow>
     (\<forall>(v, w) \<in> set (normal_values st). normal_of (erase_value v) (erase_value w)) \<and>
     (\<forall>(c, d) \<in> set (normal_computations st). normal_of (erase_computation c) (erase_computation d))"

lemma tables_normal_simps [simp]:
  "tables_normal (normalizer_with_limit n)"
  "tables_normal (normal_lookup st) = tables_normal st"
  "reduce node st = Inr st' \<Longrightarrow> tables_normal st' = tables_normal st"
  by (auto simp: tables_normal_def normalizer_with_limit_def normal_lookup_def reduce_def split: if_splits)

text \<open>The run \<open>r\<close> from the state \<open>st\<close> answers the normal form of \<open>t\<close> and keeps the tables right.\<close>

definition normalizes ::
  "('a \<Rightarrow> core_term) \<Rightarrow> normalizer \<Rightarrow> (typing_error, 'a \<times> normalizer) result \<Rightarrow> core_term \<Rightarrow> bool" where
  "normalizes erase st r t \<longleftrightarrow>
     (\<forall>w st'. tables_normal st \<longrightarrow> r = Inr (w, st') \<longrightarrow> normal_of t (erase w) \<and> tables_normal st')"

lemma normalizes_Inr: "normal_of t (erase w) \<Longrightarrow> normalizes erase st (Inr (w, st)) t"
  by (simp add: normalizes_def)

lemma normalizes_and_then:
  assumes "normalizes e st r t"
    and "\<And>w st'. r = Inr (w, st') \<Longrightarrow> normal_of t (e w) \<Longrightarrow> normalizes e' st' (k w st') u"
  shows "normalizes e' st (and_then r (\<lambda>(w, st). k w st)) u"
  using assms unfolding normalizes_def by (fastforce simp: and_then_eq_Inr)

lemmas normalizes_value_then = normalizes_and_then [of erase_value _ "normalizer_value sh v st" "erase_value v" for sh v st]
lemmas normalizes_computation_then =
  normalizes_and_then [of erase_computation _ "normalizer_computation sh c st" "erase_computation c" for sh c st]

lemma normalizes_reduce:
  "(\<And>st'. reduce node st = Inr st' \<Longrightarrow> normalizes e st' (k st') t) \<Longrightarrow>
     normalizes e st (and_then (reduce node st) k) t"
  unfolding normalizes_def by (auto simp: and_then_eq_Inr)

lemma normalizes_contract:
  assumes "\<And>d. substitute_computation c v 0 = Inr d \<Longrightarrow>
      normalizes erase_computation st (normalizer_computation sh d st) (erase_computation d)"
    and "\<And>u. normal_of (subst (erase_value v) 0 (erase_computation c)) u \<Longrightarrow> normal_of t u"
  shows "normalizes erase_computation st
    (and_then (substitute_computation c v 0) (\<lambda>d. normalizer_computation sh d st)) t"
proof (cases "substitute_computation c v 0")
  case (Inr d)
  from assms(1) [OF Inr] assms(2) substitute_refines(2) [OF Inr] Inr show ?thesis
    by (auto simp: normalizes_def)
qed (simp add: normalizes_def)

lemma normalizes_value_normal_or:
  assumes "normalizes erase_value (normal_lookup st) (f (normal_lookup st)) (erase_value v)"
  shows "normalizes erase_value st (value_normal_or sh v st f) (erase_value v)"
proof (cases "recall sh (normal_lookups st) (normal_values st) v")
  case None
  with assms show ?thesis
    by (auto simp: normalizes_def value_normal_or_def remember_value_def and_then_eq_Inr) (auto simp: tables_normal_def)
next
  case (Some w)
  then have "(v, w) \<in> set (normal_values st)" by (rule recall_Some)
  with Some show ?thesis by (auto simp: normalizes_def value_normal_or_def) (auto simp: tables_normal_def)
qed

lemma normalizes_computation_normal_or:
  assumes "normalizes erase_computation (normal_lookup st) (f (normal_lookup st)) (erase_computation c)"
  shows "normalizes erase_computation st (computation_normal_or sh c st f) (erase_computation c)"
proof (cases "recall sh (normal_lookups st) (normal_computations st) c")
  case None
  with assms show ?thesis
    by (auto simp: normalizes_def computation_normal_or_def remember_computation_def and_then_eq_Inr)
      (auto simp: tables_normal_def)
next
  case (Some w)
  then have "(c, w) \<in> set (normal_computations st)" by (rule recall_Some)
  with Some show ?thesis by (auto simp: normalizes_def computation_normal_or_def) (auto simp: tables_normal_def)
qed

lemma erase_shapes [simp]:
  "erase_value v = CPair x y \<longleftrightarrow> (\<exists>s a b. v = VPair s a b \<and> x = erase_value a \<and> y = erase_value b)"
  "erase_value v = CLam x \<longleftrightarrow> (\<exists>s c. v = VLambda s c \<and> x = erase_computation c)"
  "erase_computation c = CReturn x \<longleftrightarrow> (\<exists>s a. c = PReturn s a \<and> x = erase_value a)"
proof -
  show "erase_value v = CPair x y \<longleftrightarrow> (\<exists>s a b. v = VPair s a b \<and> x = erase_value a \<and> y = erase_value b)" by (cases v) auto
  show "erase_value v = CLam x \<longleftrightarrow> (\<exists>s c. v = VLambda s c \<and> x = erase_computation c)" by (cases v) auto
  show "erase_computation c = CReturn x \<longleftrightarrow> (\<exists>s a. c = PReturn s a \<and> x = erase_value a)" by (cases c) auto
qed

lemma normalizer_normalizes:
  "normalizes erase_value st (normalizer_value sh v st) (erase_value v)"
  "normalizes erase_computation st (normalizer_computation sh c st) (erase_computation c)"
proof (induction sh v st and sh c st rule: normalizer_value_normalizer_computation.induct)
  case (1 sh s i st)
  show ?case unfolding normalizer_value.simps(1)
    by (intro normalizes_value_normal_or normalizes_Inr normal_of_leaf) simp
next
  case (2 sh s d m st)
  show ?case unfolding normalizer_value.simps(2)
    by (intro normalizes_value_normal_or normalizes_Inr normal_of_leaf) simp
next
  case (3 sh s u st)
  show ?case unfolding normalizer_value.simps(3)
    by (intro normalizes_value_normal_or normalizes_Inr normal_of_leaf) simp
next
  case (4 sh s a b g i st)
  show ?case unfolding normalizer_value.simps(4)
    by (intro normalizes_value_normal_or normalizes_value_then normalizes_computation_then normalizes_Inr)
      (use 4 in \<open>auto simp: normal_of_compose\<close>)
next
  case (5 sh s a b st)
  show ?case unfolding normalizer_value.simps(5)
    by (intro normalizes_value_normal_or normalizes_value_then normalizes_computation_then normalizes_Inr)
      (use 5 in \<open>auto simp: normal_of_compose\<close>)
next
  case (6 sh s c st)
  show ?case unfolding normalizer_value.simps(6)
    by (intro normalizes_value_normal_or normalizes_value_then normalizes_computation_then normalizes_Inr)
      (use 6 in \<open>auto simp: normal_of_compose\<close>)
next
  case (7 sh s a b st)
  show ?case unfolding normalizer_value.simps(7)
    by (intro normalizes_value_normal_or normalizes_value_then normalizes_computation_then normalizes_Inr)
      (use 7 in \<open>auto simp: normal_of_compose\<close>)
next
  case (8 sh s a st)
  show ?case unfolding normalizer_value.simps(8)
    by (intro normalizes_value_normal_or normalizes_value_then)
      (use 8 in \<open>auto split: pure_value.split intro!: normalizes_reduce normalizes_Inr
        simp: normal_of_compose normal_of_contractions\<close>)
next
  case (9 sh s a st)
  show ?case unfolding normalizer_value.simps(9)
    by (intro normalizes_value_normal_or normalizes_value_then)
      (use 9 in \<open>auto split: pure_value.split intro!: normalizes_reduce normalizes_Inr
        simp: normal_of_compose normal_of_contractions\<close>)
next
  case (10 sh s a st)
  show ?case unfolding normalizer_computation.simps(1)
    by (intro normalizes_computation_normal_or normalizes_value_then normalizes_computation_then normalizes_Inr)
      (use 10 in \<open>auto simp: normal_of_compose\<close>)
next
  case (11 sh s a b st)
  show ?case unfolding normalizer_computation.simps(2)
    by (intro normalizes_computation_normal_or normalizes_value_then normalizes_reduce normalizes_contract)
      (use 11 in \<open>auto intro: normal_of_contractions\<close>)
next
  case (12 sh s a b st)
  show ?case unfolding normalizer_computation.simps(3)
  proof (intro normalizes_computation_normal_or normalizes_computation_then)
    fix a' st' assume run: "normalizer_computation sh a (normal_lookup st) = Inr (a', st')"
      and a': "normal_of (erase_computation a) (erase_computation a')"
    show "normalizes erase_computation st' (case a' of
        PReturn _ v \<Rightarrow> and_then (reduce (NodeComputation s) st') (\<lambda>st.
          and_then (substitute_computation b v 0) (\<lambda>body'. normalizer_computation sh body' st))
      | _ \<Rightarrow> and_then (normalizer_computation sh b st') (\<lambda>(body', st). Inr (PBind s a' body', st)))
      (erase_computation (PBind s a b))"
    proof (cases a')
      case (PReturn r v)
      with a' show ?thesis
        by (simp, intro normalizes_reduce normalizes_contract)
          (use 12(2) run PReturn in \<open>auto intro: normal_of_contractions\<close>)
    qed (use 12 run a' in \<open>auto intro!: normalizes_computation_then normalizes_Inr normal_of_compose\<close>)
  qed (use 12 in auto)
next
  case (13 sh s a b st)
  show ?case unfolding normalizer_computation.simps(4)
  proof (intro normalizes_computation_normal_or normalizes_value_then)
    fix a' st' b' st'' assume run: "normalizer_value sh a (normal_lookup st) = Inr (a', st')"
        "normalizer_value sh b st' = Inr (b', st'')"
      and normal: "normal_of (erase_value a) (erase_value a')" "normal_of (erase_value b) (erase_value b')"
    show "normalizes erase_computation st'' (case a' of
        VLambda _ body \<Rightarrow> and_then (reduce (NodeComputation s) st'') (\<lambda>st.
          and_then (substitute_computation body b' 0) (\<lambda>body'. normalizer_computation sh body' st))
      | _ \<Rightarrow> Inr (PApply s a' b', st''))
      (erase_computation (PApply s a b))"
    proof (cases a')
      case (VLambda r c)
      with normal show ?thesis
        by (simp, intro normalizes_reduce normalizes_contract)
          (use 13(3) run VLambda in \<open>auto intro: normal_of_contractions\<close>)
    qed (use normal in \<open>auto intro!: normalizes_Inr normal_of_compose\<close>)
  qed (use 13 in auto)
qed

section \<open>Guarantees\<close>

lemma normalize_normal_of:
  "normalize_value sh v = Inr w \<Longrightarrow> normal_of (erase_value v) (erase_value w)"
  "normalize_computation sh c = Inr d \<Longrightarrow> normal_of (erase_computation c) (erase_computation d)"
  using normalizer_normalizes(1) [of "normalizer_with_limit normalization_reduction_limit" sh v]
    normalizer_normalizes(2) [of "normalizer_with_limit normalization_reduction_limit" sh c]
  by (auto simp: normalize_value_def normalize_computation_def normalizes_def and_then_eq_Inr)

lemma normalize_converts: "normalize_value sh v = Inr w \<Longrightarrow> converts (erase_value v) (erase_value w)"
  using normalize_normal_of(1) [of sh v w] by (auto simp: normal_of_def intro: steps_converts)

lemma values_convert_exact:
  assumes "values_convert sh l r = Inr b"
  shows "b \<longleftrightarrow> converts (erase_value l) (erase_value r)"
proof -
  from assms obtain l' r' where "normalize_value (sh 0) l = Inr l'" "normalize_value (sh 1) r = Inr r'"
      and b: "b \<longleftrightarrow> erase_value l' = erase_value r'"
    by (auto simp: values_convert_def and_then_eq_Inr)
  with converts_normal_forms show ?thesis
    by (auto dest!: normalize_normal_of(1) simp: normal_of_def)
qed

lemma computations_convert_exact:
  assumes "computations_convert sh l r = Inr b"
  shows "b \<longleftrightarrow> converts (erase_computation l) (erase_computation r)"
proof -
  from assms obtain l' r' where "normalize_computation (sh 0) l = Inr l'" "normalize_computation (sh 1) r = Inr r'"
      and b: "b \<longleftrightarrow> erase_computation l' = erase_computation r'"
    by (auto simp: computations_convert_def and_then_eq_Inr)
  with converts_normal_forms show ?thesis
    by (auto dest!: normalize_normal_of(2) simp: normal_of_def)
qed

text \<open>The only errors: an index that no longer fits 32 bits, or the reduction limit.\<close>

definition normalizer_error :: "normalizer \<Rightarrow> typing_error \<Rightarrow> bool" where
  "normalizer_error st e \<longleftrightarrow>
     (\<exists>node. e = BindingIndexOverflow node) \<or> (\<exists>node. e = NormalizationLimitExceeded node (reduction_limit st))"

text \<open>A run that fails with these errors only, and leaves the limit alone.\<close>

definition sound_errors :: "normalizer \<Rightarrow> (typing_error, 'a \<times> normalizer) result \<Rightarrow> bool" where
  "sound_errors st r \<longleftrightarrow>
     (\<forall>e. r = Inl e \<longrightarrow> normalizer_error st e) \<and> (\<forall>x st'. r = Inr (x, st') \<longrightarrow> reduction_limit st' = reduction_limit st)"

lemma sound_errors_Inr: "sound_errors st (Inr (x, st))"
  by (simp add: sound_errors_def)

lemma sound_errors_and_then:
  "sound_errors st r \<Longrightarrow> (\<And>x st'. r = Inr (x, st') \<Longrightarrow> sound_errors st' (k x st')) \<Longrightarrow>
     sound_errors st (and_then r (\<lambda>(x, st). k x st))"
  by (cases r) (fastforce simp: sound_errors_def normalizer_error_def)+

lemma sound_errors_reduce:
  "(\<And>st'. reduce node st = Inr st' \<Longrightarrow> sound_errors st' (k st')) \<Longrightarrow> sound_errors st (and_then (reduce node st) k)"
  by (cases "remaining_reductions st = 0") (simp_all add: sound_errors_def normalizer_error_def reduce_def)

lemma sound_errors_substitute:
  "(\<And>d. substitute_computation c v 0 = Inr d \<Longrightarrow> sound_errors st (k d)) \<Longrightarrow>
     sound_errors st (and_then (substitute_computation c v 0) k)"
  by (cases "substitute_computation c v 0") (auto simp: sound_errors_def normalizer_error_def dest: substitute_error)

lemma sound_errors_normal_or:
  "sound_errors (normal_lookup st) (f (normal_lookup st)) \<Longrightarrow> sound_errors st (value_normal_or sh v st f)"
  "sound_errors (normal_lookup st) (g (normal_lookup st)) \<Longrightarrow> sound_errors st (computation_normal_or sh c st g)"
  by (auto simp: sound_errors_def value_normal_or_def computation_normal_or_def and_then_eq_Inr and_then_eq_Inl
      normalizer_error_def remember_value_def remember_computation_def normal_lookup_def split: option.splits)

lemmas sound_errors_intros =
  sound_errors_normal_or sound_errors_and_then sound_errors_reduce sound_errors_substitute sound_errors_Inr

lemma normalizer_sound_errors:
  "sound_errors st (normalizer_value sh v st)"
  "sound_errors st (normalizer_computation sh c st)"
proof (induction sh v st and sh c st rule: normalizer_value_normalizer_computation.induct)
  case 1 show ?case unfolding normalizer_value.simps(1) by (intro sound_errors_intros)
next
  case 2 show ?case unfolding normalizer_value.simps(2) by (intro sound_errors_intros)
next
  case 3 show ?case unfolding normalizer_value.simps(3) by (intro sound_errors_intros)
next
  case 4 show ?case unfolding normalizer_value.simps(4) by (intro sound_errors_intros; use 4 in blast)
next
  case 5 show ?case unfolding normalizer_value.simps(5) by (intro sound_errors_intros; use 5 in blast)
next
  case 6 show ?case unfolding normalizer_value.simps(6) by (intro sound_errors_intros; use 6 in blast)
next
  case 7 show ?case unfolding normalizer_value.simps(7) by (intro sound_errors_intros; use 7 in blast)
next
  case 8 show ?case unfolding normalizer_value.simps(8)
    by (intro sound_errors_intros) (use 8 in \<open>auto split: pure_value.split intro!: sound_errors_intros\<close>)
next
  case 9 show ?case unfolding normalizer_value.simps(9)
    by (intro sound_errors_intros) (use 9 in \<open>auto split: pure_value.split intro!: sound_errors_intros\<close>)
next
  case 10 show ?case unfolding normalizer_computation.simps(1) by (intro sound_errors_intros; use 10 in blast)
next
  case 11 show ?case unfolding normalizer_computation.simps(2) by (intro sound_errors_intros; use 11 in blast)
next
  case 12 show ?case unfolding normalizer_computation.simps(3)
    by (intro sound_errors_intros) (use 12 in \<open>auto split: pure_computation.split intro!: sound_errors_intros\<close>)
next
  case 13 show ?case unfolding normalizer_computation.simps(4)
    by (intro sound_errors_intros) (use 13 in \<open>auto split: pure_value.split intro!: sound_errors_intros\<close>)
qed

lemma normalize_error:
  "normalize_value sh v = Inl e \<Longrightarrow>
     (\<exists>node. e = BindingIndexOverflow node) \<or> (\<exists>node. e = NormalizationLimitExceeded node normalization_reduction_limit)"
  "normalize_computation sh c = Inl e \<Longrightarrow>
     (\<exists>node. e = BindingIndexOverflow node) \<or> (\<exists>node. e = NormalizationLimitExceeded node normalization_reduction_limit)"
  using normalizer_sound_errors(1) [of "normalizer_with_limit normalization_reduction_limit" sh v]
    normalizer_sound_errors(2) [of "normalizer_with_limit normalization_reduction_limit" sh c]
  by (auto simp: normalize_value_def normalize_computation_def sound_errors_def and_then_eq_Inl normalizer_error_def
      normalizer_with_limit_def)

text \<open>Terms in normal form come back as they are.\<close>

definition tables_identity :: "normalizer \<Rightarrow> bool" where
  "tables_identity st \<longleftrightarrow> (\<forall>(v, w) \<in> set (normal_values st). v = w) \<and> (\<forall>(c, d) \<in> set (normal_computations st). c = d)"

definition returns :: "normalizer \<Rightarrow> (typing_error, 'a \<times> normalizer) result \<Rightarrow> 'a \<Rightarrow> bool" where
  "returns st r x \<longleftrightarrow> (tables_identity st \<longrightarrow> (\<exists>st'. r = Inr (x, st') \<and> tables_identity st'))"

lemma returns_Inr: "returns st (Inr (x, st)) x"
  by (simp add: returns_def)

lemma returns_and_then:
  "returns st r x \<Longrightarrow> (\<And>st'. returns st' (k x st') y) \<Longrightarrow> returns st (and_then r (\<lambda>(x, st). k x st)) y"
  by (fastforce simp: returns_def)

lemma returns_value_normal_or:
  assumes "returns (normal_lookup st) (f (normal_lookup st)) v"
  shows "returns st (value_normal_or sh v st f) v"
proof (cases "recall sh (normal_lookups st) (normal_values st) v")
  case None
  with assms show ?thesis
    by (auto simp: returns_def value_normal_or_def remember_value_def tables_identity_def normal_lookup_def)
next
  case (Some w)
  with recall_Some [OF this] show ?thesis
    by (auto simp: returns_def value_normal_or_def tables_identity_def normal_lookup_def)
qed

lemma returns_computation_normal_or:
  assumes "returns (normal_lookup st) (f (normal_lookup st)) c"
  shows "returns st (computation_normal_or sh c st f) c"
proof (cases "recall sh (normal_lookups st) (normal_computations st) c")
  case None
  with assms show ?thesis
    by (auto simp: returns_def computation_normal_or_def remember_computation_def tables_identity_def normal_lookup_def)
next
  case (Some w)
  with recall_Some [OF this] show ?thesis
    by (auto simp: returns_def computation_normal_or_def tables_identity_def normal_lookup_def)
qed

lemma normalizer_returns:
  "normal (erase_value v) \<Longrightarrow> returns st (normalizer_value sh v st) v"
  "normal (erase_computation c) \<Longrightarrow> returns st (normalizer_computation sh c st) c"
proof (induction v and c arbitrary: st and st)
  case (PBind s a b)
  have one: "returns st (normalizer_computation sh a st) a" and two: "returns st (normalizer_computation sh b st) b" for st
    using PBind by simp_all
  from PBind.prems have stuck: "\<nexists>r v. a = PReturn r v" by simp
  show ?case unfolding normalizer_computation.simps(3)
  proof (intro returns_computation_normal_or returns_and_then [OF one])
    fix st'
    have "returns st' (and_then (normalizer_computation sh b st') (\<lambda>(body', st). Inr (PBind s a body', st))) (PBind s a b)"
      by (intro returns_and_then [OF two] returns_Inr)
    with stuck show "returns st' (case a of
        PReturn _ v \<Rightarrow> and_then (reduce (NodeComputation s) st') (\<lambda>st.
          and_then (substitute_computation b v 0) (\<lambda>body'. normalizer_computation sh body' st))
      | _ \<Rightarrow> and_then (normalizer_computation sh b st') (\<lambda>(body', st). Inr (PBind s a body', st))) (PBind s a b)"
      by (cases a) simp_all
  qed
qed (auto intro!: returns_value_normal_or returns_computation_normal_or returns_and_then returns_Inr
      split: pure_value.split pure_computation.split)

lemma normalize_fixes_normal:
  "normal (erase_value v) \<Longrightarrow> normalize_value sh v = Inr v"
  "normal (erase_computation c) \<Longrightarrow> normalize_computation sh c = Inr c"
  using normalizer_returns(1) [of v "normalizer_with_limit normalization_reduction_limit" sh]
    normalizer_returns(2) [of c "normalizer_with_limit normalization_reduction_limit" sh]
  by (auto simp: normalize_value_def normalize_computation_def returns_def tables_identity_def normalizer_with_limit_def)

text \<open>
  C3. Normalization computes the normal form of the calculus: a result is reached by reduction, is
  normal, and is the only normal form, so it does not depend on which nodes are shared; and
  normalizing a result again returns it unchanged. It fails only when an index no longer fits
  32 bits or after the stated number of reductions.
\<close>

theorem normalization_exact:
  "case normalize_computation shared c of
     Inr d \<Rightarrow> steps (erase_computation c) (erase_computation d) \<and> normal (erase_computation d) \<and>
       {u. steps (erase_computation c) u \<and> normal u} = {erase_computation d} \<and>
       normalize_computation shared' d = Inr d
   | Inl e \<Rightarrow> e \<in> range BindingIndexOverflow \<union>
       range (\<lambda>node. NormalizationLimitExceeded node normalization_reduction_limit)"
proof (cases "normalize_computation shared c")
  case (Inl e)
  from normalize_error(2) [OF Inl] show ?thesis unfolding Inl by auto
next
  case (Inr d)
  from normalize_normal_of(2) [OF Inr] have d: "normal_of (erase_computation c) (erase_computation d)" .
  then have "{u. normal_of (erase_computation c) u} = {erase_computation d}"
    using normal_of_unique by blast
  moreover have "normalize_computation shared' d = Inr d"
    using d by (intro normalize_fixes_normal(2)) (simp add: normal_of_def)
  ultimately show ?thesis using d unfolding Inr by (simp add: normal_of_def)
qed

text \<open>
  The conversion test decides convertibility: whenever it answers, it answers whether the two
  terms are equal up to the equivalence that reduction generates.
\<close>

theorem conversion_decided:
  assumes "values_convert shared l r = Inr b" "computations_convert shared' c d = Inr b'"
  shows "b = converts (erase_value l) (erase_value r) \<and> b' = converts (erase_computation c) (erase_computation d)"
  using assms values_convert_exact computations_convert_exact by blast

definition sample_redex :: pure_computation where
  "sample_redex = PLet (ComputationId 0) (VUniverse (ValueId 0) Prop) (PReturn (ComputationId 1) (VBound (ValueId 1) 0))"

definition sample_normal :: pure_computation where
  "sample_normal = PReturn (ComputationId 2) (VUniverse (ValueId 3) Prop)"

lemma sample_conversions:
  "computations_convert (\<lambda>_ _. True) sample_redex sample_normal = Inr True"
  "values_convert (\<lambda>_ _. True) (VBound (ValueId 0) 1) (VBound (ValueId 0) 2) = Inr False"
  by code_simp+

theorem conversion_decided_witness:
  "converts (erase_computation sample_redex) (erase_computation sample_normal) \<and>
   \<not> converts (CVar 1) (CVar 2)"
  using conversion_decided [OF sample_conversions(2) sample_conversions(1)] by simp

end
