(* ===== verification/QCoreTyping.thy ===== *)
theory QCoreTyping
  imports QCoreNormalization
begin

text \<open>
  The type checker of \<open>compiler/src/qcore_typing.rs\<close>: sorts, inference and checking of values and
  computations, and the declarative typing judgment of \<open>spec/QCORE_TYPING.md\<close> that a successful
  check establishes.
\<close>

section \<open>The checker\<close>

datatype global_boundary = BoundaryValue pure_value | BoundaryComputation | BoundaryImport

type_synonym globals = "definition_key \<rightharpoonup> global_boundary"

datatype pure_sort = SortProp | SortType u32

fun sort_level :: "pure_sort \<Rightarrow> u32" where
  "sort_level SortProp = 0"
| "sort_level (SortType l) = l"

fun pi_universe :: "pure_sort \<Rightarrow> pure_sort \<Rightarrow> universe" where
  "pi_universe domain SortProp = Prop"
| "pi_universe domain (SortType codomain) = TypeUniverse (max (sort_level domain) codomain)"

text \<open>
  Every run of the normalizer and of the use counter has a sharing of its own. The checker hands
  each of its calls the sharing of the runs below it, told apart by the path of call sites.
\<close>

type_synonym sharing = "nat list \<Rightarrow> nat \<Rightarrow> bool"

definition below :: "nat \<Rightarrow> sharing \<Rightarrow> sharing" where
  "below i sh path = sh (i # path)"

text \<open>\<open>infer_sort\<close> after the type of \<open>v\<close> has been inferred.\<close>

definition sort_of :: "(nat \<Rightarrow> bool) \<Rightarrow> pure_value \<Rightarrow> pure_value \<Rightarrow> (typing_error, pure_sort) result" where
  "sort_of sh v inferred =
     and_then (normalize_value sh inferred) (\<lambda>inferred.
       case inferred of
         VUniverse _ Prop \<Rightarrow> Inr SortProp
       | VUniverse _ (TypeUniverse level) \<Rightarrow> Inr (SortType level)
       | _ \<Rightarrow> Inl (ExpectedType (value_source v) (display_value inferred)))"

text \<open>The last case of \<open>check_value\<close> and the application case of \<open>check_computation\<close>.\<close>

definition check_inferred_value ::
  "(nat \<Rightarrow> nat \<Rightarrow> bool) \<Rightarrow> pure_value \<Rightarrow> pure_value \<Rightarrow> pure_value \<Rightarrow> (typing_error, unit) result" where
  "check_inferred_value sh v expected inferred =
     and_then (values_convert sh inferred expected) (\<lambda>convertible.
       if convertible then Inr ()
       else and_then (normalize_value (sh 2) expected) (\<lambda>e.
            and_then (normalize_value (sh 3) inferred) (\<lambda>i.
              Inl (ValueTypeMismatch (value_source v) (display_value e) (display_value i)))))"

definition check_inferred_computation ::
  "(nat \<Rightarrow> nat \<Rightarrow> bool) \<Rightarrow> pure_computation \<Rightarrow> pure_value \<Rightarrow> pure_value \<Rightarrow> (typing_error, unit) result" where
  "check_inferred_computation sh c expected inferred =
     and_then (values_convert sh inferred expected) (\<lambda>convertible.
       if convertible then Inr ()
       else and_then (normalize_value (sh 2) expected) (\<lambda>e.
            and_then (normalize_value (sh 3) inferred) (\<lambda>i.
              Inl (ComputationTypeMismatch (computation_source c) (display_value e) (display_value i)))))"

definition infer_variable :: "pure_value list \<Rightarrow> value_id \<Rightarrow> u32 \<Rightarrow> (typing_error, pure_value) result" where
  "infer_variable ctx s index =
     (if unat index < length ctx then
        and_then (next_binding_depth index (NodeValue s)) (\<lambda>amount. shift_value (ctx ! unat index) amount 0)
      else Inl (BindingOutOfScope s index (length ctx)))"

definition infer_global :: "globals \<Rightarrow> value_id \<Rightarrow> definition_key \<Rightarrow> (typing_error, pure_value) result" where
  "infer_global globals s key =
     (case globals key of
        None \<Rightarrow> Inl (MissingGlobalBoundary key)
      | Some (BoundaryValue expected_type) \<Rightarrow> Inr expected_type
      | Some BoundaryComputation \<Rightarrow> Inl (Unsupported (NodeValue s) (ComputationDefinitionAsValue key))
      | Some BoundaryImport \<Rightarrow> Inl (Unsupported (NodeValue s) (ImportedDefinitionType key)))"

fun infer_universe :: "value_id \<Rightarrow> universe \<Rightarrow> (typing_error, pure_value) result" where
  "infer_universe s Prop = Inr (VUniverse s (TypeUniverse 0))"
| "infer_universe s (TypeUniverse level) =
     (case checked_add_u32 level 1 of
        None \<Rightarrow> Inl (UniverseLevelOverflow s level)
      | Some n \<Rightarrow> Inr (VUniverse s (TypeUniverse n)))"

text \<open>\<open>remove_value_binder(\<dots>).map_err(\<dots>)\<close>.\<close>

definition remove_bound_result :: "computation_id \<Rightarrow> pure_value \<Rightarrow> (typing_error, pure_value) result" where
  "remove_bound_result s body_type =
     (case remove_value_binder body_type 0 of
        Inr t \<Rightarrow> Inr t
      | Inl VariableOccurs \<Rightarrow> Inl (Unsupported (NodeComputation s) DependentBindResult)
      | Inl DepthOverflow \<Rightarrow> Inl TypingPanic)"

function infer_value ::
    "globals \<Rightarrow> sharing \<Rightarrow> pure_value list \<Rightarrow> pure_value \<Rightarrow> (typing_error, pure_value) result"
  and infer_sort :: "globals \<Rightarrow> sharing \<Rightarrow> pure_value list \<Rightarrow> pure_value \<Rightarrow> (typing_error, pure_sort) result"
  and check_value ::
    "globals \<Rightarrow> sharing \<Rightarrow> pure_value list \<Rightarrow> pure_value \<Rightarrow> pure_value \<Rightarrow> (typing_error, unit) result"
  and infer_computation ::
    "globals \<Rightarrow> sharing \<Rightarrow> pure_value list \<Rightarrow> pure_computation \<Rightarrow> (typing_error, pure_value) result"
  and check_computation ::
    "globals \<Rightarrow> sharing \<Rightarrow> pure_value list \<Rightarrow> pure_computation \<Rightarrow> pure_value \<Rightarrow> (typing_error, unit) result" where
  "infer_value g sh ctx v =
     (case v of
        VBound s index \<Rightarrow> infer_variable ctx s index
      | VGlobal s key m \<Rightarrow> infer_global g s key
      | VUniverse s u \<Rightarrow> infer_universe s u
      | VPi s domain codomain grade interval \<Rightarrow>
          and_then (infer_sort g (below 0 sh) ctx domain) (\<lambda>domain_sort.
          and_then (infer_sort g (below 1 sh) (domain # ctx) codomain) (\<lambda>codomain_sort.
            Inr (VUniverse s (pi_universe domain_sort codomain_sort))))
      | VSigma s one two \<Rightarrow>
          and_then (infer_sort g (below 0 sh) ctx one) (\<lambda>one_sort.
          and_then (infer_sort g (below 1 sh) (one # ctx) two) (\<lambda>two_sort.
            Inr (VUniverse s (TypeUniverse (max (sort_level one_sort) (sort_level two_sort))))))
      | VPair s one two \<Rightarrow>
          and_then (infer_value g (below 0 sh) ctx one) (\<lambda>one_type.
          and_then (infer_value g (below 1 sh) ctx two) (\<lambda>two_type.
          and_then (shift_value two_type 1 0) (\<lambda>shifted. Inr (VSigma s one_type shifted))))
      | VFirst s pair \<Rightarrow>
          and_then (infer_value g (below 0 sh) ctx pair) (\<lambda>t.
          and_then (normalize_value (sh [1]) t) (\<lambda>pair_type.
            case pair_type of
              VSigma _ one _ \<Rightarrow> Inr one
            | _ \<Rightarrow> Inl (ExpectedPair s (display_value pair_type))))
      | VSecond s pair \<Rightarrow>
          and_then (infer_value g (below 0 sh) ctx pair) (\<lambda>t.
          and_then (normalize_value (sh [1]) t) (\<lambda>pair_type.
            case pair_type of
              VSigma _ _ two \<Rightarrow>
                and_then (normalize_value (sh [2]) (VFirst s pair)) (\<lambda>one. substitute_value_top two one)
            | _ \<Rightarrow> Inl (ExpectedPair s (display_value pair_type))))
      | VLambda s body \<Rightarrow> Inl (CannotInferValue s (ValueTag 5)))"
| "infer_sort g sh ctx v =
     and_then (infer_value g (below 0 sh) ctx v) (\<lambda>inferred. sort_of (sh [1]) v inferred)"
| "check_value g sh ctx v expected_type =
     and_then (normalize_value (sh [0]) expected_type) (\<lambda>expected.
       case (v, expected) of
         (VLambda s body, VPi _ domain codomain grade interval) \<Rightarrow>
           and_then (count_bound_computation (sh [1]) body 0) (\<lambda>uses.
             if \<not> grade_contains interval uses then
               Inl (GradeViolation s grade (grade_lower interval) (grade_upper interval) uses)
             else check_computation g (below 2 sh) (domain # ctx) body codomain)
       | (VPair s one two, VSigma _ one_type two_type) \<Rightarrow>
           and_then (check_value g (below 1 sh) ctx one one_type) (\<lambda>_.
           and_then (substitute_value_top two_type one) (\<lambda>instantiated.
             check_value g (below 2 sh) ctx two instantiated))
       | _ \<Rightarrow>
           and_then (infer_value g (below 1 sh) ctx v) (\<lambda>inferred.
             check_inferred_value (\<lambda>i. sh [2, i]) v expected inferred))"
| "infer_computation g sh ctx c =
     (case c of
        PReturn s v \<Rightarrow> infer_value g (below 0 sh) ctx v
      | PLet s v body \<Rightarrow>
          and_then (infer_value g (below 0 sh) ctx v) (\<lambda>value_type.
          and_then (infer_computation g (below 1 sh) (value_type # ctx) body) (\<lambda>body_type.
            substitute_value_top body_type v))
      | PBind s one body \<Rightarrow>
          and_then (infer_computation g (below 0 sh) ctx one) (\<lambda>one_type.
          and_then (infer_computation g (below 1 sh) (one_type # ctx) body) (\<lambda>body_type.
            remove_bound_result s body_type))
      | PApply s function argument \<Rightarrow>
          (case function of
             VLambda fs body \<Rightarrow>
               and_then (count_bound_computation (sh [0]) body 0) (\<lambda>uses.
                 if uses \<ge> 2 ^ 32 then Inl (SynthesizedGradeOverflow fs uses)
                 else
                   and_then (infer_value g (below 1 sh) ctx argument) (\<lambda>argument_type.
                   and_then (infer_computation g (below 2 sh) (argument_type # ctx) body) (\<lambda>result_type.
                     substitute_value_top result_type argument)))
           | _ \<Rightarrow>
               and_then (infer_value g (below 0 sh) ctx function) (\<lambda>t.
               and_then (normalize_value (sh [1]) t) (\<lambda>function_type.
                 case function_type of
                   VPi _ domain codomain _ _ \<Rightarrow>
                     and_then (check_value g (below 2 sh) ctx argument domain) (\<lambda>_.
                       substitute_value_top codomain argument)
                 | _ \<Rightarrow> Inl (ExpectedFunction s (display_value function_type))))))"
| "check_computation g sh ctx c expected_type =
     (case c of
        PReturn s v \<Rightarrow> check_value g (below 0 sh) ctx v expected_type
      | PLet s v body \<Rightarrow>
          and_then (infer_value g (below 0 sh) ctx v) (\<lambda>value_type.
          and_then (shift_value expected_type 1 0) (\<lambda>shifted.
            check_computation g (below 1 sh) (value_type # ctx) body shifted))
      | PBind s one body \<Rightarrow>
          and_then (infer_computation g (below 0 sh) ctx one) (\<lambda>one_type.
          and_then (shift_value expected_type 1 0) (\<lambda>shifted.
            check_computation g (below 1 sh) (one_type # ctx) body shifted))
      | PApply s function argument \<Rightarrow>
          and_then (infer_computation g (below 0 sh) ctx c) (\<lambda>inferred.
            check_inferred_computation (\<lambda>i. sh [1, i]) c expected_type inferred))"
  by pat_completeness auto

text \<open>Every call is on a smaller term, or on the same term from checking to inference.\<close>

termination
  by (relation "measures
      [case_sum (case_sum (\<lambda>(g, sh, ctx, v). size v) (\<lambda>(g, sh, ctx, v). size v))
         (case_sum (\<lambda>(g, sh, ctx, v, t). size v)
           (case_sum (\<lambda>(g, sh, ctx, c). size c) (\<lambda>(g, sh, ctx, c, t). size c))),
       case_sum (case_sum (\<lambda>_. 0) (\<lambda>_. 1)) (case_sum (\<lambda>_. 1) (case_sum (\<lambda>_. 0) (\<lambda>_. 1)))]") auto

section \<open>The judgment\<close>

text \<open>
  The rules of \<open>spec/QCORE_TYPING.md\<close>, on terms of the calculus: contexts are nearest binder
  first, conversion may be used anywhere, and a function's grade admits the occurrences of its
  parameter.
\<close>

fun universe_level :: "universe \<Rightarrow> u32" where
  "universe_level Prop = 0"
| "universe_level (TypeUniverse l) = l"

inductive has_type ::
  "(definition_key \<rightharpoonup> core_term) \<Rightarrow> core_term list \<Rightarrow> core_term \<Rightarrow> core_term \<Rightarrow> bool" for G where
  type_var: "i < length \<Gamma> \<Longrightarrow> has_type G \<Gamma> (CVar i) (lift (Suc i) 0 (\<Gamma> ! i))"
| type_global: "G d = Some A \<Longrightarrow> has_type G \<Gamma> (CGlobal d s) A"
| type_prop: "has_type G \<Gamma> (CUniverse Prop) (CUniverse (TypeUniverse 0))"
| type_universe: "unat m = Suc (unat l) \<Longrightarrow> has_type G \<Gamma> (CUniverse (TypeUniverse l)) (CUniverse (TypeUniverse m))"
| type_pi_prop: "has_type G \<Gamma> A (CUniverse u) \<Longrightarrow> has_type G (A # \<Gamma>) B (CUniverse Prop) \<Longrightarrow>
    has_type G \<Gamma> (CPi A B g) (CUniverse Prop)"
| type_pi: "has_type G \<Gamma> A (CUniverse u) \<Longrightarrow> has_type G (A # \<Gamma>) B (CUniverse (TypeUniverse l)) \<Longrightarrow>
    has_type G \<Gamma> (CPi A B g) (CUniverse (TypeUniverse (max (universe_level u) l)))"
| type_sigma: "has_type G \<Gamma> A (CUniverse u) \<Longrightarrow> has_type G (A # \<Gamma>) B (CUniverse w) \<Longrightarrow>
    has_type G \<Gamma> (CSigma A B) (CUniverse (TypeUniverse (max (universe_level u) (universe_level w))))"
| type_lam: "has_type G (A # \<Gamma>) b B \<Longrightarrow> admits g (occurrences b 0) \<Longrightarrow> has_type G \<Gamma> (CLam b) (CPi A B g)"
| type_pair: "has_type G \<Gamma> a A \<Longrightarrow> has_type G \<Gamma> b (subst a 0 B) \<Longrightarrow> has_type G \<Gamma> (CPair a b) (CSigma A B)"
| type_fst: "has_type G \<Gamma> p (CSigma A B) \<Longrightarrow> has_type G \<Gamma> (CFst p) A"
| type_snd: "has_type G \<Gamma> p (CSigma A B) \<Longrightarrow> has_type G \<Gamma> (CSnd p) (subst (CFst p) 0 B)"
| type_return: "has_type G \<Gamma> a A \<Longrightarrow> has_type G \<Gamma> (CReturn a) A"
| type_let: "has_type G \<Gamma> a A \<Longrightarrow> has_type G (A # \<Gamma>) b B \<Longrightarrow> has_type G \<Gamma> (CLet a b) (subst a 0 B)"
| type_bind: "has_type G \<Gamma> a A \<Longrightarrow> has_type G (A # \<Gamma>) b (lift 1 0 B) \<Longrightarrow> has_type G \<Gamma> (CBind a b) B"
| type_app: "has_type G \<Gamma> f (CPi A B g) \<Longrightarrow> has_type G \<Gamma> a A \<Longrightarrow> has_type G \<Gamma> (CApp f a) (subst a 0 B)"
| type_conv: "has_type G \<Gamma> t A \<Longrightarrow> converts A B \<Longrightarrow> has_type G \<Gamma> t B"

definition declared :: "globals \<Rightarrow> definition_key \<rightharpoonup> core_term" where
  "declared g key = (case g key of Some (BoundaryValue t) \<Rightarrow> Some (erase_value t) | _ \<Rightarrow> None)"

abbreviation typed :: "globals \<Rightarrow> pure_value list \<Rightarrow> core_term \<Rightarrow> core_term \<Rightarrow> bool" where
  "typed g ctx t A \<equiv> has_type (declared g) (map erase_value ctx) t A"

fun sort_universe :: "pure_sort \<Rightarrow> universe" where
  "sort_universe SortProp = Prop"
| "sort_universe (SortType l) = TypeUniverse l"

section \<open>Soundness of the checker\<close>

lemma typed_normalized:
  "typed g ctx t (erase_value A) \<Longrightarrow> normalize_value sh A = Inr B \<Longrightarrow> typed g ctx t (erase_value B)"
  by (blast intro: type_conv normalize_converts)

lemma typed_denormalized:
  "normalize_value sh A = Inr B \<Longrightarrow> typed g ctx t (erase_value B) \<Longrightarrow> typed g ctx t (erase_value A)"
  by (blast intro: type_conv conv_sym normalize_converts)

lemma infer_variable_sound:
  "infer_variable ctx s i = Inr t \<Longrightarrow> typed g ctx (CVar (unat i)) (erase_value t)"
  using type_var [of "unat i" "map erase_value ctx"]
  by (auto simp: infer_variable_def and_then_eq_Inr dest!: shift_refines split: if_splits)

lemma infer_global_sound: "infer_global g s key = Inr t \<Longrightarrow> typed g ctx (CGlobal key m) (erase_value t)"
  by (auto simp: infer_global_def declared_def intro!: type_global split: option.splits global_boundary.splits)

lemma infer_universe_sound: "infer_universe s u = Inr t \<Longrightarrow> typed g ctx (CUniverse u) (erase_value t)"
  by (cases u) (auto simp: checked_simps intro!: type_prop type_universe split: option.splits)

lemma sort_of_sound:
  assumes "sort_of sh v inferred = Inr s" "typed g ctx (erase_value v) (erase_value inferred)"
  shows "typed g ctx (erase_value v) (CUniverse (sort_universe s))"
proof -
  from assms(1) obtain n where n: "normalize_value sh inferred = Inr n"
    and res: "(case n of VUniverse _ Prop \<Rightarrow> Inr SortProp | VUniverse _ (TypeUniverse level) \<Rightarrow> Inr (SortType level)
      | _ \<Rightarrow> Inl (ExpectedType (value_source v) (display_value n))) = Inr s"
    unfolding sort_of_def by (rule and_then_InrE)
  from res have "erase_value n = CUniverse (sort_universe s)"
    by (cases n) (auto split: universe.splits)
  note n = n this
  from typed_normalized [OF assms(2) n(1)] n(2) show ?thesis by simp
qed

lemma pi_sound:
  assumes "typed g ctx A (CUniverse (sort_universe s))" "has_type (declared g) (A # map erase_value ctx) B (CUniverse (sort_universe r))"
  shows "typed g ctx (CPi A B i) (CUniverse (pi_universe s r))"
proof (cases r)
  case SortProp
  with assms show ?thesis by (auto intro: type_pi_prop)
next
  case (SortType l)
  with assms type_pi [OF assms(1), of B l i] show ?thesis by (cases s) auto
qed

lemma sigma_sound:
  assumes "typed g ctx A (CUniverse (sort_universe s))" "has_type (declared g) (A # map erase_value ctx) B (CUniverse (sort_universe r))"
  shows "typed g ctx (CSigma A B) (CUniverse (TypeUniverse (max (sort_level s) (sort_level r))))"
  using type_sigma [OF assms] by (cases s; cases r) auto

lemma pair_sound:
  assumes "typed g ctx a A" "typed g ctx b B"
  shows "typed g ctx (CPair a b) (CSigma A (lift (Suc 0) 0 B))"
  using assms subst_under_lift [of 0 0 0 a B] by (intro type_pair) auto

lemma snd_sound:
  assumes "typed g ctx p (CSigma A B)" "converts (CFst p) q"
  shows "typed g ctx (CSnd p) (subst q 0 B)"
  using type_snd [OF assms(1)] converts_subst [OF conv_refl assms(2)] by (rule type_conv)

lemma let_shifted_sound:
  assumes "typed g ctx a A" "has_type (declared g) (A # map erase_value ctx) b (lift (Suc 0) 0 B)"
  shows "typed g ctx (CLet a b) B"
  using type_let [OF assms] subst_under_lift [of 0 0 0 a B] by simp

lemma check_inferred_sound:
  "check_inferred_value sh v expected inferred = Inr () \<Longrightarrow> converts (erase_value inferred) (erase_value expected)"
  "check_inferred_computation sh c expected inferred = Inr () \<Longrightarrow> converts (erase_value inferred) (erase_value expected)"
  by (auto simp: check_inferred_value_def check_inferred_computation_def and_then_eq_Inr
      dest: values_convert_exact split: if_splits)

lemma remove_bound_result_sound:
  "remove_bound_result s t = Inr u \<Longrightarrow> lift 1 0 (erase_value u) = erase_value t"
  using remove_refines(1) [of t 0 u]
  by (auto simp: remove_bound_result_def split: sum.splits removal_error.splits)

text \<open>A lambda applied on the spot has its exact number of uses as its grade.\<close>

lemma apply_lambda_sound:
  assumes "count_bound_computation sh body 0 = Inr uses" "uses < 2 ^ 32"
    and "typed g ctx a A" "has_type (declared g) (A # map erase_value ctx) (erase_computation body) B"
  shows "typed g ctx (CApp (CLam (erase_computation body)) a) (subst a 0 B)"
proof -
  have "unat uses < 2 ^ 32" using assms(2) by (simp add: word_less_nat_alt)
  then have n: "occurrences (erase_computation body) 0 = unat uses"
    using count_bound_exact [OF assms(1)] by (auto simp: counted_def min_def split: if_splits)
  define g' where "g' = \<lparr>grade_lower = ucast uses, grade_upper = Finite (ucast uses)\<rparr>"
  have "unat (ucast uses :: u32) = unat uses"
    using \<open>unat uses < 2 ^ 32\<close> by (simp add: unsigned_ucast_eq take_bit_nat_eq_self)
  with n have "admits g' (occurrences (erase_computation body) 0)" by (simp add: admits_def g'_def)
  with type_app [OF type_lam [OF assms(4)] assms(3)] show ?thesis by blast
qed

lemma check_lambda_sound:
  assumes "count_bound_computation sh body 0 = Inr uses" "grade_contains i uses"
    and "has_type (declared g) (A # map erase_value ctx) (erase_computation body) B"
  shows "typed g ctx (CLam (erase_computation body)) (CPi A B i)"
  using assms grade_contains_admits [OF count_bound_exact [OF assms(1)]] by (auto intro: type_lam)

lemmas infer_unfold =
  infer_value.simps infer_sort.simps check_value.simps infer_computation.simps check_computation.simps

declare infer_unfold [simp del]

lemma case_sigma_Inr:
  "(case n of VSigma s a b \<Rightarrow> f a b | _ \<Rightarrow> Inl err) = Inr t \<longleftrightarrow> (\<exists>s a b. n = VSigma s a b \<and> f a b = Inr t)"
  by (cases n) auto

lemma case_pi_Inr:
  "(case n of VPi s a b r i \<Rightarrow> f a b | _ \<Rightarrow> Inl err) = Inr t \<longleftrightarrow> (\<exists>s a b r i. n = VPi s a b r i \<and> f a b = Inr t)"
  by (cases n) auto

lemmas infer_value_pi = infer_value.simps [of _ _ _ "VPi s a b r i" for s a b r i, unfolded pure_value.case]
lemmas infer_value_sigma = infer_value.simps [of _ _ _ "VSigma s a b" for s a b, unfolded pure_value.case]
lemmas infer_value_pair = infer_value.simps [of _ _ _ "VPair s a b" for s a b, unfolded pure_value.case]
lemmas infer_value_fst = infer_value.simps [of _ _ _ "VFirst s a" for s a, unfolded pure_value.case]
lemmas infer_value_snd = infer_value.simps [of _ _ _ "VSecond s a" for s a, unfolded pure_value.case]
lemmas infer_computation_return = infer_computation.simps [of _ _ _ "PReturn s a" for s a, unfolded pure_computation.case]
lemmas infer_computation_let = infer_computation.simps [of _ _ _ "PLet s a b" for s a b, unfolded pure_computation.case]
lemmas infer_computation_bind = infer_computation.simps [of _ _ _ "PBind s a b" for s a b, unfolded pure_computation.case]
lemmas infer_computation_apply = infer_computation.simps [of _ _ _ "PApply s a b" for s a b, unfolded pure_computation.case]
lemmas check_computation_return = check_computation.simps [of _ _ _ "PReturn s a" for s a, unfolded pure_computation.case]
lemmas check_computation_let = check_computation.simps [of _ _ _ "PLet s a b" for s a b, unfolded pure_computation.case]
lemmas check_computation_bind = check_computation.simps [of _ _ _ "PBind s a b" for s a b, unfolded pure_computation.case]
lemmas check_computation_apply = check_computation.simps [of _ _ _ "PApply s a b" for s a b, unfolded pure_computation.case]

lemma checker_sound:
  "infer_value g sh ctx v = Inr t \<Longrightarrow> typed g ctx (erase_value v) (erase_value t)"
  "infer_sort g sh ctx v = Inr s \<Longrightarrow> typed g ctx (erase_value v) (CUniverse (sort_universe s))"
  "check_value g sh ctx v e = Inr () \<Longrightarrow> typed g ctx (erase_value v) (erase_value e)"
  "infer_computation g sh ctx c = Inr t \<Longrightarrow> typed g ctx (erase_computation c) (erase_value t)"
  "check_computation g sh ctx c e = Inr () \<Longrightarrow> typed g ctx (erase_computation c) (erase_value e)"
proof (induction g sh ctx v and g sh ctx v and g sh ctx v e and g sh ctx c and g sh ctx c e
    arbitrary: t and s and and t
    rule: infer_value_infer_sort_check_value_infer_computation_check_computation.induct)
  case (1 g sh ctx v)
  show ?case
  proof (cases v)
    case (VBound s i)
    with 1 show ?thesis by (auto simp: infer_value.simps intro: infer_variable_sound)
  next
    case (VGlobal s k m)
    with 1 show ?thesis by (auto simp: infer_value.simps intro: infer_global_sound)
  next
    case (VUniverse s u)
    with 1 show ?thesis by (auto simp: infer_value.simps intro: infer_universe_sound)
  next
    case (VPi s a b gr i)
    with "1.prems" obtain x y where "infer_sort g (below 0 sh) ctx a = Inr x"
        "infer_sort g (below 1 sh) (a # ctx) b = Inr y" "t = VUniverse s (pi_universe x y)"
      by (auto simp: infer_value_pi and_then_eq_Inr)
    with "1.IH"(1,2) VPi show ?thesis by (auto intro: pi_sound)
  next
    case (VSigma s a b)
    with "1.prems" obtain x y where "infer_sort g (below 0 sh) ctx a = Inr x"
        "infer_sort g (below 1 sh) (a # ctx) b = Inr y"
        "t = VUniverse s (TypeUniverse (max (sort_level x) (sort_level y)))"
      by (auto simp: infer_value_sigma and_then_eq_Inr)
    with "1.IH"(3,4) VSigma show ?thesis by (auto intro: sigma_sound)
  next
    case (VPair s a b)
    with "1.prems" obtain x y z where "infer_value g (below 0 sh) ctx a = Inr x"
        "infer_value g (below 1 sh) ctx b = Inr y" "shift_value y 1 0 = Inr z" "t = VSigma s x z"
      by (auto simp: infer_value_pair and_then_eq_Inr)
    with "1.IH"(5,6) VPair shift_refines(1) [of y 1 0 z] show ?thesis by (auto intro: pair_sound)
  next
    case (VFirst s p)
    with "1.prems" obtain x r b where run: "infer_value g (below 0 sh) ctx p = Inr x"
        "normalize_value (sh [1]) x = Inr (VSigma r t b)"
      by (auto simp: infer_value_fst and_then_eq_Inr case_sigma_Inr)
    from "1.IH"(7) [OF VFirst run(1)] typed_normalized [OF _ run(2)] VFirst show ?thesis
      by (auto intro: type_fst)
  next
    case (VSecond s p)
    with "1.prems" obtain x r a b q where run: "infer_value g (below 0 sh) ctx p = Inr x"
        "normalize_value (sh [1]) x = Inr (VSigma r a b)"
        "normalize_value (sh [2]) (VFirst s p) = Inr q" "substitute_value_top b q = Inr t"
      by (auto simp: infer_value_snd and_then_eq_Inr case_sigma_Inr)
    from "1.IH"(8) [OF VSecond run(1)] typed_normalized [OF _ run(2)]
    have "typed g ctx (erase_value p) (CSigma (erase_value a) (erase_value b))" by auto
    from snd_sound [OF this] normalize_converts [OF run(3)] run(4) VSecond show ?thesis
      by (auto simp: substitute_value_top_def dest!: substitute_refines)
  next
    case (VLambda s c)
    with "1.prems" show ?thesis by (simp add: infer_value.simps [of g sh ctx "VLambda s c"])
  qed
next
  case (2 g sh ctx v)
  then show ?case by (auto simp: infer_sort.simps and_then_eq_Inr intro: sort_of_sound)
next
  case (3 g sh ctx v e)
  from "3.prems" obtain n where n: "normalize_value (sh [0]) e = Inr n"
    and run: "(case (v, n) of
         (VLambda s body, VPi _ domain codomain grade interval) \<Rightarrow>
           and_then (count_bound_computation (sh [1]) body 0) (\<lambda>uses.
             if \<not> grade_contains interval uses then
               Inl (GradeViolation s grade (grade_lower interval) (grade_upper interval) uses)
             else check_computation g (below 2 sh) (domain # ctx) body codomain)
       | (VPair s one two, VSigma _ one_type two_type) \<Rightarrow>
           and_then (check_value g (below 1 sh) ctx one one_type) (\<lambda>_.
           and_then (substitute_value_top two_type one) (\<lambda>instantiated.
             check_value g (below 2 sh) ctx two instantiated))
       | _ \<Rightarrow>
           and_then (infer_value g (below 1 sh) ctx v) (\<lambda>inferred.
             check_inferred_value (\<lambda>i. sh [2, i]) v n inferred)) = Inr ()"
    unfolding check_value.simps [of g sh ctx v e] by (rule and_then_InrE)
  note IH = "3.IH" [OF n refl]
  have goal: "typed g ctx (erase_value v) (erase_value e)" if "typed g ctx (erase_value v) (erase_value n)"
    using typed_denormalized [OF n that] .
  consider (lambda) s b r d c gr i where "v = VLambda s b" "n = VPi r d c gr i"
    | (pair) s a b r c d where "v = VPair s a b" "n = VSigma r c d"
    | (other) "\<nexists>s b r d c gr i. v = VLambda s b \<and> n = VPi r d c gr i" "\<nexists>s a b r c d. v = VPair s a b \<and> n = VSigma r c d"
    by blast
  then show ?case
  proof cases
    case lambda
    with run obtain uses where "count_bound_computation (sh [1]) b 0 = Inr uses" "grade_contains i uses"
        "check_computation g (below 2 sh) (d # ctx) b c = Inr ()"
      by (auto simp: and_then_eq_Inr split: if_splits)
    with IH(9) [OF lambda] check_lambda_sound [of "sh [1]" b uses i g "erase_value d" ctx "erase_value c"] lambda
    show ?thesis by (intro goal) simp
  next
    case pair
    with run obtain t where one: "check_value g (below 1 sh) ctx a c = Inr ()" and t: "substitute_value_top d a = Inr t"
        and two: "check_value g (below 2 sh) ctx b t = Inr ()"
      by (auto simp: and_then_eq_Inr)
    from IH(19) [OF pair one] IH(20) [OF pair one t two] t pair show ?thesis
      by (intro goal) (auto simp: substitute_value_top_def intro: type_pair dest!: substitute_refines)
  next
    case other
    with run obtain t where t: "infer_value g (below 1 sh) ctx v = Inr t"
        "check_inferred_value (\<lambda>i. sh [2, i]) v n t = Inr ()"
      by (cases v; cases n) (auto simp: and_then_eq_Inr)
    from other t(1) have "typed g ctx (erase_value v) (erase_value t)"
      by (cases v; cases n) (use IH in auto)
    with check_inferred_sound(1) [OF t(2)] show ?thesis by (intro goal) (rule type_conv)
  qed
next
  case (4 g sh ctx c)
  show ?case
  proof (cases c)
    case (PReturn s v)
    with 4 show ?thesis by (auto simp: infer_computation_return intro: type_return)
  next
    case (PLet s v b)
    with "4.prems" obtain x y where run: "infer_value g (below 0 sh) ctx v = Inr x"
        "infer_computation g (below 1 sh) (x # ctx) b = Inr y" "substitute_value_top y v = Inr t"
      by (auto simp: infer_computation_let and_then_eq_Inr)
    from "4.IH"(2) [OF PLet run(1)] "4.IH"(3) [OF PLet run(1,2)] run(3) PLet show ?thesis
      by (auto simp: substitute_value_top_def intro: type_let dest!: substitute_refines)
  next
    case (PBind s a b)
    with "4.prems" obtain x y where run: "infer_computation g (below 0 sh) ctx a = Inr x"
        "infer_computation g (below 1 sh) (x # ctx) b = Inr y" "remove_bound_result s y = Inr t"
      by (auto simp: infer_computation_bind and_then_eq_Inr)
    from "4.IH"(4) [OF PBind run(1)] "4.IH"(5) [OF PBind run(1,2)] remove_bound_result_sound [OF run(3)] PBind
    show ?thesis by (auto intro!: type_bind)
  next
    case (PApply s f a)
    note IH = "4.IH"(6-) [OF PApply]
    show ?thesis
    proof (cases "\<exists>r b. f = VLambda r b")
      case True
      then obtain r b where f: "f = VLambda r b" by blast
      with PApply "4.prems" obtain uses x y where uses: "count_bound_computation (sh [0]) b 0 = Inr uses" "\<not> uses \<ge> 2 ^ 32"
          and run: "infer_value g (below 1 sh) ctx a = Inr x" "infer_computation g (below 2 sh) (x # ctx) b = Inr y"
            "substitute_value_top y a = Inr t"
        by (auto simp: infer_computation_apply and_then_eq_Inr split: if_splits)
      from IH f uses run have "typed g ctx (erase_value a) (erase_value x)"
          "has_type (declared g) (erase_value x # map erase_value ctx) (erase_computation b) (erase_value y)"
        by auto
      with apply_lambda_sound [OF uses(1)] uses(2) run(3) f PApply show ?thesis
        by (auto simp: substitute_value_top_def dest!: substitute_refines)
    next
      case False
      with PApply "4.prems" obtain x r d c k i where run: "infer_value g (below 0 sh) ctx f = Inr x"
          "normalize_value (sh [1]) x = Inr (VPi r d c k i)"
          "check_value g (below 2 sh) ctx a d = Inr ()" "substitute_value_top c a = Inr t"
        by (cases f) (auto simp: infer_computation_apply and_then_eq_Inr case_pi_Inr)
      from False run(1) have "typed g ctx (erase_value f) (erase_value x)" by (cases f) (use IH in auto)
      from typed_normalized [OF this run(2)]
      have "typed g ctx (erase_value f) (CPi (erase_value d) (erase_value c) i)" by simp
      moreover from False run have "typed g ctx (erase_value a) (erase_value d)" by (cases f) (use IH in auto)
      ultimately show ?thesis using PApply run(4)
        by (auto simp: substitute_value_top_def intro: type_app dest!: substitute_refines)
    qed
  qed
next
  case (5 g sh ctx c e)
  show ?case
  proof (cases c)
    case (PReturn s v)
    with 5 show ?thesis by (auto simp: check_computation_return intro: type_return)
  next
    case (PLet s v b)
    with "5.prems" obtain x y where run: "infer_value g (below 0 sh) ctx v = Inr x" "shift_value e 1 0 = Inr y"
        "check_computation g (below 1 sh) (x # ctx) b y = Inr ()"
      by (auto simp: check_computation_let and_then_eq_Inr)
    from "5.IH"(2) [OF PLet run(1)] "5.IH"(3) [OF PLet run] PLet show ?thesis
      by (auto intro: let_shifted_sound simp: shift_refines(1) [OF run(2)])
  next
    case (PBind s a b)
    with "5.prems" obtain x y where run: "infer_computation g (below 0 sh) ctx a = Inr x" "shift_value e 1 0 = Inr y"
        "check_computation g (below 1 sh) (x # ctx) b y = Inr ()"
      by (auto simp: check_computation_bind and_then_eq_Inr)
    from "5.IH"(4) [OF PBind run(1)] "5.IH"(5) [OF PBind run] PBind show ?thesis
      by (auto intro!: type_bind simp: shift_refines(1) [OF run(2)])
  next
    case (PApply s f a)
    with "5.prems" obtain x where run: "infer_computation g (below 0 sh) ctx (PApply s f a) = Inr x"
        "check_inferred_computation (\<lambda>i. sh [1, i]) (PApply s f a) e x = Inr ()"
      by (auto simp: check_computation_apply and_then_eq_Inr)
    from type_conv [OF "5.IH"(6) [OF PApply] check_inferred_sound(2) [OF run(2)]] run(1) PApply show ?thesis by simp
  qed
qed

end
