(* ===== verification/QCoreValidation.thy ===== *)
theory QCoreValidation
  imports QCore "HOL-Library.Char_ord" "HOL-Library.List_Lexorder"
begin

text \<open>
  \<open>ModuleValidator\<close> of \<open>compiler/src/qcore.rs\<close>: the checks of a core module in the order the
  code makes them, and the walk that checks the scopes of everything the definitions reach.
\<close>

section \<open>References and errors\<close>

datatype arena_kind = OriginArena | ValueArena | ComputationArena | EffectRowArena | GradeArena | ProofArena

datatype arena_reference =
  ToOrigin source_origin_id
| ToValue value_id
| ToComputation computation_id
| ToEffectRow effect_row_id
| ToGrade grade_id
| ToProof proof_id

datatype reference_source =
  FromImport nat
| FromDefinition nat
| FromValue value_id
| FromComputation computation_id
| FromEffectRow effect_row_id
| FromGrade grade_id
| FromProof proof_id

text \<open>\<open>OutOfRangePanic\<close> is Rust's out-of-range panic.\<close>

datatype validation_error =
  SchemaVersion u32 u32
| ArenaTooLarge arena_kind nat
| InvalidOriginRange source_origin_id u32 u32
| MissingReference reference_source arena_reference
| ProofSlotMismatch proof_id proof_id
| DuplicateDefinition definition_key
| UnknownDefinition definition_key semantic_key
| DefinitionSemanticMismatch definition_key semantic_key semantic_key
| DirectArenaCycle arena_reference
| BoundVariableOutOfScope value_id u32 u32
| StructuralRigidOutOfScope value_id u32
| DuplicateStructuralBinder value_id u32
| LabeledTypeLengthMismatch value_id nat nat
| StructuralLabelsNotCanonical value_id string string
| InvalidStructuralRange value_id range_domain scalar_bound scalar_bound
| BindingDepthOverflow arena_reference
| EffectVariableOutOfScope effect_row_id u32 u32
| EffectRowNotCanonical effect_row_id semantic_key semantic_key
| InvalidGrade grade_id u32 grade_upper_bound
| ProofPropositionMismatch proof_id value_id value_id
| UnreachableArenaEntry arena_reference
| OutOfRangePanic

text \<open>
  \<open>arena_index\<close> and \<open>arena_offset\<close>. The conversion to \<open>u32\<close> panics above \<open>u32::MAX\<close>, and the
  arena lengths are checked before the first one is made.
\<close>

definition arena_index :: "nat \<Rightarrow> u32" where "arena_index i = of_nat i"
definition arena_offset :: "u32 \<Rightarrow> nat" where "arena_offset i = unat i"

section \<open>References\<close>

definition ensure_reference ::
  "reference_source \<Rightarrow> arena_reference \<Rightarrow> nat \<Rightarrow> u32 \<Rightarrow> (validation_error, unit) result" where
  "ensure_reference source target len index =
     (if arena_offset index \<ge> len then Inl (MissingReference source target) else Inr ())"

text \<open>\<open>ensure_origin\<close>, \<open>ensure_value\<close>, \<open>ensure_computation\<close>, \<open>ensure_effect_row\<close>, \<open>ensure_grade\<close>, \<open>ensure_proof\<close>.\<close>

fun ensure_target :: "qarena \<Rightarrow> reference_source \<Rightarrow> arena_reference \<Rightarrow> (validation_error, unit) result" where
  "ensure_target a source (ToOrigin (SourceOriginId i)) =
     ensure_reference source (ToOrigin (SourceOriginId i)) (length (arena_origins a)) i"
| "ensure_target a source (ToValue (ValueId i)) =
     ensure_reference source (ToValue (ValueId i)) (length (arena_values a)) i"
| "ensure_target a source (ToComputation (ComputationId i)) =
     ensure_reference source (ToComputation (ComputationId i)) (length (arena_computations a)) i"
| "ensure_target a source (ToEffectRow (EffectRowId i)) =
     ensure_reference source (ToEffectRow (EffectRowId i)) (length (arena_effect_rows a)) i"
| "ensure_target a source (ToGrade (GradeId i)) =
     ensure_reference source (ToGrade (GradeId i)) (length (arena_grades a)) i"
| "ensure_target a source (ToProof (ProofId i)) =
     ensure_reference source (ToProof (ProofId i)) (length (arena_proofs a)) i"

definition ensure_targets :: "qarena \<Rightarrow> reference_source \<Rightarrow> arena_reference list \<Rightarrow> (validation_error, unit) result" where
  "ensure_targets a source targets = check_each (ensure_target a source) targets"

fun body_references :: "definition_body \<Rightarrow> arena_reference list" where
  "body_references (ValueBody v t) = [ToValue v, ToValue t]"
| "body_references (ComputationBody c t row) = [ToComputation c, ToValue t, ToEffectRow row]"

text \<open>The references of a value in the order they are ensured.\<close>

fun value_references :: "qvalue \<Rightarrow> arena_reference list" where
  "value_references (DependentPi domain codomain effects grade) =
     [ToValue domain, ToValue codomain, ToEffectRow effects, ToGrade grade]"
| "value_references (DependentSigma one two) = [ToValue one, ToValue two]"
| "value_references (PairValue one two) = [ToValue one, ToValue two]"
| "value_references (LambdaValue body) = [ToComputation body]"
| "value_references (ThunkValue body) = [ToComputation body]"
| "value_references (FirstProjection pair) = [ToValue pair]"
| "value_references (SecondProjection pair) = [ToValue pair]"
| "value_references (EffectRowValue row) = [ToEffectRow row]"
| "value_references (IntervalGrade grade) = [ToGrade grade]"
| "value_references (ProofValue proof proposition) = [ToProof proof, ToValue proposition]"
| "value_references (StructuralForall _ body) = [ToValue body]"
| "value_references (StructuralArray element) = [ToValue element]"
| "value_references (StructuralRegion element) = [ToValue element]"
| "value_references (StructuralScratch element) = [ToValue element]"
| "value_references (StructuralResource _ payload) = [ToValue payload]"
| "value_references (StructuralFunction _ parameter effects res) = [ToValue parameter, ToValue effects, ToValue res]"
| "value_references (StructuralRecord _ types) = map ToValue types"
| "value_references (StructuralVariant _ types _) = map ToValue types"
| "value_references (StructuralUnion members) = map ToValue members"
| "value_references (StructuralQualified body _ subjects members) =
     ToValue body # map ToValue (subjects @ members)"
| "value_references (StructuralRecordUpdate base _ types) = ToValue base # map ToValue types"
| "value_references (StructuralOpenEffects _ tail) = [ToValue tail]"
| "value_references _ = []"

fun computation_references :: "qcomputation \<Rightarrow> arena_reference list" where
  "computation_references (ReturnValue v) = [ToValue v]"
| "computation_references (ForceComputation v) = [ToValue v]"
| "computation_references (LetValue v body) = [ToValue v, ToComputation body]"
| "computation_references (BindComputation one body) = [ToComputation one, ToComputation body]"
| "computation_references (ApplyComputation function argument) = [ToValue function, ToValue argument]"
| "computation_references (PerformComputation _ _ argument) = [ToValue argument]"
| "computation_references (HandleComputation _ body handler) = [ToComputation body, ToValue handler]"

fun row_references :: "effect_row \<Rightarrow> arena_reference list" where
  "row_references (ExtendRow _ tail) = [ToEffectRow tail]"
| "row_references _ = []"

definition validate_schema_version :: "qmodule \<Rightarrow> (validation_error, unit) result" where
  "validate_schema_version m =
     (if schema_version m \<noteq> qcore_schema_version then Inl (SchemaVersion qcore_schema_version (schema_version m))
      else Inr ())"

definition arena_lengths :: "qarena \<Rightarrow> (arena_kind \<times> nat) list" where
  "arena_lengths a =
     [(OriginArena, length (arena_origins a)), (ValueArena, length (arena_values a)),
      (ComputationArena, length (arena_computations a)), (EffectRowArena, length (arena_effect_rows a)),
      (GradeArena, length (arena_grades a)), (ProofArena, length (arena_proofs a))]"

definition validate_arena_lengths :: "qmodule \<Rightarrow> (validation_error, unit) result" where
  "validate_arena_lengths m =
     check_each (\<lambda>(kind, len). if len > 2 ^ 32 - 1 then Inl (ArenaTooLarge kind len) else Inr ())
       (arena_lengths (qmodule_arena m))"

definition validate_origins :: "qmodule \<Rightarrow> (validation_error, unit) result" where
  "validate_origins m =
     check_each (\<lambda>(i, s). if origin_start s > origin_end s
         then Inl (InvalidOriginRange (SourceOriginId (arena_index i)) (origin_start s) (origin_end s))
         else Inr ())
       (enumerate 0 (arena_origins (qmodule_arena m)))"

definition ensure_proof_entry :: "qarena \<Rightarrow> nat \<Rightarrow> proof_reference \<Rightarrow> (validation_error, unit) result" where
  "ensure_proof_entry a i p =
     (let slot = ProofId (arena_index i)
      in if proof_slot p \<noteq> slot then Inl (ProofSlotMismatch slot (proof_slot p))
         else ensure_targets a (FromProof slot) [ToOrigin (proof_origin p), ToValue (proof_proposition p)])"

definition validate_references :: "qmodule \<Rightarrow> (validation_error, unit) result" where
  "validate_references m =
     (let a = qmodule_arena m
      in and_then (check_each (\<lambda>(i, r). ensure_targets a (FromImport i) [ToOrigin (reference_origin r)])
           (enumerate 0 (qmodule_imports m))) (\<lambda>_.
         and_then (check_each (\<lambda>(i, d). ensure_targets a (FromDefinition i)
             (ToOrigin (reference_origin (definition_reference_of d)) # body_references (definition_body_of d)))
           (enumerate 0 (qmodule_definitions m))) (\<lambda>_.
         and_then (check_each (\<lambda>(i, n). ensure_targets a (FromValue (ValueId (arena_index i)))
             (ToOrigin (value_origin n) # value_references (value_term n)))
           (enumerate 0 (arena_values a))) (\<lambda>_.
         and_then (check_each (\<lambda>(i, n). ensure_targets a (FromComputation (ComputationId (arena_index i)))
             (ToOrigin (computation_origin n) # computation_references (computation_term n)))
           (enumerate 0 (arena_computations a))) (\<lambda>_.
         and_then (check_each (\<lambda>(i, n). ensure_targets a (FromEffectRow (EffectRowId (arena_index i)))
             (ToOrigin (effect_row_origin n) # row_references (row_of n)))
           (enumerate 0 (arena_effect_rows a))) (\<lambda>_.
         and_then (check_each (\<lambda>(i, n). ensure_targets a (FromGrade (GradeId (arena_index i)))
             [ToOrigin (grade_origin n)])
           (enumerate 0 (arena_grades a))) (\<lambda>_.
         check_each (\<lambda>(i, p). ensure_proof_entry a i p) (enumerate 0 (arena_proofs a)))))))))"

section \<open>Definitions\<close>

definition declared_references :: "qmodule \<Rightarrow> definition_reference list" where
  "declared_references m = qmodule_imports m @ map definition_reference_of (qmodule_definitions m)"

text \<open>\<open>HashMap::insert\<close> answers the previous entry; a second one for a key is refused.\<close>

definition insert_definition ::
  "definition_reference \<Rightarrow> (definition_key \<rightharpoonup> semantic_key) \<Rightarrow>
   (validation_error, definition_key \<rightharpoonup> semantic_key) result" where
  "insert_definition r table =
     (if table (reference_definition r) \<noteq> None then Inl (DuplicateDefinition (reference_definition r))
      else Inr (table(reference_definition r \<mapsto> reference_semantics r)))"

definition collect_definitions ::
  "qmodule \<Rightarrow> (validation_error, definition_key \<rightharpoonup> semantic_key) result" where
  "collect_definitions m = fold_each insert_definition (declared_references m) Map.empty"

fun check_global :: "(definition_key \<rightharpoonup> semantic_key) \<Rightarrow> qvalue \<Rightarrow> (validation_error, unit) result" where
  "check_global table (GlobalDefinition key semantics) =
     (case table key of
        None \<Rightarrow> Inl (UnknownDefinition key semantics)
      | Some expected \<Rightarrow>
          if expected \<noteq> semantics then Inl (DefinitionSemanticMismatch key expected semantics) else Inr ())"
| "check_global table _ = Inr ()"

definition validate_global_definitions ::
  "qmodule \<Rightarrow> (definition_key \<rightharpoonup> semantic_key) \<Rightarrow> (validation_error, unit) result" where
  "validate_global_definitions m table =
     check_each (\<lambda>n. check_global table (value_term n)) (arena_values (qmodule_arena m))"

section \<open>Effect rows\<close>

datatype row_state = Unvisited | Visiting | Complete

definition open_rows :: "row_state list \<Rightarrow> nat" where
  "open_rows states = length (filter (\<lambda>s. s = Unvisited) states)"

lemma open_rows_update:
  assumes "i < length states" "states ! i = Unvisited" "s \<noteq> Unvisited"
  shows "open_rows (states[i := s]) < open_rows states"
proof -
  have "{k. k < length states \<and> states[i := s] ! k = Unvisited} \<subset> {k. k < length states \<and> states ! k = Unvisited}"
    using assms by (auto simp: nth_list_update split: if_splits)
  then show ?thesis
    by (auto simp: open_rows_def length_filter_conv_card intro: psubset_card_mono)
qed

fun key_text :: "semantic_key \<Rightarrow> string" where
  "key_text (SemanticKey s) = s"

definition next_effect :: "qarena \<Rightarrow> effect_row_id \<Rightarrow> semantic_key option" where
  "next_effect a tail =
     (case tail of EffectRowId t \<Rightarrow>
        if arena_offset t < length (arena_effect_rows a) then
          (case row_of (arena_effect_rows a ! arena_offset t) of ExtendRow e _ \<Rightarrow> Some e | _ \<Rightarrow> None)
        else None)"

function validate_effect_row ::
  "qmodule \<Rightarrow> effect_row_id \<Rightarrow> row_state list \<Rightarrow> (validation_error, row_state list) result" where
  "validate_effect_row m (EffectRowId r) states =
     (let i = arena_offset r; rows = arena_effect_rows (qmodule_arena m)
      in if \<not> (i < length states \<and> i < length rows) then Inl OutOfRangePanic
         else case states ! i of
           Complete \<Rightarrow> Inr states
         | Visiting \<Rightarrow> Inl (DirectArenaCycle (ToEffectRow (EffectRowId r)))
         | Unvisited \<Rightarrow>
             and_then
               (case row_of (rows ! i) of
                  EmptyRow \<Rightarrow> Inr (states[i := Visiting])
                | VariableRow v \<Rightarrow>
                    if v \<ge> effect_parameter_count m then
                      Inl (EffectVariableOutOfScope (EffectRowId r) v (effect_parameter_count m))
                    else Inr (states[i := Visiting])
                | ExtendRow e tail \<Rightarrow>
                    (case next_effect (qmodule_arena m) tail of
                       Some e' \<Rightarrow>
                         if key_text e \<ge> key_text e' then Inl (EffectRowNotCanonical (EffectRowId r) e e')
                         else validate_effect_row m tail (states[i := Visiting])
                     | None \<Rightarrow> validate_effect_row m tail (states[i := Visiting])))
               (\<lambda>states'. Inr (states'[i := Complete])))"
  by pat_completeness auto
termination
  by (relation "measure (\<lambda>(m, r, states). open_rows states)") (auto intro: open_rows_update)

definition validate_effect_rows :: "qmodule \<Rightarrow> (validation_error, unit) result" where
  "validate_effect_rows m =
     (let n = length (arena_effect_rows (qmodule_arena m))
      in and_then (fold_each (\<lambda>i. validate_effect_row m (EffectRowId (arena_index i))) [0..<n] (replicate n Unvisited))
           (\<lambda>_. Inr ()))"

section \<open>Grades and structural types\<close>

definition validate_grades :: "qmodule \<Rightarrow> (validation_error, unit) result" where
  "validate_grades m =
     check_each (\<lambda>(i, n). case validate_grade_interval (interval_of n) of
         Inl _ \<Rightarrow> Inl (InvalidGrade (GradeId (arena_index i)) (grade_lower (interval_of n)) (grade_upper (interval_of n)))
       | Inr _ \<Rightarrow> Inr ())
       (enumerate 0 (arena_grades (qmodule_arena m)))"

text \<open>Parsing and printing of an integer, which \<open>num_bigint\<close> does beyond 64 bits.\<close>

record decimals =
  parse_decimal :: "string \<Rightarrow> int option"
  print_decimal :: "int \<Rightarrow> string"

fun canonical_integer_bound :: "decimals \<Rightarrow> scalar_bound \<Rightarrow> int option option" where
  "canonical_integer_bound f UnboundedScalar = Some None"
| "canonical_integer_bound f (IntegerScalar text) =
     (case parse_decimal f text of
        None \<Rightarrow> None
      | Some v \<Rightarrow> if print_decimal f v \<noteq> text then None else Some (Some v))"
| "canonical_integer_bound f (TextScalar _) = None"

definition valid_structural_range :: "decimals \<Rightarrow> range_domain \<Rightarrow> scalar_bound \<Rightarrow> scalar_bound \<Rightarrow> bool" where
  "valid_structural_range f domain lo hi =
     (case domain of
        IntegerDomain \<Rightarrow>
          (case (canonical_integer_bound f lo, canonical_integer_bound f hi) of
             (Some (Some l), Some (Some h)) \<Rightarrow> l \<le> h
           | (Some _, Some _) \<Rightarrow> True
           | _ \<Rightarrow> False)
      | TextDomain \<Rightarrow>
          (case (lo, hi) of
             (UnboundedScalar, UnboundedScalar) \<Rightarrow> True
           | (UnboundedScalar, TextScalar _) \<Rightarrow> True
           | (TextScalar _, UnboundedScalar) \<Rightarrow> True
           | (TextScalar l, TextScalar h) \<Rightarrow> l \<le> h
           | _ \<Rightarrow> False)
      | Float64Domain \<Rightarrow> lo = UnboundedScalar \<and> hi = UnboundedScalar
      | Float32Domain \<Rightarrow> lo = UnboundedScalar \<and> hi = UnboundedScalar)"

fun validate_canonical_labels :: "value_id \<Rightarrow> string list \<Rightarrow> (validation_error, unit) result" where
  "validate_canonical_labels v (one # two # rest) =
     (if one \<ge> two then Inl (StructuralLabelsNotCanonical v one two)
      else validate_canonical_labels v (two # rest))"
| "validate_canonical_labels v _ = Inr ()"

definition validate_labeled_types :: "value_id \<Rightarrow> string list \<Rightarrow> nat \<Rightarrow> (validation_error, unit) result" where
  "validate_labeled_types v labels type_count =
     (if length labels \<noteq> type_count then Inl (LabeledTypeLengthMismatch v (length labels) type_count)
      else validate_canonical_labels v labels)"

fun validate_structural_type :: "decimals \<Rightarrow> value_id \<Rightarrow> qvalue \<Rightarrow> (validation_error, unit) result" where
  "validate_structural_type f v (StructuralQualified _ names subjects members) =
     check_each (\<lambda>len. if length names \<noteq> len then Inl (LabeledTypeLengthMismatch v (length names) len) else Inr ())
       [length subjects, length members]"
| "validate_structural_type f v (StructuralRecord labels types) = validate_labeled_types v labels (length types)"
| "validate_structural_type f v (StructuralRecordUpdate _ labels types) =
     validate_labeled_types v labels (length types)"
| "validate_structural_type f v (StructuralVariant labels types _) = validate_labeled_types v labels (length types)"
| "validate_structural_type f v (StructuralEffects labels) = validate_canonical_labels v labels"
| "validate_structural_type f v (StructuralOpenEffects labels _) = validate_canonical_labels v labels"
| "validate_structural_type f v (StructuralRange domain lo hi) =
     (if \<not> valid_structural_range f domain lo hi then Inl (InvalidStructuralRange v domain lo hi) else Inr ())"
| "validate_structural_type f v _ = Inr ()"

definition validate_structural_types :: "decimals \<Rightarrow> qmodule \<Rightarrow> (validation_error, unit) result" where
  "validate_structural_types f m =
     check_each (\<lambda>(i, n). validate_structural_type f (ValueId (arena_index i)) (value_term n))
       (enumerate 0 (arena_values (qmodule_arena m)))"

section \<open>The scope walk\<close>

text \<open>
  The state of the walk. \<open>active_terms\<close>, which a visit enters and leaves again before it
  returns, is an argument of the visits: at every call it holds the terms being visited.
\<close>

datatype scoped_reference =
  ScopedValue value_id u32 "u32 list"
| ScopedComputation computation_id u32 "u32 list"

record scope_walk =
  scoped_terms :: "scoped_reference set"
  reachable_origins :: "bool list"
  reachable_values :: "bool list"
  reachable_computations :: "bool list"
  reachable_effect_rows :: "bool list"
  reachable_grades :: "bool list"
  reachable_proofs :: "bool list"

definition initial_scope_walk :: "qarena \<Rightarrow> scope_walk" where
  "initial_scope_walk a =
     \<lparr>scoped_terms = {},
      reachable_origins = replicate (length (arena_origins a)) False,
      reachable_values = replicate (length (arena_values a)) False,
      reachable_computations = replicate (length (arena_computations a)) False,
      reachable_effect_rows = replicate (length (arena_effect_rows a)) False,
      reachable_grades = replicate (length (arena_grades a)) False,
      reachable_proofs = replicate (length (arena_proofs a)) False\<rparr>"

text \<open>Setting the flag of an entry, and reading it.\<close>

fun mark :: "arena_reference \<Rightarrow> scope_walk \<Rightarrow> scope_walk" where
  "mark (ToOrigin (SourceOriginId i)) w = w\<lparr>reachable_origins := (reachable_origins w)[arena_offset i := True]\<rparr>"
| "mark (ToValue (ValueId i)) w = w\<lparr>reachable_values := (reachable_values w)[arena_offset i := True]\<rparr>"
| "mark (ToComputation (ComputationId i)) w =
     w\<lparr>reachable_computations := (reachable_computations w)[arena_offset i := True]\<rparr>"
| "mark (ToEffectRow (EffectRowId i)) w = w\<lparr>reachable_effect_rows := (reachable_effect_rows w)[arena_offset i := True]\<rparr>"
| "mark (ToGrade (GradeId i)) w = w\<lparr>reachable_grades := (reachable_grades w)[arena_offset i := True]\<rparr>"
| "mark (ToProof (ProofId i)) w = w\<lparr>reachable_proofs := (reachable_proofs w)[arena_offset i := True]\<rparr>"

fun flag_at :: "bool list \<Rightarrow> u32 \<Rightarrow> bool" where
  "flag_at flags i \<longleftrightarrow> arena_offset i < length flags \<and> flags ! arena_offset i"

fun marked :: "scope_walk \<Rightarrow> arena_reference \<Rightarrow> bool" where
  "marked w (ToOrigin (SourceOriginId i)) \<longleftrightarrow> flag_at (reachable_origins w) i"
| "marked w (ToValue (ValueId i)) \<longleftrightarrow> flag_at (reachable_values w) i"
| "marked w (ToComputation (ComputationId i)) \<longleftrightarrow> flag_at (reachable_computations w) i"
| "marked w (ToEffectRow (EffectRowId i)) \<longleftrightarrow> flag_at (reachable_effect_rows w) i"
| "marked w (ToGrade (GradeId i)) \<longleftrightarrow> flag_at (reachable_grades w) i"
| "marked w (ToProof (ProofId i)) \<longleftrightarrow> flag_at (reachable_proofs w) i"

definition mark_origin ::
  "qmodule \<Rightarrow> reference_source \<Rightarrow> source_origin_id \<Rightarrow> scope_walk \<Rightarrow> (validation_error, scope_walk) result" where
  "mark_origin m source origin w =
     and_then (ensure_target (qmodule_arena m) source (ToOrigin origin)) (\<lambda>_. Inr (mark (ToOrigin origin) w))"

text \<open>Indexing an arena; \<open>None\<close> is the out-of-range panic.\<close>

definition entry :: "'a list \<Rightarrow> u32 \<Rightarrow> 'a option" where
  "entry xs i = (if arena_offset i < length xs then Some (xs ! arena_offset i) else None)"

fun value_at :: "qmodule \<Rightarrow> value_id \<Rightarrow> value_node option" where
  "value_at m (ValueId i) = entry (arena_values (qmodule_arena m)) i"

fun computation_at :: "qmodule \<Rightarrow> computation_id \<Rightarrow> computation_node option" where
  "computation_at m (ComputationId i) = entry (arena_computations (qmodule_arena m)) i"

fun effect_row_at :: "qmodule \<Rightarrow> effect_row_id \<Rightarrow> effect_row_node option" where
  "effect_row_at m (EffectRowId i) = entry (arena_effect_rows (qmodule_arena m)) i"

fun grade_at :: "qmodule \<Rightarrow> grade_id \<Rightarrow> grade_node option" where
  "grade_at m (GradeId i) = entry (arena_grades (qmodule_arena m)) i"

fun proof_at :: "qmodule \<Rightarrow> proof_id \<Rightarrow> proof_reference option" where
  "proof_at m (ProofId i) = entry (arena_proofs (qmodule_arena m)) i"

text \<open>
  What a node visits, in order: the calls of \<open>visit_value\<close>, \<open>visit_computation\<close>,
  \<open>visit_effect_row\<close>, \<open>visit_grade\<close> and \<open>visit_proof\<close> it makes, and the errors it returns between them.
\<close>

datatype visit =
  VisitValue value_id u32 "u32 list"
| VisitComputation computation_id u32 "u32 list"
| VisitEffectRow effect_row_id
| VisitGrade grade_id
| VisitProof proof_id u32 "u32 list"
| Refuse validation_error

text \<open>\<open>next_depth\<close> on the way to a visit under a binder.\<close>

definition deeper :: "arena_reference \<Rightarrow> u32 \<Rightarrow> (u32 \<Rightarrow> visit) \<Rightarrow> visit" where
  "deeper source depth below =
     (case checked_add_u32 depth 1 of None \<Rightarrow> Refuse (BindingDepthOverflow source) | Some d \<Rightarrow> below d)"

fun extend_rigids :: "value_id \<Rightarrow> u32 list \<Rightarrow> u32 list \<Rightarrow> (validation_error, u32 list) result" where
  "extend_rigids v rigids [] = Inr rigids"
| "extend_rigids v rigids (variable # variables) =
     (if variable \<in> set rigids then Inl (DuplicateStructuralBinder v variable)
      else extend_rigids v (rigids @ [variable]) variables)"

fun value_visits :: "qmodule \<Rightarrow> value_id \<Rightarrow> u32 \<Rightarrow> u32 list \<Rightarrow> qvalue \<Rightarrow> visit list" where
  "value_visits m v depth rigids (BoundVariable i) =
     (if i \<ge> depth then [Refuse (BoundVariableOutOfScope v i depth)] else [])"
| "value_visits m v depth rigids (StructuralRigid variable) =
     (if variable \<notin> set rigids then [Refuse (StructuralRigidOutOfScope v variable)] else [])"
| "value_visits m v depth rigids (DependentPi domain codomain effects grade) =
     [VisitValue domain depth rigids, deeper (ToValue v) depth (\<lambda>d. VisitValue codomain d rigids),
      VisitEffectRow effects, VisitGrade grade]"
| "value_visits m v depth rigids (DependentSigma one two) =
     [VisitValue one depth rigids, deeper (ToValue v) depth (\<lambda>d. VisitValue two d rigids)]"
| "value_visits m v depth rigids (LambdaValue body) =
     [deeper (ToValue v) depth (\<lambda>d. VisitComputation body d rigids)]"
| "value_visits m v depth rigids (PairValue one two) = [VisitValue one depth rigids, VisitValue two depth rigids]"
| "value_visits m v depth rigids (FirstProjection pair) = [VisitValue pair depth rigids]"
| "value_visits m v depth rigids (SecondProjection pair) = [VisitValue pair depth rigids]"
| "value_visits m v depth rigids (ThunkValue c) = [VisitComputation c depth rigids]"
| "value_visits m v depth rigids (EffectRowValue row) = [VisitEffectRow row]"
| "value_visits m v depth rigids (IntervalGrade grade) = [VisitGrade grade]"
| "value_visits m v depth rigids (ProofValue proof proposition) =
     (case proof_at m proof of
        None \<Rightarrow> [Refuse OutOfRangePanic]
      | Some p \<Rightarrow>
          if proposition \<noteq> proof_proposition p
          then [Refuse (ProofPropositionMismatch proof proposition (proof_proposition p))]
          else [VisitProof proof depth rigids])"
| "value_visits m v depth rigids (StructuralForall variables body) =
     (case extend_rigids v rigids variables of
        Inl e \<Rightarrow> [Refuse e] | Inr extended \<Rightarrow> [VisitValue body depth extended])"
| "value_visits m v depth rigids (StructuralFunction _ parameter effects res) =
     [VisitValue parameter depth rigids, VisitValue effects depth rigids, VisitValue res depth rigids]"
| "value_visits m v depth rigids (StructuralRecord _ types) = map (\<lambda>t. VisitValue t depth rigids) types"
| "value_visits m v depth rigids (StructuralVariant _ types _) = map (\<lambda>t. VisitValue t depth rigids) types"
| "value_visits m v depth rigids (StructuralUnion members) = map (\<lambda>t. VisitValue t depth rigids) members"
| "value_visits m v depth rigids (StructuralQualified body _ subjects members) =
     VisitValue body depth rigids # map (\<lambda>t. VisitValue t depth rigids) (subjects @ members)"
| "value_visits m v depth rigids (StructuralRecordUpdate base _ types) =
     VisitValue base depth rigids # map (\<lambda>t. VisitValue t depth rigids) types"
| "value_visits m v depth rigids (StructuralArray element) = [VisitValue element depth rigids]"
| "value_visits m v depth rigids (StructuralRegion element) = [VisitValue element depth rigids]"
| "value_visits m v depth rigids (StructuralScratch element) = [VisitValue element depth rigids]"
| "value_visits m v depth rigids (StructuralResource _ payload) = [VisitValue payload depth rigids]"
| "value_visits m v depth rigids (StructuralOpenEffects _ tail) = [VisitValue tail depth rigids]"
| "value_visits m v depth rigids _ = []"

fun computation_visits :: "computation_id \<Rightarrow> u32 \<Rightarrow> u32 list \<Rightarrow> qcomputation \<Rightarrow> visit list" where
  "computation_visits c depth rigids (ReturnValue v) = [VisitValue v depth rigids]"
| "computation_visits c depth rigids (ForceComputation v) = [VisitValue v depth rigids]"
| "computation_visits c depth rigids (LetValue v body) =
     [VisitValue v depth rigids, deeper (ToComputation c) depth (\<lambda>d. VisitComputation body d rigids)]"
| "computation_visits c depth rigids (BindComputation one body) =
     [VisitComputation one depth rigids, deeper (ToComputation c) depth (\<lambda>d. VisitComputation body d rigids)]"
| "computation_visits c depth rigids (ApplyComputation function argument) =
     [VisitValue function depth rigids, VisitValue argument depth rigids]"
| "computation_visits c depth rigids (PerformComputation _ _ argument) = [VisitValue argument depth rigids]"
| "computation_visits c depth rigids (HandleComputation _ body handler) =
     [VisitComputation body depth rigids, VisitValue handler depth rigids]"

definition unmarked_rows :: "scope_walk \<Rightarrow> nat" where
  "unmarked_rows w = length (filter Not (reachable_effect_rows w))"

lemma unmarked_rows_mark:
  assumes "arena_offset i < length (reachable_effect_rows w)" "\<not> reachable_effect_rows w ! arena_offset i"
    and "mark_origin m source origin (mark (ToEffectRow (EffectRowId i)) w) = Inr w'"
  shows "unmarked_rows w' < unmarked_rows w"
proof -
  obtain k where k: "origin = SourceOriginId k" by (cases origin)
  have w': "reachable_effect_rows w' = (reachable_effect_rows w)[arena_offset i := True]"
    using assms(3) k by (auto simp: mark_origin_def and_then_eq_Inr)
  have "{j. j < length (reachable_effect_rows w) \<and> \<not> (reachable_effect_rows w)[arena_offset i := True] ! j} \<subset>
      {j. j < length (reachable_effect_rows w) \<and> \<not> reachable_effect_rows w ! j}"
    using assms(1,2) by (auto simp: nth_list_update split: if_splits)
  then show ?thesis
    by (auto simp: unmarked_rows_def w' length_filter_conv_card intro: psubset_card_mono)
qed

function visit_effect_row ::
  "qmodule \<Rightarrow> effect_row_id \<Rightarrow> scope_walk \<Rightarrow> (validation_error, scope_walk) result" where
  "visit_effect_row m (EffectRowId i) w =
     (if arena_offset i \<ge> length (reachable_effect_rows w) then Inl OutOfRangePanic
      else if reachable_effect_rows w ! arena_offset i then Inr w
      else case effect_row_at m (EffectRowId i) of
        None \<Rightarrow> Inl OutOfRangePanic
      | Some node \<Rightarrow>
          and_then (mark_origin m (FromEffectRow (EffectRowId i)) (effect_row_origin node)
              (mark (ToEffectRow (EffectRowId i)) w)) (\<lambda>w'.
            case row_of node of ExtendRow _ tail \<Rightarrow> visit_effect_row m tail w' | _ \<Rightarrow> Inr w'))"
  by pat_completeness auto
termination
  by (relation "measure (\<lambda>(m, r, w). unmarked_rows w)") (auto intro: unmarked_rows_mark simp: not_le)

definition visit_grade :: "qmodule \<Rightarrow> grade_id \<Rightarrow> scope_walk \<Rightarrow> (validation_error, scope_walk) result" where
  "visit_grade m g w =
     (case grade_at m g of
        None \<Rightarrow> Inl OutOfRangePanic
      | Some node \<Rightarrow>
          if marked w (ToGrade g) then Inr w
          else mark_origin m (FromGrade g) (grade_origin node) (mark (ToGrade g) w))"

definition term_references :: "arena_reference set" where
  "term_references = range (\<lambda>i. ToValue (ValueId i)) \<union> range (\<lambda>i. ToComputation (ComputationId i))"

lemma finite_term_references [simp]: "finite term_references"
  by (simp add: term_references_def)

lemma in_term_references [simp]: "ToValue v \<in> term_references" "ToComputation c \<in> term_references"
  by (cases v; cases c; auto simp: term_references_def)+

lemma term_references_decrease:
  "r \<in> term_references \<Longrightarrow> r \<notin> active \<Longrightarrow>
     card (term_references - insert r active) < card (term_references - active)"
  by (rule psubset_card_mono) auto

fun visit_rank :: "visit \<Rightarrow> nat" where
  "visit_rank (VisitProof _ _ _) = 1"
| "visit_rank _ = 0"

text \<open>\<open>visit_value\<close>, \<open>visit_computation\<close> and \<open>visit_proof\<close>.\<close>

function visit_term ::
  "qmodule \<Rightarrow> arena_reference set \<Rightarrow> visit \<Rightarrow> scope_walk \<Rightarrow> (validation_error, scope_walk) result" where
  "visit_term m active (VisitValue v depth rigids) w =
     (if ToValue v \<in> active then Inl (DirectArenaCycle (ToValue v))
      else if ScopedValue v depth rigids \<in> scoped_terms w then Inr w
      else case value_at m v of
        None \<Rightarrow> Inl OutOfRangePanic
      | Some node \<Rightarrow>
          and_then (mark_origin m (FromValue v) (value_origin node)
              (mark (ToValue v) (w\<lparr>scoped_terms := insert (ScopedValue v depth rigids) (scoped_terms w)\<rparr>)))
            (fold_each (visit_term m (insert (ToValue v) active)) (value_visits m v depth rigids (value_term node))))"
| "visit_term m active (VisitComputation c depth rigids) w =
     (if ToComputation c \<in> active then Inl (DirectArenaCycle (ToComputation c))
      else if ScopedComputation c depth rigids \<in> scoped_terms w then Inr w
      else case computation_at m c of
        None \<Rightarrow> Inl OutOfRangePanic
      | Some node \<Rightarrow>
          and_then (mark_origin m (FromComputation c) (computation_origin node)
              (mark (ToComputation c) (w\<lparr>scoped_terms := insert (ScopedComputation c depth rigids) (scoped_terms w)\<rparr>)))
            (fold_each (visit_term m (insert (ToComputation c) active))
              (computation_visits c depth rigids (computation_term node))))"
| "visit_term m active (VisitProof p depth rigids) w =
     (case proof_at m p of
        None \<Rightarrow> Inl OutOfRangePanic
      | Some proof \<Rightarrow>
          and_then (mark_origin m (FromProof p) (proof_origin proof) (mark (ToProof p) w)) (\<lambda>w'.
            visit_term m active (VisitValue (proof_proposition proof) depth rigids) w'))"
| "visit_term m active (VisitEffectRow r) w = visit_effect_row m r w"
| "visit_term m active (VisitGrade g) w = visit_grade m g w"
| "visit_term m active (Refuse e) w = Inl e"
  by pat_completeness auto
termination
  by (relation "measures [\<lambda>(m, active, v, w). card (term_references - active), \<lambda>(m, active, v, w). visit_rank v]")
    (auto simp: term_references_decrease simp del: card_Diff_insert)

text \<open>\<open>visit_roots\<close>.\<close>

fun body_visits :: "definition_body \<Rightarrow> visit list" where
  "body_visits (ValueBody v t) = [VisitValue v 0 [], VisitValue t 0 []]"
| "body_visits (ComputationBody c t row) = [VisitComputation c 0 [], VisitValue t 0 [], VisitEffectRow row]"

definition visit_definition ::
  "qmodule \<Rightarrow> nat \<times> qdefinition \<Rightarrow> scope_walk \<Rightarrow> (validation_error, scope_walk) result" where
  "visit_definition m d w =
     and_then (mark_origin m (FromDefinition (fst d)) (reference_origin (definition_reference_of (snd d))) w)
       (fold_each (visit_term m {}) (body_visits (definition_body_of (snd d))))"

definition visit_roots :: "qmodule \<Rightarrow> scope_walk \<Rightarrow> (validation_error, scope_walk) result" where
  "visit_roots m w =
     and_then (fold_each (\<lambda>(i, r). mark_origin m (FromImport i) (reference_origin r))
         (enumerate 0 (qmodule_imports m)) w)
       (fold_each (visit_definition m) (enumerate 0 (qmodule_definitions m)))"

definition ensure_reachable ::
  "bool list \<Rightarrow> (u32 \<Rightarrow> arena_reference) \<Rightarrow> (validation_error, unit) result" where
  "ensure_reachable flags reference =
     check_each (\<lambda>(i, reachable). if \<not> reachable then Inl (UnreachableArenaEntry (reference (arena_index i))) else Inr ())
       (enumerate 0 flags)"

definition validate_reachability :: "scope_walk \<Rightarrow> (validation_error, unit) result" where
  "validate_reachability w =
     and_then (ensure_reachable (reachable_origins w) (\<lambda>i. ToOrigin (SourceOriginId i))) (\<lambda>_.
     and_then (ensure_reachable (reachable_values w) (\<lambda>i. ToValue (ValueId i))) (\<lambda>_.
     and_then (ensure_reachable (reachable_computations w) (\<lambda>i. ToComputation (ComputationId i))) (\<lambda>_.
     and_then (ensure_reachable (reachable_effect_rows w) (\<lambda>i. ToEffectRow (EffectRowId i))) (\<lambda>_.
     and_then (ensure_reachable (reachable_grades w) (\<lambda>i. ToGrade (GradeId i))) (\<lambda>_.
       ensure_reachable (reachable_proofs w) (\<lambda>i. ToProof (ProofId i)))))))"

text \<open>\<open>ModuleValidator::validate\<close>.\<close>

definition validate_qmodule :: "decimals \<Rightarrow> qmodule \<Rightarrow> (validation_error, unit) result" where
  "validate_qmodule f m =
     and_then (validate_schema_version m) (\<lambda>_.
     and_then (validate_arena_lengths m) (\<lambda>_.
     and_then (validate_origins m) (\<lambda>_.
     and_then (validate_references m) (\<lambda>_.
     and_then (collect_definitions m) (\<lambda>table.
     and_then (validate_global_definitions m table) (\<lambda>_.
     and_then (validate_effect_rows m) (\<lambda>_.
     and_then (validate_grades m) (\<lambda>_.
     and_then (validate_structural_types f m) (\<lambda>_.
     and_then (visit_roots m (initial_scope_walk (qmodule_arena m))) (\<lambda>w.
       validate_reachability w))))))))))"

end
