(* ===== verification/QCoreScoping.thy ===== *)
theory QCoreScoping
  imports QCoreValidation
begin

text \<open>
  What the validator of a core module decides. A module is valid when its references are in
  range, its keys, rows, grades and structural types are well-formed, every term that a
  definition unfolds to is well-scoped, and every arena entry is reachable from the roots.
\<close>

declare validate_effect_row.simps [simp del] visit_effect_row.simps [simp del] visit_term.simps [simp del]

section \<open>References in range\<close>

fun present :: "qarena \<Rightarrow> arena_reference \<Rightarrow> bool" where
  "present a (ToOrigin (SourceOriginId i)) \<longleftrightarrow> arena_offset i < length (arena_origins a)"
| "present a (ToValue (ValueId i)) \<longleftrightarrow> arena_offset i < length (arena_values a)"
| "present a (ToComputation (ComputationId i)) \<longleftrightarrow> arena_offset i < length (arena_computations a)"
| "present a (ToEffectRow (EffectRowId i)) \<longleftrightarrow> arena_offset i < length (arena_effect_rows a)"
| "present a (ToGrade (GradeId i)) \<longleftrightarrow> arena_offset i < length (arena_grades a)"
| "present a (ToProof (ProofId i)) \<longleftrightarrow> arena_offset i < length (arena_proofs a)"

lemma ensure_target_Inr [simp]: "ensure_target a source r = Inr u \<longleftrightarrow> present a r"
  by (cases "(a, source, r)" rule: ensure_target.cases) (auto simp: ensure_reference_def)

lemma ensure_targets_Inr [simp]: "ensure_targets a source rs = Inr u \<longleftrightarrow> (\<forall>r \<in> set rs. present a r)"
  by (simp add: ensure_targets_def check_each_Inr)

text \<open>The references of an arena entry, its origin first.\<close>

fun node_references :: "qmodule \<Rightarrow> arena_reference \<Rightarrow> arena_reference list" where
  "node_references m (ToOrigin _) = []"
| "node_references m (ToValue v) =
     (case value_at m v of None \<Rightarrow> [] | Some n \<Rightarrow> ToOrigin (value_origin n) # value_references (value_term n))"
| "node_references m (ToComputation c) =
     (case computation_at m c of
        None \<Rightarrow> [] | Some n \<Rightarrow> ToOrigin (computation_origin n) # computation_references (computation_term n))"
| "node_references m (ToEffectRow r) =
     (case effect_row_at m r of None \<Rightarrow> [] | Some n \<Rightarrow> ToOrigin (effect_row_origin n) # row_references (row_of n))"
| "node_references m (ToGrade g) =
     (case grade_at m g of None \<Rightarrow> [] | Some n \<Rightarrow> [ToOrigin (grade_origin n)])"
| "node_references m (ToProof p) =
     (case proof_at m p of None \<Rightarrow> [] | Some n \<Rightarrow> [ToOrigin (proof_origin n), ToValue (proof_proposition n)])"

definition root_references :: "qmodule \<Rightarrow> arena_reference list" where
  "root_references m =
     map (\<lambda>r. ToOrigin (reference_origin r)) (qmodule_imports m) @
     concat (map (\<lambda>d. ToOrigin (reference_origin (definition_reference_of d)) # body_references (definition_body_of d))
       (qmodule_definitions m))"

definition numbered_proofs :: "qmodule \<Rightarrow> bool" where
  "numbered_proofs m \<longleftrightarrow>
     (\<forall>i < length (arena_proofs (qmodule_arena m)).
        proof_slot (arena_proofs (qmodule_arena m) ! i) = ProofId (arena_index i))"

definition references_present :: "qmodule \<Rightarrow> bool" where
  "references_present m \<longleftrightarrow>
     list_all (present (qmodule_arena m)) (root_references m) \<and>
     (\<forall>r. list_all (present (qmodule_arena m)) (node_references m r))"

definition bounded_arenas :: "qmodule \<Rightarrow> bool" where
  "bounded_arenas m \<longleftrightarrow> (\<forall>(kind, len) \<in> set (arena_lengths (qmodule_arena m)). len < 2 ^ 32)"

lemma check_each_enumerate [simp]:
  "check_each f (enumerate n xs) = Inr u \<longleftrightarrow> (\<forall>i < length xs. f (n + i, xs ! i) = Inr ())"
  by (induction xs arbitrary: n) (auto simp: and_then_eq_Inr All_less_Suc2)

lemma bounded_index: "bounded_arenas m \<Longrightarrow> kind_len \<in> set (arena_lengths (qmodule_arena m)) \<Longrightarrow> i < snd kind_len \<Longrightarrow>
    arena_offset (arena_index i) = i"
  by (auto simp: bounded_arenas_def arena_offset_def arena_index_def unat_of_nat intro!: mod_less)

lemma arena_offset_index [simp]: "i < 2 ^ 32 \<Longrightarrow> arena_offset (arena_index i) = i"
  by (simp add: arena_offset_def arena_index_def unat_of_nat)

lemma arena_index_offset [simp]: "arena_index (arena_offset i) = i"
  by (simp add: arena_offset_def arena_index_def)

lemma validate_arena_lengths_Inr [simp]: "validate_arena_lengths m = Inr u \<longleftrightarrow> bounded_arenas m"
  by (auto simp: validate_arena_lengths_def bounded_arenas_def arena_lengths_def and_then_eq_Inr split: if_splits)

lemma ensure_proof_entry_Inr [simp]:
  "ensure_proof_entry a i p = Inr u \<longleftrightarrow> proof_slot p = ProofId (arena_index i) \<and>
     present a (ToOrigin (proof_origin p)) \<and> present a (ToValue (proof_proposition p))"
  by (auto simp: ensure_proof_entry_def Let_def)

lemma entry_iff: "entry xs i = Some x \<longleftrightarrow> arena_offset i < length xs \<and> x = xs ! arena_offset i"
  by (auto simp: entry_def)

lemma all_entries:
  "(\<forall>i n. entry xs i = Some n \<longrightarrow> P n) \<longleftrightarrow> (\<forall>x \<in> set xs. P x)" if "length xs < 2 ^ 32"
proof -
  have "\<exists>j. entry xs j = Some (xs ! i)" if "i < length xs" for i
    using that \<open>length xs < 2 ^ 32\<close> by (intro exI [of _ "arena_index i"]) (simp add: entry_def)
  then show ?thesis
    by (metis entry_iff in_set_conv_nth nth_mem option.inject)
qed

lemma list_all_node_references:
  "(\<forall>r. list_all P (node_references m r)) \<longleftrightarrow>
     (\<forall>v n. value_at m v = Some n \<longrightarrow> list_all P (ToOrigin (value_origin n) # value_references (value_term n))) \<and>
     (\<forall>c n. computation_at m c = Some n \<longrightarrow>
        list_all P (ToOrigin (computation_origin n) # computation_references (computation_term n))) \<and>
     (\<forall>r n. effect_row_at m r = Some n \<longrightarrow> list_all P (ToOrigin (effect_row_origin n) # row_references (row_of n))) \<and>
     (\<forall>g n. grade_at m g = Some n \<longrightarrow> list_all P [ToOrigin (grade_origin n)]) \<and>
     (\<forall>p n. proof_at m p = Some n \<longrightarrow> list_all P [ToOrigin (proof_origin n), ToValue (proof_proposition n)])"
  (is "?L \<longleftrightarrow> ?R")
proof
  assume all: ?L
  have "list_all P (node_references m (ToValue v))" "list_all P (node_references m (ToComputation c))"
    "list_all P (node_references m (ToEffectRow r))" "list_all P (node_references m (ToGrade g))"
    "list_all P (node_references m (ToProof p))" for v c r g p
    using all by blast+
  then show ?R by (metis (no_types, lifting) node_references.simps(2-6) option.simps(5))
next
  assume parts: ?R
  show ?L
  proof
    fix r show "list_all P (node_references m r)"
      using parts by (cases r) (simp_all split: option.split)
  qed
qed

lemma ids [simp]:
  "(\<forall>v. P v) \<longleftrightarrow> (\<forall>i. P (ValueId i))" "(\<forall>c. Q c) \<longleftrightarrow> (\<forall>i. Q (ComputationId i))"
  "(\<forall>r. R r) \<longleftrightarrow> (\<forall>i. R (EffectRowId i))" "(\<forall>g. S g) \<longleftrightarrow> (\<forall>i. S (GradeId i))"
  "(\<forall>p. T p) \<longleftrightarrow> (\<forall>i. T (ProofId i))"
  by (metis value_id.exhaust computation_id.exhaust effect_row_id.exhaust grade_id.exhaust proof_id.exhaust)+

lemma validate_references_Inr:
  assumes "bounded_arenas m"
  shows "validate_references m = Inr u \<longleftrightarrow> references_present m \<and> numbered_proofs m"
proof -
  let ?a = "qmodule_arena m"
  have bounds: "length (arena_values ?a) < 2 ^ 32" "length (arena_computations ?a) < 2 ^ 32"
    "length (arena_effect_rows ?a) < 2 ^ 32" "length (arena_grades ?a) < 2 ^ 32" "length (arena_proofs ?a) < 2 ^ 32"
    using assms by (simp_all add: bounded_arenas_def arena_lengths_def)
  have roots: "list_all (present ?a) (root_references m) \<longleftrightarrow>
      (\<forall>r \<in> set (qmodule_imports m). present ?a (ToOrigin (reference_origin r))) \<and>
      (\<forall>d \<in> set (qmodule_definitions m). \<forall>r \<in> set (ToOrigin (reference_origin (definition_reference_of d)) #
          body_references (definition_body_of d)). present ?a r)"
    by (auto simp: root_references_def list_all_iff)
  show ?thesis
    unfolding references_present_def roots list_all_node_references ids value_at.simps computation_at.simps
      effect_row_at.simps grade_at.simps proof_at.simps all_entries [OF bounds(1)] all_entries [OF bounds(2)]
      all_entries [OF bounds(3)] all_entries [OF bounds(4)] all_entries [OF bounds(5)]
    by (simp add: validate_references_def Let_def and_then_eq_Inr numbered_proofs_def all_set_conv_all_nth
        list_all_iff all_conj_distrib) blast
qed

section \<open>Definitions\<close>

definition declared_keys :: "qmodule \<Rightarrow> definition_key list" where
  "declared_keys m = map reference_definition (declared_references m)"

definition semantics_of :: "definition_reference list \<Rightarrow> definition_key \<rightharpoonup> semantic_key" where
  "semantics_of rs = map_of (map (\<lambda>r. (reference_definition r, reference_semantics r)) rs)"

definition declared_semantics :: "qmodule \<Rightarrow> definition_key \<rightharpoonup> semantic_key" where
  "declared_semantics m = semantics_of (declared_references m)"

definition globals_declared :: "qmodule \<Rightarrow> bool" where
  "globals_declared m \<longleftrightarrow>
     (\<forall>n \<in> set (arena_values (qmodule_arena m)). \<forall>key semantics.
        value_term n = GlobalDefinition key semantics \<longrightarrow> declared_semantics m key = Some semantics)"

lemma insert_definition_Inr [simp]:
  "insert_definition r table = Inr table' \<longleftrightarrow>
     table (reference_definition r) = None \<and> table' = table(reference_definition r \<mapsto> reference_semantics r)"
  by (auto simp: insert_definition_def)

lemma fold_insert_definition:
  "fold_each insert_definition rs table = Inr table' \<longleftrightarrow>
     distinct (map reference_definition rs) \<and> (\<forall>r \<in> set rs. table (reference_definition r) = None) \<and>
     table' = table ++ semantics_of rs"
proof (induction rs arbitrary: table)
  case (Cons r rs)
  have step: "fold_each insert_definition (r # rs) table = Inr table' \<longleftrightarrow> table (reference_definition r) = None \<and>
      fold_each insert_definition rs (table(reference_definition r \<mapsto> reference_semantics r)) = Inr table'"
    by (simp add: and_then_eq_Inr)
  show ?case
  proof (cases "reference_definition r \<in> reference_definition ` set rs")
    case True
    then show ?thesis unfolding step Cons.IH by auto
  next
    case False
    then have "semantics_of rs (reference_definition r) = None"
      by (simp add: semantics_of_def map_of_eq_None_iff image_image)
    then have eq: "table(reference_definition r \<mapsto> reference_semantics r) ++ semantics_of rs = table ++ semantics_of (r # rs)"
      by (auto simp: semantics_of_def map_add_def fun_eq_iff split: option.split)
    show ?thesis unfolding step Cons.IH eq using False by (auto simp: image_iff)
  qed
qed (auto simp: semantics_of_def)

lemma collect_definitions_Inr:
  "collect_definitions m = Inr table \<longleftrightarrow> distinct (declared_keys m) \<and> table = declared_semantics m"
  by (simp add: collect_definitions_def fold_insert_definition declared_keys_def declared_semantics_def)

lemma check_global_Inr:
  "check_global table t = Inr u \<longleftrightarrow>
     (\<forall>key semantics. t = GlobalDefinition key semantics \<longrightarrow> table key = Some semantics)"
  by (cases t) (auto split: option.splits)

lemma validate_global_definitions_Inr:
  "validate_global_definitions m (declared_semantics m) = Inr u \<longleftrightarrow> globals_declared m"
  by (auto simp: validate_global_definitions_def check_each_Inr check_global_Inr globals_declared_def)

section \<open>Effect rows\<close>

text \<open>A row ends in the empty row or a parameter, and its effects are strictly increasing.\<close>

inductive canonical_row :: "qmodule \<Rightarrow> effect_row_id \<Rightarrow> bool" for m where
  empty_row: "effect_row_at m r = Some n \<Longrightarrow> row_of n = EmptyRow \<Longrightarrow> canonical_row m r"
| variable_row: "effect_row_at m r = Some n \<Longrightarrow> row_of n = VariableRow i \<Longrightarrow> i < effect_parameter_count m \<Longrightarrow>
     canonical_row m r"
| extended_row: "effect_row_at m r = Some n \<Longrightarrow> row_of n = ExtendRow e tail \<Longrightarrow> canonical_row m tail \<Longrightarrow>
     (\<And>e'. next_effect (qmodule_arena m) tail = Some e' \<Longrightarrow> key_text e < key_text e') \<Longrightarrow> canonical_row m r"

definition row_edges :: "qmodule \<Rightarrow> (effect_row_id \<times> effect_row_id) set" where
  "row_edges m = {(r, tail). \<exists>n e. effect_row_at m r = Some n \<and> row_of n = ExtendRow e tail}"

lemma canonical_row_acyclic: "canonical_row m r \<Longrightarrow> (r, r) \<notin> (row_edges m)\<^sup>+"
proof (induction rule: canonical_row.induct)
  case (extended_row r n e tail)
  have only: "(r, x) \<in> row_edges m \<Longrightarrow> x = tail" for x
    using extended_row.hyps by (auto simp: row_edges_def)
  show ?case
  proof
    assume "(r, r) \<in> (row_edges m)\<^sup>+"
    then have "(tail, r) \<in> (row_edges m)\<^sup>*"
      using only by (auto dest: tranclD)
    moreover have "(r, tail) \<in> row_edges m"
      using extended_row.hyps by (auto simp: row_edges_def)
    ultimately show False
      using extended_row.IH by (meson rtrancl_into_trancl1)
  qed
qed (auto simp: row_edges_def dest!: tranclD)

definition row_states_ok :: "qmodule \<Rightarrow> row_state list \<Rightarrow> bool" where
  "row_states_ok m states \<longleftrightarrow> length states = length (arena_effect_rows (qmodule_arena m)) \<and>
     (\<forall>i. arena_offset i < length states \<longrightarrow> states ! arena_offset i = Complete \<longrightarrow> canonical_row m (EffectRowId i))"

lemma arena_offset_eq [simp]: "arena_offset i = arena_offset j \<longleftrightarrow> i = j"
  by (simp add: arena_offset_def word_unat_eq_iff)

lemma row_states_update:
  assumes "row_states_ok m states" "s = Complete \<Longrightarrow> canonical_row m (EffectRowId i)"
  shows "row_states_ok m (states[arena_offset i := s])"
proof -
  have "canonical_row m (EffectRowId j)"
    if "arena_offset j < length states" "(states[arena_offset i := s]) ! arena_offset j = Complete" for j
    using assms that by (cases "i = j") (auto simp: row_states_ok_def)
  with assms(1) show ?thesis by (simp add: row_states_ok_def)
qed

text \<open>The steps of a row that is not refused.\<close>

lemma validate_effect_row_cases:
  assumes "validate_effect_row m (EffectRowId i) states = Inr states'"
  obtains (seen) "arena_offset i < length states" "states ! arena_offset i = Complete" "states' = states"
  | (ends) n where "effect_row_at m (EffectRowId i) = Some n" "arena_offset i < length states"
      "row_of n = EmptyRow \<or> (\<exists>v. row_of n = VariableRow v \<and> v < effect_parameter_count m)"
      "states' = states[arena_offset i := Complete]"
  | (extends) n e tail states'' where "effect_row_at m (EffectRowId i) = Some n" "arena_offset i < length states"
      "states ! arena_offset i = Unvisited" "row_of n = ExtendRow e tail"
      "\<And>e'. next_effect (qmodule_arena m) tail = Some e' \<Longrightarrow> key_text e < key_text e'"
      "validate_effect_row m tail (states[arena_offset i := Visiting]) = Inr states''"
      "states' = states''[arena_offset i := Complete]"
proof -
  let ?rows = "arena_effect_rows (qmodule_arena m)"
  have i: "arena_offset i < length states" "arena_offset i < length ?rows"
    using assms unfolding validate_effect_row.simps [of m i states] by (auto simp: Let_def split: if_splits)
  then have at: "effect_row_at m (EffectRowId i) = Some (?rows ! arena_offset i)" by (simp add: entry_def)
  show ?thesis
  proof (cases "states ! arena_offset i")
    case Unvisited
    show ?thesis
    proof (cases "row_of (?rows ! arena_offset i)")
      case EmptyRow
      have "states' = states[arena_offset i := Complete]"
        using assms EmptyRow i Unvisited unfolding validate_effect_row.simps [of m i states] Let_def by simp
      from ends [OF at i(1) _ this] show ?thesis by (simp add: EmptyRow)
    next
      case (VariableRow v)
      then have "\<not> effect_parameter_count m \<le> v"
        using assms i Unvisited unfolding validate_effect_row.simps [of m i states] Let_def
        by (simp add: and_then_eq_Inr split: if_splits)
      then have v: "v < effect_parameter_count m" "states' = states[arena_offset i := Complete]"
        using assms VariableRow i Unvisited unfolding validate_effect_row.simps [of m i states] Let_def by simp_all
      show ?thesis
        by (rule ends [OF at i(1) _ v(2)]) (simp add: VariableRow v(1))
    next
      case (ExtendRow e tail)
      let ?below = "validate_effect_row m tail (states[arena_offset i := Visiting])"
      let ?next = "next_effect (qmodule_arena m) tail"
      have "and_then (case ?next of Some e' \<Rightarrow> if key_text e' \<le> key_text e
            then Inl (EffectRowNotCanonical (EffectRowId i) e e') else ?below | None \<Rightarrow> ?below)
          (\<lambda>states'. Inr (states'[arena_offset i := Complete])) = Inr states'"
        using assms unfolding validate_effect_row.simps [of m i states] Let_def by (simp add: ExtendRow i Unvisited)
      then have "\<exists>states''. ?below = Inr states'' \<and> states' = states''[arena_offset i := Complete] \<and>
          (\<forall>e'. ?next = Some e' \<longrightarrow> key_text e < key_text e')"
        by (cases ?next; cases ?below) (simp_all add: not_le split: if_splits)
      then obtain states'' where below: "?below = Inr states''" "states' = states''[arena_offset i := Complete]"
        and order: "\<forall>e'. ?next = Some e' \<longrightarrow> key_text e < key_text e'"
        by (elim exE conjE)
      show ?thesis
        by (rule extends [OF at i(1) Unvisited ExtendRow _ below]) (use order in simp)
    qed
  next
    case Visiting
    with assms i show ?thesis unfolding validate_effect_row.simps [of m i states] Let_def by simp
  next
    case Complete
    have "states' = states"
      using assms Complete i unfolding validate_effect_row.simps [of m i states] Let_def by simp
    from seen [OF i(1) Complete this] show ?thesis .
  qed
qed

lemma validate_effect_row_sound:
  "validate_effect_row m r states = Inr states' \<Longrightarrow> row_states_ok m states \<Longrightarrow>
     row_states_ok m states' \<and> canonical_row m r"
proof (induction "open_rows states" arbitrary: r states states' rule: less_induct)
  case less
  obtain i where r: "r = EffectRowId i" by (cases r)
  from less.prems(1) [unfolded r] show ?case
  proof (cases rule: validate_effect_row_cases)
    case seen
    with less.prems(2) show ?thesis by (auto simp: row_states_ok_def r)
  next
    case (ends n)
    then have "canonical_row m (EffectRowId i)" by (auto intro: empty_row variable_row)
    with less.prems(2) row_states_update ends(4) show ?thesis by (simp add: r)
  next
    case (extends n e tail states'')
    have "row_states_ok m (states[arena_offset i := Visiting])"
      by (rule row_states_update [OF less.prems(2)]) simp
    with less.hyps [OF open_rows_update [OF extends(2,3)] extends(6)]
    have after: "row_states_ok m states''" "canonical_row m tail" by simp_all
    have "canonical_row m (EffectRowId i)"
      by (rule extended_row [OF extends(1,4) after(2) extends(5)])
    with row_states_update [OF after(1)] extends(7) show ?thesis by (simp add: r)
  qed
qed

lemma validate_effect_row_complete:
  "canonical_row m r \<Longrightarrow> length states = length (arena_effect_rows (qmodule_arena m)) \<Longrightarrow>
     (\<And>i. arena_offset i < length states \<Longrightarrow> states ! arena_offset i = Visiting \<Longrightarrow>
        (EffectRowId i, r) \<in> (row_edges m)\<^sup>+) \<Longrightarrow>
     \<exists>states'. validate_effect_row m r states = Inr states' \<and> length states' = length states \<and>
       (\<forall>i. arena_offset i < length states \<longrightarrow> states' ! arena_offset i = Visiting \<longrightarrow> states ! arena_offset i = Visiting)"
proof (induction arbitrary: states rule: canonical_row.induct)
  case (empty_row r n)
  obtain i where r: "r = EffectRowId i" by (cases r)
  have "states ! arena_offset i \<noteq> Visiting"
    using canonical_row_acyclic [OF canonical_row.empty_row [OF empty_row.hyps]] empty_row r by (auto simp: entry_iff)
  with empty_row r show ?case
    by (auto simp: validate_effect_row.simps [of m i states] Let_def entry_iff nth_list_update split: row_state.split)
next
  case (variable_row r n v)
  obtain i where r: "r = EffectRowId i" by (cases r)
  have "states ! arena_offset i \<noteq> Visiting"
    using canonical_row_acyclic [OF canonical_row.variable_row [OF variable_row.hyps]] variable_row r by (auto simp: entry_iff)
  with variable_row r show ?case
    by (auto simp: validate_effect_row.simps [of m i states] Let_def entry_iff nth_list_update split: row_state.split)
next
  case (extended_row r n e tail)
  obtain i where r: "r = EffectRowId i" by (cases r)
  have i: "arena_offset i < length states" "row_of (arena_effect_rows (qmodule_arena m) ! arena_offset i) = ExtendRow e tail"
    using extended_row r by (auto simp: entry_iff)
  have edge: "(r, tail) \<in> row_edges m"
    using extended_row.hyps by (auto simp: row_edges_def)
  have not_visiting: "states ! arena_offset i \<noteq> Visiting"
    using canonical_row_acyclic [OF canonical_row.extended_row [OF extended_row.hyps]] extended_row.prems i r by auto
  show ?case
  proof (cases "states ! arena_offset i")
    case Complete
    with i extended_row.prems(1) show ?thesis
      by (auto simp: r validate_effect_row.simps [of m i states] Let_def)
  next
    case Unvisited
    have "(EffectRowId j, tail) \<in> (row_edges m)\<^sup>+"
      if "arena_offset j < length states" "(states[arena_offset i := Visiting]) ! arena_offset j = Visiting" for j
      using that extended_row.prems(2) [of j] edge i r
      by (auto simp: nth_list_update split: if_splits intro: trancl_into_trancl)
    then obtain states' where states': "validate_effect_row m tail (states[arena_offset i := Visiting]) = Inr states'"
      "length states' = length states"
      "\<And>j. arena_offset j < length states \<Longrightarrow> states' ! arena_offset j = Visiting \<Longrightarrow>
        (states[arena_offset i := Visiting]) ! arena_offset j = Visiting"
      using extended_row.IH [of "states[arena_offset i := Visiting]"] extended_row.prems(1) by auto
    have "validate_effect_row m r states = Inr (states'[arena_offset i := Complete])"
      using states'(1) i Unvisited extended_row.hyps(4) extended_row.prems(1)
      by (auto simp: r validate_effect_row.simps [of m i states] Let_def not_le split: option.split)
    moreover have "states ! arena_offset j = Visiting"
      if "arena_offset j < length states" "states'[arena_offset i := Complete] ! arena_offset j = Visiting" for j
      using that states'(2) states'(3) [of j] i by (cases "i = j") auto
    ultimately show ?thesis using states'(2) by auto
  qed (use not_visiting in simp)
qed

lemma validate_effect_rows_Inr:
  assumes "bounded_arenas m"
  shows "validate_effect_rows m = Inr u \<longleftrightarrow>
    (\<forall>i < length (arena_effect_rows (qmodule_arena m)). canonical_row m (EffectRowId (arena_index i)))"
proof -
  let ?n = "length (arena_effect_rows (qmodule_arena m))"
  let ?step = "\<lambda>i. validate_effect_row m (EffectRowId (arena_index i))"
  have sound: "fold_each ?step is states = Inr states' \<Longrightarrow> row_states_ok m states \<Longrightarrow>
      i \<in> set is \<Longrightarrow> canonical_row m (EffectRowId (arena_index i))" for "is" i states states'
    by (induction "is" arbitrary: states) (auto simp: and_then_eq_Inr dest: validate_effect_row_sound)
  have complete: "\<exists>states'. fold_each ?step is states = Inr states'"
    if "\<And>i. i \<in> set is \<Longrightarrow> canonical_row m (EffectRowId (arena_index i))" "length states = ?n"
      "\<And>i. arena_offset i < length states \<Longrightarrow> states ! arena_offset i \<noteq> Visiting" for "is" states
    using that
  proof (induction "is" arbitrary: states)
    case (Cons i "is")
    then obtain states' where s: "?step i states = Inr states'" "length states' = length states"
      "\<forall>k. arena_offset k < length states \<longrightarrow> states' ! arena_offset k = Visiting \<longrightarrow> states ! arena_offset k = Visiting"
      using validate_effect_row_complete [of m "EffectRowId (arena_index i)" states] by force
    with Cons.IH [of states'] Cons.prems show ?case by (auto simp: and_then_eq_Inr)
  qed simp
  have bound: "?n < 2 ^ 32" using assms by (simp add: bounded_arenas_def arena_lengths_def)
  have initial: "row_states_ok m (replicate ?n Unvisited)"
    by (simp add: row_states_ok_def)
  show ?thesis
    using sound [OF _ initial, of "[0..<?n]"] complete [of "[0..<?n]" "replicate ?n Unvisited"]
    by (auto simp: validate_effect_rows_def Let_def and_then_eq_Inr)
qed

section \<open>Grades and structural types\<close>

lemma validate_grades_Inr:
  "validate_grades m = Inr u \<longleftrightarrow> (\<forall>n \<in> set (arena_grades (qmodule_arena m)). \<exists>k. admits (interval_of n) k)"
proof -
  have "(case validate_grade_interval g of Inl _ \<Rightarrow> Inl e | Inr _ \<Rightarrow> Inr ()) = Inr () \<longleftrightarrow> (\<exists>k. admits g k)" for g and e :: validation_error
    using validate_grade_interval_Inr [of g "()"]
    by (cases "validate_grade_interval g") (simp_all del: validate_grade_interval_Inr)
  then show ?thesis
    by (simp add: validate_grades_def all_set_conv_all_nth)
qed

fun canonical_structure :: "decimals \<Rightarrow> qvalue \<Rightarrow> bool" where
  "canonical_structure f (StructuralQualified _ names subjects members) \<longleftrightarrow>
     length subjects = length names \<and> length members = length names"
| "canonical_structure f (StructuralRecord labels types) \<longleftrightarrow> length types = length labels \<and> sorted_wrt (<) labels"
| "canonical_structure f (StructuralRecordUpdate _ labels types) \<longleftrightarrow>
     length types = length labels \<and> sorted_wrt (<) labels"
| "canonical_structure f (StructuralVariant labels types _) \<longleftrightarrow> length types = length labels \<and> sorted_wrt (<) labels"
| "canonical_structure f (StructuralEffects labels) \<longleftrightarrow> sorted_wrt (<) labels"
| "canonical_structure f (StructuralOpenEffects labels _) \<longleftrightarrow> sorted_wrt (<) labels"
| "canonical_structure f (StructuralRange domain lo hi) \<longleftrightarrow> valid_structural_range f domain lo hi"
| "canonical_structure f _ \<longleftrightarrow> True"

lemma validate_canonical_labels_Inr [simp]:
  "validate_canonical_labels v labels = Inr u \<longleftrightarrow> sorted_wrt (<) labels"
  by (induction v labels rule: validate_canonical_labels.induct) (auto simp: not_le intro: order.strict_trans)

lemma validate_structural_type_Inr [simp]:
  "validate_structural_type f v t = Inr u \<longleftrightarrow> canonical_structure f t"
  by (cases t) (auto simp: validate_labeled_types_def and_then_eq_Inr)

lemma validate_structural_types_Inr:
  "validate_structural_types f m = Inr u \<longleftrightarrow>
     (\<forall>n \<in> set (arena_values (qmodule_arena m)). canonical_structure f (value_term n))"
  by (simp add: validate_structural_types_def all_set_conv_all_nth)

section \<open>Scopes\<close>

text \<open>
  A visit is well-scoped when the tree it unfolds to is finite and nothing in it is refused:
  every bound variable is below its binders, every rigid below its quantifier, and proofs
  are used at their own propositions.
\<close>

inductive well_scoped :: "qmodule \<Rightarrow> visit \<Rightarrow> bool" for m where
  scoped_value: "value_at m v = Some n \<Longrightarrow>
     (\<And>u. u \<in> set (value_visits m v depth rigids (value_term n)) \<Longrightarrow> well_scoped m u) \<Longrightarrow>
     well_scoped m (VisitValue v depth rigids)"
| scoped_computation: "computation_at m c = Some n \<Longrightarrow>
     (\<And>u. u \<in> set (computation_visits c depth rigids (computation_term n)) \<Longrightarrow> well_scoped m u) \<Longrightarrow>
     well_scoped m (VisitComputation c depth rigids)"
| scoped_proof: "proof_at m p = Some n \<Longrightarrow> well_scoped m (VisitValue (proof_proposition n) depth rigids) \<Longrightarrow>
     well_scoped m (VisitProof p depth rigids)"
| scoped_row: "effect_row_at m r \<noteq> None \<Longrightarrow> well_scoped m (VisitEffectRow r)"
| scoped_grade: "grade_at m g \<noteq> None \<Longrightarrow> well_scoped m (VisitGrade g)"

fun visited_reference :: "visit \<Rightarrow> arena_reference" where
  "visited_reference (VisitValue v _ _) = ToValue v"
| "visited_reference (VisitComputation c _ _) = ToComputation c"
| "visited_reference (VisitProof p _ _) = ToProof p"
| "visited_reference (VisitEffectRow r) = ToEffectRow r"
| "visited_reference (VisitGrade g) = ToGrade g"
| "visited_reference (Refuse _) = ToOrigin (SourceOriginId 0)"

text \<open>The entries a visit marks itself: a proof and the proposition under it.\<close>

fun visited :: "qmodule \<Rightarrow> visit \<Rightarrow> arena_reference set" where
  "visited m (VisitProof p _ _) =
     insert (ToProof p) (case proof_at m p of None \<Rightarrow> {} | Some n \<Rightarrow> {ToValue (proof_proposition n)})"
| "visited m (Refuse _) = {}"
| "visited m u = {visited_reference u}"

lemma deeper_cases [simp]:
  "well_scoped m (deeper source depth below) \<longleftrightarrow> (\<exists>d. checked_add_u32 depth 1 = Some d \<and> well_scoped m (below d))"
  by (auto simp: deeper_def elim: well_scoped.cases split: option.split)

lemma not_well_scoped_refuse [simp]: "\<not> well_scoped m (Refuse e)"
  by (auto elim: well_scoped.cases)

lemma visited_deeper [simp]:
  "visited m (deeper source depth (\<lambda>d. VisitValue v d rigids)) =
     (if checked_add_u32 depth 1 = None then {} else {ToValue v})"
  "visited m (deeper source depth (\<lambda>d. VisitComputation c d rigids)) =
     (if checked_add_u32 depth 1 = None then {} else {ToComputation c})"
  by (simp_all add: deeper_def split: option.split)

text \<open>A node without refusals visits exactly its references.\<close>

lemma value_visits_references:
  assumes "\<forall>u \<in> set (value_visits m v depth rigids t). well_scoped m u"
  shows "(\<Union>u \<in> set (value_visits m v depth rigids t). visited m u) = set (value_references t)"
proof (cases t)
  case (ProofValue p q)
  with assms show ?thesis by (auto split: option.splits if_splits)
next
  case (StructuralForall variables body)
  with assms show ?thesis by (auto split: sum.splits)
next
  case (DependentPi domain codomain effects grade)
  with assms show ?thesis by auto
next
  case (DependentSigma one two)
  with assms show ?thesis by auto
next
  case (LambdaValue body)
  with assms show ?thesis by auto
next
  case (PairValue one two)
  show ?thesis by (simp add: PairValue insert_commute)
next
  case (StructuralFunction deferred parameter effects res)
  show ?thesis by (auto simp: StructuralFunction)
next
  case (StructuralQualified body names subjects members)
  show ?thesis by (auto simp: StructuralQualified)
next
  case (StructuralRecordUpdate base labels types)
  show ?thesis by (auto simp: StructuralRecordUpdate)
qed (auto)

lemma computation_visits_references:
  assumes "\<forall>u \<in> set (computation_visits c depth rigids t). well_scoped m u"
  shows "(\<Union>u \<in> set (computation_visits c depth rigids t). visited m u) = set (computation_references t)"
  using assms by (cases t) auto

section \<open>The walk finds the scopes and what is reachable\<close>

definition walk_sized :: "qmodule \<Rightarrow> scope_walk \<Rightarrow> bool" where
  "walk_sized m w \<longleftrightarrow>
     length (reachable_origins w) = length (arena_origins (qmodule_arena m)) \<and>
     length (reachable_values w) = length (arena_values (qmodule_arena m)) \<and>
     length (reachable_computations w) = length (arena_computations (qmodule_arena m)) \<and>
     length (reachable_effect_rows w) = length (arena_effect_rows (qmodule_arena m)) \<and>
     length (reachable_grades w) = length (arena_grades (qmodule_arena m)) \<and>
     length (reachable_proofs w) = length (arena_proofs (qmodule_arena m))"

lemma walk_sized_mark [simp]: "walk_sized m (mark r w) \<longleftrightarrow> walk_sized m w"
  by (cases "(r, w)" rule: mark.cases) (auto simp: walk_sized_def)

lemma walk_sized_terms [simp]: "walk_sized m (w\<lparr>scoped_terms := s\<rparr>) \<longleftrightarrow> walk_sized m w"
  by (simp add: walk_sized_def)

lemma scoped_terms_mark [simp]: "scoped_terms (mark r w) = scoped_terms w"
  by (cases "(r, w)" rule: mark.cases) auto

lemma marked_terms [simp]: "marked (w\<lparr>scoped_terms := s\<rparr>) r \<longleftrightarrow> marked w r"
  by (cases "(w, r)" rule: marked.cases) auto

lemma flag_at_update:
  "arena_offset j < length flags \<Longrightarrow> flag_at (flags[arena_offset j := True]) i \<longleftrightarrow> i = j \<or> flag_at flags i"
  by (cases "i = j") auto

lemma marked_mark:
  assumes "walk_sized m w" "present (qmodule_arena m) r"
  shows "marked (mark r w) r' \<longleftrightarrow> r' = r \<or> marked w r'"
proof (cases "(r, w)" rule: mark.cases)
  case (1 i w)
  with assms show ?thesis by (cases "(w, r')" rule: marked.cases) (simp_all add: walk_sized_def flag_at_update del: flag_at.simps)
next
  case (2 i w)
  with assms show ?thesis by (cases "(w, r')" rule: marked.cases) (simp_all add: walk_sized_def flag_at_update del: flag_at.simps)
next
  case (3 i w)
  with assms show ?thesis by (cases "(w, r')" rule: marked.cases) (simp_all add: walk_sized_def flag_at_update del: flag_at.simps)
next
  case (4 i w)
  with assms show ?thesis by (cases "(w, r')" rule: marked.cases) (simp_all add: walk_sized_def flag_at_update del: flag_at.simps)
next
  case (5 i w)
  with assms show ?thesis by (cases "(w, r')" rule: marked.cases) (simp_all add: walk_sized_def flag_at_update del: flag_at.simps)
next
  case (6 i w)
  with assms show ?thesis by (cases "(w, r')" rule: marked.cases) (simp_all add: walk_sized_def flag_at_update del: flag_at.simps)
qed

lemma marked_present: "walk_sized m w \<Longrightarrow> marked w r \<Longrightarrow> present (qmodule_arena m) r"
  by (cases "(w, r)" rule: marked.cases) (auto simp: walk_sized_def)

lemma references_presentD:
  "references_present m \<Longrightarrow> r' \<in> set (node_references m r) \<Longrightarrow> present (qmodule_arena m) r'"
  "references_present m \<Longrightarrow> r' \<in> set (root_references m) \<Longrightarrow> present (qmodule_arena m) r'"
  unfolding references_present_def list_all_iff by blast+

lemma mark_origin_Inr [simp]:
  "mark_origin m source origin w = Inr w' \<longleftrightarrow>
     present (qmodule_arena m) (ToOrigin origin) \<and> w' = mark (ToOrigin origin) w"
  by (auto simp: mark_origin_def and_then_eq_Inr)

lemma mark_origin_present:
  "present (qmodule_arena m) (ToOrigin origin) \<Longrightarrow> mark_origin m source origin w = Inr (mark (ToOrigin origin) w)"
  by simp

text \<open>
  The state of the walk with the entries of \<open>open_entries\<close> still being visited: what the memo
  holds is marked and, unless it is open, well-scoped; what is marked and not open has its
  references marked; and everything marked is reachable.
\<close>

fun scoped_visit :: "scoped_reference \<Rightarrow> visit" where
  "scoped_visit (ScopedValue v depth rigids) = VisitValue v depth rigids"
| "scoped_visit (ScopedComputation c depth rigids) = VisitComputation c depth rigids"

fun scoped_target :: "scoped_reference \<Rightarrow> arena_reference" where
  "scoped_target (ScopedValue v depth rigids) = ToValue v"
| "scoped_target (ScopedComputation c depth rigids) = ToComputation c"

definition reference_edges :: "qmodule \<Rightarrow> (arena_reference \<times> arena_reference) set" where
  "reference_edges m = {(r, r'). r' \<in> set (node_references m r)}"

definition reachable :: "qmodule \<Rightarrow> arena_reference \<Rightarrow> bool" where
  "reachable m r \<longleftrightarrow> (\<exists>root \<in> set (root_references m). (root, r) \<in> (reference_edges m)\<^sup>*)"

lemma reachable_step: "reachable m r \<Longrightarrow> r' \<in> set (node_references m r) \<Longrightarrow> reachable m r'"
  by (auto simp: reachable_def reference_edges_def intro: rtrancl_into_rtrancl)

definition walking :: "qmodule \<Rightarrow> arena_reference set \<Rightarrow> scope_walk \<Rightarrow> bool" where
  "walking m open_entries w \<longleftrightarrow> walk_sized m w \<and>
     (\<forall>s \<in> scoped_terms w. marked w (scoped_target s) \<and>
        (scoped_target s \<in> open_entries \<or> well_scoped m (scoped_visit s))) \<and>
     (\<forall>r. marked w r \<longrightarrow> r \<in> open_entries \<or> (\<forall>r' \<in> set (node_references m r). marked w r')) \<and>
     (\<forall>r. marked w r \<longrightarrow> reachable m r)"

text \<open>What a visit that returns has done.\<close>

definition walked :: "qmodule \<Rightarrow> scope_walk \<Rightarrow> scope_walk \<Rightarrow> bool" where
  "walked m w w' \<longleftrightarrow> (\<forall>r. marked w r \<longrightarrow> marked w' r) \<and> scoped_terms w \<subseteq> scoped_terms w' \<and>
     (\<forall>s \<in> scoped_terms w' - scoped_terms w. well_scoped m (scoped_visit s))"

lemma walked_refl [simp]: "walked m w w"
  by (simp add: walked_def)

lemma walked_trans: "walked m w w' \<Longrightarrow> walked m w' w'' \<Longrightarrow> walked m w w''"
  unfolding walked_def by blast

lemma walked_mark: "walk_sized m w \<Longrightarrow> present (qmodule_arena m) r \<Longrightarrow> walked m w (mark r w)"
  by (simp add: walked_def marked_mark)

lemma walking_mark:
  assumes "walking m X w" "present (qmodule_arena m) r" "reachable m r"
    and "\<And>r'. r' \<in> set (node_references m r) \<Longrightarrow> r \<in> X"
  shows "walking m X (mark r w)"
proof -
  have sized: "walk_sized m w" using assms(1) by (simp add: walking_def)
  show ?thesis
    using assms unfolding walking_def walk_sized_mark scoped_terms_mark marked_mark [OF sized assms(2)] by blast
qed

lemma walking_more: "walking m X w \<Longrightarrow> X \<subseteq> Y \<Longrightarrow> walking m Y w"
  by (auto simp: walking_def)

lemma walking_close:
  assumes "walking m (insert r X) w" "\<And>r'. r' \<in> set (node_references m r) \<Longrightarrow> marked w r'"
    and "\<And>s. s \<in> scoped_terms w \<Longrightarrow> scoped_target s = r \<Longrightarrow> r \<in> X \<or> well_scoped m (scoped_visit s)"
  shows "walking m X w"
  using assms unfolding walking_def by (metis insertE)

text \<open>Rows: the walk marks a row before its tail, and stops at a row it has marked.\<close>

lemma visit_effect_row_walks:
  "visit_effect_row m r w = Inr w' \<Longrightarrow> references_present m \<Longrightarrow> walking m X w \<Longrightarrow> reachable m (ToEffectRow r) \<Longrightarrow>
     walking m X w' \<and> walked m w w' \<and> marked w' (ToEffectRow r) \<and> effect_row_at m r \<noteq> None"
proof (induction "unmarked_rows w" arbitrary: r w w' X rule: less_induct)
  case less
  obtain i where r: "r = EffectRowId i" by (cases r)
  have sized: "walk_sized m w" using less.prems(3) by (simp add: walking_def)
  have i: "arena_offset i < length (reachable_effect_rows w)"
    using less.prems(1) unfolding r visit_effect_row.simps [of m i w] by (simp split: if_splits)
  then obtain n where n: "effect_row_at m r = Some n"
    using sized by (simp add: r walk_sized_def entry_def)
  show ?case
  proof (cases "reachable_effect_rows w ! arena_offset i")
    case True
    then have "w' = w"
      using less.prems(1) i unfolding r visit_effect_row.simps [of m i w] by simp
    with True i n less.prems(3) show ?thesis by (simp add: r)
  next
    case False
    let ?w1 = "mark (ToOrigin (effect_row_origin n)) (mark (ToEffectRow r) w)"
    have row: "present (qmodule_arena m) (ToEffectRow r)"
      using i sized by (simp add: r walk_sized_def)
    have refs: "present (qmodule_arena m) r'" "reachable m r'" if "r' \<in> set (node_references m (ToEffectRow r))" for r'
      using references_presentD(1) [OF less.prems(2) that] reachable_step [OF less.prems(4) that] by simp_all
    have step: "(case row_of n of ExtendRow _ tail \<Rightarrow> visit_effect_row m tail ?w1 | _ \<Rightarrow> Inr ?w1) = Inr w'"
      using less.prems(1) i False n unfolding r visit_effect_row.simps [of m i w]
      by (auto simp: and_then_eq_Inr split: effect_row.splits)
    have origin: "ToOrigin (effect_row_origin n) \<in> set (node_references m (ToEffectRow r))" using n by simp
    have w1: "walking m (insert (ToEffectRow r) X) ?w1"
      by (intro walking_mark walking_more [OF less.prems(3)] row less.prems(4) refs [OF origin]) auto
    have w1': "walked m w ?w1"
      using walked_trans [OF walked_mark [OF sized row] walked_mark [OF _ refs(1) [OF origin]]] sized by simp
    have marks: "marked ?w1 (ToEffectRow r)" "marked ?w1 (ToOrigin (effect_row_origin n))"
      using sized row refs(1) [OF origin] by (simp_all add: marked_mark)
    have fewer: "unmarked_rows ?w1 < unmarked_rows w"
      using unmarked_rows_mark [OF i False, of m "FromEffectRow r" "effect_row_origin n" ?w1] refs(1) [OF origin]
      by (simp add: r)
    have "walking m (insert (ToEffectRow r) X) w' \<and> walked m ?w1 w' \<and> (\<forall>r' \<in> set (row_references (row_of n)). marked w' r')"
    proof (cases "row_of n")
      case (ExtendRow e tail)
      then have tail: "visit_effect_row m tail ?w1 = Inr w'" using step by simp
      have "reachable m (ToEffectRow tail)" using refs(2) n ExtendRow by simp
      from less.hyps [OF fewer tail less.prems(2) w1 this] ExtendRow show ?thesis by simp
    qed (use step w1 in auto)
    then have after: "walking m (insert (ToEffectRow r) X) w'" "walked m ?w1 w'"
      "\<And>r'. r' \<in> set (row_references (row_of n)) \<Longrightarrow> marked w' r'" by auto
    have "walking m X w'"
    proof (rule walking_close [OF after(1)])
      fix r' assume "r' \<in> set (node_references m (ToEffectRow r))"
      with n after(2,3) marks(2) show "marked w' r'" by (auto simp: walked_def)
    next
      fix s assume "scoped_target s = ToEffectRow r"
      then show "ToEffectRow r \<in> X \<or> well_scoped m (scoped_visit s)" by (cases s) auto
    qed
    moreover have "walked m w w'" by (rule walked_trans [OF w1' after(2)])
    moreover have "marked w' (ToEffectRow r)" using marks(1) after(2) by (simp add: walked_def)
    ultimately show ?thesis using n by simp
  qed
qed

lemma visit_grade_walks:
  assumes "visit_grade m g w = Inr w'" "references_present m" "walking m X w" "reachable m (ToGrade g)"
  shows "walking m X w' \<and> walked m w w' \<and> marked w' (ToGrade g) \<and> grade_at m g \<noteq> None"
proof -
  obtain n where n: "grade_at m g = Some n" using assms(1) by (auto simp: visit_grade_def split: option.splits)
  have sized: "walk_sized m w" using assms(3) by (simp add: walking_def)
  show ?thesis
  proof (cases "marked w (ToGrade g)")
    case True
    then have "w' = w" using assms(1) n by (simp add: visit_grade_def)
    with True n assms(3) show ?thesis by simp
  next
    case False
    then have w': "w' = mark (ToOrigin (grade_origin n)) (mark (ToGrade g) w)"
      "present (qmodule_arena m) (ToOrigin (grade_origin n))"
      using assms(1) n by (simp_all add: visit_grade_def)
    have grade: "present (qmodule_arena m) (ToGrade g)"
      using n by (cases g) (simp add: entry_iff)
    have origin: "reachable m (ToOrigin (grade_origin n))"
      by (rule reachable_step [OF assms(4)]) (simp add: n)
    have "walking m (insert (ToGrade g) X) w'"
      unfolding w' by (intro walking_mark walking_more [OF assms(3)] grade assms(4) w' origin) auto
    moreover have marks: "marked w' (ToGrade g)" "marked w' (ToOrigin (grade_origin n))"
      using sized grade w' by (simp_all add: marked_mark)
    moreover have "scoped_target s \<noteq> ToGrade g" for s by (cases s) auto
    ultimately have "walking m X w'"
      using walking_close [of m "ToGrade g" X w'] n by simp
    moreover have "walked m w w'"
      unfolding w'(1) using walked_trans [OF walked_mark [OF sized grade] walked_mark [OF _ w'(2)]] sized by simp
    ultimately show ?thesis using marks n by simp
  qed
qed

text \<open>Terms.\<close>

lemma value_visits_within: "u \<in> set (value_visits m v depth rigids t) \<Longrightarrow> visited m u \<subseteq> set (value_references t)"
  by (cases t) (auto split: option.splits sum.splits if_splits)

lemma computation_visits_within:
  "u \<in> set (computation_visits c depth rigids t) \<Longrightarrow> visited m u \<subseteq> set (computation_references t)"
  by (cases t) (auto split: if_splits)

definition walks :: "qmodule \<Rightarrow> arena_reference set \<Rightarrow> visit \<Rightarrow> scope_walk \<Rightarrow> scope_walk \<Rightarrow> bool" where
  "walks m X u w w' \<longleftrightarrow>
     walking m X w' \<and> walked m w w' \<and> well_scoped m u \<and> (\<forall>r \<in> visited m u. marked w' r)"

lemma fold_walks:
  assumes "fold_each f us w = Inr w'" "walking m X w"
    and "\<And>u w w'. u \<in> set us \<Longrightarrow> f u w = Inr w' \<Longrightarrow> walking m X w \<Longrightarrow> walks m X u w w'"
  shows "walking m X w' \<and> walked m w w' \<and> (\<forall>u \<in> set us. well_scoped m u \<and> (\<forall>r \<in> visited m u. marked w' r))"
  using assms
proof (induction us arbitrary: w)
  case (Cons u us)
  then obtain w1 where w1: "f u w = Inr w1" "fold_each f us w1 = Inr w'" by (auto simp: and_then_eq_Inr)
  have one: "walks m X u w w1" by (rule Cons.prems(3) [OF _ w1(1) Cons.prems(2)]) simp
  then have walking: "walking m X w1" by (simp add: walks_def)
  have rest: "walking m X w' \<and> walked m w1 w' \<and> (\<forall>u \<in> set us. well_scoped m u \<and> (\<forall>r \<in> visited m u. marked w' r))"
    by (rule Cons.IH [OF w1(2) walking Cons.prems(3)]) simp_all
  with one walked_trans [of m w w1 w'] show ?case by (auto simp: walks_def walked_def)
qed simp

text \<open>A node: entered, marked with its origin, its visits made, and left.\<close>

lemma walks_node:
  assumes present: "references_present m" and walking: "walking m X w" and "r \<notin> X"
    and r: "present (qmodule_arena m) r" "reachable m r"
    and refs: "set (node_references m r) = insert (ToOrigin origin) R"
    and s: "scoped_target s = r"
    and entered: "w1 = mark (ToOrigin origin) (mark r (w\<lparr>scoped_terms := insert s (scoped_terms w)\<rparr>))"
    and below: "walking m (insert r X) w1 \<Longrightarrow> walking m (insert r X) w' \<and> walked m w1 w' \<and> well_scoped m (scoped_visit s) \<and>
      (\<forall>r' \<in> R. marked w' r')"
  shows "walking m X w' \<and> walked m w w' \<and> well_scoped m (scoped_visit s) \<and> marked w' r"
proof -
  have sized: "walk_sized m w" using walking by (simp add: walking_def)
  have origin: "present (qmodule_arena m) (ToOrigin origin)" "reachable m (ToOrigin origin)"
    using references_presentD(1) [OF present, of _ r] reachable_step [OF r(2)] refs by simp_all
  have flags: "marked w1 r' \<longleftrightarrow> r' = ToOrigin origin \<or> r' = r \<or> marked w r'" for r'
    using sized r(1) origin(1) by (simp add: entered marked_mark)
  have memo: "scoped_terms w1 = insert s (scoped_terms w)" by (simp add: entered)
  have "walking m (insert r X) w1"
    unfolding walking_def
  proof (intro conjI ballI allI impI)
    show "walk_sized m w1" using sized by (simp add: entered)
  next
    fix s' assume "s' \<in> scoped_terms w1"
    then show "marked w1 (scoped_target s')"
      using walking s by (auto simp: memo flags walking_def)
    show "scoped_target s' \<in> insert r X \<or> well_scoped m (scoped_visit s')"
      using \<open>s' \<in> scoped_terms w1\<close> walking s by (auto simp: memo walking_def)
  next
    fix r' assume "marked w1 r'"
    then show "r' \<in> insert r X \<or> (\<forall>x \<in> set (node_references m r'). marked w1 x)"
      using walking unfolding flags walking_def by auto
    show "reachable m r'" using \<open>marked w1 r'\<close> walking r(2) origin(2) unfolding flags walking_def by blast
  qed
  from below [OF this] have after: "walking m (insert r X) w'" "walked m w1 w'" "well_scoped m (scoped_visit s)"
    "\<And>r'. r' \<in> R \<Longrightarrow> marked w' r'" by auto
  have marks: "marked w' r'" if "marked w1 r'" for r' using after(2) that by (simp add: walked_def)
  have new: "well_scoped m (scoped_visit s')" if "s' \<in> scoped_terms w'" "s' \<notin> scoped_terms w" for s'
    using that after(2,3) unfolding walked_def memo by (cases "s' = s") auto
  have "walking m X w'"
  proof (rule walking_close [OF after(1)])
    fix r' assume "r' \<in> set (node_references m r)"
    with refs after(4) marks flags show "marked w' r'" by auto
  next
    fix s' assume "s' \<in> scoped_terms w'" "scoped_target s' = r"
    then show "r \<in> X \<or> well_scoped m (scoped_visit s')"
      using new [of s'] walking by (cases "s' \<in> scoped_terms w") (auto simp: walking_def)
  qed
  moreover have "walked m w w'"
    using marks flags new after(2) memo unfolding walked_def by blast
  moreover have "marked w' r" using marks flags by blast
  ultimately show ?thesis using after(3) by blast
qed

lemma visit_term_walks:
  "visit_term m active u w = Inr w' \<Longrightarrow> references_present m \<Longrightarrow> walking m X w \<Longrightarrow> active \<subseteq> X \<Longrightarrow>
     X \<inter> term_references \<subseteq> active \<Longrightarrow> (\<And>r. r \<in> visited m u \<Longrightarrow> reachable m r) \<Longrightarrow> walks m X u w w'"
proof (induction m active u w arbitrary: w' X rule: visit_term.induct)
  case (1 m active v depth rigids w)
  note step = "1.prems"(1) [unfolded visit_term.simps]
  have fresh: "ToValue v \<notin> active" using step by (simp split: if_splits)
  then have open_entry: "ToValue v \<notin> X" using "1.prems"(5) by auto
  show ?case
  proof (cases "ScopedValue v depth rigids \<in> scoped_terms w")
    case True
    then have "w' = w" using step fresh by simp
    with True "1.prems"(3) open_entry show ?thesis
      unfolding walks_def walking_def by force
  next
    case False
    then obtain n where n: "value_at m v = Some n"
      using step fresh by (auto split: option.splits)
    let ?w1 = "mark (ToOrigin (value_origin n))
      (mark (ToValue v) (w\<lparr>scoped_terms := insert (ScopedValue v depth rigids) (scoped_terms w)\<rparr>))"
    let ?visits = "value_visits m v depth rigids (value_term n)"
    have run: "fold_each (visit_term m (insert (ToValue v) active)) ?visits ?w1 = Inr w'"
      and origin: "present (qmodule_arena m) (ToOrigin (value_origin n))"
      using step fresh False n by (auto simp: and_then_eq_Inr)
    have refs: "set (node_references m (ToValue v)) = insert (ToOrigin (value_origin n)) (set (value_references (value_term n)))"
      by (simp add: n)
    have here: "present (qmodule_arena m) (ToValue v)" using n by (cases v) (simp add: entry_iff)
    have reach: "reachable m (ToValue v)" using "1.prems"(6) by simp
    have "walking m X w' \<and> walked m w w' \<and> well_scoped m (scoped_visit (ScopedValue v depth rigids)) \<and> marked w' (ToValue v)"
    proof (rule walks_node [OF "1.prems"(2,3) open_entry here reach refs _ refl])
      assume walking: "walking m (insert (ToValue v) X) ?w1"
      have "walking m (insert (ToValue v) X) w' \<and> walked m ?w1 w' \<and>
          (\<forall>u \<in> set ?visits. well_scoped m u \<and> (\<forall>r \<in> visited m u. marked w' r))"
      proof (rule fold_walks [OF run walking])
        fix u x x' assume u: "u \<in> set ?visits" and x: "visit_term m (insert (ToValue v) active) u x = Inr x'"
          "walking m (insert (ToValue v) X) x"
        show "walks m (insert (ToValue v) X) u x x'"
          by (rule "1.IH" [OF fresh False n _ u x(1) "1.prems"(2) x(2)])
            (use "1.prems"(4,5) origin value_visits_within [OF u] reachable_step [OF reach, unfolded refs] in auto)
      qed
      then have below: "walking m (insert (ToValue v) X) w'" "walked m ?w1 w'" "\<forall>u \<in> set ?visits. well_scoped m u"
        "\<forall>u \<in> set ?visits. \<forall>r \<in> visited m u. marked w' r" by auto
      have "well_scoped m (VisitValue v depth rigids)" by (rule scoped_value [OF n]) (use below(3) in simp)
      with below value_visits_references [OF below(3)]
      show "walking m (insert (ToValue v) X) w' \<and> walked m ?w1 w' \<and>
          well_scoped m (scoped_visit (ScopedValue v depth rigids)) \<and> (\<forall>r \<in> set (value_references (value_term n)). marked w' r)"
        by (auto simp flip: value_visits_references [OF below(3)])
    qed simp
    then show ?thesis by (simp add: walks_def)
  qed
next
  case (2 m active c depth rigids w)
  note step = "2.prems"(1) [unfolded visit_term.simps]
  have fresh: "ToComputation c \<notin> active" using step by (simp split: if_splits)
  then have open_entry: "ToComputation c \<notin> X" using "2.prems"(5) by auto
  show ?case
  proof (cases "ScopedComputation c depth rigids \<in> scoped_terms w")
    case True
    then have "w' = w" using step fresh by simp
    with True "2.prems"(3) open_entry show ?thesis
      unfolding walks_def walking_def by force
  next
    case False
    then obtain n where n: "computation_at m c = Some n"
      using step fresh by (auto split: option.splits)
    let ?w1 = "mark (ToOrigin (computation_origin n))
      (mark (ToComputation c) (w\<lparr>scoped_terms := insert (ScopedComputation c depth rigids) (scoped_terms w)\<rparr>))"
    let ?visits = "computation_visits c depth rigids (computation_term n)"
    have run: "fold_each (visit_term m (insert (ToComputation c) active)) ?visits ?w1 = Inr w'"
      and origin: "present (qmodule_arena m) (ToOrigin (computation_origin n))"
      using step fresh False n by (auto simp: and_then_eq_Inr)
    have refs: "set (node_references m (ToComputation c)) =
        insert (ToOrigin (computation_origin n)) (set (computation_references (computation_term n)))"
      by (simp add: n)
    have here: "present (qmodule_arena m) (ToComputation c)" using n by (cases c) (simp add: entry_iff)
    have reach: "reachable m (ToComputation c)" using "2.prems"(6) by simp
    have "walking m X w' \<and> walked m w w' \<and> well_scoped m (scoped_visit (ScopedComputation c depth rigids)) \<and>
        marked w' (ToComputation c)"
    proof (rule walks_node [OF "2.prems"(2,3) open_entry here reach refs _ refl])
      assume walking: "walking m (insert (ToComputation c) X) ?w1"
      have "walking m (insert (ToComputation c) X) w' \<and> walked m ?w1 w' \<and>
          (\<forall>u \<in> set ?visits. well_scoped m u \<and> (\<forall>r \<in> visited m u. marked w' r))"
      proof (rule fold_walks [OF run walking])
        fix u x x' assume u: "u \<in> set ?visits" and x: "visit_term m (insert (ToComputation c) active) u x = Inr x'"
          "walking m (insert (ToComputation c) X) x"
        show "walks m (insert (ToComputation c) X) u x x'"
          by (rule "2.IH" [OF fresh False n _ u x(1) "2.prems"(2) x(2)])
            (use "2.prems"(4,5) origin computation_visits_within [OF u, of m] reachable_step [OF reach, unfolded refs] in auto)
      qed
      then have below: "walking m (insert (ToComputation c) X) w'" "walked m ?w1 w'" "\<forall>u \<in> set ?visits. well_scoped m u"
        "\<forall>u \<in> set ?visits. \<forall>r \<in> visited m u. marked w' r" by auto
      have "well_scoped m (VisitComputation c depth rigids)" by (rule scoped_computation [OF n]) (use below(3) in simp)
      with below show "walking m (insert (ToComputation c) X) w' \<and> walked m ?w1 w' \<and>
          well_scoped m (scoped_visit (ScopedComputation c depth rigids)) \<and>
          (\<forall>r \<in> set (computation_references (computation_term n)). marked w' r)"
        by (auto simp flip: computation_visits_references [OF below(3)])
    qed simp
    then show ?thesis by (simp add: walks_def)
  qed
next
  case (3 m active p depth rigids w)
  note step = "3.prems"(1) [unfolded visit_term.simps(3)]
  obtain n where n: "proof_at m p = Some n" using step by (auto split: option.splits)
  let ?w1 = "mark (ToOrigin (proof_origin n)) (mark (ToProof p) w)"
  let ?below = "VisitValue (proof_proposition n) depth rigids"
  have run: "visit_term m active ?below ?w1 = Inr w'" using step n by (simp add: and_then_eq_Inr)
  have sized: "walk_sized m w" using "3.prems"(3) by (simp add: walking_def)
  have here: "present (qmodule_arena m) (ToProof p)" using n by (cases p) (simp add: entry_iff)
  have reach: "reachable m (ToProof p)" using "3.prems"(6) by simp
  have origin: "present (qmodule_arena m) (ToOrigin (proof_origin n))" "reachable m (ToOrigin (proof_origin n))"
    using references_presentD(1) [OF "3.prems"(2), of _ "ToProof p"] reachable_step [OF reach] n by simp_all
  have entered: "walking m (insert (ToProof p) X) ?w1"
    by (intro walking_mark walking_more [OF "3.prems"(3)] here reach origin) auto
  have walked: "walked m w ?w1"
    using walked_trans [OF walked_mark [OF sized here] walked_mark [OF _ origin(1)]] sized by simp
  have "walks m (insert (ToProof p) X) ?below ?w1 w'"
  proof (rule "3.IH" [OF n _ run "3.prems"(2) entered])
    show "mark_origin m (FromProof p) (proof_origin n) (mark (ToProof p) w) = Inr ?w1" using origin(1) by simp
    show "active \<subseteq> insert (ToProof p) X" using "3.prems"(4) by blast
    show "insert (ToProof p) X \<inter> term_references \<subseteq> active"
      using "3.prems"(5) by (auto simp: term_references_def)
    show "reachable m r" if "r \<in> visited m ?below" for r
      using that "3.prems"(6) n by simp
  qed
  then have after: "walking m (insert (ToProof p) X) w'" "walked m ?w1 w'" "well_scoped m ?below"
    "marked w' (ToValue (proof_proposition n))" by (simp_all add: walks_def)
  have marks: "marked w' (ToProof p)" "marked w' (ToOrigin (proof_origin n))"
    using after(2) sized here origin(1) by (simp_all add: walked_def marked_mark)
  have "scoped_target s \<noteq> ToProof p" for s by (cases s) auto
  then have "walking m X w'"
    by (intro walking_close [OF after(1)]) (use marks(2) after(4) n in auto)
  with walked_trans [OF walked after(2)] scoped_proof [OF n after(3)] marks(1) after(4) n show ?case
    by (simp add: walks_def)
next
  case (4 m active r w)
  from "4.prems"(1) visit_effect_row_walks [OF _ "4.prems"(2,3), of r w'] "4.prems"(6) show ?case
    by (auto simp: visit_term.simps walks_def intro: scoped_row)
next
  case (5 m active g w)
  from "5.prems"(1) visit_grade_walks [OF _ "5.prems"(2,3), of g w'] "5.prems"(6) show ?case
    by (auto simp: visit_term.simps walks_def intro: scoped_grade)
next
  case (6 m active e w)
  then show ?case by (simp add: visit_term.simps)
qed

section \<open>Well-scoped modules are accepted\<close>

text \<open>A well-scoped visit does not reach its own entry again.\<close>

definition term_edges :: "qmodule \<Rightarrow> (arena_reference \<times> arena_reference) set" where
  "term_edges m = {(r, r'). r' \<in> set (node_references m r) \<and> r \<in> term_references \<and> r' \<in> term_references}"

fun visited_term :: "qmodule \<Rightarrow> visit \<Rightarrow> arena_reference option" where
  "visited_term m (VisitValue v _ _) = Some (ToValue v)"
| "visited_term m (VisitComputation c _ _) = Some (ToComputation c)"
| "visited_term m (VisitProof p _ _) = map_option (\<lambda>n. ToValue (proof_proposition n)) (proof_at m p)"
| "visited_term m _ = None"

lemma not_term_references [simp]:
  "ToProof p \<notin> term_references" "ToOrigin s \<notin> term_references" "ToEffectRow e \<notin> term_references"
  "ToGrade g \<notin> term_references"
  by (auto simp: term_references_def)

lemma visited_terms: "r \<in> visited m u \<and> r \<in> term_references \<longleftrightarrow> visited_term m u = Some r"
  by (cases u) (auto split: option.split)

lemma well_scoped_acyclic:
  "well_scoped m u \<Longrightarrow> visited_term m u = Some r \<Longrightarrow> (r, r) \<notin> (term_edges m)\<^sup>+"
proof (induction arbitrary: r rule: well_scoped.induct)
  case (scoped_value v n depth rigids)
  show ?case
  proof
    assume "(r, r) \<in> (term_edges m)\<^sup>+"
    then obtain r' where r': "(r, r') \<in> term_edges m" "(r', r) \<in> (term_edges m)\<^sup>*" by (auto dest: tranclD)
    have "r = ToValue v" using scoped_value.prems by simp
    then have "r' \<in> set (value_references (value_term n))" and term_entry: "r' \<in> term_references"
      using r'(1) scoped_value.hyps(1) by (auto simp: term_edges_def)
    then obtain u where u: "u \<in> set (value_visits m v depth rigids (value_term n))" "r' \<in> visited m u"
      using value_visits_references [of m v depth rigids "value_term n"] scoped_value.hyps(2) by auto
    then have "visited_term m u = Some r'" using visited_terms term_entry by blast
    from scoped_value.IH [OF u(1) this] rtrancl_into_trancl1 [OF r'(2,1)] show False by contradiction
  qed
next
  case (scoped_computation c n depth rigids)
  show ?case
  proof
    assume "(r, r) \<in> (term_edges m)\<^sup>+"
    then obtain r' where r': "(r, r') \<in> term_edges m" "(r', r) \<in> (term_edges m)\<^sup>*" by (auto dest: tranclD)
    have "r = ToComputation c" using scoped_computation.prems by simp
    then have "r' \<in> set (computation_references (computation_term n))" and term_entry: "r' \<in> term_references"
      using r'(1) scoped_computation.hyps(1) by (auto simp: term_edges_def)
    then obtain u where u: "u \<in> set (computation_visits c depth rigids (computation_term n))" "r' \<in> visited m u"
      using computation_visits_references [of c depth rigids "computation_term n" m] scoped_computation.hyps(2) by auto
    then have "visited_term m u = Some r'" using visited_terms term_entry by blast
    from scoped_computation.IH [OF u(1) this] rtrancl_into_trancl1 [OF r'(2,1)] show False by contradiction
  qed
qed simp_all

lemma visit_effect_row_returns:
  "references_present m \<Longrightarrow> walk_sized m w \<Longrightarrow> effect_row_at m r \<noteq> None \<Longrightarrow>
     \<exists>w'. visit_effect_row m r w = Inr w' \<and> walk_sized m w'"
proof (induction "unmarked_rows w" arbitrary: r w rule: less_induct)
  case less
  obtain i n where r: "r = EffectRowId i" "effect_row_at m (EffectRowId i) = Some n"
    using less.prems(3) by (cases r) auto
  have i: "arena_offset i < length (reachable_effect_rows w)"
    using r(2) less.prems(2) by (simp add: walk_sized_def entry_iff)
  note unfolded = visit_effect_row.simps [of m i w]
  show ?case
  proof (cases "reachable_effect_rows w ! arena_offset i")
    case True
    with i less.prems(2) show ?thesis unfolding r(1) unfolded by simp
  next
    case False
    let ?w1 = "mark (ToOrigin (effect_row_origin n)) (mark (ToEffectRow r) w)"
    have refs: "present (qmodule_arena m) r'" if "r' \<in> set (node_references m (ToEffectRow r))" for r'
      using references_presentD(1) [OF less.prems(1) that] .
    have origin: "present (qmodule_arena m) (ToOrigin (effect_row_origin n))"
      by (rule refs) (use r in \<open>simp del: effect_row_at.simps\<close>)
    have step: "visit_effect_row m r w = (case row_of n of ExtendRow _ tail \<Rightarrow> visit_effect_row m tail ?w1 | _ \<Rightarrow> Inr ?w1)"
      unfolding r(1) unfolded using i False r origin by (simp add: mark_origin_present r(1) del: mark.simps)
    have fewer: "unmarked_rows ?w1 < unmarked_rows w"
      using unmarked_rows_mark [OF i False, of m "FromEffectRow r" "effect_row_origin n" ?w1] origin by (simp add: r(1))
    show ?thesis
    proof (cases "row_of n")
      case (ExtendRow e tail)
      have "present (qmodule_arena m) (ToEffectRow tail)" by (rule refs) (use r ExtendRow in \<open>simp del: effect_row_at.simps\<close>)
      then have "effect_row_at m tail \<noteq> None" by (cases tail) (simp add: entry_def)
      with less.hyps [OF fewer less.prems(1), of tail] less.prems(2) step ExtendRow show ?thesis by simp
    qed (use step less.prems(2) in simp_all)
  qed
qed

lemma visit_grade_returns:
  assumes "references_present m" "walk_sized m w" "grade_at m g \<noteq> None"
  shows "\<exists>w'. visit_grade m g w = Inr w' \<and> walk_sized m w'"
proof -
  obtain n where n: "grade_at m g = Some n" using assms(3) by blast
  have "present (qmodule_arena m) (ToOrigin (grade_origin n))"
    by (rule references_presentD(1) [OF assms(1), of _ "ToGrade g"]) (simp add: n)
  with n assms(2) show ?thesis by (auto simp: visit_grade_def)
qed

lemma fold_returns:
  assumes "\<And>u w. u \<in> set us \<Longrightarrow> walk_sized m w \<Longrightarrow> \<exists>w'. f u w = Inr w' \<and> walk_sized m w'" "walk_sized m w"
  shows "\<exists>w'. fold_each f us w = Inr w' \<and> walk_sized m w'"
  using assms
proof (induction us arbitrary: w)
  case (Cons u us)
  then obtain w1 where "f u w = Inr w1" "walk_sized m w1" by force
  with Cons show ?case by simp
qed simp

lemma visit_term_returns:
  "well_scoped m u \<Longrightarrow> references_present m \<Longrightarrow> walk_sized m w \<Longrightarrow>
     (\<And>r r'. r \<in> active \<Longrightarrow> visited_term m u = Some r' \<Longrightarrow> (r, r') \<in> (term_edges m)\<^sup>+) \<Longrightarrow>
     \<exists>w'. visit_term m active u w = Inr w' \<and> walk_sized m w'"
proof (induction arbitrary: active w rule: well_scoped.induct)
  case (scoped_value v n depth rigids)
  have fresh: "ToValue v \<notin> active"
    using well_scoped_acyclic [OF well_scoped.scoped_value [OF scoped_value.hyps]] scoped_value.prems(3) by force
  have origin: "present (qmodule_arena m) (ToOrigin (value_origin n))"
    by (rule references_presentD(1) [OF scoped_value.prems(1), of _ "ToValue v"]) (simp add: scoped_value.hyps(1))
  let ?w1 = "mark (ToOrigin (value_origin n))
      (mark (ToValue v) (w\<lparr>scoped_terms := insert (ScopedValue v depth rigids) (scoped_terms w)\<rparr>))"
  let ?visits = "value_visits m v depth rigids (value_term n)"
  have "\<exists>w'. fold_each (visit_term m (insert (ToValue v) active)) ?visits ?w1 = Inr w' \<and> walk_sized m w'"
  proof (rule fold_returns)
    fix u x assume u: "u \<in> set ?visits" and x: "walk_sized m x"
    have edge: "(ToValue v, r') \<in> term_edges m" if "visited_term m u = Some r'" for r'
      using that value_visits_within [OF u] visited_terms [of r' m u] scoped_value.hyps(1)
      by (auto simp: term_edges_def)
    show "\<exists>w'. visit_term m (insert (ToValue v) active) u x = Inr w' \<and> walk_sized m w'"
      by (rule scoped_value.IH [OF u scoped_value.prems(1) x])
        (use edge scoped_value.prems(3) in \<open>auto intro: trancl_into_trancl\<close>)
  qed (use scoped_value.prems(2) in simp)
  with fresh origin scoped_value.hyps(1) scoped_value.prems(2) show ?case
    unfolding visit_term.simps by (auto simp: mark_origin_present)
next
  case (scoped_computation c n depth rigids)
  have fresh: "ToComputation c \<notin> active"
    using well_scoped_acyclic [OF well_scoped.scoped_computation [OF scoped_computation.hyps]]
      scoped_computation.prems(3) by force
  have origin: "present (qmodule_arena m) (ToOrigin (computation_origin n))"
    by (rule references_presentD(1) [OF scoped_computation.prems(1), of _ "ToComputation c"])
      (simp add: scoped_computation.hyps(1))
  let ?w1 = "mark (ToOrigin (computation_origin n))
      (mark (ToComputation c) (w\<lparr>scoped_terms := insert (ScopedComputation c depth rigids) (scoped_terms w)\<rparr>))"
  let ?visits = "computation_visits c depth rigids (computation_term n)"
  have "\<exists>w'. fold_each (visit_term m (insert (ToComputation c) active)) ?visits ?w1 = Inr w' \<and> walk_sized m w'"
  proof (rule fold_returns)
    fix u x assume u: "u \<in> set ?visits" and x: "walk_sized m x"
    have edge: "(ToComputation c, r') \<in> term_edges m" if "visited_term m u = Some r'" for r'
      using that computation_visits_within [OF u, of m] visited_terms [of r' m u] scoped_computation.hyps(1)
      by (auto simp: term_edges_def)
    show "\<exists>w'. visit_term m (insert (ToComputation c) active) u x = Inr w' \<and> walk_sized m w'"
      by (rule scoped_computation.IH [OF u scoped_computation.prems(1) x])
        (use edge scoped_computation.prems(3) in \<open>auto intro: trancl_into_trancl\<close>)
  qed (use scoped_computation.prems(2) in simp)
  with fresh origin scoped_computation.hyps(1) scoped_computation.prems(2) show ?case
    unfolding visit_term.simps by (auto simp: mark_origin_present)
next
  case (scoped_proof p n depth rigids)
  have origin: "present (qmodule_arena m) (ToOrigin (proof_origin n))"
    by (rule references_presentD(1) [OF scoped_proof.prems(1), of _ "ToProof p"]) (simp add: scoped_proof.hyps(1))
  have "\<exists>w'. visit_term m active (VisitValue (proof_proposition n) depth rigids)
      (mark (ToOrigin (proof_origin n)) (mark (ToProof p) w)) = Inr w' \<and> walk_sized m w'"
    by (rule scoped_proof.IH [OF scoped_proof.prems(1)]) (use scoped_proof.prems(2,3) scoped_proof.hyps(1) in auto)
  with origin scoped_proof.hyps(1) show ?case
    unfolding visit_term.simps by (auto simp: mark_origin_present)
next
  case (scoped_row r)
  with visit_effect_row_returns show ?case by (simp add: visit_term.simps)
next
  case (scoped_grade g)
  with visit_grade_returns show ?case by (simp add: visit_term.simps)
qed

section \<open>Modules\<close>

text \<open>The roots in the order they are visited, as origins and visits.\<close>

definition root_visits :: "qmodule \<Rightarrow> visit list" where
  "root_visits m = concat (map (\<lambda>d. body_visits (definition_body_of d)) (qmodule_definitions m))"

definition root_origins :: "qmodule \<Rightarrow> source_origin_id list" where
  "root_origins m = map reference_origin (declared_references m)"

definition well_scoped_roots :: "qmodule \<Rightarrow> bool" where
  "well_scoped_roots m \<longleftrightarrow> (\<forall>u \<in> set (root_visits m). well_scoped m u)"

lemma body_visits_references: "(\<Union>u \<in> set (body_visits b). visited m u) = set (body_references b)"
  by (cases b) auto

lemma root_references_split:
  "set (root_references m) = ToOrigin ` set (root_origins m) \<union> (\<Union>u \<in> set (root_visits m). visited m u)"
  by (auto simp: root_references_def root_origins_def root_visits_def declared_references_def
      simp flip: body_visits_references [where m = m])

lemma walking_initial: "walking m {} (initial_scope_walk (qmodule_arena m))"
proof -
  have "\<not> marked (initial_scope_walk (qmodule_arena m)) r" for r
    by (cases "(initial_scope_walk (qmodule_arena m), r)" rule: marked.cases) (auto simp: initial_scope_walk_def)
  then show ?thesis
    by (simp add: walking_def walk_sized_def) (simp add: initial_scope_walk_def)
qed

lemma reachable_root: "r \<in> set (root_references m) \<Longrightarrow> reachable m r"
  by (auto simp: reachable_def)

lemma fold_origins:
  assumes "references_present m" "\<And>r. r \<in> set rs \<Longrightarrow> ToOrigin (reference_origin r) \<in> set (root_references m)"
    "walking m {} w"
  shows "\<exists>w'. fold_each (\<lambda>(i, r). mark_origin m (source i) (reference_origin r)) (enumerate k rs) w = Inr w' \<and>
    walking m {} w' \<and> walked m w w' \<and> (\<forall>r \<in> set rs. marked w' (ToOrigin (reference_origin r)))"
  using assms(2,3)
proof (induction rs arbitrary: w k)
  case (Cons r rs)
  let ?w1 = "mark (ToOrigin (reference_origin r)) w"
  have origin: "ToOrigin (reference_origin r) \<in> set (root_references m)" using Cons.prems(1) by simp
  note here = references_presentD(2) [OF assms(1) origin]
  have sized: "walk_sized m w" using Cons.prems(2) by (simp add: walking_def)
  have "walking m {} ?w1"
    by (rule walking_mark [OF Cons.prems(2) here reachable_root [OF origin]]) simp
  from Cons.IH [OF _ this, of "Suc k"] Cons.prems(1) obtain w' where
    w': "fold_each (\<lambda>(i, r). mark_origin m (source i) (reference_origin r)) (enumerate (Suc k) rs) ?w1 = Inr w'"
    "walking m {} w'" "walked m ?w1 w'" "\<forall>r \<in> set rs. marked w' (ToOrigin (reference_origin r))"
    by auto
  have "marked w' (ToOrigin (reference_origin r))"
    using w'(3) marked_mark [OF sized here] by (simp add: walked_def)
  with w' walked_trans [OF walked_mark [OF sized here] w'(3)] show ?case
    by (simp add: mark_origin_present [OF here] and_then_def)
qed simp

lemma visit_definition_walks:
  assumes "references_present m" "d \<in> set (qmodule_definitions m)" "walking m {} w"
    and "visit_definition m (i, d) w = Inr w'"
  shows "walking m {} w' \<and> walked m w w' \<and> marked w' (ToOrigin (reference_origin (definition_reference_of d))) \<and>
    (\<forall>u \<in> set (body_visits (definition_body_of d)). well_scoped m u \<and> (\<forall>r \<in> visited m u. marked w' r))"
proof -
  let ?origin = "reference_origin (definition_reference_of d)"
  let ?visits = "body_visits (definition_body_of d)"
  let ?w1 = "mark (ToOrigin ?origin) w"
  have roots: "set (ToOrigin ?origin # body_references (definition_body_of d)) \<subseteq> set (root_references m)"
    using assms(2) by (auto simp: root_references_def)
  have here: "present (qmodule_arena m) (ToOrigin ?origin)"
    using references_presentD(2) [OF assms(1)] roots by simp
  have sized: "walk_sized m w" using assms(3) by (simp add: walking_def)
  have run: "fold_each (visit_term m {}) ?visits ?w1 = Inr w'"
    using assms(4) here by (simp add: visit_definition_def mark_origin_present)
  have w1: "walking m {} ?w1"
    by (rule walking_mark [OF assms(3) here]) (use roots reachable_root in auto)
  have "walking m {} w' \<and> walked m ?w1 w' \<and> (\<forall>u \<in> set ?visits. well_scoped m u \<and> (\<forall>r \<in> visited m u. marked w' r))"
  proof (rule fold_walks [OF run w1])
    fix u x x' assume u: "u \<in> set ?visits" and x: "visit_term m {} u x = Inr x'" "walking m {} x"
    have "reachable m r" if "r \<in> visited m u" for r
    proof (rule reachable_root)
      have "r \<in> (\<Union>u \<in> set ?visits. visited m u)" using that u by blast
      then show "r \<in> set (root_references m)" using roots by (auto simp: body_visits_references)
    qed
    then show "walks m {} u x x'" by (intro visit_term_walks [OF x(1) assms(1) x(2)]) auto
  qed
  moreover have "walked m w ?w1" by (rule walked_mark [OF sized here])
  moreover have "marked ?w1 (ToOrigin ?origin)" using marked_mark [OF sized here] by simp
  ultimately show ?thesis using walked_trans unfolding walked_def by blast
qed

lemma visit_definitions_walks:
  assumes "references_present m"
  shows "set ds \<subseteq> set (qmodule_definitions m) \<Longrightarrow> walking m {} w \<Longrightarrow>
    fold_each (visit_definition m) (enumerate k ds) w = Inr w' \<Longrightarrow>
    walking m {} w' \<and> walked m w w' \<and>
    (\<forall>d \<in> set ds. marked w' (ToOrigin (reference_origin (definition_reference_of d))) \<and>
      (\<forall>u \<in> set (body_visits (definition_body_of d)). well_scoped m u \<and> (\<forall>r \<in> visited m u. marked w' r)))"
proof (induction ds arbitrary: w k)
  case (Cons d ds)
  then obtain w1 where w1: "visit_definition m (k, d) w = Inr w1"
    "fold_each (visit_definition m) (enumerate (Suc k) ds) w1 = Inr w'"
    by (auto simp: and_then_eq_Inr)
  note one = visit_definition_walks [OF assms _ Cons.prems(2) w1(1)]
  then have "walking m {} w1" using Cons.prems(1) by simp
  with Cons.IH [OF _ this w1(2)] Cons.prems(1) one walked_trans [of m w w1 w'] show ?case
    unfolding walked_def by auto
qed simp

lemma visit_roots_walks:
  assumes "references_present m" "visit_roots m (initial_scope_walk (qmodule_arena m)) = Inr w"
  shows "walking m {} w \<and> well_scoped_roots m \<and> (\<forall>r \<in> set (root_references m). marked w r)"
proof -
  let ?w0 = "initial_scope_walk (qmodule_arena m)"
  have "ToOrigin (reference_origin r) \<in> set (root_references m)" if "r \<in> set (qmodule_imports m)" for r
    using that by (simp add: root_references_def)
  from fold_origins [OF assms(1) this walking_initial, where source = FromImport and k = 0]
  obtain w1 where w1: "fold_each (\<lambda>(i, r). mark_origin m (FromImport i) (reference_origin r))
      (enumerate 0 (qmodule_imports m)) ?w0 = Inr w1" "walking m {} w1"
    "\<forall>r \<in> set (qmodule_imports m). marked w1 (ToOrigin (reference_origin r))" by blast
  have "fold_each (visit_definition m) (enumerate 0 (qmodule_definitions m)) w1 = Inr w"
    using assms(2) w1(1) by (simp add: visit_roots_def)
  from visit_definitions_walks [OF assms(1) subset_refl w1(2) this]
  have after: "walking m {} w" "walked m w1 w"
    "\<forall>d \<in> set (qmodule_definitions m). marked w (ToOrigin (reference_origin (definition_reference_of d))) \<and>
      (\<forall>u \<in> set (body_visits (definition_body_of d)). well_scoped m u \<and> (\<forall>r \<in> visited m u. marked w r))" by auto
  have "marked w r" if "r \<in> set (root_references m)" for r
    using that after(2,3) w1(3) unfolding root_references_split root_origins_def root_visits_def declared_references_def
    by (auto simp: walked_def)
  moreover have "well_scoped_roots m"
    using after(3) by (auto simp: well_scoped_roots_def root_visits_def)
  ultimately show ?thesis using after(1) by blast
qed

lemma visit_roots_returns:
  assumes "references_present m" "well_scoped_roots m"
  shows "\<exists>w. visit_roots m (initial_scope_walk (qmodule_arena m)) = Inr w"
proof -
  let ?w0 = "initial_scope_walk (qmodule_arena m)"
  have "ToOrigin (reference_origin r) \<in> set (root_references m)" if "r \<in> set (qmodule_imports m)" for r
    using that by (simp add: root_references_def)
  from fold_origins [OF assms(1) this walking_initial, where source = FromImport and k = 0]
  obtain w1 where w1: "fold_each (\<lambda>(i, r). mark_origin m (FromImport i) (reference_origin r))
      (enumerate 0 (qmodule_imports m)) ?w0 = Inr w1" "walking m {} w1" by blast
  then have sized: "walk_sized m w1" by (simp add: walking_def)
  have "\<exists>w. fold_each (visit_definition m) (enumerate 0 (qmodule_definitions m)) w1 = Inr w \<and> walk_sized m w"
  proof (rule fold_returns [OF _ sized])
    fix p w assume "p \<in> set (enumerate 0 (qmodule_definitions m))" and sized: "walk_sized m w"
    obtain i d where p: "p = (i, d)" by force
    then have d: "p = (i, d)" "d \<in> set (qmodule_definitions m)"
      using \<open>p \<in> _\<close> by (auto simp: in_set_enumerate_eq)
    then have origin: "present (qmodule_arena m) (ToOrigin (reference_origin (definition_reference_of d)))"
      by (intro references_presentD(2) [OF assms(1)]) (auto simp: root_references_def)
    have "\<exists>w'. fold_each (visit_term m {}) (body_visits (definition_body_of d))
        (mark (ToOrigin (reference_origin (definition_reference_of d))) w) = Inr w' \<and> walk_sized m w'"
    proof (rule fold_returns)
      fix u x assume "u \<in> set (body_visits (definition_body_of d))" "walk_sized m x"
      then show "\<exists>w'. visit_term m {} u x = Inr w' \<and> walk_sized m w'"
        using assms(2) d(2) by (intro visit_term_returns [OF _ assms(1)]) (auto simp: well_scoped_roots_def root_visits_def)
    qed (use sized in simp)
    then show "\<exists>w'. visit_definition m p w = Inr w' \<and> walk_sized m w'"
      by (simp add: visit_definition_def d(1) mark_origin_present [OF origin])
  qed
  then show ?thesis using w1(1) by (auto simp: visit_roots_def)
qed

lemma ensure_reachable_Inr:
  assumes "length flags < 2 ^ 32"
  shows "ensure_reachable flags reference = Inr u \<longleftrightarrow> (\<forall>i. arena_offset i < length flags \<longrightarrow> flag_at flags i)"
proof -
  have step: "(if \<not> b then Inl e else Inr ()) = Inr () \<longleftrightarrow> b" for b and e :: validation_error by simp
  have "(\<forall>i < length flags. flags ! i) \<longleftrightarrow> (\<forall>i. arena_offset i < length flags \<longrightarrow> flags ! arena_offset i)"
  proof
    assume all: "\<forall>i. arena_offset i < length flags \<longrightarrow> flags ! arena_offset i"
    show "\<forall>i < length flags. flags ! i"
    proof (intro allI impI)
      fix i assume "i < length flags"
      with all [rule_format, of "arena_index i"] assms show "flags ! i" by simp
    qed
  qed simp
  then show ?thesis
    unfolding ensure_reachable_def check_each_enumerate by (simp add: step)
qed

definition all_reachable :: "qmodule \<Rightarrow> bool" where
  "all_reachable m \<longleftrightarrow> (\<forall>r. present (qmodule_arena m) r \<longrightarrow> reachable m r)"

lemma all_references:
  "(\<forall>r. P r) \<longleftrightarrow> (\<forall>i. P (ToOrigin (SourceOriginId i))) \<and> (\<forall>i. P (ToValue (ValueId i))) \<and>
     (\<forall>i. P (ToComputation (ComputationId i))) \<and> (\<forall>i. P (ToEffectRow (EffectRowId i))) \<and>
     (\<forall>i. P (ToGrade (GradeId i))) \<and> (\<forall>i. P (ToProof (ProofId i)))"
  by (metis arena_reference.exhaust source_origin_id.exhaust value_id.exhaust computation_id.exhaust
      effect_row_id.exhaust grade_id.exhaust proof_id.exhaust)

lemma validate_reachability_marked:
  assumes "bounded_arenas m" "walk_sized m w"
  shows "validate_reachability w = Inr u \<longleftrightarrow> (\<forall>r. present (qmodule_arena m) r \<longrightarrow> marked w r)"
proof -
  have lens: "length (reachable_origins w) < 2 ^ 32" "length (reachable_values w) < 2 ^ 32"
    "length (reachable_computations w) < 2 ^ 32" "length (reachable_effect_rows w) < 2 ^ 32"
    "length (reachable_grades w) < 2 ^ 32" "length (reachable_proofs w) < 2 ^ 32"
    using assms by (simp_all add: bounded_arenas_def arena_lengths_def walk_sized_def)
  show ?thesis
    unfolding all_references present.simps marked.simps validate_reachability_def and_then_eq_Inr
      ensure_reachable_Inr [OF lens(1)] ensure_reachable_Inr [OF lens(2)] ensure_reachable_Inr [OF lens(3)]
      ensure_reachable_Inr [OF lens(4)] ensure_reachable_Inr [OF lens(5)] ensure_reachable_Inr [OF lens(6)]
    using assms(2) by (simp add: walk_sized_def del: flag_at.simps)
qed

lemma walking_closed:
  assumes "walking m {} w" "\<And>r. r \<in> set (root_references m) \<Longrightarrow> marked w r"
  shows "marked w r \<longleftrightarrow> reachable m r"
proof
  assume "reachable m r"
  then obtain root where root: "root \<in> set (root_references m)" "(root, r) \<in> (reference_edges m)\<^sup>*"
    by (auto simp: reachable_def)
  from root(2) show "marked w r"
  proof (induction rule: rtrancl_induct)
    case base
    show ?case by (rule assms(2) [OF root(1)])
  next
    case (step x y)
    then show ?case using assms(1) by (auto simp: walking_def reference_edges_def)
  qed
qed (use assms(1) in \<open>simp add: walking_def\<close>)

text \<open>A module the validator accepts, by what its parts mean.\<close>

definition valid_qmodule :: "decimals \<Rightarrow> qmodule \<Rightarrow> bool" where
  "valid_qmodule f m \<longleftrightarrow>
     schema_version m = qcore_schema_version \<and> bounded_arenas m \<and>
     (\<forall>s \<in> set (arena_origins (qmodule_arena m)). origin_start s \<le> origin_end s) \<and>
     references_present m \<and> numbered_proofs m \<and> distinct (declared_keys m) \<and> globals_declared m \<and>
     (\<forall>i < length (arena_effect_rows (qmodule_arena m)). canonical_row m (EffectRowId (arena_index i))) \<and>
     (\<forall>n \<in> set (arena_grades (qmodule_arena m)). \<exists>k. admits (interval_of n) k) \<and>
     (\<forall>n \<in> set (arena_values (qmodule_arena m)). canonical_structure f (value_term n)) \<and>
     well_scoped_roots m \<and> all_reachable m"

lemma validate_origins_Inr:
  "validate_origins m = Inr u \<longleftrightarrow> (\<forall>s \<in> set (arena_origins (qmodule_arena m)). origin_start s \<le> origin_end s)"
  by (auto simp: validate_origins_def all_set_conv_all_nth not_less)

lemma visits_and_reachability:
  assumes "bounded_arenas m" "references_present m"
  shows "(\<exists>w. visit_roots m (initial_scope_walk (qmodule_arena m)) = Inr w \<and> validate_reachability w = Inr u) \<longleftrightarrow>
    well_scoped_roots m \<and> all_reachable m" (is "?L \<longleftrightarrow> ?R")
proof -
  have reach: "validate_reachability w = Inr u \<longleftrightarrow> all_reachable m" and scoped: "well_scoped_roots m"
    if w: "visit_roots m (initial_scope_walk (qmodule_arena m)) = Inr w" for w
  proof -
    note walks = visit_roots_walks [OF assms(2) w]
    then show "well_scoped_roots m" by simp
    have "walk_sized m w" using walks by (simp add: walking_def)
    moreover have "marked w r \<longleftrightarrow> reachable m r" for r
      using walking_closed walks by blast
    ultimately show "validate_reachability w = Inr u \<longleftrightarrow> all_reachable m"
      using validate_reachability_marked [OF assms(1)] by (simp add: all_reachable_def)
  qed
  show ?thesis using reach scoped visit_roots_returns [OF assms(2)] by blast
qed

lemma validate_qmodule_Inr: "validate_qmodule f m = Inr u \<longleftrightarrow> valid_qmodule f m"
proof (cases "bounded_arenas m \<and> references_present m")
  case True
  then show ?thesis
    unfolding validate_qmodule_def valid_qmodule_def and_then_eq_Inr
    by (simp add: validate_schema_version_def validate_origins_Inr validate_references_Inr collect_definitions_Inr
        validate_global_definitions_Inr validate_effect_rows_Inr validate_grades_Inr validate_structural_types_Inr
        visits_and_reachability)
next
  case False
  then show ?thesis
    unfolding validate_qmodule_def valid_qmodule_def and_then_eq_Inr
    using validate_references_Inr [of m] by auto
qed

section \<open>Accepted modules have no cyclic term\<close>

lemma row_references_rows: "r \<in> set (row_references row) \<Longrightarrow> \<exists>tail. r = ToEffectRow tail"
  by (cases row) auto

lemma present_node: "node_references m r \<noteq> [] \<Longrightarrow> present (qmodule_arena m) r"
proof (cases r)
  case (ToValue v)
  then show "node_references m r \<noteq> [] \<Longrightarrow> ?thesis" by (cases v) (simp add: entry_def split: if_splits)
next
  case (ToComputation c)
  then show "node_references m r \<noteq> [] \<Longrightarrow> ?thesis" by (cases c) (simp add: entry_def split: if_splits)
next
  case (ToEffectRow e)
  then show "node_references m r \<noteq> [] \<Longrightarrow> ?thesis" by (cases e) (simp add: entry_def split: if_splits)
next
  case (ToGrade g)
  then show "node_references m r \<noteq> [] \<Longrightarrow> ?thesis" by (cases g) (simp add: entry_def split: if_splits)
next
  case (ToProof p)
  then show "node_references m r \<noteq> [] \<Longrightarrow> ?thesis" by (cases p) (simp add: entry_def split: if_splits)
qed simp

lemma well_scoped_step:
  assumes "well_scoped m u" "visited_term m u = Some r" "r' \<in> set (node_references m r)"
    and "r' \<in> term_references \<or> (\<exists>p. r' = ToProof p)"
  shows "\<exists>u'. well_scoped m u' \<and> r' \<in> visited m u'"
  using assms
proof (induction arbitrary: r r' rule: well_scoped.induct)
  case (scoped_value v n depth rigids)
  then have "r' \<in> set (value_references (value_term n))" by auto
  then show ?case
    using value_visits_references [of m v depth rigids "value_term n"] scoped_value.hyps(2) by blast
next
  case (scoped_computation c n depth rigids)
  then have "r' \<in> set (computation_references (computation_term n))" by auto
  then show ?case
    using computation_visits_references [of c depth rigids "computation_term n" m] scoped_computation.hyps(2) by blast
next
  case (scoped_proof p n depth rigids)
  then show ?case by simp
qed simp_all

lemma reachable_well_scoped:
  assumes "well_scoped_roots m" "reachable m r" "r \<in> term_references \<or> (\<exists>p. r = ToProof p)"
  shows "\<exists>u. well_scoped m u \<and> r \<in> visited m u"
proof -
  obtain root where root: "root \<in> set (root_references m)" "(root, r) \<in> (reference_edges m)\<^sup>*"
    using assms(2) by (auto simp: reachable_def)
  from root(2) assms(3) show ?thesis
  proof (induction rule: rtrancl_induct)
    case base
    with root(1) assms(1) show ?case
      by (auto simp: root_references_split well_scoped_roots_def)
  next
    case (step r r')
    have edge: "r' \<in> set (node_references m r)" using step.hyps(2) by (simp add: reference_edges_def)
    have "r \<in> term_references \<or> (\<exists>p. r = ToProof p)"
      using edge step.prems by (cases r) (auto split: option.splits dest!: row_references_rows)
    with step.IH obtain u where u: "well_scoped m u" "r \<in> visited m u" by blast
    show ?case
    proof (cases "r \<in> term_references")
      case True
      then have "visited_term m u = Some r" using u(2) visited_terms by blast
      from well_scoped_step [OF u(1) this edge step.prems] show ?thesis .
    next
      case False
      with \<open>r \<in> term_references \<or> _\<close> obtain p where p: "r = ToProof p" by blast
      with u(2) obtain depth rigids where "u = VisitProof p depth rigids" by (cases u) (auto split: option.splits)
      with edge p u(1) show ?thesis
        by (cases "proof_at m p") (use step.prems in \<open>auto intro!: exI [of _ u]\<close>)
    qed
  qed
qed

lemma accepted_no_cycle:
  assumes "valid_qmodule f m"
  shows "(r, r) \<notin> (term_edges m)\<^sup>+"
proof
  assume cycle: "(r, r) \<in> (term_edges m)\<^sup>+"
  then obtain r' where "(r, r') \<in> term_edges m" by (auto dest: tranclD)
  then have r: "r \<in> term_references" "node_references m r \<noteq> []" by (auto simp: term_edges_def)
  then have "present (qmodule_arena m) r" using present_node by blast
  then have "reachable m r" using assms by (simp add: valid_qmodule_def all_reachable_def)
  then obtain u where "well_scoped m u" "r \<in> visited m u"
    using reachable_well_scoped [of m r] r(1) assms unfolding valid_qmodule_def by blast
  then show False using well_scoped_acyclic visited_terms r(1) cycle by blast
qed

section \<open>The validator does not panic\<close>

lemma check_each_no_error: "(\<And>x. x \<in> set xs \<Longrightarrow> f x \<noteq> Inl e) \<Longrightarrow> check_each f xs \<noteq> Inl e"
  by (induction xs) (auto simp: and_then_eq_Inl)

lemma and_then_no_error: "r \<noteq> Inl e \<Longrightarrow> (\<And>x. r = Inr x \<Longrightarrow> k x \<noteq> Inl e) \<Longrightarrow> and_then r k \<noteq> Inl e"
  by (auto simp: and_then_eq_Inl)

lemmas no_panic_intros = and_then_no_error check_each_no_error fold_each_no_error

lemma ensure_targets_no_panic [simp]: "ensure_targets a source rs \<noteq> Inl OutOfRangePanic"
proof -
  have "ensure_target a source r \<noteq> Inl OutOfRangePanic" for r
    by (cases "(a, source, r)" rule: ensure_target.cases) (auto simp: ensure_reference_def)
  then show ?thesis by (simp add: ensure_targets_def check_each_no_error)
qed

lemma mark_origin_no_panic [simp]: "mark_origin m source origin w \<noteq> Inl OutOfRangePanic"
  by (cases origin) (auto simp: mark_origin_def and_then_eq_Inl ensure_reference_def split: if_splits)

lemma ensure_proof_entry_no_panic [simp]: "ensure_proof_entry a i p \<noteq> Inl OutOfRangePanic"
  by (simp add: ensure_proof_entry_def Let_def)

lemma validate_references_no_panic: "validate_references m \<noteq> Inl OutOfRangePanic"
  unfolding validate_references_def Let_def
  by (intro no_panic_intros) (simp_all add: case_prod_beta)

lemma collect_definitions_no_panic: "collect_definitions m \<noteq> Inl OutOfRangePanic"
  unfolding collect_definitions_def by (intro no_panic_intros) (simp add: insert_definition_def)

lemma validate_global_definitions_no_panic: "validate_global_definitions m table \<noteq> Inl OutOfRangePanic"
proof -
  have "check_global table t \<noteq> Inl OutOfRangePanic" for t
    by (cases t) (auto split: option.split)
  then show ?thesis unfolding validate_global_definitions_def by (intro no_panic_intros)
qed

lemma validate_effect_row_no_panic:
  "references_present m \<Longrightarrow> length states = length (arena_effect_rows (qmodule_arena m)) \<Longrightarrow>
     present (qmodule_arena m) (ToEffectRow r) \<Longrightarrow>
     validate_effect_row m r states \<noteq> Inl OutOfRangePanic \<and>
     (\<forall>states'. validate_effect_row m r states = Inr states' \<longrightarrow> length states' = length states)"
proof (induction "open_rows states" arbitrary: r states rule: less_induct)
  case less
  obtain i where r: "r = EffectRowId i" by (cases r)
  let ?rows = "arena_effect_rows (qmodule_arena m)"
  have i: "arena_offset i < length states" "arena_offset i < length ?rows"
    using less.prems(2,3) by (simp_all add: r)
  show ?case
  proof (cases "states ! arena_offset i = Unvisited")
    case False
    with i show ?thesis
      unfolding r validate_effect_row.simps [of m i states] Let_def by (cases "states ! arena_offset i") auto
  next
    case True
    have below: "validate_effect_row m tail (states[arena_offset i := Visiting]) \<noteq> Inl OutOfRangePanic \<and>
        (\<forall>states'. validate_effect_row m tail (states[arena_offset i := Visiting]) = Inr states' \<longrightarrow>
          length states' = length states)" if "row_of (?rows ! arena_offset i) = ExtendRow e tail" for e tail
    proof -
      have "present (qmodule_arena m) (ToEffectRow tail)"
        by (rule references_presentD(1) [OF less.prems(1), of _ "ToEffectRow r"])
          (use that i in \<open>simp add: r entry_def\<close>)
      with less.hyps [OF open_rows_update [OF i(1) True], of Visiting tail] less.prems(1,2) show ?thesis by simp
    qed
    show ?thesis
      unfolding r validate_effect_row.simps [of m i states] Let_def
      using i True below
      by (cases "row_of (?rows ! arena_offset i)")
        (auto simp: and_then_eq_Inl and_then_eq_Inr split: option.split if_splits)
  qed
qed

lemma validate_effect_rows_no_panic:
  assumes "bounded_arenas m" "references_present m"
  shows "validate_effect_rows m \<noteq> Inl OutOfRangePanic"
proof -
  let ?n = "length (arena_effect_rows (qmodule_arena m))"
  let ?step = "\<lambda>i. validate_effect_row m (EffectRowId (arena_index i))"
  have bound: "?n < 2 ^ 32" using assms(1) by (simp add: bounded_arenas_def arena_lengths_def)
  have "fold_each ?step is states \<noteq> Inl OutOfRangePanic" if "set is \<subseteq> {..<?n}" "length states = ?n" for "is" states
    using that
  proof (induction "is" arbitrary: states)
    case (Cons i "is")
    have "present (qmodule_arena m) (ToEffectRow (EffectRowId (arena_index i)))"
      using Cons.prems(1) bound by simp
    from validate_effect_row_no_panic [OF assms(2) Cons.prems(2) this] Cons show ?case
      by (auto simp: and_then_eq_Inl)
  qed simp
  then have "fold_each ?step [0..<?n] (replicate ?n Unvisited) \<noteq> Inl OutOfRangePanic"
    by (simp add: subset_eq)
  then show ?thesis
    unfolding validate_effect_rows_def Let_def by (intro and_then_no_error) simp_all
qed

lemma validate_structural_types_no_panic: "validate_structural_types f m \<noteq> Inl OutOfRangePanic"
proof -
  have labels: "validate_canonical_labels v labels \<noteq> Inl OutOfRangePanic" for v labels
    by (induction v labels rule: validate_canonical_labels.induct) auto
  have "validate_structural_type f v t \<noteq> Inl OutOfRangePanic" for v t
    by (cases t) (auto simp: labels validate_labeled_types_def and_then_eq_Inl split: if_splits)
  then show ?thesis
    unfolding validate_structural_types_def by (intro no_panic_intros) auto
qed

lemma validate_grades_no_panic: "validate_grades m \<noteq> Inl OutOfRangePanic"
  unfolding validate_grades_def
  by (intro no_panic_intros) (auto simp: validate_grade_interval_def split: grade_upper_bound.splits if_splits)

lemma visit_effect_row_no_panic:
  "references_present m \<Longrightarrow> walk_sized m w \<Longrightarrow> present (qmodule_arena m) (ToEffectRow r) \<Longrightarrow>
     visit_effect_row m r w \<noteq> Inl OutOfRangePanic"
  using visit_effect_row_returns [of m w r] by (cases r) (fastforce simp: entry_def)

lemma visit_grade_no_panic:
  "references_present m \<Longrightarrow> walk_sized m w \<Longrightarrow> present (qmodule_arena m) (ToGrade g) \<Longrightarrow>
     visit_grade m g w \<noteq> Inl OutOfRangePanic"
  using visit_grade_returns [of m w g] by (cases g) (fastforce simp: entry_def)

text \<open>A visit that returns leaves the flag vectors at their length.\<close>

lemma visit_effect_row_sized:
  "visit_effect_row m r w = Inr w' \<Longrightarrow> walk_sized m w \<Longrightarrow> walk_sized m w'"
proof (induction m r w arbitrary: w' rule: visit_effect_row.induct)
  case (1 m i w)
  show ?case
  proof (cases "arena_offset i \<ge> length (reachable_effect_rows w) \<or> reachable_effect_rows w ! arena_offset i")
    case True
    with "1.prems" show ?thesis unfolding visit_effect_row.simps [of m i w] by (auto split: if_splits)
  next
    case False
    then obtain n where n: "effect_row_at m (EffectRowId i) = Some n"
      using "1.prems"(1) unfolding visit_effect_row.simps [of m i w] by (auto split: option.splits)
    let ?w1 = "mark (ToOrigin (effect_row_origin n)) (mark (ToEffectRow (EffectRowId i)) w)"
    have origin: "present (qmodule_arena m) (ToOrigin (effect_row_origin n))"
      and step: "(case row_of n of ExtendRow _ tail \<Rightarrow> visit_effect_row m tail ?w1 | _ \<Rightarrow> Inr ?w1) = Inr w'"
      using "1.prems"(1) False n unfolding visit_effect_row.simps [of m i w] by (auto simp: and_then_eq_Inr simp del: mark.simps)
    show ?thesis
    proof (cases "row_of n")
      case (ExtendRow e tail)
      with "1.IH" [of n ?w1 e tail w'] step "1.prems"(2) False n origin show ?thesis
        by (simp add: not_le del: mark.simps)
    qed (use step "1.prems"(2) in \<open>auto simp del: mark.simps\<close>)
  qed
qed

lemma visit_grade_sized: "visit_grade m g w = Inr w' \<Longrightarrow> walk_sized m w \<Longrightarrow> walk_sized m w'"
  by (auto simp: visit_grade_def simp del: mark.simps split: option.splits if_splits)

lemma fold_sized:
  "fold_each f us w = Inr w' \<Longrightarrow> (\<And>u w w'. u \<in> set us \<Longrightarrow> f u w = Inr w' \<Longrightarrow> walk_sized m w \<Longrightarrow> walk_sized m w') \<Longrightarrow>
     walk_sized m w \<Longrightarrow> walk_sized m w'"
  by (erule fold_each_invariant) blast+

lemma visit_term_sized:
  "visit_term m active u w = Inr w' \<Longrightarrow> walk_sized m w \<Longrightarrow> walk_sized m w'"
proof (induction m active u w arbitrary: w' rule: visit_term.induct)
  case (1 m active v depth rigids w)
  note step = "1.prems"(1) [unfolded visit_term.simps(1)]
  show ?case
  proof (cases "ToValue v \<in> active \<or> ScopedValue v depth rigids \<in> scoped_terms w")
    case True
    with step "1.prems"(2) show ?thesis by (auto split: if_splits)
  next
    case False
    then obtain n where n: "value_at m v = Some n" using step by (auto split: option.splits)
    from step False n have run: "fold_each (visit_term m (insert (ToValue v) active))
        (value_visits m v depth rigids (value_term n)) (mark (ToOrigin (value_origin n))
      (mark (ToValue v) (w\<lparr>scoped_terms := insert (ScopedValue v depth rigids) (scoped_terms w)\<rparr>))) = Inr w'"
      and origin: "mark_origin m (FromValue v) (value_origin n)
      (mark (ToValue v) (w\<lparr>scoped_terms := insert (ScopedValue v depth rigids) (scoped_terms w)\<rparr>)) =
      Inr (mark (ToOrigin (value_origin n)) (mark (ToValue v) (w\<lparr>scoped_terms := insert (ScopedValue v depth rigids) (scoped_terms w)\<rparr>)))"
      by (auto simp: and_then_eq_Inr simp del: mark.simps)
    show ?thesis
      by (rule fold_sized [OF run]) (use "1.IH" [OF _ _ n origin] False "1.prems"(2) in auto)
  qed
next
  case (2 m active c depth rigids w)
  note step = "2.prems"(1) [unfolded visit_term.simps(2)]
  show ?case
  proof (cases "ToComputation c \<in> active \<or> ScopedComputation c depth rigids \<in> scoped_terms w")
    case True
    with step "2.prems"(2) show ?thesis by (auto split: if_splits)
  next
    case False
    then obtain n where n: "computation_at m c = Some n" using step by (auto split: option.splits)
    from step False n have run: "fold_each (visit_term m (insert (ToComputation c) active))
        (computation_visits c depth rigids (computation_term n)) (mark (ToOrigin (computation_origin n))
      (mark (ToComputation c) (w\<lparr>scoped_terms := insert (ScopedComputation c depth rigids) (scoped_terms w)\<rparr>))) = Inr w'"
      and origin: "mark_origin m (FromComputation c) (computation_origin n)
      (mark (ToComputation c) (w\<lparr>scoped_terms := insert (ScopedComputation c depth rigids) (scoped_terms w)\<rparr>)) =
      Inr (mark (ToOrigin (computation_origin n))
        (mark (ToComputation c) (w\<lparr>scoped_terms := insert (ScopedComputation c depth rigids) (scoped_terms w)\<rparr>)))"
      by (auto simp: and_then_eq_Inr simp del: mark.simps)
    show ?thesis
      by (rule fold_sized [OF run]) (use "2.IH" [OF _ _ n origin] False "2.prems"(2) in auto)
  qed
next
  case (3 m active p depth rigids w)
  note step = "3.prems"(1) [unfolded visit_term.simps(3)]
  obtain n where n: "proof_at m p = Some n" using step by (auto split: option.splits)
  from step n "3.IH" [OF n] "3.prems"(2) show ?case by (auto simp: and_then_eq_Inr simp del: mark.simps)
qed (auto simp: visit_term.simps intro: visit_effect_row_sized visit_grade_sized)

text \<open>With references in range, no visit indexes out of range.\<close>

lemma value_visits_no_panic:
  "references_present m \<Longrightarrow> value_at m v = Some n \<Longrightarrow> Refuse OutOfRangePanic \<notin> set (value_visits m v depth rigids (value_term n))"
proof
  assume present: "references_present m" and n: "value_at m v = Some n"
    and panic: "Refuse OutOfRangePanic \<in> set (value_visits m v depth rigids (value_term n))"
  have refs: "present (qmodule_arena m) r" if "r \<in> set (value_references (value_term n))" for r
    by (rule references_presentD(1) [OF present, of _ "ToValue v"]) (simp add: n that)
  have extend: "extend_rigids v' rs vs \<noteq> Inl OutOfRangePanic" for v' rs vs
    by (induction v' rs vs rule: extend_rigids.induct) auto
  have deep: "deeper s depth (\<lambda>d. VisitValue x d rigids) \<noteq> Refuse OutOfRangePanic"
    "deeper s depth (\<lambda>d. VisitComputation c d rigids) \<noteq> Refuse OutOfRangePanic" for s x c
    by (auto simp: deeper_def split: option.split)
  show False
  proof (cases "value_term n")
    case (ProofValue p q)
    obtain i where i: "p = ProofId i" by (cases p)
    have "present (qmodule_arena m) (ToProof p)" by (rule refs) (simp add: ProofValue)
    with panic ProofValue i show False by (auto simp: entry_def split: if_splits)
  next
    case (StructuralForall variables body)
    with panic extend show False by (auto split: sum.splits)
  qed (use panic deep in \<open>auto split: if_splits\<close>)
qed

lemma computation_visits_no_panic: "Refuse OutOfRangePanic \<notin> set (computation_visits c depth rigids t)"
proof -
  have "Refuse OutOfRangePanic \<noteq> deeper s depth (\<lambda>d. VisitComputation x d rigids)" for s x
    by (auto simp: deeper_def split: option.split)
  then show ?thesis by (cases t) auto
qed

lemma fold_no_panic:
  assumes "\<And>u w. u \<in> set us \<Longrightarrow> walk_sized m w \<Longrightarrow> f u w \<noteq> Inl OutOfRangePanic"
    and "\<And>u w w'. u \<in> set us \<Longrightarrow> f u w = Inr w' \<Longrightarrow> walk_sized m w \<Longrightarrow> walk_sized m w'"
    and "walk_sized m w"
  shows "fold_each f us w \<noteq> Inl OutOfRangePanic"
  using assms
proof (induction us arbitrary: w)
  case (Cons u us)
  show ?case
  proof (cases "f u w")
    case (Inr w1)
    then have "walk_sized m w1" using Cons.prems(2) [of u w w1] Cons.prems(3) by simp
    then have "fold_each f us w1 \<noteq> Inl OutOfRangePanic"
      by (intro Cons.IH Cons.prems(1)) (auto intro: Cons.prems(2))
    with Inr show ?thesis by simp
  qed (use Cons.prems(1) [of u w] Cons.prems(3) in auto)
qed simp

fun visit_present :: "qmodule \<Rightarrow> visit \<Rightarrow> bool" where
  "visit_present m (Refuse e) \<longleftrightarrow> e \<noteq> OutOfRangePanic"
| "visit_present m u \<longleftrightarrow> present (qmodule_arena m) (visited_reference u)"

lemma visit_present_child:
  assumes "visited m u \<subseteq> R" "\<And>r. r \<in> R \<Longrightarrow> present (qmodule_arena m) r" "u \<noteq> Refuse OutOfRangePanic"
  shows "visit_present m u"
  using assms by (cases u) auto

lemma visit_term_no_panic:
  "references_present m \<Longrightarrow> walk_sized m w \<Longrightarrow> visit_present m u \<Longrightarrow> visit_term m active u w \<noteq> Inl OutOfRangePanic"
proof (induction m active u w rule: visit_term.induct)
  case (1 m active v depth rigids w)
  show ?case
  proof (cases "ToValue v \<in> active \<or> ScopedValue v depth rigids \<in> scoped_terms w")
    case True
    then show ?thesis unfolding visit_term.simps(1) by auto
  next
    case False
    obtain n where n: "value_at m v = Some n" using "1.prems"(3) by (cases v) (simp add: entry_def)
    let ?w1 = "mark (ToOrigin (value_origin n))
      (mark (ToValue v) (w\<lparr>scoped_terms := insert (ScopedValue v depth rigids) (scoped_terms w)\<rparr>))"
    have refs: "present (qmodule_arena m) r" if "r \<in> set (node_references m (ToValue v))" for r
      using references_presentD(1) [OF "1.prems"(1) that] .
    have origin: "mark_origin m (FromValue v) (value_origin n)
      (mark (ToValue v) (w\<lparr>scoped_terms := insert (ScopedValue v depth rigids) (scoped_terms w)\<rparr>)) = Inr ?w1"
      by (rule mark_origin_present [OF refs]) (simp add: n)
    have "fold_each (visit_term m (insert (ToValue v) active)) (value_visits m v depth rigids (value_term n)) ?w1
        \<noteq> Inl OutOfRangePanic"
    proof (rule fold_no_panic)
      fix u x assume u: "u \<in> set (value_visits m v depth rigids (value_term n))" and x: "walk_sized m x"
      have "visit_present m u"
        by (rule visit_present_child [OF value_visits_within [OF u] refs])
          (use u value_visits_no_panic [OF "1.prems"(1) n] n in auto)
      with "1.IH" [OF _ _ n origin u "1.prems"(1) x] False
      show "visit_term m (insert (ToValue v) active) u x \<noteq> Inl OutOfRangePanic" by simp
    qed (use "1.prems"(2) visit_term_sized in auto)
    with False n show ?thesis unfolding visit_term.simps(1) by (simp add: origin)
  qed
next
  case (2 m active c depth rigids w)
  show ?case
  proof (cases "ToComputation c \<in> active \<or> ScopedComputation c depth rigids \<in> scoped_terms w")
    case True
    then show ?thesis unfolding visit_term.simps(2) by auto
  next
    case False
    obtain n where n: "computation_at m c = Some n" using "2.prems"(3) by (cases c) (simp add: entry_def)
    let ?w1 = "mark (ToOrigin (computation_origin n))
      (mark (ToComputation c) (w\<lparr>scoped_terms := insert (ScopedComputation c depth rigids) (scoped_terms w)\<rparr>))"
    have refs: "present (qmodule_arena m) r" if "r \<in> set (node_references m (ToComputation c))" for r
      using references_presentD(1) [OF "2.prems"(1) that] .
    have origin: "mark_origin m (FromComputation c) (computation_origin n)
      (mark (ToComputation c) (w\<lparr>scoped_terms := insert (ScopedComputation c depth rigids) (scoped_terms w)\<rparr>)) = Inr ?w1"
      by (rule mark_origin_present [OF refs]) (simp add: n)
    have "fold_each (visit_term m (insert (ToComputation c) active))
        (computation_visits c depth rigids (computation_term n)) ?w1 \<noteq> Inl OutOfRangePanic"
    proof (rule fold_no_panic)
      fix u x assume u: "u \<in> set (computation_visits c depth rigids (computation_term n))" and x: "walk_sized m x"
      have "visit_present m u"
        by (rule visit_present_child [OF computation_visits_within [OF u] refs])
          (use u computation_visits_no_panic [of c depth rigids "computation_term n"] n in auto)
      with "2.IH" [OF _ _ n origin u "2.prems"(1) x] False
      show "visit_term m (insert (ToComputation c) active) u x \<noteq> Inl OutOfRangePanic" by simp
    qed (use "2.prems"(2) visit_term_sized in auto)
    with False n show ?thesis unfolding visit_term.simps(2) by (simp add: origin)
  qed
next
  case (3 m active p depth rigids w)
  obtain n where n: "proof_at m p = Some n" using "3.prems"(3) by (cases p) (simp add: entry_def)
  have refs: "present (qmodule_arena m) r" if "r \<in> set (node_references m (ToProof p))" for r
    using references_presentD(1) [OF "3.prems"(1) that] .
  have origin: "mark_origin m (FromProof p) (proof_origin n) (mark (ToProof p) w) =
      Inr (mark (ToOrigin (proof_origin n)) (mark (ToProof p) w))"
    by (rule mark_origin_present [OF refs]) (simp add: n)
  have "visit_present m (VisitValue (proof_proposition n) depth rigids)"
    using refs [of "ToValue (proof_proposition n)"] n by simp
  with "3.IH" [OF n origin "3.prems"(1)] "3.prems"(2) n show ?case
    unfolding visit_term.simps(3) by (simp add: origin)
next
  case (4 m active r w)
  then show ?case using visit_effect_row_no_panic by (simp add: visit_term.simps(4))
next
  case (5 m active g w)
  then show ?case using visit_grade_no_panic by (simp add: visit_term.simps(5))
next
  case (6 m active e w)
  then show ?case by (simp add: visit_term.simps(6))
qed

lemma visit_roots_no_panic:
  assumes "references_present m"
  shows "visit_roots m (initial_scope_walk (qmodule_arena m)) \<noteq> Inl OutOfRangePanic"
proof -
  let ?w0 = "initial_scope_walk (qmodule_arena m)"
  let ?imports = "\<lambda>(i, r). mark_origin m (FromImport i) (reference_origin r)"
  have sized: "walk_sized m ?w0" using walking_initial by (simp add: walking_def)
  have import_sized: "walk_sized m w'" if "?imports u w = Inr w'" "walk_sized m w" for u w w'
    using that by (auto simp: case_prod_beta simp del: mark.simps)
  have def_sized: "walk_sized m w'" if "visit_definition m d w = Inr w'" "walk_sized m w" for d w w'
    using that fold_sized [of "visit_term m {}" _ _ w' m] visit_term_sized
    by (auto simp: visit_definition_def and_then_eq_Inr simp del: mark.simps)
  have def_no_panic: "visit_definition m (i, d) w \<noteq> Inl OutOfRangePanic"
    if d: "d \<in> set (qmodule_definitions m)" and w: "walk_sized m w" for i d w
    unfolding visit_definition_def
  proof (rule and_then_no_error)
    fix w1 assume "mark_origin m (FromDefinition (fst (i, d)))
        (reference_origin (definition_reference_of (snd (i, d)))) w = Inr w1"
    then have w1: "walk_sized m w1" using w by (auto simp del: mark.simps)
    show "fold_each (visit_term m {}) (body_visits (definition_body_of (snd (i, d)))) w1 \<noteq> Inl OutOfRangePanic"
    proof (rule fold_no_panic [OF _ _ w1])
      fix u x assume u: "u \<in> set (body_visits (definition_body_of (snd (i, d))))" and x: "walk_sized m x"
      have "visited_reference u \<in> set (root_references m)"
        using u d by (cases "definition_body_of d") (auto simp: root_references_def intro!: bexI [of _ d])
      then have "visit_present m u"
        using references_presentD(2) [OF assms] u by (cases u; cases "definition_body_of d") auto
      then show "visit_term m {} u x \<noteq> Inl OutOfRangePanic" by (rule visit_term_no_panic [OF assms x])
    qed (rule visit_term_sized)
  qed simp
  show ?thesis
    unfolding visit_roots_def
  proof (rule and_then_no_error)
    show "fold_each ?imports (enumerate 0 (qmodule_imports m)) ?w0 \<noteq> Inl OutOfRangePanic"
      by (rule fold_no_panic [OF _ _ sized]) (use import_sized in \<open>auto simp: case_prod_beta simp del: mark.simps\<close>)
    fix w1 assume "fold_each ?imports (enumerate 0 (qmodule_imports m)) ?w0 = Inr w1"
    then have w1: "walk_sized m w1" by (rule fold_sized) (use import_sized sized in auto)
    show "fold_each (visit_definition m) (enumerate 0 (qmodule_definitions m)) w1 \<noteq> Inl OutOfRangePanic"
    proof (rule fold_no_panic [OF _ _ w1])
      fix p w assume "p \<in> set (enumerate 0 (qmodule_definitions m))" "walk_sized m w"
      then show "visit_definition m p w \<noteq> Inl OutOfRangePanic"
        using def_no_panic [of "snd p" w "fst p"] by (auto simp: in_set_enumerate_eq dest: nth_mem)
    qed (rule def_sized)
  qed
qed

lemma validate_reachability_no_panic: "validate_reachability w \<noteq> Inl OutOfRangePanic"
  unfolding validate_reachability_def ensure_reachable_def
  by (intro and_then_no_error check_each_no_error; simp add: case_prod_beta)

lemma validate_qmodule_no_panic: "validate_qmodule f m \<noteq> Inl OutOfRangePanic"
  unfolding validate_qmodule_def
proof (intro and_then_no_error)
  show "validate_schema_version m \<noteq> Inl OutOfRangePanic" by (simp add: validate_schema_version_def)
  show "validate_arena_lengths m \<noteq> Inl OutOfRangePanic"
    unfolding validate_arena_lengths_def by (intro no_panic_intros) (auto split: if_splits)
  show "validate_origins m \<noteq> Inl OutOfRangePanic"
    unfolding validate_origins_def by (intro no_panic_intros) (auto split: if_splits)
  fix u assume "validate_arena_lengths m = Inr u"
  then have bounded: "bounded_arenas m" by simp
  fix u' assume "validate_references m = Inr u'"
  then have present: "references_present m" using validate_references_Inr [OF bounded] by simp
  show "validate_effect_rows m \<noteq> Inl OutOfRangePanic" by (rule validate_effect_rows_no_panic [OF bounded present])
  show "visit_roots m (initial_scope_walk (qmodule_arena m)) \<noteq> Inl OutOfRangePanic"
    by (rule visit_roots_no_panic [OF present])
qed (simp_all add: validate_references_no_panic collect_definitions_no_panic validate_global_definitions_no_panic
    validate_grades_no_panic validate_structural_types_no_panic validate_reachability_no_panic)

section \<open>Properties\<close>


text \<open>
  In an accepted module no value or computation contains itself, so every recursion over
  its terms ends.
\<close>

theorem accepted_terms_acyclic:
  assumes "validate_qmodule f m = Inr ()"
  shows "acyclic (term_edges m) \<and> finite (term_edges m)"
proof
  show "acyclic (term_edges m)"
    using assms accepted_no_cycle by (auto simp: acyclic_def validate_qmodule_Inr)
  have "term_edges m \<subseteq> term_references \<times> term_references" by (auto simp: term_edges_def)
  then show "finite (term_edges m)" by (rule finite_subset) simp
qed

definition sample_decimals :: decimals where
  "sample_decimals = \<lparr>parse_decimal = (\<lambda>_. None), print_decimal = (\<lambda>_. [])\<rparr>"

definition sample_qmodule :: qmodule where
  "sample_qmodule =
     \<lparr>schema_version = 5, qmodule_key = SemanticKey ''module:m'', effect_parameter_count = 0,
      qmodule_imports = [],
      qmodule_definitions =
        [\<lparr>definition_reference_of = \<lparr>reference_definition = DefinitionKey ''d'', reference_semantics = SemanticKey ''d'',
            reference_origin = SourceOriginId 0\<rparr>,
          definition_body_of = ValueBody (ValueId 2) (ValueId 0)\<rparr>],
      qmodule_arena =
        \<lparr>arena_origins = [\<lparr>origin_source = SemanticKey ''source:m'', origin_start = 0, origin_end = 4\<rparr>],
         arena_values =
           [\<lparr>value_origin = SourceOriginId 0, value_term = UniverseValue (TypeUniverse 0)\<rparr>,
            \<lparr>value_origin = SourceOriginId 0, value_term = UniverseValue Prop\<rparr>,
            \<lparr>value_origin = SourceOriginId 0,
             value_term = DependentPi (ValueId 1) (ValueId 3) (EffectRowId 0) (GradeId 0)\<rparr>,
            \<lparr>value_origin = SourceOriginId 0, value_term = BoundVariable 0\<rparr>],
         arena_computations = [],
         arena_effect_rows = [\<lparr>effect_row_origin = SourceOriginId 0, row_of = EmptyRow\<rparr>],
         arena_grades = [\<lparr>grade_origin = SourceOriginId 0, interval_of = \<lparr>grade_lower = 1, grade_upper = Finite 1\<rparr>\<rparr>],
         arena_proofs = []\<rparr>\<rparr>"

lemma sample_qmodule_accepted: "validate_qmodule sample_decimals sample_qmodule = Inr ()"
  by code_simp

theorem accepted_terms_acyclic_witness: "acyclic (term_edges sample_qmodule)"
  using accepted_terms_acyclic [OF sample_qmodule_accepted] by blast

text \<open>The validator never indexes an arena or its own tables out of range, whatever the module.\<close>

theorem qmodule_validation_never_panics: "validate_qmodule f m \<noteq> Inl OutOfRangePanic"
  by (rule validate_qmodule_no_panic)

end
