(* ===== verification/QCorePure.thy ===== *)
theory QCorePure
  imports QCoreTyping QCoreScoping
begin

text \<open>
  From a validated core module to its certificate (\<open>compiler/src/qcore_typing.rs\<close>): the lowering
  of arena entries to pure terms, the check of every definition, and the conversion queries a
  certificate answers. The last section composes the validator, the lowering, the checker and
  the normalizer.
\<close>

section \<open>Lowering\<close>

text \<open>\<open>PureLowerer\<close>: the terms already lowered, by arena index.\<close>

record lowerer =
  lowered_values :: "pure_value option list"
  lowered_computations :: "pure_computation option list"

definition new_lowerer :: "qmodule \<Rightarrow> lowerer" where
  "new_lowerer m =
     \<lparr>lowered_values = replicate (length (arena_values (qmodule_arena m))) None,
      lowered_computations = replicate (length (arena_computations (qmodule_arena m))) None\<rparr>"

definition unsupported_value :: "value_id \<Rightarrow> unsupported_feature \<Rightarrow> (typing_error, 'a) result" where
  "unsupported_value v feature = Inl (Unsupported (NodeValue v) feature)"

definition unsupported_computation :: "computation_id \<Rightarrow> unsupported_feature \<Rightarrow> (typing_error, 'a) result" where
  "unsupported_computation c feature = Inl (Unsupported (NodeComputation c) feature)"

definition require_empty_effect_row :: "qmodule \<Rightarrow> effect_row_id \<Rightarrow> (typing_error, unit) result" where
  "require_empty_effect_row m r =
     (case effect_row_at m r of
        None \<Rightarrow> Inl TypingPanic
      | Some node \<Rightarrow>
          (case row_of node of
             EmptyRow \<Rightarrow> Inr ()
           | VariableRow _ \<Rightarrow> Inl (Unsupported (NodeEffectRow r) EffectRowVariable)
           | ExtendRow _ _ \<Rightarrow> Inl (Unsupported (NodeEffectRow r) EffectOperation)))"

definition grade_interval_of :: "qmodule \<Rightarrow> grade_id \<Rightarrow> (typing_error, grade_interval) result" where
  "grade_interval_of m g = (case grade_at m g of None \<Rightarrow> Inl TypingPanic | Some node \<Rightarrow> Inr (interval_of node))"

definition value_lowered_or ::
  "qmodule \<Rightarrow> value_id \<Rightarrow> lowerer \<Rightarrow> (qvalue \<Rightarrow> (typing_error, pure_value \<times> lowerer) result) \<Rightarrow>
   (typing_error, pure_value \<times> lowerer) result" where
  "value_lowered_or m v st lower =
     (case v of ValueId i \<Rightarrow>
        if unat i \<ge> length (lowered_values st) then Inl TypingPanic
        else case lowered_values st ! unat i of
          Some t \<Rightarrow> Inr (t, st)
        | None \<Rightarrow>
            (case value_at m v of
               None \<Rightarrow> Inl TypingPanic
             | Some node \<Rightarrow>
                 and_then (lower (value_term node)) (\<lambda>(t, st').
                   Inr (t, st'\<lparr>lowered_values := (lowered_values st')[unat i := Some t]\<rparr>))))"

definition computation_lowered_or ::
  "qmodule \<Rightarrow> computation_id \<Rightarrow> lowerer \<Rightarrow> (qcomputation \<Rightarrow> (typing_error, pure_computation \<times> lowerer) result) \<Rightarrow>
   (typing_error, pure_computation \<times> lowerer) result" where
  "computation_lowered_or m c st lower =
     (case c of ComputationId i \<Rightarrow>
        if unat i \<ge> length (lowered_computations st) then Inl TypingPanic
        else case lowered_computations st ! unat i of
          Some t \<Rightarrow> Inr (t, st)
        | None \<Rightarrow>
            (case computation_at m c of
               None \<Rightarrow> Inl TypingPanic
             | Some node \<Rightarrow>
                 and_then (lower (computation_term node)) (\<lambda>(t, st').
                   Inr (t, st'\<lparr>lowered_computations := (lowered_computations st')[unat i := Some t]\<rparr>))))"

text \<open>
  \<open>PureLowerer::value\<close> and \<open>PureLowerer::computation\<close>. On a cyclic arena the source does not
  return, so the calls carry fuel; on a validated module \<open>lowering_fuel\<close> is enough.
\<close>

fun lower_value :: "nat \<Rightarrow> qmodule \<Rightarrow> value_id \<Rightarrow> lowerer \<Rightarrow> (typing_error, pure_value \<times> lowerer) result"
  and lower_computation ::
    "nat \<Rightarrow> qmodule \<Rightarrow> computation_id \<Rightarrow> lowerer \<Rightarrow> (typing_error, pure_computation \<times> lowerer) result" where
  "lower_value 0 m v st = Inl OutOfFuel"
| "lower_value (Suc n) m v st =
     value_lowered_or m v st (\<lambda>term.
       case term of
         BoundVariable index \<Rightarrow> Inr (VBound v index, st)
       | GlobalDefinition key semantics \<Rightarrow> Inr (VGlobal v key semantics, st)
       | UniverseValue u \<Rightarrow> Inr (VUniverse v u, st)
       | DependentPi domain codomain effects grade \<Rightarrow>
           and_then (require_empty_effect_row m effects) (\<lambda>_.
           and_then (grade_interval_of m grade) (\<lambda>interval.
           and_then (lower_value n m domain st) (\<lambda>(domain', st).
           and_then (lower_value n m codomain st) (\<lambda>(codomain', st).
             Inr (VPi v domain' codomain' grade interval, st)))))
       | DependentSigma one two \<Rightarrow>
           and_then (lower_value n m one st) (\<lambda>(one', st).
           and_then (lower_value n m two st) (\<lambda>(two', st). Inr (VSigma v one' two', st)))
       | LambdaValue body \<Rightarrow>
           and_then (lower_computation n m body st) (\<lambda>(body', st). Inr (VLambda v body', st))
       | PairValue one two \<Rightarrow>
           and_then (lower_value n m one st) (\<lambda>(one', st).
           and_then (lower_value n m two st) (\<lambda>(two', st). Inr (VPair v one' two', st)))
       | FirstProjection pair \<Rightarrow>
           and_then (lower_value n m pair st) (\<lambda>(pair', st). Inr (VFirst v pair', st))
       | SecondProjection pair \<Rightarrow>
           and_then (lower_value n m pair st) (\<lambda>(pair', st). Inr (VSecond v pair', st))
       | ThunkValue _ \<Rightarrow> unsupported_value v ThunkFeature
       | EffectRowValue _ \<Rightarrow> unsupported_value v EffectRowValueFeature
       | IntervalGrade _ \<Rightarrow> unsupported_value v IntervalGradeValue
       | ProofValue _ _ \<Rightarrow> unsupported_value v ProofWitness
       | structural \<Rightarrow> unsupported_value v (StructuralCertificate (value_tag_of structural)))"
| "lower_computation 0 m c st = Inl OutOfFuel"
| "lower_computation (Suc n) m c st =
     computation_lowered_or m c st (\<lambda>term.
       case term of
         ReturnValue v \<Rightarrow> and_then (lower_value n m v st) (\<lambda>(v', st). Inr (PReturn c v', st))
       | LetValue v body \<Rightarrow>
           and_then (lower_value n m v st) (\<lambda>(v', st).
           and_then (lower_computation n m body st) (\<lambda>(body', st). Inr (PLet c v' body', st)))
       | BindComputation one body \<Rightarrow>
           and_then (lower_computation n m one st) (\<lambda>(one', st).
           and_then (lower_computation n m body st) (\<lambda>(body', st). Inr (PBind c one' body', st)))
       | ApplyComputation function argument \<Rightarrow>
           and_then (lower_value n m function st) (\<lambda>(function', st).
           and_then (lower_value n m argument st) (\<lambda>(argument', st). Inr (PApply c function' argument', st)))
       | ForceComputation _ \<Rightarrow> unsupported_computation c ForceFeature
       | PerformComputation _ _ _ \<Rightarrow> unsupported_computation c EffectOperation
       | HandleComputation _ _ _ \<Rightarrow> unsupported_computation c EffectHandler)"

definition lowering_fuel :: "qmodule \<Rightarrow> nat" where
  "lowering_fuel m = Suc (length (arena_values (qmodule_arena m)) + length (arena_computations (qmodule_arena m)))"

datatype pure_definition_body =
  PureValueBody pure_value pure_value
| PureComputationBody pure_computation pure_value

record pure_definition =
  pure_key :: definition_key
  pure_body :: pure_definition_body

record pure_module =
  pure_definitions :: "pure_definition list"
  definition_indices :: "definition_key \<rightharpoonup> nat"
  pure_imports :: "definition_key set"

fun lower_body :: "qmodule \<Rightarrow> definition_body \<Rightarrow> lowerer \<Rightarrow> (typing_error, pure_definition_body \<times> lowerer) result" where
  "lower_body m (ValueBody v t) st =
     and_then (lower_value (lowering_fuel m) m v st) (\<lambda>(v', st).
     and_then (lower_value (lowering_fuel m) m t st) (\<lambda>(t', st). Inr (PureValueBody v' t', st)))"
| "lower_body m (ComputationBody c t effects) st =
     and_then (require_empty_effect_row m effects) (\<lambda>_.
     and_then (lower_computation (lowering_fuel m) m c st) (\<lambda>(c', st).
     and_then (lower_value (lowering_fuel m) m t st) (\<lambda>(t', st). Inr (PureComputationBody c' t', st))))"

fun lower_definitions ::
  "qmodule \<Rightarrow> qdefinition list \<Rightarrow> lowerer \<Rightarrow> (typing_error, pure_definition list) result" where
  "lower_definitions m [] st = Inr []"
| "lower_definitions m (d # ds) st =
     and_then (lower_body m (definition_body_of d) st) (\<lambda>(body, st).
     and_then (lower_definitions m ds st) (\<lambda>rest.
       Inr (\<lparr>pure_key = reference_definition (definition_reference_of d), pure_body = body\<rparr> # rest)))"

text \<open>Collecting pairs into a \<open>HashMap\<close> keeps the last of each key.\<close>

definition index_definitions :: "pure_definition list \<Rightarrow> definition_key \<rightharpoonup> nat" where
  "index_definitions ds = map_of (rev (zip (map pure_key ds) [0..<length ds]))"

definition lower_module :: "qmodule \<Rightarrow> (typing_error, pure_module) result" where
  "lower_module m =
     and_then (lower_definitions m (qmodule_definitions m) (new_lowerer m)) (\<lambda>ds.
       Inr \<lparr>pure_definitions = ds, definition_indices = index_definitions ds,
            pure_imports = set (map reference_definition (qmodule_imports m))\<rparr>)"

section \<open>Checking a module\<close>

fun boundary_of :: "pure_definition_body \<Rightarrow> global_boundary" where
  "boundary_of (PureValueBody _ t) = BoundaryValue t"
| "boundary_of (PureComputationBody _ _) = BoundaryComputation"

text \<open>\<open>TypeChecker::new\<close>: imports first, then the definitions.\<close>

definition module_globals :: "pure_module \<Rightarrow> globals" where
  "module_globals p =
     (\<lambda>key. if key \<in> pure_imports p then Some BoundaryImport else None) ++
     map_of (rev (map (\<lambda>d. (pure_key d, boundary_of (pure_body d))) (pure_definitions p)))"

fun check_body :: "globals \<Rightarrow> sharing \<Rightarrow> pure_definition_body \<Rightarrow> (typing_error, unit) result" where
  "check_body g sh (PureValueBody v t) =
     and_then (infer_sort g (below 0 sh) [] t) (\<lambda>_. check_value g (below 1 sh) [] v t)"
| "check_body g sh (PureComputationBody c t) =
     and_then (infer_sort g (below 0 sh) [] t) (\<lambda>_. check_computation g (below 1 sh) [] c t)"

definition check_definitions :: "sharing \<Rightarrow> pure_module \<Rightarrow> (typing_error, unit) result" where
  "check_definitions sh p =
     check_each (\<lambda>(i, d). check_body (module_globals p) (below i sh) (pure_body d)) (enumerate 0 (pure_definitions p))"

text \<open>\<open>check_pure_module\<close>, on the module of a \<open>ValidatedQModule\<close>; the result is the \<open>pure\<close> field of the certificate.\<close>

definition check_pure_module :: "sharing \<Rightarrow> qmodule \<Rightarrow> (typing_error, pure_module) result" where
  "check_pure_module sh m =
     and_then (lower_module m) (\<lambda>pure. and_then (check_definitions sh pure) (\<lambda>_. Inr pure))"

definition definition_of :: "pure_module \<Rightarrow> definition_key \<Rightarrow> (typing_error, pure_definition_body) result" where
  "definition_of p key =
     (case definition_indices p key of
        None \<Rightarrow> Inl (UnknownPureDefinition key)
      | Some i \<Rightarrow>
          if i < length (pure_definitions p) then Inr (pure_body (pure_definitions p ! i)) else Inl TypingPanic)"

definition value_definitions_convert ::
  "sharing \<Rightarrow> pure_module \<Rightarrow> definition_key \<Rightarrow> definition_key \<Rightarrow> (typing_error, bool) result" where
  "value_definitions_convert sh p left right =
     and_then (definition_of p left) (\<lambda>l.
     and_then (definition_of p right) (\<lambda>r.
       case (l, r) of
         (PureValueBody lv lt, PureValueBody rv rt) \<Rightarrow>
           and_then (values_convert (\<lambda>i. sh [0, i]) lt rt) (\<lambda>same_type.
             if \<not> same_type then Inr False else values_convert (\<lambda>i. sh [1, i]) lv rv)
       | _ \<Rightarrow> Inl (DefinitionKindMismatch left right)))"

definition computation_definitions_convert ::
  "sharing \<Rightarrow> pure_module \<Rightarrow> definition_key \<Rightarrow> definition_key \<Rightarrow> (typing_error, bool) result" where
  "computation_definitions_convert sh p left right =
     and_then (definition_of p left) (\<lambda>l.
     and_then (definition_of p right) (\<lambda>r.
       case (l, r) of
         (PureComputationBody lc lt, PureComputationBody rc rt) \<Rightarrow>
           and_then (values_convert (\<lambda>i. sh [0, i]) lt rt) (\<lambda>same_type.
             if \<not> same_type then Inr False else computations_convert (\<lambda>i. sh [1, i]) lc rc)
       | _ \<Rightarrow> Inl (DefinitionKindMismatch left right)))"

section \<open>What lowering answers\<close>

definition value_term_at :: "qmodule \<Rightarrow> value_id \<Rightarrow> qvalue option" where
  "value_term_at m v = map_option value_term (value_at m v)"

definition computation_term_at :: "qmodule \<Rightarrow> computation_id \<Rightarrow> qcomputation option" where
  "computation_term_at m c = map_option computation_term (computation_at m c)"

definition empty_row_at :: "qmodule \<Rightarrow> effect_row_id \<Rightarrow> bool" where
  "empty_row_at m r \<longleftrightarrow> map_option row_of (effect_row_at m r) = Some EmptyRow"

text \<open>A pure term is the tree that the arena holds under its source.\<close>

primrec represents_value :: "qmodule \<Rightarrow> pure_value \<Rightarrow> bool"
  and represents_computation :: "qmodule \<Rightarrow> pure_computation \<Rightarrow> bool" where
  "represents_value m (VBound s i) \<longleftrightarrow> value_term_at m s = Some (BoundVariable i)"
| "represents_value m (VGlobal s d k) \<longleftrightarrow> value_term_at m s = Some (GlobalDefinition d k)"
| "represents_value m (VUniverse s u) \<longleftrightarrow> value_term_at m s = Some (UniverseValue u)"
| "represents_value m (VPi s a b g i) \<longleftrightarrow>
     (\<exists>e. value_term_at m s = Some (DependentPi (value_source a) (value_source b) e g) \<and> empty_row_at m e) \<and>
     map_option interval_of (grade_at m g) = Some i \<and> represents_value m a \<and> represents_value m b"
| "represents_value m (VSigma s a b) \<longleftrightarrow>
     value_term_at m s = Some (DependentSigma (value_source a) (value_source b)) \<and>
     represents_value m a \<and> represents_value m b"
| "represents_value m (VLambda s c) \<longleftrightarrow>
     value_term_at m s = Some (LambdaValue (computation_source c)) \<and> represents_computation m c"
| "represents_value m (VPair s a b) \<longleftrightarrow>
     value_term_at m s = Some (PairValue (value_source a) (value_source b)) \<and>
     represents_value m a \<and> represents_value m b"
| "represents_value m (VFirst s a) \<longleftrightarrow> value_term_at m s = Some (FirstProjection (value_source a)) \<and> represents_value m a"
| "represents_value m (VSecond s a) \<longleftrightarrow> value_term_at m s = Some (SecondProjection (value_source a)) \<and> represents_value m a"
| "represents_computation m (PReturn s a) \<longleftrightarrow>
     computation_term_at m s = Some (ReturnValue (value_source a)) \<and> represents_value m a"
| "represents_computation m (PLet s a b) \<longleftrightarrow>
     computation_term_at m s = Some (LetValue (value_source a) (computation_source b)) \<and>
     represents_value m a \<and> represents_computation m b"
| "represents_computation m (PBind s a b) \<longleftrightarrow>
     computation_term_at m s = Some (BindComputation (computation_source a) (computation_source b)) \<and>
     represents_computation m a \<and> represents_computation m b"
| "represents_computation m (PApply s a b) \<longleftrightarrow>
     computation_term_at m s = Some (ApplyComputation (value_source a) (value_source b)) \<and>
     represents_value m a \<and> represents_value m b"

definition value_for :: "qmodule \<Rightarrow> value_id \<Rightarrow> pure_value \<Rightarrow> bool" where
  "value_for m v t \<longleftrightarrow> value_source t = v \<and> represents_value m t"

definition computation_for :: "qmodule \<Rightarrow> computation_id \<Rightarrow> pure_computation \<Rightarrow> bool" where
  "computation_for m c t \<longleftrightarrow> computation_source t = c \<and> represents_computation m t"

definition lowerer_ok :: "qmodule \<Rightarrow> lowerer \<Rightarrow> bool" where
  "lowerer_ok m st \<longleftrightarrow>
     length (lowered_values st) = length (arena_values (qmodule_arena m)) \<and>
     length (lowered_computations st) = length (arena_computations (qmodule_arena m)) \<and>
     (\<forall>i t. unat i < length (lowered_values st) \<longrightarrow> lowered_values st ! unat i = Some t \<longrightarrow> value_for m (ValueId i) t) \<and>
     (\<forall>i t. unat i < length (lowered_computations st) \<longrightarrow> lowered_computations st ! unat i = Some t \<longrightarrow>
        computation_for m (ComputationId i) t)"

lemma lowerer_ok_new [simp]: "lowerer_ok m (new_lowerer m)"
  by (auto simp: lowerer_ok_def new_lowerer_def)

lemma lowerer_ok_store_value:
  "lowerer_ok m st \<Longrightarrow> value_for m (ValueId i) t \<Longrightarrow>
     lowerer_ok m (st\<lparr>lowered_values := (lowered_values st)[unat i := Some t]\<rparr>)"
  by (auto simp: lowerer_ok_def) (metis nth_list_update_eq nth_list_update_neq option.inject word_unat_eq_iff)

lemma lowerer_ok_store_computation:
  "lowerer_ok m st \<Longrightarrow> computation_for m (ComputationId i) t \<Longrightarrow>
     lowerer_ok m (st\<lparr>lowered_computations := (lowered_computations st)[unat i := Some t]\<rparr>)"
  by (auto simp: lowerer_ok_def) (metis nth_list_update_eq nth_list_update_neq option.inject word_unat_eq_iff)

lemma value_lowered_or_ok:
  assumes "value_lowered_or m v st f = Inr (t, st')" "lowerer_ok m st"
    and "\<And>term s. value_term_at m v = Some term \<Longrightarrow> f term = Inr (t, s) \<Longrightarrow> value_for m v t \<and> lowerer_ok m s"
  shows "value_for m v t \<and> lowerer_ok m st'"
proof -
  obtain i where i: "v = ValueId i" by (cases v)
  from assms(1) i have range: "unat i < length (lowered_values st)"
    by (auto simp: value_lowered_or_def split: if_splits)
  show ?thesis
  proof (cases "lowered_values st ! unat i")
    case (Some w)
    with assms(1,2) range i show ?thesis by (auto simp: value_lowered_or_def lowerer_ok_def)
  next
    case None
    with assms(1) range i obtain n s where "value_at m v = Some n" and run: "f (value_term n) = Inr (t, s)"
        and st': "st' = s\<lparr>lowered_values := (lowered_values s)[unat i := Some t]\<rparr>"
      by (auto simp: value_lowered_or_def and_then_eq_Inr split: option.splits)
    then have "value_term_at m v = Some (value_term n)" by (simp add: value_term_at_def)
    with assms(3) run have "value_for m v t" "lowerer_ok m s" by blast+
    with st' i show ?thesis by (auto intro: lowerer_ok_store_value)
  qed
qed

lemma computation_lowered_or_ok:
  assumes "computation_lowered_or m c st f = Inr (t, st')" "lowerer_ok m st"
    and "\<And>term s. computation_term_at m c = Some term \<Longrightarrow> f term = Inr (t, s) \<Longrightarrow> computation_for m c t \<and> lowerer_ok m s"
  shows "computation_for m c t \<and> lowerer_ok m st'"
proof -
  obtain i where i: "c = ComputationId i" by (cases c)
  from assms(1) i have range: "unat i < length (lowered_computations st)"
    by (auto simp: computation_lowered_or_def split: if_splits)
  show ?thesis
  proof (cases "lowered_computations st ! unat i")
    case (Some w)
    with assms(1,2) range i show ?thesis by (auto simp: computation_lowered_or_def lowerer_ok_def)
  next
    case None
    with assms(1) range i obtain n s where "computation_at m c = Some n" and run: "f (computation_term n) = Inr (t, s)"
        and st': "st' = s\<lparr>lowered_computations := (lowered_computations s)[unat i := Some t]\<rparr>"
      by (auto simp: computation_lowered_or_def and_then_eq_Inr split: option.splits)
    then have "computation_term_at m c = Some (computation_term n)" by (simp add: computation_term_at_def)
    with assms(3) run have "computation_for m c t" "lowerer_ok m s" by blast+
    with st' i show ?thesis by (auto intro: lowerer_ok_store_computation)
  qed
qed

lemma require_empty_effect_row_Inr [simp]: "require_empty_effect_row m r = Inr u \<longleftrightarrow> empty_row_at m r"
  by (auto simp: require_empty_effect_row_def empty_row_at_def split: option.split effect_row.split)

lemma grade_interval_of_Inr [simp]: "grade_interval_of m g = Inr i \<longleftrightarrow> map_option interval_of (grade_at m g) = Some i"
  by (auto simp: grade_interval_of_def split: option.split)

lemma lower_ok:
  "lower_value n m v st = Inr (t, st') \<Longrightarrow> lowerer_ok m st \<Longrightarrow> value_for m v t \<and> lowerer_ok m st'"
  "lower_computation n m c st = Inr (d, st') \<Longrightarrow> lowerer_ok m st \<Longrightarrow> computation_for m c d \<and> lowerer_ok m st'"
proof (induction n arbitrary: v t c d st st')
  case (Suc n)
  {
    case 1
    note 0 = 1(2)
    show ?case using 1(1) unfolding lower_value.simps(2)
    proof (rule value_lowered_or_ok [OF _ 1(2)], goal_cases)
      case (1 tm s)
      with 0 Suc.IH show ?case
        by (cases tm) (auto simp: and_then_eq_Inr value_for_def computation_for_def unsupported_value_def)+
    qed
  next
    case 2
    note 0 = 2(2)
    show ?case using 2(1) unfolding lower_computation.simps(2)
    proof (rule computation_lowered_or_ok [OF _ 2(2)], goal_cases)
      case (1 tm s)
      with 0 Suc.IH show ?case
        by (cases tm) (auto simp: and_then_eq_Inr value_for_def computation_for_def unsupported_computation_def)+
    qed
  }
qed simp_all

section \<open>Lowering returns on validated modules\<close>

text \<open>The terms below a term, which the fuel has to outnumber.\<close>

definition terms_below :: "qmodule \<Rightarrow> arena_reference \<Rightarrow> arena_reference set" where
  "terms_below m r = {x. (r, x) \<in> (term_edges m)\<^sup>+}"

lemma finite_terms_below [simp]: "finite (terms_below m r)"
proof (rule finite_subset)
  have "x \<in> term_references" if "(r, x) \<in> (term_edges m)\<^sup>+" for x
    using that by (cases rule: tranclE) (auto simp: term_edges_def)
  then show "terms_below m r \<subseteq> term_references" by (auto simp: terms_below_def)
qed simp

lemma terms_below_edge:
  assumes "acyclic (term_edges m)" "(r, s) \<in> term_edges m"
  shows "card (terms_below m s) < card (terms_below m r)"
proof (rule psubset_card_mono)
  have "terms_below m s \<subseteq> terms_below m r"
    using assms(2) by (auto simp: terms_below_def intro: trancl_into_trancl2)
  moreover have "s \<in> terms_below m r" "s \<notin> terms_below m s"
    using assms by (auto simp: terms_below_def acyclic_def)
  ultimately show "terms_below m s \<subset> terms_below m r" by blast
qed simp

definition halts :: "(typing_error, 'a) result \<Rightarrow> bool" where
  "halts r \<longleftrightarrow> r \<noteq> Inl OutOfFuel \<and> r \<noteq> Inl TypingPanic"

lemma halts_simps [simp]:
  "halts (Inr x)" "halts (Inl e) \<longleftrightarrow> e \<noteq> OutOfFuel \<and> e \<noteq> TypingPanic"
  "halts (unsupported_value v feature)" "halts (unsupported_computation c feature)"
  by (auto simp: halts_def unsupported_value_def unsupported_computation_def)

lemma halts_and_then: "halts r \<Longrightarrow> (\<And>x. r = Inr x \<Longrightarrow> halts (k x)) \<Longrightarrow> halts (and_then r k)"
  by (cases r) (auto simp: halts_def)

text \<open>Everything below an entry is in range.\<close>

definition references_ok :: "qmodule \<Rightarrow> bool" where
  "references_ok m \<longleftrightarrow> acyclic (term_edges m) \<and> (\<forall>r. list_all (present (qmodule_arena m)) (node_references m r))"

lemma present_at [simp]:
  "present (qmodule_arena m) (ToValue v) \<longleftrightarrow> value_at m v \<noteq> None"
  "present (qmodule_arena m) (ToComputation c) \<longleftrightarrow> computation_at m c \<noteq> None"
  "present (qmodule_arena m) (ToEffectRow r) \<longleftrightarrow> effect_row_at m r \<noteq> None"
  "present (qmodule_arena m) (ToGrade g) \<longleftrightarrow> grade_at m g \<noteq> None"
  by (cases v; cases c; cases r; cases g; simp add: entry_def)+

lemma references_ok_value:
  assumes "references_ok m" "value_term_at m v = Some t" "r \<in> set (value_references t)"
  shows "present (qmodule_arena m) r" "r \<in> term_references \<Longrightarrow> card (terms_below m r) < card (terms_below m (ToValue v))"
proof -
  from assms(2) obtain n where n: "value_at m v = Some n" "t = value_term n" by (auto simp: value_term_at_def)
  then have below: "r \<in> set (node_references m (ToValue v))" using assms(3) by simp
  with assms(1) show "present (qmodule_arena m) r" unfolding references_ok_def list_all_iff by blast
  show "r \<in> term_references \<Longrightarrow> card (terms_below m r) < card (terms_below m (ToValue v))"
    using assms(1) below by (intro terms_below_edge) (auto simp: references_ok_def term_edges_def)
qed

lemma references_ok_computation:
  assumes "references_ok m" "computation_term_at m c = Some t" "r \<in> set (computation_references t)"
  shows "present (qmodule_arena m) r" "r \<in> term_references \<Longrightarrow> card (terms_below m r) < card (terms_below m (ToComputation c))"
proof -
  from assms(2) obtain n where n: "computation_at m c = Some n" "t = computation_term n"
    by (auto simp: computation_term_at_def)
  then have below: "r \<in> set (node_references m (ToComputation c))" using assms(3) by simp
  with assms(1) show "present (qmodule_arena m) r" unfolding references_ok_def list_all_iff by blast
  show "r \<in> term_references \<Longrightarrow> card (terms_below m r) < card (terms_below m (ToComputation c))"
    using assms(1) below by (intro terms_below_edge) (auto simp: references_ok_def term_edges_def)
qed

lemma value_lowered_or_halts:
  assumes "lowerer_ok m st" "value_at m v \<noteq> None" "\<And>term. value_term_at m v = Some term \<Longrightarrow> halts (f term)"
  shows "halts (value_lowered_or m v st f)"
proof -
  from assms(2) obtain i n where i: "v = ValueId i" "value_at m v = Some n" by (cases v) auto
  then have "unat i < length (lowered_values st)"
    using assms(1) by (auto simp: lowerer_ok_def entry_def arena_offset_def split: if_splits)
  with i assms(3) [of "value_term n"] show ?thesis
    by (auto simp: value_lowered_or_def value_term_at_def intro!: halts_and_then split: option.split)
qed

lemma computation_lowered_or_halts:
  assumes "lowerer_ok m st" "computation_at m c \<noteq> None" "\<And>term. computation_term_at m c = Some term \<Longrightarrow> halts (f term)"
  shows "halts (computation_lowered_or m c st f)"
proof -
  from assms(2) obtain i n where i: "c = ComputationId i" "computation_at m c = Some n" by (cases c) auto
  then have "unat i < length (lowered_computations st)"
    using assms(1) by (auto simp: lowerer_ok_def entry_def arena_offset_def split: if_splits)
  with i assms(3) [of "computation_term n"] show ?thesis
    by (auto simp: computation_lowered_or_def computation_term_at_def intro!: halts_and_then split: option.split)
qed

lemma require_empty_effect_row_halts: "effect_row_at m r \<noteq> None \<Longrightarrow> halts (require_empty_effect_row m r)"
  by (auto simp: require_empty_effect_row_def split: effect_row.split)

lemma grade_interval_of_halts: "grade_at m g \<noteq> None \<Longrightarrow> halts (grade_interval_of m g)"
  by (auto simp: grade_interval_of_def)

lemma lower_halts:
  assumes ok: "references_ok m"
  shows "lowerer_ok m st \<Longrightarrow> value_at m v \<noteq> None \<Longrightarrow> card (terms_below m (ToValue v)) < n \<Longrightarrow>
      halts (lower_value n m v st)"
    and "lowerer_ok m st \<Longrightarrow> computation_at m c \<noteq> None \<Longrightarrow> card (terms_below m (ToComputation c)) < n \<Longrightarrow>
      halts (lower_computation n m c st)"
proof (induction n arbitrary: v c st)
  case (Suc n)
  {
    case 1
    note st = 1(1) and fuel = 1(3)
    show ?case unfolding lower_value.simps(2)
    proof (rule value_lowered_or_halts [OF 1(1,2)])
      fix t assume t: "value_term_at m v = Some t"
      have vals: "halts (lower_value n m w s)" if "ToValue w \<in> set (value_references t)" "lowerer_ok m s" for w s
        using Suc.IH(1) [OF that(2), of w] references_ok_value [OF ok t that(1)] fuel by simp
      have comps: "halts (lower_computation n m w s)"
        if "ToComputation w \<in> set (value_references t)" "lowerer_ok m s" for w s
        using Suc.IH(2) [OF that(2), of w] references_ok_value [OF ok t that(1)] fuel by simp
      have rows: "effect_row_at m e \<noteq> None" if "ToEffectRow e \<in> set (value_references t)" for e
        using references_ok_value(1) [OF ok t that] unfolding present_at .
      have grades: "grade_at m g \<noteq> None" if "ToGrade g \<in> set (value_references t)" for g
        using references_ok_value(1) [OF ok t that] unfolding present_at .
      show "halts (case t of
         BoundVariable index \<Rightarrow> Inr (VBound v index, st)
       | GlobalDefinition key semantics \<Rightarrow> Inr (VGlobal v key semantics, st)
       | UniverseValue u \<Rightarrow> Inr (VUniverse v u, st)
       | DependentPi domain codomain effects grade \<Rightarrow>
           and_then (require_empty_effect_row m effects) (\<lambda>_.
           and_then (grade_interval_of m grade) (\<lambda>interval.
           and_then (lower_value n m domain st) (\<lambda>(domain', st).
           and_then (lower_value n m codomain st) (\<lambda>(codomain', st).
             Inr (VPi v domain' codomain' grade interval, st)))))
       | DependentSigma one two \<Rightarrow>
           and_then (lower_value n m one st) (\<lambda>(one', st).
           and_then (lower_value n m two st) (\<lambda>(two', st). Inr (VSigma v one' two', st)))
       | LambdaValue body \<Rightarrow>
           and_then (lower_computation n m body st) (\<lambda>(body', st). Inr (VLambda v body', st))
       | PairValue one two \<Rightarrow>
           and_then (lower_value n m one st) (\<lambda>(one', st).
           and_then (lower_value n m two st) (\<lambda>(two', st). Inr (VPair v one' two', st)))
       | FirstProjection pair \<Rightarrow>
           and_then (lower_value n m pair st) (\<lambda>(pair', st). Inr (VFirst v pair', st))
       | SecondProjection pair \<Rightarrow>
           and_then (lower_value n m pair st) (\<lambda>(pair', st). Inr (VSecond v pair', st))
       | ThunkValue _ \<Rightarrow> unsupported_value v ThunkFeature
       | EffectRowValue _ \<Rightarrow> unsupported_value v EffectRowValueFeature
       | IntervalGrade _ \<Rightarrow> unsupported_value v IntervalGradeValue
       | ProofValue _ _ \<Rightarrow> unsupported_value v ProofWitness
       | structural \<Rightarrow> unsupported_value v (StructuralCertificate (value_tag_of structural)))"
        using vals comps rows grades st
        by (cases t) (auto intro!: halts_and_then require_empty_effect_row_halts grade_interval_of_halts dest!: lower_ok)
    qed
  next
    case 2
    note st = 2(1) and fuel = 2(3)
    show ?case unfolding lower_computation.simps(2)
    proof (rule computation_lowered_or_halts [OF 2(1,2)])
      fix t assume t: "computation_term_at m c = Some t"
      have vals: "halts (lower_value n m w s)" if "ToValue w \<in> set (computation_references t)" "lowerer_ok m s" for w s
        using Suc.IH(1) [OF that(2), of w] references_ok_computation [OF ok t that(1)] fuel by simp
      have comps: "halts (lower_computation n m w s)"
        if "ToComputation w \<in> set (computation_references t)" "lowerer_ok m s" for w s
        using Suc.IH(2) [OF that(2), of w] references_ok_computation [OF ok t that(1)] fuel by simp
      show "halts (case t of
         ReturnValue v \<Rightarrow> and_then (lower_value n m v st) (\<lambda>(v', st). Inr (PReturn c v', st))
       | LetValue v body \<Rightarrow>
           and_then (lower_value n m v st) (\<lambda>(v', st).
           and_then (lower_computation n m body st) (\<lambda>(body', st). Inr (PLet c v' body', st)))
       | BindComputation one body \<Rightarrow>
           and_then (lower_computation n m one st) (\<lambda>(one', st).
           and_then (lower_computation n m body st) (\<lambda>(body', st). Inr (PBind c one' body', st)))
       | ApplyComputation function argument \<Rightarrow>
           and_then (lower_value n m function st) (\<lambda>(function', st).
           and_then (lower_value n m argument st) (\<lambda>(argument', st). Inr (PApply c function' argument', st)))
       | ForceComputation _ \<Rightarrow> unsupported_computation c ForceFeature
       | PerformComputation _ _ _ \<Rightarrow> unsupported_computation c EffectOperation
       | HandleComputation _ _ _ \<Rightarrow> unsupported_computation c EffectHandler)"
        using vals comps st by (cases t) (auto intro!: halts_and_then dest!: lower_ok)
    qed
  }
qed simp_all

section \<open>Certificates\<close>

lemma terms_below_bound:
  assumes "references_ok m"
  shows "card (terms_below m r) < lowering_fuel m"
proof -
  let ?a = "qmodule_arena m"
  let ?V = "(\<lambda>i. ToValue (ValueId (of_nat i))) ` {..<length (arena_values ?a)}"
  let ?C = "(\<lambda>i. ToComputation (ComputationId (of_nat i))) ` {..<length (arena_computations ?a)}"
  have "x \<in> ?V \<union> ?C" if x: "x \<in> terms_below m r" for x
  proof -
    from x obtain y where "(y, x) \<in> term_edges m" unfolding terms_below_def by (auto elim: tranclE)
    then have "x \<in> term_references" "present ?a x"
      using assms by (auto simp: term_edges_def references_ok_def list_all_iff)
    then show ?thesis
    proof (cases x)
      case (ToValue v)
      obtain i where i: "v = ValueId i" by (cases v)
      with \<open>present ?a x\<close> ToValue have "unat i < length (arena_values ?a)"
        by (simp add: arena_offset_def del: present_at)
      moreover have "x = ToValue (ValueId (of_nat (unat i)))" using ToValue i by simp
      ultimately show ?thesis by blast
    next
      case (ToComputation c)
      obtain i where i: "c = ComputationId i" by (cases c)
      with \<open>present ?a x\<close> ToComputation have "unat i < length (arena_computations ?a)"
        by (simp add: arena_offset_def del: present_at)
      moreover have "x = ToComputation (ComputationId (of_nat (unat i)))" using ToComputation i by simp
      ultimately show ?thesis by blast
    qed simp_all
  qed
  then have "card (terms_below m r) \<le> card (?V \<union> ?C)" by (intro card_mono) auto
  also have "\<dots> \<le> card ?V + card ?C" by (rule card_Un_le)
  also have "\<dots> \<le> length (arena_values ?a) + length (arena_computations ?a)"
    by (intro add_mono order_trans [OF card_image_le]) auto
  finally show ?thesis by (simp add: lowering_fuel_def)
qed

lemma validated_references_ok: "valid_qmodule f m \<Longrightarrow> references_ok m"
  using accepted_no_cycle by (auto simp: references_ok_def acyclic_def valid_qmodule_def references_present_def)

lemma validated_roots_present:
  assumes "valid_qmodule f m" "d \<in> set (qmodule_definitions m)" "r \<in> set (body_references (definition_body_of d))"
  shows "present (qmodule_arena m) r"
  using assms unfolding valid_qmodule_def references_present_def root_references_def list_all_iff by auto

text \<open>A lowered definition: its terms are the trees of the arena.\<close>

fun body_for :: "qmodule \<Rightarrow> definition_body \<Rightarrow> pure_definition_body \<Rightarrow> bool" where
  "body_for m (ValueBody v t) (PureValueBody v' t') \<longleftrightarrow> value_for m v v' \<and> value_for m t t'"
| "body_for m (ComputationBody c t r) (PureComputationBody c' t') \<longleftrightarrow>
     computation_for m c c' \<and> value_for m t t' \<and> empty_row_at m r"
| "body_for m _ _ \<longleftrightarrow> False"

definition definition_for :: "qmodule \<Rightarrow> qdefinition \<Rightarrow> pure_definition \<Rightarrow> bool" where
  "definition_for m d p \<longleftrightarrow>
     pure_key p = reference_definition (definition_reference_of d) \<and> body_for m (definition_body_of d) (pure_body p)"

lemma lower_body_ok:
  "lower_body m b st = Inr (b', st') \<Longrightarrow> lowerer_ok m st \<Longrightarrow> body_for m b b' \<and> lowerer_ok m st'"
  by (cases b) (auto simp: and_then_eq_Inr dest!: lower_ok)

lemma lower_body_halts:
  assumes "references_ok m" "lowerer_ok m st" "\<forall>r \<in> set (body_references b). present (qmodule_arena m) r"
  shows "halts (lower_body m b st)"
proof (cases b)
  case (ValueBody v t)
  with assms show ?thesis
    by (auto intro!: halts_and_then lower_halts terms_below_bound dest!: lower_ok simp: present_at simp del: present.simps)
next
  case (ComputationBody c t r)
  with assms show ?thesis
    by (auto intro!: halts_and_then lower_halts terms_below_bound require_empty_effect_row_halts dest!: lower_ok
        simp: present_at simp del: present.simps)
qed

lemma lower_definitions_ok:
  "lower_definitions m ds st = Inr ps \<Longrightarrow> lowerer_ok m st \<Longrightarrow> list_all2 (definition_for m) ds ps"
  by (induction ds arbitrary: st ps) (auto simp: and_then_eq_Inr definition_for_def dest!: lower_body_ok)

lemma lower_definitions_halts:
  "references_ok m \<Longrightarrow> lowerer_ok m st \<Longrightarrow>
     \<forall>d \<in> set ds. \<forall>r \<in> set (body_references (definition_body_of d)). present (qmodule_arena m) r \<Longrightarrow>
     halts (lower_definitions m ds st)"
  by (induction ds arbitrary: st)
    (auto intro!: halts_and_then lower_body_halts dest: lower_body_ok)

lemma lower_module_ok:
  "lower_module m = Inr p \<Longrightarrow> list_all2 (definition_for m) (qmodule_definitions m) (pure_definitions p)"
  by (auto simp: lower_module_def and_then_eq_Inr dest!: lower_definitions_ok)

text \<open>
  C37. Lowering a validated module neither leaves its tables nor runs on forever: the stated fuel,
  one more than the number of terms, is enough on every definition.
\<close>

theorem lowering_returns:
  assumes "validate_qmodule f m = Inr ()"
  shows "lower_module m \<noteq> Inl OutOfFuel \<and> lower_module m \<noteq> Inl TypingPanic"
proof -
  from assms have valid: "valid_qmodule f m" by (simp add: validate_qmodule_Inr)
  have "halts (lower_definitions m (qmodule_definitions m) (new_lowerer m))"
    by (intro lower_definitions_halts ballI validated_references_ok [OF valid] validated_roots_present [OF valid]) simp_all
  then have "halts (lower_module m)" unfolding lower_module_def by (intro halts_and_then) auto
  then show ?thesis by (simp add: halts_def)
qed

definition pure_sample :: qmodule where
  "pure_sample =
     \<lparr>schema_version = 5, qmodule_key = SemanticKey ''module:m'', effect_parameter_count = 0,
      qmodule_imports = [],
      qmodule_definitions =
        [\<lparr>definition_reference_of = \<lparr>reference_definition = DefinitionKey ''identity'', reference_semantics = SemanticKey ''s'',
            reference_origin = SourceOriginId 0\<rparr>,
          definition_body_of = ValueBody (ValueId 2) (ValueId 1)\<rparr>],
      qmodule_arena =
        \<lparr>arena_origins = [\<lparr>origin_source = SemanticKey ''source:m'', origin_start = 0, origin_end = 4\<rparr>],
         arena_values =
           [\<lparr>value_origin = SourceOriginId 0, value_term = UniverseValue Prop\<rparr>,
            \<lparr>value_origin = SourceOriginId 0,
             value_term = DependentPi (ValueId 0) (ValueId 0) (EffectRowId 0) (GradeId 0)\<rparr>,
            \<lparr>value_origin = SourceOriginId 0, value_term = LambdaValue (ComputationId 0)\<rparr>,
            \<lparr>value_origin = SourceOriginId 0, value_term = BoundVariable 0\<rparr>],
         arena_computations = [\<lparr>computation_origin = SourceOriginId 0, computation_term = ReturnValue (ValueId 3)\<rparr>],
         arena_effect_rows = [\<lparr>effect_row_origin = SourceOriginId 0, row_of = EmptyRow\<rparr>],
         arena_grades = [\<lparr>grade_origin = SourceOriginId 0, interval_of = \<lparr>grade_lower = 1, grade_upper = Finite 1\<rparr>\<rparr>],
         arena_proofs = []\<rparr>\<rparr>"

definition pure_sample_type :: pure_value where
  "pure_sample_type =
     VPi (ValueId 1) (VUniverse (ValueId 0) Prop) (VUniverse (ValueId 0) Prop) (GradeId 0)
       \<lparr>grade_lower = 1, grade_upper = Finite 1\<rparr>"

definition pure_sample_value :: pure_value where
  "pure_sample_value = VLambda (ValueId 2) (PReturn (ComputationId 0) (VBound (ValueId 3) 0))"

definition never_shared :: sharing where "never_shared path n = False"

lemma pure_sample_validated: "validate_qmodule sample_decimals pure_sample = Inr ()"
  by code_simp

definition pure_sample_module :: pure_module where
  "pure_sample_module =
     \<lparr>pure_definitions =
        [\<lparr>pure_key = DefinitionKey ''identity'', pure_body = PureValueBody pure_sample_value pure_sample_type\<rparr>],
      definition_indices = [DefinitionKey ''identity'' \<mapsto> 0], pure_imports = {}\<rparr>"

lemma pure_sample_definitions:
  "qmodule_definitions pure_sample =
     [\<lparr>definition_reference_of = \<lparr>reference_definition = DefinitionKey ''identity'', reference_semantics = SemanticKey ''s'',
         reference_origin = SourceOriginId 0\<rparr>,
       definition_body_of = ValueBody (ValueId 2) (ValueId 1)\<rparr>]"
  "qmodule_imports pure_sample = []"
  by (simp_all add: pure_sample_def)

lemma pure_sample_terms:
  "value_term_at pure_sample (ValueId 0) = Some (UniverseValue Prop)"
  "value_term_at pure_sample (ValueId 1) = Some (DependentPi (ValueId 0) (ValueId 0) (EffectRowId 0) (GradeId 0))"
  "value_term_at pure_sample (ValueId 2) = Some (LambdaValue (ComputationId 0))"
  "value_term_at pure_sample (ValueId 3) = Some (BoundVariable 0)"
  "computation_term_at pure_sample (ComputationId 0) = Some (ReturnValue (ValueId 3))"
  by code_simp+

lemma pure_sample_checks:
  "require_empty_effect_row pure_sample (EffectRowId 0) = Inr ()"
  "grade_interval_of pure_sample (GradeId 0) = Inr \<lparr>grade_lower = 1, grade_upper = Finite 1\<rparr>"
  "new_lowerer pure_sample = \<lparr>lowered_values = [None, None, None, None], lowered_computations = [None]\<rparr>"
  "lowering_fuel pure_sample = Suc (Suc (Suc (Suc (Suc (Suc 0)))))"
  by code_simp+

text \<open>One call of the lowering on an entry, by the entry's term; for evaluation on concrete arenas.\<close>

lemma lower_entry:
  "unat i < length (lowered_values st) \<Longrightarrow> lowered_values st ! unat i = Some t \<Longrightarrow>
     lower_value (Suc n) m (ValueId i) st = Inr (t, st)"
  "unat i < length (lowered_values st) \<Longrightarrow> lowered_values st ! unat i = None \<Longrightarrow>
     value_term_at m (ValueId i) = Some (BoundVariable k) \<Longrightarrow>
     lower_value (Suc n) m (ValueId i) st =
       Inr (VBound (ValueId i) k, st\<lparr>lowered_values := (lowered_values st)[unat i := Some (VBound (ValueId i) k)]\<rparr>)"
  "unat i < length (lowered_values st) \<Longrightarrow> lowered_values st ! unat i = None \<Longrightarrow>
     value_term_at m (ValueId i) = Some (UniverseValue u) \<Longrightarrow>
     lower_value (Suc n) m (ValueId i) st =
       Inr (VUniverse (ValueId i) u, st\<lparr>lowered_values := (lowered_values st)[unat i := Some (VUniverse (ValueId i) u)]\<rparr>)"
  "unat i < length (lowered_values st) \<Longrightarrow> lowered_values st ! unat i = None \<Longrightarrow>
     value_term_at m (ValueId i) = Some (DependentPi d c r g) \<Longrightarrow>
     require_empty_effect_row m r = Inr () \<Longrightarrow> grade_interval_of m g = Inr interval \<Longrightarrow>
     lower_value n m d st = Inr (d', st') \<Longrightarrow> lower_value n m c st' = Inr (c', st'') \<Longrightarrow>
     lower_value (Suc n) m (ValueId i) st =
       Inr (VPi (ValueId i) d' c' g interval,
         st''\<lparr>lowered_values := (lowered_values st'')[unat i := Some (VPi (ValueId i) d' c' g interval)]\<rparr>)"
  "unat i < length (lowered_values st) \<Longrightarrow> lowered_values st ! unat i = None \<Longrightarrow>
     value_term_at m (ValueId i) = Some (LambdaValue b) \<Longrightarrow> lower_computation n m b st = Inr (b', st') \<Longrightarrow>
     lower_value (Suc n) m (ValueId i) st =
       Inr (VLambda (ValueId i) b', st'\<lparr>lowered_values := (lowered_values st')[unat i := Some (VLambda (ValueId i) b')]\<rparr>)"
  "unat j < length (lowered_computations st) \<Longrightarrow> lowered_computations st ! unat j = None \<Longrightarrow>
     computation_term_at m (ComputationId j) = Some (ReturnValue v) \<Longrightarrow> lower_value n m v st = Inr (v', st') \<Longrightarrow>
     lower_computation (Suc n) m (ComputationId j) st =
       Inr (PReturn (ComputationId j) v',
         st'\<lparr>lowered_computations := (lowered_computations st')[unat j := Some (PReturn (ComputationId j) v')]\<rparr>)"
  by (auto simp: value_lowered_or_def computation_lowered_or_def value_term_at_def computation_term_at_def
      simp del: require_empty_effect_row_Inr grade_interval_of_Inr)

lemma pure_sample_lowered: "lower_module pure_sample = Inr pure_sample_module"
  by (simp add: lower_module_def pure_sample_definitions pure_sample_checks pure_sample_terms lower_entry
      index_definitions_def pure_sample_module_def pure_sample_value_def pure_sample_type_def
      del: lower_value.simps lower_computation.simps require_empty_effect_row_Inr grade_interval_of_Inr)

lemma pure_sample_checked: "check_definitions never_shared pure_sample_module = Inr ()"
  by code_simp

lemma pure_sample_certified: "check_pure_module never_shared pure_sample = Inr pure_sample_module"
  by (simp add: check_pure_module_def pure_sample_lowered pure_sample_checked)

theorem lowering_returns_witness: "lower_module pure_sample \<noteq> Inl OutOfFuel"
  using lowering_returns [OF pure_sample_validated] by blast

section \<open>What a certificate certifies\<close>

fun body_typed :: "(definition_key \<rightharpoonup> core_term) \<Rightarrow> pure_definition_body \<Rightarrow> bool" where
  "body_typed G (PureValueBody v t) \<longleftrightarrow>
     (\<exists>u. has_type G [] (erase_value t) (CUniverse u)) \<and> has_type G [] (erase_value v) (erase_value t)"
| "body_typed G (PureComputationBody c t) \<longleftrightarrow>
     (\<exists>u. has_type G [] (erase_value t) (CUniverse u)) \<and> has_type G [] (erase_computation c) (erase_value t)"

lemma check_body_typed: "check_body g sh b = Inr () \<Longrightarrow> body_typed (declared g) b"
  by (cases b) (auto simp: and_then_eq_Inr dest: checker_sound [of g _ "[]", simplified])

text \<open>The types the judgment gives to keys: those of the value definitions of the module.\<close>

definition value_boundaries :: "pure_module \<Rightarrow> definition_key \<rightharpoonup> core_term" where
  "value_boundaries p = declared (module_globals p)"

lemma map_of_rev_distinct:
  assumes "distinct (map fst xs)"
  shows "map_of (rev xs) = map_of xs"
proof
  fix k
  have "distinct (map fst (rev xs))" using assms by (simp add: rev_map [symmetric])
  then have "map_of (rev xs) k = Some v \<longleftrightarrow> map_of xs k = Some v" for v
    using assms by (simp add: map_of_eq_Some_iff)
  then show "map_of (rev xs) k = map_of xs k" by (metis not_Some_eq)
qed

lemma value_boundaries_of:
  assumes "distinct (map pure_key (pure_definitions p))" "q \<in> set (pure_definitions p)"
  shows "value_boundaries p (pure_key q) =
    (case pure_body q of PureValueBody v t \<Rightarrow> Some (erase_value t) | PureComputationBody c t \<Rightarrow> None)"
proof -
  let ?L = "map (\<lambda>d. (pure_key d, boundary_of (pure_body d))) (pure_definitions p)"
  have "distinct (map fst ?L)" using assms(1) by (simp add: comp_def)
  then have "map_of (rev ?L) = map_of ?L" by (rule map_of_rev_distinct)
  moreover have "map_of ?L (pure_key q) = Some (boundary_of (pure_body q))"
    using \<open>distinct (map fst ?L)\<close> assms(2) by (intro map_of_is_SomeI) auto
  ultimately show ?thesis
    by (auto simp: value_boundaries_def declared_def module_globals_def map_add_def split: pure_definition_body.split)
qed

lemma definition_for_keys:
  "list_all2 (definition_for m) ds ps \<Longrightarrow>
     map pure_key ps = map (\<lambda>d. reference_definition (definition_reference_of d)) ds"
  by (induction rule: list_all2_induct) (auto simp: definition_for_def)

text \<open>
  C2. A certificate for a validated module certifies typing: its definitions are the trees the
  arena holds under the module's definitions, every boundary is a type, every body inhabits its
  boundary by the declarative rules, and these rules give each key the boundary of its definition.
\<close>

theorem certificate_typed:
  assumes "validate_qmodule f m = Inr ()" "check_pure_module shared m = Inr p"
  shows "list_all2 (definition_for m) (qmodule_definitions m) (pure_definitions p) \<and>
    (\<forall>q \<in> set (pure_definitions p). body_typed (value_boundaries p) (pure_body q) \<and>
       value_boundaries p (pure_key q) =
         (case pure_body q of PureValueBody v t \<Rightarrow> Some (erase_value t) | PureComputationBody c t \<Rightarrow> None))"
proof -
  from assms(2) have lowered: "lower_module m = Inr p" and checked: "check_definitions shared p = Inr ()"
    by (auto simp: check_pure_module_def and_then_eq_Inr)
  from assms(1) have "distinct (declared_keys m)" by (simp add: validate_qmodule_Inr valid_qmodule_def)
  then have "distinct (map pure_key (pure_definitions p))"
    using definition_for_keys [OF lower_module_ok [OF lowered]] by (simp add: declared_keys_def declared_references_def comp_def)
  moreover have "body_typed (value_boundaries p) (pure_body q)" if q: "q \<in> set (pure_definitions p)" for q
  proof -
    from q obtain i where "i < length (pure_definitions p)" "q = pure_definitions p ! i" by (auto simp: in_set_conv_nth)
    with checked have "check_body (module_globals p) (below i shared) (pure_body q) = Inr ()"
      by (simp add: check_definitions_def)
    then show ?thesis unfolding value_boundaries_def by (rule check_body_typed)
  qed
  ultimately show ?thesis using lower_module_ok [OF lowered] value_boundaries_of by blast
qed

theorem certificate_typed_witness: "body_typed (value_boundaries pure_sample_module) (PureValueBody pure_sample_value pure_sample_type)"
  using certificate_typed [OF pure_sample_validated pure_sample_certified]
  by (simp add: pure_sample_module_def del: body_typed.simps)

fun definitions_equal :: "pure_definition_body \<Rightarrow> pure_definition_body \<Rightarrow> bool" where
  "definitions_equal (PureValueBody v t) (PureValueBody v' t') \<longleftrightarrow>
     converts (erase_value t) (erase_value t') \<and> converts (erase_value v) (erase_value v')"
| "definitions_equal (PureComputationBody c t) (PureComputationBody c' t') \<longleftrightarrow>
     converts (erase_value t) (erase_value t') \<and> converts (erase_computation c) (erase_computation c')"
| "definitions_equal _ _ \<longleftrightarrow> False"

lemma conversion_query:
  "value_definitions_convert sh p k l = Inr b \<Longrightarrow>
     \<exists>x y. definition_of p k = Inr x \<and> definition_of p l = Inr y \<and> b = definitions_equal x y"
  "computation_definitions_convert sh p k l = Inr b \<Longrightarrow>
     \<exists>x y. definition_of p k = Inr x \<and> definition_of p l = Inr y \<and> b = definitions_equal x y"
proof -
  assume "value_definitions_convert sh p k l = Inr b"
  then obtain x y where "definition_of p k = Inr x" "definition_of p l = Inr y"
      and answer: "value_definitions_convert sh p k l = Inr b"
    by (auto simp: value_definitions_convert_def and_then_eq_Inr)
  moreover from this have "b = definitions_equal x y"
    by (cases x; cases y) (auto simp: value_definitions_convert_def and_then_eq_Inr dest!: values_convert_exact split: if_split_asm)
  ultimately show "\<exists>x y. definition_of p k = Inr x \<and> definition_of p l = Inr y \<and> b = definitions_equal x y" by blast
next
  assume "computation_definitions_convert sh p k l = Inr b"
  then obtain x y where "definition_of p k = Inr x" "definition_of p l = Inr y"
      and answer: "computation_definitions_convert sh p k l = Inr b"
    by (auto simp: computation_definitions_convert_def and_then_eq_Inr)
  moreover from this have "b = definitions_equal x y"
    by (cases x; cases y) (auto simp: computation_definitions_convert_def and_then_eq_Inr
        dest!: values_convert_exact computations_convert_exact split: if_split_asm)
  ultimately show "\<exists>x y. definition_of p k = Inr x \<and> definition_of p l = Inr y \<and> b = definitions_equal x y" by blast
qed

text \<open>
  C4. The conversion queries of a certificate are exact: an answer says whether the two
  definitions have convertible boundaries and convertible bodies.
\<close>

theorem certificate_conversion_exact:
  assumes "value_definitions_convert shared p k l = Inr b \<or> computation_definitions_convert shared p k l = Inr b"
  shows "\<exists>x y. definition_of p k = Inr x \<and> definition_of p l = Inr y \<and> (b \<longleftrightarrow> definitions_equal x y)"
  using assms conversion_query by blast

lemma pure_sample_query:
  "value_definitions_convert (\<lambda>_ _. True) pure_sample_module (DefinitionKey ''identity'') (DefinitionKey ''identity'') = Inr True"
  by code_simp

theorem certificate_conversion_exact_witness:
  "definition_of pure_sample_module (DefinitionKey ''identity'') = Inr (PureValueBody pure_sample_value pure_sample_type) \<and>
   definitions_equal (PureValueBody pure_sample_value pure_sample_type) (PureValueBody pure_sample_value pure_sample_type)"
  using certificate_conversion_exact [OF disjI1 [OF pure_sample_query]]
  by (simp add: definition_of_def pure_sample_module_def)

end
