(* ===== verification/ContinuationGraph.thy ===== *)
theory ContinuationGraph
  imports BlotPrelude
begin

text \<open>
  The continuation graph the back end compiles (\<open>compiler/src/continuation.rs\<close>), with the runtime
  tables it refers to (\<open>compiler/src/hir.rs\<close>), and the errors of the components that build, check
  and run it. References (\<open>ValueId(usize)\<close> and its like) are natural numbers; a \<open>BTreeSet\<close> of them is a finite set, read
  in increasing order. An index out of range is \<open>GraphPanic\<close>.
\<close>

section \<open>Runtime tables\<close>

record runtime_span =
  span_file :: string
  span_from :: u32
  span_to :: u32

record runtime_field =
  field_name :: string
  field_type :: nat

record runtime_case =
  case_name :: string
  payload_type :: nat

datatype runtime_type =
  UnitType | Integer32Type | SignedInteger64Type | Float32Type | Float64Type | BooleanType | TextType
| ResourceType string nat
| CallbackType (callback_function: nat) (callback_signature: nat) (callback_environment: nat)
| VectorType string u8
| MaskType string u8
| StoreType nat
| ScratchType nat
| IndirectType nat
| ProductType string "runtime_field list"
| SumType string "runtime_case list"
| SealedType string nat

record runtime_signature =
  sig_parameters :: "nat list"
  sig_result :: nat
  sig_effects :: "string list"

text \<open>Floating-point constants are kept as their bits.\<close>

datatype wire_constant =
  UnitConstant
| SignedInteger32Constant "32 word"
| SignedInteger64Constant string
| Float32Constant u32
| Float64Constant u64
| BooleanConstant bool
| TextConstant string

record static_store =
  store_element :: nat
  store_values :: "wire_constant list"

datatype effect_ownership =
  ModeOwnership string
| RecordOwnership string "(string \<times> effect_ownership) list"
| VariantOwnership string "(string \<times> effect_ownership) list"

record operation_contract =
  contract_input :: effect_ownership
  contract_result :: effect_ownership
  contract_suspends :: bool

record capability_operation =
  cap_operation_name :: string
  cap_source_name :: string
  cap_signature :: nat
  cap_contract :: operation_contract

record capability =
  capability_name :: string
  capability_operations :: "capability_operation list"

record link =
  link_unit :: string
  link_name :: string
  link_signature :: nat
  link_suspends :: bool

record runtime_tables =
  table_types :: "runtime_type list"
  table_signatures :: "runtime_signature list"
  table_static_stores :: "static_store list"
  table_capabilities :: "capability list"
  table_links :: "link list"

section \<open>The graph\<close>

record value_definition =
  def_value :: nat
  def_type :: nat
  def_ownership :: string
  def_span :: runtime_span

record instruction_operation =
  op_kind :: string
  op_value :: "wire_constant option"
  op_update :: "string option"
  op_case :: "nat option"
  op_operator :: "string option"
  op_conversion :: "string option"
  op_lane :: "u8 option"
  op_field :: "nat option"
  op_function :: "nat option"
  op_signature :: "nat option"
  op_static_store :: "nat option"

record instruction =
  ins_definition :: value_definition
  ins_operands :: "nat list"
  ins_operation :: instruction_operation

datatype argument = ArgumentValue nat | ArgumentResult

record edge =
  edge_target :: nat
  edge_arguments :: "argument list"

datatype call_target =
  CallFunction nat
| CallHost string string
| CallLink string string

datatype transition =
  Jump edge
| BranchOn nat edge edge
| SwitchOn nat "(wire_constant \<times> edge) list" edge
| CallOut call_target nat "nat list" edge bool
| ReturnFrom nat
| TrapWith string

record continuation =
  con_id :: nat
  con_parameters :: "value_definition list"
  con_captures :: "value_definition list"
  con_instructions :: "instruction list"
  con_transition :: transition
  con_span :: runtime_span

record graph_function =
  fun_id :: nat
  fun_name :: string
  fun_signature :: nat
  fun_entry :: nat
  fun_continuations :: "continuation list"
  fun_suspends :: bool
  fun_framed :: bool
  fun_reuse :: "string option"
  fun_span :: runtime_span

type_synonym graph = "graph_function list"

text \<open>
  The errors of this component, one constructor per message. \<open>GraphDiverges\<close> stands for a call
  that does not return.
\<close>

datatype graph_fault =
  GraphPanic
| GraphDiverges
| MisplacedFunction nat nat
| SuspendingWithoutFrame nat
| RepeatedFunction nat
| AbsentSignature nat
| AbsentEntry nat
| EntryDisagrees nat
| MisplacedContinuation nat nat
| ValueWithoutRepresentation nat
| UnknownOwnership nat string
| RepeatedValue nat nat
| AbsentContinuation nat
| EdgeArity nat nat nat
| StaleCaptures nat
| CaptureWithoutDefinition nat
| ChangedCapture nat
| RepeatedInput nat
| CallInsideInstructions
| UnavailableOperand nat
| IncompatibleInstruction nat
| UnavailableUse nat
| ResultTransfers
| SuspendingCallInSynchronous
| CallWithoutSignature
| CallArgumentsDisagree
| AbsentCallee
| FramedCallsUnframed
| ChangedCalleeContract
| AbsentHostOperation
| ChangedHostContract
| AbsentLink
| ChangedLinkContract
| ReturnDisagrees
| ConditionNotBoolean
| SelectorNotInteger
| SwitchCaseDisagrees
| RepeatedSwitchCase
| UnavailableEdgeArgument nat
| ResultOnOrdinaryEdge
| RetainedBorrowedArgument
| EdgeArgumentDisagrees
| MissingCapture nat
| RetainedBorrowedCapture nat
| AbsentRepresentation nat
| ProductRepeatsField nat
| SumRepeatsCase nat
| CallbackWithoutFunction
| CallbackChangedSignature
| CallbackWithoutSignature
| CallbackEnvironmentNotProduct
| CallbackEnvironmentDisagrees
| CallbackWithoutFrame
| StaticStoreDisagrees
| RepeatedBlock nat nat
| AbsentEntryBlock nat
| AbsentBlock nat nat
| CallWithoutFunction
| AbsentDirectCallee nat
| RequestWithoutCapability
| RequestWithoutOperation
| RequestAbsentOperation string string
| CallAbsentLink string string
| UsesAbsentValue nat nat
| FreeValuesAtEntry nat

text \<open>\<open>Transition::edges\<close> and \<open>Transition::uses\<close>.\<close>

fun transition_edges :: "transition \<Rightarrow> edge list" where
  "transition_edges (Jump e) = [e]"
| "transition_edges (BranchOn c yes no) = [yes, no]"
| "transition_edges (SwitchOn s cases fallback) = map snd cases @ [fallback]"
| "transition_edges (CallOut t s as next_edge suspends) = [next_edge]"
| "transition_edges (ReturnFrom v) = []"
| "transition_edges (TrapWith m) = []"

fun transition_uses :: "transition \<Rightarrow> nat list" where
  "transition_uses (BranchOn c yes no) = [c]"
| "transition_uses (SwitchOn s cases fallback) = [s]"
| "transition_uses (CallOut t s as next_edge suspends) = as"
| "transition_uses (ReturnFrom v) = [v]"
| "transition_uses (Jump e) = []"
| "transition_uses (TrapWith m) = []"

fun argument_value :: "argument \<Rightarrow> nat option" where
  "argument_value (ArgumentValue v) = Some v"
| "argument_value ArgumentResult = None"

definition edge_values :: "edge \<Rightarrow> nat list" where
  "edge_values e = List.map_filter argument_value (edge_arguments e)"

end
