(* ===== verification/ContinuationLiveness.thy ===== *)
theory ContinuationLiveness
  imports ContinuationGraph
begin

text \<open>
  The live values of the continuations of a function and the captures filled from them
  (\<open>Function::live_inputs\<close>, \<open>Function::fill_captures\<close> in \<open>compiler/src/continuation.rs\<close>), and that the
  fixpoint loop computes liveness along paths.
\<close>

section \<open>Live values\<close>

fun position_of :: "nat \<Rightarrow> nat list \<Rightarrow> nat option" where
  "position_of v [] = None"
| "position_of v (x # xs) = (if x = v then Some 0 else map_option Suc (position_of v xs))"

definition parameter_values :: "continuation \<Rightarrow> nat list" where
  "parameter_values c = map def_value (con_parameters c)"

text \<open>What a value live at the target of an edge asks for at its source.\<close>

definition carried_value :: "continuation \<Rightarrow> edge \<Rightarrow> nat \<Rightarrow> nat set" where
  "carried_value successor e v =
     (case position_of v (parameter_values successor) of
        Some i \<Rightarrow> (case edge_arguments e ! i of ArgumentValue a \<Rightarrow> {a} | ArgumentResult \<Rightarrow> {})
      | None \<Rightarrow> {v})"

definition edge_needs :: "continuation list \<Rightarrow> nat set list \<Rightarrow> edge \<Rightarrow> nat set \<Rightarrow> (graph_fault, nat set) result" where
  "edge_needs cs live e needed =
     (if edge_target e \<ge> length cs then Inl (AbsentContinuation (edge_target e))
      else
        (let successor = cs ! edge_target e
         in if length (con_parameters successor) \<noteq> length (edge_arguments e)
            then Inl (EdgeArity (edge_target e) (length (con_parameters successor)) (length (edge_arguments e)))
            else Inr (needed \<union> set (edge_values e) \<union> (\<Union>v \<in> live ! edge_target e. carried_value successor e v))))"

definition instruction_needs :: "instruction list \<Rightarrow> nat set \<Rightarrow> nat set" where
  "instruction_needs is needed =
     foldr (\<lambda>i needed. needed - {def_value (ins_definition i)} \<union> set (ins_operands i)) is needed"

definition continuation_needs ::
  "continuation list \<Rightarrow> nat set list \<Rightarrow> continuation \<Rightarrow> (graph_fault, nat set) result" where
  "continuation_needs cs live c =
     and_then (fold_each (edge_needs cs live) (transition_edges (con_transition c)) (set (transition_uses (con_transition c))))
       (\<lambda>needed. Inr (instruction_needs (con_instructions c) needed))"

definition live_step ::
  "continuation list \<Rightarrow> continuation \<Rightarrow> nat set list \<times> bool \<Rightarrow> (graph_fault, nat set list \<times> bool) result" where
  "live_step cs c = (\<lambda>(live, changed).
     and_then (continuation_needs cs live c) (\<lambda>needed.
       if con_id c \<ge> length live then Inl GraphPanic
       else if live ! con_id c \<noteq> needed then Inr (live[con_id c := needed], True)
       else Inr (live, changed)))"

definition live_pass :: "continuation list \<Rightarrow> nat set list \<Rightarrow> (graph_fault, nat set list \<times> bool) result" where
  "live_pass cs live = fold_each (live_step cs) (rev cs) (live, False)"

text \<open>The outer loop of \<open>live_inputs\<close>, run until a pass changes nothing.\<close>

partial_function (option) live_loop ::
  "continuation list \<Rightarrow> nat set list \<Rightarrow> (graph_fault, nat set list) result option" where
  "live_loop cs live =
     (case live_pass cs live of
        Inl fault \<Rightarrow> Some (Inl fault)
      | Inr (live', changed) \<Rightarrow> if changed then live_loop cs live' else Some (Inr live'))"

definition live_inputs :: "graph_function \<Rightarrow> (graph_fault, nat set list) result" where
  "live_inputs f =
     (case live_loop (fun_continuations f) (replicate (length (fun_continuations f)) {}) of
        None \<Rightarrow> Inl GraphDiverges
      | Some r \<Rightarrow> r)"

section \<open>Captures\<close>

definition continuation_definitions :: "continuation \<Rightarrow> value_definition list" where
  "continuation_definitions c = con_parameters c @ map ins_definition (con_instructions c)"

definition insert_value :: "nat \<Rightarrow> value_definition \<Rightarrow> (nat \<rightharpoonup> value_definition) \<Rightarrow> (graph_fault, nat \<rightharpoonup> value_definition) result" where
  "insert_value f d defs =
     (if defs (def_value d) \<noteq> None then Inl (RepeatedValue f (def_value d)) else Inr (defs(def_value d \<mapsto> d)))"

definition function_definitions :: "graph_function \<Rightarrow> (graph_fault, nat \<rightharpoonup> value_definition) result" where
  "function_definitions f =
     fold_each (insert_value (fun_id f)) (concat (map continuation_definitions (fun_continuations f))) Map.empty"

definition capture_list :: "nat set list \<Rightarrow> continuation \<Rightarrow> nat list" where
  "capture_list live c = sorted_list_of_set (live ! con_id c - set (parameter_values c))"

definition fill_continuation ::
  "nat \<Rightarrow> nat set list \<Rightarrow> (nat \<rightharpoonup> value_definition) \<Rightarrow> continuation \<Rightarrow> (graph_fault, continuation) result" where
  "fill_continuation f live defs c =
     (if con_id c \<ge> length live then Inl GraphPanic
      else
        and_then (collect (\<lambda>v. case defs v of None \<Rightarrow> Inl (UsesAbsentValue f v) | Some d \<Rightarrow> Inr d) (capture_list live c))
          (\<lambda>captures. Inr (c\<lparr>con_captures := captures\<rparr>)))"

definition fill_captures :: "graph_function \<Rightarrow> (graph_fault, graph_function) result" where
  "fill_captures f =
     and_then (live_inputs f) (\<lambda>live.
     and_then (function_definitions f) (\<lambda>defs.
     and_then (collect (fill_continuation (fun_id f) live defs) (fun_continuations f)) (\<lambda>cs.
       if fun_entry f \<ge> length cs then Inl GraphPanic
       else if con_captures (cs ! fun_entry f) \<noteq> [] then Inl (FreeValuesAtEntry (fun_id f))
       else Inr (f\<lparr>fun_continuations := cs\<rparr>))))"

section \<open>What the live values are\<close>

text \<open>A list of instructions, then \<open>uses\<close>, read \<open>v\<close> before they define it.\<close>

fun reads_first :: "instruction list \<Rightarrow> nat set \<Rightarrow> nat \<Rightarrow> bool" where
  "reads_first [] uses v \<longleftrightarrow> v \<in> uses"
| "reads_first (i # is) uses v \<longleftrightarrow>
     v \<in> set (ins_operands i) \<or> v \<noteq> def_value (ins_definition i) \<and> reads_first is uses v"

definition defined_values :: "continuation \<Rightarrow> nat set" where
  "defined_values c = set (map (\<lambda>i. def_value (ins_definition i)) (con_instructions c))"

definition outgoing :: "continuation \<Rightarrow> edge set" where
  "outgoing c = set (transition_edges (con_transition c))"

definition exit_uses :: "continuation \<Rightarrow> nat set" where
  "exit_uses c = set (transition_uses (con_transition c)) \<union> (\<Union>e \<in> outgoing c. set (edge_values e))"

text \<open>
  \<open>v\<close> is live where continuation \<open>i\<close> starts: some path of edges from there, on which \<open>v\<close> is
  neither defined nor a parameter, leads to a read of \<open>v\<close>.
\<close>

inductive live_at :: "continuation list \<Rightarrow> nat \<Rightarrow> nat \<Rightarrow> bool" for cs where
  live_read: "i < length cs \<Longrightarrow> reads_first (con_instructions (cs ! i)) (exit_uses (cs ! i)) v \<Longrightarrow> live_at cs i v"
| live_pass: "i < length cs \<Longrightarrow> e \<in> outgoing (cs ! i) \<Longrightarrow> live_at cs (edge_target e) v \<Longrightarrow>
    v \<notin> set (parameter_values (cs ! edge_target e)) \<Longrightarrow> v \<notin> defined_values (cs ! i) \<Longrightarrow> live_at cs i v"

definition edge_fits :: "continuation list \<Rightarrow> edge \<Rightarrow> bool" where
  "edge_fits cs e \<longleftrightarrow> edge_target e < length cs \<and>
     length (edge_arguments e) = length (con_parameters (cs ! edge_target e))"

definition edges_fit :: "continuation list \<Rightarrow> bool" where
  "edges_fit cs \<longleftrightarrow> (\<forall>c \<in> set cs. \<forall>e \<in> outgoing c. edge_fits cs e)"

definition ids_placed :: "continuation list \<Rightarrow> bool" where
  "ids_placed cs \<longleftrightarrow> map con_id cs = [0..<length cs]"

lemma ids_placed_nth: "ids_placed cs \<Longrightarrow> i < length cs \<Longrightarrow> con_id (cs ! i) = i"
  by (metis add_0 ids_placed_def nth_map nth_upt)

lemma ids_placed_in: "ids_placed cs \<Longrightarrow> c \<in> set cs \<Longrightarrow> con_id c < length cs \<and> cs ! con_id c = c"
  by (auto simp: in_set_conv_nth ids_placed_nth)

lemma instruction_needs_reads_first: "v \<in> instruction_needs is N \<longleftrightarrow> reads_first is N v"
  by (induction "is") (auto simp: instruction_needs_def)

lemma position_of_Some: "position_of v xs = Some i \<Longrightarrow> i < length xs \<and> xs ! i = v"
  by (induction xs arbitrary: i) (auto split: if_splits)

lemma position_of_None: "position_of v xs = None \<longleftrightarrow> v \<notin> set xs"
  by (induction xs) auto

lemma edge_values_nth: "i < length (edge_arguments e) \<Longrightarrow> edge_arguments e ! i = ArgumentValue a \<Longrightarrow> a \<in> set (edge_values e)"
  unfolding edge_values_def List.map_filter_def by (force simp: in_set_conv_nth)

lemma carried_values:
  assumes "length (edge_arguments e) = length (con_parameters successor)"
  shows "set (edge_values e) \<union> (\<Union>v \<in> X. carried_value successor e v) =
    set (edge_values e) \<union> (X - set (parameter_values successor))"
proof -
  have inner: "carried_value successor e v \<subseteq> set (edge_values e)" if "v \<in> set (parameter_values successor)" for v
  proof -
    from that position_of_None obtain i where i: "position_of v (parameter_values successor) = Some i"
      by (metis option.exhaust)
    with position_of_Some [OF i] assms edge_values_nth [of i e] show ?thesis
      by (auto simp: carried_value_def parameter_values_def split: argument.split)
  qed
  have outer: "carried_value successor e v = {v}" if "v \<notin> set (parameter_values successor)" for v
    using that by (simp add: carried_value_def position_of_None [THEN iffD2])
  show ?thesis
  proof (intro set_eqI iffI)
    fix w assume "w \<in> set (edge_values e) \<union> (\<Union>v \<in> X. carried_value successor e v)"
    then consider "w \<in> set (edge_values e)" | v where "v \<in> X" "w \<in> carried_value successor e v" by blast
    then show "w \<in> set (edge_values e) \<union> (X - set (parameter_values successor))"
    proof cases
      case (2 v)
      with inner [of v] outer [of v] show ?thesis by (cases "v \<in> set (parameter_values successor)") auto
    qed simp
  next
    fix w assume "w \<in> set (edge_values e) \<union> (X - set (parameter_values successor))"
    with outer [of w] show "w \<in> set (edge_values e) \<union> (\<Union>v \<in> X. carried_value successor e v)" by auto
  qed
qed

text \<open>One equation of the analysis.\<close>

definition needs :: "continuation list \<Rightarrow> nat set list \<Rightarrow> continuation \<Rightarrow> nat set" where
  "needs cs live c = {v. reads_first (con_instructions c)
     (exit_uses c \<union> (\<Union>e \<in> outgoing c. live ! edge_target e - set (parameter_values (cs ! edge_target e)))) v}"

lemma edge_needs_fits:
  "edge_fits cs e \<Longrightarrow> edge_needs cs live e N =
     Inr (N \<union> set (edge_values e) \<union> (live ! edge_target e - set (parameter_values (cs ! edge_target e))))"
  using carried_values [of e "cs ! edge_target e" "live ! edge_target e"]
  by (auto simp: edge_needs_def edge_fits_def Let_def)

lemma edge_needs_unfit:
  "\<not> edge_fits cs e \<Longrightarrow> \<exists>t a b. edge_needs cs live e N \<in> {Inl (AbsentContinuation t), Inl (EdgeArity t a b)}"
  by (auto simp: edge_needs_def edge_fits_def Let_def)

lemma fold_edge_needs:
  "\<forall>e \<in> set es. edge_fits cs e \<Longrightarrow> fold_each (edge_needs cs live) es N =
     Inr (N \<union> (\<Union>e \<in> set es. set (edge_values e)) \<union>
       (\<Union>e \<in> set es. live ! edge_target e - set (parameter_values (cs ! edge_target e))))"
  by (induction es arbitrary: N) (auto simp: edge_needs_fits)

lemma continuation_needs_fits:
  assumes "\<forall>e \<in> outgoing c. edge_fits cs e"
  shows "continuation_needs cs live c = Inr (needs cs live c)"
proof -
  have "instruction_needs is N = {v. reads_first is N v}" for "is" N
    using instruction_needs_reads_first by blast
  with assms show ?thesis
    by (simp add: continuation_needs_def fold_edge_needs outgoing_def needs_def exit_uses_def Un_assoc)
qed

definition edge_fault :: "graph_fault \<Rightarrow> bool" where
  "edge_fault x \<longleftrightarrow> (\<exists>t a b. x \<in> {AbsentContinuation t, EdgeArity t a b})"

lemma fold_edge_needs_unfit:
  "\<exists>e \<in> set es. \<not> edge_fits cs e \<Longrightarrow> \<exists>x. fold_each (edge_needs cs live) es N = Inl x \<and> edge_fault x"
proof (induction es arbitrary: N)
  case (Cons e es)
  show ?case
  proof (cases "edge_fits cs e")
    case True
    with Cons show ?thesis by (auto simp: edge_needs_fits)
  next
    case False
    from edge_needs_unfit [OF this, of live N] show ?thesis by (auto simp: edge_fault_def)
  qed
qed simp

lemma continuation_needs_unfit:
  "\<exists>e \<in> outgoing c. \<not> edge_fits cs e \<Longrightarrow> \<exists>x. continuation_needs cs live c = Inl x \<and> edge_fault x"
  using fold_edge_needs_unfit [of "transition_edges (con_transition c)" cs live "set (transition_uses (con_transition c))"]
  by (auto simp: continuation_needs_def outgoing_def)

lemma reads_first_mono: "reads_first is A v \<Longrightarrow> A \<subseteq> B \<Longrightarrow> reads_first is B v"
  by (induction "is") auto

lemma reads_first_cases:
  "reads_first is (A \<union> B) v \<Longrightarrow>
     reads_first is A v \<or> v \<in> B \<and> v \<notin> set (map (\<lambda>i. def_value (ins_definition i)) is)"
  by (induction "is") auto

lemma reads_first_late:
  "v \<in> A \<Longrightarrow> v \<notin> set (map (\<lambda>i. def_value (ins_definition i)) is) \<Longrightarrow> reads_first is A v"
  by (induction "is") auto

lemma needs_mono:
  assumes "\<And>e. e \<in> outgoing c \<Longrightarrow> L ! edge_target e \<subseteq> L' ! edge_target e"
  shows "needs cs L c \<subseteq> needs cs L' c"
  unfolding needs_def using assms by (auto elim!: reads_first_mono)

text \<open>What every pass keeps: the sets grow and hold live values only.\<close>

definition live_below :: "continuation list \<Rightarrow> nat set list \<Rightarrow> bool" where
  "live_below cs L \<longleftrightarrow> length L = length cs \<and>
     (\<forall>i < length cs. L ! i \<subseteq> needs cs L (cs ! i) \<and> L ! i \<subseteq> {v. live_at cs i v})"

lemma needs_live:
  assumes "edges_fit cs" "live_below cs L" "i < length cs"
  shows "needs cs L (cs ! i) \<subseteq> {v. live_at cs i v}"
proof
  fix v assume "v \<in> needs cs L (cs ! i)"
  then consider "reads_first (con_instructions (cs ! i)) (exit_uses (cs ! i)) v"
    | e where "e \<in> outgoing (cs ! i)" "v \<in> L ! edge_target e" "v \<notin> set (parameter_values (cs ! edge_target e))"
        "v \<notin> defined_values (cs ! i)"
    unfolding needs_def defined_values_def by (auto dest!: reads_first_cases)
  then show "v \<in> {v. live_at cs i v}"
  proof cases
    case 1
    with assms show ?thesis by (auto intro: live_read)
  next
    case 2
    with assms have "edge_target e < length cs" by (auto simp: edges_fit_def edge_fits_def)
    with assms 2 have "live_at cs (edge_target e) v" by (auto simp: live_below_def)
    with assms 2 show ?thesis by (auto intro: live_at.live_pass)
  qed
qed

lemma live_below_update:
  assumes fit: "edges_fit cs" and below: "live_below cs L" and i: "i < length cs"
  shows "live_below cs (L[i := needs cs L (cs ! i)])"
proof -
  let ?L = "L[i := needs cs L (cs ! i)]"
  have grows: "L ! j \<subseteq> ?L ! j" if "j < length cs" for j
    using below that by (cases "j = i") (auto simp: live_below_def)
  have mono: "needs cs L (cs ! j) \<subseteq> needs cs ?L (cs ! j)" if "j < length cs" for j
  proof (rule needs_mono)
    fix e assume "e \<in> outgoing (cs ! j)"
    with fit that have "edge_target e < length cs" by (auto simp: edges_fit_def edge_fits_def)
    then show "L ! edge_target e \<subseteq> ?L ! edge_target e" by (rule grows)
  qed
  have "?L ! j \<subseteq> needs cs ?L (cs ! j) \<and> ?L ! j \<subseteq> {v. live_at cs j v}" if j: "j < length cs" for j
  proof (cases "j = i")
    case True
    with below i mono [OF i] needs_live [OF fit below i] show ?thesis by (simp add: live_below_def)
  next
    case False
    with below j mono [OF j] show ?thesis by (auto simp: live_below_def)
  qed
  with below show ?thesis by (simp add: live_below_def)
qed

lemma live_step_fits:
  assumes "edges_fit cs" "ids_placed cs" "live_below cs L" "c \<in> set cs"
  shows "live_step cs c (L, ch) =
    Inr (if L ! con_id c \<noteq> needs cs L c then (L[con_id c := needs cs L c], True) else (L, ch))"
proof -
  from assms have "continuation_needs cs L c = Inr (needs cs L c)"
    by (intro continuation_needs_fits) (auto simp: edges_fit_def)
  moreover from assms ids_placed_in have "con_id c < length L" by (auto simp: live_below_def)
  ultimately show ?thesis by (simp add: live_step_def)
qed

text \<open>The values not yet found live; a pass that changes a set leaves fewer.\<close>

definition missing :: "continuation list \<Rightarrow> nat set list \<Rightarrow> nat" where
  "missing cs L = (\<Sum>i < length cs. card ({v. live_at cs i v} - L ! i))"

definition mentioned :: "continuation list \<Rightarrow> nat set" where
  "mentioned cs = (\<Union>c \<in> set cs. exit_uses c \<union> (\<Union>i \<in> set (con_instructions c). set (ins_operands i)))"

lemma finite_exit_uses [simp]: "finite (exit_uses c)"
  by (simp add: exit_uses_def outgoing_def)

lemma finite_mentioned [simp]: "finite (mentioned cs)"
  by (simp add: mentioned_def)

lemma reads_first_mentioned: "reads_first is N v \<Longrightarrow> v \<in> N \<or> (\<exists>i \<in> set is. v \<in> set (ins_operands i))"
  by (induction "is") auto

lemma live_at_mentioned: "live_at cs i v \<Longrightarrow> v \<in> mentioned cs"
proof (induction rule: live_at.induct)
  case (live_read i v)
  with reads_first_mentioned [OF live_read(2)] nth_mem [OF live_read(1)] show ?case
    by (auto simp: mentioned_def)
qed

lemma finite_live_at [simp]: "finite {v. live_at cs i v}"
  by (rule finite_subset [OF _ finite_mentioned [of cs]]) (auto intro: live_at_mentioned)

lemma missing_update:
  assumes "edges_fit cs" "live_below cs L" "i < length cs" "L ! i \<noteq> needs cs L (cs ! i)"
  shows "missing cs (L[i := needs cs L (cs ! i)]) < missing cs L"
proof -
  let ?N = "needs cs L (cs ! i)"
  have len: "length L = length cs" and "L ! i \<subset> ?N" and N: "?N \<subseteq> {v. live_at cs i v}"
    using assms needs_live [OF assms(1-3)] by (auto simp: live_below_def)
  then have "{v. live_at cs i v} - ?N \<subset> {v. live_at cs i v} - L ! i" by blast
  then have less: "card ({v. live_at cs i v} - ?N) < card ({v. live_at cs i v} - L ! i)"
    by (intro psubset_card_mono) auto
  show ?thesis unfolding missing_def
    by (rule sum_strict_mono_ex1) (use len less assms(3) in \<open>auto simp: nth_list_update intro!: bexI [of _ i]\<close>)
qed

lemma live_fold:
  assumes "edges_fit cs" "ids_placed cs" "set ds \<subseteq> set cs" "live_below cs L"
  obtains L' ch' where "fold_each (live_step cs) ds (L, ch) = Inr (L', ch')" "live_below cs L'"
    "missing cs L' \<le> missing cs L" "ch' \<longrightarrow> ch \<or> missing cs L' < missing cs L"
    "\<not> ch' \<longrightarrow> \<not> ch \<and> L' = L \<and> (\<forall>c \<in> set ds. L ! con_id c = needs cs L c)"
  using assms(3,4)
proof (induction ds arbitrary: L ch thesis)
  case (Cons c ds)
  have c: "con_id c < length cs" "cs ! con_id c = c" using Cons.prems assms(2) ids_placed_in by auto
  note step = live_step_fits [OF assms(1,2) Cons.prems(3), of c ch]
  show ?case
  proof (cases "L ! con_id c = needs cs L c")
    case True
    obtain L' ch' where "fold_each (live_step cs) ds (L, ch) = Inr (L', ch')" "live_below cs L'"
        "missing cs L' \<le> missing cs L" "ch' \<longrightarrow> ch \<or> missing cs L' < missing cs L"
        "\<not> ch' \<longrightarrow> \<not> ch \<and> L' = L \<and> (\<forall>c \<in> set ds. L ! con_id c = needs cs L c)"
      using Cons.IH [of L ch] Cons.prems by auto
    with True step Cons.prems(2) show ?thesis by (intro Cons.prems(1) [of L' ch']) auto
  next
    case False
    let ?L = "L[con_id c := needs cs L c]"
    have below: "live_below cs ?L" and less: "missing cs ?L < missing cs L"
      using live_below_update [OF assms(1) Cons.prems(3) c(1)] missing_update [OF assms(1) Cons.prems(3) c(1)] False c
      by simp_all
    obtain L' ch' where "fold_each (live_step cs) ds (?L, True) = Inr (L', ch')" "live_below cs L'"
        "missing cs L' \<le> missing cs ?L" "\<not> ch' \<longrightarrow> False"
      using Cons.IH [of ?L True] Cons.prems below by auto
    with False step Cons.prems(2) less show ?thesis by (intro Cons.prems(1) [of L' ch']) auto
  qed
qed auto

lemma live_loop_returns:
  assumes "edges_fit cs" "ids_placed cs" "live_below cs L"
  shows "\<exists>L'. live_loop cs L = Some (Inr L') \<and> live_below cs L' \<and> (\<forall>c \<in> set cs. L' ! con_id c = needs cs L' c)"
  using assms(3)
proof (induction "missing cs L" arbitrary: L rule: less_induct)
  case less
  have "set (rev cs) \<subseteq> set cs" by simp
  then obtain L' ch where pass: "fold_each (live_step cs) (rev cs) (L, False) = Inr (L', ch)"
      and below: "live_below cs L'" and "missing cs L' \<le> missing cs L"
      and more: "ch \<longrightarrow> False \<or> missing cs L' < missing cs L"
      and same: "\<not> ch \<longrightarrow> \<not> False \<and> L' = L \<and> (\<forall>c \<in> set (rev cs). L ! con_id c = needs cs L c)"
    by (rule live_fold [OF assms(1,2) _ less.prems, where ch = False])
  show ?case
  proof (cases ch)
    case True
    from less.hyps [OF _ below] more show ?thesis
      using True pass by (simp add: live_loop.simps [of cs L] live_pass_def)
  next
    case False
    with same pass below show ?thesis by (simp add: live_loop.simps [of cs L] live_pass_def)
  qed
qed

lemma live_at_needed:
  assumes "ids_placed cs" "\<forall>c \<in> set cs. L ! con_id c = needs cs L c"
  shows "live_at cs i v \<Longrightarrow> v \<in> L ! i"
proof (induction rule: live_at.induct)
  case (live_read i v)
  with assms have "L ! i = needs cs L (cs ! i)" by (metis ids_placed_nth nth_mem)
  with live_read show ?case unfolding needs_def by (auto elim!: reads_first_mono)
next
  case (live_pass i e v)
  with assms have "L ! i = needs cs L (cs ! i)" by (metis ids_placed_nth nth_mem)
  with live_pass show ?case unfolding needs_def defined_values_def
    by (auto intro!: reads_first_late)
qed

lemma live_pass_unfit:
  assumes "\<not> edges_fit cs" "ids_placed cs" "length L = length cs"
  shows "\<exists>x. live_pass cs L = Inl x \<and> edge_fault x"
proof -
  have "\<exists>x. fold_each (live_step cs) ds (L, ch) = Inl x \<and> edge_fault x"
    if "set ds \<subseteq> set cs" "\<exists>c \<in> set ds. \<exists>e \<in> outgoing c. \<not> edge_fits cs e" "length L = length cs" for ds L ch
    using that
  proof (induction ds arbitrary: L ch)
    case (Cons c ds)
    show ?case
    proof (cases "\<exists>e \<in> outgoing c. \<not> edge_fits cs e")
      case True
      from continuation_needs_unfit [OF this, of L] show ?thesis by (auto simp: live_step_def)
    next
      case False
      with Cons.prems ids_placed_in [OF assms(2), of c] continuation_needs_fits [of c cs L]
      have "\<exists>L' ch'. live_step cs c (L, ch) = Inr (L', ch') \<and> length L' = length cs"
        by (auto simp: live_step_def)
      with Cons False show ?thesis by auto
    qed
  qed simp
  from this [of "rev cs" L False] assms show ?thesis by (auto simp: edges_fit_def live_pass_def)
qed

lemma live_below_start: "live_below cs (replicate (length cs) {})"
  by (simp add: live_below_def)

lemma live_inputs_cases:
  assumes "ids_placed (fun_continuations f)"
  shows "case live_inputs f of
      Inr L \<Rightarrow> edges_fit (fun_continuations f) \<and> length L = length (fun_continuations f) \<and>
        (\<forall>i < length (fun_continuations f). L ! i = {v. live_at (fun_continuations f) i v})
    | Inl x \<Rightarrow> \<not> edges_fit (fun_continuations f) \<and> edge_fault x"
proof (cases "edges_fit (fun_continuations f)")
  case True
  let ?cs = "fun_continuations f"
  from live_loop_returns [OF True assms live_below_start] obtain L
    where L: "live_loop ?cs (replicate (length ?cs) {}) = Some (Inr L)" "live_below ?cs L"
      "\<forall>c \<in> set ?cs. L ! con_id c = needs ?cs L c" by blast
  with live_at_needed [OF assms L(3)] have "L ! i = {v. live_at ?cs i v}" if "i < length ?cs" for i
    using that by (auto simp: live_below_def)
  with L True show ?thesis by (simp add: live_inputs_def live_below_def)
next
  case False
  from live_pass_unfit [OF False assms, of "replicate (length (fun_continuations f)) {}"] False show ?thesis
    by (auto simp: live_inputs_def live_loop.simps)
qed

section \<open>What the captures are\<close>

abbreviation add_definitions :: "value_definition list \<Rightarrow> (nat \<rightharpoonup> value_definition) \<Rightarrow> nat \<rightharpoonup> value_definition" where
  "add_definitions \<equiv> fold (\<lambda>d m. m(def_value d \<mapsto> d))"

lemma insert_values:
  "fold_each (insert_value f) ds defs = Inr defs' \<longleftrightarrow>
     distinct (map def_value ds) \<and> (\<forall>d \<in> set ds. defs (def_value d) = None) \<and> defs' = add_definitions ds defs"
proof (induction ds arbitrary: defs)
  case (Cons d ds)
  show ?case
  proof (cases "defs (def_value d)")
    case None
    then have "fold_each (insert_value f) (d # ds) defs = fold_each (insert_value f) ds (defs(def_value d \<mapsto> d))"
      by (simp add: insert_value_def)
    moreover have "(\<forall>e \<in> set ds. (defs(def_value d \<mapsto> d)) (def_value e) = None) \<longleftrightarrow>
        def_value d \<notin> def_value ` set ds \<and> (\<forall>e \<in> set ds. defs (def_value e) = None)"
      by (auto simp: image_iff)
    ultimately show ?thesis using None by (simp add: Cons.IH del: fun_upd_apply) blast
  qed (simp add: insert_value_def)
qed auto

lemma add_definitions_Some:
  "distinct (map def_value ds) \<Longrightarrow> add_definitions ds m v = Some d \<longleftrightarrow>
     d \<in> set ds \<and> def_value d = v \<or> v \<notin> def_value ` set ds \<and> m v = Some d"
  by (induction ds arbitrary: m) auto

lemma insert_values_fault:
  "fold_each (insert_value f) ds defs = Inl x \<Longrightarrow> \<exists>v. x = RepeatedValue f v"
  by (induction ds arbitrary: defs) (auto simp: insert_value_def and_then_eq_Inl split: if_splits)

definition all_definitions :: "graph_function \<Rightarrow> value_definition list" where
  "all_definitions f = concat (map continuation_definitions (fun_continuations f))"

lemma function_definitions_Inr:
  "function_definitions f = Inr defs \<longleftrightarrow> distinct (map def_value (all_definitions f)) \<and>
     defs = add_definitions (all_definitions f) Map.empty"
  by (simp add: function_definitions_def all_definitions_def insert_values)

lemma definition_found:
  "function_definitions f = Inr defs \<Longrightarrow> defs v = Some d \<longleftrightarrow> d \<in> set (all_definitions f) \<and> def_value d = v"
  by (auto simp: function_definitions_Inr add_definitions_Some)

lemma fill_continuation_Inr:
  assumes "function_definitions f = Inr defs" "con_id c < length L" "fill_continuation n L defs c = Inr c'"
  shows "c' = c\<lparr>con_captures := con_captures c'\<rparr> \<and> map def_value (con_captures c') = capture_list L c \<and>
    set (con_captures c') \<subseteq> set (all_definitions f)"
proof -
  from assms(2,3) obtain ds where ds: "c' = c\<lparr>con_captures := ds\<rparr>"
      "list_all2 (\<lambda>v d. defs v = Some d) (capture_list L c) ds"
    by (auto simp: fill_continuation_def and_then_eq_Inr collect_Inr list_all2_conv_all_nth split: option.splits)
  then have "list_all2 (\<lambda>v d. d \<in> set (all_definitions f) \<and> def_value d = v) (capture_list L c) ds"
    by (simp add: definition_found [OF assms(1)])
  then have "map def_value ds = capture_list L c \<and> set ds \<subseteq> set (all_definitions f)"
    by (induction rule: list_all2_induct) auto
  with ds show ?thesis by simp
qed

lemma fill_continuation_fault:
  assumes "con_id c < length L" "fill_continuation n L defs c = Inl x"
  shows "\<exists>v. x = UsesAbsentValue n v"
proof -
  have "collect (\<lambda>v. case defs v of None \<Rightarrow> Inl (UsesAbsentValue n v) | Some d \<Rightarrow> Inr d) vs = Inl x \<Longrightarrow>
      \<exists>v. x = UsesAbsentValue n v" for vs
    by (induction vs) (auto simp: and_then_eq_Inl split: option.splits)
  with assms show ?thesis by (auto simp: fill_continuation_def and_then_eq_Inl)
qed

lemma collect_fault: "collect f xs = Inl e \<Longrightarrow> \<exists>x \<in> set xs. f x = Inl e"
  by (induction xs) (auto simp: and_then_eq_Inl)

text \<open>The captures of continuation \<open>i\<close>: the values live there that it does not receive, by number.\<close>

definition free_inputs :: "continuation list \<Rightarrow> nat \<Rightarrow> nat list" where
  "free_inputs cs i = sorted_list_of_set ({v. live_at cs i v} - set (parameter_values (cs ! i)))"

definition same_but_captures :: "continuation \<Rightarrow> continuation \<Rightarrow> bool" where
  "same_but_captures c c' \<longleftrightarrow> c' = c\<lparr>con_captures := con_captures c'\<rparr>"


text \<open>A loop that carries value 0 around and returns value 2, defined before the loop.\<close>

definition sample_span :: runtime_span where
  "sample_span = \<lparr>span_file = ''m'', span_from = 0, span_to = 1\<rparr>"

definition sample_definition :: "nat \<Rightarrow> nat \<Rightarrow> value_definition" where
  "sample_definition v t = \<lparr>def_value = v, def_type = t, def_ownership = ''plain'', def_span = sample_span\<rparr>"

definition sample_loop :: graph_function where
  "sample_loop =
     \<lparr>fun_id = 0, fun_name = ''loop'', fun_signature = 0, fun_entry = 0,
      fun_continuations =
        [\<lparr>con_id = 0, con_parameters = [sample_definition 0 0, sample_definition 2 1], con_captures = [],
          con_instructions = [], con_transition = Jump \<lparr>edge_target = 1, edge_arguments = [ArgumentValue 0]\<rparr>,
          con_span = sample_span\<rparr>,
         \<lparr>con_id = 1, con_parameters = [sample_definition 1 0], con_captures = [], con_instructions = [],
          con_transition =
            BranchOn 1 \<lparr>edge_target = 1, edge_arguments = [ArgumentValue 1]\<rparr> \<lparr>edge_target = 2, edge_arguments = []\<rparr>,
          con_span = sample_span\<rparr>,
         \<lparr>con_id = 2, con_parameters = [], con_captures = [], con_instructions = [],
          con_transition = ReturnFrom 2, con_span = sample_span\<rparr>],
      fun_suspends = False, fun_framed = False, fun_reuse = None, fun_span = sample_span\<rparr>"

lemma sample_loop_shape: "ids_placed (fun_continuations sample_loop)" "fun_entry sample_loop < length (fun_continuations sample_loop)"
  by (simp_all add: sample_loop_def ids_placed_def upt_conv_Cons)

declare live_loop.simps [code]

lemma sample_loop_filled:
  "map_sum id (\<lambda>f. map (\<lambda>c. map def_value (con_captures c)) (fun_continuations f)) (fill_captures sample_loop) =
     Inr [[], [2], [2]]"
  by code_simp


end
