(* ===== verification/ContinuationValidation.thy ===== *)
theory ContinuationValidation
  imports ContinuationLiveness
begin

text \<open>
  The check of a continuation graph against its tables: \<open>Graph::validate\<close> in
  \<open>compiler/src/continuation.rs\<close> and the checks of \<open>compiler/src/continuation_validation.rs\<close>,
  in the order the code makes them.
\<close>

section \<open>Constants\<close>

text \<open>\<open>str::parse::<i64>\<close>: an optional sign and at least one decimal digit, in range.\<close>

definition digit_value :: "char \<Rightarrow> nat option" where
  "digit_value c = (let n = of_char c :: nat in if 48 \<le> n \<and> n \<le> 57 then Some (n - 48) else None)"

fun parse_digits :: "string \<Rightarrow> nat \<Rightarrow> nat option" where
  "parse_digits [] n = Some n"
| "parse_digits (c # cs) n =
     (case digit_value c of None \<Rightarrow> None | Some d \<Rightarrow> parse_digits cs (10 * n + d))"

definition parse_i64 :: "string \<Rightarrow> int option" where
  "parse_i64 s =
     (let negative = (s \<noteq> [] \<and> hd s = CHR ''-'');
          digits = (if s \<noteq> [] \<and> hd s \<in> {CHR ''-'', CHR ''+''} then tl s else s)
      in if digits = [] then None
         else case parse_digits digits 0 of
           None \<Rightarrow> None
         | Some n \<Rightarrow>
             (let v = if negative then - int n else int n in if in_i64 v then Some v else None))"

definition constant_matches :: "wire_constant \<Rightarrow> runtime_type \<Rightarrow> bool" where
  "constant_matches v t \<longleftrightarrow>
     (case v of
        UnitConstant \<Rightarrow> t = UnitType
      | BooleanConstant _ \<Rightarrow> t = BooleanType
      | SignedInteger32Constant _ \<Rightarrow> t = Integer32Type
      | Float32Constant _ \<Rightarrow> t = Float32Type
      | Float64Constant _ \<Rightarrow> t = Float64Type
      | TextConstant _ \<Rightarrow> t = TextType
      | SignedInteger64Constant s \<Rightarrow> t = SignedInteger64Type \<and> parse_i64 s \<noteq> None)"

section \<open>Tables\<close>

definition require_type :: "runtime_tables \<Rightarrow> nat \<Rightarrow> (graph_fault, unit) result" where
  "require_type m t = ensure (t < length (table_types m)) (AbsentRepresentation t)"

definition insert_name :: "graph_fault \<Rightarrow> string \<Rightarrow> string set \<Rightarrow> (graph_fault, string set) result" where
  "insert_name fault n names = (if n \<in> names then Inl fault else Inr (insert n names))"

definition check_fields :: "runtime_tables \<Rightarrow> nat \<Rightarrow> runtime_field list \<Rightarrow> (graph_fault, string set) result" where
  "check_fields m index members =
     fold_each (\<lambda>d names. and_then (require_type m (field_type d)) (\<lambda>_.
       insert_name (ProductRepeatsField index) (field_name d) names)) members {}"

definition check_cases :: "runtime_tables \<Rightarrow> nat \<Rightarrow> runtime_case list \<Rightarrow> (graph_fault, string set) result" where
  "check_cases m index cases =
     fold_each (\<lambda>d names. and_then (require_type m (payload_type d)) (\<lambda>_.
       insert_name (SumRepeatsCase index) (case_name d) names)) cases {}"

definition check_callback ::
  "graph \<Rightarrow> runtime_tables \<Rightarrow> nat \<Rightarrow> nat \<Rightarrow> nat \<Rightarrow> (graph_fault, unit) result" where
  "check_callback g m function signature environment =
     and_then (require_type m environment) (\<lambda>_.
       if function \<ge> length g then Inl CallbackWithoutFunction
       else if fun_signature (g ! function) \<noteq> signature then Inl CallbackChangedSignature
       else if signature \<ge> length (table_signatures m) then Inl CallbackWithoutSignature
       else
         (case table_types m ! environment of
            ProductType _ members \<Rightarrow>
              (let parameters = sig_parameters (table_signatures m ! signature)
               in if parameters = [] \<or> map field_type members \<noteq> drop 1 parameters
                  then Inl CallbackEnvironmentDisagrees
                  else ensure (fun_framed (g ! function)) CallbackWithoutFrame)
          | _ \<Rightarrow> Inl CallbackEnvironmentNotProduct))"

fun check_type :: "graph \<Rightarrow> runtime_tables \<Rightarrow> nat \<times> runtime_type \<Rightarrow> (graph_fault, unit) result" where
  "check_type g m (index, ResourceType _ payload) = require_type m payload"
| "check_type g m (index, StoreType element) = require_type m element"
| "check_type g m (index, ScratchType element) = require_type m element"
| "check_type g m (index, IndirectType target) = require_type m target"
| "check_type g m (index, SealedType _ representation) = require_type m representation"
| "check_type g m (index, ProductType _ members) = and_then (check_fields m index members) (\<lambda>_. Inr ())"
| "check_type g m (index, SumType _ cases) = and_then (check_cases m index cases) (\<lambda>_. Inr ())"
| "check_type g m (index, CallbackType function signature environment) =
     check_callback g m function signature environment"
| "check_type g m (index, _) = Inr ()"

definition check_store :: "runtime_tables \<Rightarrow> static_store \<Rightarrow> (graph_fault, unit) result" where
  "check_store m s =
     and_then (require_type m (store_element s)) (\<lambda>_.
       ensure (list_all (\<lambda>v. constant_matches v (table_types m ! store_element s)) (store_values s))
         StaticStoreDisagrees)"

definition validate_tables :: "graph \<Rightarrow> runtime_tables \<Rightarrow> (graph_fault, unit) result" where
  "validate_tables g m =
     and_then (check_each (check_type g m) (enumerate 0 (table_types m))) (\<lambda>_.
     and_then (check_each (\<lambda>s. check_each (require_type m) (sig_parameters s @ [sig_result s])) (table_signatures m)) (\<lambda>_.
       check_each (check_store m) (table_static_stores m)))"

section \<open>Instructions\<close>

text \<open>An index into the type table.\<close>

definition type_at :: "runtime_tables \<Rightarrow> nat \<Rightarrow> (graph_fault, runtime_type) result" where
  "type_at m t = (if t < length (table_types m) then Inr (table_types m ! t) else Inl GraphPanic)"

definition selected :: "nat option \<Rightarrow> 'a list \<Rightarrow> 'a option" where
  "selected i xs = (case i of None \<Rightarrow> None | Some n \<Rightarrow> if n < length xs then Some (xs ! n) else None)"

definition metadata_allowed :: "instruction_operation \<Rightarrow> bool" where
  "metadata_allowed op \<longleftrightarrow>
     (op_value op \<noteq> None \<longrightarrow> op_kind op = ''constant'') \<and>
     (op_case op \<noteq> None \<longrightarrow> op_kind op \<in> {''sum.make'', ''sum.payload''}) \<and>
     (op_field op \<noteq> None \<longrightarrow> op_kind op \<in> {''product.project'', ''store.read.field''}) \<and>
     (op_operator op \<noteq> None \<longrightarrow> op_kind op \<in> {''scalar'', ''scalar.unary'', ''vector''}) \<and>
     (op_conversion op \<noteq> None \<longrightarrow> op_kind op = ''convert'') \<and>
     (op_update op \<noteq> None \<longrightarrow> op_kind op \<in> {''store.write'', ''store.grow''}) \<and>
     (op_static_store op \<noteq> None \<longrightarrow> op_kind op = ''store.literal'') \<and>
     (op_lane op \<noteq> None \<longrightarrow> op_kind op = ''vector'' \<and> op_operator op \<in> {Some ''extract'', Some ''replace''}) \<and>
     (op_function op \<noteq> None \<longrightarrow> op_kind op = ''callback.make'') \<and>
     (op_signature op \<noteq> None \<longrightarrow> op_kind op = ''callback.make'')"

definition scalar_matches :: "string option \<Rightarrow> nat \<Rightarrow> runtime_type \<Rightarrow> nat list \<Rightarrow> runtime_type list \<Rightarrow> bool" where
  "scalar_matches operator result_id result operands types \<longleftrightarrow>
     length operands = 2 \<and> operands ! 0 = operands ! 1 \<and>
     types ! 0 \<in> {Integer32Type, SignedInteger64Type, Float32Type, Float64Type, BooleanType} \<and>
     (if operator \<in> {Some ''equal'', Some ''not-equal'', Some ''less-than'', Some ''less-than-or-equal'',
           Some ''greater-than'', Some ''greater-than-or-equal''} then result = BooleanType
      else operator \<in> {Some ''add'', Some ''subtract'', Some ''multiply'', Some ''divide'', Some ''remainder''} \<and>
        result_id = operands ! 0 \<and> result \<noteq> BooleanType)"

definition unary_matches :: "string option \<Rightarrow> nat \<Rightarrow> runtime_type \<Rightarrow> nat list \<Rightarrow> bool" where
  "unary_matches operator result_id result operands \<longleftrightarrow>
     operands = [result_id] \<and>
     (result \<in> {Float32Type, Float64Type} \<and> operator = Some ''negate'' \<or>
      result = Float32Type \<and> operator = Some ''square-root'')"

definition conversion_name :: "runtime_type \<Rightarrow> runtime_type \<Rightarrow> string option" where
  "conversion_name operand result =
     (if (operand, result) = (Float32Type, Float64Type) then Some ''float-32-to-float-64''
      else if (operand, result) = (Float64Type, Float32Type) then Some ''float-64-to-float-32''
      else if (operand, result) = (Float64Type, SignedInteger64Type) then Some ''float-64-to-signed-integer-64''
      else if (operand, result) = (Integer32Type, SignedInteger64Type) then
        Some ''signed-integer-32-to-signed-integer-64''
      else if (operand, result) = (SignedInteger64Type, Integer32Type) then
        Some ''signed-integer-64-to-signed-integer-32''
      else if (operand, result) = (SignedInteger64Type, Float32Type) then Some ''signed-integer-64-to-float-32''
      else if (operand, result) = (SignedInteger64Type, Float64Type) then Some ''signed-integer-64-to-float-64''
      else None)"

definition convert_matches :: "string option \<Rightarrow> runtime_type \<Rightarrow> runtime_type list \<Rightarrow> bool" where
  "convert_matches conversion result types \<longleftrightarrow>
     (case types of
        [operand] \<Rightarrow> conversion_name operand result \<noteq> None \<and> conversion = conversion_name operand result
      | _ \<Rightarrow> False)"

text \<open>Products, sums, indirections, seals, callbacks and resources.\<close>

definition aggregate_matches ::
  "instruction_operation \<Rightarrow> nat \<Rightarrow> runtime_type \<Rightarrow> nat list \<Rightarrow> runtime_type list \<Rightarrow> bool" where
  "aggregate_matches op result_id result operands types \<longleftrightarrow>
     (if op_kind op = ''product.make'' then
        (case result of ProductType _ members \<Rightarrow> map field_type members = operands | _ \<Rightarrow> False)
      else if op_kind op = ''product.project'' then
        (case types of
           [ProductType _ members] \<Rightarrow> map_option field_type (selected (op_field op) members) = Some result_id
         | _ \<Rightarrow> False)
      else if op_kind op = ''sum.make'' then
        (case result of
           SumType _ cases \<Rightarrow>
             (case selected (op_case op) cases of Some c \<Rightarrow> operands = [payload_type c] | None \<Rightarrow> False)
         | _ \<Rightarrow> False)
      else if op_kind op = ''sum.tag'' then
        result = Integer32Type \<and> (case types of [SumType _ _] \<Rightarrow> True | _ \<Rightarrow> False)
      else if op_kind op = ''sum.payload'' then
        (case types of
           [SumType _ cases] \<Rightarrow> map_option payload_type (selected (op_case op) cases) = Some result_id
         | _ \<Rightarrow> False)
      else if op_kind op = ''indirect.make'' then
        (case result of IndirectType target \<Rightarrow> operands = [target] | _ \<Rightarrow> False)
      else if op_kind op = ''indirect.load'' then
        (case types of [IndirectType target] \<Rightarrow> target = result_id | _ \<Rightarrow> False)
      else if op_kind op = ''seal.wrap'' then
        (case result of SealedType _ representation \<Rightarrow> operands = [representation] | _ \<Rightarrow> False)
      else if op_kind op = ''seal.unwrap'' then
        (case types of [SealedType _ representation] \<Rightarrow> representation = result_id | _ \<Rightarrow> False)
      else if op_kind op = ''callback.make'' then
        (case result of
           CallbackType function signature environment \<Rightarrow>
             operands = [environment] \<and> op_function op = Some function \<and> op_signature op \<in> {None, Some signature}
         | _ \<Rightarrow> False)
      else if op_kind op \<in> {''resource.move'', ''resource.borrow'', ''resource.freeze''} then
        (case result of ResourceType _ _ \<Rightarrow> operands = [result_id] | _ \<Rightarrow> False)
      else False)"

definition scratch_matches ::
  "instruction_operation \<Rightarrow> nat \<Rightarrow> runtime_type \<Rightarrow> nat list \<Rightarrow> runtime_type list \<Rightarrow> bool" where
  "scratch_matches op result_id result operands types \<longleftrightarrow>
     (if op_kind op = ''scratch.with-capacity'' then
        (case result of ScratchType _ \<Rightarrow> types = [SignedInteger64Type] | _ \<Rightarrow> False)
      else if op_kind op = ''scratch.push'' then
        (case result of ScratchType element \<Rightarrow> operands = [result_id, element] | _ \<Rightarrow> False)
      else if op_kind op = ''scratch.finish'' then
        (case (types, result) of ([ScratchType a], StoreType b) \<Rightarrow> a = b | _ \<Rightarrow> False)
      else if op_kind op = ''scratch.recycle'' then
        (case (types, result) of ([StoreType a], ScratchType b) \<Rightarrow> a = b | _ \<Rightarrow> False)
      else False)"

definition store_matches ::
  "runtime_tables \<Rightarrow> instruction_operation \<Rightarrow> string \<Rightarrow> nat \<Rightarrow> runtime_type \<Rightarrow> nat list \<Rightarrow> runtime_type list \<Rightarrow>
   (graph_fault, bool) result" where
  "store_matches m op ownership result_id result operands types =
     (if op_kind op = ''store.empty'' then
        Inr (operands = [] \<and> (case result of StoreType _ \<Rightarrow> True | _ \<Rightarrow> False))
      else if op_kind op = ''store.literal'' then
        Inr (case result of
           StoreType element \<Rightarrow>
             (case op_static_store op of
                Some s \<Rightarrow>
                  operands = [] \<and> map_option store_element (selected (Some s) (table_static_stores m)) = Some element
              | None \<Rightarrow> list_all (\<lambda>t. t = element) operands)
         | _ \<Rightarrow> False)
      else if op_kind op = ''store.new'' then
        Inr (case result of
           StoreType element \<Rightarrow>
             length operands = 2 \<and> types ! 0 = SignedInteger64Type \<and> operands ! 1 = element
         | _ \<Rightarrow> False)
      else if op_kind op = ''store.length'' then
        Inr (result = SignedInteger64Type \<and> (case types of [StoreType _] \<Rightarrow> True | _ \<Rightarrow> False))
      else if op_kind op = ''store.read'' then
        Inr (case types of [StoreType element, SignedInteger64Type] \<Rightarrow> element = result_id | _ \<Rightarrow> False)
      else if op_kind op = ''store.read.field'' then
        (case types of
           [StoreType element, SignedInteger64Type] \<Rightarrow>
             and_then (type_at m element) (\<lambda>t. Inr (case t of
                ProductType _ members \<Rightarrow> map_option field_type (selected (op_field op) members) = Some result_id
              | _ \<Rightarrow> False))
         | _ \<Rightarrow> Inr False)
      else if op_kind op \<in> {''store.write'', ''store.grow''} then
        Inr (case result of
           StoreType element \<Rightarrow>
             op_update op \<in> {Some ''owned-reuse'', Some ''persistent''} \<and>
             (op_update op = Some ''owned-reuse'' \<longrightarrow> ownership = ''owned'') \<and>
             (if op_kind op = ''store.grow'' then operands = [result_id, element]
              else length operands = 3 \<and> operands ! 0 = result_id \<and> types ! 1 = SignedInteger64Type \<and>
                operands ! 2 = element)
         | _ \<Rightarrow> False)
      else Inr False)"

definition next_byte_matches ::
  "runtime_tables \<Rightarrow> runtime_type \<Rightarrow> runtime_type list \<Rightarrow> (graph_fault, bool) result" where
  "next_byte_matches m result types =
     (if types \<noteq> [TextType, SignedInteger64Type] then Inr False
      else
        case result of
          SumType _ [none, some] \<Rightarrow>
            if case_name none \<noteq> ''None'' \<or> case_name some \<noteq> ''Some'' then Inr False
            else
              and_then (type_at m (payload_type none)) (\<lambda>unit.
                if unit \<noteq> UnitType then Inr False
                else
                  and_then (type_at m (payload_type some)) (\<lambda>payload.
                    case payload of
                      ProductType _ [one, two] \<Rightarrow>
                        if field_name one \<noteq> ''0'' \<or> field_name two \<noteq> ''1'' then Inr False
                        else
                          and_then (type_at m (field_type one)) (\<lambda>t.
                            if t \<noteq> TextType then Inr False
                            else and_then (type_at m (field_type two)) (\<lambda>t. Inr (t = SignedInteger64Type)))
                    | _ \<Rightarrow> Inr False))
        | _ \<Rightarrow> Inr False)"

definition text_matches ::
  "runtime_tables \<Rightarrow> string \<Rightarrow> runtime_type \<Rightarrow> runtime_type list \<Rightarrow> (graph_fault, bool) result" where
  "text_matches m kind result types =
     (if kind = ''text.append'' then Inr (result = TextType \<and> types = [TextType, TextType])
      else if kind = ''text.join'' then
        (case types of
           [StoreType element] \<Rightarrow>
             if result \<noteq> TextType then Inr False
             else and_then (type_at m element) (\<lambda>t. Inr (t = TextType))
         | _ \<Rightarrow> Inr False)
      else if kind \<in> {''text.length'', ''text.byte-length''} then
        Inr (result = SignedInteger64Type \<and> types = [TextType])
      else if kind = ''text.scalar-at'' then Inr (result = TextType \<and> types = [TextType, SignedInteger64Type])
      else if kind = ''text.next-byte'' then next_byte_matches m result types
      else if kind \<in> {''text.slice'', ''text.slice-bytes''} then
        Inr (result = TextType \<and> types = [TextType, SignedInteger64Type, SignedInteger64Type])
      else if kind \<in> {''text.find-from'', ''text.find-byte-from''} then
        Inr (result = SignedInteger64Type \<and> types = [TextType, TextType, SignedInteger64Type])
      else if kind = ''text.compare'' then Inr (result = Integer32Type \<and> types = [TextType, TextType])
      else if kind = ''text.contains'' then Inr (result = BooleanType \<and> types = [TextType, TextType])
      else if kind = ''text.from-i64'' then Inr (result = TextType \<and> types = [SignedInteger64Type])
      else Inr False)"

definition lane_shape :: "runtime_type \<Rightarrow> (string \<times> u8) option" where
  "lane_shape t =
     (case t of VectorType element lanes \<Rightarrow> Some (element, lanes) | MaskType element lanes \<Rightarrow> Some (element, lanes)
      | _ \<Rightarrow> None)"

text \<open>The first instruction of the function that defines a value.\<close>

definition defining_instruction :: "graph_function \<Rightarrow> nat \<Rightarrow> instruction option" where
  "defining_instruction f v =
     find (\<lambda>i. def_value (ins_definition i) = v) (concat (map con_instructions (fun_continuations f)))"

definition constant_lane :: "graph_function \<Rightarrow> nat \<Rightarrow> bool" where
  "constant_lane f selector \<longleftrightarrow>
     (case defining_instruction f selector of
        None \<Rightarrow> False
      | Some i \<Rightarrow>
          op_kind (ins_operation i) = ''constant'' \<and>
          (case op_value (ins_operation i) of
             Some (SignedInteger32Constant n) \<Rightarrow> 0 \<le> sint n \<and> sint n \<le> 7
           | _ \<Rightarrow> False))"

definition vector_matches ::
  "instruction_operation \<Rightarrow> runtime_type \<Rightarrow> nat list \<Rightarrow> runtime_type list \<Rightarrow> graph_function \<Rightarrow> bool" where
  "vector_matches op result operand_values types f \<longleftrightarrow>
     (case (case lane_shape result of Some s \<Rightarrow> Some s
            | None \<Rightarrow> (case types of [] \<Rightarrow> None | t # _ \<Rightarrow> lane_shape t)) of
        None \<Rightarrow> False
      | Some (element, lanes) \<Rightarrow>
          if (element, lanes) \<notin> {(''float-32'', 4), (''integer-32'', 4), (''integer-16'', 8), (''integer-8'', 16)} then False
          else
            (let vector = VectorType element lanes;
                 mask = MaskType element lanes;
                 scalar = (if element = ''float-32'' then Float32Type else Integer32Type);
                 lane_valid = (case op_lane op of None \<Rightarrow> False | Some lane \<Rightarrow> lane < lanes)
             in case op_operator op of
                  None \<Rightarrow> False
                | Some operator \<Rightarrow>
                    if operator = ''make'' then
                      lanes = 4 \<and> result = vector \<and> length types = unat lanes \<and> list_all (\<lambda>t. t = scalar) types
                    else if operator = ''splat'' then result = vector \<and> types = [scalar]
                    else if operator = ''extract'' then lanes = 4 \<and> result = scalar \<and> types = [vector] \<and> lane_valid
                    else if operator = ''replace'' then
                      element = ''integer-32'' \<and> result = vector \<and> types = [vector, scalar] \<and> lane_valid
                    else if operator \<in> {''add'', ''subtract'', ''multiply''} then result = vector \<and> types = [vector, vector]
                    else if operator = ''divide'' then
                      element = ''float-32'' \<and> result = vector \<and> types = [vector, vector]
                    else if operator = ''equal'' then result = mask \<and> types = [vector, vector]
                    else if operator = ''less-than'' then
                      element = ''float-32'' \<and> result = mask \<and> types = [vector, vector]
                    else if operator \<in> {''not-equal'', ''less-than-signed'', ''less-than-unsigned'', ''greater-than-signed'',
                        ''greater-than-unsigned'', ''less-than-or-equal-signed'', ''less-than-or-equal-unsigned'',
                        ''greater-than-or-equal-signed'', ''greater-than-or-equal-unsigned''} then
                      element \<noteq> ''float-32'' \<and> result = mask \<and> types = [vector, vector]
                    else if operator \<in> {''bit-and'', ''bit-or'', ''bit-xor''} then
                      element \<noteq> ''float-32'' \<and> (result = vector \<or> result = mask) \<and> types = [result, result]
                    else if operator = ''bit-not'' then
                      element \<noteq> ''float-32'' \<and> (result = vector \<or> result = mask) \<and> types = [result]
                    else if operator \<in> {''shift-left'', ''shift-right-signed'', ''shift-right-unsigned''} then
                      element \<noteq> ''float-32'' \<and> result = vector \<and> types = [vector, Integer32Type]
                    else if operator \<in> {''minimum-signed'', ''minimum-unsigned'', ''maximum-signed'', ''maximum-unsigned''} then
                      element \<noteq> ''float-32'' \<and> result = vector \<and> types = [vector, vector]
                    else if operator = ''select'' then result = vector \<and> types = [mask, vector, vector]
                    else if operator = ''mask-bitmask'' then
                      element \<noteq> ''float-32'' \<and> result = Integer32Type \<and> types = [mask]
                    else if operator \<in> {''mask-all'', ''mask-any''} then result = Integer32Type \<and> types = [mask]
                    else if operator = ''sum'' then element = ''float-32'' \<and> result = scalar \<and> types = [vector]
                    else if operator = ''shuffle'' then
                      element = ''float-32'' \<and> result = vector \<and>
                      types = [vector, vector, Integer32Type, Integer32Type, Integer32Type, Integer32Type] \<and>
                      list_all (constant_lane f) (drop 2 operand_values)
                    else False))"

definition instruction_matches ::
  "runtime_tables \<Rightarrow> instruction \<Rightarrow> nat list \<Rightarrow> graph_function \<Rightarrow> (graph_fault, bool) result" where
  "instruction_matches m i operands f =
     (let op = ins_operation i; kind = op_kind op; result_id = def_type (ins_definition i)
      in and_then (type_at m result_id) (\<lambda>result.
         and_then (collect (type_at m) operands) (\<lambda>types.
           if \<not> metadata_allowed op then Inr False
           else if kind = ''constant'' then
             Inr (operands = [] \<and> (case op_value op of Some v \<Rightarrow> constant_matches v result | None \<Rightarrow> False))
           else if kind = ''scalar'' then Inr (scalar_matches (op_operator op) result_id result operands types)
           else if kind = ''scalar.unary'' then Inr (unary_matches (op_operator op) result_id result operands)
           else if kind = ''convert'' then Inr (convert_matches (op_conversion op) result types)
           else if kind = ''vector'' then Inr (vector_matches op result (ins_operands i) types f)
           else if take 6 kind = ''store.'' then
             store_matches m op (def_ownership (ins_definition i)) result_id result operands types
           else if take 8 kind = ''scratch.'' then Inr (scratch_matches op result_id result operands types)
           else if take 5 kind = ''text.'' then text_matches m kind result types
           else Inr (aggregate_matches op result_id result operands types))))"

text \<open>The types of the values an instruction, a transition or an edge may read.\<close>

type_synonym available = "nat \<rightharpoonup> nat"

definition available_type :: "available \<Rightarrow> nat \<Rightarrow> (graph_fault, nat) result" where
  "available_type available v = (case available v of None \<Rightarrow> Inl GraphPanic | Some t \<Rightarrow> Inr t)"

definition validate_instruction ::
  "instruction \<Rightarrow> available \<Rightarrow> graph_function \<Rightarrow> runtime_tables \<Rightarrow> (graph_fault, unit) result" where
  "validate_instruction i available f m =
     and_then (collect (available_type available) (ins_operands i)) (\<lambda>operands.
     and_then (instruction_matches m i operands f) (\<lambda>matches.
       ensure matches (IncompatibleInstruction (def_value (ins_definition i)))))"

section \<open>Graphs\<close>

definition check_definition ::
  "runtime_tables \<Rightarrow> nat \<Rightarrow> value_definition \<Rightarrow> (nat \<rightharpoonup> value_definition) \<Rightarrow> (graph_fault, nat \<rightharpoonup> value_definition) result" where
  "check_definition m f d defs =
     (if def_type d \<ge> length (table_types m) then Inl (ValueWithoutRepresentation (def_value d))
      else if def_ownership d \<notin> {''plain'', ''owned'', ''borrowed''} then
        Inl (UnknownOwnership (def_value d) (def_ownership d))
      else insert_value f d defs)"

definition check_function_definitions ::
  "runtime_tables \<Rightarrow> graph_function \<Rightarrow> (graph_fault, nat \<rightharpoonup> value_definition) result" where
  "check_function_definitions m f =
     fold_each (\<lambda>(ordinal, c) defs.
       if con_id c \<noteq> ordinal then Inl (MisplacedContinuation (con_id c) ordinal)
       else fold_each (check_definition m (fun_id f)) (continuation_definitions c) defs)
       (enumerate 0 (fun_continuations f)) Map.empty"

definition check_captures :: "nat set list \<Rightarrow> continuation \<Rightarrow> (graph_fault, unit) result" where
  "check_captures live c =
     (if con_id c \<ge> length live then Inl GraphPanic
      else ensure (map def_value (con_captures c) = capture_list live c) (StaleCaptures (con_id c)))"

definition check_input ::
  "continuation \<Rightarrow> (nat \<rightharpoonup> value_definition) \<Rightarrow> value_definition \<Rightarrow> available \<Rightarrow> (graph_fault, available) result" where
  "check_input c defs d available =
     (case defs (def_value d) of
        None \<Rightarrow> Inl (CaptureWithoutDefinition (def_value d))
      | Some original \<Rightarrow>
          if def_type original \<noteq> def_type d \<or> def_ownership original \<noteq> def_ownership d then
            Inl (ChangedCapture (def_value d))
          else if available (def_value d) \<noteq> None then Inl (RepeatedInput (con_id c))
          else Inr (available(def_value d \<mapsto> def_type d)))"

definition call_kinds :: "string set" where
  "call_kinds = {''call.direct'', ''host.call'', ''call.external''}"

definition check_instruction ::
  "runtime_tables \<Rightarrow> graph_function \<Rightarrow> instruction \<Rightarrow> available \<Rightarrow> (graph_fault, available) result" where
  "check_instruction m f i available =
     (if op_kind (ins_operation i) \<in> call_kinds then Inl CallInsideInstructions
      else
        and_then (check_each (\<lambda>v. ensure (available v \<noteq> None) (UnavailableOperand v)) (ins_operands i)) (\<lambda>_.
        and_then (validate_instruction i available f m) (\<lambda>_.
          Inr (available(def_value (ins_definition i) \<mapsto> def_type (ins_definition i))))))"

definition find_operation :: "runtime_tables \<Rightarrow> string \<Rightarrow> string \<Rightarrow> capability_operation option" where
  "find_operation m c n =
     (case find (\<lambda>x. capability_name x = c) (table_capabilities m) of
        None \<Rightarrow> None
      | Some x \<Rightarrow> find (\<lambda>y. cap_operation_name y = n) (capability_operations x))"

definition find_link :: "runtime_tables \<Rightarrow> string \<Rightarrow> string \<Rightarrow> link option" where
  "find_link m u n = find (\<lambda>l. link_unit l = u \<and> link_name l = n) (table_links m)"

definition find_function :: "graph \<Rightarrow> nat \<Rightarrow> graph_function option" where
  "find_function g n = find (\<lambda>h. fun_id h = n) g"

fun check_call_target ::
  "runtime_tables \<Rightarrow> graph \<Rightarrow> graph_function \<Rightarrow> call_target \<Rightarrow> nat \<Rightarrow> bool \<Rightarrow> (graph_fault, unit) result" where
  "check_call_target m g f (CallFunction n) signature suspends =
     (case find_function g n of
        None \<Rightarrow> Inl AbsentCallee
      | Some callee \<Rightarrow>
          if fun_framed f \<and> \<not> fun_framed callee then Inl FramedCallsUnframed
          else ensure (fun_signature callee = signature \<and> fun_suspends callee = suspends) ChangedCalleeContract)"
| "check_call_target m g f (CallHost c n) signature suspends =
     (case find_operation m c n of
        None \<Rightarrow> Inl AbsentHostOperation
      | Some x \<Rightarrow>
          ensure (cap_signature x = signature \<and> contract_suspends (cap_contract x) = suspends) ChangedHostContract)"
| "check_call_target m g f (CallLink u n) signature suspends =
     (case find_link m u n of
        None \<Rightarrow> Inl AbsentLink
      | Some l \<Rightarrow> ensure (link_signature l = signature \<and> link_suspends l = suspends) ChangedLinkContract)"

fun case_integer :: "wire_constant \<Rightarrow> (graph_fault, int) result" where
  "case_integer (SignedInteger32Constant n) = Inr (sint n)"
| "case_integer (SignedInteger64Constant s) = (case parse_i64 s of None \<Rightarrow> Inl GraphPanic | Some n \<Rightarrow> Inr n)"
| "case_integer _ = Inl GraphPanic"

definition check_case :: "runtime_type \<Rightarrow> wire_constant \<times> edge \<Rightarrow> int set \<Rightarrow> (graph_fault, int set) result" where
  "check_case selector = (\<lambda>(constant, _) seen.
     if \<not> constant_matches constant selector then Inl SwitchCaseDisagrees
     else and_then (case_integer constant) (\<lambda>n.
       if n \<in> seen then Inl RepeatedSwitchCase else Inr (insert n seen)))"

text \<open>The checks on a transition; the answer is the type of the result a call passes on.\<close>

fun check_transition ::
  "runtime_tables \<Rightarrow> graph \<Rightarrow> graph_function \<Rightarrow> runtime_signature \<Rightarrow> available \<Rightarrow> transition \<Rightarrow>
   (graph_fault, nat option) result" where
  "check_transition m g f signature available (CallOut target s arguments next_edge suspends) =
     (if length (filter (\<lambda>a. a = ArgumentResult) (edge_arguments next_edge)) \<noteq> 1 then Inl ResultTransfers
      else if suspends \<and> \<not> fun_suspends f then Inl SuspendingCallInSynchronous
      else if s \<ge> length (table_signatures m) then Inl CallWithoutSignature
      else
        and_then (collect (available_type available) arguments) (\<lambda>types.
          if types \<noteq> sig_parameters (table_signatures m ! s) then Inl CallArgumentsDisagree
          else and_then (check_call_target m g f target s suspends) (\<lambda>_.
            Inr (Some (sig_result (table_signatures m ! s))))))"
| "check_transition m g f signature available (ReturnFrom v) =
     and_then (available_type available v) (\<lambda>t. if t \<noteq> sig_result signature then Inl ReturnDisagrees else Inr None)"
| "check_transition m g f signature available (BranchOn condition yes no) =
     and_then (available_type available condition) (\<lambda>t.
     and_then (type_at m t) (\<lambda>t. if t \<noteq> BooleanType then Inl ConditionNotBoolean else Inr None))"
| "check_transition m g f signature available (SwitchOn selector cases fallback) =
     and_then (available_type available selector) (\<lambda>t.
     and_then (type_at m t) (\<lambda>t.
       if t \<notin> {Integer32Type, SignedInteger64Type} then Inl SelectorNotInteger
       else and_then (fold_each (check_case t) cases {}) (\<lambda>_. Inr None)))"
| "check_transition m g f signature available (Jump e) = Inr None"
| "check_transition m g f signature available (TrapWith message) = Inr None"

fun suspending_call :: "transition \<Rightarrow> bool" where
  "suspending_call (CallOut _ _ _ _ suspends) = suspends"
| "suspending_call _ = False"

definition argument_type :: "available \<Rightarrow> nat option \<Rightarrow> argument \<Rightarrow> (graph_fault, nat) result" where
  "argument_type available result_type a =
     (case a of
        ArgumentValue v \<Rightarrow> (case available v of None \<Rightarrow> Inl (UnavailableEdgeArgument v) | Some t \<Rightarrow> Inr t)
      | ArgumentResult \<Rightarrow> (case result_type of None \<Rightarrow> Inl ResultOnOrdinaryEdge | Some t \<Rightarrow> Inr t))"

definition check_argument ::
  "(nat \<rightharpoonup> value_definition) \<Rightarrow> available \<Rightarrow> bool \<Rightarrow> nat option \<Rightarrow> argument \<times> value_definition \<Rightarrow> (graph_fault, unit) result" where
  "check_argument defs available suspends result_type = (\<lambda>(a, parameter).
     and_then (argument_type available result_type a) (\<lambda>t.
     and_then
       (case a of
          ArgumentValue v \<Rightarrow>
            if \<not> suspends then Inr ()
            else (case defs v of
              None \<Rightarrow> Inl GraphPanic
            | Some d \<Rightarrow> ensure (def_ownership d \<noteq> ''borrowed'') RetainedBorrowedArgument)
        | ArgumentResult \<Rightarrow> Inr ())
       (\<lambda>_. ensure (t = def_type parameter) EdgeArgumentDisagrees)))"

definition check_edge_capture :: "available \<Rightarrow> bool \<Rightarrow> value_definition \<Rightarrow> (graph_fault, unit) result" where
  "check_edge_capture available suspends capture =
     (if available (def_value capture) \<noteq> Some (def_type capture) then Inl (MissingCapture (def_value capture))
      else ensure (\<not> (suspends \<and> def_ownership capture = ''borrowed'')) (RetainedBorrowedCapture (def_value capture)))"

definition check_edge ::
  "graph_function \<Rightarrow> (nat \<rightharpoonup> value_definition) \<Rightarrow> available \<Rightarrow> bool \<Rightarrow> nat option \<Rightarrow> edge \<Rightarrow> (graph_fault, unit) result" where
  "check_edge f defs available suspends result_type e =
     (if edge_target e \<ge> length (fun_continuations f) then Inl GraphPanic
      else
        (let successor = fun_continuations f ! edge_target e
         in and_then (check_each (check_argument defs available suspends result_type)
                (zip (edge_arguments e) (con_parameters successor))) (\<lambda>_.
            check_each (check_edge_capture available suspends) (con_captures successor))))"

definition check_inputs ::
  "(nat \<rightharpoonup> value_definition) \<Rightarrow> continuation \<Rightarrow> (graph_fault, available) result" where
  "check_inputs defs c = fold_each (check_input c defs) (con_parameters c @ con_captures c) Map.empty"

definition validate_continuation ::
  "runtime_tables \<Rightarrow> graph \<Rightarrow> graph_function \<Rightarrow> runtime_signature \<Rightarrow> (nat \<rightharpoonup> value_definition) \<Rightarrow> nat set list \<Rightarrow>
   continuation \<Rightarrow> (graph_fault, unit) result" where
  "validate_continuation m g f signature defs live c =
     and_then (check_captures live c) (\<lambda>_.
     and_then (check_inputs defs c) (\<lambda>inputs.
     and_then (fold_each (check_instruction m f) (con_instructions c) inputs) (\<lambda>available.
     and_then (check_each (\<lambda>v. ensure (available v \<noteq> None) (UnavailableUse v)) (transition_uses (con_transition c))) (\<lambda>_.
     and_then (check_transition m g f signature available (con_transition c)) (\<lambda>result_type.
       check_each (check_edge f defs available (suspending_call (con_transition c)) result_type)
         (transition_edges (con_transition c)))))))"

definition validate_function ::
  "runtime_tables \<Rightarrow> graph \<Rightarrow> nat \<times> graph_function \<Rightarrow> nat set \<Rightarrow> (graph_fault, nat set) result" where
  "validate_function m g = (\<lambda>(ordinal, f) ids.
     if fun_id f \<noteq> ordinal then Inl (MisplacedFunction (fun_id f) ordinal)
     else if fun_suspends f \<and> \<not> fun_framed f then Inl (SuspendingWithoutFrame (fun_id f))
     else if fun_id f \<in> ids then Inl (RepeatedFunction (fun_id f))
     else if fun_signature f \<ge> length (table_signatures m) then Inl (AbsentSignature (fun_id f))
     else if fun_entry f \<ge> length (fun_continuations f) then Inl (AbsentEntry (fun_id f))
     else
       (let signature = table_signatures m ! fun_signature f;
            entry = fun_continuations f ! fun_entry f
        in if con_captures entry \<noteq> [] \<or> map def_type (con_parameters entry) \<noteq> sig_parameters signature
           then Inl (EntryDisagrees (fun_id f))
           else
             and_then (check_function_definitions m f) (\<lambda>defs.
             and_then (live_inputs f) (\<lambda>live.
             and_then (check_each (validate_continuation m g f signature defs live) (fun_continuations f)) (\<lambda>_.
               Inr (insert (fun_id f) ids))))))"

definition validate_continuation_graph :: "graph \<Rightarrow> runtime_tables \<Rightarrow> (graph_fault, unit) result" where
  "validate_continuation_graph g m =
     and_then (validate_tables g m) (\<lambda>_.
     and_then (fold_each (validate_function m g) (enumerate 0 g) {}) (\<lambda>_. Inr ()))"

section \<open>Validation answers\<close>

definition answered :: "(graph_fault, 'a) result \<Rightarrow> bool" where
  "answered r \<longleftrightarrow> r \<noteq> Inl GraphPanic \<and> r \<noteq> Inl GraphDiverges"

lemma answered_simps [simp]:
  "answered (Inr x)" "answered (Inl e) \<longleftrightarrow> e \<noteq> GraphPanic \<and> e \<noteq> GraphDiverges"
  "answered (ensure b e) \<longleftrightarrow> b \<or> e \<noteq> GraphPanic \<and> e \<noteq> GraphDiverges"
  by (auto simp: answered_def ensure_def)

lemma answered_and_then [intro]: "answered r \<Longrightarrow> (\<And>x. r = Inr x \<Longrightarrow> answered (k x)) \<Longrightarrow> answered (and_then r k)"
  by (cases r) auto

lemma answered_check_each [intro]: "(\<And>x. x \<in> set xs \<Longrightarrow> answered (f x)) \<Longrightarrow> answered (check_each f xs)"
  by (induction xs) auto

lemma answered_collect [intro]: "(\<And>x. x \<in> set xs \<Longrightarrow> answered (f x)) \<Longrightarrow> answered (collect f xs)"
  by (induction xs) (auto intro!: answered_and_then)

lemma answered_fold_each:
  "I s \<Longrightarrow> (\<And>x s. x \<in> set xs \<Longrightarrow> I s \<Longrightarrow> answered (f x s)) \<Longrightarrow>
     (\<And>x s t. x \<in> set xs \<Longrightarrow> I s \<Longrightarrow> f x s = Inr t \<Longrightarrow> I t) \<Longrightarrow> answered (fold_each f xs s)"
proof (induction xs arbitrary: s)
  case (Cons a xs)
  have "answered (f a s)" using Cons.prems(1,2) by simp
  moreover have "answered (fold_each f xs t)" if "f a s = Inr t" for t
  proof (rule Cons.IH)
    show "I t" using Cons.prems(3) [OF _ Cons.prems(1) that] by simp
    show "answered (f x s)" if "x \<in> set xs" "I s" for x s using Cons.prems(2) [OF _ that(2), of x] that(1) by simp
    show "I u" if "x \<in> set xs" "I s" "f x s = Inr u" for x s u
      using Cons.prems(3) [OF _ that(2,3)] that(1) by simp
  qed
  ultimately show ?case by auto
qed simp

lemma fold_each_each: "fold_each f xs s = Inr t \<Longrightarrow> x \<in> set xs \<Longrightarrow> \<exists>s t. f x s = Inr t"
  by (induction xs arbitrary: s) (auto simp: and_then_eq_Inr)

subsection \<open>What the table check gives\<close>

definition known_type :: "runtime_tables \<Rightarrow> nat \<Rightarrow> bool" where
  "known_type m t \<longleftrightarrow> t < length (table_types m)"

lemma require_type_Inr [simp]: "require_type m t = Inr u \<longleftrightarrow> known_type m t"
  by (simp add: require_type_def known_type_def)

lemma type_at_simps [simp]: "known_type m t \<Longrightarrow> type_at m t = Inr (table_types m ! t)"
  by (simp add: type_at_def known_type_def)

lemma known_type_mem [intro]: "known_type m t \<Longrightarrow> table_types m ! t \<in> set (table_types m)"
  by (simp add: known_type_def)

lemma check_fields_Inr: "check_fields m index ds = Inr s \<Longrightarrow> d \<in> set ds \<Longrightarrow> known_type m (field_type d)"
  unfolding check_fields_def by (drule (1) fold_each_each) (auto simp: and_then_eq_Inr)

lemma check_cases_Inr: "check_cases m index ds = Inr s \<Longrightarrow> d \<in> set ds \<Longrightarrow> known_type m (payload_type d)"
  unfolding check_cases_def by (drule (1) fold_each_each) (auto simp: and_then_eq_Inr)

lemma table_type_checked:
  "validate_tables g m = Inr () \<Longrightarrow> t \<in> set (table_types m) \<Longrightarrow> \<exists>index. check_type g m (index, t) = Inr ()"
proof -
  assume "validate_tables g m = Inr ()" "t \<in> set (table_types m)"
  then obtain i where "i < length (table_types m)" "t = table_types m ! i"
      "\<forall>p \<in> set (enumerate 0 (table_types m)). check_type g m p = Inr ()"
    by (auto simp: validate_tables_def and_then_eq_Inr check_each_Inr in_set_conv_nth)
  moreover from this have "(i, t) \<in> set (enumerate 0 (table_types m))" by (simp add: in_set_enumerate_eq)
  ultimately show ?thesis by blast
qed

lemma tables_closed:
  assumes "validate_tables g m = Inr ()"
  shows "StoreType e \<in> set (table_types m) \<Longrightarrow> known_type m e"
    and "ProductType n ds \<in> set (table_types m) \<Longrightarrow> d \<in> set ds \<Longrightarrow> known_type m (field_type d)"
    and "SumType n cs \<in> set (table_types m) \<Longrightarrow> c \<in> set cs \<Longrightarrow> known_type m (payload_type c)"
  using table_type_checked [OF assms] by (fastforce simp: and_then_eq_Inr dest: check_fields_Inr check_cases_Inr)+

lemma validate_tables_answered: "answered (validate_tables g m)"
proof -
  have "answered (check_fields m index ds)" for index ds
    unfolding check_fields_def
    by (rule answered_fold_each [where I = "\<lambda>_. True"]) (auto simp: require_type_def insert_name_def)
  moreover have "answered (check_cases m index ds)" for index ds
    unfolding check_cases_def
    by (rule answered_fold_each [where I = "\<lambda>_. True"]) (auto simp: require_type_def insert_name_def)
  moreover have "answered (check_callback g m fn signature environment)" for fn signature environment
    unfolding check_callback_def require_type_def by (intro answered_and_then) (auto simp: Let_def split: runtime_type.split)
  ultimately have "answered (check_type g m p)" for p
    by (induction g m p rule: check_type.induct) (auto simp: require_type_def)
  moreover have "answered (check_store m s)" for s
    unfolding check_store_def require_type_def by (intro answered_and_then) auto
  ultimately show ?thesis unfolding validate_tables_def require_type_def
    by (intro answered_and_then answered_check_each) auto
qed

subsection \<open>Instructions\<close>

lemma store_matches_answered:
  assumes "validate_tables g m = Inr ()" "set types \<subseteq> set (table_types m)"
  shows "answered (store_matches m op ownership result_id result operands types)"
proof -
  have "answered (and_then (type_at m e) (\<lambda>t. Inr (k t)))" if "types = [StoreType e, SignedInteger64Type]" for e and k :: "_ \<Rightarrow> bool"
    using that assms tables_closed(1) [OF assms(1), of e] by auto
  then show ?thesis unfolding store_matches_def
    by (auto split: list.split runtime_type.split)
qed

lemma next_byte_matches_answered:
  assumes "validate_tables g m = Inr ()" "result \<in> set (table_types m)"
  shows "answered (next_byte_matches m result types)"
proof (cases "\<exists>n none some. result = SumType n [none, some]")
  case True
  then obtain n none some where result: "result = SumType n [none, some]" by blast
  with assms(2) tables_closed(3) [OF assms(1), of n "[none, some]"]
  have known: "known_type m (payload_type none)" "known_type m (payload_type some)" by auto
  show ?thesis
  proof (cases "\<exists>p one two. table_types m ! payload_type some = ProductType p [one, two]")
    case True
    then obtain p one two where payload: "table_types m ! payload_type some = ProductType p [one, two]" by blast
    with known known_type_mem [OF known(2)] tables_closed(2) [OF assms(1), of p "[one, two]"]
    have "known_type m (field_type one)" "known_type m (field_type two)" by auto
    with known payload show ?thesis by (simp add: next_byte_matches_def result)
  next
    case False
    with known show ?thesis by (auto simp: next_byte_matches_def result split: runtime_type.split list.split)
  qed
next
  case False
  then show ?thesis by (auto simp: next_byte_matches_def split: runtime_type.split list.split)
qed

lemma text_matches_answered:
  assumes "validate_tables g m = Inr ()" "result \<in> set (table_types m)" "set types \<subseteq> set (table_types m)"
  shows "answered (text_matches m kind result types)"
proof -
  have "answered (and_then (type_at m e) (\<lambda>t. Inr (k t)))" if "types = [StoreType e]" for e and k :: "_ \<Rightarrow> bool"
    using that assms tables_closed(1) [OF assms(1), of e] by auto
  with next_byte_matches_answered [OF assms(1,2)] show ?thesis unfolding text_matches_def
    by (auto split: list.split runtime_type.split)
qed

lemma collect_types:
  "\<forall>t \<in> set ts. known_type m t \<Longrightarrow> collect (type_at m) ts = Inr (map (\<lambda>t. table_types m ! t) ts)"
  by (induction ts) auto

lemma instruction_matches_answered:
  assumes "validate_tables g m = Inr ()" "known_type m (def_type (ins_definition i))" "\<forall>t \<in> set operands. known_type m t"
  shows "answered (instruction_matches m i operands f)"
proof -
  have "set (map (\<lambda>t. table_types m ! t) operands) \<subseteq> set (table_types m)" using assms(3) by auto
  note store_matches_answered [OF assms(1) this] text_matches_answered [OF assms(1) known_type_mem [OF assms(2)] this]
  then show ?thesis using assms(2) collect_types [OF assms(3)] by (simp add: instruction_matches_def Let_def)
qed

subsection \<open>Definitions and inputs\<close>

lemma check_definition_fold:
  "fold_each (check_definition m n) ds defs = Inr defs' \<longleftrightarrow>
     (\<forall>d \<in> set ds. known_type m (def_type d) \<and> def_ownership d \<in> {''plain'', ''owned'', ''borrowed''}) \<and>
     fold_each (insert_value n) ds defs = Inr defs'"
  by (induction ds arbitrary: defs) (auto simp: check_definition_def known_type_def and_then_eq_Inr)

lemma check_definition_fold_answered: "answered (fold_each (check_definition m n) ds defs)"
  by (rule answered_fold_each [where I = "\<lambda>_. True"]) (auto simp: check_definition_def insert_value_def)

lemma check_definitions_from:
  "fold_each (\<lambda>(ordinal, c) defs.
       if con_id c \<noteq> ordinal then Inl (MisplacedContinuation (con_id c) ordinal)
       else fold_each (check_definition m n) (continuation_definitions c) defs) (enumerate k cs) defs = Inr defs' \<longleftrightarrow>
     map con_id cs = [k..<k + length cs] \<and>
     fold_each (check_definition m n) (concat (map continuation_definitions cs)) defs = Inr defs'"
proof (induction cs arbitrary: k defs)
  case (Cons c cs)
  have "[k..<k + length (c # cs)] = k # [Suc k..<Suc k + length cs]"
    by (simp add: upt_conv_Cons del: upt_Suc)
  with Cons.IH [of "Suc k"] show ?case
    by (auto simp: fold_each_append and_then_eq_Inr simp del: upt_Suc)
qed simp

definition well_defined :: "runtime_tables \<Rightarrow> graph_function \<Rightarrow> bool" where
  "well_defined m f \<longleftrightarrow> ids_placed (fun_continuations f) \<and> distinct (map def_value (all_definitions f)) \<and>
     (\<forall>d \<in> set (all_definitions f). known_type m (def_type d) \<and> def_ownership d \<in> {''plain'', ''owned'', ''borrowed''})"

lemma check_function_definitions_Inr:
  "check_function_definitions m f = Inr defs \<longleftrightarrow> well_defined m f \<and> function_definitions f = Inr defs"
  unfolding check_function_definitions_def check_definitions_from check_definition_fold
  by (auto simp: well_defined_def ids_placed_def function_definitions_def all_definitions_def insert_values)

lemma check_function_definitions_answered: "answered (check_function_definitions m f)"
  unfolding check_function_definitions_def
  by (rule answered_fold_each [where I = "\<lambda>_. True"]) (auto intro: check_definition_fold_answered)

text \<open>The values available at a point have definitions, with their types.\<close>

definition available_ok :: "runtime_tables \<Rightarrow> (nat \<rightharpoonup> value_definition) \<Rightarrow> available \<Rightarrow> bool" where
  "available_ok m defs available \<longleftrightarrow>
     (\<forall>v t. available v = Some t \<longrightarrow> known_type m t \<and> (\<exists>d. defs v = Some d \<and> def_type d = t))"

lemma available_ok_empty [simp]: "available_ok m defs Map.empty"
  by (simp add: available_ok_def)

lemma check_input_ok:
  assumes "well_defined m f" "function_definitions f = Inr defs" "available_ok m defs available"
    "check_input c defs d available = Inr available'"
  shows "available_ok m defs available'"
proof -
  from assms(4) obtain e where e: "defs (def_value d) = Some e" "def_type e = def_type d"
      "available' = available(def_value d \<mapsto> def_type d)"
    by (auto simp: check_input_def split: option.splits if_splits)
  with definition_found [OF assms(2), of "def_value d" e] assms(1) have "known_type m (def_type d)"
    by (auto simp: well_defined_def)
  with e assms(3) show ?thesis by (auto simp: available_ok_def)
qed

lemma check_inputs_ok:
  assumes "well_defined m f" "function_definitions f = Inr defs" "check_inputs defs c = Inr available"
  shows "available_ok m defs available"
  using assms(3) unfolding check_inputs_def
  by (rule fold_each_invariant [where P = "available_ok m defs"]) (auto intro: check_input_ok [OF assms(1,2)])

lemma check_inputs_answered: "answered (check_inputs defs c)"
  unfolding check_inputs_def
  by (rule answered_fold_each [where I = "\<lambda>_. True"]) (auto simp: check_input_def split: option.split)

lemma collect_available:
  "\<forall>v \<in> set vs. available v \<noteq> None \<Longrightarrow> collect (available_type available) vs = Inr (map (\<lambda>v. the (available v)) vs)"
  by (induction vs) (auto simp: available_type_def)

lemma check_instruction_answered:
  assumes "validate_tables g m = Inr ()" "known_type m (def_type (ins_definition i))" "available_ok m defs available"
  shows "answered (check_instruction m f i available)"
proof -
  have "answered (validate_instruction i available f m)" if present: "\<forall>v \<in> set (ins_operands i). available v \<noteq> None"
  proof -
    have "known_type m (the (available v))" if "v \<in> set (ins_operands i)" for v
      using present that assms(3) by (auto simp: available_ok_def)
    with instruction_matches_answered [OF assms(1,2), of "map (\<lambda>v. the (available v)) (ins_operands i)" f]
    show ?thesis by (auto simp: validate_instruction_def collect_available [OF present])
  qed
  then show ?thesis by (auto simp: check_instruction_def check_each_Inr intro!: answered_and_then)
qed

lemma check_instruction_ok:
  assumes "well_defined m f" "function_definitions f = Inr defs" "ins_definition i \<in> set (all_definitions f)"
    "available_ok m defs available" "check_instruction m f i available = Inr available'"
  shows "available_ok m defs available'"
proof -
  from assms(5) have "available' = available(def_value (ins_definition i) \<mapsto> def_type (ins_definition i))"
    by (auto simp: check_instruction_def and_then_eq_Inr split: if_splits)
  moreover from assms definition_found [OF assms(2)] have "defs (def_value (ins_definition i)) = Some (ins_definition i)"
    by blast
  ultimately show ?thesis using assms(1,3,4) by (auto simp: available_ok_def well_defined_def)
qed

lemma check_instructions_ok:
  assumes "well_defined m f" "function_definitions f = Inr defs" "ins_definition ` set is \<subseteq> set (all_definitions f)"
    "available_ok m defs available" "fold_each (check_instruction m f) is available = Inr available'"
  shows "available_ok m defs available'"
  using assms(5,4) by (rule fold_each_invariant [where P = "available_ok m defs"]) (use assms(3) in \<open>auto intro: check_instruction_ok [OF assms(1,2)]\<close>)

lemma check_instructions_answered:
  assumes "validate_tables g m = Inr ()" "well_defined m f" "function_definitions f = Inr defs"
    "ins_definition ` set is \<subseteq> set (all_definitions f)" "available_ok m defs available"
  shows "answered (fold_each (check_instruction m f) is available)"
  using assms(5)
proof (rule answered_fold_each [where I = "available_ok m defs"])
  fix i available assume i: "i \<in> set is" "available_ok m defs available"
  with assms(2,4) have "known_type m (def_type (ins_definition i))" by (auto simp: well_defined_def)
  then show "answered (check_instruction m f i available)" using check_instruction_answered assms(1) i(2) by blast
  fix available' assume "check_instruction m f i available = Inr available'"
  with i assms(4) show "available_ok m defs available'" by (auto intro: check_instruction_ok [OF assms(2,3)])
qed

subsection \<open>Transitions and edges\<close>

lemma check_case_answered: "t \<in> {Integer32Type, SignedInteger64Type} \<Longrightarrow> answered (check_case t c seen)"
proof -
  assume "t \<in> {Integer32Type, SignedInteger64Type}"
  moreover obtain k e where "c = (k, e)" by force
  ultimately show ?thesis by (cases k) (auto simp: check_case_def constant_matches_def)
qed

lemma check_transition_answered:
  assumes "available_ok m defs available" "\<forall>v \<in> set (transition_uses t). available v \<noteq> None"
  shows "answered (check_transition m g f signature available t)"
proof (cases t)
  case (CallOut target s as next_edge suspends)
  have "answered (check_call_target m g f target s suspends)"
    by (cases target) (auto split: option.split)
  with assms(2) CallOut show ?thesis by (auto simp: collect_available)
next
  case (SwitchOn v cases fallback)
  from assms SwitchOn obtain t where t: "available v = Some t" "known_type m t" by (auto simp: available_ok_def)
  have "answered (fold_each (check_case s) cases {})" if "s \<in> {Integer32Type, SignedInteger64Type}" for s
    by (rule answered_fold_each [where I = "\<lambda>_. True"]) (use check_case_answered [OF that] in auto)
  with t SwitchOn show ?thesis by (auto simp: available_type_def)
next
  case (BranchOn v yes no)
  with assms show ?thesis by (auto simp: available_type_def available_ok_def)
next
  case (ReturnFrom v)
  with assms show ?thesis by (auto simp: available_type_def)
qed auto

lemma check_edge_answered:
  assumes "available_ok m defs available" "edge_target e < length (fun_continuations f)"
  shows "answered (check_edge f defs available suspends result_type e)"
proof -
  have "answered (check_argument defs available suspends result_type p)" for p
  proof -
    have "available v = None" if "defs v = None" for v
    proof (rule ccontr)
      assume "available v \<noteq> None"
      then obtain t where "available v = Some t" by blast
      with assms(1) obtain d where "defs v = Some d" unfolding available_ok_def by blast
      with that show False by simp
    qed
    then show ?thesis
      by (cases p) (auto simp: check_argument_def argument_type_def split: argument.split option.split)
  qed
  then show ?thesis using assms(2)
    by (auto simp: check_edge_def check_edge_capture_def Let_def intro!: answered_and_then)
qed

lemma validate_continuation_answered:
  assumes "validate_tables g m = Inr ()" "well_defined m f" "function_definitions f = Inr defs"
    "live_inputs f = Inr live" "c \<in> set (fun_continuations f)"
  shows "answered (validate_continuation m g f signature defs live c)"
proof -
  from assms(2) have placed: "ids_placed (fun_continuations f)" by (simp add: well_defined_def)
  from live_inputs_cases [OF this] assms(4) have fit: "edges_fit (fun_continuations f)"
    and len: "length live = length (fun_continuations f)" by auto
  have inside: "ins_definition ` set (con_instructions c) \<subseteq> set (all_definitions f)"
    using assms(5) by (auto simp: all_definitions_def continuation_definitions_def)
  have "answered (check_captures live c)"
    using ids_placed_in [OF placed assms(5)] len by (simp add: check_captures_def)
  moreover have "answered (fold_each (check_instruction m f) (con_instructions c) inputs)"
    if "check_inputs defs c = Inr inputs" for inputs
    using check_instructions_answered [OF assms(1-3) inside check_inputs_ok [OF assms(2,3) that]] .
  moreover have "answered (check_transition m g f signature available (con_transition c))"
      "e \<in> set (transition_edges (con_transition c)) \<Longrightarrow> answered (check_edge f defs available (suspending_call (con_transition c)) r e)"
    if "check_inputs defs c = Inr inputs" "fold_each (check_instruction m f) (con_instructions c) inputs = Inr available"
      "check_each (\<lambda>v. ensure (available v \<noteq> None) (UnavailableUse v)) (transition_uses (con_transition c)) = Inr u"
    for inputs available u r e
  proof -
    have ok: "available_ok m defs available"
      using check_instructions_ok [OF assms(2,3) inside check_inputs_ok [OF assms(2,3) that(1)] that(2)] .
    with that(3) show "answered (check_transition m g f signature available (con_transition c))"
      by (intro check_transition_answered) (auto simp: check_each_Inr)
    assume "e \<in> set (transition_edges (con_transition c))"
    with fit assms(5) have "edge_target e < length (fun_continuations f)"
      by (auto simp: edges_fit_def edge_fits_def outgoing_def)
    with ok show "answered (check_edge f defs available (suspending_call (con_transition c)) r e)"
      by (rule check_edge_answered)
  qed
  ultimately show ?thesis unfolding validate_continuation_def
    by (intro answered_and_then check_inputs_answered answered_check_each) auto
qed

lemma validate_function_answered:
  assumes "validate_tables g m = Inr ()"
  shows "answered (validate_function m g p ids)"
proof -
  obtain ordinal f where p: "p = (ordinal, f)" by force
  have "answered (live_inputs f)" if "well_defined m f"
    using live_inputs_cases [of f] that
    by (cases "live_inputs f") (auto simp: well_defined_def edge_fault_def)
  then show ?thesis unfolding validate_function_def p
    by (auto simp: Let_def check_function_definitions_Inr
        intro!: answered_and_then check_function_definitions_answered answered_check_each
          validate_continuation_answered [OF assms])
qed

lemma validate_answered: "answered (validate_continuation_graph g m)"
proof -
  have "answered (fold_each (validate_function m g) (enumerate 0 g) {})" if "validate_tables g m = Inr ()"
    by (rule answered_fold_each [where I = "\<lambda>_. True"]) (auto intro: validate_function_answered [OF that])
  then show ?thesis
    unfolding validate_continuation_graph_def by (intro answered_and_then validate_tables_answered) auto
qed

text \<open>
  C34. The graph validator answers every graph: it returns or refuses with an error of its own,
  never runs its fixpoint loop forever and never indexes a table, a list or a map out of range.
\<close>

theorem graph_validation_answers:
  "validate_continuation_graph g m \<noteq> Inl GraphPanic \<and> validate_continuation_graph g m \<noteq> Inl GraphDiverges"
  using validate_answered [of g m] by (simp add: answered_def)

end
