(* ===== verification/ContinuationMachine.thy ===== *)
theory ContinuationMachine
  imports ContinuationValidation "HOL-Library.Multiset"
begin

text \<open>
  The machine that runs a continuation graph (\<open>compiler/src/continuation_interpreter.rs\<close>): a current
  activation, a stack of callers, and host requests that suspend it. Instructions are executed by
  a function of the caller, which may keep a state; conditions and constants are read through the
  trait \<open>Values\<close>. A failed \<open>expect\<close>, an absent key of a map and an index out of range are
  \<open>MachinePanic\<close>.
\<close>

section \<open>State\<close>

text \<open>The trait \<open>Values\<close>.\<close>

record 'v value_operations =
  condition_of :: "'v \<Rightarrow> (string, bool) result"
  matches_constant :: "'v \<Rightarrow> wire_constant \<Rightarrow> bool"

type_synonym ('s, 'v) executor = "instruction \<Rightarrow> 'v list \<Rightarrow> 's \<Rightarrow> (string, 'v) result \<times> 's"

record 'v activation =
  act_function :: nat
  act_continuation :: nat
  act_values :: "nat \<rightharpoonup> 'v"

record 'v destination =
  dest_function :: nat
  dest_continuation :: nat
  dest_arguments :: "'v option list"
  dest_captures :: "nat \<rightharpoonup> 'v"

datatype 'v machine_state =
  Ready "'v activation"
| Waiting "'v destination"
| Returned 'v
| Trapped string
| Running

text \<open>The callers, the most recent first.\<close>

record 'v machine =
  machine_state :: "'v machine_state"
  machine_callers :: "'v destination list"

datatype 'v observation =
  Request call_target "'v list"
| Yielded
| ReturnedValue 'v
| TrappedWith string

datatype machine_error = MachinePanic | MachineError string

section \<open>Operations\<close>

definition lookup_value :: "(nat \<rightharpoonup> 'v) \<Rightarrow> nat \<Rightarrow> (machine_error, 'v) result" where
  "lookup_value vals v = (case vals v of None \<Rightarrow> Inl MachinePanic | Some x \<Rightarrow> Inr x)"

definition machine_function :: "graph \<Rightarrow> nat \<Rightarrow> (machine_error, graph_function) result" where
  "machine_function g n = (case find_function g n of None \<Rightarrow> Inl MachinePanic | Some f \<Rightarrow> Inr f)"

definition machine_continuation :: "graph_function \<Rightarrow> nat \<Rightarrow> (machine_error, continuation) result" where
  "machine_continuation f i =
     (if i < length (fun_continuations f) then Inr (fun_continuations f ! i) else Inl MachinePanic)"

text \<open>\<open>Machine::new\<close>. Collecting pairs into a map keeps the last of each key.\<close>

definition machine_new :: "graph \<Rightarrow> nat \<Rightarrow> 'v list \<Rightarrow> (machine_error, 'v machine) result" where
  "machine_new g n arguments =
     (case find_function g n of
        None \<Rightarrow> Inl (MachineError ''interpreter entry function is absent'')
      | Some f \<Rightarrow>
          and_then (machine_continuation f (fun_entry f)) (\<lambda>entry.
            if length (con_parameters entry) \<noteq> length arguments then
              Inl (MachineError ''interpreter entry arity differs from its arguments'')
            else
              Inr \<lparr>machine_state =
                     Ready \<lparr>act_function = n, act_continuation = fun_entry f,
                            act_values = map_of (rev (zip (parameter_values entry) arguments))\<rparr>,
                   machine_callers = []\<rparr>))"

text \<open>\<open>Machine::destination\<close> and \<open>Machine::arrive\<close>.\<close>

definition edge_argument :: "(nat \<rightharpoonup> 'v) \<Rightarrow> argument \<Rightarrow> (machine_error, 'v option) result" where
  "edge_argument vals a =
     (case a of
        ArgumentValue v \<Rightarrow> and_then (lookup_value vals v) (\<lambda>x. Inr (Some x))
      | ArgumentResult \<Rightarrow> Inr None)"

definition machine_destination :: "graph \<Rightarrow> 'v activation \<Rightarrow> edge \<Rightarrow> (machine_error, 'v destination) result" where
  "machine_destination g a e =
     and_then (machine_function g (act_function a)) (\<lambda>f.
     and_then (machine_continuation f (edge_target e)) (\<lambda>successor.
     and_then (collect (edge_argument (act_values a)) (edge_arguments e)) (\<lambda>arguments.
     and_then (collect (\<lambda>c. and_then (lookup_value (act_values a) (def_value c)) (\<lambda>x. Inr (def_value c, x)))
         (con_captures successor)) (\<lambda>captures.
       Inr \<lparr>dest_function = act_function a, dest_continuation = edge_target e, dest_arguments = arguments,
            dest_captures = map_of (rev captures)\<rparr>))))"

definition insert_argument ::
  "'v option \<Rightarrow> value_definition \<times> 'v option \<Rightarrow> (nat \<rightharpoonup> 'v) \<Rightarrow> (machine_error, nat \<rightharpoonup> 'v) result" where
  "insert_argument result = (\<lambda>(parameter, argument) vals.
     case (case argument of Some x \<Rightarrow> Some x | None \<Rightarrow> result) of
       None \<Rightarrow> Inl MachinePanic
     | Some x \<Rightarrow> Inr (vals(def_value parameter \<mapsto> x)))"

definition machine_arrive ::
  "graph \<Rightarrow> 'v destination \<Rightarrow> 'v option \<Rightarrow> (machine_error, 'v activation) result" where
  "machine_arrive g d result =
     and_then (machine_function g (dest_function d)) (\<lambda>f.
     and_then (machine_continuation f (dest_continuation d)) (\<lambda>successor.
     and_then (fold_each (insert_argument result) (zip (con_parameters successor) (dest_arguments d)) (dest_captures d)) (\<lambda>vals.
       Inr \<lparr>act_function = dest_function d, act_continuation = dest_continuation d, act_values = vals\<rparr>)))"

definition machine_resume :: "graph \<Rightarrow> 'v \<Rightarrow> 'v machine \<Rightarrow> (machine_error, 'v machine) result" where
  "machine_resume g x k =
     (case machine_state k of
        Waiting d \<Rightarrow> and_then (machine_arrive g d (Some x)) (\<lambda>a. Inr (k\<lparr>machine_state := Ready a\<rparr>))
      | _ \<Rightarrow> Inl (MachineError ''interpreter can resume only a pending request''))"

definition machine_cancel :: "'v machine \<Rightarrow> 'v machine" where
  "machine_cancel k = k\<lparr>machine_callers := [], machine_state := Trapped ''cancelled''\<rparr>"

text \<open>The instructions of a continuation: the values after them, or the message of a trap.\<close>

datatype machine_stop = StopPanic | StopTrap string

fun run_instructions ::
  "('s, 'v) executor \<Rightarrow> instruction list \<Rightarrow> (nat \<rightharpoonup> 'v) \<Rightarrow> 's \<Rightarrow> (machine_stop, nat \<rightharpoonup> 'v) result \<times> 's" where
  "run_instructions execute [] vals s = (Inr vals, s)"
| "run_instructions execute (i # is) vals s =
     (case collect (lookup_value vals) (ins_operands i) of
        Inl _ \<Rightarrow> (Inl StopPanic, s)
      | Inr arguments \<Rightarrow>
          (case execute i arguments s of
             (Inl message, s') \<Rightarrow> (Inl (StopTrap message), s')
           | (Inr x, s') \<Rightarrow> run_instructions execute is (vals(def_value (ins_definition i) \<mapsto> x)) s'))"

text \<open>
  The transition: the machine after it and, when \<open>poll\<close> answers at once, its observation. On an
  error the machine is left \<open>Running\<close>.
\<close>

definition goto :: "graph \<Rightarrow> 'v activation \<Rightarrow> 'v destination list \<Rightarrow> edge \<Rightarrow> (machine_error, 'v machine \<times> 'v observation option) result" where
  "goto g a callers e =
     and_then (machine_destination g a e) (\<lambda>d.
     and_then (machine_arrive g d None) (\<lambda>a. Inr (\<lparr>machine_state = Ready a, machine_callers = callers\<rparr>, None)))"

definition matching_case ::
  "'v value_operations \<Rightarrow> (nat \<rightharpoonup> 'v) \<Rightarrow> nat \<Rightarrow> (wire_constant \<times> edge) list \<Rightarrow> edge \<Rightarrow> (machine_error, edge) result" where
  "matching_case ops vals selector cases fallback =
     (if cases = [] then Inr fallback
      else and_then (lookup_value vals selector) (\<lambda>x.
        Inr (case find (\<lambda>(constant, _). matches_constant ops x constant) cases of
               None \<Rightarrow> fallback
             | Some (_, e) \<Rightarrow> e)))"

fun take_transition ::
  "'v value_operations \<Rightarrow> graph \<Rightarrow> 'v activation \<Rightarrow> 'v destination list \<Rightarrow> transition \<Rightarrow>
   (machine_error, 'v machine \<times> 'v observation option) result" where
  "take_transition ops g a callers (Jump e) = goto g a callers e"
| "take_transition ops g a callers (BranchOn condition yes no) =
     and_then (lookup_value (act_values a) condition) (\<lambda>x.
       case condition_of ops x of
         Inl message \<Rightarrow> Inl (MachineError message)
       | Inr b \<Rightarrow> goto g a callers (if b then yes else no))"
| "take_transition ops g a callers (SwitchOn selector cases fallback) =
     and_then (matching_case ops (act_values a) selector cases fallback) (goto g a callers)"
| "take_transition ops g a callers (CallOut target signature arguments next_edge suspends) =
     and_then (collect (lookup_value (act_values a)) arguments) (\<lambda>xs.
     and_then (machine_destination g a next_edge) (\<lambda>d.
       case target of
         CallFunction n \<Rightarrow>
           and_then (machine_new g n xs) (\<lambda>callee.
             Inr (\<lparr>machine_state = machine_state callee, machine_callers = d # callers\<rparr>, None))
       | _ \<Rightarrow> Inr (\<lparr>machine_state = Waiting d, machine_callers = callers\<rparr>, Some (Request target xs))))"
| "take_transition ops g a callers (ReturnFrom v) =
     and_then (lookup_value (act_values a) v) (\<lambda>x.
       case callers of
         [] \<Rightarrow> Inr (\<lparr>machine_state = Returned x, machine_callers = []\<rparr>, None)
       | d # rest \<Rightarrow>
           and_then (machine_arrive g d (Some x)) (\<lambda>a. Inr (\<lparr>machine_state = Ready a, machine_callers = rest\<rparr>, None)))"
| "take_transition ops g a callers (TrapWith message) =
     Inr (\<lparr>machine_state = Trapped message, machine_callers = []\<rparr>, Some (TrappedWith message))"

text \<open>One turn of the loop of \<open>poll\<close> on a ready machine; no answer means another turn.\<close>

definition run_activation ::
  "'v value_operations \<Rightarrow> ('s, 'v) executor \<Rightarrow> graph \<Rightarrow> 'v activation \<Rightarrow> 'v destination list \<Rightarrow> 's \<Rightarrow>
   'v machine \<times> 's \<times> (machine_error, 'v observation option) result" where
  "run_activation ops execute g a callers s =
     (let running = \<lparr>machine_state = Running, machine_callers = callers\<rparr>
      in case and_then (machine_function g (act_function a)) (\<lambda>f. machine_continuation f (act_continuation a)) of
           Inl fault \<Rightarrow> (running, s, Inl fault)
         | Inr c \<Rightarrow>
             (case run_instructions execute (con_instructions c) (act_values a) s of
                (Inl StopPanic, s') \<Rightarrow> (running, s', Inl MachinePanic)
              | (Inl (StopTrap message), s') \<Rightarrow>
                  (\<lparr>machine_state = Trapped message, machine_callers = []\<rparr>, s', Inr (Some (TrappedWith message)))
              | (Inr vals, s') \<Rightarrow>
                  (case take_transition ops g (a\<lparr>act_values := vals\<rparr>) callers (con_transition c) of
                     Inl fault \<Rightarrow> (running, s', Inl fault)
                   | Inr (k, answer) \<Rightarrow> (k, s', Inr answer))))"

fun poll ::
  "'v value_operations \<Rightarrow> ('s, 'v) executor \<Rightarrow> graph \<Rightarrow> nat \<Rightarrow> 'v machine \<Rightarrow> 's \<Rightarrow>
   'v machine \<times> 's \<times> (machine_error, 'v observation) result" where
  "poll ops execute g 0 k s = (k, s, Inr Yielded)"
| "poll ops execute g (Suc quantum) k s =
     (case machine_state k of
        Waiting _ \<Rightarrow> (k, s, Inl (MachineError ''pending request must settle before polling''))
      | Returned x \<Rightarrow> (k, s, Inr (ReturnedValue x))
      | Trapped message \<Rightarrow> (k, s, Inr (TrappedWith message))
      | Running \<Rightarrow> (k, s, Inl (MachineError ''interpreter was polled reentrantly''))
      | Ready a \<Rightarrow>
          (case run_activation ops execute g a (machine_callers k) s of
             (k', s', Inl fault) \<Rightarrow> (k', s', Inl fault)
           | (k', s', Inr (Some observation)) \<Rightarrow> (k', s', Inr observation)
           | (k', s', Inr None) \<Rightarrow> poll ops execute g quantum k' s'))"

section \<open>Time slices\<close>

lemma case_error_Inr: "(case r of Inl e \<Rightarrow> Inl (h e) | Inr x \<Rightarrow> f x) = Inr y \<longleftrightarrow> (\<exists>x. r = Inr x \<and> f x = Inr y)"
  by (cases r) auto

lemmas step_simps = goto_def and_then_eq_Inr case_error_Inr

lemma take_call_cases:
  assumes "take_transition ops g a callers (CallOut target signature arguments e suspends) = Inr (k, answer)"
  obtains (calls) n xs d callee where "target = CallFunction n" "collect (lookup_value (act_values a)) arguments = Inr xs"
      "machine_destination g a e = Inr d" "machine_new g n xs = Inr callee"
      "k = \<lparr>machine_state = machine_state callee, machine_callers = d # callers\<rparr>" "answer = None"
    | (requests) xs d where "\<forall>n. target \<noteq> CallFunction n" "collect (lookup_value (act_values a)) arguments = Inr xs"
      "machine_destination g a e = Inr d" "k = \<lparr>machine_state = Waiting d, machine_callers = callers\<rparr>"
      "answer = Some (Request target xs)"
  using assms by (cases target) (auto simp: and_then_eq_Inr)

lemma take_return_cases:
  assumes "take_transition ops g a callers (ReturnFrom v) = Inr (k, answer)"
  obtains (returned) x where "lookup_value (act_values a) v = Inr x" "callers = []"
      "k = \<lparr>machine_state = Returned x, machine_callers = []\<rparr>" "answer = None"
    | (resumed) x d rest b where "lookup_value (act_values a) v = Inr x" "callers = d # rest"
      "machine_arrive g d (Some x) = Inr b" "k = \<lparr>machine_state = Ready b, machine_callers = rest\<rparr>" "answer = None"
  using assms by (cases callers) (auto simp: and_then_eq_Inr)

lemma take_transition_answers:
  assumes "take_transition ops g a callers t = Inr (k, answer)"
  shows "answer \<noteq> Some Yielded"
proof (cases t)
  case (CallOut target signature arguments e suspends)
  with assms show ?thesis by (auto elim!: take_call_cases simp del: take_transition.simps)
next
  case (ReturnFrom v)
  with assms show ?thesis by (auto elim!: take_return_cases simp del: take_transition.simps)
qed (use assms in \<open>auto simp: step_simps\<close>)

lemma run_activation_answers:
  "run_activation ops execute g a callers s = (k, s', Inr answer) \<Longrightarrow> answer \<noteq> Some Yielded"
  by (auto simp: run_activation_def Let_def dest: take_transition_answers
      split: sum.splits prod.splits machine_stop.splits)

text \<open>
  Polling is independent of the time slices: polling for \<open>m + n\<close> turns is polling for \<open>m\<close>
  turns and, when that yields, for \<open>n\<close> more; the machine, the state of the executor and the
  observation are the same.
\<close>

theorem poll_slices:
  "poll ops execute g (m + n) k s =
     (case poll ops execute g m k s of
        (k', s', r) \<Rightarrow> if r = Inr Yielded then poll ops execute g n k' s' else (k', s', r))"
proof (induction m arbitrary: k s)
  case (Suc m)
  show ?case
  proof (cases "machine_state k")
    case (Ready a)
    obtain k' s' r where run: "run_activation ops execute g a (machine_callers k) s = (k', s', r)"
      by (metis prod_cases3)
    with Ready Suc.IH [of k' s'] run_activation_answers [of ops execute g a "machine_callers k" s k' s'] show ?thesis
      by (auto split: sum.split option.split)
  qed simp_all
qed simp

section \<open>Progress\<close>

text \<open>
  The nodes of a graph are its continuations; \<open>flows g\<close> relates a node to those that may follow
  it: the targets of its edges and the entry of the function it calls.
\<close>

definition flows :: "graph \<Rightarrow> ((nat \<times> nat) \<times> (nat \<times> nat)) set" where
  "flows g =
     {((n, edge_target e), (n, i)) | n i e f. find_function g n = Some f \<and> i < length (fun_continuations f) \<and>
        e \<in> outgoing (fun_continuations f ! i)} \<union>
     {((k, fun_entry h), (n, i)) | k h n i f s as e w. find_function g n = Some f \<and> find_function g k = Some h \<and>
        i < length (fun_continuations f) \<and>
        con_transition (fun_continuations f ! i) = CallOut (CallFunction k) s as e w}"

lemma flows_call:
  "find_function g n = Some f \<Longrightarrow> find_function g k = Some h \<Longrightarrow> i < length (fun_continuations f) \<Longrightarrow>
     con_transition (fun_continuations f ! i) = CallOut (CallFunction k) s as e w \<Longrightarrow> ((k, fun_entry h), (n, i)) \<in> flows g"
  unfolding flows_def by blast

lemma finite_flows: "finite (flows g)"
proof -
  let ?F = "set g" and ?N = "fun_id ` set g"
  let ?I = "\<Union>f \<in> ?F. {..<length (fun_continuations f)}"
  let ?E = "\<Union>f \<in> ?F. \<Union>c \<in> set (fun_continuations f). edge_target ` outgoing c"
  have found: "f \<in> ?F \<and> n \<in> ?N" if "find_function g n = Some f" for n f
    using that unfolding find_function_def by (auto simp: find_Some_iff)
  have edge: "edge_target e \<in> ?E" if "find_function g n = Some f" "i < length (fun_continuations f)"
      "e \<in> outgoing (fun_continuations f ! i)" for n f i e
    using found [OF that(1)] that(2,3) nth_mem [OF that(2)] by (intro UN_I [of f] UN_I [of "fun_continuations f ! i"]) auto
  have "flows g \<subseteq> (?N \<times> (?E \<union> fun_entry ` ?F)) \<times> (?N \<times> ?I)"
    unfolding flows_def using found edge by fastforce
  moreover have "finite ((?N \<times> (?E \<union> fun_entry ` ?F)) \<times> (?N \<times> ?I))" by (auto simp: outgoing_def)
  ultimately show ?thesis by (rule finite_subset)
qed

text \<open>The nodes a machine has still to leave.\<close>

definition destination_node :: "'v destination \<Rightarrow> nat \<times> nat" where
  "destination_node d = (dest_function d, dest_continuation d)"

definition activation_node :: "'v activation \<Rightarrow> nat \<times> nat" where
  "activation_node a = (act_function a, act_continuation a)"

fun pending_nodes :: "'v machine \<Rightarrow> (nat \<times> nat) multiset" where
  "pending_nodes k =
     mset (map destination_node (machine_callers k)) +
     (case machine_state k of Ready a \<Rightarrow> {#activation_node a#} | _ \<Rightarrow> {#})"

lemma machine_destination_node:
  "machine_destination g a e = Inr d \<Longrightarrow> destination_node d = (act_function a, edge_target e)"
  by (auto simp: machine_destination_def and_then_eq_Inr destination_node_def)

lemma machine_arrive_node: "machine_arrive g d r = Inr a \<Longrightarrow> activation_node a = destination_node d"
  by (auto simp: machine_arrive_def and_then_eq_Inr destination_node_def activation_node_def)

lemma matching_case_edge:
  assumes "matching_case ops vals v cases fallback = Inr e"
  shows "e = fallback \<or> e \<in> snd ` set cases"
proof (cases "cases = []")
  case False
  with assms obtain x where "e = (case find (\<lambda>(constant, _). matches_constant ops x constant) cases of
      None \<Rightarrow> fallback | Some (_, e) \<Rightarrow> e)"
    by (auto simp: matching_case_def and_then_eq_Inr)
  then show ?thesis
    by (cases "find (\<lambda>(constant, _). matches_constant ops x constant) cases")
      (auto simp: find_Some_iff image_iff intro!: bexI [OF _ nth_mem])
qed (use assms in \<open>simp add: matching_case_def\<close>)

lemma mult1_replace: "(\<And>x. x \<in># K \<Longrightarrow> (x, a) \<in> r) \<Longrightarrow> (M + K, M + {#a#}) \<in> mult1 r"
  unfolding mult1_def mem_Collect_eq case_prod_conv by (intro exI [of _ a] exI [of _ M] exI [of _ K]) auto

lemma goto_descends:
  assumes "goto g a callers e = Inr (k, answer)" "((act_function a, edge_target e), activation_node a) \<in> r"
  shows "(pending_nodes k, mset (map destination_node callers) + {#activation_node a#}) \<in> mult1 r"
proof -
  from assms(1) obtain b where "k = \<lparr>machine_state = Ready b, machine_callers = callers\<rparr>"
      "activation_node b = (act_function a, edge_target e)"
    by (auto simp: step_simps dest!: machine_destination_node machine_arrive_node)
  then have "pending_nodes k = mset (map destination_node callers) + {#(act_function a, edge_target e)#}" by simp
  then show ?thesis using assms(2) by (simp only:) (rule mult1_replace, simp)
qed

lemma take_transition_descends:
  assumes step: "take_transition ops g a callers t = Inr (k, None)"
    and f: "find_function g (act_function a) = Some f" "act_continuation a < length (fun_continuations f)"
      "t = con_transition (fun_continuations f ! act_continuation a)"
  shows "(pending_nodes k, mset (map destination_node callers) + {#activation_node a#}) \<in> mult1 (flows g)"
proof -
  have edge: "((act_function a, edge_target e), activation_node a) \<in> flows g" if "e \<in> set (transition_edges t)" for e
    using f that by (auto simp: flows_def activation_node_def outgoing_def)
  have goes: ?thesis if "goto g a callers e = Inr (k, None)" "e \<in> set (transition_edges t)" for e
    using goto_descends [OF that(1) edge [OF that(2)]] .
  show ?thesis
  proof (cases t)
    case (Jump e)
    with step goes [of e] show ?thesis by simp
  next
    case (BranchOn c yes no)
    with step obtain b where "goto g a callers (if b then yes else no) = Inr (k, None)"
      by (auto simp: and_then_eq_Inr case_error_Inr)
    with BranchOn goes show ?thesis by (cases b) auto
  next
    case (SwitchOn v cases fallback)
    with step obtain e where e: "matching_case ops (act_values a) v cases fallback = Inr e" "goto g a callers e = Inr (k, None)"
      by (auto simp: and_then_eq_Inr)
    have "e \<in> set (transition_edges t)"
      using matching_case_edge [OF e(1)] SwitchOn by simp
    with goes e(2) show ?thesis by blast
  next
    case (CallOut target s as e w)
    from step [unfolded CallOut] obtain n d xs callee where target: "target = CallFunction n"
        and d: "machine_destination g a e = Inr d" and callee: "machine_new g n xs = Inr callee"
        and k: "k = \<lparr>machine_state = machine_state callee, machine_callers = d # callers\<rparr>"
      by (cases rule: take_call_cases) auto
    from callee obtain h b where h: "find_function g n = Some h" and b: "machine_state callee = Ready b"
        "activation_node b = (n, fun_entry h)"
      by (auto simp: machine_new_def and_then_eq_Inr activation_node_def split: option.splits if_splits)
    have "((n, fun_entry h), activation_node a) \<in> flows g"
      using flows_call [OF f(1) h f(2), of s as e w] f(3) CallOut target by (simp add: activation_node_def)
    moreover have "(destination_node d, activation_node a) \<in> flows g"
      using edge [of e] machine_destination_node [OF d] CallOut by simp
    moreover have "pending_nodes k =
        mset (map destination_node callers) + {#destination_node d, (n, fun_entry h)#}"
      using k b by simp
    ultimately show ?thesis by (simp only:) (rule mult1_replace, auto)
  next
    case (ReturnFrom v)
    from step [unfolded this] have "pending_nodes k = mset (map destination_node callers) + {#}"
      by (cases rule: take_return_cases) (auto dest!: machine_arrive_node)
    then show ?thesis by (simp only:) (rule mult1_replace, simp)
  next
    case (TrapWith message)
    with step show ?thesis by simp
  qed
qed

lemma run_activation_descends:
  assumes "run_activation ops execute g a callers s = (k, s', Inr None)"
  shows "(pending_nodes k, mset (map destination_node callers) + {#activation_node a#}) \<in> mult1 (flows g)"
proof -
  from assms obtain f vals where f: "find_function g (act_function a) = Some f"
      "act_continuation a < length (fun_continuations f)"
      and step: "take_transition ops g (a\<lparr>act_values := vals\<rparr>) callers
        (con_transition (fun_continuations f ! act_continuation a)) = Inr (k, None)"
    by (auto simp: run_activation_def Let_def machine_function_def machine_continuation_def and_then_eq_Inr
        split: sum.splits prod.splits machine_stop.splits option.splits if_splits)
  from take_transition_descends [OF step] f show ?thesis by (simp add: activation_node_def)
qed

text \<open>
  C11. On a graph without cycles, edges and calls taken together, the machine does not run on
  forever: from every state some number of turns is enough for \<open>poll\<close> to answer with something
  other than \<open>Yielded\<close>, whatever the instructions compute.
\<close>

theorem acyclic_graphs_settle:
  assumes "acyclic (flows g)"
  shows "\<exists>n k' s' r. poll ops execute g n k s = (k', s', r) \<and> r \<noteq> Inr Yielded"
proof -
  have wf: "wf (mult1 (flows g))"
    using finite_acyclic_wf [OF finite_flows assms] by (rule wf_mult1)
  show ?thesis
    using wf
  proof (induction "pending_nodes k" arbitrary: k s rule: wf_induct_rule)
    case less
    show ?case
    proof (cases "machine_state k")
      case (Ready a)
      obtain k' s' r where run: "run_activation ops execute g a (machine_callers k) s = (k', s', r)"
        by (metis prod_cases3)
      show ?thesis
      proof (cases "r = Inr None")
        case True
        with run_activation_descends run Ready have "(pending_nodes k', pending_nodes k) \<in> mult1 (flows g)" by fastforce
        from less [OF this] obtain n k'' s'' r' where "poll ops execute g n k' s' = (k'', s'', r')" "r' \<noteq> Inr Yielded" by blast
        with Ready run True have "poll ops execute g (Suc n) k s = (k'', s'', r') \<and> r' \<noteq> Inr Yielded" by simp
        then show ?thesis by blast
      next
        case False
        with Ready run run_activation_answers [of ops execute g a "machine_callers k" s k' s']
        have "\<exists>r'. poll ops execute g (Suc 0) k s = (k', s', r') \<and> r' \<noteq> Inr Yielded"
          by (auto split: sum.split option.split)
        then show ?thesis by blast
      qed
    qed (auto intro: exI [of _ "Suc 0"])
  qed
qed

section \<open>What validation gives the machine\<close>

lemma validated_tables: "validate_continuation_graph g m = Inr () \<Longrightarrow> validate_tables g m = Inr ()"
  by (auto simp: validate_continuation_graph_def and_then_eq_Inr)

definition function_signature :: "runtime_tables \<Rightarrow> graph_function \<Rightarrow> runtime_signature" where
  "function_signature m f = table_signatures m ! fun_signature f"

lemma validated_function:
  assumes "validate_continuation_graph g m = Inr ()" "n < length g" "f = g ! n"
  obtains defs live where "fun_id f = n" "fun_entry f < length (fun_continuations f)"
    "con_captures (fun_continuations f ! fun_entry f) = []"
    "map def_type (con_parameters (fun_continuations f ! fun_entry f)) = sig_parameters (function_signature m f)"
    "well_defined m f" "function_definitions f = Inr defs" "live_inputs f = Inr live"
    "\<forall>c \<in> set (fun_continuations f). validate_continuation m g f (function_signature m f) defs live c = Inr ()"
proof -
  from assms(1) obtain ids where "fold_each (validate_function m g) (enumerate 0 g) {} = Inr ids"
    by (auto simp: validate_continuation_graph_def and_then_eq_Inr)
  moreover have "(n, f) \<in> set (enumerate 0 g)" using assms(2,3) by (simp add: in_set_enumerate_eq)
  ultimately obtain s t where "validate_function m g (n, f) s = Inr t" by (blast dest: fold_each_each)
  then show ?thesis
    by (auto simp: validate_function_def function_signature_def Let_def and_then_eq_Inr check_each_Inr
        check_function_definitions_Inr not_le intro!: that split: if_splits)
qed

lemma validated_ids: "validate_continuation_graph g m = Inr () \<Longrightarrow> n < length g \<Longrightarrow> fun_id (g ! n) = n"
  by (rule validated_function) auto

lemma find_validated:
  assumes "validate_continuation_graph g m = Inr ()"
  shows "find_function g n = Some f \<longleftrightarrow> n < length g \<and> f = g ! n"
proof
  assume "find_function g n = Some f"
  then obtain i where "i < length g" "fun_id (g ! i) = n" "f = g ! i"
    by (auto simp: find_function_def find_Some_iff)
  with validated_ids [OF assms, of i] show "n < length g \<and> f = g ! n" by simp
next
  assume n: "n < length g \<and> f = g ! n"
  then have "fun_id f = n" using validated_ids [OF assms] by simp
  moreover have "fun_id (g ! j) \<noteq> n" if "j < n" for j
    using validated_ids [OF assms, of j] n that by simp
  ultimately show "find_function g n = Some f" using n
    by (auto simp: find_function_def find_Some_iff intro!: exI [of _ n])
qed

definition node_at :: "graph \<Rightarrow> nat \<Rightarrow> nat \<Rightarrow> continuation" where
  "node_at g n i = fun_continuations (g ! n) ! i"

definition node_ok :: "graph \<Rightarrow> nat \<Rightarrow> nat \<Rightarrow> bool" where
  "node_ok g n i \<longleftrightarrow> n < length g \<and> i < length (fun_continuations (g ! n))"

definition result_type :: "runtime_tables \<Rightarrow> graph \<Rightarrow> nat \<Rightarrow> nat" where
  "result_type m g n = sig_result (function_signature m (g ! n))"

lemma check_input_Inr:
  "check_input c defs d available = Inr a \<Longrightarrow>
     available (def_value d) = None \<and> a = available(def_value d \<mapsto> def_type d)"
  by (auto simp: check_input_def split: option.splits if_splits)

lemma check_instruction_Inr:
  "check_instruction m f i available = Inr a \<Longrightarrow>
     a = available(def_value (ins_definition i) \<mapsto> def_type (ins_definition i)) \<and>
     (\<exists>ts. collect (available_type available) (ins_operands i) = Inr ts \<and> instruction_matches m i ts f = Inr True)"
  by (auto simp: check_instruction_def validate_instruction_def and_then_eq_Inr split: if_splits)

lemma input_fold:
  assumes "fold_each (check_input c defs) ds available = Inr available'"
  shows "distinct (map def_value ds) \<and> (\<forall>d \<in> set ds. available (def_value d) = None) \<and>
    (\<forall>v t. available' v = Some t \<longleftrightarrow> available v = Some t \<or> (\<exists>d \<in> set ds. def_value d = v \<and> def_type d = t))"
  using assms
proof (induction ds arbitrary: available)
  case (Cons d ds)
  from Cons.prems have fresh: "available (def_value d) = None"
    and rest: "fold_each (check_input c defs) ds (available(def_value d \<mapsto> def_type d)) = Inr available'"
    by (auto simp: and_then_eq_Inr dest!: check_input_Inr)
  from Cons.IH [OF rest] have distinct: "distinct (map def_value ds)"
    and none: "\<forall>e \<in> set ds. (available(def_value d \<mapsto> def_type d)) (def_value e) = None"
    and found: "\<forall>v t. available' v = Some t \<longleftrightarrow> (available(def_value d \<mapsto> def_type d)) v = Some t \<or>
      (\<exists>e \<in> set ds. def_value e = v \<and> def_type e = t)" by blast+
  from none have "def_value d \<notin> def_value ` set ds" "\<forall>e \<in> set ds. available (def_value e) = None"
    by (auto split: if_splits)
  with distinct fresh found show ?case by auto
qed auto

lemma check_inputs_Inr:
  assumes "check_inputs defs c = Inr available"
  shows "distinct (map def_value (con_parameters c @ con_captures c))"
    and "available v = Some t \<longleftrightarrow> (\<exists>d \<in> set (con_parameters c @ con_captures c). def_value d = v \<and> def_type d = t)"
  using input_fold [OF assms [unfolded check_inputs_def]] by auto

section \<open>Typed machines\<close>

text \<open>\<open>has x t\<close>: the value \<open>x\<close> is one of type \<open>t\<close> of the table.\<close>

definition inputs_typed :: "('v \<Rightarrow> nat \<Rightarrow> bool) \<Rightarrow> continuation \<Rightarrow> (nat \<rightharpoonup> 'v) \<Rightarrow> bool" where
  "inputs_typed has c vals \<longleftrightarrow>
     (\<forall>d \<in> set (con_parameters c @ con_captures c). \<exists>x. vals (def_value d) = Some x \<and> has x (def_type d))"

definition activation_typed :: "graph \<Rightarrow> ('v \<Rightarrow> nat \<Rightarrow> bool) \<Rightarrow> 'v activation \<Rightarrow> bool" where
  "activation_typed g has a \<longleftrightarrow> node_ok g (act_function a) (act_continuation a) \<and>
     inputs_typed has (node_at g (act_function a) (act_continuation a)) (act_values a)"

definition argument_typed :: "('v \<Rightarrow> nat \<Rightarrow> bool) \<Rightarrow> nat option \<Rightarrow> 'v option \<Rightarrow> value_definition \<Rightarrow> bool" where
  "argument_typed has awaited x p \<longleftrightarrow>
     (case x of Some y \<Rightarrow> has y (def_type p) | None \<Rightarrow> awaited = Some (def_type p))"

text \<open>A destination that still needs a result of type \<open>awaited\<close>, or none.\<close>

definition destination_typed :: "graph \<Rightarrow> ('v \<Rightarrow> nat \<Rightarrow> bool) \<Rightarrow> 'v destination \<Rightarrow> nat option \<Rightarrow> bool" where
  "destination_typed g has d awaited \<longleftrightarrow> node_ok g (dest_function d) (dest_continuation d) \<and>
     (let c = node_at g (dest_function d) (dest_continuation d)
      in list_all2 (argument_typed has awaited) (dest_arguments d) (con_parameters c) \<and>
         (\<forall>p \<in> set (con_captures c). \<exists>x. dest_captures d (def_value p) = Some x \<and> has x (def_type p)))"

text \<open>The callers of an activation of function \<open>n\<close>, when the run is to return a value of type \<open>r\<close>.\<close>

fun stack_typed ::
  "runtime_tables \<Rightarrow> graph \<Rightarrow> ('v \<Rightarrow> nat \<Rightarrow> bool) \<Rightarrow> nat \<Rightarrow> nat \<Rightarrow> 'v destination list \<Rightarrow> bool" where
  "stack_typed m g has r n [] \<longleftrightarrow> result_type m g n = r"
| "stack_typed m g has r n (d # ds) \<longleftrightarrow>
     destination_typed g has d (Some (result_type m g n)) \<and> stack_typed m g has r (dest_function d) ds"

definition machine_typed ::
  "runtime_tables \<Rightarrow> graph \<Rightarrow> ('v \<Rightarrow> nat \<Rightarrow> bool) \<Rightarrow> nat \<Rightarrow> 'v machine \<Rightarrow> nat option \<Rightarrow> bool" where
  "machine_typed m g has r k awaited \<longleftrightarrow>
     (case machine_state k of
        Ready a \<Rightarrow> activation_typed g has a \<and> stack_typed m g has r (act_function a) (machine_callers k)
      | Waiting d \<Rightarrow> awaited \<noteq> None \<and> destination_typed g has d awaited \<and>
          stack_typed m g has r (dest_function d) (machine_callers k)
      | Returned x \<Rightarrow> has x r
      | Trapped message \<Rightarrow> True
      | Running \<Rightarrow> False)"

text \<open>What the executor and the values are relied on for.\<close>

definition executes_well ::
  "runtime_tables \<Rightarrow> graph \<Rightarrow> ('v \<Rightarrow> nat \<Rightarrow> bool) \<Rightarrow> ('s, 'v) executor \<Rightarrow> bool" where
  "executes_well m g has execute \<longleftrightarrow>
     (\<forall>f \<in> set g. \<forall>i ts xs s x s'. instruction_matches m i ts f = Inr True \<longrightarrow> list_all2 has xs ts \<longrightarrow>
        execute i xs s = (Inr x, s') \<longrightarrow> has x (def_type (ins_definition i)))"

definition conditions_read :: "runtime_tables \<Rightarrow> ('v \<Rightarrow> nat \<Rightarrow> bool) \<Rightarrow> 'v value_operations \<Rightarrow> bool" where
  "conditions_read m has ops \<longleftrightarrow>
     (\<forall>x t. has x t \<longrightarrow> type_at m t = Inr BooleanType \<longrightarrow> (\<exists>b. condition_of ops x = Inr b))"

text \<open>The values of a point of a continuation.\<close>

definition values_typed :: "('v \<Rightarrow> nat \<Rightarrow> bool) \<Rightarrow> available \<Rightarrow> (nat \<rightharpoonup> 'v) \<Rightarrow> bool" where
  "values_typed has available vals \<longleftrightarrow> (\<forall>v t. available v = Some t \<longrightarrow> (\<exists>x. vals v = Some x \<and> has x t))"

lemma inputs_values_typed:
  "check_inputs defs c = Inr available \<Longrightarrow> inputs_typed has c vals \<Longrightarrow> values_typed has available vals"
  by (auto simp: values_typed_def inputs_typed_def check_inputs_Inr(2))

lemma lookup_typed:
  assumes "values_typed has available vals" "available_type available v = Inr t"
  obtains x where "lookup_value vals v = Inr x" "has x t"
proof -
  from assms(2) have "available v = Some t" by (simp add: available_type_def split: option.splits)
  with assms(1) obtain x where "vals v = Some x" "has x t" unfolding values_typed_def by blast
  then show ?thesis by (intro that [of x]) (simp_all add: lookup_value_def)
qed

lemma lookups_typed:
  assumes "values_typed has available vals" "collect (available_type available) vs = Inr ts"
  obtains xs where "collect (lookup_value vals) vs = Inr xs" "list_all2 has xs ts"
proof -
  from assms(2) have "list_all2 (\<lambda>v t. available_type available v = Inr t) vs ts" by (simp add: collect_Inr)
  then have "\<exists>xs. collect (lookup_value vals) vs = Inr xs \<and> list_all2 has xs ts"
  proof (induction rule: list_all2_induct)
    case (Cons v vs t ts)
    from lookup_typed [OF assms(1) Cons(1)] obtain x where "lookup_value vals v = Inr x" "has x t" .
    with Cons.IH show ?case by auto
  qed simp
  then show ?thesis using that by blast
qed

lemma run_instructions_typed:
  assumes "executes_well m g has execute" "f \<in> set g"
    "fold_each (check_instruction m f) is available = Inr available'" "values_typed has available vals"
    "run_instructions execute is vals s = (r, s')"
  shows "r \<noteq> Inl StopPanic \<and> (\<forall>vals'. r = Inr vals' \<longrightarrow> values_typed has available' vals')"
  using assms(3-5)
proof (induction "is" arbitrary: available vals s)
  case (Cons i "is")
  from Cons.prems(1) obtain ts where ts: "collect (available_type available) (ins_operands i) = Inr ts"
      and matches: "instruction_matches m i ts f = Inr True"
      and rest: "fold_each (check_instruction m f) is
        (available(def_value (ins_definition i) \<mapsto> def_type (ins_definition i))) = Inr available'"
    by (auto simp: and_then_eq_Inr dest!: check_instruction_Inr)
  from lookups_typed [OF Cons.prems(2) ts] obtain xs where xs: "collect (lookup_value vals) (ins_operands i) = Inr xs"
      "list_all2 has xs ts" .
  obtain y t where step: "execute i xs s = (y, t)" by force
  show ?case
  proof (cases y)
    case (Inl message)
    with Cons.prems(3) xs step show ?thesis by auto
  next
    case (Inr x)
    with assms(1,2) matches xs(2) step have "has x (def_type (ins_definition i))"
      unfolding executes_well_def by blast
    with Cons.prems(2) have typed: "values_typed has
        (available(def_value (ins_definition i) \<mapsto> def_type (ins_definition i)))
        (vals(def_value (ins_definition i) \<mapsto> x))"
      by (auto simp: values_typed_def)
    have "run_instructions execute is (vals(def_value (ins_definition i) \<mapsto> x)) t = (r, s')"
      using Cons.prems(3) xs step Inr by simp
    from Cons.IH [OF rest typed this] show ?thesis .
  qed
qed auto

section \<open>Edges\<close>

text \<open>
  Everything validation says of one continuation: what is available after its instructions, that
  its transition checks there, and that its edges fit and check.
\<close>

definition continuation_checked ::
  "runtime_tables \<Rightarrow> graph \<Rightarrow> nat \<Rightarrow> nat \<Rightarrow> available \<Rightarrow> available \<Rightarrow> nat option \<Rightarrow> bool" where
  "continuation_checked m g n i inputs available awaited \<longleftrightarrow>
     (\<exists>defs. let f = g ! n; c = node_at g n i; t = con_transition c
      in check_inputs defs c = Inr inputs \<and>
         fold_each (check_instruction m f) (con_instructions c) inputs = Inr available \<and>
         check_transition m g f (function_signature m f) available t = Inr awaited \<and>
         (\<forall>e \<in> set (transition_edges t). edge_fits (fun_continuations f) e \<and>
            check_edge f defs available (suspending_call t) awaited e = Inr ()))"

lemma validated_node:
  assumes "validate_continuation_graph g m = Inr ()" "node_ok g n i"
  obtains inputs available awaited where "continuation_checked m g n i inputs available awaited"
proof -
  let ?f = "g ! n" and ?c = "node_at g n i"
  from assms(2) have n: "n < length g" and c: "?c \<in> set (fun_continuations ?f)" by (auto simp: node_ok_def node_at_def)
  from validated_function [OF assms(1) n refl] obtain defs live where wd: "well_defined m ?f"
      and live: "live_inputs ?f = Inr live"
      and checked: "\<forall>c \<in> set (fun_continuations ?f).
        validate_continuation m g ?f (function_signature m ?f) defs live c = Inr ()" by metis
  from live_inputs_cases [of ?f] wd live have "edges_fit (fun_continuations ?f)" by (simp add: well_defined_def)
  with c have "\<forall>e \<in> set (transition_edges (con_transition ?c)). edge_fits (fun_continuations ?f) e"
    by (auto simp: edges_fit_def outgoing_def)
  moreover from checked c have "validate_continuation m g ?f (function_signature m ?f) defs live ?c = Inr ()" by blast
  moreover from this obtain inputs available awaited where
      "check_inputs defs ?c = Inr inputs"
      "fold_each (check_instruction m ?f) (con_instructions ?c) inputs = Inr available"
      "check_transition m g ?f (function_signature m ?f) available (con_transition ?c) = Inr awaited"
      "\<forall>e \<in> set (transition_edges (con_transition ?c)).
        check_edge ?f defs available (suspending_call (con_transition ?c)) awaited e = Inr ()"
    by (auto simp: validate_continuation_def and_then_eq_Inr check_each_Inr)
  ultimately have "continuation_checked m g n i inputs available awaited"
    unfolding continuation_checked_def Let_def by blast
  then show ?thesis by (rule that)
qed

lemma validated_distinct:
  assumes "validate_continuation_graph g m = Inr ()" "node_ok g n i"
  shows "distinct (map def_value (con_parameters (node_at g n i) @ con_captures (node_at g n i)))"
proof -
  from validated_node [OF assms] obtain inputs defs where "check_inputs defs (node_at g n i) = Inr inputs"
    unfolding continuation_checked_def Let_def by metis
  then show ?thesis by (rule check_inputs_Inr(1))
qed

lemma collect_all2:
  "list_all2 P xs zs \<Longrightarrow> (\<And>x z. x \<in> set xs \<Longrightarrow> P x z \<Longrightarrow> \<exists>y. f x = Inr y \<and> Q y z) \<Longrightarrow>
     \<exists>ys. collect f xs = Inr ys \<and> list_all2 Q ys zs"
proof (induction rule: list_all2_induct)
  case (Cons x xs z zs)
  from Cons.prems [of x z] Cons(1) obtain y where "f x = Inr y" "Q y z" by auto
  moreover from Cons obtain ys where "collect f xs = Inr ys" "list_all2 Q ys zs" by auto
  ultimately show ?case by auto
qed simp

lemma edge_argument_typed:
  assumes "values_typed has available vals" "check_argument defs available suspends awaited (a, p) = Inr ()"
  shows "\<exists>x. edge_argument vals a = Inr x \<and> argument_typed has awaited x p"
proof (cases a)
  case (ArgumentValue v)
  with assms(2) have "available v = Some (def_type p)"
    by (auto simp: check_argument_def argument_type_def and_then_eq_Inr split: option.splits)
  with assms(1) obtain x where "vals v = Some x" "has x (def_type p)" unfolding values_typed_def by blast
  with ArgumentValue show ?thesis by (simp add: edge_argument_def lookup_value_def argument_typed_def)
next
  case ArgumentResult
  with assms(2) have "awaited = Some (def_type p)"
    by (auto simp: check_argument_def argument_type_def and_then_eq_Inr split: option.splits)
  with ArgumentResult show ?thesis by (simp add: edge_argument_def argument_typed_def)
qed

lemma captures_collected:
  assumes "\<forall>p \<in> set ps. \<exists>x. vals (def_value p) = Some x \<and> has x (def_type p)" "distinct (map def_value ps)"
  shows "\<exists>xs. collect (\<lambda>c. and_then (lookup_value vals (def_value c)) (\<lambda>x. Inr (def_value c, x))) ps = Inr xs \<and>
    (\<forall>p \<in> set ps. \<exists>x. map_of (rev xs) (def_value p) = Some x \<and> has x (def_type p))"
proof -
  have "collect (\<lambda>c. and_then (lookup_value vals (def_value c)) (\<lambda>x. Inr (def_value c, x))) ps =
      Inr (map (\<lambda>c. (def_value c, the (vals (def_value c)))) ps)"
    using assms(1) by (induction ps) (auto simp: lookup_value_def)
  moreover have "map_of (rev (map (\<lambda>c. (def_value c, the (vals (def_value c)))) ps)) (def_value p) =
      Some (the (vals (def_value p)))" if "p \<in> set ps" for p
    using that assms(2) by (intro map_of_is_SomeI) (simp_all add: comp_def flip: rev_map)
  moreover have "\<forall>p \<in> set ps. has (the (vals (def_value p))) (def_type p)" using assms(1) by fastforce
  ultimately show ?thesis by simp
qed

lemma destination_reached:
  assumes valid: "validate_continuation_graph g m = Inr ()" and n: "act_function a < length g"
    and typed: "values_typed has available (act_values a)"
    and fits: "edge_fits (fun_continuations (g ! act_function a)) e"
    and check: "check_edge (g ! act_function a) defs available suspends awaited e = Inr ()"
  obtains d where "machine_destination g a e = Inr d" "destination_typed g has d awaited"
    "dest_function d = act_function a" "dest_continuation d = edge_target e"
proof -
  let ?c = "node_at g (act_function a) (edge_target e)"
  have ok: "node_ok g (act_function a) (edge_target e)"
    using n fits by (simp add: node_ok_def edge_fits_def)
  from fits have len: "length (edge_arguments e) = length (con_parameters ?c)" by (simp add: edge_fits_def node_at_def)
  from check have arguments: "\<forall>p \<in> set (zip (edge_arguments e) (con_parameters ?c)).
        check_argument defs available suspends awaited p = Inr ()"
    and captures: "\<forall>p \<in> set (con_captures ?c). check_edge_capture available suspends p = Inr ()"
    by (auto simp: check_edge_def Let_def and_then_eq_Inr check_each_Inr node_at_def split: if_splits)
  have "list_all2 (\<lambda>x p. check_argument defs available suspends awaited (x, p) = Inr ())
      (edge_arguments e) (con_parameters ?c)"
    using len arguments by (auto simp: list_all2_iff)
  then have "\<exists>xs. collect (edge_argument (act_values a)) (edge_arguments e) = Inr xs \<and>
      list_all2 (argument_typed has awaited) xs (con_parameters ?c)"
    by (rule collect_all2) (rule edge_argument_typed [OF typed])
  then obtain xs where xs: "collect (edge_argument (act_values a)) (edge_arguments e) = Inr xs"
      "list_all2 (argument_typed has awaited) xs (con_parameters ?c)" by blast
  have "\<exists>x. act_values a (def_value p) = Some x \<and> has x (def_type p)" if "p \<in> set (con_captures ?c)" for p
    using captures that typed by (auto simp: check_edge_capture_def values_typed_def split: if_splits)
  then obtain ys where ys: "collect (\<lambda>c. and_then (lookup_value (act_values a) (def_value c)) (\<lambda>x. Inr (def_value c, x)))
        (con_captures ?c) = Inr ys"
      "\<forall>p \<in> set (con_captures ?c). \<exists>x. map_of (rev ys) (def_value p) = Some x \<and> has x (def_type p)"
    using captures_collected [of "con_captures ?c" "act_values a" has] validated_distinct [OF valid ok] by auto
  have reached: "machine_function g (act_function a) = Inr (g ! act_function a)"
      "machine_continuation (g ! act_function a) (edge_target e) = Inr ?c"
    using ok find_validated [OF valid] by (auto simp: machine_function_def machine_continuation_def node_ok_def node_at_def
        split: option.split)
  let ?d = "\<lparr>dest_function = act_function a, dest_continuation = edge_target e, dest_arguments = xs,
      dest_captures = map_of (rev ys)\<rparr>"
  have "machine_destination g a e = Inr ?d"
    using xs(1) ys(1) reached by (simp add: machine_destination_def)
  moreover have "destination_typed g has ?d awaited"
    using xs ys ok by (simp add: destination_typed_def)
  ultimately show ?thesis by (rule that) simp_all
qed

lemma arguments_inserted:
  assumes "list_all2 (argument_typed has awaited) xs ps" "\<forall>t. awaited = Some t \<longrightarrow> (\<exists>x. result = Some x \<and> has x t)"
    "distinct (map def_value ps)"
  shows "\<exists>vals'. fold_each (insert_argument result) (zip ps xs) vals = Inr vals' \<and>
    (\<forall>v. v \<notin> def_value ` set ps \<longrightarrow> vals' v = vals v) \<and>
    (\<forall>p \<in> set ps. \<exists>x. vals' (def_value p) = Some x \<and> has x (def_type p))"
  using assms(1,3)
proof (induction arbitrary: vals rule: list_all2_induct)
  case (Cons x xs p ps)
  from Cons(1) assms(2) obtain y where y: "(case x of Some x \<Rightarrow> Some x | None \<Rightarrow> result) = Some y" "has y (def_type p)"
    by (auto simp: argument_typed_def split: option.splits)
  let ?vals = "vals(def_value p \<mapsto> y)"
  from Cons.prems have "distinct (map def_value ps)" and fresh: "def_value p \<notin> def_value ` set ps" by auto
  from Cons.IH [OF this(1), of ?vals] obtain vals' where
      vals: "fold_each (insert_argument result) (zip ps xs) ?vals = Inr vals'"
      "\<forall>v. v \<notin> def_value ` set ps \<longrightarrow> vals' v = ?vals v"
      "\<forall>p \<in> set ps. \<exists>x. vals' (def_value p) = Some x \<and> has x (def_type p)" by blast
  from vals(2) fresh have "vals' (def_value p) = Some y" by simp
  with y vals show ?case by (intro exI [of _ vals']) (simp add: insert_argument_def)
qed auto

lemma destination_arrived:
  assumes valid: "validate_continuation_graph g m = Inr ()" and d: "destination_typed g has d awaited"
    and result: "\<forall>t. awaited = Some t \<longrightarrow> (\<exists>x. result = Some x \<and> has x t)"
  obtains a where "machine_arrive g d result = Inr a" "activation_typed g has a" "act_function a = dest_function d"
proof -
  let ?c = "node_at g (dest_function d) (dest_continuation d)"
  from d have ok: "node_ok g (dest_function d) (dest_continuation d)"
    and arguments: "list_all2 (argument_typed has awaited) (dest_arguments d) (con_parameters ?c)"
    and captures: "\<forall>p \<in> set (con_captures ?c). \<exists>x. dest_captures d (def_value p) = Some x \<and> has x (def_type p)"
    by (simp_all add: destination_typed_def Let_def)
  from validated_distinct [OF valid ok] have distinct: "distinct (map def_value (con_parameters ?c))"
    and apart: "\<forall>p \<in> set (con_captures ?c). def_value p \<notin> def_value ` set (con_parameters ?c)" by auto
  from arguments_inserted [OF arguments result distinct, of "dest_captures d"] obtain vals where
      vals: "fold_each (insert_argument result) (zip (con_parameters ?c) (dest_arguments d)) (dest_captures d) = Inr vals"
      "\<forall>v. v \<notin> def_value ` set (con_parameters ?c) \<longrightarrow> vals v = dest_captures d v"
      "\<forall>p \<in> set (con_parameters ?c). \<exists>x. vals (def_value p) = Some x \<and> has x (def_type p)" by blast
  let ?a = "\<lparr>act_function = dest_function d, act_continuation = dest_continuation d, act_values = vals\<rparr>"
  have "machine_arrive g d result = Inr ?a"
    using vals(1) ok by (simp add: machine_arrive_def machine_function_def machine_continuation_def node_ok_def
        find_validated [OF valid, THEN iffD2] node_at_def)
  moreover have "activation_typed g has ?a"
    using ok vals captures apart by (auto simp: activation_typed_def inputs_typed_def)
  ultimately show ?thesis by (rule that) simp
qed

section \<open>Typed turns\<close>

lemma goto_typed:
  assumes valid: "validate_continuation_graph g m = Inr ()" and n: "act_function a < length g"
    and typed: "values_typed has available (act_values a)"
    and fits: "edge_fits (fun_continuations (g ! act_function a)) e"
    and check: "check_edge (g ! act_function a) defs available suspends None e = Inr ()"
  obtains b where "goto g a callers e = Inr (\<lparr>machine_state = Ready b, machine_callers = callers\<rparr>, None)"
    "activation_typed g has b" "act_function b = act_function a"
proof -
  obtain d where d: "machine_destination g a e = Inr d" "destination_typed g has d None"
      "dest_function d = act_function a"
    by (rule destination_reached [OF assms])
  obtain b where "machine_arrive g d None = Inr b" "activation_typed g has b" "act_function b = dest_function d"
    by (rule destination_arrived [OF valid d(2)]) auto
  with d show ?thesis by (intro that [of b]) (simp_all add: goto_def)
qed

lemma machine_new_typed:
  assumes valid: "validate_continuation_graph g m = Inr ()" and n: "n < length g"
    and arguments: "list_all2 has xs (sig_parameters (function_signature m (g ! n)))"
  obtains b where "machine_new g n xs = Inr \<lparr>machine_state = Ready b, machine_callers = []\<rparr>"
    "activation_typed g has b" "act_function b = n"
proof -
  let ?i = "fun_entry (g ! n)" and ?ps = "con_parameters (node_at g n (fun_entry (g ! n)))"
  have entry: "?i < length (fun_continuations (g ! n))" "con_captures (node_at g n ?i) = []"
      "map def_type ?ps = sig_parameters (function_signature m (g ! n))"
    using validated_function [OF valid n refl] by (metis node_at_def)+
  have "distinct (map def_value ?ps)"
    using validated_distinct [OF valid, of n ?i] entry n by (simp add: node_ok_def)
  have len: "length xs = length ?ps" and each: "j < length ?ps \<Longrightarrow> has (xs ! j) (def_type (?ps ! j))" for j
    using arguments list_all2_nthD [of has xs "map def_type ?ps" j] list_all2_lengthD [of has xs "map def_type ?ps"]
    by (simp_all flip: entry(3))
  have "map_of (rev (zip (map def_value ?ps) xs)) (def_value (?ps ! j)) = Some (xs ! j)" if "j < length ?ps" for j
  proof -
    have "(def_value (?ps ! j), xs ! j) \<in> set (zip (map def_value ?ps) xs)"
      using that len by (auto simp: set_zip intro!: exI [of _ j])
    with \<open>distinct (map def_value ?ps)\<close> len show ?thesis
      by (intro map_of_is_SomeI) (simp_all flip: rev_map)
  qed
  with each have "inputs_typed has (node_at g n ?i) (map_of (rev (zip (map def_value ?ps) xs)))"
    using entry(2) by (auto simp: inputs_typed_def in_set_conv_nth)
  moreover have "find_function g n = Some (g ! n)" using find_validated [OF valid] n by simp
  moreover have "parameter_values (node_at g n ?i) = map def_value ?ps" by (simp add: parameter_values_def)
  ultimately show ?thesis using entry(1) n len
    by (intro that [of "\<lparr>act_function = n, act_continuation = ?i, act_values = map_of (rev (zip (map def_value ?ps) xs))\<rparr>"])
      (simp_all add: machine_new_def machine_continuation_def activation_typed_def node_ok_def node_at_def)
qed

text \<open>The signature a request is made with, what an observation carries, and what it waits for.\<close>

fun request_signature :: "runtime_tables \<Rightarrow> call_target \<Rightarrow> nat option" where
  "request_signature m (CallHost c n) = map_option cap_signature (find_operation m c n)"
| "request_signature m (CallLink u n) = map_option link_signature (find_link m u n)"
| "request_signature m (CallFunction n) = None"

fun observation_typed :: "runtime_tables \<Rightarrow> ('v \<Rightarrow> nat \<Rightarrow> bool) \<Rightarrow> nat \<Rightarrow> 'v observation \<Rightarrow> bool" where
  "observation_typed m has r (Request target xs) \<longleftrightarrow>
     (\<exists>s. request_signature m target = Some s \<and> list_all2 has xs (sig_parameters (table_signatures m ! s)))"
| "observation_typed m has r (ReturnedValue x) \<longleftrightarrow> has x r"
| "observation_typed m has r Yielded \<longleftrightarrow> True"
| "observation_typed m has r (TrappedWith message) \<longleftrightarrow> True"

fun awaited_after :: "runtime_tables \<Rightarrow> nat option \<Rightarrow> 'v observation \<Rightarrow> nat option" where
  "awaited_after m awaited (Request target xs) =
     map_option (\<lambda>s. sig_result (table_signatures m ! s)) (request_signature m target)"
| "awaited_after m awaited (ReturnedValue x) = awaited"
| "awaited_after m awaited Yielded = awaited"
| "awaited_after m awaited (TrappedWith message) = awaited"

definition turn_typed ::
  "runtime_tables \<Rightarrow> graph \<Rightarrow> ('v \<Rightarrow> nat \<Rightarrow> bool) \<Rightarrow> nat \<Rightarrow> nat option \<Rightarrow> 'v machine \<Rightarrow> 'v observation option \<Rightarrow> bool" where
  "turn_typed m g has r awaited k answer \<longleftrightarrow>
     (case answer of
        None \<Rightarrow> (\<forall>d. machine_state k \<noteq> Waiting d) \<and> machine_typed m g has r k awaited
      | Some observation \<Rightarrow> observation_typed m has r observation \<and>
          machine_typed m g has r k (awaited_after m awaited observation))"

lemma turn_ready:
  "activation_typed g has b \<Longrightarrow> stack_typed m g has r (act_function b) callers \<Longrightarrow>
     turn_typed m g has r awaited \<lparr>machine_state = Ready b, machine_callers = callers\<rparr> None"
  by (simp add: turn_typed_def machine_typed_def)

lemma call_typed:
  assumes valid: "validate_continuation_graph g m = Inr ()" and n: "act_function a < length g"
    and typed: "values_typed has available (act_values a)" and stack: "stack_typed m g has r (act_function a) callers"
    and fits: "edge_fits (fun_continuations (g ! act_function a)) e"
    and checked: "check_transition m g (g ! act_function a) signature available (CallOut target s as e w) = Inr awaiting"
    and check: "check_edge (g ! act_function a) defs available w awaiting e = Inr ()"
  obtains k answer where "take_transition ops g a callers (CallOut target s as e w) = Inr (k, answer)"
    "turn_typed m g has r awaited k answer"
proof -
  from checked have types: "collect (available_type available) as = Inr (sig_parameters (table_signatures m ! s))"
    and target: "check_call_target m g (g ! act_function a) target s w = Inr ()"
    and awaiting: "awaiting = Some (sig_result (table_signatures m ! s))"
    by (auto simp: and_then_eq_Inr split: if_splits)
  from lookups_typed [OF typed types] obtain xs where xs: "collect (lookup_value (act_values a)) as = Inr xs"
      "list_all2 has xs (sig_parameters (table_signatures m ! s))" .
  obtain d where d: "machine_destination g a e = Inr d" "destination_typed g has d awaiting"
      "dest_function d = act_function a"
    by (rule destination_reached [OF valid n typed fits check])
  show ?thesis
  proof (cases "\<exists>k. target = CallFunction k")
    case True
    then obtain k where k: "target = CallFunction k" ..
    with target obtain callee where callee: "find_function g k = Some callee" "fun_signature callee = s"
      by (auto split: option.splits if_splits)
    with find_validated [OF valid] have signature: "k < length g" "function_signature m (g ! k) = table_signatures m ! s"
      by (auto simp: function_signature_def)
    from machine_new_typed [OF valid this(1), of has xs] xs(2) signature(2) obtain b where
        b: "machine_new g k xs = Inr \<lparr>machine_state = Ready b, machine_callers = []\<rparr>"
          "activation_typed g has b" "act_function b = k" by metis
    have "stack_typed m g has r k (d # callers)"
      using d awaiting stack signature by (simp add: result_type_def)
    with b have "turn_typed m g has r awaited \<lparr>machine_state = Ready b, machine_callers = d # callers\<rparr> None"
      by (intro turn_ready) simp_all
    with k xs(1) d(1) b(1) show ?thesis by (intro that) simp_all
  next
    case False
    with target have request: "request_signature m target = Some s"
      by (cases target) (auto split: option.splits)
    let ?k = "\<lparr>machine_state = Waiting d, machine_callers = callers\<rparr>"
    have "take_transition ops g a callers (CallOut target s as e w) = Inr (?k, Some (Request target xs))"
      using False xs(1) d(1) by (cases target) simp_all
    moreover have "turn_typed m g has r awaited ?k (Some (Request target xs))"
      using request xs(2) d awaiting stack by (simp add: turn_typed_def machine_typed_def)
    ultimately show ?thesis by (rule that)
  qed
qed

lemma return_typed:
  assumes valid: "validate_continuation_graph g m = Inr ()" and x: "lookup_value (act_values a) v = Inr x"
    "has x (result_type m g (act_function a))" and stack: "stack_typed m g has r (act_function a) callers"
  obtains k answer where "take_transition ops g a callers (ReturnFrom v) = Inr (k, answer)"
    "turn_typed m g has r awaited k answer"
proof (cases callers)
  case Nil
  with x stack show ?thesis
    by (intro that [of "\<lparr>machine_state = Returned x, machine_callers = []\<rparr>" None])
      (simp_all add: turn_typed_def machine_typed_def)
next
  case (Cons d rest)
  with stack have d: "destination_typed g has d (Some (result_type m g (act_function a)))"
    and rest: "stack_typed m g has r (dest_function d) rest" by simp_all
  obtain b where "machine_arrive g d (Some x) = Inr b" "activation_typed g has b" "act_function b = dest_function d"
    by (rule destination_arrived [OF valid d, of "Some x"]) (use x in auto)
  with Cons x rest show ?thesis
    by (intro that [of "\<lparr>machine_state = Ready b, machine_callers = rest\<rparr>" None]) (simp_all add: turn_ready)
qed

lemma take_transition_typed:
  assumes valid: "validate_continuation_graph g m = Inr ()" and reads: "conditions_read m has ops"
    and checked: "continuation_checked m g n i inputs available awaiting" and n: "act_function a = n" "n < length g"
    and typed: "values_typed has available (act_values a)" and stack: "stack_typed m g has r n callers"
  obtains k answer where "take_transition ops g a callers (con_transition (node_at g n i)) = Inr (k, answer)"
    "turn_typed m g has r awaited k answer"
proof -
  let ?f = "g ! n"
  obtain t where t: "con_transition (node_at g n i) = t" by blast
  with checked obtain defs where
      transition: "check_transition m g ?f (function_signature m ?f) available t = Inr awaiting"
      and edges: "\<And>e. e \<in> set (transition_edges t) \<Longrightarrow> edge_fits (fun_continuations ?f) e \<and>
        check_edge ?f defs available (suspending_call t) awaiting e = Inr ()"
    unfolding continuation_checked_def Let_def by blast
  note result = that
  have goes: thesis if e: "e \<in> set (transition_edges t)" and none: "awaiting = None"
      and steps: "take_transition ops g a callers t = goto g a callers e" for e
  proof -
    obtain b where "goto g a callers e = Inr (\<lparr>machine_state = Ready b, machine_callers = callers\<rparr>, None)"
        "activation_typed g has b" "act_function b = act_function a"
      using goto_typed [OF valid _ typed] edges [OF e] n none by metis
    with steps t stack n show thesis by (intro result) (auto intro: turn_ready)
  qed
  show thesis
  proof (cases t)
    case (Jump e)
    with transition show ?thesis by (intro goes [of e]) simp_all
  next
    case (BranchOn condition yes no)
    with transition obtain s where s: "available_type available condition = Inr s" "type_at m s = Inr BooleanType"
        and none: "awaiting = None"
      by (auto simp: and_then_eq_Inr split: if_splits)
    obtain x where "lookup_value (act_values a) condition = Inr x" "has x s" by (rule lookup_typed [OF typed s(1)])
    moreover from this(2) s(2) reads obtain b where "condition_of ops x = Inr b"
      unfolding conditions_read_def by blast
    ultimately show ?thesis using BranchOn none by (intro goes [of "if b then yes else no"]) simp_all
  next
    case (SwitchOn selector cases fallback)
    with transition obtain s where s: "available_type available selector = Inr s" and none: "awaiting = None"
      by (auto simp: and_then_eq_Inr split: if_splits)
    obtain x where "lookup_value (act_values a) selector = Inr x" by (rule lookup_typed [OF typed s])
    then obtain e where e: "matching_case ops (act_values a) selector cases fallback = Inr e"
      by (cases "cases = []") (auto simp: matching_case_def)
    with matching_case_edge [OF this] SwitchOn none show ?thesis by (intro goes [of e]) auto
  next
    case (CallOut target s as e w)
    obtain k answer where "take_transition ops g a callers t = Inr (k, answer)" "turn_typed m g has r awaited k answer"
      unfolding CallOut
      by (rule call_typed [OF valid _ typed, where r = r and callers = callers and e = e and target = target and s = s
          and as = as and w = w and awaiting = awaiting and defs = defs and awaited = awaited
          and signature = "function_signature m ?f"])
        (use n stack edges [of e] transition CallOut in auto)
    with t show ?thesis by (intro that) simp_all
  next
    case (ReturnFrom v)
    with transition have "available_type available v = Inr (result_type m g n)"
      by (auto simp: and_then_eq_Inr result_type_def split: if_splits)
    then obtain x where x: "lookup_value (act_values a) v = Inr x" "has x (result_type m g n)"
      by (rule lookup_typed [OF typed])
    obtain k answer where "take_transition ops g a callers t = Inr (k, answer)" "turn_typed m g has r awaited k answer"
      unfolding ReturnFrom by (rule return_typed [OF valid, where a = a and v = v and x = x and r = r and callers = callers and awaited = awaited]) (use x n stack in auto)
    with t show ?thesis by (intro that) simp_all
  next
    case (TrapWith message)
    then show ?thesis using t
      by (intro that [of "\<lparr>machine_state = Trapped message, machine_callers = []\<rparr>" "Some (TrappedWith message)"])
        (simp_all add: turn_typed_def machine_typed_def)
  qed
qed

lemma run_activation_typed:
  assumes valid: "validate_continuation_graph g m = Inr ()" and reads: "conditions_read m has ops"
    and executes: "executes_well m g has execute" and a: "activation_typed g has a"
    and stack: "stack_typed m g has r (act_function a) callers"
  obtains k s' answer where "run_activation ops execute g a callers s = (k, s', Inr answer)"
    "turn_typed m g has r awaited k answer"
proof -
  let ?n = "act_function a" and ?c = "node_at g (act_function a) (act_continuation a)"
  from a have ok: "node_ok g ?n (act_continuation a)" and inputs: "inputs_typed has ?c (act_values a)"
    by (simp_all add: activation_typed_def)
  obtain ins available awaiting where checked: "continuation_checked m g ?n (act_continuation a) ins available awaiting"
    by (rule validated_node [OF valid ok])
  then obtain defs where defs: "check_inputs defs ?c = Inr ins"
      and fold: "fold_each (check_instruction m (g ! ?n)) (con_instructions ?c) ins = Inr available"
    unfolding continuation_checked_def Let_def by blast
  have found: "and_then (machine_function g ?n) (\<lambda>f. machine_continuation f (act_continuation a)) = Inr ?c"
    using ok find_validated [OF valid, of ?n "g ! ?n"]
    by (simp add: machine_function_def machine_continuation_def node_ok_def node_at_def)
  obtain o' s' where run: "run_instructions execute (con_instructions ?c) (act_values a) s = (o', s')" by force
  from ok have "g ! ?n \<in> set g" by (simp add: node_ok_def)
  from run_instructions_typed [OF executes this fold inputs_values_typed [OF defs inputs] run]
  have no_panic: "o' \<noteq> Inl StopPanic" and typed: "\<And>vals. o' = Inr vals \<Longrightarrow> values_typed has available vals" by auto
  show ?thesis
  proof (cases o')
    case (Inl stop)
    with no_panic obtain message where "stop = StopTrap message" by (cases stop) auto
    with Inl run found show ?thesis
      by (intro that [of "\<lparr>machine_state = Trapped message, machine_callers = []\<rparr>" s' "Some (TrappedWith message)"])
        (simp_all add: run_activation_def Let_def turn_typed_def machine_typed_def)
  next
    case (Inr vals)
    obtain k answer where "take_transition ops g (a\<lparr>act_values := vals\<rparr>) callers (con_transition ?c) = Inr (k, answer)"
        "turn_typed m g has r awaited k answer"
      by (rule take_transition_typed [OF valid reads checked, of "a\<lparr>act_values := vals\<rparr>" r callers awaited])
        (use ok stack typed [OF Inr] in \<open>auto simp: node_ok_def\<close>)
    with Inr run found show ?thesis by (intro that) (simp_all add: run_activation_def Let_def)
  qed
qed

section \<open>Sessions\<close>

text \<open>
  What a host does with a machine that starts in function \<open>n\<close>: it polls it, resumes it with a value of
  the type the pending request awaits, and cancels it. The last component is that type.
\<close>

inductive session ::
  "runtime_tables \<Rightarrow> graph \<Rightarrow> ('v \<Rightarrow> nat \<Rightarrow> bool) \<Rightarrow> 'v value_operations \<Rightarrow> ('s, 'v) executor \<Rightarrow> nat \<Rightarrow>
   'v machine \<Rightarrow> nat option \<Rightarrow> bool"
  for m g has ops execute n where
  starts: "machine_new g n xs = Inr k \<Longrightarrow> list_all2 has xs (sig_parameters (function_signature m (g ! n))) \<Longrightarrow>
     session m g has ops execute n k None"
| polls: "session m g has ops execute n k awaited \<Longrightarrow> poll ops execute g quantum k s = (k', s', Inr observation) \<Longrightarrow>
     session m g has ops execute n k' (awaited_after m awaited observation)"
| resumes: "session m g has ops execute n k (Some t) \<Longrightarrow> has x t \<Longrightarrow> machine_resume g x k = Inr k' \<Longrightarrow>
     session m g has ops execute n k' (Some t)"
| cancels: "session m g has ops execute n k awaited \<Longrightarrow> session m g has ops execute n (machine_cancel k) awaited"

lemma poll_typed:
  assumes valid: "validate_continuation_graph g m = Inr ()" and reads: "conditions_read m has ops"
    and executes: "executes_well m g has execute" and "machine_typed m g has r k awaited"
    and "poll ops execute g quantum k s = (k', s', answer)"
  shows "case answer of
      Inl fault \<Rightarrow> fault = MachineError ''pending request must settle before polling'' \<and> (\<exists>d. machine_state k = Waiting d)
    | Inr observation \<Rightarrow> observation_typed m has r observation \<and>
        machine_typed m g has r k' (awaited_after m awaited observation)"
  using assms(4,5)
proof (induction quantum arbitrary: k s)
  case (Suc quantum)
  show ?case
  proof (cases "machine_state k")
    case (Ready a)
    with Suc.prems(1) have "activation_typed g has a" "stack_typed m g has r (act_function a) (machine_callers k)"
      by (simp_all add: machine_typed_def)
    then obtain k1 s1 o1 where run: "run_activation ops execute g a (machine_callers k) s = (k1, s1, Inr o1)"
        and typed: "turn_typed m g has r awaited k1 o1"
      by (rule run_activation_typed [OF valid reads executes])
    show ?thesis
    proof (cases o1)
      case None
      with run Ready Suc.prems(2) have "poll ops execute g quantum k1 s1 = (k', s', answer)" by simp
      from Suc.IH [OF _ this] typed None show ?thesis by (auto simp: turn_typed_def split: sum.splits)
    next
      case (Some observation)
      with run Ready Suc.prems(2) typed show ?thesis by (auto simp: turn_typed_def)
    qed
  qed (use Suc.prems in \<open>auto simp: machine_typed_def\<close>)
qed auto

lemma resume_typed:
  assumes valid: "validate_continuation_graph g m = Inr ()" and "machine_typed m g has r k (Some t)" "has x t"
    and "machine_state k = Waiting d"
  obtains k' where "machine_resume g x k = Inr k'" "machine_typed m g has r k' awaited"
proof -
  from assms(2,4) have d: "destination_typed g has d (Some t)" "stack_typed m g has r (dest_function d) (machine_callers k)"
    by (simp_all add: machine_typed_def)
  obtain b where "machine_arrive g d (Some x) = Inr b" "activation_typed g has b" "act_function b = dest_function d"
    by (rule destination_arrived [OF valid d(1), of "Some x"]) (use assms(3) in auto)
  with d(2) assms(4) show ?thesis
    by (intro that [of "k\<lparr>machine_state := Ready b\<rparr>"]) (simp_all add: machine_resume_def machine_typed_def)
qed

lemma session_typed:
  assumes valid: "validate_continuation_graph g m = Inr ()" and n: "n < length g" and reads: "conditions_read m has ops"
    and executes: "executes_well m g has execute" and "session m g has ops execute n k awaited"
  shows "machine_typed m g has (result_type m g n) k awaited"
  using assms(5)
proof induction
  case (starts xs k)
  from machine_new_typed [OF valid n starts(2)] starts(1) obtain b where
      "k = \<lparr>machine_state = Ready b, machine_callers = []\<rparr>" "activation_typed g has b" "act_function b = n" by auto
  then show ?case by (simp add: machine_typed_def)
next
  case (polls k awaited quantum s k' s' observation)
  from poll_typed [OF valid reads executes polls.IH polls(2)] show ?case by simp
next
  case (resumes k t x k')
  from resumes(3) obtain d where "machine_state k = Waiting d" by (auto simp: machine_resume_def split: machine_state.splits)
  from resume_typed [OF valid resumes.IH resumes(2) this] resumes(3) show ?case by (metis sum.inject(2))
qed (simp add: machine_cancel_def machine_typed_def)

text \<open>
  C7. A validated graph is safe to run. Started with arguments of the entry signature, polled,
  resumed with values of the awaited type and cancelled in any order, the machine never panics
  and fails only when it is polled while a request is pending; the arguments of each request have
  the types of the signature it is made with, a returned value has the result type of the entry
  function, and a pending request can be resumed with any value of its result type.
\<close>

theorem machine_sound:
  assumes "validate_continuation_graph g m = Inr ()" "n < length g" "conditions_read m has ops"
    "executes_well m g has execute" "session m g has ops execute n k awaited"
  shows "(case poll ops execute g quantum k s of
      (_, _, Inl fault) \<Rightarrow> fault = MachineError ''pending request must settle before polling'' \<and>
        (\<exists>d. machine_state k = Waiting d)
    | (_, _, Inr observation) \<Rightarrow> observation_typed m has (result_type m g n) observation) \<and>
    (case machine_state k of
       Waiting d \<Rightarrow> (\<exists>t. awaited = Some t \<and> (\<forall>x. has x t \<longrightarrow> (\<exists>k'. machine_resume g x k = Inr k')))
     | Running \<Rightarrow> False
     | _ \<Rightarrow> True)"
proof -
  note typed = session_typed [OF assms]
  obtain k' s' answer where poll: "poll ops execute g quantum k s = (k', s', answer)" by (metis prod_cases3)
  have "case answer of
      Inl fault \<Rightarrow> fault = MachineError ''pending request must settle before polling'' \<and> (\<exists>d. machine_state k = Waiting d)
    | Inr observation \<Rightarrow> observation_typed m has (result_type m g n) observation"
    using poll_typed [OF assms(1,3,4) typed poll] by (cases answer) simp_all
  moreover have "\<exists>t. awaited = Some t \<and> (\<forall>x. has x t \<longrightarrow> (\<exists>k'. machine_resume g x k = Inr k'))"
    if d: "machine_state k = Waiting d" for d
  proof -
    from typed d obtain t where t: "awaited = Some t" by (auto simp: machine_typed_def)
    with resume_typed [OF assms(1) typed [unfolded t] _ d] show ?thesis by metis
  qed
  moreover have "machine_state k \<noteq> Running" using typed by (auto simp: machine_typed_def)
  ultimately show ?thesis using poll by (auto split: machine_state.split)
qed

section \<open>A graph that asks its host\<close>

definition sample_node :: "nat \<Rightarrow> nat \<Rightarrow> transition \<Rightarrow> continuation" where
  "sample_node i v t =
     \<lparr>con_id = i, con_parameters = [sample_definition v 0], con_captures = [], con_instructions = [],
      con_transition = t, con_span = sample_span\<rparr>"

definition sample_asking :: graph where
  "sample_asking =
     [\<lparr>fun_id = 0, fun_name = ''main'', fun_signature = 0, fun_entry = 0,
       fun_continuations =
         [sample_node 0 0 (CallOut (CallHost ''console'' ''ask'') 0 [0] \<lparr>edge_target = 1, edge_arguments = [ArgumentResult]\<rparr> True),
          sample_node 1 1 (ReturnFrom 1)],
       fun_suspends = True, fun_framed = True, fun_reuse = None, fun_span = sample_span\<rparr>]"

definition sample_tables :: runtime_tables where
  "sample_tables =
     \<lparr>table_types = [Integer32Type],
      table_signatures = [\<lparr>sig_parameters = [0], sig_result = 0, sig_effects = []\<rparr>],
      table_static_stores = [],
      table_capabilities =
        [\<lparr>capability_name = ''console'',
          capability_operations =
            [\<lparr>cap_operation_name = ''ask'', cap_source_name = ''ask'', cap_signature = 0,
              cap_contract = \<lparr>contract_input = ModeOwnership ''plain'', contract_result = ModeOwnership ''plain'',
                contract_suspends = True\<rparr>\<rparr>]\<rparr>],
      table_links = []\<rparr>"

text \<open>Integers tagged with their type.\<close>

definition tagged :: "nat \<times> int \<Rightarrow> nat \<Rightarrow> bool" where
  "tagged x t \<longleftrightarrow> fst x = t"

definition tagged_operations :: "(nat \<times> int) value_operations" where
  "tagged_operations = \<lparr>condition_of = \<lambda>x. Inr (snd x \<noteq> 0), matches_constant = \<lambda>x c. c = SignedInteger32Constant (of_int (snd x))\<rparr>"

definition tagged_executor :: "(unit, nat \<times> int) executor" where
  "tagged_executor i xs s = (Inr (def_type (ins_definition i), sum_list (map snd xs)), s)"

lemma sample_asking_valid: "validate_continuation_graph sample_asking sample_tables = Inr ()"
  by code_simp

lemma sample_reliance: "conditions_read sample_tables tagged tagged_operations"
    "executes_well sample_tables sample_asking tagged tagged_executor"
  by (simp_all add: conditions_read_def executes_well_def tagged_def tagged_operations_def tagged_executor_def)

lemmas sample_defs = sample_asking_def sample_tables_def sample_node_def sample_definition_def tagged_def

definition sample_start :: "(nat \<times> int) machine" where
  "sample_start =
     \<lparr>machine_state = Ready \<lparr>act_function = 0, act_continuation = 0, act_values = [0 \<mapsto> (0, 5)]\<rparr>, machine_callers = []\<rparr>"

definition sample_waiting :: "(nat \<times> int) machine" where
  "sample_waiting =
     \<lparr>machine_state = Waiting \<lparr>dest_function = 0, dest_continuation = 1, dest_arguments = [None], dest_captures = Map.empty\<rparr>,
      machine_callers = []\<rparr>"

lemma sample_starts: "machine_new sample_asking 0 [(0, 5)] = Inr sample_start"
  by (simp add: machine_new_def find_function_def machine_continuation_def parameter_values_def sample_defs sample_start_def)

lemma sample_polls:
  "poll tagged_operations tagged_executor sample_asking (Suc q) sample_start s =
     (sample_waiting, s, Inr (Request (CallHost ''console'' ''ask'') [(0, 5)]))"
  by (simp add: run_activation_def Let_def machine_function_def machine_continuation_def find_function_def
      machine_destination_def lookup_value_def edge_argument_def sample_defs sample_start_def sample_waiting_def)

lemma sample_session:
  "session sample_tables sample_asking tagged tagged_operations tagged_executor 0 sample_start None"
  "session sample_tables sample_asking tagged tagged_operations tagged_executor 0 sample_waiting (Some 0)"
proof -
  show start: "session sample_tables sample_asking tagged tagged_operations tagged_executor 0 sample_start None"
    by (rule session.starts [OF sample_starts]) (simp add: sample_defs function_signature_def)
  from session.polls [OF this sample_polls]
  show "session sample_tables sample_asking tagged tagged_operations tagged_executor 0 sample_waiting (Some 0)"
    by (simp add: find_operation_def sample_tables_def)
qed

theorem machine_sound_witness:
  "observation_typed sample_tables tagged 0 (Request (CallHost ''console'' ''ask'') [(0, 5)]) \<and>
   (\<exists>k'. machine_resume sample_asking (0, 7) sample_waiting = Inr k')"
proof
  have n: "0 < length sample_asking" by (simp add: sample_asking_def)
  note sound = machine_sound [OF sample_asking_valid n sample_reliance]
  show "observation_typed sample_tables tagged 0 (Request (CallHost ''console'' ''ask'') [(0, 5)])"
    using sound [OF sample_session(1), where quantum = "Suc 0" and s = "()"]
    by (simp only: sample_polls) (simp add: result_type_def function_signature_def sample_asking_def sample_tables_def)
  show "\<exists>k'. machine_resume sample_asking (0, 7) sample_waiting = Inr k'"
    using sound [OF sample_session(2), where quantum = 0 and s = "()"]
    by (auto simp: sample_waiting_def tagged_def)
qed

lemma sample_asking_acyclic: "acyclic (flows sample_asking)"
proof (rule acyclic_subset [OF wf_acyclic])
  show "wf (measure (\<lambda>(n, i). 2 - i))" by simp
  show "flows sample_asking \<subseteq> measure (\<lambda>(n, i). 2 - i)"
    by (auto simp: flows_def find_function_def sample_asking_def sample_node_def outgoing_def less_Suc_eq split: if_splits)
qed

theorem acyclic_graphs_settle_witness:
  "\<exists>n k' s' r. poll tagged_operations tagged_executor sample_asking n sample_start () = (k', s', r) \<and> r \<noteq> Inr Yielded"
  by (rule acyclic_graphs_settle [OF sample_asking_acyclic])

end
