(* ===== verification/Lifetimes.thy ===== *)
theory Lifetimes
  imports ContinuationMachine
begin

text \<open>
  When a compiled continuation releases the values it holds
  (\<open>compiler/src/backend/lifetimes.rs\<close>): what it drops on entry and after each instruction, and
  the values its transition keeps. The lemmas relate this to the machine: releasing changes no
  run, and in a validated graph every value is released once or handed to the transition.
\<close>

section \<open>The computation\<close>

record lifetimes =
  entry_drops :: "nat list"
  instruction_drops :: "nat list list"
  transition_roots :: "nat set"

definition add_edge_roots :: "graph_function \<Rightarrow> edge \<Rightarrow> nat set \<Rightarrow> (graph_fault, nat set) result" where
  "add_edge_roots f e live =
     (if edge_target e \<ge> length (fun_continuations f) then Inl GraphPanic
      else Inr (live \<union> set (edge_values e) \<union>
        set (map def_value (con_captures (fun_continuations f ! edge_target e)))))"

text \<open>
  The loop over the instructions from the last to the first: the values each of them drops, in
  increasing order, and the values live before them.
\<close>

fun release_instructions :: "instruction list \<Rightarrow> nat set \<Rightarrow> nat list list \<times> nat set" where
  "release_instructions [] live = ([], live)"
| "release_instructions (i # is) live =
     (let (later, live) = release_instructions is live;
          defined = def_value (ins_definition i);
          drops = {v \<in> set (ins_operands i). v \<notin> live} \<union> (if defined \<in> live then {} else {defined})
      in (sorted_list_of_set drops # later, (live - {defined}) \<union> set (ins_operands i)))"

definition input_values :: "continuation \<Rightarrow> nat list" where
  "input_values c = map def_value (con_parameters c @ con_captures c)"

definition continuation_lifetimes :: "graph_function \<Rightarrow> continuation \<Rightarrow> (graph_fault, lifetimes) result" where
  "continuation_lifetimes f c =
     and_then (fold_each (add_edge_roots f) (transition_edges (con_transition c)) (set (transition_uses (con_transition c))))
       (\<lambda>roots.
         let (drops, live) = release_instructions (con_instructions c) roots
         in Inr \<lparr>entry_drops = filter (\<lambda>v. v \<notin> live) (input_values c), instruction_drops = drops,
                 transition_roots = roots\<rparr>)"

section \<open>Releasing changes no run\<close>

definition release :: "nat list \<Rightarrow> (nat \<rightharpoonup> 'v) \<Rightarrow> nat \<rightharpoonup> 'v" where
  "release drops vals = vals |` (- set drops)"

fun run_releasing ::
  "('s, 'v) executor \<Rightarrow> instruction list \<Rightarrow> nat list list \<Rightarrow> (nat \<rightharpoonup> 'v) \<Rightarrow> 's \<Rightarrow>
   (machine_stop, nat \<rightharpoonup> 'v) result \<times> 's" where
  "run_releasing execute (i # is) (drops # later) vals s =
     (case collect (lookup_value vals) (ins_operands i) of
        Inl _ \<Rightarrow> (Inl StopPanic, s)
      | Inr arguments \<Rightarrow>
          (case execute i arguments s of
             (Inl message, s') \<Rightarrow> (Inl (StopTrap message), s')
           | (Inr x, s') \<Rightarrow>
               run_releasing execute is later (release drops (vals(def_value (ins_definition i) \<mapsto> x))) s'))"
| "run_releasing execute is drops vals s = (Inr vals, s)"

text \<open>A turn of the machine that drops values as the lifetimes say.\<close>

definition releasing_activation ::
  "'v value_operations \<Rightarrow> ('s, 'v) executor \<Rightarrow> graph \<Rightarrow> lifetimes \<Rightarrow> continuation \<Rightarrow> 'v activation \<Rightarrow>
   'v destination list \<Rightarrow> 's \<Rightarrow> 'v machine \<times> 's \<times> (machine_error, 'v observation option) result" where
  "releasing_activation ops execute g l c a callers s =
     (let running = \<lparr>machine_state = Running, machine_callers = callers\<rparr>
      in case run_releasing execute (con_instructions c) (instruction_drops l) (release (entry_drops l) (act_values a)) s of
           (Inl StopPanic, s') \<Rightarrow> (running, s', Inl MachinePanic)
         | (Inl (StopTrap message), s') \<Rightarrow>
             (\<lparr>machine_state = Trapped message, machine_callers = []\<rparr>, s', Inr (Some (TrappedWith message)))
         | (Inr vals, s') \<Rightarrow>
             (case take_transition ops g (a\<lparr>act_values := vals\<rparr>) callers (con_transition c) of
                Inl fault \<Rightarrow> (running, s', Inl fault)
              | Inr (k, answer) \<Rightarrow> (k, s', Inr answer)))"

lemma collect_restricted:
  "set vs \<subseteq> live \<Longrightarrow> collect (lookup_value (vals |` live)) vs = collect (lookup_value vals) vs"
  by (induction vs) (auto simp: lookup_value_def)

lemma finite_drops [simp]: "finite {v \<in> set vs. P v}"
  by simp

lemma released_after:
  "release (sorted_list_of_set ({v \<in> set vs. v \<notin> live} \<union> (if d \<in> live then {} else {d})))
     ((vals |` (live - {d} \<union> set vs))(d \<mapsto> x)) = (vals(d \<mapsto> x)) |` live"
  by (rule ext) (auto simp: release_def restrict_map_def)

lemma run_releasing_agrees:
  assumes "release_instructions is roots = (drops, live)"
  shows "run_releasing execute is drops (vals |` live) s =
    map_prod (map_sum id (\<lambda>vals. vals |` roots)) id (run_instructions execute is vals s)"
  using assms
proof (induction "is" arbitrary: drops live vals s)
  case (Cons i "is")
  obtain later after where rest: "release_instructions is roots = (later, after)" by force
  let ?d = "def_value (ins_definition i)"
  from rest Cons.prems obtain D where drops: "drops = D # later" and live: "live = after - {?d} \<union> set (ins_operands i)"
      and D: "D = sorted_list_of_set ({v \<in> set (ins_operands i). v \<notin> after} \<union> (if ?d \<in> after then {} else {?d}))"
    by (simp add: Let_def)
  have after: "release D ((vals |` live)(?d \<mapsto> x)) = (vals(?d \<mapsto> x)) |` after" for x
    unfolding D live by (rule released_after)
  have same: "collect (lookup_value (vals |` live)) (ins_operands i) = collect (lookup_value vals) (ins_operands i)"
    by (rule collect_restricted) (simp add: live)
  show ?case unfolding drops run_releasing.simps run_instructions.simps same
    by (simp add: after Cons.IH [OF rest] del: restrict_fun_upd fun_upd_apply split: sum.split prod.split)
qed simp

lemma add_edge_roots_fold:
  assumes "fold_each (add_edge_roots f) es live = Inr roots"
  shows "roots = live \<union> (\<Union>e \<in> set es. set (edge_values e) \<union> def_value ` set (con_captures (fun_continuations f ! edge_target e))) \<and>
    (\<forall>e \<in> set es. edge_target e < length (fun_continuations f))"
  using assms
proof (induction es arbitrary: live)
  case (Cons e es)
  from Cons.prems have e: "edge_target e < length (fun_continuations f)"
    and rest: "fold_each (add_edge_roots f) es (live \<union> set (edge_values e) \<union>
        set (map def_value (con_captures (fun_continuations f ! edge_target e)))) = Inr roots"
    by (simp_all add: add_edge_roots_def [of f e] and_then_eq_Inr split: if_splits)
  from Cons.IH [OF rest] e show ?case by auto
qed simp

lemma continuation_lifetimes_Inr:
  assumes "continuation_lifetimes f c = Inr l"
  shows "transition_roots l = set (transition_uses (con_transition c)) \<union>
      (\<Union>e \<in> set (transition_edges (con_transition c)). set (edge_values e) \<union>
        def_value ` set (con_captures (fun_continuations f ! edge_target e)))"
    and "\<forall>e \<in> set (transition_edges (con_transition c)). edge_target e < length (fun_continuations f)"
    and "entry_drops l = filter (\<lambda>v. v \<notin> snd (release_instructions (con_instructions c) (transition_roots l))) (input_values c)"
    and "instruction_drops l = fst (release_instructions (con_instructions c) (transition_roots l))"
proof -
  obtain roots where fold: "fold_each (add_edge_roots f) (transition_edges (con_transition c)) (set (transition_uses (con_transition c))) = Inr roots"
      and l: "l = \<lparr>entry_drops = filter (\<lambda>v. v \<notin> snd (release_instructions (con_instructions c) roots)) (input_values c),
        instruction_drops = fst (release_instructions (con_instructions c) roots), transition_roots = roots\<rparr>"
    using assms by (auto simp: continuation_lifetimes_def and_then_eq_Inr Let_def case_prod_unfold)
  from add_edge_roots_fold [OF fold] show "transition_roots l = set (transition_uses (con_transition c)) \<union>
      (\<Union>e \<in> set (transition_edges (con_transition c)). set (edge_values e) \<union>
        def_value ` set (con_captures (fun_continuations f ! edge_target e)))"
    "\<forall>e \<in> set (transition_edges (con_transition c)). edge_target e < length (fun_continuations f)"
    by (simp_all add: l)
qed (use assms in \<open>auto simp: continuation_lifetimes_def and_then_eq_Inr Let_def case_prod_unfold\<close>)

lemma edge_values_member: "ArgumentValue v \<in> set (edge_arguments e) \<Longrightarrow> v \<in> set (edge_values e)"
  using edge_values_nth by (metis in_set_conv_nth)

lemma edge_argument_restricted:
  "a \<in> set (edge_arguments e) \<Longrightarrow> set (edge_values e) \<subseteq> roots \<Longrightarrow>
     edge_argument (vals |` roots) a = edge_argument vals a"
  by (cases a) (auto simp: edge_argument_def lookup_value_def dest: edge_values_member)

lemma destination_restricted:
  assumes "find_function g (act_function a) = Some f" "edge_target e < length (fun_continuations f)"
    "set (edge_values e) \<subseteq> roots" "def_value ` set (con_captures (fun_continuations f ! edge_target e)) \<subseteq> roots"
  shows "machine_destination g (a\<lparr>act_values := vals |` roots\<rparr>) e = machine_destination g (a\<lparr>act_values := vals\<rparr>) e"
proof -
  have "collect (edge_argument (vals |` roots)) (edge_arguments e) = collect (edge_argument vals) (edge_arguments e)"
    using assms(3) by (intro collect_cong refl edge_argument_restricted)
  moreover let ?cs = "con_captures (fun_continuations f ! edge_target e)"
  have "collect (\<lambda>c. and_then (lookup_value (vals |` roots) (def_value c)) (\<lambda>x. Inr (def_value c, x))) ?cs =
      collect (\<lambda>c. and_then (lookup_value vals (def_value c)) (\<lambda>x. Inr (def_value c, x))) ?cs"
    using assms(4) by (intro collect_cong refl) (auto simp: lookup_value_def)
  ultimately show ?thesis using assms(1,2)
    by (simp add: machine_destination_def machine_function_def machine_continuation_def)
qed

lemma transition_restricted:
  assumes found: "find_function g (act_function a) = Some f" and l: "continuation_lifetimes f c = Inr l"
  shows "take_transition ops g (a\<lparr>act_values := vals |` transition_roots l\<rparr>) callers (con_transition c) =
    take_transition ops g (a\<lparr>act_values := vals\<rparr>) callers (con_transition c)"
proof -
  let ?t = "con_transition c" and ?R = "transition_roots l"
  have uses: "set (transition_uses ?t) \<subseteq> ?R" using continuation_lifetimes_Inr(1) [OF l] by blast
  have dest: "machine_destination g (a\<lparr>act_values := vals |` ?R\<rparr>) e = machine_destination g (a\<lparr>act_values := vals\<rparr>) e"
    if "e \<in> set (transition_edges ?t)" for e
    using continuation_lifetimes_Inr(1,2) [OF l] that by (intro destination_restricted [OF found]) auto
  then have goes: "goto g (a\<lparr>act_values := vals |` ?R\<rparr>) callers e = goto g (a\<lparr>act_values := vals\<rparr>) callers e"
    if "e \<in> set (transition_edges ?t)" for e
    using that by (simp add: goto_def)
  have looks: "lookup_value (vals |` ?R) v = lookup_value vals v" if "v \<in> set (transition_uses ?t)" for v
    using uses that by (auto simp: lookup_value_def)
  show ?thesis
  proof (cases ?t)
    case (Jump e)
    with goes show ?thesis by simp
  next
    case (BranchOn condition yes no)
    with looks have "lookup_value (vals |` ?R) condition = lookup_value vals condition" by simp
    with goes [of yes] goes [of no] BranchOn show ?thesis
      by (auto intro!: and_then_cong [OF refl] split: sum.split)
  next
    case (SwitchOn v cases fallback)
    with looks [of v] have same: "matching_case ops (vals |` ?R) v cases fallback = matching_case ops vals v cases fallback"
      by (simp add: matching_case_def)
    show ?thesis
    proof (cases "matching_case ops vals v cases fallback")
      case (Inr e)
      with matching_case_edge [OF this] goes [of e] SwitchOn same show ?thesis by simp
    qed (use SwitchOn same in simp)
  next
    case (CallOut target s as e w)
    have "collect (lookup_value (vals |` ?R)) as = collect (lookup_value vals) as"
      using looks CallOut by (intro collect_cong refl) simp
    with dest [of e] CallOut show ?thesis by simp
  next
    case (ReturnFrom v)
    with looks show ?thesis by simp
  next
    case (TrapWith message)
    then show ?thesis by simp
  qed
qed

text \<open>
  C9. Dropping values where the lifetimes say is unobservable: a turn of the machine on a
  continuation that releases its entry drops at once and the drops of each instruction after it
  ends in the same machine, state and answer as the turn that keeps every value.
\<close>

theorem releasing_unobservable:
  assumes "find_function g (act_function a) = Some f" "act_continuation a < length (fun_continuations f)"
    "continuation_lifetimes f (fun_continuations f ! act_continuation a) = Inr l"
    "dom (act_values a) \<subseteq> set (input_values (fun_continuations f ! act_continuation a))"
  shows "releasing_activation ops execute g l (fun_continuations f ! act_continuation a) a callers s =
    run_activation ops execute g a callers s"
proof -
  let ?c = "fun_continuations f ! act_continuation a"
  obtain drops live where release: "release_instructions (con_instructions ?c) (transition_roots l) = (drops, live)" by force
  with continuation_lifetimes_Inr(3,4) [OF assms(3)]
  have l: "instruction_drops l = drops" "entry_drops l = filter (\<lambda>v. v \<notin> live) (input_values ?c)" by simp_all
  have "release (entry_drops l) (act_values a) = act_values a |` live"
  proof (rule ext)
    fix v show "release (entry_drops l) (act_values a) v = (act_values a |` live) v"
      using assms(4) by (cases "act_values a v") (auto simp: release_def l restrict_map_def)
  qed
  then have "run_releasing execute (con_instructions ?c) (instruction_drops l) (release (entry_drops l) (act_values a)) s =
      map_prod (map_sum id (\<lambda>vals. vals |` transition_roots l)) id (run_instructions execute (con_instructions ?c) (act_values a) s)"
    using run_releasing_agrees [OF release] by (simp add: l)
  moreover note transition_restricted [OF assms(1,3)]
  ultimately show ?thesis using assms(1,2)
    by (auto simp: releasing_activation_def run_activation_def Let_def machine_function_def machine_continuation_def
        split: sum.split prod.split machine_stop.split)
qed

section \<open>Every value is released once\<close>

definition computed_values :: "instruction list \<Rightarrow> nat set" where
  "computed_values is = (\<lambda>i. def_value (ins_definition i)) ` set is"

lemma count_distinct: "distinct xs \<Longrightarrow> count_list xs v = of_bool (v \<in> set xs)"
  by (induction xs) auto

lemma count_sorted: "finite A \<Longrightarrow> count_list (sorted_list_of_set A) v = of_bool (v \<in> A)"
  using count_distinct [OF distinct_sorted_list_of_set [of A], of v] by simp

lemma released_once:
  assumes "release_instructions is roots = (drops, live)" "distinct (map (\<lambda>i. def_value (ins_definition i)) is)"
    "live \<inter> computed_values is = {}"
  shows "count_list (concat drops) v + of_bool (v \<in> roots) = of_bool (v \<in> live) + of_bool (v \<in> computed_values is)"
  using assms
proof (induction "is" arbitrary: drops live)
  case (Cons i "is")
  let ?d = "def_value (ins_definition i)" and ?ops = "set (ins_operands i)"
  obtain later after where rest: "release_instructions is roots = (later, after)" by force
  let ?drops = "{v \<in> ?ops. v \<notin> after} \<union> (if ?d \<in> after then {} else {?d})"
  from Cons.prems(1) rest have drops: "drops = sorted_list_of_set ?drops # later" and live: "live = after - {?d} \<union> ?ops"
    by (simp_all add: Let_def)
  have all: "computed_values (i # is) = insert ?d (computed_values is)" by (simp add: computed_values_def)
  from Cons.prems(2) have "?d \<notin> computed_values is" by (auto simp: computed_values_def)
  with Cons.prems(3) have fresh: "?d \<notin> computed_values is" "?d \<notin> ?ops" "after \<inter> computed_values is = {}"
    unfolding live all by blast+
  have "count_list (concat later) v + of_bool (v \<in> roots) = of_bool (v \<in> after) + of_bool (v \<in> computed_values is)"
    using Cons.IH [OF rest] Cons.prems(2) fresh(3) by simp
  moreover have "count_list (sorted_list_of_set ?drops) v = of_bool (v \<in> ?drops)" by (rule count_sorted) simp
  ultimately show ?case using fresh
    by (auto simp: drops live all count_list_append of_bool_def
        simp del: sorted_list_of_set_insert_remove split: if_splits)
qed (simp add: computed_values_def)

lemma collected_available: "collect (available_type available) vs = Inr ts \<Longrightarrow> set vs \<subseteq> dom available"
  by (induction vs arbitrary: ts) (auto simp: and_then_eq_Inr available_type_def split: option.splits)

lemma live_available:
  assumes "fold_each (check_instruction m f) is available = Inr available'" "release_instructions is roots = (drops, live)"
    "roots \<subseteq> dom available'"
  shows "live \<subseteq> dom available"
  using assms
proof (induction "is" arbitrary: available drops live)
  case (Cons i "is")
  obtain later after where rest: "release_instructions is roots = (later, after)" by force
  from Cons.prems(1) obtain ts where ts: "collect (available_type available) (ins_operands i) = Inr ts"
      and fold: "fold_each (check_instruction m f) is
        (available(def_value (ins_definition i) \<mapsto> def_type (ins_definition i))) = Inr available'"
    by (auto simp: and_then_eq_Inr dest!: check_instruction_Inr)
  from ts have "set (ins_operands i) \<subseteq> dom available"
    by (rule collected_available)
  moreover have "after - {def_value (ins_definition i)} \<subseteq> dom available"
    using Cons.IH [OF fold rest Cons.prems(3)] by (simp add: subset_insert_iff del: fun_upd_apply split: if_splits)
  ultimately show ?case using Cons.prems(2) rest by (auto simp: Let_def)
qed simp

lemma instructions_available:
  "fold_each (check_instruction m f) is available = Inr available' \<Longrightarrow> dom available' = dom available \<union> computed_values is"
proof (induction "is" arbitrary: available)
  case (Cons i "is")
  then have "fold_each (check_instruction m f) is
      (available(def_value (ins_definition i) \<mapsto> def_type (ins_definition i))) = Inr available'"
    by (auto simp: and_then_eq_Inr dest!: check_instruction_Inr)
  from Cons.IH [OF this] show ?case by (auto simp: computed_values_def)
qed (simp add: computed_values_def)

lemma inputs_available: "check_inputs defs c = Inr available \<Longrightarrow> dom available = set (input_values c)"
  by (auto simp: input_values_def check_inputs_Inr(2) dom_def)

text \<open>The continuations an execution can come to.\<close>

inductive reaches :: "graph_function \<Rightarrow> nat \<Rightarrow> bool" for f where
  entry: "reaches f (fun_entry f)"
| along: "reaches f i \<Longrightarrow> e \<in> set (transition_edges (con_transition (fun_continuations f ! i))) \<Longrightarrow> reaches f (edge_target e)"

lemma checked_available:
  assumes "continuation_checked m g n i inputs available awaited"
  shows "dom inputs = set (input_values (node_at g n i))"
    and "dom available = set (input_values (node_at g n i)) \<union> computed_values (con_instructions (node_at g n i))"
  using assms instructions_available inputs_available unfolding continuation_checked_def Let_def by fast+

lemma checked_roots:
  assumes checked: "continuation_checked m g n i inputs available awaited"
  shows "set (transition_uses (con_transition (node_at g n i))) \<subseteq> dom available"
    and "e \<in> set (transition_edges (con_transition (node_at g n i))) \<Longrightarrow>
      set (edge_values e) \<union> def_value ` set (con_captures (fun_continuations (g ! n) ! edge_target e)) \<subseteq> dom available"
proof -
  let ?t = "con_transition (node_at g n i)" and ?f = "g ! n"
  from checked obtain defs where
      transition: "check_transition m g ?f (function_signature m ?f) available ?t = Inr awaited"
      and edges: "\<And>e. e \<in> set (transition_edges ?t) \<Longrightarrow> edge_fits (fun_continuations ?f) e \<and>
        check_edge ?f defs available (suspending_call ?t) awaited e = Inr ()"
    unfolding continuation_checked_def Let_def by blast
  have "available_type available v = Inr t \<Longrightarrow> v \<in> dom available" for v t
    by (auto simp: available_type_def split: option.splits)
  with transition show "set (transition_uses ?t) \<subseteq> dom available"
    by (cases ?t) (auto simp: and_then_eq_Inr dest: collected_available split: if_splits)
  assume e: "e \<in> set (transition_edges ?t)"
  let ?s = "fun_continuations ?f ! edge_target e"
  from edges [OF e] have len: "length (edge_arguments e) = length (con_parameters ?s)"
      and arguments: "\<forall>p \<in> set (zip (edge_arguments e) (con_parameters ?s)).
        check_argument defs available (suspending_call ?t) awaited p = Inr ()"
      and captures: "\<forall>d \<in> set (con_captures ?s). check_edge_capture available (suspending_call ?t) d = Inr ()"
    by (auto simp: check_edge_def Let_def and_then_eq_Inr check_each_Inr edge_fits_def split: if_splits)
  have "v \<in> dom available" if "v \<in> set (edge_values e)" for v
  proof -
    from that have "ArgumentValue v \<in> set (edge_arguments e)"
      by (auto simp: edge_values_def map_filter_def elim: argument_value.elims)
    with len obtain p where "(ArgumentValue v, p) \<in> set (zip (edge_arguments e) (con_parameters ?s))"
      by (metis in_set_impl_in_set_zip1)
    with arguments have "check_argument defs available (suspending_call ?t) awaited (ArgumentValue v, p) = Inr ()" by blast
    then show ?thesis by (auto simp: check_argument_def argument_type_def and_then_eq_Inr split: option.splits)
  qed
  moreover from captures have "def_value d \<in> dom available" if "d \<in> set (con_captures ?s)" for d
    using that by (auto simp: check_edge_capture_def split: if_splits)
  ultimately show "set (edge_values e) \<union> def_value ` set (con_captures ?s) \<subseteq> dom available" by auto
qed

lemma distinct_concat_place:
  "distinct (concat xss) \<Longrightarrow> i < length xss \<Longrightarrow> j < length xss \<Longrightarrow> x \<in> set (xss ! i) \<Longrightarrow> x \<in> set (xss ! j) \<Longrightarrow> i = j"
proof (induction xss arbitrary: i j)
  case (Cons xs xss)
  then show ?case
    by (cases i; cases j) (auto simp: disjoint_iff dest: nth_mem)
qed simp

lemma computed_in: "v \<in> computed_values (con_instructions c) \<Longrightarrow> v \<in> set (map def_value (continuation_definitions c))"
  by (auto simp: computed_values_def continuation_definitions_def)

lemma checked_target:
  assumes "continuation_checked m g n i inputs available awaited"
    "e \<in> set (transition_edges (con_transition (node_at g n i)))" "n < length g"
  shows "node_ok g n (edge_target e)"
proof -
  from assms(1,2) have "edge_fits (fun_continuations (g ! n)) e" unfolding continuation_checked_def Let_def by blast
  with assms(3) show ?thesis by (simp add: edge_fits_def node_ok_def)
qed

lemma reaches_checked:
  assumes valid: "validate_continuation_graph g m = Inr ()" and n: "n < length g" and "reaches (g ! n) i"
  shows "node_ok g n i"
  using assms(3)
proof induction
  case entry
  from validated_function [OF valid n refl] have "fun_entry (g ! n) < length (fun_continuations (g ! n))" by metis
  with n show ?case by (simp add: node_ok_def)
next
  case (along i e)
  obtain inputs available awaited where "continuation_checked m g n i inputs available awaited"
    by (rule validated_node [OF valid along.IH])
  then show ?case by (rule checked_target) (use along.hyps(2) n in \<open>simp_all add: node_at_def\<close>)
qed

lemma defined_once:
  assumes "validate_continuation_graph g m = Inr ()" "node_ok g n i" "node_ok g n j"
    "v \<in> set (map def_value (continuation_definitions (node_at g n i)))"
    "v \<in> set (map def_value (continuation_definitions (node_at g n j)))"
  shows "i = j"
proof -
  from assms(2) have n: "n < length g" by (simp add: node_ok_def)
  from validated_function [OF assms(1) n refl] have "distinct (map def_value (all_definitions (g ! n)))"
    unfolding well_defined_def by metis
  then have "distinct (concat (map (\<lambda>c. map def_value (continuation_definitions c)) (fun_continuations (g ! n))))"
    by (simp add: all_definitions_def map_concat comp_def)
  from distinct_concat_place [OF this, of i j v] assms(2-5) show ?thesis by (simp add: node_ok_def node_at_def)
qed

lemma continuation_distinct:
  assumes "validate_continuation_graph g m = Inr ()" "node_ok g n i"
  shows "distinct (map def_value (continuation_definitions (node_at g n i)))"
proof -
  from assms(2) have n: "n < length g" by (simp add: node_ok_def)
  from validated_function [OF assms(1) n refl] have "distinct (map def_value (all_definitions (g ! n)))"
    unfolding well_defined_def by metis
  then show ?thesis using assms(2) by (auto simp: all_definitions_def map_concat distinct_concat_iff node_ok_def node_at_def)
qed

lemma lifetimes_returned:
  assumes "\<forall>e \<in> set (transition_edges (con_transition c)). edge_fits (fun_continuations f) e"
  shows "\<exists>l. continuation_lifetimes f c = Inr l"
proof -
  have "\<exists>roots. fold_each (add_edge_roots f) es live = Inr roots"
    if "\<forall>e \<in> set es. edge_fits (fun_continuations f) e" for es live
    using that by (induction es arbitrary: live) (auto simp: add_edge_roots_def edge_fits_def)
  from this [OF assms, of "set (transition_uses (con_transition c))"] show ?thesis
    by (auto simp: continuation_lifetimes_def Let_def case_prod_unfold)
qed

lemma captured_elsewhere:
  assumes valid: "validate_continuation_graph g m = Inr ()" and j: "node_ok g n j"
    and v: "v \<in> set (map def_value (continuation_definitions (node_at g n j)))" and "reaches (g ! n) i"
  shows "v \<notin> def_value ` set (con_captures (node_at g n i)) \<or> v \<notin> def_value ` set (con_captures (node_at g n j))"
  using assms(4)
proof induction
  case entry
  from j have n: "n < length g" by (simp add: node_ok_def)
  from validated_function [OF valid n refl] have "con_captures (node_at g n (fun_entry (g ! n))) = []"
    unfolding node_at_def by metis
  then show ?case by simp
next
  case (along i e)
  from j have n: "n < length g" by (simp add: node_ok_def)
  note ok = reaches_checked [OF valid n along.hyps(1)]
  obtain inputs available awaited where checked: "continuation_checked m g n i inputs available awaited"
    by (rule validated_node [OF valid ok])
  have e: "e \<in> set (transition_edges (con_transition (node_at g n i)))" using along.hyps(2) by (simp add: node_at_def)
  show ?case
  proof (rule ccontr)
    assume "\<not> ?thesis"
    then have "v \<in> def_value ` set (con_captures (node_at g n (edge_target e)))"
      and captured: "v \<in> def_value ` set (con_captures (node_at g n j))" by simp_all
    with checked_roots(2) [OF checked e] have "v \<in> dom available" by (simp add: node_at_def) blast
    then have "v \<in> def_value ` set (con_captures (node_at g n i)) \<or>
        v \<in> set (map def_value (continuation_definitions (node_at g n i)))"
      unfolding checked_available(2) [OF checked]
      by (auto simp: input_values_def continuation_definitions_def computed_values_def)
    with defined_once [OF valid ok j _ v] along.IH captured show False by blast
  qed
qed

text \<open>
  C10. In a validated graph, a continuation an execution can come to releases each value it
  receives or computes exactly once: on entry, after one of its instructions, or by handing it to
  its transition. It releases nothing else.
\<close>

theorem values_released_once:
  assumes "validate_continuation_graph g m = Inr ()" "n < length g" "reaches (g ! n) i"
  shows "\<exists>l. continuation_lifetimes (g ! n) (fun_continuations (g ! n) ! i) = Inr l \<and>
    (\<forall>v. count_list (entry_drops l @ concat (instruction_drops l)) v + of_bool (v \<in> transition_roots l) =
      of_bool (v \<in> set (input_values (fun_continuations (g ! n) ! i)) \<union>
        computed_values (con_instructions (fun_continuations (g ! n) ! i))))"
proof -
  let ?f = "g ! n" and ?c = "node_at g n i"
  note ok = reaches_checked [OF assms]
  have once: "v \<notin> def_value ` set (con_captures ?c)" if "v \<in> computed_values (con_instructions ?c)" for v
    using captured_elsewhere [OF assms(1) ok computed_in [OF that] assms(3)] by simp
  obtain inputs available awaited where checked: "continuation_checked m g n i inputs available awaited"
    by (rule validated_node [OF assms(1) ok])
  then obtain defs where inputs: "check_inputs defs ?c = Inr inputs"
      and fold: "fold_each (check_instruction m ?f) (con_instructions ?c) inputs = Inr available"
      and fits: "\<forall>e \<in> set (transition_edges (con_transition ?c)). edge_fits (fun_continuations ?f) e"
    unfolding continuation_checked_def Let_def by blast
  obtain l where l: "continuation_lifetimes ?f ?c = Inr l"
    using lifetimes_returned [OF fits] by blast
  obtain drops live where release: "release_instructions (con_instructions ?c) (transition_roots l) = (drops, live)" by force
  note parts = continuation_lifetimes_Inr [OF l]
  have "transition_roots l \<subseteq> dom available"
    unfolding parts(1) using checked_roots [OF checked] by blast
  from live_available [OF fold release this] have live: "live \<subseteq> set (input_values ?c)"
    unfolding checked_available(1) [OF checked] .
  have "distinct (map def_value (continuation_definitions ?c))"
    by (rule continuation_distinct [OF assms(1) ok])
  then have distinct: "distinct (map (\<lambda>i. def_value (ins_definition i)) (con_instructions ?c))"
    and apart: "set (map def_value (con_parameters ?c)) \<inter> computed_values (con_instructions ?c) = {}"
    by (auto simp: continuation_definitions_def computed_values_def comp_def)
  have disjoint: "set (input_values ?c) \<inter> computed_values (con_instructions ?c) = {}"
    using apart once by (auto simp: input_values_def)
  with live have empty: "live \<inter> computed_values (con_instructions ?c) = {}" by blast
  have "distinct (input_values ?c)" using check_inputs_Inr(1) [OF inputs] by (simp add: input_values_def)
  then have "count_list (entry_drops l) v = of_bool (v \<in> set (input_values ?c) \<and> v \<notin> live)" for v
    using parts(3) release by (simp add: count_distinct)
  moreover have "count_list (concat (instruction_drops l)) v + of_bool (v \<in> transition_roots l) =
      of_bool (v \<in> live) + of_bool (v \<in> computed_values (con_instructions ?c))" for v
    using released_once [OF release distinct empty, of v] parts(4) release by simp
  ultimately have "count_list (entry_drops l @ concat (instruction_drops l)) v + of_bool (v \<in> transition_roots l) =
      of_bool (v \<in> set (input_values ?c) \<union> computed_values (con_instructions ?c))" for v
    using live disjoint by (auto simp: count_list_append add.assoc of_bool_def)
  with l show ?thesis by (auto simp: node_at_def)
qed

text \<open>A function that adds its first argument to itself and drops the second.\<close>

definition sample_adding :: graph where
  "sample_adding =
     [\<lparr>fun_id = 0, fun_name = ''double'', fun_signature = 0, fun_entry = 0,
       fun_continuations =
         [\<lparr>con_id = 0, con_parameters = [sample_definition 0 0, sample_definition 1 0], con_captures = [],
           con_instructions =
             [\<lparr>ins_definition = sample_definition 2 0, ins_operands = [0, 0],
               ins_operation = \<lparr>op_kind = ''scalar'', op_value = None, op_update = None, op_case = None,
                 op_operator = Some ''add'', op_conversion = None, op_lane = None, op_field = None,
                 op_function = None, op_signature = None, op_static_store = None\<rparr>\<rparr>],
           con_transition = ReturnFrom 2, con_span = sample_span\<rparr>],
       fun_suspends = False, fun_framed = False, fun_reuse = None, fun_span = sample_span\<rparr>]"

definition sample_adding_tables :: runtime_tables where
  "sample_adding_tables =
     \<lparr>table_types = [Integer32Type], table_signatures = [\<lparr>sig_parameters = [0, 0], sig_result = 0, sig_effects = []\<rparr>],
      table_static_stores = [], table_capabilities = [], table_links = []\<rparr>"

lemma sample_adding_valid: "validate_continuation_graph sample_adding sample_adding_tables = Inr ()"
  by code_simp

lemma sample_adding_lifetimes:
  "continuation_lifetimes (sample_adding ! 0) (fun_continuations (sample_adding ! 0) ! 0) =
     Inr \<lparr>entry_drops = [1], instruction_drops = [[0]], transition_roots = {2}\<rparr>"
proof -
  have "{v. v = 0 \<and> v \<noteq> 2} = {0 :: nat}" by auto
  then show ?thesis
    by (simp add: continuation_lifetimes_def sample_adding_def sample_definition_def input_values_def)
qed

theorem releasing_unobservable_witness:
  "releasing_activation tagged_operations tagged_executor sample_adding
      \<lparr>entry_drops = [1], instruction_drops = [[0]], transition_roots = {2}\<rparr>
      (fun_continuations (sample_adding ! 0) ! 0)
      \<lparr>act_function = 0, act_continuation = 0, act_values = [0 \<mapsto> (0, 5), 1 \<mapsto> (0, 7)]\<rparr> [] () =
   run_activation tagged_operations tagged_executor sample_adding
      \<lparr>act_function = 0, act_continuation = 0, act_values = [0 \<mapsto> (0, 5), 1 \<mapsto> (0, 7)]\<rparr> [] ()"
proof -
  have "find_function sample_adding 0 = Some (sample_adding ! 0)" "length (fun_continuations (sample_adding ! 0)) = 1"
    "set (input_values (fun_continuations (sample_adding ! 0) ! 0)) = {0, 1}"
    by (simp_all add: find_function_def sample_adding_def input_values_def sample_definition_def)
  then show ?thesis
    by (intro releasing_unobservable [where f = "sample_adding ! 0" and
          a = "\<lparr>act_function = 0, act_continuation = 0, act_values = [0 \<mapsto> (0, 5), 1 \<mapsto> (0, 7)]\<rparr>",
          simplified activation.simps] sample_adding_lifetimes) simp_all
qed

theorem values_released_once_witness:
  "\<exists>l. continuation_lifetimes (sample_adding ! 0) (fun_continuations (sample_adding ! 0) ! 0) = Inr l \<and>
     count_list (entry_drops l @ concat (instruction_drops l)) 1 + of_bool (1 \<in> transition_roots l) = (1::nat)"
proof -
  have "0 < length sample_adding" "reaches (sample_adding ! 0) 0" "(1::nat) \<in> set (input_values (fun_continuations (sample_adding ! 0) ! 0))"
    using reaches.entry [of "sample_adding ! 0"]
    by (simp_all add: sample_adding_def input_values_def sample_definition_def)
  then show ?thesis
    using values_released_once [OF sample_adding_valid, of 0 0] by fastforce
qed

end
