(* ===== verification/ContinuationCalls.thy ===== *)
theory ContinuationCalls
  imports ContinuationMachine
begin

text \<open>
  What the validator's marks on calls mean for the machine: calls in tail position
  (\<open>Function::returns_call_result\<close> in \<open>compiler/src/continuation.rs\<close>), and functions marked as not
  suspending.
\<close>

section \<open>Calls in tail position\<close>

text \<open>\<open>Function::returns_call_result\<close>: whether what arrives along an edge is returned unchanged.\<close>

fun carries :: "argument \<Rightarrow> nat option \<Rightarrow> bool" where
  "carries ArgumentResult None \<longleftrightarrow> True"
| "carries (ArgumentValue v) (Some c) \<longleftrightarrow> v = c"
| "carries _ _ \<longleftrightarrow> False"

definition transferred :: "continuation \<Rightarrow> edge \<Rightarrow> nat option \<Rightarrow> nat option" where
  "transferred c e carried =
     map_option (\<lambda>(p, _). def_value p) (find (\<lambda>(_, a). carries a carried) (zip (con_parameters c) (edge_arguments e)))"

function returns_loop :: "graph_function \<Rightarrow> nat set \<Rightarrow> nat option \<Rightarrow> edge \<Rightarrow> (graph_fault, bool) result" where
  "returns_loop f visited carried e =
     (if edge_target e \<in> visited then Inr False
      else if edge_target e \<ge> length (fun_continuations f) then Inl GraphPanic
      else
        (let c = fun_continuations f ! edge_target e
         in if con_instructions c \<noteq> [] then Inr False
            else
              (case transferred c e carried of
                 None \<Rightarrow> Inr False
               | Some p \<Rightarrow>
                   (case con_transition c of
                      ReturnFrom v \<Rightarrow> Inr (v = p)
                    | Jump e' \<Rightarrow> returns_loop f (insert (edge_target e) visited) (Some p) e'
                    | _ \<Rightarrow> Inr False))))"
  by pat_completeness auto
termination returns_loop
proof (relation "measure (\<lambda>(f, visited, carried, e). card ({..<length (fun_continuations f)} - visited))", goal_cases)
  case (2 f visited carried e c p e')
  from 2(1,2) have "edge_target e \<in> {..<length (fun_continuations f)} - visited" by simp
  then have "card ({..<length (fun_continuations f)} - visited - {edge_target e}) <
      card ({..<length (fun_continuations f)} - visited)"
    by (intro card_Diff1_less) simp_all
  moreover have "{..<length (fun_continuations f)} - insert (edge_target e) visited =
      {..<length (fun_continuations f)} - visited - {edge_target e}" by blast
  ultimately show ?case by (simp only: in_measure case_prod_conv)
qed (rule wf_measure)

declare returns_loop.simps [simp del]

definition returns_call_result :: "graph_function \<Rightarrow> edge \<Rightarrow> (graph_fault, bool) result" where
  "returns_call_result f e = returns_loop f {} None e"

text \<open>What the machine does with a value returned to a list of callers.\<close>

fun deliver :: "graph \<Rightarrow> 'v \<Rightarrow> 'v destination list \<Rightarrow> (machine_error, 'v machine) result" where
  "deliver g x [] = Inr \<lparr>machine_state = Returned x, machine_callers = []\<rparr>"
| "deliver g x (d # rest) =
     and_then (machine_arrive g d (Some x)) (\<lambda>b. Inr \<lparr>machine_state = Ready b, machine_callers = rest\<rparr>)"

lemma insert_argument_values:
  assumes "fold_each (insert_argument r) (zip ps xs) vals = Inr vals'" "distinct (map def_value ps)"
  shows "(p, x) \<in> set (zip ps xs) \<Longrightarrow> vals' (def_value p) = (case x of Some y \<Rightarrow> Some y | None \<Rightarrow> r)"
    and "(p, x) \<in> set (zip ps xs) \<Longrightarrow> vals' (def_value p) \<noteq> None"
    and "v \<notin> def_value ` set ps \<Longrightarrow> vals' v = vals v"
proof -
  let ?given = "\<lambda>vals' (p, x). vals' (def_value p) = (case x of Some y \<Rightarrow> Some y | None \<Rightarrow> r) \<and> vals' (def_value p) \<noteq> None"
  have "(\<forall>q \<in> set (zip ps xs). ?given vals' q) \<and> (\<forall>v. v \<notin> def_value ` set ps \<longrightarrow> vals' v = vals v)"
    using assms
  proof (induction ps xs arbitrary: vals rule: list_induct2')
    case (4 q ps y xs)
    from 4(2) obtain z where z: "(case y of Some y \<Rightarrow> Some y | None \<Rightarrow> r) = Some z"
        and rest: "fold_each (insert_argument r) (zip ps xs) (vals(def_value q \<mapsto> z)) = Inr vals'"
      by (auto simp: insert_argument_def and_then_eq_Inr split: option.splits)
    from 4(3) have distinct: "distinct (map def_value ps)" and fresh: "def_value q \<notin> def_value ` set ps" by auto
    from 4(1) [OF rest distinct] have each: "\<forall>q \<in> set (zip ps xs). ?given vals' q"
      and other: "\<forall>v. v \<notin> def_value ` set ps \<longrightarrow> vals' v = (vals(def_value q \<mapsto> z)) v" by blast+
    from other fresh z have "?given vals' (q, y)" by simp
    moreover from other have "\<forall>v. v \<notin> def_value ` set (q # ps) \<longrightarrow> vals' v = vals v" by simp
    ultimately show ?case using each by (simp only: zip_Cons_Cons list.set ball_simps)
  qed auto
  then show "(p, x) \<in> set (zip ps xs) \<Longrightarrow> vals' (def_value p) = (case x of Some y \<Rightarrow> Some y | None \<Rightarrow> r)"
    "(p, x) \<in> set (zip ps xs) \<Longrightarrow> vals' (def_value p) \<noteq> None"
    "v \<notin> def_value ` set ps \<Longrightarrow> vals' v = vals v" by blast+
qed

lemma captures_present:
  assumes "collect (\<lambda>c. and_then (lookup_value vals (def_value c)) (\<lambda>x. Inr (def_value c, x))) cs = Inr xs"
  shows "map fst xs = map def_value cs"
  using assms by (induction cs arbitrary: xs) (auto simp: and_then_eq_Inr)

text \<open>A destination the machine computes and arrives at is a checked place with its inputs.\<close>

lemma arrived_inputs:
  assumes valid: "validate_continuation_graph g m = Inr ()" and d: "machine_destination g a e = Inr d"
    and b: "machine_arrive g d r = Inr b"
    and len: "length (edge_arguments e) = length (con_parameters (node_at g (act_function a) (edge_target e)))"
  shows "act_function b = act_function a" "act_continuation b = edge_target e" "node_ok g (act_function a) (edge_target e)"
    "activation_typed g (\<lambda>_ _. True) b"
    "(p, x) \<in> set (zip (con_parameters (node_at g (act_function a) (edge_target e))) (edge_arguments e)) \<Longrightarrow>
       act_values b (def_value p) = (case x of ArgumentValue v \<Rightarrow> act_values a v | ArgumentResult \<Rightarrow> r)"
proof -
  let ?n = "act_function a" and ?c = "node_at g (act_function a) (edge_target e)"
  from d obtain f c xs ys where f: "machine_function g ?n = Inr f" "machine_continuation f (edge_target e) = Inr c"
      and xs: "collect (edge_argument (act_values a)) (edge_arguments e) = Inr xs"
      and ys: "collect (\<lambda>c. and_then (lookup_value (act_values a) (def_value c)) (\<lambda>x. Inr (def_value c, x))) (con_captures c) = Inr ys"
      and d': "d = \<lparr>dest_function = ?n, dest_continuation = edge_target e, dest_arguments = xs, dest_captures = map_of (rev ys)\<rparr>"
    by (auto simp: machine_destination_def and_then_eq_Inr)
  from f find_validated [OF valid, of ?n f] have ok: "node_ok g ?n (edge_target e)" and c: "c = ?c"
    by (auto simp: machine_function_def machine_continuation_def node_ok_def node_at_def split: option.splits if_splits)
  from b f d' c obtain vals where vals: "fold_each (insert_argument r) (zip (con_parameters ?c) xs) (map_of (rev ys)) = Inr vals"
      and b': "b = \<lparr>act_function = ?n, act_continuation = edge_target e, act_values = vals\<rparr>"
    by (auto simp: machine_arrive_def and_then_eq_Inr)
  show "node_ok g ?n (edge_target e)" "act_function b = ?n" "act_continuation b = edge_target e" using ok b' by simp_all
  have distinct: "distinct (map def_value (con_parameters ?c))" using validated_distinct [OF valid ok] by simp
  from xs have all: "list_all2 (\<lambda>a' x. edge_argument (act_values a) a' = Inr x) (edge_arguments e) xs" by (simp add: collect_Inr)
  have argument: "vals (def_value p) = (case x of ArgumentValue v \<Rightarrow> act_values a v | ArgumentResult \<Rightarrow> r)"
      "edge_argument (act_values a) x = Inr y" "vals (def_value p) = (case y of Some y \<Rightarrow> Some y | None \<Rightarrow> r)"
    if j: "j < length (con_parameters ?c)" "p = con_parameters ?c ! j" "x = edge_arguments e ! j" "y = xs ! j" for p x y j
  proof -
    from all j len show x: "edge_argument (act_values a) x = Inr y" by (simp add: list_all2_conv_all_nth)
    have "(p, y) \<in> set (zip (con_parameters ?c) xs)"
      using j all len by (auto simp: set_zip list_all2_conv_all_nth)
    from insert_argument_values(1) [OF vals distinct this] show y: "vals (def_value p) = (case y of Some y \<Rightarrow> Some y | None \<Rightarrow> r)" .
    with x show "vals (def_value p) = (case x of ArgumentValue v \<Rightarrow> act_values a v | ArgumentResult \<Rightarrow> r)"
      by (auto simp: edge_argument_def lookup_value_def and_then_eq_Inr split: argument.splits option.splits)
  qed
  show "act_values b (def_value p) = (case x of ArgumentValue v \<Rightarrow> act_values a v | ArgumentResult \<Rightarrow> r)"
    if "(p, x) \<in> set (zip (con_parameters ?c) (edge_arguments e))"
    using that argument(1) b' by (auto simp: set_zip)
  have "\<exists>y. vals (def_value p) = Some y" if p: "p \<in> set (con_parameters ?c)" for p
  proof -
    from p obtain j where j: "j < length (con_parameters ?c)" "p = con_parameters ?c ! j" by (auto simp: in_set_conv_nth)
    with all len have "(p, xs ! j) \<in> set (zip (con_parameters ?c) xs)"
      by (auto simp: set_zip list_all2_conv_all_nth)
    from insert_argument_values(2) [OF vals distinct this] show ?thesis by simp
  qed
  moreover have "\<exists>y. vals (def_value p) = Some y" if p: "p \<in> set (con_captures ?c)" for p
  proof -
    have "def_value p \<in> fst ` set ys" using captures_present [OF ys] p c by (metis image_eqI list.set_map)
    then have "map_of (rev ys) (def_value p) \<noteq> None" by (simp add: map_of_eq_None_iff)
    moreover have "def_value p \<notin> def_value ` set (con_parameters ?c)"
      using validated_distinct [OF valid ok] p by auto
    ultimately show ?thesis using insert_argument_values(3) [OF vals distinct] by auto
  qed
  ultimately show "activation_typed g (\<lambda>_ _. True) b"
    using ok b' by (auto simp: activation_typed_def inputs_typed_def)
qed

lemma transferred_Some:
  assumes "transferred c e carried = Some v"
  obtains p a where "(p, a) \<in> set (zip (con_parameters c) (edge_arguments e))" "carries a carried" "v = def_value p"
proof -
  from assms obtain p a where found: "find (\<lambda>(_, a). carries a carried) (zip (con_parameters c) (edge_arguments e)) = Some (p, a)"
      and v: "v = def_value p"
    by (auto simp: transferred_def)
  from found have "(p, a) \<in> set (zip (con_parameters c) (edge_arguments e))" "carries a carried"
    by (auto simp: find_Some_iff in_set_conv_nth)
  then show ?thesis using v by (rule that)
qed

lemma ready_turn:
  assumes valid: "validate_continuation_graph g m = Inr ()" and ok: "node_ok g (act_function b) (act_continuation b)"
    and none: "con_instructions (node_at g (act_function b) (act_continuation b)) = []"
    and step: "take_transition ops g b callers (con_transition (node_at g (act_function b) (act_continuation b))) = Inr (k, None)"
  shows "poll ops execute g (Suc q) \<lparr>machine_state = Ready b, machine_callers = callers\<rparr> s = poll ops execute g q k s"
proof -
  have "find_function g (act_function b) = Some (g ! act_function b)"
    using find_validated [OF valid] ok by (simp add: node_ok_def)
  then show ?thesis using ok none step
    by (simp add: run_activation_def Let_def machine_function_def machine_continuation_def node_ok_def node_at_def)
qed

lemma returns_loop_delivers:
  assumes valid: "validate_continuation_graph g m = Inr ()" and "returns_loop f visited carried e = Inr True"
    and "f = g ! n" "act_function b = n" "act_continuation b = edge_target e" "node_ok g n (edge_target e)"
    and "activation_typed g (\<lambda>_ _. True) b"
    and "\<forall>p. transferred (node_at g n (edge_target e)) e carried = Some p \<longrightarrow> act_values b p = Some x"
    and "deliver g x callers = Inr k"
  shows "\<exists>q. poll ops execute g q \<lparr>machine_state = Ready b, machine_callers = callers\<rparr> s = (k, s, Inr Yielded)"
  using assms(2-8)
proof (induction f visited carried e arbitrary: b rule: returns_loop.induct)
  case (1 f visited carried e)
  let ?c = "node_at g n (edge_target e)"
  have node: "?c = fun_continuations f ! edge_target e" by (simp add: node_at_def 1(3))
  from 1(2) 1(6) 1(3) obtain p where none: "con_instructions ?c = []" and p: "transferred ?c e carried = Some p"
      and fresh: "edge_target e \<notin> visited" "edge_target e < length (fun_continuations f)"
      and rest: "(\<exists>v. con_transition ?c = ReturnFrom v \<and> v = p) \<or>
        (\<exists>e'. con_transition ?c = Jump e' \<and> returns_loop f (insert (edge_target e) visited) (Some p) e' = Inr True)"
    by (subst (asm) returns_loop.simps) (auto simp: node Let_def split: if_splits option.splits transition.splits)
  from 1(8) p have x: "act_values b p = Some x" by blast
  note turn = ready_turn [OF valid, of b, unfolded 1(4,5), OF 1(6) none]
  from rest show ?case
  proof (elim disjE exE conjE)
    fix v assume v: "con_transition ?c = ReturnFrom v" "v = p"
    have "take_transition ops g b callers (con_transition ?c) = Inr (k, None)"
      using v x assms(9) by (cases callers) (auto simp: lookup_value_def and_then_eq_Inr)
    from turn [OF this, of execute 0 s] show ?thesis by (intro exI [of _ "Suc 0"]) simp
  next
    fix e' assume e': "con_transition ?c = Jump e'" "returns_loop f (insert (edge_target e) visited) (Some p) e' = Inr True"
    from 1(6) have n: "n < length g" by (simp add: node_ok_def)
    obtain inputs available awaited where checked: "continuation_checked m g n (edge_target e) inputs available awaited"
      by (rule validated_node [OF valid 1(6)])
    then obtain defs where inputs: "check_inputs defs ?c = Inr inputs" and available: "available = inputs"
        and transition: "check_transition m g (g ! n) (function_signature m (g ! n)) available (Jump e') = Inr awaited"
        and fits: "edge_fits (fun_continuations (g ! n)) e'"
        and check: "check_edge (g ! n) defs available False awaited e' = Inr ()"
      unfolding continuation_checked_def Let_def by (auto simp: none e'(1))
    from transition have "awaited = None" by simp
    from 1(7) 1(4,5) have "inputs_typed (\<lambda>_ _. True) ?c (act_values b)" by (simp add: activation_typed_def)
    with inputs_values_typed [OF inputs] available have "values_typed (\<lambda>_ _. True) available (act_values b)" by blast
    with 1(4) n fits check \<open>awaited = None\<close> obtain d where d: "machine_destination g b e' = Inr d"
        "destination_typed g (\<lambda>_ _. True) d None"
      using destination_reached [OF valid, of b "\<lambda>_ _. True" available e' defs False None] by metis
    obtain b' where b': "machine_arrive g d None = Inr b'" by (rule destination_arrived [OF valid d(2)]) auto
    have len: "length (edge_arguments e') = length (con_parameters (node_at g (act_function b) (edge_target e')))"
      using fits 1(4) by (simp add: edge_fits_def node_at_def)
    note arrived = arrived_inputs [OF valid d(1) b' len, unfolded 1(4)]
    have "\<forall>p'. transferred (node_at g n (edge_target e')) e' (Some p) = Some p' \<longrightarrow> act_values b' p' = Some x"
    proof (intro allI impI)
      fix p' assume "transferred (node_at g n (edge_target e')) e' (Some p) = Some p'"
      then obtain q a where q: "(q, a) \<in> set (zip (con_parameters (node_at g n (edge_target e'))) (edge_arguments e'))"
          "carries a (Some p)" "p' = def_value q" by (rule transferred_Some)
      then have "a = ArgumentValue p" by (cases a) auto
      with arrived(5) [OF q(1)] q(3) x show "act_values b' p' = Some x" by simp
    qed
    then obtain q where q: "poll ops execute g q \<lparr>machine_state = Ready b', machine_callers = callers\<rparr> s = (k, s, Inr Yielded)"
      using 1(1) [OF _ _ refl _ _ e'(1) [unfolded node], of p b'] arrived e'(2) fresh none p 1(3) by (auto simp: node)
    have "take_transition ops g b callers (con_transition ?c) =
        Inr (\<lparr>machine_state = Ready b', machine_callers = callers\<rparr>, None)"
      using d(1) b' by (simp add: e'(1) goto_def)
    from turn [OF this, of execute q s] q show ?thesis by (intro exI [of _ "Suc q"]) simp
  qed
qed

text \<open>
  C14. When \<open>returns_call_result\<close> accepts the edge after a call, the function returns the result of
  the call as it is: in a validated graph, a machine that arrives along that edge with a result
  delivers the same value to its own callers after some turns, with no instruction executed, no
  request and no trap on the way.
\<close>

theorem call_result_returned:
  assumes "validate_continuation_graph g m = Inr ()" "returns_call_result (g ! act_function a) e = Inr True"
    and "node_ok g (act_function a) i" "con_transition (node_at g (act_function a) i) = CallOut target signature arguments e suspends"
    and "machine_destination g a e = Inr d" "machine_arrive g d (Some x) = Inr b" "deliver g x callers = Inr k"
  shows "\<exists>q. poll ops execute g q \<lparr>machine_state = Ready b, machine_callers = callers\<rparr> s = (k, s, Inr Yielded)"
proof -
  let ?n = "act_function a" and ?c = "node_at g (act_function a) (edge_target e)"
  obtain inputs available awaited where "continuation_checked m g ?n i inputs available awaited"
    by (rule validated_node [OF assms(1,3)])
  then have "edge_fits (fun_continuations (g ! ?n)) e"
    unfolding continuation_checked_def Let_def assms(4) by auto
  then have len: "length (edge_arguments e) = length (con_parameters ?c)" by (simp add: edge_fits_def node_at_def)
  note arrived = arrived_inputs [OF assms(1,5,6) len]
  have "\<forall>p. transferred ?c e None = Some p \<longrightarrow> act_values b p = Some x"
  proof (intro allI impI)
    fix p assume "transferred ?c e None = Some p"
    then obtain q y where q: "(q, y) \<in> set (zip (con_parameters ?c) (edge_arguments e))" "carries y None" "p = def_value q"
      by (rule transferred_Some)
    then have "y = ArgumentResult" by (cases y) auto
    with arrived(5) [OF q(1)] q(3) show "act_values b p = Some x" by simp
  qed
  from returns_loop_delivers [OF assms(1) assms(2) [unfolded returns_call_result_def] refl arrived(1-4) this assms(7)]
  show ?thesis .
qed

section \<open>Synchronous functions\<close>

fun target_suspends :: "runtime_tables \<Rightarrow> call_target \<Rightarrow> bool" where
  "target_suspends m (CallHost c n) =
     (case find_operation m c n of None \<Rightarrow> False | Some x \<Rightarrow> contract_suspends (cap_contract x))"
| "target_suspends m (CallLink u n) = (case find_link m u n of None \<Rightarrow> False | Some l \<Rightarrow> link_suspends l)"
| "target_suspends m (CallFunction n) = False"

definition synchronous :: "graph \<Rightarrow> nat \<Rightarrow> bool" where
  "synchronous g n \<longleftrightarrow> \<not> fun_suspends (g ! n)"

definition machine_synchronous :: "graph \<Rightarrow> 'v machine \<Rightarrow> bool" where
  "machine_synchronous g k \<longleftrightarrow>
     (\<forall>d \<in> set (machine_callers k). synchronous g (dest_function d)) \<and>
     (case machine_state k of
        Ready a \<Rightarrow> synchronous g (act_function a)
      | Waiting d \<Rightarrow> synchronous g (dest_function d)
      | _ \<Rightarrow> True)"

lemma machine_destination_function: "machine_destination g a e = Inr d \<Longrightarrow> dest_function d = act_function a"
  by (auto simp: machine_destination_def and_then_eq_Inr)

lemma machine_arrive_function: "machine_arrive g d r = Inr a \<Longrightarrow> act_function a = dest_function d"
  by (auto simp: machine_arrive_def and_then_eq_Inr)

lemma goto_synchronous:
  assumes "goto g a callers e = Inr (k, answer)" "synchronous g (act_function a)"
    "\<forall>d \<in> set callers. synchronous g (dest_function d)"
  shows "machine_synchronous g k \<and> answer = None"
  using assms by (auto simp: goto_def and_then_eq_Inr machine_synchronous_def
      dest!: machine_destination_function machine_arrive_function)

lemma take_transition_synchronous:
  assumes valid: "validate_continuation_graph g m = Inr ()"
    and checked: "check_transition m g (g ! act_function a) signature available t = Inr awaited"
    and step: "take_transition ops g a callers t = Inr (k, answer)"
    and sync: "synchronous g (act_function a)" "\<forall>d \<in> set callers. synchronous g (dest_function d)"
  shows "machine_synchronous g k \<and> (\<forall>target xs. answer = Some (Request target xs) \<longrightarrow> \<not> target_suspends m target)"
proof (cases t)
  case (Jump e)
  with step goto_synchronous [OF _ sync] show ?thesis by auto
next
  case (BranchOn condition yes no)
  with step obtain b where "goto g a callers (if b then yes else no) = Inr (k, answer)"
    by (auto simp: and_then_eq_Inr case_error_Inr)
  from goto_synchronous [OF this sync] show ?thesis by auto
next
  case (SwitchOn v cases fallback)
  with step obtain e where "goto g a callers e = Inr (k, answer)" by (auto simp: and_then_eq_Inr)
  from goto_synchronous [OF this sync] show ?thesis by auto
next
  case (CallOut target s as e w)
  from checked CallOut sync(1) have w: "\<not> w" and target: "check_call_target m g (g ! act_function a) target s w = Inr ()"
    by (auto simp: synchronous_def and_then_eq_Inr split: if_splits)
  from step [unfolded CallOut] show ?thesis
  proof (cases rule: take_call_cases)
    case (calls n xs d callee)
    from target calls(1) w have "find_function g n \<noteq> None" "\<forall>h. find_function g n = Some h \<longrightarrow> \<not> fun_suspends h"
      by (auto split: option.splits if_splits)
    with find_validated [OF valid, of n] have callee: "synchronous g n" by (auto simp: synchronous_def)
    from calls(4) obtain b where "machine_state callee = Ready b" "act_function b = n"
      by (auto simp: machine_new_def and_then_eq_Inr split: option.splits if_splits)
    with calls callee sync machine_destination_function [OF calls(3)] show ?thesis
      by (simp add: machine_synchronous_def)
  next
    case (requests xs d)
    from target w have "\<not> target_suspends m target" by (cases target) (auto split: option.splits)
    with requests sync machine_destination_function [OF requests(3)] show ?thesis
      by (simp add: machine_synchronous_def)
  qed
next
  case (ReturnFrom v)
  from step [unfolded this] show ?thesis
    by (cases rule: take_return_cases) (use sync in \<open>auto simp: machine_synchronous_def dest: machine_arrive_function\<close>)
next
  case (TrapWith message)
  with step show ?thesis by (auto simp: machine_synchronous_def)
qed

lemma run_activation_synchronous:
  assumes valid: "validate_continuation_graph g m = Inr ()" and a: "activation_typed g has a"
    and run: "run_activation ops execute g a callers s = (k, s', Inr answer)"
    and sync: "synchronous g (act_function a)" "\<forall>d \<in> set callers. synchronous g (dest_function d)"
  shows "machine_synchronous g k \<and> (\<forall>target xs. answer = Some (Request target xs) \<longrightarrow> \<not> target_suspends m target)"
proof -
  let ?n = "act_function a" and ?c = "node_at g (act_function a) (act_continuation a)"
  from a have ok: "node_ok g ?n (act_continuation a)" by (simp add: activation_typed_def)
  obtain inputs available awaited where "continuation_checked m g ?n (act_continuation a) inputs available awaited"
    by (rule validated_node [OF valid ok])
  then have checked: "check_transition m g (g ! ?n) (function_signature m (g ! ?n)) available (con_transition ?c) = Inr awaited"
    unfolding continuation_checked_def Let_def by blast
  have found: "and_then (machine_function g ?n) (\<lambda>f. machine_continuation f (act_continuation a)) = Inr ?c"
    using ok find_validated [OF valid, of ?n "g ! ?n"]
    by (simp add: machine_function_def machine_continuation_def node_ok_def node_at_def)
  from run found consider
      message where "k = \<lparr>machine_state = Trapped message, machine_callers = []\<rparr>" "answer = Some (TrappedWith message)"
    | vals where "take_transition ops g (a\<lparr>act_values := vals\<rparr>) callers (con_transition ?c) = Inr (k, answer)"
    by (auto simp: run_activation_def Let_def split: sum.splits prod.splits machine_stop.splits)
  then show ?thesis
  proof cases
    case 1
    then show ?thesis by (simp add: machine_synchronous_def)
  next
    case (2 vals)
    from take_transition_synchronous [OF valid _ 2] checked sync show ?thesis by simp
  qed
qed

lemma poll_synchronous:
  assumes valid: "validate_continuation_graph g m = Inr ()" and reads: "conditions_read m has ops"
    and executes: "executes_well m g has execute" and "machine_typed m g has r k awaited" "machine_synchronous g k"
    and "poll ops execute g quantum k s = (k', s', Inr observation)"
  shows "machine_synchronous g k' \<and> (\<forall>target xs. observation = Request target xs \<longrightarrow> \<not> target_suspends m target)"
  using assms(4-6)
proof (induction quantum arbitrary: k s)
  case (Suc quantum)
  show ?case
  proof (cases "machine_state k")
    case (Ready a)
    with Suc.prems(1) have typed: "activation_typed g has a" "stack_typed m g has r (act_function a) (machine_callers k)"
      by (simp_all add: machine_typed_def)
    then obtain k1 s1 o1 where run: "run_activation ops execute g a (machine_callers k) s = (k1, s1, Inr o1)"
        and turn: "turn_typed m g has r awaited k1 o1"
      by (rule run_activation_typed [OF valid reads executes])
    from run_activation_synchronous [OF valid typed(1) run] Suc.prems(2) Ready
    have sync: "machine_synchronous g k1" "\<forall>target xs. o1 = Some (Request target xs) \<longrightarrow> \<not> target_suspends m target"
      by (auto simp: machine_synchronous_def)
    show ?thesis
    proof (cases o1)
      case None
      with run Ready Suc.prems(3) have "poll ops execute g quantum k1 s1 = (k', s', Inr observation)" by simp
      from Suc.IH [OF _ sync(1) this] turn None show ?thesis by (auto simp: turn_typed_def)
    next
      case (Some x)
      with run Ready Suc.prems(3) sync show ?thesis by auto
    qed
  qed (use Suc.prems in auto)
qed auto

lemma session_synchronous:
  assumes valid: "validate_continuation_graph g m = Inr ()" and n: "n < length g" and reads: "conditions_read m has ops"
    and executes: "executes_well m g has execute" and sync: "synchronous g n" and "session m g has ops execute n k awaited"
  shows "machine_synchronous g k"
  using assms(6)
proof induction
  case (starts xs k)
  from starts(1) sync show ?case
    by (auto simp: machine_new_def and_then_eq_Inr machine_synchronous_def split: option.splits if_splits)
next
  case (polls k awaited quantum s k' s' observation)
  from poll_synchronous [OF valid reads executes session_typed [OF valid n reads executes polls(1)] polls.IH polls(2)]
  show ?case by simp
next
  case (resumes k t x k')
  then show ?case
    by (auto simp: machine_resume_def and_then_eq_Inr machine_synchronous_def dest: machine_arrive_function
        split: machine_state.splits)
qed (simp add: machine_cancel_def machine_synchronous_def)

text \<open>
  C15. The mark of a function that does not suspend is kept by the machine: in a validated graph,
  no session that starts in such a function ever asks its host for an operation, or a linked unit
  for a call, that may suspend.
\<close>

theorem synchronous_never_suspends:
  assumes "validate_continuation_graph g m = Inr ()" "n < length g" "conditions_read m has ops"
    "executes_well m g has execute" "\<not> fun_suspends (g ! n)" "session m g has ops execute n k awaited"
    "poll ops execute g quantum k s = (k', s', Inr (Request target xs))"
  shows "\<not> target_suspends m target"
  using poll_synchronous [OF assms(1,3,4) session_typed [OF assms(1-4,6)]
      session_synchronous [OF assms(1-4) _ assms(6)] assms(7)] assms(5)
  by (simp add: synchronous_def)

section \<open>A call in tail position\<close>

text \<open>Function 0 calls function 1 with its argument and passes the result through a second edge.\<close>

definition sample_direct :: graph where
  "sample_direct =
     [\<lparr>fun_id = 0, fun_name = ''main'', fun_signature = 0, fun_entry = 0,
       fun_continuations =
         [sample_node 0 0 (CallOut (CallFunction 1) 0 [0] \<lparr>edge_target = 1, edge_arguments = [ArgumentResult]\<rparr> False),
          sample_node 1 1 (Jump \<lparr>edge_target = 2, edge_arguments = [ArgumentValue 1]\<rparr>),
          sample_node 2 2 (ReturnFrom 2)],
       fun_suspends = False, fun_framed = False, fun_reuse = None, fun_span = sample_span\<rparr>,
      \<lparr>fun_id = 1, fun_name = ''print'', fun_signature = 0, fun_entry = 0,
       fun_continuations =
         [sample_node 0 0 (CallOut (CallHost ''console'' ''print'') 0 [0] \<lparr>edge_target = 1, edge_arguments = [ArgumentResult]\<rparr> False),
          sample_node 1 1 (ReturnFrom 1)],
       fun_suspends = False, fun_framed = False, fun_reuse = None, fun_span = sample_span\<rparr>]"

definition sample_printing :: runtime_tables where
  "sample_printing =
     \<lparr>table_types = [Integer32Type],
      table_signatures = [\<lparr>sig_parameters = [0], sig_result = 0, sig_effects = []\<rparr>],
      table_static_stores = [],
      table_capabilities =
        [\<lparr>capability_name = ''console'',
          capability_operations =
            [\<lparr>cap_operation_name = ''print'', cap_source_name = ''print'', cap_signature = 0,
              cap_contract = \<lparr>contract_input = ModeOwnership ''plain'', contract_result = ModeOwnership ''plain'',
                contract_suspends = False\<rparr>\<rparr>]\<rparr>],
      table_links = []\<rparr>"

lemma sample_direct_valid: "validate_continuation_graph sample_direct sample_printing = Inr ()"
  by code_simp

lemma sample_direct_returns: "returns_call_result (sample_direct ! 0) \<lparr>edge_target = 1, edge_arguments = [ArgumentResult]\<rparr> = Inr True"
  by (simp add: returns_call_result_def returns_loop.simps transferred_def sample_direct_def sample_node_def sample_definition_def)

lemma sample_direct_reliance: "conditions_read sample_printing tagged tagged_operations"
    "executes_well sample_printing sample_direct tagged tagged_executor"
  by (simp_all add: conditions_read_def executes_well_def tagged_def tagged_operations_def tagged_executor_def)

lemmas direct_defs = sample_direct_def sample_node_def sample_definition_def machine_function_def
  machine_continuation_def find_function_def lookup_value_def edge_argument_def

lemma sample_direct_destination:
  "machine_destination sample_direct \<lparr>act_function = 0, act_continuation = 0, act_values = [0 \<mapsto> (0, 5)]\<rparr>
      \<lparr>edge_target = 1, edge_arguments = [ArgumentResult]\<rparr> =
    Inr \<lparr>dest_function = 0, dest_continuation = 1, dest_arguments = [None], dest_captures = Map.empty\<rparr>"
  by (simp add: machine_destination_def direct_defs)

lemma sample_direct_arrival:
  "machine_arrive sample_direct \<lparr>dest_function = 0, dest_continuation = 1, dest_arguments = [None], dest_captures = Map.empty\<rparr>
      (Some (0 :: nat, 9 :: int)) =
    Inr \<lparr>act_function = 0, act_continuation = 1, act_values = [1 \<mapsto> (0, 9)]\<rparr>"
  by (simp add: machine_arrive_def insert_argument_def direct_defs)

theorem call_result_returned_witness:
  "\<exists>q. poll tagged_operations tagged_executor sample_direct q
      \<lparr>machine_state = Ready \<lparr>act_function = 0, act_continuation = 1, act_values = [1 \<mapsto> (0, 9)]\<rparr>, machine_callers = []\<rparr> () =
    (\<lparr>machine_state = Returned (0, 9), machine_callers = []\<rparr>, (), Inr Yielded)"
proof (rule call_result_returned [OF sample_direct_valid _ _ _ sample_direct_destination sample_direct_arrival])
  let ?a = "\<lparr>act_function = 0, act_continuation = 0, act_values = [0 \<mapsto> (0, 5)]\<rparr> :: (nat \<times> int) activation"
  show "returns_call_result (sample_direct ! act_function ?a) \<lparr>edge_target = 1, edge_arguments = [ArgumentResult]\<rparr> = Inr True"
    using sample_direct_returns by simp
  show "node_ok sample_direct (act_function ?a) 0" by (simp add: node_ok_def sample_direct_def)
  show "con_transition (node_at sample_direct (act_function ?a) 0) =
      CallOut (CallFunction 1) 0 [0] \<lparr>edge_target = 1, edge_arguments = [ArgumentResult]\<rparr> False"
    by (simp add: node_at_def sample_direct_def sample_node_def)
qed simp

theorem synchronous_never_suspends_witness:
  "\<not> target_suspends sample_printing (CallHost ''console'' ''print'')"
proof (rule synchronous_never_suspends [OF sample_direct_valid _ sample_direct_reliance])
  let ?k = "\<lparr>machine_state = Ready \<lparr>act_function = 0, act_continuation = 0, act_values = [0 \<mapsto> (0, 5)]\<rparr>, machine_callers = []\<rparr>"
  show "0 < length sample_direct" "\<not> fun_suspends (sample_direct ! 0)" by (simp_all add: sample_direct_def)
  have "machine_new sample_direct 0 [(0 :: nat, 5 :: int)] = Inr ?k"
    by (simp add: machine_new_def parameter_values_def direct_defs)
  then show "session sample_printing sample_direct tagged tagged_operations tagged_executor 0 ?k None"
    by (rule session.starts) (simp add: tagged_def function_signature_def sample_direct_def sample_printing_def)
  show "poll tagged_operations tagged_executor sample_direct (Suc (Suc 0)) ?k () =
      (\<lparr>machine_state = Waiting \<lparr>dest_function = 1, dest_continuation = 1, dest_arguments = [None], dest_captures = Map.empty\<rparr>,
        machine_callers = [\<lparr>dest_function = 0, dest_continuation = 1, dest_arguments = [None], dest_captures = Map.empty\<rparr>]\<rparr>,
       (), Inr (Request (CallHost ''console'' ''print'') [(0, 5)]))"
    by (simp add: run_activation_def Let_def machine_destination_def machine_new_def parameter_values_def direct_defs)
qed

end
