(* ===== verification/ContinuationLowering.thy ===== *)
theory ContinuationLowering
  imports ContinuationMachine
begin

text \<open>
  How the staged blocks of a module become its continuation graph: \<open>Graph::lower\<close>,
  \<open>lower_function\<close> and their helpers in \<open>compiler/src/continuation.rs\<close>, on the staged module of
  \<open>compiler/src/hir.rs\<close>. Of the staged module the fields that lowering reads are kept.
\<close>

section \<open>Staged modules\<close>

record staged_operation =
  sop_kind :: string
  sop_result :: nat
  sop_type :: nat
  sop_operands :: "nat list"
  sop_ownership :: string
  sop_span :: runtime_span
  sop_value :: "wire_constant option"
  sop_update :: "string option"
  sop_case :: "nat option"
  sop_capability :: "string option"
  sop_operation :: "string option"
  sop_operator :: "string option"
  sop_conversion :: "string option"
  sop_lane :: "u8 option"
  sop_field :: "nat option"
  sop_function :: "nat option"
  sop_signature :: "nat option"
  sop_static_store :: "nat option"

datatype staged_terminator =
  StagedBranch nat "nat list" runtime_span
| StagedConditional nat nat "nat list" nat "nat list" runtime_span
| StagedSwitch nat "(wire_constant \<times> nat) list" nat runtime_span
| StagedReturn nat runtime_span
| StagedTrap string runtime_span

record staged_parameter =
  spar_value :: nat
  spar_type :: nat
  spar_ownership :: string
  spar_span :: runtime_span

record staged_block =
  block_id :: nat
  block_parameters :: "staged_parameter list"
  block_operations :: "staged_operation list"
  block_terminator :: staged_terminator

record staged_function =
  sfun_id :: nat
  sfun_name :: string
  sfun_signature :: nat
  sfun_reuse :: "string option"
  sfun_entry_block :: nat
  sfun_blocks :: "staged_block list"
  sfun_span :: runtime_span

record staged_module = runtime_tables +
  module_functions :: "staged_function list"
  module_checked :: "graph_function list"
  module_resumable_roots :: "nat list"

text \<open>\<open>StagedModule::tables\<close>.\<close>

definition module_tables :: "staged_module \<Rightarrow> runtime_tables" where
  "module_tables = runtime_tables.truncate"

section \<open>Functions\<close>

definition lower_parameter :: "staged_parameter \<Rightarrow> value_definition" where
  "lower_parameter p =
     \<lparr>def_value = spar_value p, def_type = spar_type p, def_ownership = spar_ownership p, def_span = spar_span p\<rparr>"

definition lower_definition :: "staged_operation \<Rightarrow> value_definition" where
  "lower_definition op =
     \<lparr>def_value = sop_result op, def_type = sop_type op, def_ownership = sop_ownership op, def_span = sop_span op\<rparr>"

definition is_call :: "staged_operation \<Rightarrow> bool" where
  "is_call op \<longleftrightarrow> sop_kind op \<in> call_kinds"

definition lower_instruction :: "staged_operation \<Rightarrow> instruction" where
  "lower_instruction op =
     \<lparr>ins_definition = lower_definition op, ins_operands = sop_operands op,
      ins_operation =
        \<lparr>op_kind = sop_kind op, op_value = sop_value op, op_update = sop_update op, op_case = sop_case op,
         op_operator = sop_operator op, op_conversion = sop_conversion op, op_lane = sop_lane op,
         op_field = sop_field op, op_function = sop_function op, op_signature = sop_signature op,
         op_static_store = sop_static_store op\<rparr>\<rparr>"

definition callee_signature :: "staged_module \<Rightarrow> nat \<Rightarrow> nat option" where
  "callee_signature m n =
     (case find (\<lambda>f. sfun_id f = n) (module_functions m) of
        Some f \<Rightarrow> Some (sfun_signature f)
      | None \<Rightarrow> map_option fun_signature (find (\<lambda>f. fun_id f = n) (module_checked m)))"

definition lower_call_target ::
  "staged_module \<Rightarrow> staged_operation \<Rightarrow> (graph_fault, call_target \<times> nat \<times> bool) result" where
  "lower_call_target m op =
     (if sop_kind op = ''call.direct'' then
        (case sop_function op of
           None \<Rightarrow> Inl CallWithoutFunction
         | Some n \<Rightarrow>
             (case callee_signature m n of
                None \<Rightarrow> Inl (AbsentDirectCallee n)
              | Some s \<Rightarrow> Inr (CallFunction n, s, False)))
      else
        (case sop_capability op of
           None \<Rightarrow> Inl RequestWithoutCapability
         | Some c \<Rightarrow>
             (case sop_operation op of
                None \<Rightarrow> Inl RequestWithoutOperation
              | Some n \<Rightarrow>
                  if sop_kind op = ''host.call'' then
                    (case find_operation (module_tables m) c n of
                       None \<Rightarrow> Inl (RequestAbsentOperation c n)
                     | Some x \<Rightarrow> Inr (CallHost c n, cap_signature x, contract_suspends (cap_contract x)))
                  else
                    (case find_link (module_tables m) c n of
                       None \<Rightarrow> Inl (CallAbsentLink c n)
                     | Some l \<Rightarrow> Inr (CallLink c n, link_signature l, link_suspends l)))))"

text \<open>The first loop: the continuation each block starts with.\<close>

definition place_block ::
  "nat \<Rightarrow> staged_block \<Rightarrow> (nat \<rightharpoonup> nat) \<times> nat \<Rightarrow> (graph_fault, (nat \<rightharpoonup> nat) \<times> nat) result" where
  "place_block f b = (\<lambda>(entries, next_id).
     if entries (block_id b) \<noteq> None then Inl (RepeatedBlock f (block_id b))
     else Inr (entries(block_id b \<mapsto> next_id), next_id + 1 + length (filter is_call (block_operations b))))"

text \<open>The second loop: the parameters and instructions gathered so far, and the finished continuations.\<close>

type_synonym gathered = "value_definition list \<times> instruction list \<times> continuation list"

definition lower_operation :: "staged_module \<Rightarrow> staged_operation \<Rightarrow> gathered \<Rightarrow> (graph_fault, gathered) result" where
  "lower_operation m op = (\<lambda>(parameters, instructions, cs).
     if \<not> is_call op then Inr (parameters, instructions @ [lower_instruction op], cs)
     else
       and_then (lower_call_target m op) (\<lambda>(target, signature, suspends).
         Inr ([lower_definition op], [],
           cs @ [\<lparr>con_id = length cs, con_parameters = parameters, con_captures = [],
             con_instructions = instructions,
             con_transition =
               CallOut target signature (sop_operands op)
                 \<lparr>edge_target = length cs + 1, edge_arguments = [ArgumentResult]\<rparr> suspends,
             con_span = sop_span op\<rparr>])))"

definition lower_edge :: "nat \<Rightarrow> (nat \<rightharpoonup> nat) \<Rightarrow> nat \<Rightarrow> nat list \<Rightarrow> (graph_fault, edge) result" where
  "lower_edge f entries b arguments =
     (case entries b of
        None \<Rightarrow> Inl (AbsentBlock f b)
      | Some t \<Rightarrow> Inr \<lparr>edge_target = t, edge_arguments = map ArgumentValue arguments\<rparr>)"

fun lower_terminator ::
  "nat \<Rightarrow> (nat \<rightharpoonup> nat) \<Rightarrow> staged_terminator \<Rightarrow> (graph_fault, transition \<times> runtime_span) result" where
  "lower_terminator f entries (StagedBranch b arguments s) =
     and_then (lower_edge f entries b arguments) (\<lambda>e. Inr (Jump e, s))"
| "lower_terminator f entries (StagedConditional condition yes yes_arguments no no_arguments s) =
     and_then (lower_edge f entries yes yes_arguments) (\<lambda>consequent.
     and_then (lower_edge f entries no no_arguments) (\<lambda>alternate.
       Inr (BranchOn condition consequent alternate, s)))"
| "lower_terminator f entries (StagedSwitch selector cases fallback s) =
     and_then (collect (\<lambda>(constant, b). and_then (lower_edge f entries b []) (\<lambda>e. Inr (constant, e))) cases) (\<lambda>cases.
     and_then (lower_edge f entries fallback []) (\<lambda>fallback. Inr (SwitchOn selector cases fallback, s)))"
| "lower_terminator f entries (StagedReturn v s) = Inr (ReturnFrom v, s)"
| "lower_terminator f entries (StagedTrap message s) = Inr (TrapWith message, s)"

definition lower_block ::
  "staged_module \<Rightarrow> nat \<Rightarrow> (nat \<rightharpoonup> nat) \<Rightarrow> staged_block \<Rightarrow> continuation list \<Rightarrow> (graph_fault, continuation list) result" where
  "lower_block m f entries b cs =
     and_then (fold_each (lower_operation m) (block_operations b) (map lower_parameter (block_parameters b), [], cs))
       (\<lambda>(parameters, instructions, cs).
     and_then (lower_terminator f entries (block_terminator b)) (\<lambda>(transition, s).
       Inr (cs @ [\<lparr>con_id = length cs, con_parameters = parameters, con_captures = [],
         con_instructions = instructions, con_transition = transition, con_span = s\<rparr>])))"

definition lower_function :: "staged_module \<Rightarrow> staged_function \<Rightarrow> (graph_fault, graph_function) result" where
  "lower_function m f =
     and_then (fold_each (place_block (sfun_id f)) (sfun_blocks f) (Map.empty, 0)) (\<lambda>(entries, _).
       case entries (sfun_entry_block f) of
         None \<Rightarrow> Inl (AbsentEntryBlock (sfun_id f))
       | Some entry \<Rightarrow>
           and_then (fold_each (lower_block m (sfun_id f) entries) (sfun_blocks f) []) (\<lambda>cs.
             Inr \<lparr>fun_id = sfun_id f, fun_name = sfun_name f, fun_signature = sfun_signature f, fun_entry = entry,
               fun_continuations = cs, fun_suspends = False, fun_framed = False, fun_reuse = sfun_reuse f,
               fun_span = sfun_span f\<rparr>))"

section \<open>Modules\<close>

text \<open>
  \<open>close_reachable\<close>, with the map of edges as a list of pairs and the stack \<open>pending\<close> from its top.
\<close>

definition successors_of :: "(nat \<times> nat) list \<Rightarrow> nat \<Rightarrow> nat list" where
  "successors_of edges source = sorted_list_of_set (set (map snd (filter (\<lambda>(s, _). s = source) edges)))"

fun push_reached :: "nat list \<Rightarrow> nat set \<times> nat list \<Rightarrow> nat set \<times> nat list" where
  "push_reached [] (reached, pending) = (reached, pending)"
| "push_reached (t # ts) (reached, pending) =
     push_reached ts (if t \<in> reached then (reached, pending) else (insert t reached, t # pending))"

lemma push_reached_adds:
  "push_reached ts (reached, pending) = (reached', pending') \<Longrightarrow>
     reached' = reached \<union> set ts \<and> set pending' = set pending \<union> (set ts - reached)"
  by (induction ts arbitrary: reached pending) (auto split: if_splits)

lemma push_reached_measure:
  "push_reached ts (reached, pending) = (reached', pending') \<Longrightarrow> finite R \<Longrightarrow> set ts \<subseteq> R \<Longrightarrow>
     card (R - reached') + length pending' = card (R - reached) + length pending"
proof (induction ts arbitrary: reached pending)
  case (Cons t ts)
  show ?case
  proof (cases "t \<in> reached")
    case False
    have "card (R - insert t reached) + 1 = card (R - reached)"
      using Cons.prems(2,3) False by (metis DiffI Diff_insert Suc_eq_plus1 card_Suc_Diff1 finite_Diff list.set_intros(1) subsetD)
    with Cons.IH [of "insert t reached" "t # pending"] Cons.prems False show ?thesis by simp
  qed (use Cons in simp)
qed simp

function close_loop :: "(nat \<times> nat) list \<Rightarrow> nat set \<Rightarrow> nat list \<Rightarrow> nat set" where
  "close_loop edges reached [] = reached"
| "close_loop edges reached (source # pending) =
     (let (reached, pending) = push_reached (successors_of edges source) (reached, pending)
      in close_loop edges reached pending)"
  by pat_completeness auto

lemma successors_of_edges: "set (successors_of edges source) = {t. (source, t) \<in> set edges}"
  by (force simp: successors_of_def)

termination close_loop
proof (relation "measure (\<lambda>(edges, reached, pending). card (snd ` set edges - reached) + length pending)")
  fix edges :: "(nat \<times> nat) list" and reached source pending p and reached' :: "nat set" and pending'
  assume "p = push_reached (successors_of edges source) (reached, pending)" "(reached', pending') = p"
  then have "push_reached (successors_of edges source) (reached, pending) = (reached', pending')" by simp
  moreover have "set (successors_of edges source) \<subseteq> snd ` set edges" by (force simp: successors_of_edges)
  ultimately show "((edges, reached', pending'), edges, reached, source # pending)
      \<in> measure (\<lambda>(edges, reached, pending). card (snd ` set edges - reached) + length pending)"
    using push_reached_measure [of _ reached pending reached' pending' "snd ` set edges"] by simp
qed simp

definition close_reachable :: "(nat \<times> nat) list \<Rightarrow> nat set \<Rightarrow> nat set" where
  "close_reachable edges reached = close_loop edges reached (rev (sorted_list_of_set reached))"

text \<open>What the scan of the calls gathers: functions with a suspending call, and call edges.\<close>

definition suspending_callers :: "graph_function list \<Rightarrow> nat set" where
  "suspending_callers fs =
     fun_id ` {f \<in> set fs. \<exists>c \<in> set (fun_continuations f). suspending_call (con_transition c)}"

fun called_function :: "transition \<Rightarrow> nat option" where
  "called_function (CallOut (CallFunction n) _ _ _ _) = Some n"
| "called_function _ = None"

definition call_edges :: "graph_function list \<Rightarrow> (nat \<times> nat) list" where
  "call_edges fs =
     concat (map (\<lambda>f. List.map_filter (\<lambda>c. map_option (\<lambda>n. (fun_id f, n)) (called_function (con_transition c)))
       (fun_continuations f)) fs)"

definition callback_functions :: "runtime_tables \<Rightarrow> nat set" where
  "callback_functions m =
     set (List.map_filter (\<lambda>t. case t of CallbackType f _ _ \<Rightarrow> Some f | _ \<Rightarrow> None) (table_types m))"

fun mark_transition :: "nat set \<Rightarrow> transition \<Rightarrow> transition" where
  "mark_transition suspending (CallOut (CallFunction n) s as e _) = CallOut (CallFunction n) s as e (n \<in> suspending)"
| "mark_transition suspending t = t"

definition mark_function :: "nat set \<Rightarrow> nat set \<Rightarrow> graph_function \<Rightarrow> graph_function" where
  "mark_function suspending framed f =
     f\<lparr>fun_suspends := fun_id f \<in> suspending, fun_framed := fun_id f \<in> framed,
       fun_continuations :=
         map (\<lambda>c. c\<lparr>con_transition := mark_transition suspending (con_transition c)\<rparr>) (fun_continuations f)\<rparr>"

definition gathered_functions :: "staged_module \<Rightarrow> (graph_fault, graph_function list) result" where
  "gathered_functions m =
     and_then (collect (lower_function m) (module_functions m)) (\<lambda>fs.
       Inr (sort_key fun_id (fs @ module_checked m)))"

definition suspending_functions :: "staged_module \<Rightarrow> graph_function list \<Rightarrow> nat set" where
  "suspending_functions m fs =
     close_reachable (map (\<lambda>(f, n). (n, f)) (call_edges fs)) (set (module_resumable_roots m) \<union> suspending_callers fs)"

definition framed_functions :: "staged_module \<Rightarrow> graph_function list \<Rightarrow> nat set" where
  "framed_functions m fs =
     close_reachable (call_edges fs) (suspending_functions m fs \<union> callback_functions (module_tables m))"

definition lower_graph :: "staged_module \<Rightarrow> (graph_fault, graph) result" where
  "lower_graph m =
     and_then (gathered_functions m) (\<lambda>fs.
     and_then (collect (\<lambda>f. fill_captures (mark_function (suspending_functions m fs) (framed_functions m fs) f)) fs) (\<lambda>g.
     and_then (validate_continuation_graph g (module_tables m)) (\<lambda>_. Inr g)))"

section \<open>Reachability\<close>

lemma close_loop_reaches:
  "set pending \<subseteq> reached \<Longrightarrow> (\<forall>x \<in> reached - set pending. set edges `` {x} \<subseteq> reached) \<Longrightarrow>
     close_loop edges reached pending = (set edges)\<^sup>* `` reached"
proof (induction edges reached pending rule: close_loop.induct)
  case (1 edges reached)
  then have "set edges `` reached \<subseteq> reached" by auto
  then show ?case by (simp add: Image_closed_trancl)
next
  case (2 edges reached source pending)
  let ?S = "set (successors_of edges source)"
  obtain reached' pending' where push: "push_reached (successors_of edges source) (reached, pending) = (reached', pending')" by force
  from push_reached_adds [OF this] have reached': "reached' = reached \<union> ?S"
    and pending': "set pending' = set pending \<union> (?S - reached)" by simp_all
  have S: "?S = set edges `` {source}" by (auto simp: successors_of_edges)
  have "set pending' \<subseteq> reached'" using 2(2) by (auto simp: reached' pending')
  moreover have "\<forall>x \<in> reached' - set pending'. set edges `` {x} \<subseteq> reached'"
  proof
    fix x assume "x \<in> reached' - set pending'"
    then have x: "x \<in> reached" "x \<notin> set pending" by (auto simp: reached' pending')
    show "set edges `` {x} \<subseteq> reached'"
      using 2(3) x S by (cases "x = source") (auto simp: reached')
  qed
  ultimately have "close_loop edges reached' pending' = (set edges)\<^sup>* `` (reached \<union> ?S)"
    using 2(1) [OF push [symmetric] refl] reached' by simp
  moreover have "(set edges)\<^sup>* `` (reached \<union> ?S) = (set edges)\<^sup>* `` reached"
    using 2(2) S by (auto intro: converse_rtrancl_into_rtrancl)
  ultimately show ?case by (simp add: push)
qed

text \<open>\<open>close_reachable\<close> adds exactly the functions a path of the edges leads to.\<close>

lemma close_reachable_finite: "finite starts \<Longrightarrow> close_reachable edges starts = (set edges)\<^sup>* `` starts"
  unfolding close_reachable_def by (rule close_loop_reaches) auto

section \<open>Marks\<close>

lemma fill_captures_keeps:
  assumes "fill_captures f = Inr f'"
  shows "fun_id f' = fun_id f \<and> fun_suspends f' = fun_suspends f \<and> fun_framed f' = fun_framed f \<and>
    map con_transition (fun_continuations f') = map con_transition (fun_continuations f)"
proof -
  from assms obtain live defs cs where cs: "list_all2 (\<lambda>c c'. fill_continuation (fun_id f) live defs c = Inr c') (fun_continuations f) cs"
      and f': "f' = f\<lparr>fun_continuations := cs\<rparr>"
    by (auto simp: fill_captures_def and_then_eq_Inr collect_Inr split: if_splits)
  from cs have "list_all2 (\<lambda>c c'. con_transition c' = con_transition c) (fun_continuations f) cs"
    by (rule list_all2_mono) (auto simp: fill_continuation_def and_then_eq_Inr split: if_splits)
  then have "map con_transition cs = map con_transition (fun_continuations f)"
    by (induction rule: list_all2_induct) auto
  with f' show ?thesis by simp
qed

lemma finite_suspending: "finite (set (module_resumable_roots m) \<union> suspending_callers fs)"
  by (simp add: suspending_callers_def)

lemma suspending_functions_iff:
  "f \<in> suspending_functions m fs \<longleftrightarrow>
     (\<exists>h. (f, h) \<in> (set (call_edges fs))\<^sup>* \<and> h \<in> set (module_resumable_roots m) \<union> suspending_callers fs)"
proof -
  have "set (map (\<lambda>(f, n). (n, f)) (call_edges fs)) = (set (call_edges fs))\<inverse>" by auto
  then show ?thesis
    unfolding suspending_functions_def close_reachable_finite [OF finite_suspending]
    by (auto simp: rtrancl_converse Image_iff)
qed

lemma framed_functions_iff:
  "f \<in> framed_functions m fs \<longleftrightarrow>
     (\<exists>h. (h, f) \<in> (set (call_edges fs))\<^sup>* \<and> h \<in> suspending_functions m fs \<union> callback_functions (module_tables m))"
proof -
  have "finite (suspending_functions m fs)"
  proof -
    have "f \<in> set (module_resumable_roots m) \<union> suspending_callers fs \<union> fst ` set (call_edges fs)"
      if "f \<in> suspending_functions m fs" for f
    proof -
      from that obtain h where "(f, h) \<in> (set (call_edges fs))\<^sup>*"
          "h \<in> set (module_resumable_roots m) \<union> suspending_callers fs"
        unfolding suspending_functions_iff by blast
      then show ?thesis
      proof (cases rule: converse_rtranclE)
        case (step y)
        from imageI [OF step(1), of fst] show ?thesis by simp
      qed simp
    qed
    then have "suspending_functions m fs \<subseteq> set (module_resumable_roots m) \<union> suspending_callers fs \<union> fst ` set (call_edges fs)"
      by (rule subsetI)
    then show ?thesis by (rule finite_subset) (simp add: suspending_callers_def)
  qed
  then have "finite (suspending_functions m fs \<union> callback_functions (module_tables m))"
    by (simp add: callback_functions_def)
  note closed = close_reachable_finite [OF this]
  show ?thesis unfolding framed_functions_def closed Image_iff Bex_def by blast
qed

lemma lowered_pointwise:
  assumes "lower_graph m = Inr g"
  obtains fs where "gathered_functions m = Inr fs"
    "list_all2 (\<lambda>f f'. fun_id f' = fun_id f \<and> (fun_suspends f' \<longleftrightarrow> fun_id f \<in> suspending_functions m fs) \<and>
       (fun_framed f' \<longleftrightarrow> fun_id f \<in> framed_functions m fs) \<and>
       map con_transition (fun_continuations f') =
         map (mark_transition (suspending_functions m fs)) (map con_transition (fun_continuations f))) fs g"
    "validate_continuation_graph g (module_tables m) = Inr ()"
proof -
  from assms obtain fs where fs: "gathered_functions m = Inr fs"
      and fill: "list_all2 (\<lambda>f f'. fill_captures (mark_function (suspending_functions m fs) (framed_functions m fs) f) = Inr f') fs g"
      and valid: "validate_continuation_graph g (module_tables m) = Inr ()"
    by (auto simp: lower_graph_def and_then_eq_Inr collect_Inr)
  have "fun_id f' = fun_id f \<and> (fun_suspends f' \<longleftrightarrow> fun_id f \<in> suspending_functions m fs) \<and>
      (fun_framed f' \<longleftrightarrow> fun_id f \<in> framed_functions m fs) \<and>
      map con_transition (fun_continuations f') =
        map (mark_transition (suspending_functions m fs)) (map con_transition (fun_continuations f))"
    if "fill_captures (mark_function (suspending_functions m fs) (framed_functions m fs) f) = Inr f'" for f f'
    using fill_captures_keeps [OF that] by (simp add: mark_function_def comp_def)
  with fill have "list_all2 (\<lambda>f f'. fun_id f' = fun_id f \<and> (fun_suspends f' \<longleftrightarrow> fun_id f \<in> suspending_functions m fs) \<and>
      (fun_framed f' \<longleftrightarrow> fun_id f \<in> framed_functions m fs) \<and>
      map con_transition (fun_continuations f') =
        map (mark_transition (suspending_functions m fs)) (map con_transition (fun_continuations f))) fs g"
    by (rule list_all2_mono)
  then show ?thesis using fs valid by (intro that)
qed

lemma list_all2_right:
  "list_all2 P xs ys \<Longrightarrow> y \<in> set ys \<Longrightarrow> \<exists>x \<in> set xs. P x y"
  by (induction rule: list_all2_induct) auto

text \<open>
  C12. The marks of a lowered graph say what they mean. A function suspends exactly when calls
  lead from it to a resumable root or to a function with a suspending call; a function is framed
  exactly when calls lead to it from one that suspends or serves as a callback; and each direct
  call is marked as its callee is.
\<close>

theorem lowered_marks_exact:
  assumes "lower_graph m = Inr g"
  shows "\<exists>fs. gathered_functions m = Inr fs \<and> map fun_id g = map fun_id fs \<and>
    (let calls = (set (call_edges fs))\<^sup>*;
         suspends = (\<lambda>n. \<exists>h. (n, h) \<in> calls \<and> (h \<in> set (module_resumable_roots m) \<or> h \<in> suspending_callers fs))
     in \<forall>f \<in> set g. fun_suspends f = suspends (fun_id f) \<and>
          fun_framed f = (\<exists>h. (h, fun_id f) \<in> calls \<and> (suspends h \<or> h \<in> callback_functions (module_tables m))) \<and>
          (\<forall>c \<in> set (fun_continuations f). \<forall>n s as e w.
             con_transition c = CallOut (CallFunction n) s as e w \<longrightarrow> w = suspends n))"
proof -
  obtain fs where fs: "gathered_functions m = Inr fs" and each: "list_all2 (\<lambda>f f'. fun_id f' = fun_id f \<and>
       (fun_suspends f' \<longleftrightarrow> fun_id f \<in> suspending_functions m fs) \<and>
       (fun_framed f' \<longleftrightarrow> fun_id f \<in> framed_functions m fs) \<and>
       map con_transition (fun_continuations f') =
         map (mark_transition (suspending_functions m fs)) (map con_transition (fun_continuations f))) fs g"
    using assms by (rule lowered_pointwise)
  let ?suspends = "\<lambda>n. \<exists>h. (n, h) \<in> (set (call_edges fs))\<^sup>* \<and> (h \<in> set (module_resumable_roots m) \<or> h \<in> suspending_callers fs)"
  have mem: "n \<in> suspending_functions m fs \<longleftrightarrow> ?suspends n" for n by (simp add: suspending_functions_iff)
  from each have "map fun_id g = map fun_id fs" by (induction rule: list_all2_induct) auto
  moreover have "fun_suspends f = ?suspends (fun_id f) \<and>
      fun_framed f = (\<exists>h. (h, fun_id f) \<in> (set (call_edges fs))\<^sup>* \<and> (?suspends h \<or> h \<in> callback_functions (module_tables m))) \<and>
      (\<forall>c \<in> set (fun_continuations f). \<forall>n s as e w.
         con_transition c = CallOut (CallFunction n) s as e w \<longrightarrow> w = ?suspends n)" if member: "f \<in> set g" for f
  proof -
    from list_all2_right [OF each member] obtain f0 :: graph_function where f0: "fun_id f = fun_id f0" "fun_suspends f \<longleftrightarrow> fun_id f0 \<in> suspending_functions m fs"
        "fun_framed f \<longleftrightarrow> fun_id f0 \<in> framed_functions m fs"
        "map con_transition (fun_continuations f) = map (mark_transition (suspending_functions m fs)) (map con_transition (fun_continuations f0))"
      by (elim bexE conjE)
    have "w = ?suspends n" if c: "c \<in> set (fun_continuations f)" "con_transition c = CallOut (CallFunction n) s as e w" for c n s as e w
    proof -
      from c(1) have "con_transition c \<in> set (map con_transition (fun_continuations f))" by simp
      with c(2) obtain t where "CallOut (CallFunction n) s as e w = mark_transition (suspending_functions m fs) t"
        unfolding f0(4) by auto
      then have "w = (n \<in> suspending_functions m fs)"
        by (cases "(suspending_functions m fs, t)" rule: mark_transition.cases) auto
      then show ?thesis unfolding mem .
    qed
    with f0 show ?thesis by (auto simp: mem framed_functions_iff)
  qed
  ultimately show ?thesis using fs unfolding Let_def by blast
qed

section \<open>Reading a block back\<close>

text \<open>What a block does, one item per operation, and how a run of continuations says it.\<close>

datatype item =
  Computes instruction
| Calls call_target nat "nat list" bool value_definition runtime_span

definition lower_item :: "staged_module \<Rightarrow> staged_operation \<Rightarrow> (graph_fault, item) result" where
  "lower_item m op =
     (if is_call op then
        and_then (lower_call_target m op) (\<lambda>(target, signature, suspends).
          Inr (Calls target signature (sop_operands op) suspends (lower_definition op) (sop_span op)))
      else Inr (Computes (lower_instruction op)))"

definition join_call ::
  "continuation \<Rightarrow> continuation list \<Rightarrow> (item list \<times> transition \<times> runtime_span) option \<Rightarrow>
   (item list \<times> transition \<times> runtime_span) option" where
  "join_call c cs later =
     (case (con_transition c, cs, later) of
        (CallOut target signature arguments e suspends, successor # _, Some (items, t, s)) \<Rightarrow>
          (case con_parameters successor of
             [d] \<Rightarrow>
               if e = \<lparr>edge_target = con_id successor, edge_arguments = [ArgumentResult]\<rparr> then
                 Some (map Computes (con_instructions c) @
                   Calls target signature arguments suspends d (con_span c) # items, t, s)
               else None
           | _ \<Rightarrow> None)
      | _ \<Rightarrow> None)"

fun is_call_transition :: "transition \<Rightarrow> bool" where
  "is_call_transition (CallOut target signature arguments e suspends) = True"
| "is_call_transition t = False"

fun read_block :: "continuation list \<Rightarrow> (item list \<times> transition \<times> runtime_span) option" where
  "read_block [] = None"
| "read_block (c # cs) =
     (if is_call_transition (con_transition c) then join_call c cs (read_block cs)
      else Some (map Computes (con_instructions c), con_transition c, con_span c))"

definition block_at ::
  "staged_module \<Rightarrow> nat \<Rightarrow> (nat \<rightharpoonup> nat) \<Rightarrow> continuation list \<Rightarrow> nat \<Rightarrow> staged_block \<Rightarrow> bool" where
  "block_at m f entries cs k b \<longleftrightarrow> k < length cs \<and>
     con_parameters (cs ! k) = map lower_parameter (block_parameters b) \<and>
     (\<exists>items t s. collect (lower_item m) (block_operations b) = Inr items \<and>
        lower_terminator f entries (block_terminator b) = Inr (t, s) \<and> read_block (drop k cs) = Some (items, t, s))"

lemma join_call_Some:
  assumes "join_call c cs later = Some r"
  obtains successor tail r' where "cs = successor # tail" "later = Some r'"
  using assms by (cases cs; cases later; cases "con_transition c") (simp_all add: join_call_def)

lemma join_call_append: "cs \<noteq> [] \<Longrightarrow> join_call c (cs @ added) later = join_call c cs later"
  by (cases cs; cases later; cases "con_transition c") (simp_all add: join_call_def)

lemma read_block_append: "read_block cs = Some r \<Longrightarrow> read_block (cs @ added) = Some r"
proof (induction cs arbitrary: r)
  case (Cons c cs)
  show ?case
  proof (cases "is_call_transition (con_transition c)")
    case True
    with Cons.prems have join: "join_call c cs (read_block cs) = Some r" by simp
    then obtain successor tail r' where "cs = successor # tail" "read_block cs = Some r'" by (rule join_call_Some)
    with Cons.IH [of r'] join join_call_append [of cs c] True show ?thesis by simp
  qed (use Cons.prems in simp)
qed simp

lemma block_at_append: "block_at m f entries cs k b \<Longrightarrow> block_at m f entries (cs @ added) k b"
  by (auto simp: block_at_def nth_append read_block_append)

lemma lowered_terminator_no_call: "lower_terminator f entries t = Inr (transition, s) \<Longrightarrow> \<not> is_call_transition transition"
  by (cases t) (auto simp: and_then_eq_Inr)

lemma operations_readable:
  assumes "fold_each (lower_operation m) ops (ps, ins, cs) = Inr (ps', ins', cs')"
    "con_parameters c = ps'" "con_instructions c = ins'" "con_id c = length cs'" "\<not> is_call_transition (con_transition c)"
  shows "\<exists>items new. collect (lower_item m) ops = Inr items \<and> cs' = cs @ new \<and> length new = length (filter is_call ops) \<and>
    map con_id (new @ [c]) = [length cs..<Suc (length cs')] \<and> con_parameters (hd (new @ [c])) = ps \<and>
    read_block (new @ [c]) = Some (map Computes ins @ items, con_transition c, con_span c)"
  using assms(1)
proof (induction ops arbitrary: ps ins cs)
  case Nil
  with assms(2-) show ?case by simp
next
  case (Cons op ops)
  show ?case
  proof (cases "is_call op")
    case False
    with Cons.prems have "fold_each (lower_operation m) ops (ps, ins @ [lower_instruction op], cs) = Inr (ps', ins', cs')"
      by (simp add: lower_operation_def [of m op])
    from Cons.IH [OF this] False show ?thesis by (auto simp: lower_item_def)
  next
    case True
    with Cons.prems obtain target signature suspends where target: "lower_call_target m op = Inr (target, signature, suspends)"
      by (auto simp: lower_operation_def [of m op] and_then_eq_Inr)
    let ?c = "\<lparr>con_id = length cs, con_parameters = ps, con_captures = [], con_instructions = ins,
        con_transition = CallOut target signature (sop_operands op)
          \<lparr>edge_target = length cs + 1, edge_arguments = [ArgumentResult]\<rparr> suspends,
        con_span = sop_span op\<rparr>"
    from True target Cons.prems have "fold_each (lower_operation m) ops ([lower_definition op], [], cs @ [?c]) = Inr (ps', ins', cs')"
      by (simp add: lower_operation_def [of m op])
    from Cons.IH [OF this] obtain items new where IH: "collect (lower_item m) ops = Inr items" "cs' = (cs @ [?c]) @ new"
        "length new = length (filter is_call ops)" "map con_id (new @ [c]) = [Suc (length cs)..<Suc (length cs')]"
        "con_parameters (hd (new @ [c])) = [lower_definition op]"
        "read_block (new @ [c]) = Some (items, con_transition c, con_span c)" by auto
    obtain successor tail where tail: "new @ [c] = successor # tail" by (cases new) auto
    with IH(2,4) have "con_id successor = Suc (length cs)" by (simp add: upt_conv_Cons del: upt_Suc)
    with IH(5,6) tail have "read_block (?c # new @ [c]) = Some (map Computes ins @
        Calls target signature (sop_operands op) suspends (lower_definition op) (sop_span op) # items, con_transition c, con_span c)"
      by (simp add: join_call_def)
    moreover have "map con_id (?c # new @ [c]) = [length cs..<Suc (length cs')]"
      using IH(2,4) by (simp add: upt_conv_Cons del: upt_Suc)
    ultimately show ?thesis
      using IH(1-3) True target by (intro exI [of _ "Calls target signature (sop_operands op) suspends (lower_definition op) (sop_span op) # items"]
          exI [of _ "?c # new"]) (simp add: lower_item_def [of m op])
  qed
qed

lemma block_readable:
  assumes "lower_block m f entries b cs = Inr cs'"
  obtains new where "cs' = cs @ new" "map con_id new = [length cs..<length cs']" "block_at m f entries cs' (length cs) b"
    "length new = Suc (length (filter is_call (block_operations b)))"
proof -
  from assms obtain ps ins mid t s where
      ops: "fold_each (lower_operation m) (block_operations b) (map lower_parameter (block_parameters b), [], cs) = Inr (ps, ins, mid)"
      and t: "lower_terminator f entries (block_terminator b) = Inr (t, s)"
      and cs': "cs' = mid @ [\<lparr>con_id = length mid, con_parameters = ps, con_captures = [], con_instructions = ins,
        con_transition = t, con_span = s\<rparr>]"
    by (auto simp: lower_block_def and_then_eq_Inr)
  let ?c = "\<lparr>con_id = length mid, con_parameters = ps, con_captures = [], con_instructions = ins, con_transition = t, con_span = s\<rparr>"
  from operations_readable [OF ops, of ?c] lowered_terminator_no_call [OF t] obtain items new where
      items: "collect (lower_item m) (block_operations b) = Inr items" and new: "mid = cs @ new"
      "length new = length (filter is_call (block_operations b))" "map con_id (new @ [?c]) = [length cs..<Suc (length mid)]"
      "con_parameters (hd (new @ [?c])) = map lower_parameter (block_parameters b)"
      "read_block (new @ [?c]) = Some (items, t, s)"
    by auto
  have "cs' ! length cs = hd (new @ [?c])" "drop (length cs) cs' = new @ [?c]"
    using cs' new(1) by (simp_all add: nth_append hd_append hd_conv_nth)
  then have "block_at m f entries cs' (length cs) b"
    unfolding block_at_def using cs' new items t by auto
  then show ?thesis using cs' new by (intro that [of "new @ [?c]"]) simp_all
qed

lemma place_blocks_extend:
  "fold_each (place_block f) bs (E, n) = Inr (E', n') \<Longrightarrow> E b = Some k \<Longrightarrow> E' b = Some k"
proof (induction bs arbitrary: E n)
  case (Cons a bs)
  from Cons.prems(1) have "E (block_id a) = None"
    and "fold_each (place_block f) bs
      (E(block_id a \<mapsto> n), n + 1 + length (filter is_call (block_operations a))) = Inr (E', n')"
    by (simp_all add: place_block_def [of f a] split: if_splits)
  with Cons.IH Cons.prems(2) show ?case by (metis fun_upd_other option.distinct(1))
qed simp

lemma blocks_readable:
  assumes "fold_each (place_block f) bs (E, length cs) = Inr (E', n)" "fold_each (lower_block m f entries) bs cs = Inr cs'"
  shows "n = length cs' \<and> (\<exists>new. cs' = cs @ new \<and> map con_id new = [length cs..<length cs']) \<and>
    (\<forall>b \<in> set bs. \<exists>k. E' (block_id b) = Some k \<and> block_at m f entries cs' k b)"
  using assms
proof (induction bs arbitrary: E cs)
  case (Cons b bs)
  from Cons.prems(2) obtain mid where b: "lower_block m f entries b cs = Inr mid"
      and rest: "fold_each (lower_block m f entries) bs mid = Inr cs'" by (auto simp: and_then_eq_Inr)
  from block_readable [OF b] obtain new where new: "mid = cs @ new" "map con_id new = [length cs..<length mid]"
      "block_at m f entries mid (length cs) b" "length new = Suc (length (filter is_call (block_operations b)))" .
  from Cons.prems(1) new(1,4) have placed: "fold_each (place_block f) bs (E(block_id b \<mapsto> length cs), length mid) = Inr (E', n)"
    by (simp add: place_block_def [of f b] split: if_splits)
  from Cons.IH [OF placed rest] obtain added where added: "n = length cs'" "cs' = mid @ added"
      "map con_id added = [length mid..<length cs']"
      "\<forall>b \<in> set bs. \<exists>k. E' (block_id b) = Some k \<and> block_at m f entries cs' k b" by blast
  from place_blocks_extend [OF placed] have "E' (block_id b) = Some (length cs)" by simp
  moreover from block_at_append [OF new(3)] added(2) have "block_at m f entries cs' (length cs) b" by simp
  moreover have "map con_id (new @ added) = [length cs..<length cs']"
  proof -
    have "length cs \<le> length mid" "length cs' = length mid + length added" using new(1) added(2) by simp_all
    from upt_add_eq_append [OF this(1), of "length added"] this(2) show ?thesis
      by (simp only: map_append new(2) added(3))
  qed
  moreover have "cs' = cs @ new @ added" using new(1) added(2) by simp
  ultimately show ?case using added(1,4) by (simp only: list.set ball_simps) blast
qed simp


section \<open>Lowering answers\<close>

lemma place_blocks_bound:
  "fold_each (place_block f) bs (E, n) = Inr (E', n') \<Longrightarrow> (\<forall>b k. E b = Some k \<longrightarrow> k < n) \<Longrightarrow>
     \<forall>b k. E' b = Some k \<longrightarrow> k < n'"
proof (induction bs arbitrary: E n)
  case (Cons a bs)
  from Cons.prems(1) have rest: "fold_each (place_block f) bs
      (E(block_id a \<mapsto> n), n + 1 + length (filter is_call (block_operations a))) = Inr (E', n')"
    by (simp add: place_block_def [of f a] split: if_splits)
  show ?case by (rule Cons.IH [OF rest]) (use Cons.prems(2) in \<open>auto split: if_splits simp: less_SucI trans_less_add1\<close>)
qed simp

lemma lowered_shape:
  assumes "lower_function m f = Inr h"
  shows "ids_placed (fun_continuations h)" "fun_entry h < length (fun_continuations h)"
proof -
  from assms obtain entries n entry cs where
      placed: "fold_each (place_block (sfun_id f)) (sfun_blocks f) (Map.empty, 0) = Inr (entries, n)"
      and entry: "entries (sfun_entry_block f) = Some entry"
      and cs: "fold_each (lower_block m (sfun_id f) entries) (sfun_blocks f) [] = Inr cs"
      and h: "fun_entry h = entry" "fun_continuations h = cs"
    by (auto simp: lower_function_def and_then_eq_Inr split: option.splits)
  have "fold_each (place_block (sfun_id f)) (sfun_blocks f) (Map.empty, length ([] :: continuation list)) = Inr (entries, n)"
    using placed by simp
  from blocks_readable [OF this cs] have "n = length cs" "map con_id cs = [0..<length cs]" by auto
  then show "ids_placed (fun_continuations h)" "fun_entry h < length (fun_continuations h)"
    using h entry place_blocks_bound [OF placed] by (auto simp: ids_placed_def)
qed

lemma lower_operation_answered: "answered (lower_operation m op g)"
  by (cases g) (auto simp: lower_operation_def lower_call_target_def callee_signature_def split: option.split)

lemma lower_terminator_answered: "answered (lower_terminator f entries t)"
  by (cases t) (auto simp: lower_edge_def split: option.split intro!: answered_and_then)

lemma lower_function_answered: "answered (lower_function m f)"
proof -
  have "answered (fold_each (place_block n) bs s)" for n bs s
    by (rule answered_fold_each [where I = "\<lambda>_. True"]) (auto simp: place_block_def)
  moreover have "answered (lower_block m n entries b cs)" for n entries b cs
    unfolding lower_block_def
    by (intro answered_and_then answered_fold_each [where I = "\<lambda>_. True"])
      (auto intro: lower_operation_answered lower_terminator_answered answered_and_then)
  then have "answered (fold_each (lower_block m n entries) bs cs)" for n entries bs cs
    by (intro answered_fold_each [where I = "\<lambda>_. True"]) auto
  ultimately show ?thesis unfolding lower_function_def
    by (auto intro!: answered_and_then split: option.split)
qed

lemma fill_captures_answered:
  assumes "ids_placed (fun_continuations f)" "fun_entry f < length (fun_continuations f)"
  shows "answered (fill_captures f)"
proof -
  have "answered (live_inputs f)"
    using live_inputs_cases [OF assms(1)] by (cases "live_inputs f") (auto simp: edge_fault_def)
  moreover have "answered (function_definitions f)"
    unfolding function_definitions_def
    by (rule answered_fold_each [where I = "\<lambda>_. True"]) (auto simp: insert_value_def)
  moreover have "answered (collect (fill_continuation (fun_id f) live defs) (fun_continuations f))"
    if "live_inputs f = Inr live" for live defs
  proof (rule answered_collect)
    fix c assume "c \<in> set (fun_continuations f)"
    with ids_placed_in [OF assms(1)] live_inputs_cases [OF assms(1)] that have "con_id c < length live" by auto
    then show "answered (fill_continuation (fun_id f) live defs c)"
      by (auto simp: fill_continuation_def intro!: answered_and_then answered_collect split: option.split)
  qed
  moreover have "length cs = length (fun_continuations f)"
    if "collect (fill_continuation (fun_id f) live defs) (fun_continuations f) = Inr cs" for live defs cs
    using that by (auto simp: collect_Inr dest: list_all2_lengthD)
  ultimately show ?thesis unfolding fill_captures_def using assms(2)
    by (intro answered_and_then) auto
qed

text \<open>
  C33. Lowering a module without cached functions answers: it returns a validated graph or refuses
  with an error of its own; none of its loops runs forever and no index is out of range.
\<close>

theorem lowering_answers:
  assumes "module_checked m = []"
  shows "case lower_graph m of
      Inl fault \<Rightarrow> fault \<noteq> GraphPanic \<and> fault \<noteq> GraphDiverges
    | Inr g \<Rightarrow> validate_continuation_graph g (module_tables m) = Inr ()"
proof (cases "lower_graph m")
  case (Inr g)
  then show ?thesis by (auto simp: lower_graph_def and_then_eq_Inr)
next
  case (Inl fault)
  have gathered: "answered (gathered_functions m)"
    unfolding gathered_functions_def by (intro answered_and_then answered_collect lower_function_answered) auto
  have "answered (collect (\<lambda>f. fill_captures (mark_function S F f)) fs)" if fs: "gathered_functions m = Inr fs" for fs S F
  proof (rule answered_collect)
    fix f assume "f \<in> set fs"
    with fs assms obtain f0 where "lower_function m f0 = Inr f"
      by (auto simp: gathered_functions_def and_then_eq_Inr collect_Inr dest: list_all2_right)
    from lowered_shape [OF this] show "answered (fill_captures (mark_function S F f))"
      by (intro fill_captures_answered) (simp_all add: mark_function_def ids_placed_def comp_def)
  qed
  moreover have "answered (validate_continuation_graph g (module_tables m))" for g
    by (rule validate_answered)
  ultimately have "answered (lower_graph m)"
    unfolding lower_graph_def using gathered by (intro answered_and_then) auto
  with Inl show ?thesis by (simp add: answered_def)
qed

section \<open>Renumbering\<close>

text \<open>
  \<open>Function::map_types\<close>, \<open>map_signatures\<close> and \<open>map_functions\<close>: every reference of one kind is
  renumbered, those in the metadata of instructions included.
\<close>

definition map_definition_type :: "(nat \<Rightarrow> nat) \<Rightarrow> value_definition \<Rightarrow> value_definition" where
  "map_definition_type r d = d\<lparr>def_type := r (def_type d)\<rparr>"

definition map_types :: "(nat \<Rightarrow> nat) \<Rightarrow> graph_function \<Rightarrow> graph_function" where
  "map_types r f =
     f\<lparr>fun_continuations := map (\<lambda>c.
       c\<lparr>con_parameters := map (map_definition_type r) (con_parameters c),
         con_captures := map (map_definition_type r) (con_captures c),
         con_instructions :=
           map (\<lambda>i. i\<lparr>ins_definition := map_definition_type r (ins_definition i)\<rparr>) (con_instructions c)\<rparr>) (fun_continuations f)\<rparr>"

fun map_call_signature :: "(nat \<Rightarrow> nat) \<Rightarrow> transition \<Rightarrow> transition" where
  "map_call_signature r (CallOut target s as e w) = CallOut target (r s) as e w"
| "map_call_signature r t = t"

definition map_signatures :: "(nat \<Rightarrow> nat) \<Rightarrow> graph_function \<Rightarrow> graph_function" where
  "map_signatures r f =
     f\<lparr>fun_signature := r (fun_signature f),
       fun_continuations := map (\<lambda>c.
         c\<lparr>con_instructions := map (\<lambda>i. i\<lparr>ins_operation := (ins_operation i)
               \<lparr>op_signature := map_option r (op_signature (ins_operation i))\<rparr>\<rparr>) (con_instructions c),
           con_transition := map_call_signature r (con_transition c)\<rparr>) (fun_continuations f)\<rparr>"

fun map_callee :: "(nat \<Rightarrow> nat) \<Rightarrow> transition \<Rightarrow> transition" where
  "map_callee r (CallOut (CallFunction n) s as e w) = CallOut (CallFunction (r n)) s as e w"
| "map_callee r t = t"

definition map_functions :: "(nat \<Rightarrow> nat) \<Rightarrow> graph_function \<Rightarrow> graph_function" where
  "map_functions r f =
     f\<lparr>fun_id := r (fun_id f),
       fun_continuations := map (\<lambda>c.
         c\<lparr>con_instructions := map (\<lambda>i. i\<lparr>ins_operation := (ins_operation i)
               \<lparr>op_function := map_option r (op_function (ins_operation i))\<rparr>\<rparr>) (con_instructions c),
           con_transition := map_callee r (con_transition c)\<rparr>) (fun_continuations f)\<rparr>"

text \<open>
  Renumbering twice is renumbering once by the composition; a cached function renumbered there
  and back is the function itself.
\<close>

lemma map_call_signature_comp: "map_call_signature r (map_call_signature q t) = map_call_signature (r \<circ> q) t"
  by (cases t) auto

lemma map_callee_comp: "map_callee r (map_callee q t) = map_callee (r \<circ> q) t"
  by (cases "(q, t)" rule: map_callee.cases) auto

lemma map_types_comp: "map_types r (map_types q f) = map_types (r \<circ> q) f"
  by (simp add: map_types_def map_definition_type_def comp_def)

lemma map_signatures_comp: "map_signatures r (map_signatures q f) = map_signatures (r \<circ> q) f"
  by (simp add: map_signatures_def map_call_signature_comp option.map_comp)

lemma map_functions_comp: "map_functions r (map_functions q f) = map_functions (r \<circ> q) f"
  by (simp add: map_functions_def map_callee_comp option.map_comp)

lemma call_edges_renumbered:
  "call_edges (map (map_functions r) fs) = map (map_prod r r) (call_edges fs)"
proof -
  have callee: "called_function (map_callee r t) = map_option r (called_function t)" for t
    by (cases "(r, t)" rule: map_callee.cases) auto
  have "List.map_filter (\<lambda>c. map_option (\<lambda>n. (r k, n)) (called_function (con_transition c)))
        (map (\<lambda>c. c\<lparr>con_instructions := I c, con_transition := map_callee r (con_transition c)\<rparr>) cs) =
      map (map_prod r r) (List.map_filter (\<lambda>c. map_option (\<lambda>n. (k, n)) (called_function (con_transition c))) cs)" for I k cs
    by (induction cs) (auto simp: callee List.map_filter_simps split: option.split)
  note filtered = this
  show ?thesis by (induction fs) (simp_all add: call_edges_def map_functions_def filtered)
qed

section \<open>A small module\<close>

text \<open>Function 0 calls function 1, which asks its host and may suspend there.\<close>

definition sample_operation :: "string \<Rightarrow> nat \<Rightarrow> nat list \<Rightarrow> staged_operation" where
  "sample_operation kind result operands =
     \<lparr>sop_kind = kind, sop_result = result, sop_type = 0, sop_operands = operands, sop_ownership = ''plain'',
      sop_span = sample_span, sop_value = None, sop_update = None, sop_case = None, sop_capability = Some ''console'',
      sop_operation = Some ''ask'', sop_operator = None, sop_conversion = None, sop_lane = None, sop_field = None,
      sop_function = Some 1, sop_signature = None, sop_static_store = None\<rparr>"

definition sample_function :: "nat \<Rightarrow> string \<Rightarrow> staged_function" where
  "sample_function n kind =
     \<lparr>sfun_id = n, sfun_name = ''f'', sfun_signature = 0, sfun_reuse = None, sfun_entry_block = 0,
      sfun_blocks =
        [\<lparr>block_id = 0,
          block_parameters = [\<lparr>spar_value = 0, spar_type = 0, spar_ownership = ''plain'', spar_span = sample_span\<rparr>],
          block_operations = [sample_operation kind 1 [0]], block_terminator = StagedReturn 1 sample_span\<rparr>],
      sfun_span = sample_span\<rparr>"

definition sample_staged :: staged_module where
  "sample_staged =
     runtime_tables.extend sample_tables
       \<lparr>module_functions = [sample_function 0 ''call.direct'', sample_function 1 ''host.call''], module_checked = [],
        module_resumable_roots = []\<rparr>"

lemma sample_staged_lowered:
  "map_sum id (map (\<lambda>f. (fun_id f, fun_suspends f, fun_framed f))) (lower_graph sample_staged) =
     Inr [(0, True, True), (1, True, True)]"
  by code_simp

lemma sample_staged_graph:
  obtains g where "lower_graph sample_staged = Inr g" "map fun_id g = [0, 1]" "map fun_suspends g = [True, True]"
proof -
  obtain g where g: "lower_graph sample_staged = Inr g"
      "map (\<lambda>f. (fun_id f, fun_suspends f, fun_framed f)) g = [(0, True, True), (1, True, True)]"
    using sample_staged_lowered by (cases "lower_graph sample_staged") auto
  then show ?thesis by (intro that [of g]) (auto simp: map_eq_Cons_conv)
qed

theorem lowered_marks_exact_witness:
  "\<exists>g fs. lower_graph sample_staged = Inr g \<and> gathered_functions sample_staged = Inr fs \<and> map fun_id fs = [0, 1] \<and>
     (\<exists>h. (0, h) \<in> (set (call_edges fs))\<^sup>* \<and> (h \<in> set (module_resumable_roots sample_staged) \<or> h \<in> suspending_callers fs))"
proof -
  obtain g where g: "lower_graph sample_staged = Inr g" "map fun_id g = [0, 1]" "map fun_suspends g = [True, True]"
    by (rule sample_staged_graph)
  then obtain f rest where f: "g = f # rest" "fun_id f = 0" "fun_suspends f" by (cases g) auto
  then have member: "f \<in> set g" by simp
  from lowered_marks_exact [OF g(1)] obtain fs where fs: "gathered_functions sample_staged = Inr fs" "map fun_id g = map fun_id fs"
      and marks: "\<forall>f \<in> set g. fun_suspends f = (\<exists>h. (fun_id f, h) \<in> (set (call_edges fs))\<^sup>* \<and>
        (h \<in> set (module_resumable_roots sample_staged) \<or> h \<in> suspending_callers fs))"
    unfolding Let_def by blast
  from bspec [OF marks member] f(2,3) have "\<exists>h. (0, h) \<in> (set (call_edges fs))\<^sup>* \<and>
      (h \<in> set (module_resumable_roots sample_staged) \<or> h \<in> suspending_callers fs)" by simp
  moreover have "map fun_id fs = [0, 1]" using fs(2) g(2) by simp
  ultimately show ?thesis using g(1) fs(1) by (intro exI [of _ g] exI [of _ fs] conjI)
qed

theorem lowering_answers_witness:
  "\<exists>g. lower_graph sample_staged = Inr g \<and> validate_continuation_graph g (module_tables sample_staged) = Inr ()"
proof -
  obtain g where g: "lower_graph sample_staged = Inr g" by (rule sample_staged_graph)
  have "module_checked sample_staged = []" by (simp add: sample_staged_def runtime_tables.defs)
  from lowering_answers [OF this] g show ?thesis by simp
qed

lemma sample_function_lowered:
  "map_sum id (\<lambda>h. length (fun_continuations h)) (lower_function sample_staged (sample_function 0 ''call.direct'')) = Inr 2"
  by code_simp


end
