(* ===== verification/Lexer.thy ===== *)
theory Lexer
  imports BlotPrelude
begin

text \<open>
  The lexer of the front end (\<open>compiler/src/frontend.rs\<close>): the loop that runs the tables a generator
  writes into \<open>frontend_plan.rs\<close>, and what its tokens are: the longest matches of the automaton. The
  tables are an argument. A failed \<open>expect\<close>, a failed \<open>assert\<close> and an index out of range are
  \<open>FrontendPanic\<close>.
\<close>

section \<open>Tables, tokens and diagnostics\<close>

record lexer_tables =
  state_count :: nat
  start_state :: nat
  ascii_transitions :: "int list"
  transition_rows :: "int list"
  transition_triples :: "int list"
  accept_spec_by_state :: "int list"

record token =
  tok_terminal :: int
  tok_start :: nat
  tok_end :: nat
  tok_identity :: int
  tok_index :: nat
  tok_dependency :: nat

text \<open>The diagnostics of the front end, with their span and what their message names.\<close>

datatype frontend_diagnostic =
  LexicalError nat nat "16 word"
| MalformedDelimiter nat nat int int
| SyntaxError nat nat nat

datatype frontend_fault =
  FrontendPanic
| FrontendDiverges
| Rejected "frontend_diagnostic list"

fun diagnostic_start :: "frontend_diagnostic \<Rightarrow> nat" where
  "diagnostic_start (LexicalError s e u) = s"
| "diagnostic_start (MalformedDelimiter s e expected received) = s"
| "diagnostic_start (SyntaxError s e island) = s"

text \<open>The rank of a diagnostic's code in the alphabetical order of codes.\<close>

fun diagnostic_rank :: "frontend_diagnostic \<Rightarrow> nat" where
  "diagnostic_rank (LexicalError s e u) = 0"
| "diagnostic_rank (MalformedDelimiter s e expected received) = 1"
| "diagnostic_rank (SyntaxError s e island) = 2"

definition sort_diagnostics :: "frontend_diagnostic list \<Rightarrow> frontend_diagnostic list" where
  "sort_diagnostics ds = sort_key (\<lambda>d. 3 * diagnostic_start d + diagnostic_rank d) ds"

section \<open>The automaton\<close>

text \<open>\<open>xs[i]\<close>, and the conversion of an \<open>i32\<close> of a table to \<open>usize\<close>.\<close>

definition index_at :: "'a list \<Rightarrow> nat \<Rightarrow> (frontend_fault, 'a) result" where
  "index_at xs i = (if i < length xs then Inr (xs ! i) else Inl FrontendPanic)"

definition table_index :: "int \<Rightarrow> nat" where
  "table_index n = nat (n mod 2 ^ 64)"

text \<open>\<open>source_code_point\<close>: a code point and its width, where a surrogate pair counts as one.\<close>

definition source_code_point :: "16 word list \<Rightarrow> nat \<Rightarrow> int \<times> nat" where
  "source_code_point source position =
     (let first = uint (source ! position)
      in if 0xd800 \<le> first \<and> first \<le> 0xdbff \<and> position + 1 < length source \<and>
            0xdc00 \<le> uint (source ! (position + 1)) \<and> uint (source ! (position + 1)) \<le> 0xdfff
         then (0x10000 + (first - 0xd800) * 2 ^ 10 + (uint (source ! (position + 1)) - 0xdc00), 2)
         else (first, 1))"

definition transition_target :: "int \<Rightarrow> nat option" where
  "transition_target target = (if target < 0 then None else Some (nat target))"

text \<open>The search of the rows of ranges, from \<open>low\<close> up to \<open>high\<close>.\<close>

function search_ranges :: "int list \<Rightarrow> int \<Rightarrow> nat \<Rightarrow> nat \<Rightarrow> (frontend_fault, nat option) result" where
  "search_ranges triples code_point low high =
     (if low \<ge> high then Inr None
      else
        and_then (index_at triples (low * 3)) (\<lambda>from_point.
        and_then (index_at triples (low * 3 + 1)) (\<lambda>to_point.
          if from_point \<le> code_point \<and> code_point \<le> to_point then
            and_then (index_at triples (low * 3 + 2)) (\<lambda>target. Inr (transition_target target))
          else search_ranges triples code_point (low + 1) high)))"
  by pat_completeness auto
termination search_ranges by (relation "measure (\<lambda>(triples, code_point, low, high). high - low)") auto

declare search_ranges.simps [simp del]

definition lexer_transition :: "lexer_tables \<Rightarrow> nat \<Rightarrow> int \<Rightarrow> (frontend_fault, nat option) result" where
  "lexer_transition lx state code_point =
     (if state \<ge> state_count lx then Inl FrontendPanic
      else if 0 \<le> code_point \<and> code_point < 128 then
        and_then (index_at (ascii_transitions lx) (state * 128 + nat code_point)) (\<lambda>target.
          Inr (transition_target target))
      else
        and_then (index_at (transition_rows lx) state) (\<lambda>low.
        and_then (index_at (transition_rows lx) (state + 1)) (\<lambda>high.
          search_ranges (transition_triples lx) code_point (table_index low) (table_index high))))"

section \<open>Tokens\<close>

text \<open>
  The loop of \<open>lex_at\<close>: the end and specification accepted last, and how far the source was read.
\<close>

lemma source_code_point_width: "snd (source_code_point source position) \<in> {1, 2}"
  by (auto simp: source_code_point_def Let_def)

lemma width_positive: "(code_point, width) = source_code_point source position \<Longrightarrow> width > 0"
  using source_code_point_width [of source position] by (metis insertE less_numeral_extra(1) singletonD snd_conv zero_less_numeral)

lemma source_code_point_inside:
  "source_code_point source position = (code_point, width) \<Longrightarrow> position < length source \<Longrightarrow>
   position + width \<le> length source"
  by (auto simp: source_code_point_def Let_def split: if_splits)

function lex_scan ::
  "lexer_tables \<Rightarrow> 16 word list \<Rightarrow> nat \<Rightarrow> nat \<Rightarrow> (nat \<times> nat) option \<Rightarrow> nat \<Rightarrow>
   (frontend_fault, (nat \<times> nat) option \<times> nat) result" where
  "lex_scan lx source state cursor accepted dependency =
     (if cursor \<ge> length source then Inr (accepted, dependency)
      else
        (let (code_point, width) = source_code_point source cursor;
             dependency = cursor + width
         in and_then (lexer_transition lx state code_point) (\<lambda>step.
              case step of
                None \<Rightarrow> Inr (accepted, dependency)
              | Some target \<Rightarrow>
                  and_then (index_at (accept_spec_by_state lx) target) (\<lambda>spec.
                    lex_scan lx source target (cursor + width)
                      (if spec \<ge> 0 then Some (cursor + width, nat spec) else accepted) dependency))))"
  by pat_completeness auto
termination lex_scan
proof (relation "measure (\<lambda>(lx, source, state, cursor, accepted, dependency). length source - cursor)", goal_cases)
  case (2 lx source state cursor accepted dependency p code_point width dependency' target spec)
  with width_positive have "width > 0" by blast
  with 2(1) show ?case by (auto simp: not_le)
qed simp

declare lex_scan.simps [simp del]

datatype lexed = Lexed token | Unlexed frontend_diagnostic nat

text \<open>\<open>source_span\<close>: a span has 32-bit ends.\<close>

definition source_span :: "nat \<Rightarrow> nat \<Rightarrow> (frontend_fault, unit) result" where
  "source_span s e = ensure (int s < 2 ^ 32 \<and> int e < 2 ^ 32) FrontendPanic"

text \<open>\<open>lex_at\<close>.\<close>

definition lex_at ::
  "lexer_tables \<Rightarrow> int list \<Rightarrow> 16 word list \<Rightarrow> nat \<Rightarrow> nat \<Rightarrow> (frontend_fault, lexed) result" where
  "lex_at lx classes source position output_index =
     and_then (lex_scan lx source (start_state lx) position None position) (\<lambda>(accepted, dependency).
       case accepted of
         None \<Rightarrow>
           (let next_position = position + snd (source_code_point source position)
            in and_then (source_span position next_position) (\<lambda>_.
                 Inr (Unlexed (LexicalError position next_position (source ! position)) next_position)))
       | Some (e, spec) \<Rightarrow>
           and_then (index_at classes spec) (\<lambda>terminal.
             Inr (Lexed \<lparr>tok_terminal = terminal, tok_start = position, tok_end = e, tok_identity = int spec,
               tok_index = output_index, tok_dependency = dependency\<rparr>)))"

text \<open>The three ways an iteration goes.\<close>

lemma lex_scan_cases:
  assumes "lex_scan lx source state cursor accepted dependency = Inr (result, reached)"
  obtains (stop) "cursor \<ge> length source" "result = accepted" "reached = dependency"
  | (stuck) code_point width where "cursor < length source" "source_code_point source cursor = (code_point, width)"
      "lexer_transition lx state code_point = Inr None" "result = accepted" "reached = cursor + width"
  | (step) code_point width target spec where "cursor < length source"
      "source_code_point source cursor = (code_point, width)" "width > 0" "cursor + width \<le> length source"
      "lexer_transition lx state code_point = Inr (Some target)" "index_at (accept_spec_by_state lx) target = Inr spec"
      "lex_scan lx source target (cursor + width) (if spec \<ge> 0 then Some (cursor + width, nat spec) else accepted)
        (cursor + width) = Inr (result, reached)"
proof (cases "cursor \<ge> length source")
  case True
  with assms have "result = accepted" "reached = dependency" by (simp_all add: lex_scan.simps)
  with True show ?thesis by (rule stop)
next
  case False
  obtain code_point width where point: "source_code_point source cursor = (code_point, width)" by force
  from assms False point obtain next' where transition: "lexer_transition lx state code_point = Inr next'"
      and rest: "(case next' of None \<Rightarrow> Inr (accepted, cursor + width)
        | Some target \<Rightarrow> and_then (index_at (accept_spec_by_state lx) target) (\<lambda>spec.
            lex_scan lx source target (cursor + width) (if spec \<ge> 0 then Some (cursor + width, nat spec) else accepted)
              (cursor + width))) = Inr (result, reached)"
    unfolding lex_scan.simps [of lx source state cursor accepted dependency] by (auto simp: and_then_eq_Inr Let_def)
  show ?thesis
  proof (cases next')
    case None
    with rest transition show ?thesis by (intro stuck [OF _ point]) (use False in auto)
  next
    case (Some target)
    from rest [unfolded Some option.case, unfolded and_then_eq_Inr] obtain spec where
        "index_at (accept_spec_by_state lx) target = Inr spec"
        "lex_scan lx source target (cursor + width) (if spec \<ge> 0 then Some (cursor + width, nat spec) else accepted)
          (cursor + width) = Inr (result, reached)" by blast
    with transition [unfolded Some] point False show ?thesis
      by (intro step [OF _ point]) (auto simp: width_positive [of _ _ source cursor] source_code_point_inside)
  qed
qed

lemma lex_scan_accepted:
  assumes "lex_scan lx source state cursor accepted dependency = Inr (result, reached)"
  shows "result = accepted \<or> (\<exists>e spec. result = Some (e, spec) \<and> cursor < e \<and> e \<le> length source)"
  using assms
proof (induction "length source - cursor" arbitrary: state cursor accepted dependency rule: less_induct)
  case less
  from less.prems show ?case
  proof (cases rule: lex_scan_cases)
    case (step code_point width target spec)
    from step(1,3) have "length source - (cursor + width) < length source - cursor" by simp
    from less.hyps [OF this step(7)] step(3,4) show ?thesis by (auto split: if_splits)
  qed auto
qed

lemma lex_at_advances:
  assumes "lex_at lx classes source position output_index = Inr r" "position < length source"
  shows "case r of Lexed t \<Rightarrow> tok_start t = position \<and> position < tok_end t \<and> tok_end t \<le> length source \<and> tok_index t = output_index
    | Unlexed d next_position \<Rightarrow> position < next_position"
proof -
  from assms(1) obtain accepted dependency where
      scan: "lex_scan lx source (start_state lx) position None position = Inr (accepted, dependency)"
      and r: "(case accepted of
         None \<Rightarrow>
           (let next_position = position + snd (source_code_point source position)
            in and_then (source_span position next_position) (\<lambda>_.
                 Inr (Unlexed (LexicalError position next_position (source ! position)) next_position)))
       | Some (e, spec) \<Rightarrow>
           and_then (index_at classes spec) (\<lambda>terminal.
             Inr (Lexed \<lparr>tok_terminal = terminal, tok_start = position, tok_end = e, tok_identity = int spec,
               tok_index = output_index, tok_dependency = dependency\<rparr>))) = Inr r"
    by (auto simp: lex_at_def and_then_eq_Inr)
  from lex_scan_accepted [OF scan] r source_code_point_width [of source position] show ?thesis
    by (auto simp: Let_def and_then_eq_Inr split: option.splits)
qed

text \<open>\<open>lex_from\<close>: the tokens and the lexical errors from a position on.\<close>

function lex_from ::
  "lexer_tables \<Rightarrow> int list \<Rightarrow> 16 word list \<Rightarrow> nat \<Rightarrow> nat \<Rightarrow>
   (frontend_fault, token list \<times> frontend_diagnostic list) result" where
  "lex_from lx classes source position output_index =
     (if position \<ge> length source then Inr ([], [])
      else
        and_then (lex_at lx classes source position output_index) (\<lambda>r.
          case r of
            Lexed t \<Rightarrow>
              and_then (lex_from lx classes source (tok_end t) (output_index + 1)) (\<lambda>(ts, ds). Inr (t # ts, ds))
          | Unlexed d next_position \<Rightarrow>
              and_then (lex_from lx classes source next_position output_index) (\<lambda>(ts, ds). Inr (ts, d # ds))))"
  by pat_completeness auto
termination lex_from
proof (relation "measure (\<lambda>(lx, classes, source, position, output_index). length source - position)", goal_cases)
  case (2 lx classes source position output_index r t)
  from lex_at_advances [OF 2(2)] 2(1,3) show ?case by (auto simp: not_le)
next
  case (3 lx classes source position output_index r d next_position)
  from lex_at_advances [OF 3(2)] 3(1,3) show ?case by (auto simp: not_le)
qed simp

declare lex_from.simps [simp del]

text \<open>The three ways an iteration of \<open>lex_from\<close> goes.\<close>

lemma lex_from_cases:
  assumes "lex_from lx classes source position i = Inr (ts, ds)"
  obtains (stop) "position \<ge> length source" "ts = []" "ds = []"
  | (token) t ts' where "position < length source" "lex_at lx classes source position i = Inr (Lexed t)"
      "tok_start t = position" "position < tok_end t" "tok_end t \<le> length source"
      "length source - tok_end t < length source - position"
      "lex_from lx classes source (tok_end t) (i + 1) = Inr (ts', ds)" "ts = t # ts'"
  | (error) d next_position ds' where "position < length source"
      "lex_at lx classes source position i = Inr (Unlexed d next_position)" "position < next_position"
      "length source - next_position < length source - position"
      "lex_from lx classes source next_position i = Inr (ts, ds')" "ds = d # ds'"
proof (cases "position \<ge> length source")
  case True
  from assms have "Inr (ts, ds) = (Inr ([], []) :: (frontend_fault, token list \<times> frontend_diagnostic list) result)"
    unfolding lex_from.simps [of lx classes source position i] using True by simp
  with True show ?thesis by (intro stop) auto
next
  case False
  then have inside: "position < length source" by simp
  have "and_then (lex_at lx classes source position i) (\<lambda>r. case r of
            Lexed t \<Rightarrow>
              and_then (lex_from lx classes source (tok_end t) (i + 1)) (\<lambda>(ts, ds). Inr (t # ts, ds))
          | Unlexed d next_position \<Rightarrow>
              and_then (lex_from lx classes source next_position i) (\<lambda>(ts, ds). Inr (ts, d # ds))) = Inr (ts, ds)"
    using assms unfolding lex_from.simps [of lx classes source position i] if_not_P [OF False] .
  then obtain r where r: "lex_at lx classes source position i = Inr r"
    and rest: "(case r of
            Lexed t \<Rightarrow>
              and_then (lex_from lx classes source (tok_end t) (i + 1)) (\<lambda>(ts, ds). Inr (t # ts, ds))
          | Unlexed d next_position \<Rightarrow>
              and_then (lex_from lx classes source next_position i) (\<lambda>(ts, ds). Inr (ts, d # ds))) = Inr (ts, ds)"
    by (rule and_then_InrE)
  note here = lex_at_advances [OF r inside]
  show ?thesis
  proof (cases r)
    case (Lexed t)
    with rest obtain ts' where "lex_from lx classes source (tok_end t) (i + 1) = Inr (ts', ds)" "ts = t # ts'"
      by (auto elim!: and_then_InrE)
    moreover from here Lexed inside have "tok_start t = position" "position < tok_end t" "tok_end t \<le> length source"
        "length source - tok_end t < length source - position" by auto
    ultimately show ?thesis using r Lexed inside by (intro token) auto
  next
    case (Unlexed d next_position)
    with rest obtain ds' where "lex_from lx classes source next_position i = Inr (ts, ds')" "ds = d # ds'"
      by (auto elim!: and_then_InrE)
    moreover from here Unlexed inside have "position < next_position"
        "length source - next_position < length source - position" by auto
    ultimately show ?thesis using r Unlexed inside by (intro error) auto
  qed
qed

definition lex_source :: "lexer_tables \<Rightarrow> int list \<Rightarrow> 16 word list \<Rightarrow> (frontend_fault, token list) result" where
  "lex_source lx classes source =
     and_then (lex_from lx classes source 0 0) (\<lambda>(tokens, diagnostics).
       if sort_diagnostics diagnostics = [] then Inr tokens else Inl (Rejected (sort_diagnostics diagnostics)))"

text \<open>One iteration of the scan, forwards.\<close>

lemma lex_scan_next:
  assumes "cursor < length source" "source_code_point source cursor = (code_point, width)"
    "lexer_transition lx state code_point = Inr (Some target)" "index_at (accept_spec_by_state lx) target = Inr spec"
  shows "lex_scan lx source state cursor accepted dependency =
    lex_scan lx source target (cursor + width) (if spec \<ge> 0 then Some (cursor + width, nat spec) else accepted) (cursor + width)"
  unfolding lex_scan.simps [of lx source state cursor accepted dependency] using assms by (simp add: Let_def)

lemma lex_scan_last:
  assumes "cursor < length source" "source_code_point source cursor = (code_point, width)"
    "lexer_transition lx state code_point = Inr None"
  shows "lex_scan lx source state cursor accepted dependency = Inr (accepted, cursor + width)"
  unfolding lex_scan.simps [of lx source state cursor accepted dependency] using assms by (simp add: Let_def)

section \<open>Longest matches\<close>

text \<open>
  \<open>reads lx source state p final q\<close>: reading the code points from \<open>p\<close> to \<open>q\<close> takes the automaton from
  \<open>state\<close> to \<open>final\<close>.
\<close>

inductive reads :: "lexer_tables \<Rightarrow> 16 word list \<Rightarrow> nat \<Rightarrow> nat \<Rightarrow> nat \<Rightarrow> nat \<Rightarrow> bool"
  for lx source where
  reads_none: "reads lx source state p state p"
| reads_one: "p < length source \<Longrightarrow> source_code_point source p = (code_point, width) \<Longrightarrow>
    lexer_transition lx state code_point = Inr (Some target) \<Longrightarrow> reads lx source target (p + width) final q \<Longrightarrow>
    reads lx source state p final q"

inductive_cases reads_cases: "reads lx source state p final q"

definition accepts :: "lexer_tables \<Rightarrow> nat \<Rightarrow> nat \<Rightarrow> bool" where
  "accepts lx state spec \<longleftrightarrow> state < length (accept_spec_by_state lx) \<and>
     accept_spec_by_state lx ! state \<ge> 0 \<and> nat (accept_spec_by_state lx ! state) = spec"

text \<open>A nonempty match of specification \<open>spec\<close> from state \<open>state\<close>, between \<open>p\<close> and \<open>q\<close>, and one that no match exceeds.\<close>

definition matches_from :: "lexer_tables \<Rightarrow> 16 word list \<Rightarrow> nat \<Rightarrow> nat \<Rightarrow> nat \<Rightarrow> nat \<Rightarrow> bool" where
  "matches_from lx source state p q spec \<longleftrightarrow> p < q \<and> (\<exists>final. reads lx source state p final q \<and> accepts lx final spec)"

definition longest_match :: "lexer_tables \<Rightarrow> 16 word list \<Rightarrow> nat \<Rightarrow> nat \<Rightarrow> nat \<Rightarrow> bool" where
  "longest_match lx source p q spec \<longleftrightarrow> matches_from lx source (start_state lx) p q spec \<and>
     (\<forall>q' spec'. matches_from lx source (start_state lx) p q' spec' \<longrightarrow> q' \<le> q)"

lemma reads_forward: "reads lx source state p final q \<Longrightarrow> p \<le> q"
  by (induction rule: reads.induct) simp_all

lemma reads_step:
  assumes "p < length source" "source_code_point source p = (code_point, width)"
    "lexer_transition lx state code_point = Inr (Some target)"
  shows "reads lx source state p final q \<longleftrightarrow> (q = p \<and> final = state) \<or> reads lx source target (p + width) final q"
proof
  assume "reads lx source state p final q"
  then show "(q = p \<and> final = state) \<or> reads lx source target (p + width) final q"
    by (rule reads_cases) (use assms in auto)
next
  assume "(q = p \<and> final = state) \<or> reads lx source target (p + width) final q"
  then show "reads lx source state p final q" using assms by (auto intro: reads.intros)
qed

lemma reads_stuck:
  assumes "p \<ge> length source \<or> lexer_transition lx state (fst (source_code_point source p)) = Inr None"
  shows "reads lx source state p final q \<longleftrightarrow> q = p \<and> final = state"
proof
  assume "reads lx source state p final q"
  then show "q = p \<and> final = state" by (rule reads_cases) (use assms in auto)
qed (auto intro: reads.intros)

lemma reads_stay: "reads lx source state p final p \<longleftrightarrow> final = state"
proof
  assume "reads lx source state p final p"
  then show "final = state"
  proof (rule reads_cases)
    fix code_point width target
    assume "source_code_point source p = (code_point, width)" "reads lx source target (p + width) final p"
    with width_positive [of code_point width source p] reads_forward show ?thesis by fastforce
  qed simp
qed (auto intro: reads.intros)

lemma matches_from_step:
  assumes "p < length source" "source_code_point source p = (code_point, width)"
    "lexer_transition lx state code_point = Inr (Some target)"
  shows "matches_from lx source state p q spec \<longleftrightarrow>
    (q = p + width \<and> accepts lx target spec) \<or> matches_from lx source target (p + width) q spec"
  using width_positive [of code_point width source p, OF assms(2) [symmetric]]
  by (auto simp: matches_from_def reads_step [OF assms] reads_stay dest: reads_forward)
     (metis le_neq_implies_less reads_forward reads_stay)

lemma matches_from_stuck:
  assumes "p \<ge> length source \<or> lexer_transition lx state (fst (source_code_point source p)) = Inr None"
  shows "\<not> matches_from lx source state p q spec"
  using reads_stuck [OF assms] by (auto simp: matches_from_def)

text \<open>
  The scan keeps the last accepted end: its result is a match that no other match from the state
  exceeds, or what was accepted before when there is none.
\<close>

lemma lex_scan_longest:
  assumes "lex_scan lx source state cursor accepted dependency = Inr (result, reached)"
  shows "(result = accepted \<and> (\<forall>q spec. \<not> matches_from lx source state cursor q spec)) \<or>
    (\<exists>q spec. result = Some (q, spec) \<and> matches_from lx source state cursor q spec \<and>
      (\<forall>q' spec'. matches_from lx source state cursor q' spec' \<longrightarrow> q' \<le> q))"
  using assms
proof (induction "length source - cursor" arbitrary: state cursor accepted dependency rule: less_induct)
  case less
  from less.prems show ?case
  proof (cases rule: lex_scan_cases)
    case (step code_point width target spec)
    from step(1,3) have "length source - (cursor + width) < length source - cursor" by simp
    note IH = less.hyps [OF this step(7)]
    note steps = matches_from_step [OF step(1,2,5)]
    from step(6) have here: "accepts lx target s \<longleftrightarrow> spec \<ge> 0 \<and> s = nat spec" for s
      by (auto simp: accepts_def index_at_def split: if_splits)
    from IH show ?thesis
    proof (elim disjE)
      assume "result = (if spec \<ge> 0 then Some (cursor + width, nat spec) else accepted) \<and>
        (\<forall>q spec. \<not> matches_from lx source target (cursor + width) q spec)"
      then show ?thesis by (cases "spec \<ge> 0") (simp_all add: steps here)
    next
      assume "\<exists>q spec. result = Some (q, spec) \<and> matches_from lx source target (cursor + width) q spec \<and>
        (\<forall>q' spec'. matches_from lx source target (cursor + width) q' spec' \<longrightarrow> q' \<le> q)"
      then obtain q s where best: "result = Some (q, s)" "matches_from lx source target (cursor + width) q s"
          "\<And>q' s'. matches_from lx source target (cursor + width) q' s' \<Longrightarrow> q' \<le> q" by blast
      then have "cursor + width \<le> q" by (simp add: matches_from_def)
      with best show ?thesis by (auto simp: steps)
    qed
  qed (use matches_from_stuck in auto)
qed

text \<open>What \<open>lex_at\<close> returns.\<close>

lemma lex_at_longest:
  assumes "lex_at lx classes source position output_index = Inr r" "position < length source"
  shows "case r of
      Lexed t \<Rightarrow> tok_start t = position \<and> tok_index t = output_index \<and> 0 \<le> tok_identity t \<and>
        longest_match lx source position (tok_end t) (nat (tok_identity t)) \<and>
        tok_terminal t = classes ! nat (tok_identity t)
    | Unlexed d next_position \<Rightarrow> next_position = position + snd (source_code_point source position) \<and>
        d = LexicalError position next_position (source ! position) \<and>
        (\<forall>q spec. \<not> matches_from lx source (start_state lx) position q spec)"
proof -
  from assms(1) obtain accepted dependency where
      scan: "lex_scan lx source (start_state lx) position None position = Inr (accepted, dependency)"
      and r: "(case accepted of
         None \<Rightarrow>
           (let next_position = position + snd (source_code_point source position)
            in and_then (source_span position next_position) (\<lambda>_.
                 Inr (Unlexed (LexicalError position next_position (source ! position)) next_position)))
       | Some (e, spec) \<Rightarrow>
           and_then (index_at classes spec) (\<lambda>terminal.
             Inr (Lexed \<lparr>tok_terminal = terminal, tok_start = position, tok_end = e, tok_identity = int spec,
               tok_index = output_index, tok_dependency = dependency\<rparr>))) = Inr r"
    by (auto simp: lex_at_def and_then_eq_Inr)
  from lex_scan_longest [OF scan] r show ?thesis
    by (auto simp: Let_def and_then_eq_Inr longest_match_def index_at_def split: option.splits if_splits)
qed

text \<open>The text of a token, and that the tokens lexed without an error cut the source.\<close>

definition token_text :: "16 word list \<Rightarrow> token \<Rightarrow> 16 word list" where
  "token_text source t = take (tok_end t - tok_start t) (drop (tok_start t) source)"

text \<open>A token is a longest match, classified by the tables; an error stands where nothing matches.\<close>

definition exact_token :: "lexer_tables \<Rightarrow> int list \<Rightarrow> 16 word list \<Rightarrow> token \<Rightarrow> bool" where
  "exact_token lx classes source t \<longleftrightarrow> 0 \<le> tok_identity t \<and> tok_end t \<le> length source \<and>
     longest_match lx source (tok_start t) (tok_end t) (nat (tok_identity t)) \<and>
     tok_terminal t = classes ! nat (tok_identity t)"

definition unmatched :: "lexer_tables \<Rightarrow> 16 word list \<Rightarrow> nat \<Rightarrow> frontend_diagnostic \<Rightarrow> bool" where
  "unmatched lx source p d \<longleftrightarrow> p < length source \<and>
     d = LexicalError p (p + snd (source_code_point source p)) (source ! p) \<and>
     (\<forall>q spec. \<not> matches_from lx source (start_state lx) p q spec)"

lemma lex_from_exact:
  assumes "lex_from lx classes source position i = Inr (ts, ds)"
  shows "(ds = [] \<longrightarrow> concat (map (token_text source) ts) = drop position source) \<and>
    map tok_index ts = [i..<i + length ts] \<and>
    (\<forall>t\<in>set ts. position \<le> tok_start t \<and> exact_token lx classes source t) \<and>
    (\<forall>d\<in>set ds. \<exists>p. unmatched lx source p d)"
  using assms
proof (induction "length source - position" arbitrary: position i ts ds rule: less_induct)
  case less
  from less.prems show ?case
  proof (cases rule: lex_from_cases)
    case (token t ts')
    note IH = less.hyps [OF token(6,7)]
    from lex_at_longest [OF token(2,1)] token(5) have t: "tok_index t = i" "exact_token lx classes source t"
      by (simp_all add: exact_token_def)
    have "token_text source t @ drop (tok_end t) source = drop position source"
      using token(3,4) append_take_drop_id [of "tok_end t - tok_start t" "drop position source"]
      by (simp add: token_text_def)
    moreover from IH token(4) have "\<forall>t\<in>set ts'. position \<le> tok_start t \<and> exact_token lx classes source t" by auto
    ultimately show ?thesis using IH t token(3,8) by (simp add: upt_conv_Cons del: upt_Suc)
  next
    case (error d next_position ds')
    note IH = less.hyps [OF error(4,5)]
    from lex_at_longest [OF error(2,1)] error(1) have "unmatched lx source position d" by (simp add: unmatched_def)
    moreover from IH error(3) have "\<forall>t\<in>set ts. position \<le> tok_start t \<and> exact_token lx classes source t" by auto
    ultimately show ?thesis using IH error(6) by auto
  qed simp
qed

section \<open>Lexing answers\<close>

text \<open>What the generator provides: tables of matching sizes whose targets are states and whose specifications are classified.\<close>

definition well_formed_tables :: "lexer_tables \<Rightarrow> int list \<Rightarrow> bool" where
  "well_formed_tables lx classes \<longleftrightarrow>
     start_state lx < state_count lx \<and>
     length (ascii_transitions lx) = state_count lx * 128 \<and>
     (\<forall>target\<in>set (ascii_transitions lx). target < int (state_count lx)) \<and>
     length (transition_rows lx) = state_count lx + 1 \<and>
     (\<forall>row\<in>set (transition_rows lx). 0 \<le> row \<and> row < 2 ^ 64 \<and> 3 * nat row \<le> length (transition_triples lx)) \<and>
     (\<forall>k<length (transition_triples lx) div 3. transition_triples lx ! (3 * k + 2) < int (state_count lx)) \<and>
     length (accept_spec_by_state lx) = state_count lx \<and>
     (\<forall>spec\<in>set (accept_spec_by_state lx). spec < int (length classes))"

lemma index_at_inside: "i < length xs \<Longrightarrow> index_at xs i = Inr (xs ! i)"
  by (simp add: index_at_def)

lemma transition_target_below:
  "target < int n \<Longrightarrow> transition_target target = None \<or> (\<exists>s<n. transition_target target = Some s)"
  by (auto simp: transition_target_def)

lemma search_ranges_answers:
  assumes "3 * high \<le> length triples" "\<forall>k<length triples div 3. triples ! (3 * k + 2) < int n"
  shows "\<exists>r. search_ranges triples code_point low high = Inr r \<and> (\<forall>s. r = Some s \<longrightarrow> s < n)"
  using assms(1)
proof (induction "high - low" arbitrary: low rule: less_induct)
  case less
  show ?case
  proof (cases "low \<ge> high")
    case True
    then show ?thesis unfolding search_ranges.simps [of triples code_point low high] by simp
  next
    case False
    with less.prems have inside: "low * 3 + 2 < length triples" by linarith
    then have "low < length triples div 3" by linarith
    with assms(2) have "triples ! (3 * low + 2) < int n" by blast
    then have target: "triples ! (low * 3 + 2) < int n" by (simp add: mult.commute)
    from False have "high - (low + 1) < high - low" by linarith
    from less.hyps [OF this less.prems] target transition_target_below [OF target] inside False show ?thesis
      unfolding search_ranges.simps [of triples code_point low high] by (auto simp: index_at_inside)
  qed
qed

lemma lexer_transition_answers:
  assumes "well_formed_tables lx classes" "state < state_count lx"
  shows "\<exists>r. lexer_transition lx state code_point = Inr r \<and> (\<forall>s. r = Some s \<longrightarrow> s < state_count lx)"
proof (cases "0 \<le> code_point \<and> code_point < 128")
  case True
  then have "nat code_point < 128" by linarith
  with assms(2) have "state * 128 + nat code_point < state_count lx * 128" by linarith
  with assms have inside: "state * 128 + nat code_point < length (ascii_transitions lx)" by (simp add: well_formed_tables_def)
  then have "ascii_transitions lx ! (state * 128 + nat code_point) \<in> set (ascii_transitions lx)" by simp
  with assms(1) have "ascii_transitions lx ! (state * 128 + nat code_point) < int (state_count lx)"
    unfolding well_formed_tables_def by blast
  from transition_target_below [OF this] True assms(2) inside show ?thesis
    by (auto simp: lexer_transition_def index_at_inside)
next
  case False
  from assms have rows: "state + 1 < length (transition_rows lx)" by (simp add: well_formed_tables_def)
  then have "transition_rows lx ! (state + 1) \<in> set (transition_rows lx)" by simp
  with assms(1) have "0 \<le> transition_rows lx ! (state + 1)" "transition_rows lx ! (state + 1) < 2 ^ 64"
      "3 * nat (transition_rows lx ! (state + 1)) \<le> length (transition_triples lx)"
    unfolding well_formed_tables_def by blast+
  then have "3 * table_index (transition_rows lx ! (state + 1)) \<le> length (transition_triples lx)"
    by (simp add: table_index_def)
  moreover from assms(1) have "\<forall>k<length (transition_triples lx) div 3. transition_triples lx ! (3 * k + 2) < int (state_count lx)"
    by (simp add: well_formed_tables_def)
  ultimately have "\<exists>r. search_ranges (transition_triples lx) code_point (table_index (transition_rows lx ! state))
      (table_index (transition_rows lx ! (state + 1))) = Inr r \<and> (\<forall>s. r = Some s \<longrightarrow> s < state_count lx)"
    by (rule search_ranges_answers)
  moreover have "lexer_transition lx state code_point = search_ranges (transition_triples lx) code_point
      (table_index (transition_rows lx ! state)) (table_index (transition_rows lx ! (state + 1)))"
    using False assms(2) rows by (auto simp: lexer_transition_def index_at_inside)
  ultimately show ?thesis by simp
qed

lemma lex_scan_answers:
  assumes "well_formed_tables lx classes" "state < state_count lx" "\<forall>e spec. accepted = Some (e, spec) \<longrightarrow> spec < length classes"
  shows "\<exists>result reached. lex_scan lx source state cursor accepted dependency = Inr (result, reached) \<and>
    (\<forall>e spec. result = Some (e, spec) \<longrightarrow> spec < length classes)"
  using assms(2,3)
proof (induction "length source - cursor" arbitrary: state cursor accepted dependency rule: less_induct)
  case less
  obtain code_point width where point: "source_code_point source cursor = (code_point, width)" by force
  show ?case
  proof (cases "cursor \<ge> length source")
    case True
    with less.prems show ?thesis unfolding lex_scan.simps [of lx source state cursor accepted dependency] by auto
  next
    case False
    then have inside: "cursor < length source" by simp
    from lexer_transition_answers [OF assms(1) less.prems(1)] obtain r where
        r: "lexer_transition lx state code_point = Inr r" "\<forall>s. r = Some s \<longrightarrow> s < state_count lx" by blast
    show ?thesis
    proof (cases r)
      case None
      with r(1) less.prems(2) show ?thesis by (simp add: lex_scan_last [OF inside point])
    next
      case (Some target)
      with r(2) assms(1) have target: "target < state_count lx" "target < length (accept_spec_by_state lx)"
        by (simp_all add: well_formed_tables_def)
      then have spec: "index_at (accept_spec_by_state lx) target = Inr (accept_spec_by_state lx ! target)"
        by (simp add: index_at_inside)
      from target have "accept_spec_by_state lx ! target \<in> set (accept_spec_by_state lx)" by simp
      with assms(1) have known: "accept_spec_by_state lx ! target < int (length classes)"
        unfolding well_formed_tables_def by blast
      from width_positive [of code_point width source cursor] point inside
      have "length source - (cursor + width) < length source - cursor" by simp
      from less.hyps [OF this target(1)] known less.prems(2) show ?thesis
        unfolding lex_scan_next [OF inside point r(1) [unfolded Some] spec]
        by (cases "accept_spec_by_state lx ! target \<ge> 0") auto
    qed
  qed
qed

lemma lex_at_answers:
  assumes "well_formed_tables lx classes" "position < length source" "length source < 2 ^ 32"
  shows "\<exists>r. lex_at lx classes source position i = Inr r"
proof -
  from assms(1) have "start_state lx < state_count lx" by (simp add: well_formed_tables_def)
  from lex_scan_answers [OF assms(1) this, of None source position position] obtain result reached where
      scan: "lex_scan lx source (start_state lx) position None position = Inr (result, reached)"
        "\<forall>e spec. result = Some (e, spec) \<longrightarrow> spec < length classes" by auto
  obtain code_point width where "source_code_point source position = (code_point, width)" by force
  with source_code_point_inside [OF this assms(2)] assms(3) scan show ?thesis
    by (cases result) (auto simp: lex_at_def source_span_def index_at_inside Let_def)
qed

lemma lex_from_answers:
  assumes "well_formed_tables lx classes" "length source < 2 ^ 32"
  shows "\<exists>ts ds. lex_from lx classes source position i = Inr (ts, ds)"
proof (induction "length source - position" arbitrary: position i rule: less_induct)
  case less
  show ?case
  proof (cases "position \<ge> length source")
    case True
    then show ?thesis unfolding lex_from.simps [of lx classes source position i] by simp
  next
    case False
    then have inside: "position < length source" by simp
    from lex_at_answers [OF assms(1) inside assms(2)] obtain r where r: "lex_at lx classes source position i = Inr r" by blast
    note advance = lex_at_advances [OF r inside]
    show ?thesis
    proof (cases r)
      case (Lexed t)
      with advance inside have "length source - tok_end t < length source - position" by auto
      from less.hyps [OF this, of "i + 1"] r Lexed False show ?thesis
        unfolding lex_from.simps [of lx classes source position i] by auto
    next
      case (Unlexed d next_position)
      with advance inside have "length source - next_position < length source - position" by auto
      from less.hyps [OF this, of i] r Unlexed False show ?thesis
        unfolding lex_from.simps [of lx classes source position i] by auto
    qed
  qed
qed

section \<open>Properties\<close>

text \<open>
  A small language: a word is a run of \<open>a\<close> (specification 0), and runs of blanks are trivia
  (specification 1, terminal -1).
\<close>

definition words_lexer :: lexer_tables where
  "words_lexer = \<lparr>state_count = 3, start_state = 0,
     ascii_transitions =
       map (\<lambda>c. if c = 97 then 1 else if c = 32 then 2 else -1) [0..<128] @
       map (\<lambda>c. if c = 97 then 1 else -1) [0..<128] @
       map (\<lambda>c. if c = 32 then 2 else -1) [0..<128],
     transition_rows = [0, 0, 0, 0], transition_triples = [], accept_spec_by_state = [-1, 0, 1]\<rparr>"

definition word_token :: "int \<Rightarrow> nat \<Rightarrow> nat \<Rightarrow> nat \<Rightarrow> nat \<Rightarrow> token" where
  "word_token terminal s e i dependency = \<lparr>tok_terminal = terminal, tok_start = s, tok_end = e,
     tok_identity = (if terminal < 0 then 1 else 0), tok_index = i, tok_dependency = dependency\<rparr>"

text \<open>
  C16. When \<open>lex_source\<close> returns tokens, their texts concatenate to the source, they are numbered in
  order, and each is the longest match of the automaton at its place, classified by the tables.
\<close>
theorem lexing_exact:
  assumes "lex_source lx classes source = Inr tokens"
  shows "concat (map (token_text source) tokens) = source \<and> map tok_index tokens = [0..<length tokens] \<and>
    list_all (exact_token lx classes source) tokens"
proof -
  from assms obtain ds where from_start: "lex_from lx classes source 0 0 = Inr (tokens, ds)" "sort_diagnostics ds = []"
    by (auto simp: lex_source_def and_then_eq_Inr split: if_splits)
  then have "ds = []" by (metis length_0_conv length_sort sort_diagnostics_def)
  with lex_from_exact [OF from_start(1)] show ?thesis by (auto simp: list_all_iff)
qed

theorem lexing_exact_witness:
  "concat (map (token_text [97, 97, 32]) [word_token 7 0 2 0 3, word_token (- 1) 2 3 1 3]) = [97, 97, 32] \<and>
   map tok_index [word_token 7 0 2 0 3, word_token (- 1) 2 3 1 3] = [0, 1] \<and>
   list_all (exact_token words_lexer [7, - 1] [97, 97, 32]) [word_token 7 0 2 0 3, word_token (- 1) 2 3 1 3]"
proof -
  have "lex_source words_lexer [7, - 1] [97, 97, 32] = Inr [word_token 7 0 2 0 3, word_token (- 1) 2 3 1 3]" by code_simp
  from lexing_exact [OF this] show ?thesis by simp
qed

text \<open>
  On the tables of a generator and a source of fewer than 2^32 units, lexing returns tokens
  or refuses the source with lexical errors: each stands where no specification matches.
\<close>
theorem lexing_answers:
  assumes "well_formed_tables lx classes" "length source < 2 ^ 32"
  shows "(\<exists>tokens. lex_source lx classes source = Inr tokens) \<or>
    (\<exists>d ds. lex_source lx classes source = Inl (Rejected (d # ds)) \<and>
       list_all (\<lambda>d. \<exists>p. unmatched lx source p d) (d # ds))"
proof -
  from lex_from_answers [OF assms] obtain ts ds where ts: "lex_from lx classes source 0 0 = Inr (ts, ds)" by blast
  from lex_from_exact [OF ts] have unmatched: "\<forall>d\<in>set (sort_diagnostics ds). \<exists>p. unmatched lx source p d"
    by (simp add: sort_diagnostics_def)
  show ?thesis
  proof (cases "sort_diagnostics ds")
    case Nil
    with ts show ?thesis by (simp add: lex_source_def)
  next
    case (Cons d rest)
    with ts unmatched show ?thesis by (auto simp: lex_source_def list_all_iff)
  qed
qed

end
