(* ===== verification/IslandParser.thy ===== *)
theory IslandParser
  imports Lexer
begin

text \<open>
  The parser of the front end (\<open>compiler/src/frontend.rs\<close>): delimiters are matched over all tokens,
  then the islands of the generated plan, automata that read tokens and nested islands, run over the
  tokens that are not trivia, and the tree they build is flattened into words. The plan is an
  argument. A parse that does not end is \<open>None\<close>.
\<close>

section \<open>The plan\<close>

datatype boundary =
  RootBoundary
| TerminatedBoundary int
| PairedBoundary int int
| SeparatedBoundary int int int

datatype input_kind = TerminalInput | IslandInput

record island_transition =
  transition_kind :: input_kind
  transition_input :: int
  next_state :: nat
  emitted_field :: int

record island_state =
  accepting :: bool
  transitions :: "island_transition list"

record island =
  rule_id :: int
  first_state :: nat
  island_states :: "island_state list"

record frontend_plan =
  root_island :: nat
  terminal_classification :: "int list"
  boundaries :: "boundary list"
  islands :: "island list"
  plan_lexer :: lexer_tables

section \<open>Trees and programs\<close>

text \<open>
  \<open>PendingNode\<close>: island, start, end, edges and id, which is \<open>usize::MAX\<close> until ids are assigned. An edge
  has a field, a token or a child, and an ordinal.
\<close>

datatype pending_node = PendingNode nat nat nat "pending_edge list" int
  and pending_edge = PendingEdge int "token option" "pending_node option" nat

record island_progress =
  farthest_token :: nat
  progress_island :: nat
  progress_state :: nat

record compact_program =
  program_tokens :: "int list"
  program_nodes :: "int list"
  program_edges :: "int list"

section \<open>Delimiters\<close>

text \<open>A \<open>HashMap\<close> is an association list; \<open>AList.update\<close> inserts and \<open>map_of\<close> looks up.\<close>

fun boundary_terminals :: "boundary \<Rightarrow> (int \<times> int) option" where
  "boundary_terminals (PairedBoundary open_terminal close_terminal) = Some (open_terminal, close_terminal)"
| "boundary_terminals (SeparatedBoundary open_terminal close_terminal separator) = Some (open_terminal, close_terminal)"
| "boundary_terminals RootBoundary = None"
| "boundary_terminals (TerminatedBoundary terminal) = None"

text \<open>\<open>insert\<close>, with the assertion that an earlier value of the key is the same.\<close>

definition insert_same :: "int \<Rightarrow> int \<Rightarrow> (int \<times> int) list \<Rightarrow> (frontend_fault, (int \<times> int) list) result" where
  "insert_same k v m =
     (case map_of m k of
        Some previous \<Rightarrow> if previous = v then Inr (AList.update k v m) else Inl FrontendPanic
      | None \<Rightarrow> Inr (AList.update k v m))"

fun closing_terminals :: "boundary list \<Rightarrow> (int \<times> int) list \<Rightarrow> (frontend_fault, (int \<times> int) list) result" where
  "closing_terminals [] m = Inr m"
| "closing_terminals (b # bs) m =
     (case boundary_terminals b of
        Some (open_terminal, close_terminal) \<Rightarrow>
          and_then (insert_same open_terminal close_terminal m) (\<lambda>m. closing_terminals bs m)
      | None \<Rightarrow> closing_terminals bs m)"

fun opening_terminals :: "(int \<times> int) list \<Rightarrow> (int \<times> int) list \<Rightarrow> (frontend_fault, (int \<times> int) list) result" where
  "opening_terminals [] m = Inr m"
| "opening_terminals ((open_terminal, close_terminal) # entries) m =
     and_then (insert_same close_terminal open_terminal m) (\<lambda>m. opening_terminals entries m)"

definition delimiter_diagnostic :: "token \<Rightarrow> int \<Rightarrow> int \<Rightarrow> (frontend_fault, frontend_diagnostic) result" where
  "delimiter_diagnostic t expected received =
     and_then (source_span (tok_start t) (tok_end t)) (\<lambda>_.
       Inr (MalformedDelimiter (tok_start t) (tok_end t) expected received))"

text \<open>
  The loop over the tokens: the stack of open delimiters, the innermost first, the matches and the
  diagnostics so far.
\<close>

fun match_tokens ::
  "(int \<times> int) list \<Rightarrow> (int \<times> int) list \<Rightarrow> nat \<Rightarrow> token list \<Rightarrow> (int \<times> nat) list \<Rightarrow> (nat \<times> nat) list \<Rightarrow>
   frontend_diagnostic list \<Rightarrow>
   (frontend_fault, (int \<times> nat) list \<times> (nat \<times> nat) list \<times> frontend_diagnostic list) result" where
  "match_tokens closers openers i [] stack found ds = Inr (stack, found, ds)"
| "match_tokens closers openers i (t # ts) stack found ds =
     (if tok_terminal t < 0 then match_tokens closers openers (i + 1) ts stack found ds
      else
        (case map_of closers (tok_terminal t) of
           Some expected \<Rightarrow> match_tokens closers openers (i + 1) ts ((expected, i) # stack) found ds
         | None \<Rightarrow>
             if map_of openers (tok_terminal t) = None then match_tokens closers openers (i + 1) ts stack found ds
             else
               (case stack of
                  (expected, open_index) # stack \<Rightarrow>
                    if expected = tok_terminal t then
                      match_tokens closers openers (i + 1) ts stack (AList.update open_index i found) ds
                    else
                      and_then (delimiter_diagnostic t expected (tok_terminal t)) (\<lambda>d.
                        match_tokens closers openers (i + 1) ts stack found (ds @ [d]))
                | [] \<Rightarrow>
                    and_then (delimiter_diagnostic t (-1) (tok_terminal t)) (\<lambda>d.
                      match_tokens closers openers (i + 1) ts [] found (ds @ [d])))))"

fun unclosed_diagnostics ::
  "token list \<Rightarrow> (int \<times> nat) list \<Rightarrow> frontend_diagnostic list \<Rightarrow> (frontend_fault, frontend_diagnostic list) result" where
  "unclosed_diagnostics tokens [] ds = Inr ds"
| "unclosed_diagnostics tokens ((expected, open_index) # stack) ds =
     and_then (index_at tokens open_index) (\<lambda>t.
     and_then (delimiter_diagnostic t expected (-1)) (\<lambda>d. unclosed_diagnostics tokens stack (ds @ [d])))"

definition match_delimiters ::
  "token list \<Rightarrow> boundary list \<Rightarrow> frontend_diagnostic list \<Rightarrow>
   (frontend_fault, (nat \<times> nat) list \<times> frontend_diagnostic list) result" where
  "match_delimiters tokens bs ds =
     and_then (closing_terminals bs []) (\<lambda>closers.
     and_then (opening_terminals closers []) (\<lambda>openers.
     and_then (match_tokens closers openers 0 tokens [] [] ds) (\<lambda>(stack, found, ds).
     and_then (unclosed_diagnostics tokens (rev stack) ds) (\<lambda>ds. Inr (found, ds)))))"

section \<open>Computations that may not end\<close>

text \<open>
  A computation that may panic and may not end, its sequencing, and Rust's \<open>for\<close> and \<open>while\<close> loops
  whose body goes on with a state or leaves with a result.
\<close>

type_synonym 'a run = "(frontend_fault, 'a) result option"

definition run_bind :: "'a run \<Rightarrow> ('a \<Rightarrow> 'b run) \<Rightarrow> 'b run" where
  "run_bind m k = (case m of None \<Rightarrow> None | Some (Inl fault) \<Rightarrow> Some (Inl fault) | Some (Inr x) \<Rightarrow> k x)"

lemma run_bind_simps [simp]:
  "run_bind None k = None"
  "run_bind (Some (Inl fault)) k = Some (Inl fault)"
  "run_bind (Some (Inr x)) k = k x"
  by (simp_all add: run_bind_def)

lemma run_cases:
  obtains "m = None" | fault where "m = Some (Inl fault)" | x where "m = Some (Inr x)"
  by (metis old.sum.exhaust option.exhaust)

lemma run_bind_Some:
  "run_bind m k = Some r \<longleftrightarrow> (\<exists>fault. m = Some (Inl fault) \<and> r = Inl fault) \<or> (\<exists>x. m = Some (Inr x) \<and> k x = Some r)"
  by (cases m rule: run_cases) auto

datatype ('s, 'r) flow = Go 's | Leave 'r

fun for_run :: "('t \<Rightarrow> 's \<Rightarrow> ('s, 'r) flow run) \<Rightarrow> 't list \<Rightarrow> 's \<Rightarrow> ('s, 'r) flow run" where
  "for_run body [] s = Some (Inr (Go s))"
| "for_run body (t # ts) s =
     run_bind (body t s) (\<lambda>x. case x of Go s \<Rightarrow> for_run body ts s | Leave r \<Rightarrow> Some (Inr (Leave r)))"

abbreviation (input) mono_run :: "(('a \<Rightarrow> 'b option) \<Rightarrow> 'c option) \<Rightarrow> bool" where
  "mono_run \<equiv> monotone (fun_ord option_ord) option_ord"

lemma option_ord_cases: "option_ord x y \<longleftrightarrow> x = None \<or> x = y"
  by (simp add: flat_ord_def)

lemma run_bind_mono [partial_function_mono]:
  assumes "mono_run B" "\<And>y. mono_run (\<lambda>f. C y f)"
  shows "mono_run (\<lambda>f. run_bind (B f) (\<lambda>y. C y f))"
proof (rule monotoneI, goal_cases)
  case (1 f g)
  have "option_ord (B f) (B g)" by (rule monotoneD [OF assms(1)]) (rule 1)
  moreover have "option_ord (C y f) (C y g)" for y by (rule monotoneD [OF assms(2)]) (rule 1)
  ultimately show ?case
    unfolding option_ord_cases by (cases "B f" rule: run_cases) (metis run_bind_simps)+
qed

lemma option_case_mono:
  assumes "mono_run C" "\<And>x. mono_run (\<lambda>f. D x f)"
  shows "mono_run (\<lambda>f. case x of None \<Rightarrow> C f | Some y \<Rightarrow> D y f)"
  using assms by (cases x) simp_all

lemma prod_case_mono:
  assumes "\<And>x y. mono_run (\<lambda>f. C x y f)"
  shows "mono_run (\<lambda>f. case p of (x, y) \<Rightarrow> C x y f)"
  using assms by (cases p) simp

lemma flow_mono [partial_function_mono]:
  assumes "\<And>s. mono_run (\<lambda>f. C s f)" "\<And>r. mono_run (\<lambda>f. D r f)"
  shows "mono_run (\<lambda>f. case x of Go s \<Rightarrow> C s f | Leave r \<Rightarrow> D r f)"
  using assms by (cases x) simp_all

lemmas run_mono = run_bind_mono option_case_mono prod_case_mono flow_mono if_mono option.const_mono

lemma for_run_mono [partial_function_mono]:
  assumes "\<And>t s. mono_run (\<lambda>f. B f t s)"
  shows "mono_run (\<lambda>f. for_run (B f) ts s)"
proof (induction ts arbitrary: s)
  case (Cons t ts)
  show ?case unfolding for_run.simps
    by (intro run_bind_mono flow_mono assms Cons option.const_mono)
qed (simp add: option.const_mono)

partial_function (option) while_run :: "('s \<Rightarrow> ('s, 'r) flow run) \<Rightarrow> 's \<Rightarrow> 'r run" where
  "while_run body s =
     run_bind (body s) (\<lambda>x. case x of Go s \<Rightarrow> while_run body s | Leave r \<Rightarrow> Some (Inr r))"

declare while_run.simps [code]

lemma while_run_mono [partial_function_mono]:
  assumes "\<And>s. mono_run (\<lambda>f. B f s)"
  shows "mono_run (\<lambda>f. while_run (B f) s)"
proof (rule monotoneI, goal_cases)
  case (1 f g)
  have "option_ord (B f s) (B g s)" for s by (rule monotoneD [OF assms]) (rule 1)
  then have same: "B f s = None \<or> B f s = B g s" for s by (simp add: option_ord_cases)
  have "body = B f \<longrightarrow> while_run (B g) s = Some r" if "while_run body s = Some r" for body s r
    using that
  proof (rule while_run.raw_induct [rotated], intro impI, goal_cases)
    case (1 while_run' body s r)
    show ?case
    proof (cases "B f s" rule: run_cases)
      case (3 x)
      with same [of s] have "B g s = Some (Inr x)" by auto
      with 1 3 show ?thesis unfolding while_run.simps [of "B g" s] by (cases x) auto
    next
      case (2 fault)
      with same [of s] have "B g s = Some (Inl fault)" by auto
      with 1 2 show ?thesis unfolding while_run.simps [of "B g" s] by simp
    qed (use 1 in simp)
  qed
  then show ?case by (cases "while_run (B f) s") (auto simp: option_ord_cases)
qed

section \<open>Islands\<close>

definition lift_run :: "(frontend_fault, 'a) result \<Rightarrow> 'a run" where
  "lift_run r = Some r"

definition syntax_diagnostic :: "nat \<Rightarrow> nat \<Rightarrow> nat \<Rightarrow> (frontend_fault, frontend_diagnostic) result" where
  "syntax_diagnostic s e island_id = and_then (source_span s e) (\<lambda>_. Inr (SyntaxError s e island_id))"

definition island_limit ::
  "nat \<Rightarrow> nat \<Rightarrow> nat \<Rightarrow> token list \<Rightarrow> (nat \<times> nat) list \<Rightarrow> boundary list \<Rightarrow> (frontend_fault, nat option) result" where
  "island_limit island_id start outer_limit tokens found bs =
     and_then (index_at bs island_id) (\<lambda>b.
       case boundary_terminals b of
         None \<Rightarrow> Inr (Some outer_limit)
       | Some (open_terminal, close_terminal) \<Rightarrow>
           if start \<ge> length tokens \<or> tok_terminal (tokens ! start) \<noteq> open_terminal then Inr None
           else
             (case map_of found start of
                None \<Rightarrow> Inr None
              | Some close \<Rightarrow> Inr (if close \<ge> outer_limit then None else Some (close + 1))))"

text \<open>
  The loop over the transitions into nested islands: the longest match so far and the progress. Two
  matches of one length leave the loop. \<open>recur\<close> is \<open>run_island\<close> on the same tokens.
\<close>

type_synonym island_match = "pending_node \<times> nat"

type_synonym island_run = "nat \<Rightarrow> nat \<Rightarrow> nat \<Rightarrow> (nat \<times> nat \<times> nat) list \<Rightarrow> island_progress \<Rightarrow>
    (island_match option \<times> island_progress) run"

type_synonym nested_match = "(island_transition \<times> island_match) option \<times> island_progress"

definition keep_longer ::
  "island_transition \<Rightarrow> island_match \<Rightarrow> nested_match \<Rightarrow> (nested_match, island_progress) flow" where
  "keep_longer transition candidate best_progress =
     (case best_progress of
        (None, progress) \<Rightarrow> Go (Some (transition, candidate), progress)
      | (Some (best_transition, best), progress) \<Rightarrow>
          if snd best = snd candidate then Leave progress
          else if snd best > snd candidate then Go (Some (best_transition, best), progress)
          else Go (Some (transition, candidate), progress))"

definition receive_candidate ::
  "frontend_plan \<Rightarrow> nat \<Rightarrow> nat \<Rightarrow> island_transition \<Rightarrow> (island_transition \<times> island_match) option \<Rightarrow>
   island_match option \<times> island_progress \<Rightarrow> (nested_match, island_progress) flow run" where
  "receive_candidate plan nested nested_limit transition best candidate_progress =
     (case candidate_progress of
        (None, progress) \<Rightarrow> Some (Inr (Go (best, progress)))
      | (Some candidate, progress) \<Rightarrow>
          run_bind (lift_run (index_at (boundaries plan) nested)) (\<lambda>b.
            Some (Inr
              (if boundary_terminals b \<noteq> None \<and> snd candidate \<noteq> nested_limit then Go (best, progress)
               else keep_longer transition candidate (best, progress)))))"

definition try_nested ::
  "island_run \<Rightarrow> frontend_plan \<Rightarrow> token list \<Rightarrow> (nat \<times> nat) list \<Rightarrow> nat \<Rightarrow> nat \<Rightarrow> (nat \<times> nat \<times> nat) list \<Rightarrow>
   island_transition \<Rightarrow> nested_match \<Rightarrow> (nested_match, island_progress) flow run" where
  "try_nested recur plan tokens found cursor limit active transition best_progress =
     run_bind (lift_run (ensure (transition_input transition \<ge> 0) FrontendPanic)) (\<lambda>_.
     let nested = nat (transition_input transition) in
     run_bind (lift_run (island_limit nested cursor limit tokens found (boundaries plan))) (\<lambda>nested_limit.
     case nested_limit of
       None \<Rightarrow> Some (Inr (Go best_progress))
     | Some nested_limit \<Rightarrow>
         run_bind (recur nested cursor nested_limit active (snd best_progress))
           (receive_candidate plan nested nested_limit transition (fst best_progress))))"

text \<open>The two ways the state advances: over a token and over a nested island.\<close>

type_synonym island_cursor = "nat \<times> nat \<times> pending_edge list \<times> nat \<times> island_progress"

type_synonym island_end = "(nat \<times> nat \<times> pending_edge list) option \<times> island_progress"

definition read_terminal ::
  "island_transition \<Rightarrow> token \<Rightarrow> nat \<Rightarrow> pending_edge list \<Rightarrow> nat \<Rightarrow> island_progress \<Rightarrow> (island_cursor, island_end) flow" where
  "read_terminal tr t cursor edges ordinal progress =
     Go (next_state tr, cursor + 1, edges @ [PendingEdge (emitted_field tr) (Some t) None ordinal], ordinal + 1, progress)"

definition read_nested ::
  "island_transition \<times> island_match \<Rightarrow> pending_edge list \<Rightarrow> nat \<Rightarrow> island_progress \<Rightarrow> (island_cursor, island_end) flow" where
  "read_nested best edges ordinal progress =
     (case best of (tr, node, next_token) \<Rightarrow>
       Go (next_state tr, next_token, edges @ [PendingEdge (emitted_field tr) None (Some node) ordinal], ordinal + 1, progress))"

text \<open>
  What the loop does with the transition on the token and the longest nested match. It leaves with
  \<open>None\<close> where the code returns \<open>None\<close>, and with the state, the cursor and the edges on \<open>break\<close>.
\<close>

definition choose_edge ::
  "island_transition option \<Rightarrow> token \<Rightarrow> nat \<Rightarrow> nat \<Rightarrow> pending_edge list \<Rightarrow> nat \<Rightarrow> (nested_match, island_progress) flow \<Rightarrow>
   (island_cursor, island_end) flow" where
  "choose_edge terminal t state cursor edges ordinal outcome =
     (case outcome of
        Leave progress \<Rightarrow> Leave (None, progress)
      | Go (best, progress) \<Rightarrow>
          (case (terminal, best) of
             (Some tr, None) \<Rightarrow> read_terminal tr t cursor edges ordinal progress
           | (Some tr, Some nested) \<Rightarrow>
               if snd (snd nested) = cursor + 1 then Leave (None, progress)
               else if snd (snd nested) < cursor + 1 then read_terminal tr t cursor edges ordinal progress
               else read_nested nested edges ordinal progress
           | (None, None) \<Rightarrow> Leave (Some (state, cursor, edges), progress)
           | (None, Some nested) \<Rightarrow> read_nested nested edges ordinal progress))"

text \<open>One iteration of the loop of \<open>run_active_island\<close>.\<close>

definition island_step ::
  "island_run \<Rightarrow> frontend_plan \<Rightarrow> token list \<Rightarrow> (nat \<times> nat) list \<Rightarrow> island \<Rightarrow> nat \<Rightarrow> nat \<Rightarrow> (nat \<times> nat \<times> nat) list \<Rightarrow>
   island_cursor \<Rightarrow> (island_cursor, island_end) flow run" where
  "island_step recur plan tokens found plan_island island_id limit active s =
     (case s of (state, cursor, edges, ordinal, progress) \<Rightarrow>
       if cursor \<ge> limit then Some (Inr (Leave (Some (state, cursor, edges), progress)))
       else
         (let progress =
            (if cursor \<ge> farthest_token progress
             then \<lparr>farthest_token = cursor, progress_island = island_id, progress_state = state\<rparr> else progress) in
          run_bind (lift_run (index_at (island_states plan_island) state)) (\<lambda>state_plan.
          run_bind (lift_run (index_at tokens cursor)) (\<lambda>t.
          let terminal = find (\<lambda>tr. transition_kind tr = TerminalInput \<and> transition_input tr = tok_terminal t)
            (transitions state_plan) in
          run_bind (for_run (try_nested recur plan tokens found cursor limit active)
              (filter (\<lambda>tr. transition_kind tr = IslandInput) (transitions state_plan)) (None, progress)) (\<lambda>outcome.
          Some (Inr (choose_edge terminal t state cursor edges ordinal outcome)))))))"

text \<open>After the loop: the match, when the state accepts.\<close>

definition finish_island ::
  "token list \<Rightarrow> island \<Rightarrow> nat \<Rightarrow> nat \<Rightarrow> nat \<Rightarrow> nat \<Rightarrow> pending_edge list \<Rightarrow> (frontend_fault, (pending_node \<times> nat) option) result" where
  "finish_island tokens plan_island island_id start state cursor edges =
     (if state \<ge> length (island_states plan_island) \<or> \<not> accepting (island_states plan_island ! state) then Inr None
      else
        (let node_start = (if start < length tokens then tok_start (tokens ! start) else 0) in
         and_then
           (if cursor > start then and_then (index_at tokens (cursor - 1)) (\<lambda>t. Inr (tok_end t)) else Inr node_start) (\<lambda>e.
         Inr (Some (PendingNode island_id node_start e edges (2 ^ 64 - 1), cursor)))))"

definition leave_island ::
  "token list \<Rightarrow> island \<Rightarrow> nat \<Rightarrow> nat \<Rightarrow> island_end \<Rightarrow> (island_match option \<times> island_progress) run" where
  "leave_island tokens plan_island island_id start left =
     (case left of
        (None, progress) \<Rightarrow> Some (Inr (None, progress))
      | (Some (state, cursor, edges), progress) \<Rightarrow>
          run_bind (lift_run (finish_island tokens plan_island island_id start state cursor edges)) (\<lambda>matched.
            Some (Inr (matched, progress))))"

definition run_active_island :: "island_run \<Rightarrow> frontend_plan \<Rightarrow> token list \<Rightarrow> (nat \<times> nat) list \<Rightarrow> island_run" where
  "run_active_island recur plan tokens found island_id start limit active progress =
     run_bind (lift_run (index_at (islands plan) island_id)) (\<lambda>plan_island.
     run_bind (while_run (island_step recur plan tokens found plan_island island_id limit active) (first_state plan_island, start, [], 0, progress))
       (leave_island tokens plan_island island_id start))"

text \<open>
  \<open>run_island\<close>: \<open>active\<close> holds the calls that have begun and not ended, the current one first; a call
  pushes its key and pops it again.
\<close>

lemma try_nested_mono:
  assumes "\<And>island_id start limit active progress. mono_run (\<lambda>f. recur f island_id start limit active progress)"
  shows "mono_run (\<lambda>f. try_nested (recur f) plan tokens found cursor limit active transition best)"
  unfolding try_nested_def Let_def by (intro run_mono assms)

lemma island_step_mono:
  assumes "\<And>island_id start limit active progress. mono_run (\<lambda>f. recur f island_id start limit active progress)"
  shows "mono_run (\<lambda>f. island_step (recur f) plan tokens found plan_island island_id limit active s)"
  unfolding island_step_def Let_def by (intro run_mono for_run_mono try_nested_mono assms)

lemma run_active_island_mono [partial_function_mono]:
  assumes "\<And>island_id start limit active progress. mono_run (\<lambda>f. recur f island_id start limit active progress)"
  shows "mono_run (\<lambda>f. run_active_island (recur f) plan tokens found island_id start limit active progress)"
  unfolding run_active_island_def by (intro run_mono while_run_mono island_step_mono assms)

partial_function (option) run_island :: "frontend_plan \<Rightarrow> token list \<Rightarrow> (nat \<times> nat) list \<Rightarrow> island_run" where
  "run_island plan tokens found island_id start limit active progress =
     (if (island_id, start, limit) \<in> set active then Some (Inr (None, progress))
      else run_active_island (run_island plan tokens found) plan tokens found island_id start limit
        ((island_id, start, limit) # active) progress)"

declare run_island.simps [code]

section \<open>The root island\<close>

definition syntax_index :: "token list \<Rightarrow> nat \<Rightarrow> nat option" where
  "syntax_index syntax = map_of (rev (zip (map tok_index syntax) [0..<length syntax]))"

fun syntax_matches ::
  "token list \<Rightarrow> (nat \<Rightarrow> nat option) \<Rightarrow> (nat \<times> nat) list \<Rightarrow> (nat \<times> nat) list \<Rightarrow> (frontend_fault, (nat \<times> nat) list) result" where
  "syntax_matches tokens index_of [] m = Inr m"
| "syntax_matches tokens index_of ((open_index, close_index) # found) m =
     and_then (index_at tokens open_index) (\<lambda>t.
       case index_of (tok_index t) of
         None \<Rightarrow> syntax_matches tokens index_of found m
       | Some syntax_open \<Rightarrow>
           and_then (index_at tokens close_index) (\<lambda>t'.
             case index_of (tok_index t') of
               None \<Rightarrow> syntax_matches tokens index_of found m
             | Some syntax_close \<Rightarrow> syntax_matches tokens index_of found (AList.update syntax_open syntax_close m)))"

definition syntax_tokens :: "token list \<Rightarrow> token list" where
  "syntax_tokens tokens = filter (\<lambda>t. tok_terminal t \<ge> 0) tokens"

text \<open>The run of the root island over the syntax tokens, and the diagnostic when it does not cover them.\<close>

definition parse_root ::
  "frontend_plan \<Rightarrow> token list \<Rightarrow> (nat \<times> nat) list \<Rightarrow> frontend_diagnostic list \<Rightarrow>
   (pending_node option \<times> frontend_diagnostic list) run" where
  "parse_root plan ts found ds =
     run_bind (run_island plan ts found (root_island plan) 0 (length ts) []
         \<lparr>farthest_token = 0, progress_island = root_island plan, progress_state = 0\<rparr>) (\<lambda>(matched, progress).
     case matched of
       Some (node, next_token) \<Rightarrow>
         if next_token = length ts then Some (Inr (Some node, ds))
         else
           lift_run
             (and_then (index_at ts next_token) (\<lambda>t.
              and_then (syntax_diagnostic (tok_start t) (tok_end t) (progress_island progress)) (\<lambda>d. Inr (None, ds @ [d]))))
     | None \<Rightarrow>
         let (s, e) =
           (if farthest_token progress < length ts
            then (tok_start (ts ! farthest_token progress), tok_end (ts ! farthest_token progress)) else (0, 0)) in
         lift_run (and_then (syntax_diagnostic s e (progress_island progress)) (\<lambda>d. Inr (None, ds @ [d]))))"

definition execute_root_island ::
  "token list \<Rightarrow> (nat \<times> nat) list \<Rightarrow> frontend_plan \<Rightarrow> frontend_diagnostic list \<Rightarrow>
   (pending_node option \<times> frontend_diagnostic list) run" where
  "execute_root_island tokens found plan ds =
     (let ts = syntax_tokens tokens in
      run_bind (lift_run (syntax_matches tokens (syntax_index ts) found [])) (\<lambda>found. parse_root plan ts found ds))"

section \<open>Computations that correspond\<close>

text \<open>The second computation ends as the first one does, when the first one ends, with related results.\<close>

definition sim_run :: "('a \<Rightarrow> 'b \<Rightarrow> bool) \<Rightarrow> 'a run \<Rightarrow> 'b run \<Rightarrow> bool" where
  "sim_run R x y \<longleftrightarrow>
     (\<forall>fault. x = Some (Inl fault) \<longrightarrow> y = Some (Inl fault)) \<and>
     (\<forall>a. x = Some (Inr a) \<longrightarrow> (\<exists>b. y = Some (Inr b) \<and> R a b))"

lemma sim_run_None [simp]: "sim_run R None y"
  and sim_run_Inl [simp]: "sim_run R (Some (Inl fault)) y \<longleftrightarrow> y = Some (Inl fault)"
  and sim_run_Inr [simp]: "sim_run R (Some (Inr a)) y \<longleftrightarrow> (\<exists>b. y = Some (Inr b) \<and> R a b)"
  by (auto simp: sim_run_def)

lemma sim_run_bind:
  assumes "sim_run R m m'" "\<And>a b. R a b \<Longrightarrow> sim_run S (k a) (k' b)"
  shows "sim_run S (run_bind m k) (run_bind m' k')"
  using assms by (cases m rule: run_cases) auto

lemma sim_run_lift: "sim_run (=) (lift_run r) (lift_run r)"
  by (cases r) (auto simp: lift_run_def)

lemma sim_run_lift_bind:
  assumes "\<And>a. r = Inr a \<Longrightarrow> sim_run S (k a) (k' a)"
  shows "sim_run S (run_bind (lift_run r) k) (run_bind (lift_run r) k')"
  using assms by (cases r) (auto simp: lift_run_def)

text \<open>Bodies of loops, by a relation of the states and one of the results.\<close>

definition sim_flow :: "('s \<Rightarrow> 's' \<Rightarrow> bool) \<Rightarrow> ('r \<Rightarrow> 'r' \<Rightarrow> bool) \<Rightarrow> ('s, 'r) flow \<Rightarrow> ('s', 'r') flow \<Rightarrow> bool" where
  "sim_flow I Q x y \<longleftrightarrow>
     (\<forall>s. x = Go s \<longrightarrow> (\<exists>s'. y = Go s' \<and> I s s')) \<and> (\<forall>r. x = Leave r \<longrightarrow> (\<exists>r'. y = Leave r' \<and> Q r r'))"

lemma sim_flow_Go [simp]: "sim_flow I Q (Go s) y \<longleftrightarrow> (\<exists>s'. y = Go s' \<and> I s s')"
  and sim_flow_Leave [simp]: "sim_flow I Q (Leave r) y \<longleftrightarrow> (\<exists>r'. y = Leave r' \<and> Q r r')"
  by (auto simp: sim_flow_def)

lemma sim_for:
  assumes "\<And>t s s'. t \<in> set ts \<Longrightarrow> I s s' \<Longrightarrow> sim_run (sim_flow I Q) (body t s) (body' t s')" "I s s'"
  shows "sim_run (sim_flow I Q) (for_run body ts s) (for_run body' ts s')"
  using assms
proof (induction ts arbitrary: s s')
  case (Cons t ts)
  have "sim_run (sim_flow I Q) (body t s) (body' t s')" using Cons.prems by simp
  then show ?case unfolding for_run.simps
  proof (rule sim_run_bind)
    fix x y
    assume "sim_flow I Q x y"
    then show "sim_run (sim_flow I Q) (case x of Go s \<Rightarrow> for_run body ts s | Leave r \<Rightarrow> Some (Inr (Leave r)))
        (case y of Go s \<Rightarrow> for_run body' ts s | Leave r \<Rightarrow> Some (Inr (Leave r)))"
      using Cons by (cases x) auto
  qed
qed simp

lemma sim_while:
  assumes "\<And>s s'. I s s' \<Longrightarrow> sim_run (sim_flow I Q) (body s) (body' s')" "I s s'"
  shows "sim_run Q (while_run body s) (while_run body' s')"
proof -
  have "b = body \<longrightarrow> (\<forall>s'. I s s' \<longrightarrow> sim_run Q (Some r) (while_run body' s'))" if "while_run b s = Some r" for b s r
    using that
  proof (rule while_run.raw_induct [rotated], intro impI allI, goal_cases)
    case (1 while_run' b s r s')
    from assms(1) [OF 1(5)] show ?case
    proof (cases "body s" rule: run_cases)
      case (3 x)
      with assms(1) [OF 1(5)] obtain y where y: "body' s' = Some (Inr y)" "sim_flow I Q x y" by auto
      with 1 3 show ?thesis unfolding while_run.simps [of body' s'] by (cases x) auto
    qed (use 1 assms(1) [OF 1(5)] in \<open>auto simp: while_run.simps [of body' s']\<close>)
  qed
  with assms(2) show ?thesis by (cases "while_run body s") auto
qed

section \<open>Parsing depends on the terminals\<close>

text \<open>
  Trees over two token lists that have the same shape: the same islands, fields and ordinals, tokens
  at the same index, and spans that are empty or run between tokens at the same indices.
\<close>

definition token_point :: "token list \<Rightarrow> nat \<Rightarrow> nat" where
  "token_point ts i = (if i < length ts then tok_start (ts ! i) else 0)"

definition sim_span :: "token list \<Rightarrow> token list \<Rightarrow> nat \<Rightarrow> nat \<Rightarrow> nat \<Rightarrow> nat \<Rightarrow> bool" where
  "sim_span ts ts' s e s' e' \<longleftrightarrow>
     (\<exists>i. s = token_point ts i \<and> e = s \<and> s' = token_point ts' i \<and> e' = s') \<or>
     (\<exists>i j. i \<le> j \<and> j < length ts \<and> s = tok_start (ts ! i) \<and> e = tok_end (ts ! j) \<and>
       s' = tok_start (ts' ! i) \<and> e' = tok_end (ts' ! j))"

lemma sim_span_empty:
  "sim_span ts ts' (token_point ts i) (token_point ts i) (token_point ts' i) (token_point ts' i)"
  unfolding sim_span_def by blast

inductive sim_node :: "token list \<Rightarrow> token list \<Rightarrow> pending_node \<Rightarrow> pending_node \<Rightarrow> bool"
  and sim_edge :: "token list \<Rightarrow> token list \<Rightarrow> pending_edge \<Rightarrow> pending_edge \<Rightarrow> bool"
  for ts ts' where
  sim_node: "list_all2 (sim_edge ts ts') edges edges' \<Longrightarrow> sim_span ts ts' s e s' e' \<Longrightarrow>
    sim_node ts ts' (PendingNode island_id s e edges id') (PendingNode island_id s' e' edges' id')"
| sim_token: "i < length ts \<Longrightarrow>
    sim_edge ts ts' (PendingEdge field (Some (ts ! i)) None ordinal) (PendingEdge field (Some (ts' ! i)) None ordinal)"
| sim_child: "sim_node ts ts' node node' \<Longrightarrow>
    sim_edge ts ts' (PendingEdge field None (Some node) ordinal) (PendingEdge field None (Some node') ordinal)"

definition sim_result :: "token list \<Rightarrow> token list \<Rightarrow> island_match \<Rightarrow> island_match \<Rightarrow> bool" where
  "sim_result ts ts' m m' \<longleftrightarrow> sim_node ts ts' (fst m) (fst m') \<and> snd m = snd m'"

definition sim_match :: "token list \<Rightarrow> token list \<Rightarrow> island_match option \<times> island_progress \<Rightarrow>
    island_match option \<times> island_progress \<Rightarrow> bool" where
  "sim_match ts ts' = rel_prod (rel_option (sim_result ts ts')) (=)"

definition sim_nested :: "token list \<Rightarrow> token list \<Rightarrow> nested_match \<Rightarrow> nested_match \<Rightarrow> bool" where
  "sim_nested ts ts' = rel_prod (rel_option (rel_prod (=) (sim_result ts ts'))) (=)"

definition sim_cursor :: "token list \<Rightarrow> token list \<Rightarrow> island_cursor \<Rightarrow> island_cursor \<Rightarrow> bool" where
  "sim_cursor ts ts' = rel_prod (=) (rel_prod (=) (rel_prod (list_all2 (sim_edge ts ts')) (rel_prod (=) (=))))"

definition sim_end :: "token list \<Rightarrow> token list \<Rightarrow> island_end \<Rightarrow> island_end \<Rightarrow> bool" where
  "sim_end ts ts' = rel_prod (rel_option (rel_prod (=) (rel_prod (=) (list_all2 (sim_edge ts ts'))))) (=)"

definition same_terminals :: "token list \<Rightarrow> token list \<Rightarrow> bool" where
  "same_terminals ts ts' \<longleftrightarrow> map tok_terminal ts = map tok_terminal ts'"

lemma same_terminals_length: "same_terminals ts ts' \<Longrightarrow> length ts = length ts'"
  by (metis same_terminals_def length_map)

lemma same_terminals_nth: "same_terminals ts ts' \<Longrightarrow> i < length ts \<Longrightarrow> tok_terminal (ts ! i) = tok_terminal (ts' ! i)"
  by (metis same_terminals_def length_map nth_map)

lemma island_limit_same:
  "same_terminals ts ts' \<Longrightarrow> island_limit nested cursor limit ts found bs = island_limit nested cursor limit ts' found bs"
proof -
  assume same: "same_terminals ts ts'"
  then have "(cursor \<ge> length ts \<or> tok_terminal (ts ! cursor) \<noteq> c) \<longleftrightarrow>
      (cursor \<ge> length ts' \<or> tok_terminal (ts' ! cursor) \<noteq> c)" for c
    using same_terminals_length [OF same] same_terminals_nth [OF same, of cursor] by auto
  then show ?thesis by (simp only: island_limit_def)
qed

definition sim_recur :: "token list \<Rightarrow> token list \<Rightarrow> island_run \<Rightarrow> island_run \<Rightarrow> bool" where
  "sim_recur ts ts' f g \<longleftrightarrow> (\<forall>island_id start limit active progress.
     sim_run (sim_match ts ts') (f island_id start limit active progress) (g island_id start limit active progress))"

lemma keep_longer_sim:
  assumes "sim_result ts ts' m m'" "sim_nested ts ts' b b'"
  shows "sim_flow (sim_nested ts ts') (=) (keep_longer tr m b) (keep_longer tr m' b')"
  using assms by (cases b; cases b') (auto simp: sim_nested_def sim_result_def keep_longer_def rel_option_iff split: option.splits)

lemma receive_candidate_sim:
  assumes "rel_option (rel_prod (=) (sim_result ts ts')) b b'" "sim_match ts ts' c c'"
  shows "sim_run (sim_flow (sim_nested ts ts') (=))
    (receive_candidate plan nested limit tr b c) (receive_candidate plan nested limit tr b' c')"
proof -
  obtain m m' progress where c: "c = (m, progress)" "c' = (m', progress)" "rel_option (sim_result ts ts') m m'"
    using assms(2) by (cases c; cases c') (auto simp: sim_match_def)
  have kept: "sim_nested ts ts' (b, progress) (b', progress)" using assms(1) by (simp add: sim_nested_def)
  show ?thesis
  proof (cases m)
    case None
    with c(3) kept show ?thesis by (simp add: receive_candidate_def c)
  next
    case (Some candidate)
    with c(3) obtain candidate' where m': "m' = Some candidate'" "sim_result ts ts' candidate candidate'"
      by (auto simp: option_rel_Some1)
    with keep_longer_sim [OF m'(2) kept] kept Some c(3) show ?thesis
      unfolding receive_candidate_def c prod.case m'(1) Some option.case
      by (intro sim_run_lift_bind) (simp add: sim_result_def)
  qed
qed

lemma try_nested_sim:
  assumes "same_terminals ts ts'" "sim_recur ts ts' f g" "sim_nested ts ts' b b'"
  shows "sim_run (sim_flow (sim_nested ts ts') (=))
    (try_nested f plan ts found cursor limit active tr b) (try_nested g plan ts' found cursor limit active tr b')"
proof -
  from assms(3) have b: "rel_option (rel_prod (=) (sim_result ts ts')) (fst b) (fst b')" "snd b = snd b'"
    by (cases b; cases b'; simp add: sim_nested_def)+
  show ?thesis
    unfolding try_nested_def Let_def island_limit_same [OF assms(1)]
  proof (intro sim_run_lift_bind)
    fix nested_limit
    show "sim_run (sim_flow (sim_nested ts ts') (=))
      (case nested_limit of None \<Rightarrow> Some (Inr (Go b))
       | Some l \<Rightarrow> run_bind (f (nat (transition_input tr)) cursor l active (snd b))
           (receive_candidate plan (nat (transition_input tr)) l tr (fst b)))
      (case nested_limit of None \<Rightarrow> Some (Inr (Go b'))
       | Some l \<Rightarrow> run_bind (g (nat (transition_input tr)) cursor l active (snd b'))
           (receive_candidate plan (nat (transition_input tr)) l tr (fst b')))"
    proof (cases nested_limit)
      case (Some l)
      from assms(2) b have "sim_run (sim_match ts ts') (f (nat (transition_input tr)) cursor l active (snd b))
          (g (nat (transition_input tr)) cursor l active (snd b'))" by (simp add: sim_recur_def)
      then show ?thesis unfolding Some option.case by (rule sim_run_bind) (rule receive_candidate_sim [OF b(1)])
    next
      case None
      with assms(3) show ?thesis by (cases b') simp
    qed
  qed
qed

lemma choose_edge_sim:
  assumes "sim_flow (sim_nested ts ts') (=) outcome outcome'" "list_all2 (sim_edge ts ts') edges edges'" "cursor < length ts"
  shows "sim_flow (sim_cursor ts ts') (sim_end ts ts')
    (choose_edge terminal (ts ! cursor) state cursor edges ordinal outcome)
    (choose_edge terminal (ts' ! cursor) state cursor edges' ordinal outcome')"
proof (cases outcome)
  case (Leave progress)
  with assms(1) show ?thesis by (simp add: choose_edge_def sim_end_def)
next
  case (Go b)
  with assms(1) obtain b' where outcome': "outcome' = Go b'" "sim_nested ts ts' b b'" by auto
  have token: "sim_flow (sim_cursor ts ts') (sim_end ts ts')
      (read_terminal tr (ts ! cursor) cursor edges ordinal progress) (read_terminal tr (ts' ! cursor) cursor edges' ordinal progress)"
    for tr progress
    using assms(2,3) by (simp add: read_terminal_def sim_cursor_def list_all2_appendI sim_token)
  have child: "sim_flow (sim_cursor ts ts') (sim_end ts ts')
      (read_nested (tr, m) edges ordinal progress) (read_nested (tr, m') edges' ordinal progress)"
    if "sim_result ts ts' m m'" for tr m m' progress
    using that assms(2) by (cases m; cases m') (simp add: read_nested_def sim_cursor_def sim_result_def list_all2_appendI sim_child)
  obtain best progress where b: "b = (best, progress)" by (cases b)
  show ?thesis
  proof (cases best)
    case None
    with outcome'(2) b have "b' = (None, progress)" by (cases b') (simp add: sim_nested_def)
    with Go outcome'(1) b None token assms(2) show ?thesis
      by (cases terminal) (simp_all add: choose_edge_def sim_end_def)
  next
    case (Some nested)
    with outcome'(2) b obtain tr m m' where nested: "nested = (tr, m)" "b' = (Some (tr, m'), progress)" "sim_result ts ts' m m'"
      by (cases b'; cases nested) (auto simp: sim_nested_def option_rel_Some1)
    then have "snd m = snd m'" by (simp add: sim_result_def)
    with Go outcome'(1) b Some nested token child [OF nested(3)] show ?thesis
      by (cases terminal) (simp_all add: choose_edge_def sim_end_def)
  qed
qed

lemma island_step_sim:
  assumes "same_terminals ts ts'" "sim_recur ts ts' f g" "sim_cursor ts ts' s s'"
  shows "sim_run (sim_flow (sim_cursor ts ts') (sim_end ts ts'))
    (island_step f plan ts found plan_island island_id limit active s)
    (island_step g plan ts' found plan_island island_id limit active s')"
proof -
  obtain state cursor edges ordinal progress where s: "s = (state, cursor, edges, ordinal, progress)"
    by (cases s) auto
  with assms(3) obtain edges' where s': "s' = (state, cursor, edges', ordinal, progress)"
      and edges: "list_all2 (sim_edge ts ts') edges edges'"
    by (cases s') (auto simp: sim_cursor_def)
  note same = same_terminals_length [OF assms(1)]
  show ?thesis
  proof (cases "cursor \<ge> limit")
    case True
    with s s' edges show ?thesis by (simp add: island_step_def sim_end_def)
  next
    case False
    show ?thesis
    proof (cases "cursor < length ts")
      case True
      let ?p = "if cursor \<ge> farthest_token progress
        then \<lparr>farthest_token = cursor, progress_island = island_id, progress_state = state\<rparr> else progress"
      have here: "index_at ts cursor = Inr (ts ! cursor)" "index_at ts' cursor = Inr (ts' ! cursor)"
        using True same by (simp_all add: index_at_def)
      have "sim_run (sim_flow (sim_nested ts ts') (=))
          (for_run (try_nested f plan ts found cursor limit active) trs (None, ?p))
          (for_run (try_nested g plan ts' found cursor limit active) trs (None, ?p))" for trs
        by (rule sim_for) (use try_nested_sim [OF assms(1,2)] in \<open>simp_all add: sim_nested_def\<close>)
      then show ?thesis
        unfolding island_step_def s s' prod.case if_not_P [OF False] Let_def here lift_run_def run_bind_simps
          same_terminals_nth [OF assms(1) True, symmetric]
        by (intro sim_run_lift_bind [unfolded lift_run_def] sim_run_bind, assumption)
           (simp add: choose_edge_sim [OF _ edges True])
    next
      case False': False
      with same have "index_at ts cursor = Inl FrontendPanic" "index_at ts' cursor = Inl FrontendPanic"
        by (simp_all add: index_at_def)
      with False show ?thesis
        unfolding island_step_def s s' prod.case if_not_P [OF False] Let_def
        by (intro sim_run_lift_bind) (simp add: lift_run_def)
    qed
  qed
qed

lemma leave_island_sim:
  assumes "same_terminals ts ts'" "sim_end ts ts' l l'"
  shows "sim_run (sim_match ts ts') (leave_island ts plan_island island_id start l) (leave_island ts' plan_island island_id start l')"
proof -
  note same = same_terminals_length [OF assms(1)]
  obtain r progress where l: "l = (r, progress)" by (cases l)
  show ?thesis
  proof (cases r)
    case None
    with l assms(2) show ?thesis by (cases l') (simp add: leave_island_def sim_end_def sim_match_def)
  next
    case (Some e)
    obtain state cursor edges where e: "e = (state, cursor, edges)" by (cases e)
    with l Some assms(2) obtain edges' where l': "l' = (Some (state, cursor, edges'), progress)"
        and edges: "list_all2 (sim_edge ts ts') edges edges'"
      by (cases l') (auto simp: sim_end_def option_rel_Some1)
    have span: "sim_span ts ts' (tok_start (ts ! start)) (tok_end (ts ! (cursor - 1))) (tok_start (ts' ! start)) (tok_end (ts' ! (cursor - 1)))"
      if "start < cursor" "cursor - 1 < length ts"
      using that unfolding sim_span_def by (intro disjI2 exI [of _ start] exI [of _ "cursor - 1"]) auto
    have points: "start < length ts \<Longrightarrow> token_point ts start = tok_start (ts ! start)"
        "start < length ts \<Longrightarrow> token_point ts' start = tok_start (ts' ! start)"
        "\<not> start < length ts \<Longrightarrow> token_point ts start = 0" "\<not> start < length ts \<Longrightarrow> token_point ts' start = 0"
      using same by (simp_all add: token_point_def)
    show ?thesis
      unfolding l l' Some e leave_island_def prod.case option.case lift_run_def finish_island_def Let_def index_at_def
      using same edges sim_span_empty [of ts ts' start] points
      by (auto simp: sim_match_def sim_result_def intro!: sim_node span [simplified])
  qed
qed

lemma run_active_island_sim:
  assumes "same_terminals ts ts'" "sim_recur ts ts' f g"
  shows "sim_run (sim_match ts ts') (run_active_island f plan ts found island_id start limit active progress)
    (run_active_island g plan ts' found island_id start limit active progress)"
  unfolding run_active_island_def
proof (intro sim_run_lift_bind, rule sim_run_bind [OF sim_while])
  fix plan_island s s'
  assume "sim_cursor ts ts' s s'"
  with assms show "sim_run (sim_flow (sim_cursor ts ts') (sim_end ts ts'))
      (island_step f plan ts found plan_island island_id limit active s)
      (island_step g plan ts' found plan_island island_id limit active s')" by (rule island_step_sim)
next
  fix plan_island :: island
  show "sim_cursor ts ts' (first_state plan_island, start, [], 0, progress) (first_state plan_island, start, [], 0, progress)"
    by (simp add: sim_cursor_def)
next
  fix plan_island l l'
  assume "sim_end ts ts' l l'"
  with assms(1) show "sim_run (sim_match ts ts') (leave_island ts plan_island island_id start l)
      (leave_island ts' plan_island island_id start l')" by (rule leave_island_sim)
qed

lemma run_island_sim:
  assumes "same_terminals ts ts'"
  shows "sim_run (sim_match ts ts') (run_island plan ts found island_id start limit active progress)
    (run_island plan ts' found island_id start limit active progress)"
proof -
  have "p = plan \<longrightarrow> xs = ts \<longrightarrow> fs = found \<longrightarrow>
      sim_run (sim_match ts ts') (Some r) (run_island plan ts' found island_id start limit active progress)"
    if "run_island p xs fs island_id start limit active progress = Some r" for p xs fs island_id start limit active progress r
    using that
  proof (rule run_island.raw_induct [rotated], intro impI, goal_cases)
    case (1 f p xs fs island_id start limit active progress r)
    then have f: "sim_recur ts ts' (f plan ts found) (run_island plan ts' found)"
      unfolding sim_recur_def by (metis option.exhaust sim_run_None)
    from run_active_island_sim [OF assms f] 1 show ?case
      unfolding run_island.simps [of plan ts' found island_id start limit active progress]
      by (auto simp: sim_match_def split: if_splits) metis
  qed
  then show ?thesis by (cases "run_island plan ts found island_id start limit active progress") auto
qed

end
