(* ===== verification/ParserCorrectness.thy ===== *)
theory ParserCorrectness
  imports IslandParser
begin

text \<open>
  What the island parser computes: the tree it returns derives the syntax tokens by the automata of the
  plan, it returns on the plans a generator provides, and delimiters are matched over all tokens as over
  the syntax tokens alone.
\<close>

section \<open>What a parse derives\<close>

text \<open>
  A computation whose result, if there is one, satisfies a predicate, and one that returns a result
  that does.
\<close>

definition ok_run :: "('a \<Rightarrow> bool) \<Rightarrow> 'a run \<Rightarrow> bool" where
  "ok_run P x \<longleftrightarrow> (\<forall>a. x = Some (Inr a) \<longrightarrow> P a)"

definition ok_flow :: "('s \<Rightarrow> bool) \<Rightarrow> ('r \<Rightarrow> bool) \<Rightarrow> ('s, 'r) flow \<Rightarrow> bool" where
  "ok_flow I Q x = (case x of Go s \<Rightarrow> I s | Leave r \<Rightarrow> Q r)"

lemma ok_run_simps [simp]:
  "ok_run P None" "ok_run P (Some (Inl fault))" "ok_run P (Some (Inr a)) = P a"
  "ok_flow I Q (Go s) = I s" "ok_flow I Q (Leave r) = Q r"
  by (simp_all add: ok_run_def ok_flow_def)

lemma ok_bind: "ok_run P m \<Longrightarrow> (\<And>a. P a \<Longrightarrow> ok_run Q (k a)) \<Longrightarrow> ok_run Q (run_bind m k)"
  by (cases m rule: run_cases) auto

lemma ok_lift_bind: "(\<And>a. r = Inr a \<Longrightarrow> ok_run Q (k a)) \<Longrightarrow> ok_run Q (run_bind (lift_run r) k)"
  by (cases r) (auto simp: lift_run_def)

lemma sim_run_ok: "sim_run (\<lambda>a b. a = b \<and> P a) x x \<longleftrightarrow> ok_run P x"
  by (cases x rule: run_cases) auto

lemma sim_flow_ok: "sim_flow (\<lambda>a b. a = b \<and> I a) (\<lambda>a b. a = b \<and> Q a) = (\<lambda>x y. x = y \<and> ok_flow I Q x)"
proof (intro ext)
  show "sim_flow (\<lambda>a b. a = b \<and> I a) (\<lambda>a b. a = b \<and> Q a) x y \<longleftrightarrow> x = y \<and> ok_flow I Q x" for x :: "('a, 'b) flow" and y
    by (cases x) auto
qed

lemma ok_for:
  assumes "\<And>t s. t \<in> set ts \<Longrightarrow> I s \<Longrightarrow> ok_run (ok_flow I Q) (body t s)" "I s"
  shows "ok_run (ok_flow I Q) (for_run body ts s)"
  using sim_for [of ts "\<lambda>a b. a = b \<and> I a" "\<lambda>a b. a = b \<and> Q a" body body s s] assms
  by (simp add: sim_flow_ok sim_run_ok)

lemma ok_while:
  assumes "\<And>s. I s \<Longrightarrow> ok_run (ok_flow I Q) (body s)" "I s"
  shows "ok_run Q (while_run body s)"
  using sim_while [of "\<lambda>a b. a = b \<and> I a" "\<lambda>a b. a = b \<and> Q a" body body s s] assms
  by (simp add: sim_flow_ok sim_run_ok)

text \<open>
  Where an island with paired or separated delimiters runs: from its open terminal to the close that
  matches it.
\<close>

definition delimited :: "frontend_plan \<Rightarrow> token list \<Rightarrow> (nat \<times> nat) list \<Rightarrow> nat \<Rightarrow> nat \<Rightarrow> nat \<Rightarrow> bool" where
  "delimited plan ts found nested i j \<longleftrightarrow> nested < length (boundaries plan) \<and>
     (\<forall>open_terminal close_terminal. boundary_terminals (boundaries plan ! nested) = Some (open_terminal, close_terminal) \<longrightarrow>
        i < length ts \<and> tok_terminal (ts ! i) = open_terminal \<and> (\<exists>close. map_of found i = Some close \<and> j = close + 1))"

fun pending_island :: "pending_node \<Rightarrow> nat" where
  "pending_island (PendingNode island_id s e edges id') = island_id"

text \<open>
  \<open>derives plan ts found node i j\<close>: the node is a run of its island over the tokens from \<open>i\<close> to \<open>j\<close>, from
  the first state to an accepting one, an edge for each token and each nested island, in order.
\<close>

inductive derives :: "frontend_plan \<Rightarrow> token list \<Rightarrow> (nat \<times> nat) list \<Rightarrow> pending_node \<Rightarrow> nat \<Rightarrow> nat \<Rightarrow> bool"
  and island_path :: "frontend_plan \<Rightarrow> token list \<Rightarrow> (nat \<times> nat) list \<Rightarrow> island \<Rightarrow> nat \<Rightarrow> pending_edge list \<Rightarrow> nat \<Rightarrow> nat \<Rightarrow> bool"
  for plan ts found where
  derives_island: "island_id < length (islands plan) \<Longrightarrow>
    island_path plan ts found (islands plan ! island_id) i edges state j \<Longrightarrow>
    state < length (island_states (islands plan ! island_id)) \<Longrightarrow>
    accepting (island_states (islands plan ! island_id) ! state) \<Longrightarrow>
    s = (if i < length ts then tok_start (ts ! i) else 0) \<Longrightarrow> e = (if i < j then tok_end (ts ! (j - 1)) else s) \<Longrightarrow>
    derives plan ts found (PendingNode island_id s e edges id') i j"
| path_start: "island_path plan ts found plan_island i [] (first_state plan_island) i"
| path_token: "island_path plan ts found plan_island i edges state j \<Longrightarrow> state < length (island_states plan_island) \<Longrightarrow>
    tr \<in> set (transitions (island_states plan_island ! state)) \<Longrightarrow> transition_kind tr = TerminalInput \<Longrightarrow>
    j < length ts \<Longrightarrow> transition_input tr = tok_terminal (ts ! j) \<Longrightarrow>
    island_path plan ts found plan_island i (edges @ [PendingEdge (emitted_field tr) (Some (ts ! j)) None (length edges)])
      (next_state tr) (j + 1)"
| path_nested: "island_path plan ts found plan_island i edges state j \<Longrightarrow> state < length (island_states plan_island) \<Longrightarrow>
    tr \<in> set (transitions (island_states plan_island ! state)) \<Longrightarrow> transition_kind tr = IslandInput \<Longrightarrow>
    transition_input tr \<ge> 0 \<Longrightarrow> delimited plan ts found (nat (transition_input tr)) j k \<Longrightarrow>
    pending_island node = nat (transition_input tr) \<Longrightarrow> derives plan ts found node j k \<Longrightarrow>
    island_path plan ts found plan_island i (edges @ [PendingEdge (emitted_field tr) None (Some node) (length edges)])
      (next_state tr) k"

definition derives_match :: "frontend_plan \<Rightarrow> token list \<Rightarrow> (nat \<times> nat) list \<Rightarrow> nat \<Rightarrow> nat \<Rightarrow> island_match \<Rightarrow> bool" where
  "derives_match plan ts found island_id i m \<longleftrightarrow> pending_island (fst m) = island_id \<and> derives plan ts found (fst m) i (snd m)"

definition derives_recur :: "frontend_plan \<Rightarrow> token list \<Rightarrow> (nat \<times> nat) list \<Rightarrow> island_run \<Rightarrow> bool" where
  "derives_recur plan ts found f \<longleftrightarrow> (\<forall>island_id start limit active progress.
     ok_run (\<lambda>(m, _). pred_option (derives_match plan ts found island_id start) m) (f island_id start limit active progress))"

text \<open>A nested match that fits a transition at the cursor.\<close>

definition derives_nested :: "frontend_plan \<Rightarrow> token list \<Rightarrow> (nat \<times> nat) list \<Rightarrow> island_transition list \<Rightarrow> nat \<Rightarrow>
    island_transition \<times> island_match \<Rightarrow> bool" where
  "derives_nested plan ts found trs cursor b \<longleftrightarrow>
     (case b of (tr, m) \<Rightarrow> tr \<in> set trs \<and> transition_kind tr = IslandInput \<and> transition_input tr \<ge> 0 \<and>
        delimited plan ts found (nat (transition_input tr)) cursor (snd m) \<and>
        derives_match plan ts found (nat (transition_input tr)) cursor m)"

lemma try_nested_derives:
  assumes "derives_recur plan ts found f" "tr \<in> set trs" "transition_kind tr = IslandInput"
    "pred_option (derives_nested plan ts found trs cursor) (fst b)"
  shows "ok_run (ok_flow (\<lambda>b. pred_option (derives_nested plan ts found trs cursor) (fst b)) (\<lambda>_. True))
    (try_nested f plan ts found cursor limit active tr b)"
  unfolding try_nested_def Let_def
proof (intro ok_lift_bind)
  fix u :: unit and nested_limit
  assume "ensure (transition_input tr \<ge> 0) FrontendPanic = Inr u"
    and limit: "island_limit (nat (transition_input tr)) cursor limit ts found (boundaries plan) = Inr nested_limit"
  then have nonneg: "transition_input tr \<ge> 0" by (simp add: ensure_def split: if_splits)
  show "ok_run (ok_flow (\<lambda>b. pred_option (derives_nested plan ts found trs cursor) (fst b)) (\<lambda>_. True))
    (case nested_limit of None \<Rightarrow> Some (Inr (Go b))
     | Some l \<Rightarrow> run_bind (f (nat (transition_input tr)) cursor l active (snd b))
         (receive_candidate plan (nat (transition_input tr)) l tr (fst b)))"
  proof (cases nested_limit)
    case (Some l)
    from assms(1) have "ok_run (\<lambda>(m, _). pred_option (derives_match plan ts found (nat (transition_input tr)) cursor) m)
        (f (nat (transition_input tr)) cursor l active (snd b))" by (simp add: derives_recur_def)
    then show ?thesis unfolding Some option.case
    proof (rule ok_bind)
      fix c :: "island_match option \<times> island_progress"
      assume c: "case c of (m, _) \<Rightarrow> pred_option (derives_match plan ts found (nat (transition_input tr)) cursor) m"
      obtain m progress where c': "c = (m, progress)" by (cases c)
      show "ok_run (ok_flow (\<lambda>b. pred_option (derives_nested plan ts found trs cursor) (fst b)) (\<lambda>_. True))
          (receive_candidate plan (nat (transition_input tr)) l tr (fst b) c)"
      proof (cases m)
        case None
        with assms(4) show ?thesis by (simp add: receive_candidate_def c')
      next
        case m: (Some candidate)
        show ?thesis unfolding receive_candidate_def c' prod.case m option.case
        proof (rule ok_lift_bind)
          fix bd
          assume bd: "index_at (boundaries plan) (nat (transition_input tr)) = Inr bd"
          show "ok_run (ok_flow (\<lambda>b. pred_option (derives_nested plan ts found trs cursor) (fst b)) (\<lambda>_. True))
              (Some (Inr (if boundary_terminals bd \<noteq> None \<and> snd candidate \<noteq> l then Go (fst b, progress)
                 else keep_longer tr candidate (fst b, progress))))"
          proof (cases "boundary_terminals bd \<noteq> None \<and> snd candidate \<noteq> l")
            case True
            with assms(4) show ?thesis by simp
          next
            case False
            with limit bd Some have "delimited plan ts found (nat (transition_input tr)) cursor (snd candidate)"
              by (auto simp: island_limit_def delimited_def index_at_def split: option.splits if_splits)
            with c m c' assms(2,3) nonneg have "derives_nested plan ts found trs cursor (tr, candidate)"
              by (simp add: derives_nested_def)
            with assms(4) False show ?thesis by (auto simp: keep_longer_def split: option.splits)
          qed
        qed
      qed
    qed
  qed (use assms(4) in simp)
qed

definition path_invariant :: "frontend_plan \<Rightarrow> token list \<Rightarrow> (nat \<times> nat) list \<Rightarrow> island \<Rightarrow> nat \<Rightarrow> island_cursor \<Rightarrow> bool" where
  "path_invariant plan ts found plan_island start s \<longleftrightarrow>
     (case s of (state, cursor, edges, ordinal, progress) \<Rightarrow>
        island_path plan ts found plan_island start edges state cursor \<and> ordinal = length edges)"

definition path_result :: "frontend_plan \<Rightarrow> token list \<Rightarrow> (nat \<times> nat) list \<Rightarrow> island \<Rightarrow> nat \<Rightarrow> island_end \<Rightarrow> bool" where
  "path_result plan ts found plan_island start l \<longleftrightarrow>
     pred_option (\<lambda>(state, cursor, edges). island_path plan ts found plan_island start edges state cursor) (fst l)"

lemma island_step_derives:
  assumes "derives_recur plan ts found f" "path_invariant plan ts found plan_island start s"
  shows "ok_run (ok_flow (path_invariant plan ts found plan_island start) (path_result plan ts found plan_island start))
    (island_step f plan ts found plan_island island_id limit active s)"
proof -
  obtain state cursor edges ordinal progress where s: "s = (state, cursor, edges, ordinal, progress)" by (cases s) auto
  with assms(2) have path: "island_path plan ts found plan_island start edges state cursor" "ordinal = length edges"
    by (simp_all add: path_invariant_def)
  show ?thesis
  proof (cases "cursor \<ge> limit")
    case True
    with s path show ?thesis by (simp add: island_step_def path_result_def)
  next
    case False
    show ?thesis unfolding island_step_def s prod.case if_not_P [OF False] Let_def
    proof (intro ok_lift_bind)
      fix state_plan t
      assume "index_at (island_states plan_island) state = Inr state_plan" "index_at ts cursor = Inr t"
      then have here: "state < length (island_states plan_island)" "state_plan = island_states plan_island ! state"
          "cursor < length ts" "t = ts ! cursor" by (auto simp: index_at_def split: if_splits)
      let ?trs = "transitions state_plan"
      let ?terminal = "find (\<lambda>tr. transition_kind tr = TerminalInput \<and> transition_input tr = tok_terminal t) ?trs"
      have terminal: "tr \<in> set ?trs \<and> transition_kind tr = TerminalInput \<and> transition_input tr = tok_terminal t"
        if "?terminal = Some tr" for tr using that by (auto simp: find_Some_iff)
      let ?p = "if cursor \<ge> farthest_token progress
        then \<lparr>farthest_token = cursor, progress_island = island_id, progress_state = state\<rparr> else progress"
      have "ok_run (ok_flow (\<lambda>b. pred_option (derives_nested plan ts found ?trs cursor) (fst b)) (\<lambda>_. True))
          (for_run (try_nested f plan ts found cursor limit active) (filter (\<lambda>tr. transition_kind tr = IslandInput) ?trs)
             (None, ?p))"
        by (rule ok_for) (auto intro!: try_nested_derives [OF assms(1)])
      then show "ok_run (ok_flow (path_invariant plan ts found plan_island start) (path_result plan ts found plan_island start))
          (run_bind
            (for_run (try_nested f plan ts found cursor limit active) (filter (\<lambda>tr. transition_kind tr = IslandInput) ?trs)
               (None, ?p))
            (\<lambda>outcome. Some (Inr (choose_edge ?terminal t state cursor edges ordinal outcome))))"
      proof (rule ok_bind)
        fix outcome :: "(nested_match, island_progress) flow"
        assume outcome: "ok_flow (\<lambda>b. pred_option (derives_nested plan ts found ?trs cursor) (fst b)) (\<lambda>_. True) outcome"
        have read: "ok_flow (path_invariant plan ts found plan_island start) (path_result plan ts found plan_island start)
            (read_terminal tr t cursor edges ordinal p)" if "?terminal = Some tr" for tr p
          using terminal [OF that] path here
          by (auto simp: read_terminal_def path_invariant_def intro!: path_token [simplified])
        have nested: "ok_flow (path_invariant plan ts found plan_island start) (path_result plan ts found plan_island start)
            (read_nested b edges ordinal p)" if "derives_nested plan ts found ?trs cursor b" for b p
          using that path here
          by (cases b) (auto simp: read_nested_def path_invariant_def derives_nested_def derives_match_def
            intro!: path_nested [where j = cursor])
        show "ok_run (ok_flow (path_invariant plan ts found plan_island start) (path_result plan ts found plan_island start))
            (Some (Inr (choose_edge ?terminal t state cursor edges ordinal outcome)))"
          using outcome path(1) read nested
          by (auto simp: choose_edge_def path_result_def split: flow.splits option.splits)
      qed
    qed
  qed
qed

lemma run_active_island_derives:
  assumes "derives_recur plan ts found f"
  shows "ok_run (\<lambda>(m, _). pred_option (derives_match plan ts found island_id start) m)
    (run_active_island f plan ts found island_id start limit active progress)"
  unfolding run_active_island_def
proof (rule ok_lift_bind)
  fix plan_island
  assume "index_at (islands plan) island_id = Inr plan_island"
  then have island: "island_id < length (islands plan)" "plan_island = islands plan ! island_id"
    by (auto simp: index_at_def split: if_splits)
  have "ok_run (path_result plan ts found plan_island start)
      (while_run (island_step f plan ts found plan_island island_id limit active) (first_state plan_island, start, [], 0, progress))"
    by (rule ok_while [where I = "path_invariant plan ts found plan_island start"])
      (simp_all add: island_step_derives [OF assms] path_invariant_def path_start)
  then show "ok_run (\<lambda>(m, _). pred_option (derives_match plan ts found island_id start) m)
      (run_bind (while_run (island_step f plan ts found plan_island island_id limit active) (first_state plan_island, start, [], 0, progress))
        (leave_island ts plan_island island_id start))"
  proof (rule ok_bind)
    fix l
    assume l: "path_result plan ts found plan_island start l"
    obtain r p where l': "l = (r, p)" by (cases l)
    show "ok_run (\<lambda>(m, _). pred_option (derives_match plan ts found island_id start) m) (leave_island ts plan_island island_id start l)"
    proof (cases r)
      case None
      with l' show ?thesis by (simp add: leave_island_def)
    next
      case (Some e)
      obtain state cursor edges where e: "e = (state, cursor, edges)" by (cases e)
      with l l' Some have path: "island_path plan ts found plan_island start edges state cursor" by (simp add: path_result_def)
      show ?thesis unfolding leave_island_def l' Some e prod.case option.case
      proof (rule ok_lift_bind)
        fix m
        assume m: "finish_island ts plan_island island_id start state cursor edges = Inr m"
        then show "ok_run (\<lambda>(m, _). pred_option (derives_match plan ts found island_id start) m) (Some (Inr (m, p)))"
          using path island
          by (auto simp: finish_island_def Let_def and_then_eq_Inr index_at_def derives_match_def split: if_splits
            intro!: derives_island)
      qed
    qed
  qed
qed

lemma run_island_derives:
  "ok_run (\<lambda>(m, _). pred_option (derives_match plan ts found island_id start) m)
     (run_island plan ts found island_id start limit active progress)"
proof -
  have "ok_run (\<lambda>(m, _). pred_option (derives_match p xs fs island_id start) m) (Some r)"
    if "run_island p xs fs island_id start limit active progress = Some r" for p xs fs island_id start limit active progress r
    using that
  proof (rule run_island.raw_induct [rotated], goal_cases)
    case (1 f p xs fs island_id start limit active progress r)
    then have f: "derives_recur p xs fs (f p xs fs)"
      unfolding derives_recur_def by (metis ok_run_simps(1) option.exhaust)
    from run_active_island_derives [OF f, of island_id start limit "(island_id, start, limit) # active" progress] 1
    show ?case by (auto split: if_splits)
  qed
  then show ?thesis by (cases "run_island plan ts found island_id start limit active progress") auto
qed

section \<open>Parsing returns\<close>

definition total_run :: "('a \<Rightarrow> bool) \<Rightarrow> 'a run \<Rightarrow> bool" where
  "total_run P x \<longleftrightarrow> (\<exists>a. x = Some (Inr a) \<and> P a)"

lemma total_run_simps [simp]: "total_run P (Some (Inr a)) = P a"
  by (simp add: total_run_def)

lemma total_bind: "total_run P m \<Longrightarrow> (\<And>a. P a \<Longrightarrow> total_run Q (k a)) \<Longrightarrow> total_run Q (run_bind m k)"
  by (auto simp: total_run_def)

lemma total_lift_bind: "r = Inr a \<Longrightarrow> total_run Q (k a) \<Longrightarrow> total_run Q (run_bind (lift_run r) k)"
  by (simp add: lift_run_def)

lemma total_for:
  assumes "\<And>t s. t \<in> set ts \<Longrightarrow> I s \<Longrightarrow> total_run (ok_flow I Q) (body t s)" "I s"
  shows "total_run (ok_flow I Q) (for_run body ts s)"
  using assms
proof (induction ts arbitrary: s)
  case (Cons t ts)
  have "total_run (ok_flow I Q) (body t s)" using Cons.prems by simp
  then show ?case unfolding for_run.simps
  proof (rule total_bind)
    fix x
    assume "ok_flow I Q x"
    then show "total_run (ok_flow I Q) (case x of Go s \<Rightarrow> for_run body ts s | Leave r \<Rightarrow> Some (Inr (Leave r)))"
      using Cons by (cases x) auto
  qed
qed simp

lemma total_while:
  fixes m :: "'s \<Rightarrow> nat"
  assumes "\<And>s. I s \<Longrightarrow> total_run (ok_flow (\<lambda>s'. I s' \<and> m s' < m s) Q) (body s)" "I s"
  shows "total_run Q (while_run body s)"
  using assms(2)
proof (induction s rule: measure_induct_rule [of m])
  case (less s)
  from assms(1) [OF less.prems] obtain x where x: "body s = Some (Inr x)" "ok_flow (\<lambda>s'. I s' \<and> m s' < m s) Q x"
    by (auto simp: total_run_def)
  with less.IH show ?case unfolding while_run.simps [of body s] by (cases x) auto
qed

text \<open>
  What the generator provides: states and islands in range, and no island that a transition enters
  accepts before it has read a token.
\<close>

definition accepts_nothing :: "frontend_plan \<Rightarrow> nat \<Rightarrow> bool" where
  "accepts_nothing plan island_id \<longleftrightarrow>
     (let plan_island = islands plan ! island_id in accepting (island_states plan_island ! first_state plan_island))"

definition well_formed_island :: "frontend_plan \<Rightarrow> island \<Rightarrow> bool" where
  "well_formed_island plan plan_island \<longleftrightarrow> first_state plan_island < length (island_states plan_island) \<and>
     (\<forall>st\<in>set (island_states plan_island). \<forall>tr\<in>set (transitions st).
        next_state tr < length (island_states plan_island) \<and>
        (transition_kind tr = IslandInput \<longrightarrow> 0 \<le> transition_input tr \<and> nat (transition_input tr) < length (islands plan) \<and>
           \<not> accepts_nothing plan (nat (transition_input tr))))"

definition well_formed_plan :: "frontend_plan \<Rightarrow> bool" where
  "well_formed_plan plan \<longleftrightarrow> length (boundaries plan) = length (islands plan) \<and> root_island plan < length (islands plan) \<and>
     list_all (well_formed_island plan) (islands plan)"

definition ordered_matches :: "(nat \<times> nat) list \<Rightarrow> bool" where
  "ordered_matches found \<longleftrightarrow> (\<forall>i j. map_of found i = Some j \<longrightarrow> i \<le> j)"

definition match_bounds :: "frontend_plan \<Rightarrow> nat \<Rightarrow> nat \<Rightarrow> nat \<Rightarrow> island_match option \<times> island_progress \<Rightarrow> bool" where
  "match_bounds plan island_id start limit r \<longleftrightarrow>
     pred_option (\<lambda>m. start \<le> snd m \<and> snd m \<le> limit \<and> (accepts_nothing plan island_id \<or> start < snd m)) (fst r)"

definition total_recur :: "frontend_plan \<Rightarrow> token list \<Rightarrow> island_run \<Rightarrow> (nat \<times> nat \<times> nat) list \<Rightarrow> bool" where
  "total_recur plan ts f active \<longleftrightarrow> (\<forall>island_id start limit progress.
     island_id < length (islands plan) \<longrightarrow> start \<le> limit \<longrightarrow> limit \<le> length ts \<longrightarrow>
     total_run (match_bounds plan island_id start limit) (f island_id start limit active progress))"

definition nested_bounds :: "island_transition list \<Rightarrow> nat \<Rightarrow> nat \<Rightarrow> nested_match \<Rightarrow> bool" where
  "nested_bounds trs cursor limit b \<longleftrightarrow> pred_option (\<lambda>(tr, m). tr \<in> set trs \<and> cursor < snd m \<and> snd m \<le> limit) (fst b)"

lemma island_limit_returns:
  assumes "nested < length bs" "cursor < limit" "ordered_matches found"
  shows "\<exists>l. island_limit nested cursor limit ts found bs = Inr l \<and> pred_option (\<lambda>l. cursor \<le> l \<and> l \<le> limit) l"
proof -
  have "map_of found cursor = Some close \<Longrightarrow> cursor \<le> Suc close" for close
    using assms(3) by (auto simp: ordered_matches_def intro: le_SucI)
  with assms(1,2) show ?thesis by (auto simp: island_limit_def index_at_def split: option.splits)
qed

lemma try_nested_total:
  assumes "length (boundaries plan) = length (islands plan)" "ordered_matches found" "total_recur plan ts f active"
    "tr \<in> set trs" "0 \<le> transition_input tr" "nat (transition_input tr) < length (islands plan)"
    "\<not> accepts_nothing plan (nat (transition_input tr))"
    "cursor < limit" "limit \<le> length ts" "nested_bounds trs cursor limit b"
  shows "total_run (ok_flow (nested_bounds trs cursor limit) (\<lambda>_. True)) (try_nested f plan ts found cursor limit active tr b)"
proof -
  let ?n = "nat (transition_input tr)"
  from island_limit_returns [OF _ assms(8,2), of ?n "boundaries plan" ts] assms(1,6) obtain l where
      l: "island_limit ?n cursor limit ts found (boundaries plan) = Inr l" "pred_option (\<lambda>l. cursor \<le> l \<and> l \<le> limit) l"
    by auto
  have guard: "ensure (transition_input tr \<ge> 0) FrontendPanic = Inr ()" using assms(5) by (simp add: ensure_def)
  show ?thesis unfolding try_nested_def Let_def
  proof (intro total_lift_bind [OF guard] total_lift_bind [OF l(1)])
    show "total_run (ok_flow (nested_bounds trs cursor limit) (\<lambda>_. True))
      (case l of None \<Rightarrow> Some (Inr (Go b))
       | Some l \<Rightarrow> run_bind (f ?n cursor l active (snd b)) (receive_candidate plan ?n l tr (fst b)))"
    proof (cases l)
      case (Some nested_limit)
      with l(2) assms(9) have bounds: "cursor \<le> nested_limit" "nested_limit \<le> limit" "nested_limit \<le> length ts" by simp_all
      with assms(3,6) have "total_run (match_bounds plan ?n cursor nested_limit) (f ?n cursor nested_limit active (snd b))"
        by (simp add: total_recur_def)
      then show ?thesis unfolding Some option.case
      proof (rule total_bind)
        fix c :: "island_match option \<times> island_progress"
        assume c: "match_bounds plan ?n cursor nested_limit c"
        obtain m progress where c': "c = (m, progress)" by (cases c)
        show "total_run (ok_flow (nested_bounds trs cursor limit) (\<lambda>_. True)) (receive_candidate plan ?n nested_limit tr (fst b) c)"
        proof (cases m)
          case None
          with assms(10) show ?thesis by (simp add: receive_candidate_def c' nested_bounds_def)
        next
          case m: (Some candidate)
          with c c' assms(7) bounds have candidate: "cursor < snd candidate" "snd candidate \<le> limit"
            by (simp_all add: match_bounds_def)
          have "ok_flow (nested_bounds trs cursor limit) (\<lambda>_. True) (keep_longer tr candidate (fst b, progress))"
            using candidate assms(4,10) by (auto simp: keep_longer_def nested_bounds_def split: option.splits)
          with assms(1,6,10) show ?thesis
            by (simp add: receive_candidate_def c' m lift_run_def index_at_def nested_bounds_def)
        qed
      qed
    qed (use assms(10) in simp)
  qed
qed

text \<open>Within an island: the state is in range, and the edges have moved the cursor on.\<close>

definition cursor_bounds :: "island \<Rightarrow> nat \<Rightarrow> nat \<Rightarrow> nat \<Rightarrow> nat \<Rightarrow> bool" where
  "cursor_bounds plan_island start limit state cursor \<longleftrightarrow> state < length (island_states plan_island) \<and>
     start \<le> cursor \<and> cursor \<le> limit \<and> (state = first_state plan_island \<or> start < cursor)"

definition cursor_invariant :: "island \<Rightarrow> nat \<Rightarrow> nat \<Rightarrow> island_cursor \<Rightarrow> bool" where
  "cursor_invariant plan_island start limit s \<longleftrightarrow>
     (case s of (state, cursor, _) \<Rightarrow> cursor_bounds plan_island start limit state cursor)"

definition end_bounds :: "island \<Rightarrow> nat \<Rightarrow> nat \<Rightarrow> island_end \<Rightarrow> bool" where
  "end_bounds plan_island start limit l \<longleftrightarrow>
     pred_option (\<lambda>(state, cursor, _). cursor_bounds plan_island start limit state cursor) (fst l)"

lemma island_step_total:
  assumes "length (boundaries plan) = length (islands plan)" "well_formed_island plan plan_island" "ordered_matches found"
    "total_recur plan ts f active" "limit \<le> length ts" "cursor_invariant plan_island start limit s"
  shows "total_run (ok_flow (\<lambda>s'. cursor_invariant plan_island start limit s' \<and> limit - fst (snd s') < limit - fst (snd s))
      (end_bounds plan_island start limit)) (island_step f plan ts found plan_island island_id limit active s)"
proof -
  obtain state cursor edges ordinal progress where s: "s = (state, cursor, edges, ordinal, progress)" by (cases s) auto
  with assms(6) have bounds: "cursor_bounds plan_island start limit state cursor" by (simp add: cursor_invariant_def)
  show ?thesis
  proof (cases "cursor \<ge> limit")
    case True
    with s bounds show ?thesis by (simp add: island_step_def end_bounds_def)
  next
    case False
    with bounds assms(5) have here: "state < length (island_states plan_island)" "cursor < length ts" "cursor < limit"
      by (simp_all add: cursor_bounds_def)
    define state_plan where "state_plan = island_states plan_island ! state"
    with here(1) have member: "state_plan \<in> set (island_states plan_island)" by simp
    have at: "index_at (island_states plan_island) state = Inr state_plan" "index_at ts cursor = Inr (ts ! cursor)"
      using here by (simp_all add: index_at_def state_plan_def)
    let ?trs = "transitions state_plan"
    let ?terminal = "find (\<lambda>tr. transition_kind tr = TerminalInput \<and> transition_input tr = tok_terminal (ts ! cursor)) ?trs"
    have target: "next_state tr < length (island_states plan_island)" if "tr \<in> set ?trs" for tr
      using assms(2) member that by (auto simp: well_formed_island_def)
    let ?p = "if cursor \<ge> farthest_token progress
      then \<lparr>farthest_token = cursor, progress_island = island_id, progress_state = state\<rparr> else progress"
    let ?good = "ok_flow (\<lambda>s'. cursor_invariant plan_island start limit s' \<and> limit - fst (snd s') < limit - fst (snd s))
      (end_bounds plan_island start limit)"
    show ?thesis unfolding island_step_def s prod.case if_not_P [OF False] Let_def
    proof (rule total_lift_bind [OF at(1)], rule total_lift_bind [OF at(2)])
      have "total_run (ok_flow (nested_bounds ?trs cursor limit) (\<lambda>_. True))
          (for_run (try_nested f plan ts found cursor limit active) (filter (\<lambda>tr. transition_kind tr = IslandInput) ?trs)
             (None, ?p))"
      proof (rule total_for)
        fix tr b
        assume tr: "tr \<in> set (filter (\<lambda>tr. transition_kind tr = IslandInput) ?trs)" and b: "nested_bounds ?trs cursor limit b"
        with assms(2) member have "0 \<le> transition_input tr" "nat (transition_input tr) < length (islands plan)"
            "\<not> accepts_nothing plan (nat (transition_input tr))" by (auto simp: well_formed_island_def)
        with tr b show "total_run (ok_flow (nested_bounds ?trs cursor limit) (\<lambda>_. True))
            (try_nested f plan ts found cursor limit active tr b)"
          by (intro try_nested_total [OF assms(1,3,4)]) (simp_all add: here assms(5))
      qed (simp add: nested_bounds_def)
      then show "total_run (ok_flow (\<lambda>s'. cursor_invariant plan_island start limit s' \<and>
            limit - fst (snd s') < limit - fst (snd (state, cursor, edges, ordinal, progress))) (end_bounds plan_island start limit))
          (run_bind
            (for_run (try_nested f plan ts found cursor limit active) (filter (\<lambda>tr. transition_kind tr = IslandInput) ?trs)
               (None, ?p))
            (\<lambda>outcome. Some (Inr (choose_edge ?terminal (ts ! cursor) state cursor edges ordinal outcome))))"
      proof (rule total_bind)
        fix outcome :: "(nested_match, island_progress) flow"
        assume outcome: "ok_flow (nested_bounds ?trs cursor limit) (\<lambda>_. True) outcome"
        have read: "?good (read_terminal tr t cursor edges ordinal p)" if "?terminal = Some tr" for tr t p
        proof -
          from that have "tr \<in> set ?trs" by (auto simp: find_Some_iff)
          with target bounds here show ?thesis
            by (auto simp: read_terminal_def cursor_invariant_def cursor_bounds_def s)
        qed
        have nested: "?good (read_nested (tr, m) edges ordinal p)" if "tr \<in> set ?trs" "cursor < snd m" "snd m \<le> limit" for tr m p
          using that target bounds here
          by (cases m) (auto simp: read_nested_def cursor_invariant_def cursor_bounds_def s)
        have "?good (choose_edge ?terminal (ts ! cursor) state cursor edges ordinal outcome)"
          using outcome read nested bounds
          by (auto simp: choose_edge_def nested_bounds_def end_bounds_def split: flow.splits option.splits)
        then show "total_run (ok_flow (\<lambda>s'. cursor_invariant plan_island start limit s' \<and>
              limit - fst (snd s') < limit - fst (snd (state, cursor, edges, ordinal, progress))) (end_bounds plan_island start limit))
            (Some (Inr (choose_edge ?terminal (ts ! cursor) state cursor edges ordinal outcome)))" by (simp add: s)
      qed
    qed
  qed
qed

lemma run_active_island_total:
  assumes "well_formed_plan plan" "ordered_matches found" "total_recur plan ts f active"
    "island_id < length (islands plan)" "start \<le> limit" "limit \<le> length ts"
  shows "total_run (match_bounds plan island_id start limit)
    (run_active_island f plan ts found island_id start limit active progress)"
proof -
  define plan_island where "plan_island = islands plan ! island_id"
  with assms(1,4) have island: "length (boundaries plan) = length (islands plan)" "well_formed_island plan plan_island"
    by (simp_all add: well_formed_plan_def list_all_length)
  have at: "index_at (islands plan) island_id = Inr plan_island" using assms(4) by (simp add: index_at_def plan_island_def)
  have "total_run (end_bounds plan_island start limit)
      (while_run (island_step f plan ts found plan_island island_id limit active) (first_state plan_island, start, [], 0, progress))"
  proof (rule total_while [where I = "cursor_invariant plan_island start limit" and m = "\<lambda>s. limit - fst (snd s)"])
    show "cursor_invariant plan_island start limit (first_state plan_island, start, [], 0, progress)"
      using island(2) assms(5) by (simp add: cursor_invariant_def cursor_bounds_def well_formed_island_def)
  qed (rule island_step_total [OF island assms(2,3,6)])
  then show ?thesis unfolding run_active_island_def
  proof (intro total_lift_bind [OF at], elim total_bind)
    fix l
    assume l: "end_bounds plan_island start limit l"
    obtain r p where l': "l = (r, p)" by (cases l)
    show "total_run (match_bounds plan island_id start limit) (leave_island ts plan_island island_id start l)"
    proof (cases r)
      case None
      with l' show ?thesis by (simp add: leave_island_def match_bounds_def)
    next
      case (Some e)
      obtain state cursor edges where e: "e = (state, cursor, edges)" by (cases e)
      with l l' Some have "cursor_bounds plan_island start limit state cursor" by (simp add: end_bounds_def)
      with assms(6) show ?thesis
        by (auto simp: leave_island_def l' Some e finish_island_def Let_def index_at_def lift_run_def cursor_bounds_def
          match_bounds_def accepts_nothing_def plan_island_def)
    qed
  qed
qed

text \<open>Each nested call is a key of a finite set that was not active before.\<close>

definition call_keys :: "frontend_plan \<Rightarrow> token list \<Rightarrow> (nat \<times> nat \<times> nat) set" where
  "call_keys plan ts = {..<length (islands plan)} \<times> {..length ts} \<times> {..length ts}"

lemma run_island_total:
  assumes "well_formed_plan plan" "ordered_matches found"
    "island_id < length (islands plan)" "start \<le> limit" "limit \<le> length ts"
  shows "total_run (match_bounds plan island_id start limit) (run_island plan ts found island_id start limit active progress)"
  using assms(3-5)
proof (induction "card (call_keys plan ts - set active)" arbitrary: island_id start limit active progress rule: less_induct)
  case less
  show ?case
  proof (cases "(island_id, start, limit) \<in> set active")
    case True
    then show ?thesis unfolding run_island.simps [of plan ts found island_id start limit active progress]
      by (simp add: match_bounds_def)
  next
    case False
    let ?active = "(island_id, start, limit) # active"
    have "(island_id, start, limit) \<in> call_keys plan ts - set active" "finite (call_keys plan ts - set active)"
      using less.prems False by (auto simp: call_keys_def)
    then have "card (call_keys plan ts - set ?active) < card (call_keys plan ts - set active)"
      by (intro psubset_card_mono) auto
    from less.hyps [OF this] have "total_recur plan ts (run_island plan ts found) ?active" by (simp add: total_recur_def)
    from run_active_island_total [OF assms(1,2) this less.prems] False show ?thesis
      unfolding run_island.simps [of plan ts found island_id start limit active progress] by simp
  qed
qed

section \<open>The leaves of a parse\<close>

fun node_tokens :: "pending_node \<Rightarrow> token list"
  and edges_tokens :: "pending_edge list \<Rightarrow> token list" where
  "node_tokens (PendingNode island_id s e edges id') = edges_tokens edges"
| "edges_tokens [] = []"
| "edges_tokens (PendingEdge field (Some t) child ordinal # es) = t # edges_tokens es"
| "edges_tokens (PendingEdge field None (Some node) ordinal # es) = node_tokens node @ edges_tokens es"
| "edges_tokens (PendingEdge field None None ordinal # es) = edges_tokens es"

lemma edges_tokens_append: "edges_tokens (es @ fs) = edges_tokens es @ edges_tokens fs"
proof (induction es)
  case (Cons e es)
  obtain field t child ordinal where "e = PendingEdge field t child ordinal" by (cases e)
  with Cons show ?case by (cases t; cases child) simp_all
qed simp

lemma derives_tokens:
  "derives plan ts found node i j \<Longrightarrow> i \<le> j \<and> node_tokens node = take (j - i) (drop i ts)"
  "island_path plan ts found plan_island i edges state j \<Longrightarrow> i \<le> j \<and> edges_tokens edges = take (j - i) (drop i ts)"
proof (induction rule: derives_island_path.inducts)
  case (path_token plan_island i edges state j tr)
  then have "j - i < length ts - i" by linarith
  with path_token have "take (j + 1 - i) (drop i ts) = take (j - i) (drop i ts) @ [ts ! j]"
    using take_Suc_conv_app_nth [of "j - i" "drop i ts"] by (simp add: Suc_diff_le)
  with path_token show ?case by (simp add: edges_tokens_append)
next
  case (path_nested plan_island i edges state j tr k node)
  then have "take (k - i) (drop i ts) = take (j - i) (drop i ts) @ take (k - j) (drop j ts)"
    using take_add [of "j - i" "k - j" "drop i ts"] by simp
  with path_nested show ?case by (simp add: edges_tokens_append)
qed simp_all

section \<open>Delimiters and trivia\<close>

text \<open>
  Matching skips trivia: over all tokens it does what it does over the syntax tokens, with the index
  of each syntax token among all.
\<close>

definition numbered :: "nat \<Rightarrow> token list \<Rightarrow> bool" where
  "numbered i tokens \<longleftrightarrow> map tok_index tokens = [i..<i + length tokens]"

lemma numbered_Nil [simp]: "numbered i []"
  by (simp add: numbered_def)

lemma numbered_Cons: "numbered i (t # ts) \<longleftrightarrow> tok_index t = i \<and> numbered (Suc i) ts"
  by (auto simp: numbered_def upt_conv_Cons simp del: upt_Suc)

lemma numbered_nth: "numbered i tokens \<Longrightarrow> k < length tokens \<Longrightarrow> tok_index (tokens ! k) = i + k"
  unfolding numbered_def by (metis add_less_cancel_left nth_map nth_upt)

definition renumber_matches :: "(nat \<Rightarrow> nat) \<Rightarrow> (nat \<times> nat) list \<Rightarrow> (nat \<times> nat) list" where
  "renumber_matches pos = map (\<lambda>(i, j). (pos i, pos j))"

definition renumber_stack :: "(nat \<Rightarrow> nat) \<Rightarrow> (int \<times> nat) list \<Rightarrow> (int \<times> nat) list" where
  "renumber_stack pos = map (\<lambda>(expected, i). (expected, pos i))"

lemma update_renumber:
  "inj pos \<Longrightarrow> AList.update (pos i) (pos j) (renumber_matches pos m) = renumber_matches pos (AList.update i j m)"
  by (induction m) (auto simp: renumber_matches_def inj_eq)

lemma match_tokens_syntax:
  assumes "inj pos" "\<And>k. k < length (syntax_tokens ts) \<Longrightarrow> pos (r + k) = tok_index (syntax_tokens ts ! k)" "numbered i ts"
  shows "match_tokens closers openers i ts (renumber_stack pos stack) (renumber_matches pos m) ds =
    and_then (match_tokens closers openers r (syntax_tokens ts) stack m ds)
      (\<lambda>(stack, m, ds). Inr (renumber_stack pos stack, renumber_matches pos m, ds))"
  using assms(2,3)
proof (induction ts arbitrary: i r stack m ds)
  case (Cons t ts)
  from Cons.prems(2) have t: "tok_index t = i" "numbered (i + 1) ts" by (simp_all add: numbered_Cons)
  show ?case
  proof (cases "tok_terminal t < 0")
    case True
    with Cons.IH [of r "i + 1" stack m ds] Cons.prems(1) t(2) show ?thesis by (simp add: syntax_tokens_def)
  next
    case False
    then have head: "syntax_tokens (t # ts) = t # syntax_tokens ts" by (simp add: syntax_tokens_def)
    from Cons.prems(1) [of 0] head t have here: "pos r = i" by simp
    have rest: "pos (r + 1 + k) = tok_index (syntax_tokens ts ! k)" if "k < length (syntax_tokens ts)" for k
      using Cons.prems(1) [of "Suc k"] head that by simp
    note IH = Cons.IH [of "r + 1" "i + 1", OF rest t(2)]
    have empty: "renumber_stack pos [] = []" by (simp add: renumber_stack_def)
    have pushed: "renumber_stack pos ((expected, r) # stack) = (expected, i) # renumber_stack pos stack" for expected stack
      by (simp add: renumber_stack_def here)
    have updated: "renumber_matches pos (AList.update open_index r m) = AList.update (pos open_index) i (renumber_matches pos m)"
      for open_index m using update_renumber [OF assms(1), of open_index r m] by (simp add: here)
    show ?thesis
    proof (cases "map_of closers (tok_terminal t)")
      case (Some expected)
      with False IH [of "(expected, r) # stack" m ds] show ?thesis by (simp add: head pushed)
    next
      case None
      show ?thesis
      proof (cases "map_of openers (tok_terminal t)")
        case None': None
        with None False IH [of stack m ds] show ?thesis by (simp add: head)
      next
        case (Some opener)
        show ?thesis
        proof (cases stack)
          case Nil
          show ?thesis
          proof (cases "delimiter_diagnostic t (-1) (tok_terminal t)")
            case (Inr d)
            with None Some False Nil IH [of "[]" m "ds @ [d]"] show ?thesis by (simp add: head empty)
          qed (use None Some False Nil in \<open>simp add: head empty\<close>)
        next
          case (Cons top stack')
          obtain expected open_index where top: "top = (expected, open_index)" by (cases top)
          have stack: "renumber_stack pos stack = (expected, pos open_index) # renumber_stack pos stack'"
            by (simp add: Cons top renumber_stack_def)
          show ?thesis
          proof (cases "expected = tok_terminal t")
            case True
            with None Some False IH [of stack' "AList.update open_index r m" ds] show ?thesis
              unfolding stack by (simp add: head Cons top updated)
          next
            case unexpected: False
            show ?thesis
            proof (cases "delimiter_diagnostic t expected (tok_terminal t)")
              case (Inr d)
              with None Some False unexpected IH [of stack' m "ds @ [d]"] show ?thesis
                unfolding stack by (simp add: head Cons top)
            next
              case (Inl fault)
              with None Some False unexpected show ?thesis unfolding stack by (simp add: head Cons top)
            qed
          qed
        qed
      qed
    qed
  qed
qed (simp add: syntax_tokens_def)

lemma match_tokens_bounds:
  assumes "match_tokens closers openers r ts stack m ds = Inr (stack', m', ds')"
    "\<forall>(expected, i)\<in>set stack. i < r" "\<forall>(i, j)\<in>set m. i < j \<and> j < r"
  shows "(\<forall>(i, j)\<in>set m'. i < j \<and> j < r + length ts)"
  using assms
proof (induction ts arbitrary: r stack m ds)
  case (Cons t ts)
  let ?below = "\<lambda>s :: (int \<times> nat) list. \<forall>(expected, i)\<in>set s. i < r"
  have IH: "\<forall>(i, j)\<in>set m'. i < j \<and> j < r + length (t # ts)"
    if "match_tokens closers openers (r + 1) ts s m2 ds2 = Inr (stack', m', ds')"
      "\<forall>(expected, i)\<in>set s. i < r + 1" "\<forall>(i, j)\<in>set m2. i < j \<and> j < r + 1" for s m2 ds2
    using Cons.IH [OF that] by simp
  have later: "\<forall>(expected, i)\<in>set s. i < r + 1" if "?below s" for s using that by (auto intro: less_SucI)
  have kept: "\<forall>(i, j)\<in>set m. i < j \<and> j < r + 1" using Cons.prems(3) by (auto intro: less_SucI)
  have updated: "\<forall>(i, j)\<in>set (AList.update k r m). i < j \<and> j < r + 1" if "k < r" for k
  proof -
    have "set (AList.update k r m) \<subseteq> insert (k, r) (set m)" by (induction m) auto
    with kept that show ?thesis by auto
  qed
  show ?case
  proof (cases "tok_terminal t < 0")
    case True
    with Cons.prems(1) show ?thesis by (intro IH [OF _ later [OF Cons.prems(2)] kept]) simp
  next
    case syntactic: False
    show ?thesis
    proof (cases "map_of closers (tok_terminal t)")
      case (Some expected)
      have pushed: "\<forall>(expected, i)\<in>set ((expected, r) # stack). i < r + 1" using later [OF Cons.prems(2)] by simp
      from Cons.prems(1) Some syntactic have
          "match_tokens closers openers (r + 1) ts ((expected, r) # stack) m ds = Inr (stack', m', ds')" by simp
      from IH [OF this pushed kept] show ?thesis .
    next
      case None
      show ?thesis
      proof (cases "map_of openers (tok_terminal t) = None")
        case True
        with Cons.prems(1) None syntactic show ?thesis by (intro IH [OF _ later [OF Cons.prems(2)] kept]) simp
      next
        case closing: False
        show ?thesis
        proof (cases stack)
          case Nil
          with Cons.prems(1) None syntactic closing obtain d where
              "match_tokens closers openers (r + 1) ts [] m (ds @ [d]) = Inr (stack', m', ds')"
            by (auto simp: and_then_eq_Inr)
          from IH [OF this _ kept] show ?thesis by simp
        next
          case (Cons top rest)
          obtain expected k where top: "top = (expected, k)" by (cases top)
          from \<open>?below stack\<close> Cons top have below: "k < r" "?below rest" by auto
          show ?thesis
          proof (cases "expected = tok_terminal t")
            case True
            with \<open>match_tokens closers openers r (t # ts) stack m ds = _\<close> None syntactic closing Cons top show ?thesis
              by (intro IH [OF _ later [OF below(2)] updated [OF below(1)]]) auto
          next
            case False
            with \<open>match_tokens closers openers r (t # ts) stack m ds = _\<close> None syntactic closing Cons top obtain d where
                "match_tokens closers openers (r + 1) ts rest m (ds @ [d]) = Inr (stack', m', ds')"
              by (auto simp: and_then_eq_Inr)
            from IH [OF this later [OF below(2)] kept] show ?thesis .
          qed
        qed
      qed
    qed
  qed
qed simp

lemma match_tokens_grows:
  "match_tokens closers openers r ts stack m ds = Inr (stack', m', ds') \<Longrightarrow> \<exists>es. ds' = ds @ es"
  by (induction closers openers r ts stack m ds rule: match_tokens.induct)
    (fastforce simp: and_then_eq_Inr split: if_splits option.splits list.splits prod.splits)+

lemma match_tokens_same:
  assumes "match_tokens closers openers r ts stack m ds = Inr (stack', m', ds')" "ds' = ds"
    "map tok_terminal ts = map tok_terminal us"
  shows "match_tokens closers openers r us stack m es = Inr (stack', m', es)"
  using assms
proof (induction ts arbitrary: us r stack m)
  case (Cons t ts)
  then obtain u us' where us: "us = u # us'" "tok_terminal u = tok_terminal t" "map tok_terminal ts = map tok_terminal us'"
    by (cases us) auto
  have grows: "match_tokens closers openers (Suc r) ts stack m (ds @ [d]) \<noteq> Inr (stack', m', ds)" for stack m d
    using match_tokens_grows [of closers openers "Suc r" ts stack m "ds @ [d]"] by fastforce
  from Cons.prems(1,2) us Cons.IH grows show ?case
    by (auto simp: and_then_eq_Inr split: if_splits option.splits list.splits)
qed simp

section \<open>Parsing the syntax tokens\<close>

text \<open>Delimiters that match without a diagnostic, as pairs of syntax tokens.\<close>

definition clean_delimiters :: "boundary list \<Rightarrow> token list \<Rightarrow> (nat \<times> nat) list \<Rightarrow> bool" where
  "clean_delimiters bs ts found \<longleftrightarrow> (\<exists>closers openers. closing_terminals bs [] = Inr closers \<and>
     opening_terminals closers [] = Inr openers \<and> match_tokens closers openers 0 ts [] [] [] = Inr ([], found, []))"

lemma clean_delimiters_same:
  "clean_delimiters bs ts found \<Longrightarrow> same_terminals ts us \<Longrightarrow> clean_delimiters bs us found"
  using match_tokens_same unfolding clean_delimiters_def same_terminals_def by blast

lemma clean_delimiters_bounds:
  "clean_delimiters bs ts found \<Longrightarrow> \<forall>(i, j)\<in>set found. i < j \<and> j < length ts"
  using match_tokens_bounds [of _ _ 0 ts "[]" "[]" "[]"] unfolding clean_delimiters_def by fastforce

text \<open>The place of a syntax token among all tokens.\<close>

definition token_place :: "token list \<Rightarrow> nat \<Rightarrow> nat" where
  "token_place tokens r =
     (let ts = syntax_tokens tokens in if r < length ts then tok_index (ts ! r) else length tokens + r)"

lemma syntax_tokens_place:
  assumes "numbered 0 tokens" "r < length (syntax_tokens tokens)"
  shows "token_place tokens r < length tokens \<and> tokens ! token_place tokens r = syntax_tokens tokens ! r"
proof -
  from assms(2) have "syntax_tokens tokens ! r \<in> set tokens" by (metis filter_is_subset nth_mem subsetD syntax_tokens_def)
  then obtain k where "k < length tokens" "syntax_tokens tokens ! r = tokens ! k" by (metis in_set_conv_nth)
  with numbered_nth [OF assms(1)] assms(2) show ?thesis by (simp add: token_place_def)
qed

lemma syntax_tokens_distinct: "numbered i tokens \<Longrightarrow> distinct (map tok_index (syntax_tokens tokens))"
  unfolding numbered_def syntax_tokens_def by (metis distinct_map_filter distinct_upt)

lemma token_place_inj:
  assumes "numbered 0 tokens"
  shows "inj (token_place tokens)"
proof (rule injI)
  fix r s
  assume same: "token_place tokens r = token_place tokens s"
  let ?n = "length (syntax_tokens tokens)"
  consider "r < ?n" "s < ?n" | "r < ?n" "\<not> s < ?n" | "\<not> r < ?n" "s < ?n" | "\<not> r < ?n" "\<not> s < ?n" by blast
  then show "r = s"
  proof cases
    case 1
    with same syntax_tokens_distinct [OF assms] show ?thesis
      by (simp add: token_place_def distinct_conv_nth) (metis nth_map)
  next
    case 2
    with same syntax_tokens_place [OF assms 2(1)] show ?thesis by (simp add: token_place_def)
  next
    case 3
    with same syntax_tokens_place [OF assms 3(2)] show ?thesis by (simp add: token_place_def)
  qed (use same in \<open>simp add: token_place_def\<close>)
qed

lemma syntax_index_place:
  assumes "numbered 0 tokens" "r < length (syntax_tokens tokens)"
  shows "syntax_index (syntax_tokens tokens) (tok_index (tokens ! token_place tokens r)) = Some r"
proof -
  let ?ts = "syntax_tokens tokens"
  let ?entries = "zip (map tok_index ?ts) [0..<length ?ts]"
  have "(tok_index (?ts ! r), r) \<in> set ?entries" using assms(2) by (force simp: set_zip)
  moreover have "distinct (map fst (rev ?entries))" using syntax_tokens_distinct [OF assms(1)] by (simp add: rev_map [symmetric])
  ultimately have "map_of (rev ?entries) (tok_index (?ts ! r)) = Some r" by (intro map_of_is_SomeI) simp_all
  with syntax_tokens_place [OF assms] show ?thesis by (simp add: syntax_index_def)
qed

text \<open>\<open>collect\<close> of the pairs into a map.\<close>

definition collect_matches :: "(nat \<times> nat) list \<Rightarrow> (nat \<times> nat) list \<Rightarrow> (nat \<times> nat) list" where
  "collect_matches found m = fold (\<lambda>(i, j). AList.update i j) found m"

lemma collect_matches_set: "set (collect_matches found m) \<subseteq> set found \<union> set m"
proof (induction found arbitrary: m)
  case (Cons p found)
  obtain i j where p: "p = (i, j)" by (cases p)
  have "set (AList.update i j m) \<subseteq> insert (i, j) (set m)" by (induction m) auto
  with Cons.IH [of "AList.update i j m"] show ?case by (auto simp: collect_matches_def p)
qed (simp add: collect_matches_def)

lemma syntax_matches_place:
  assumes "numbered 0 tokens" "\<forall>(i, j)\<in>set found. i < length (syntax_tokens tokens) \<and> j < length (syntax_tokens tokens)"
  shows "syntax_matches tokens (syntax_index (syntax_tokens tokens)) (renumber_matches (token_place tokens) found) m =
    Inr (collect_matches found m)"
  using assms(2)
proof (induction found arbitrary: m)
  case (Cons p found)
  obtain i j where p: "p = (i, j)" by (cases p)
  with Cons.prems have ij: "i < length (syntax_tokens tokens)" "j < length (syntax_tokens tokens)" by simp_all
  from Cons.IH [of "AList.update i j m"] Cons.prems ij syntax_tokens_place [OF assms(1)] syntax_index_place [OF assms(1)]
  show ?case by (simp add: p renumber_matches_def collect_matches_def index_at_def)
qed (simp add: renumber_matches_def collect_matches_def)

lemma ordered_collect_matches:
  assumes "clean_delimiters bs ts found"
  shows "ordered_matches (collect_matches found [])"
proof -
  have "i < j" if "map_of (collect_matches found []) i = Some j" for i j
    using map_of_SomeD [OF that] collect_matches_set [of found "[]"] clean_delimiters_bounds [OF assms] by auto
  then show ?thesis by (auto simp: ordered_matches_def intro: less_imp_le)
qed

text \<open>Matching all tokens and parsing, by what happens on the syntax tokens.\<close>

lemma match_delimiters_clean:
  assumes "numbered 0 tokens"
  shows "match_delimiters tokens bs [] = Inr (found, []) \<longleftrightarrow>
    (\<exists>inner. clean_delimiters bs (syntax_tokens tokens) inner \<and> found = renumber_matches (token_place tokens) inner)"
    (is "?left \<longleftrightarrow> ?right")
proof -
  have whole: "match_tokens closers openers 0 tokens [] [] [] =
      and_then (match_tokens closers openers 0 (syntax_tokens tokens) [] [] [])
        (\<lambda>(stack, m, ds). Inr (renumber_stack (token_place tokens) stack, renumber_matches (token_place tokens) m, ds))"
    for closers openers
    using match_tokens_syntax [OF token_place_inj [OF assms], of tokens 0 0 closers openers "[]" "[]" "[]"] assms
    by (simp add: renumber_stack_def renumber_matches_def token_place_def)
  have unclosed: "unclosed_diagnostics tokens stack ds = Inr [] \<longleftrightarrow> stack = [] \<and> ds = []" for stack ds
  proof
    assume *: "unclosed_diagnostics tokens stack ds = Inr []"
    have "unclosed_diagnostics tokens stack ds = Inr es \<Longrightarrow> length es = length ds + length stack" for es
      by (induction tokens stack ds rule: unclosed_diagnostics.induct) (auto simp: and_then_eq_Inr)
    from this [OF *] show "stack = [] \<and> ds = []" by simp
  qed simp
  have mapped: "renumber_stack (token_place tokens) stack = [] \<longleftrightarrow> stack = []" for stack by (simp add: renumber_stack_def)
  show ?thesis
    unfolding match_delimiters_def clean_delimiters_def
    by (fastforce simp: and_then_eq_Inr whole unclosed mapped)
qed

lemma match_delimiters_diagnostics:
  "match_delimiters tokens bs ds = Inr (found, ds') \<Longrightarrow> \<exists>es. ds' = ds @ es"
proof -
  assume *: "match_delimiters tokens bs ds = Inr (found, ds')"
  have "unclosed_diagnostics tokens stack ds = Inr ds' \<Longrightarrow> \<exists>es. ds' = ds @ es" for stack ds ds'
    by (induction tokens stack ds arbitrary: ds' rule: unclosed_diagnostics.induct) (fastforce simp: and_then_eq_Inr)+
  with * match_tokens_grows show ?thesis unfolding match_delimiters_def by (fastforce simp: and_then_eq_Inr)
qed

lemma execute_root_island_syntax:
  assumes "numbered 0 tokens" "clean_delimiters bs (syntax_tokens tokens) inner"
  shows "execute_root_island tokens (renumber_matches (token_place tokens) inner) plan ds =
    parse_root plan (syntax_tokens tokens) (collect_matches inner []) ds"
proof -
  from clean_delimiters_bounds [OF assms(2)] have
      "\<forall>(i, j)\<in>set inner. i < length (syntax_tokens tokens) \<and> j < length (syntax_tokens tokens)" by fastforce
  from syntax_matches_place [OF assms(1) this] show ?thesis by (simp add: execute_root_island_def lift_run_def)
qed

lemma parse_root_sim:
  assumes "same_terminals ts us" "parse_root plan ts found ds = Some (Inr (Some root, ds'))"
  shows "ds' = ds \<and> (\<exists>root'. parse_root plan us found es = Some (Inr (Some root', es)) \<and> sim_node ts us root root')"
proof -
  let ?start = "\<lparr>farthest_token = 0, progress_island = root_island plan, progress_state = 0\<rparr>"
  have size: "length ts = length us" by (rule same_terminals_length [OF assms(1)])
  obtain m progress where m: "run_island plan ts found (root_island plan) 0 (length ts) [] ?start = Some (Inr (m, progress))"
    using assms(2)
    by (cases "run_island plan ts found (root_island plan) 0 (length ts) [] ?start" rule: run_cases)
      (auto simp: parse_root_def)
  with assms(2) have left: "m = Some (root, length ts)" "ds' = ds"
    by (auto simp: parse_root_def lift_run_def and_then_def split: option.splits sum.splits if_splits prod.splits)
  from run_island_sim [OF assms(1), of plan found "root_island plan" 0 "length ts" "[]" ?start] m left(1) obtain root' where
      "run_island plan us found (root_island plan) 0 (length us) [] ?start = Some (Inr (Some (root', length us), progress))"
      "sim_node ts us root root'"
    by (auto simp: sim_match_def sim_result_def option_rel_Some1 size)
  with left show ?thesis by (auto simp: parse_root_def)
qed

lemma parse_root_derives:
  assumes "parse_root plan ts found ds = Some (Inr (Some root, ds'))"
  shows "pending_island root = root_island plan \<and> derives plan ts found root 0 (length ts)"
proof -
  let ?start = "\<lparr>farthest_token = 0, progress_island = root_island plan, progress_state = 0\<rparr>"
  obtain m progress where m: "run_island plan ts found (root_island plan) 0 (length ts) [] ?start = Some (Inr (m, progress))"
    using assms
    by (cases "run_island plan ts found (root_island plan) 0 (length ts) [] ?start" rule: run_cases)
      (auto simp: parse_root_def)
  with assms have "m = Some (root, length ts)"
    by (auto simp: parse_root_def lift_run_def and_then_def split: option.splits sum.splits if_splits prod.splits)
  with run_island_derives [of plan ts found "root_island plan" 0 "length ts" "[]" ?start] m show ?thesis
    by (simp add: derives_match_def)
qed

lemma parse_root_total:
  assumes "well_formed_plan plan" "ordered_matches found" "\<forall>t\<in>set ts. tok_start t < 2 ^ 32 \<and> tok_end t < 2 ^ 32"
  shows "\<exists>root ds'. parse_root plan ts found ds = Some (Inr (root, ds')) \<and> (root = None \<longrightarrow> ds' \<noteq> [])"
proof -
  let ?start = "\<lparr>farthest_token = 0, progress_island = root_island plan, progress_state = 0\<rparr>"
  from assms(1) have "root_island plan < length (islands plan)" by (simp add: well_formed_plan_def)
  from run_island_total [OF assms(1,2) this, of 0 "length ts" ts "[]" ?start] obtain m progress where
      m: "run_island plan ts found (root_island plan) 0 (length ts) [] ?start = Some (Inr (m, progress))"
        "match_bounds plan (root_island plan) 0 (length ts) (m, progress)" by (auto simp: total_run_def)
  have span: "syntax_diagnostic (tok_start (ts ! k)) (tok_end (ts ! k)) n = Inr (SyntaxError (tok_start (ts ! k)) (tok_end (ts ! k)) n)"
    if "k < length ts" for k n
    using assms(3) nth_mem [OF that] by (simp add: syntax_diagnostic_def source_span_def ensure_def)
  show ?thesis
  proof (cases m)
    case None
    with m(1) span show ?thesis
      by (auto simp: parse_root_def lift_run_def syntax_diagnostic_def source_span_def ensure_def)
  next
    case (Some r)
    obtain root k where r: "r = (root, k)" by (cases r)
    with Some m(2) have "k \<le> length ts" by (simp add: match_bounds_def)
    with m(1) Some r span show ?thesis by (auto simp: parse_root_def lift_run_def index_at_def)
  qed
qed

text \<open>Delimiters of a plan that agree, so that matching answers.\<close>

definition consistent_delimiters :: "boundary list \<Rightarrow> bool" where
  "consistent_delimiters bs \<longleftrightarrow>
     (case closing_terminals bs [] of Inl fault \<Rightarrow> False
      | Inr closers \<Rightarrow> (case opening_terminals closers [] of Inl fault \<Rightarrow> False | Inr openers \<Rightarrow> True))"

lemma match_delimiters_total:
  assumes "consistent_delimiters bs" "\<forall>t\<in>set tokens. tok_start t < 2 ^ 32 \<and> tok_end t < 2 ^ 32"
  shows "\<exists>found ds'. match_delimiters tokens bs ds = Inr (found, ds')"
proof -
  from assms(1) obtain closers openers where
      delimiters: "closing_terminals bs [] = Inr closers" "opening_terminals closers [] = Inr openers"
    by (auto simp: consistent_delimiters_def split: sum.splits)
  have diagnostic: "\<exists>d. delimiter_diagnostic t expected received = Inr d" if "t \<in> set tokens" for t expected received
    using assms(2) that by (auto simp: delimiter_diagnostic_def source_span_def ensure_def)
  have matched: "\<exists>stack' m' ds'. match_tokens closers openers i ts stack m ds = Inr (stack', m', ds') \<and>
      (\<forall>(expected, k)\<in>set stack'. k < i + length ts)"
    if "set ts \<subseteq> set tokens" "\<forall>(expected, k)\<in>set stack. k < i" for ts i stack m ds
    using that
  proof (induction ts arbitrary: i stack m ds)
    case (Cons t ts)
    from Cons.prems have t: "t \<in> set tokens" "set ts \<subseteq> set tokens" by auto
    have IH: "\<exists>stack' m' ds'. match_tokens closers openers (Suc i) ts s m ds = Inr (stack', m', ds') \<and>
        (\<forall>(expected, k)\<in>set stack'. k < i + length (t # ts))" if "\<forall>(expected, k)\<in>set s. k < Suc i" for s m ds
      using Cons.IH [OF t(2), of s "Suc i"] that by simp
    have later: "\<forall>(expected, k)\<in>set s. k < Suc i" if "set s \<subseteq> set stack" for s :: "(int \<times> nat) list"
      using that Cons.prems(2) by fastforce
    consider (skip) "tok_terminal t < 0 \<or> (map_of closers (tok_terminal t) = None \<and> map_of openers (tok_terminal t) = None)"
      | (opens) expected where "\<not> tok_terminal t < 0" "map_of closers (tok_terminal t) = Some expected"
      | (unopened) opener where "\<not> tok_terminal t < 0" "map_of closers (tok_terminal t) = None"
          "map_of openers (tok_terminal t) = Some opener" "stack = []"
      | (closes) opener expected k rest where "\<not> tok_terminal t < 0" "map_of closers (tok_terminal t) = None"
          "map_of openers (tok_terminal t) = Some opener" "stack = (expected, k) # rest"
      by (cases stack; cases "map_of closers (tok_terminal t)"; cases "map_of openers (tok_terminal t)"; force)
    then show ?case
    proof cases
      case skip
      with IH [OF later] show ?thesis by auto
    next
      case (opens expected)
      with IH [of "(expected, i) # stack"] later [of stack] show ?thesis by simp
    next
      case (unopened opener)
      with IH [of "[]"] diagnostic [OF t(1), of "- 1" "tok_terminal t"] show ?thesis by auto
    next
      case (closes opener expected k rest)
      with later [of rest] have "\<forall>(expected, k)\<in>set rest. k < Suc i" by auto
      from IH [OF this] closes diagnostic [OF t(1), of expected "tok_terminal t"] show ?thesis
        by (cases "expected = tok_terminal t") auto
    qed
  qed auto
  have unclosed: "\<exists>ds'. unclosed_diagnostics tokens stack ds = Inr ds'" if "\<forall>(expected, k)\<in>set stack. k < length tokens" for stack ds
    using that
  proof (induction stack arbitrary: ds)
    case (Cons top stack)
    obtain expected k where top: "top = (expected, k)" by (cases top)
    with Cons.prems have k: "index_at tokens k = Inr (tokens ! k)" "tokens ! k \<in> set tokens" by (auto simp: index_at_def)
    from Cons.prems Cons.IH diagnostic [OF k(2), of expected "- 1"] k(1) show ?case by (auto simp: top)
  qed simp
  from matched [of tokens "[]" 0 "[]" ds] obtain stack m ds1 where
      "match_tokens closers openers 0 tokens [] [] ds = Inr (stack, m, ds1)" "\<forall>(expected, k)\<in>set stack. k < length tokens" by auto
  with unclosed [of "rev stack" ds1] delimiters show ?thesis by (auto simp: match_delimiters_def)
qed

end
