(* ===== verification/LexerIncremental.thy ===== *)
theory LexerIncremental
  imports Lexer
begin

text \<open>
  The incremental lexer of \<open>compiler/src/frontend.rs\<close>: after an edit it keeps the tokens whose
  dependencies end before the edit, lexes from there, and shifts the old tokens once it meets one of
  them again in the common suffix. It returns what lexing the new source does.
\<close>

section \<open>Incremental lexing\<close>

text \<open>\<open>checked_add_signed\<close>; a sum beyond \<open>usize\<close> cannot arise from positions in a source.\<close>

definition shifted :: "int \<Rightarrow> nat \<Rightarrow> nat option" where
  "shifted shift n = (if int n + shift < 0 then None else Some (nat (int n + shift)))"

definition token_matches_shifted :: "token \<Rightarrow> token \<Rightarrow> int \<Rightarrow> bool" where
  "token_matches_shifted current previous shift \<longleftrightarrow>
     shifted shift (tok_start previous) = Some (tok_start current) \<and>
     shifted shift (tok_end previous) = Some (tok_end current) \<and>
     shifted shift (tok_dependency previous) = Some (tok_dependency current) \<and>
     tok_terminal previous = tok_terminal current \<and>
     tok_identity previous = tok_identity current"

definition expect_shifted :: "int \<Rightarrow> nat \<Rightarrow> (frontend_fault, nat) result" where
  "expect_shifted shift n = (case shifted shift n of None \<Rightarrow> Inl FrontendPanic | Some k \<Rightarrow> Inr k)"

definition shift_token :: "token \<Rightarrow> int \<Rightarrow> nat \<Rightarrow> (frontend_fault, token) result" where
  "shift_token t shift output_index =
     and_then (expect_shifted shift (tok_start t)) (\<lambda>s.
     and_then (expect_shifted shift (tok_end t)) (\<lambda>e.
     and_then (expect_shifted shift (tok_dependency t)) (\<lambda>d.
       Inr \<lparr>tok_terminal = tok_terminal t, tok_start = s, tok_end = e, tok_identity = tok_identity t,
         tok_index = output_index, tok_dependency = d\<rparr>)))"

text \<open>\<open>zip(..).position(..)\<close> and the loop over the common suffix.\<close>

fun common_prefix :: "'a list \<Rightarrow> 'a list \<Rightarrow> nat" where
  "common_prefix (x # xs) (y # ys) = (if x = y then Suc (common_prefix xs ys) else 0)"
| "common_prefix _ _ = 0"

definition common_suffix :: "'a list \<Rightarrow> 'a list \<Rightarrow> nat \<Rightarrow> nat" where
  "common_suffix xs ys limit = common_prefix (take limit (rev xs)) (take limit (rev ys))"

fun first_index :: "('a \<Rightarrow> bool) \<Rightarrow> 'a list \<Rightarrow> nat option" where
  "first_index P [] = None"
| "first_index P (x # xs) = (if P x then Some 0 else map_option Suc (first_index P xs))"

definition reusable_index :: "token list \<Rightarrow> nat \<Rightarrow> nat \<Rightarrow> nat \<Rightarrow> int \<Rightarrow> token \<Rightarrow> nat option" where
  "reusable_index old prefix new_suffix old_suffix shift t =
     (if tok_start t < new_suffix then None
      else
        (case shifted (- shift) (tok_start t) of
           None \<Rightarrow> None
         | Some old_start \<Rightarrow>
             if old_start < old_suffix then None
             else
               (case first_index (\<lambda>o'. tok_start o' = old_start) (drop prefix old) of
                  None \<Rightarrow> None
                | Some k \<Rightarrow> if token_matches_shifted t (old ! (prefix + k)) shift then Some (prefix + k) else None)))"

fun shift_tokens :: "token list \<Rightarrow> int \<Rightarrow> nat \<Rightarrow> (frontend_fault, token list) result" where
  "shift_tokens [] shift i = Inr []"
| "shift_tokens (t # ts) shift i =
     and_then (shift_token t shift i) (\<lambda>t. and_then (shift_tokens ts shift (Suc i)) (\<lambda>ts. Inr (t # ts)))"

text \<open>The loop of \<open>lex_incremental\<close> from \<open>relex_start\<close> on; \<open>i\<close> counts the tokens kept and pushed.\<close>

function relex ::
  "lexer_tables \<Rightarrow> int list \<Rightarrow> 16 word list \<Rightarrow> (token \<Rightarrow> nat option) \<Rightarrow> token list \<Rightarrow> int \<Rightarrow> nat \<Rightarrow> nat \<Rightarrow>
   (frontend_fault, token list \<times> frontend_diagnostic list) result" where
  "relex lx classes source reusable old shift position i =
     (if position \<ge> length source then Inr ([], [])
      else
        and_then (lex_at lx classes source position i) (\<lambda>r.
          case r of
            Lexed t \<Rightarrow>
              (case reusable t of
                 Some k \<Rightarrow> and_then (shift_tokens (drop k old) shift i) (\<lambda>ts. Inr (ts, []))
               | None \<Rightarrow>
                   and_then (relex lx classes source reusable old shift (tok_end t) (i + 1)) (\<lambda>(ts, ds). Inr (t # ts, ds)))
          | Unlexed d next_position \<Rightarrow>
              and_then (relex lx classes source reusable old shift next_position i) (\<lambda>(ts, ds). Inr (ts, d # ds))))"
  by pat_completeness auto
termination relex
proof (relation "measure (\<lambda>(lx, classes, source, reusable, old, shift, position, i). length source - position)", goal_cases)
  case (2 lx classes source reusable old shift position i r t)
  from lex_at_advances [OF 2(2)] 2(1,3) show ?case by (auto simp: not_le)
next
  case (3 lx classes source reusable old shift position i r d next_position)
  from lex_at_advances [OF 3(2)] 3(1,3) show ?case by (auto simp: not_le)
qed simp

declare relex.simps [simp del]

definition lex_incremental ::
  "lexer_tables \<Rightarrow> int list \<Rightarrow> 16 word list \<Rightarrow> 16 word list \<Rightarrow> token list \<Rightarrow>
   (frontend_fault, token list \<times> frontend_diagnostic list) result" where
  "lex_incremental lx classes source old_source old =
     (if source = old_source then Inr (old, [])
      else
        (let edit_start = common_prefix source old_source;
             prefix = (case first_index (\<lambda>t. tok_dependency t \<ge> edit_start) old of None \<Rightarrow> length old | Some k \<Rightarrow> k);
             relex_start = min (if prefix < length old then tok_start (old ! prefix) else length old_source) (length source);
             suffix = common_suffix source old_source
               (min (length source - edit_start) (length old_source - edit_start));
             new_suffix = length source - suffix;
             old_suffix = length old_source - suffix;
             shift = int (length source) - int (length old_source)
         in and_then
              (relex lx classes source (reusable_index old prefix new_suffix old_suffix shift) old shift relex_start prefix)
              (\<lambda>(ts, ds). Inr (take prefix old @ ts, ds))))"

section \<open>An edit leaves the tokens before it\<close>

text \<open>Two sources that agree before \<open>e\<close>. What the lexer has not read past \<open>e\<close> does not change.\<close>

definition agree :: "nat \<Rightarrow> 16 word list \<Rightarrow> 16 word list \<Rightarrow> bool" where
  "agree e source source' \<longleftrightarrow> e \<le> length source \<and> e \<le> length source' \<and> take e source = take e source'"

lemma agree_nth: "agree e source source' \<Longrightarrow> p < e \<Longrightarrow> source ! p = source' ! p"
  by (metis agree_def nth_take)

lemma source_code_point_local:
  assumes "agree e source source'" "source_code_point source p = (code_point, width)" "p + width < e"
  shows "source_code_point source' p = (code_point, width)"
proof -
  have "width > 0" using width_positive [of code_point width source p] assms(2) by simp
  with assms(3) have "p < e" "p + 1 < e" by simp_all
  with assms(1) have "source ! p = source' ! p" "source ! (p + 1) = source' ! (p + 1)"
      "p + 1 < length source" "p + 1 < length source'" by (auto intro: agree_nth simp: agree_def)
  with assms(2) show ?thesis by (auto simp: source_code_point_def Let_def split: if_splits)
qed

lemma lex_scan_reached:
  assumes "lex_scan lx source state cursor accepted cursor = Inr (result, reached)"
    "\<forall>e s. accepted = Some (e, s) \<longrightarrow> e \<le> cursor"
  shows "cursor \<le> reached \<and> (\<forall>e s. result = Some (e, s) \<longrightarrow> e \<le> reached)"
  using assms
proof (induction "length source - cursor" arbitrary: state cursor accepted rule: less_induct)
  case less
  from less.prems(1) show ?case
  proof (cases rule: lex_scan_cases)
    case (step code_point width target spec)
    from step(1,3) have shorter: "length source - (cursor + width) < length source - cursor" by simp
    have "\<forall>e s. (if spec \<ge> 0 then Some (cursor + width, nat spec) else accepted) = Some (e, s) \<longrightarrow> e \<le> cursor + width"
      using less.prems(2) by (cases "spec \<ge> 0") auto
    from less.hyps [OF shorter step(7) this] show ?thesis by auto
  qed (use less.prems(2) in force)+
qed

lemma lex_scan_local:
  assumes "lex_scan lx source state cursor accepted cursor = Inr (result, reached)" "reached < e" "agree e source source'"
    "\<forall>e s. accepted = Some (e, s) \<longrightarrow> e \<le> cursor"
  shows "lex_scan lx source' state cursor accepted cursor = Inr (result, reached)"
  using assms(1,4)
proof (induction "length source - cursor" arbitrary: state cursor accepted rule: less_induct)
  case less
  have "e \<le> length source" "e \<le> length source'" using assms(3) by (simp_all add: agree_def)
  note bounds = this assms(2)
  from less.prems(1) show ?case
  proof (cases rule: lex_scan_cases)
    case stop
    with bounds show ?thesis by simp
  next
    case (stuck code_point width)
    with bounds have "source_code_point source' cursor = (code_point, width)" "cursor < length source'"
      by (auto intro: source_code_point_local [OF assms(3)])
    with stuck show ?thesis by (simp add: lex_scan_last)
  next
    case (step code_point width target spec)
    from step(1,3) have shorter: "length source - (cursor + width) < length source - cursor" by simp
    have earlier: "\<forall>e s. (if spec \<ge> 0 then Some (cursor + width, nat spec) else accepted) = Some (e, s) \<longrightarrow> e \<le> cursor + width"
      using less.prems(2) by (cases "spec \<ge> 0") auto
    from lex_scan_reached [OF step(7) earlier] bounds have "cursor + width < e" by simp
    with bounds step(2) have point: "source_code_point source' cursor = (code_point, width)" "cursor < length source'"
      by (auto intro: source_code_point_local [OF assms(3)])
    from less.hyps [OF shorter step(7) earlier] show ?thesis
      unfolding lex_scan_next [OF point(2,1) step(5,6)] .
  qed
qed

text \<open>The token that \<open>lex_at\<close> builds, and the scan behind it.\<close>

lemma lex_at_Lexed:
  "lex_at lx classes source p i = Inr (Lexed t) \<longleftrightarrow>
     (\<exists>e spec reached terminal. lex_scan lx source (start_state lx) p None p = Inr (Some (e, spec), reached) \<and>
        index_at classes spec = Inr terminal \<and>
        t = \<lparr>tok_terminal = terminal, tok_start = p, tok_end = e, tok_identity = int spec, tok_index = i,
          tok_dependency = reached\<rparr>)"
  by (auto simp: lex_at_def and_then_eq_Inr Let_def split: option.splits)

lemma lex_at_dependency:
  assumes "lex_at lx classes source p i = Inr (Lexed t)"
  shows "tok_end t \<le> tok_dependency t"
proof -
  from assms obtain e spec reached where
      "lex_scan lx source (start_state lx) p None p = Inr (Some (e, spec), reached)"
      "tok_end t = e" "tok_dependency t = reached" unfolding lex_at_Lexed by auto
  with lex_scan_reached [OF this(1)] show ?thesis by auto
qed

lemma lex_at_local:
  assumes "lex_at lx classes source p i = Inr (Lexed t)" "tok_dependency t < e" "agree e source source'"
  shows "lex_at lx classes source' p i = Inr (Lexed t)"
proof -
  from assms(1) obtain q spec reached terminal where
      scan: "lex_scan lx source (start_state lx) p None p = Inr (Some (q, spec), reached)" "index_at classes spec = Inr terminal"
        "t = \<lparr>tok_terminal = terminal, tok_start = p, tok_end = q, tok_identity = int spec, tok_index = i,
          tok_dependency = reached\<rparr>" unfolding lex_at_Lexed by auto
  with assms(2) have "reached < e" by simp
  from lex_scan_local [OF scan(1) this assms(3)] scan(2,3) show ?thesis unfolding lex_at_Lexed by auto
qed

text \<open>Lexing without an error ends at the end of the source, and each token starts where the one before ends.\<close>

lemma lex_from_tail:
  assumes "lex_from lx classes source p i = Inr (ts, [])" "k < length ts"
  shows "lex_from lx classes source (tok_start (ts ! k)) (i + k) = Inr (drop k ts, [])"
  using assms
proof (induction k arbitrary: p i ts)
  case 0
  from 0(1) show ?case by (cases rule: lex_from_cases) (use 0 in auto)
next
  case (Suc k)
  from Suc.prems(1) show ?case
  proof (cases rule: lex_from_cases)
    case (token t ts')
    from Suc.IH [OF token(7)] Suc.prems(2) token(8) show ?thesis by simp
  qed (use Suc.prems in auto)
qed

lemma lex_from_last:
  assumes "lex_from lx classes source p i = Inr (ts, [])" "ts \<noteq> []"
  shows "length source \<le> tok_dependency (last ts)"
  using assms
proof (induction ts arbitrary: p i)
  case (Cons t ts)
  from Cons.prems(1) show ?case
  proof (cases rule: lex_from_cases)
    case (token t' ts')
    then have same: "t' = t" "ts' = ts" by simp_all
    show ?thesis
    proof (cases "ts = []")
      case True
      with token(7) same have "length source \<le> tok_end t" by (cases rule: lex_from_cases) auto
      with lex_at_dependency [OF token(2)] same True show ?thesis by simp
    next
      case False
      with Cons.IH [of "tok_end t'" "i + 1"] token(7) same show ?thesis by simp
    qed
  qed auto
qed simp

text \<open>The tokens whose dependencies end before an edit stay; lexing goes on after them.\<close>

definition prepend_tokens :: "token list \<Rightarrow> (frontend_fault, token list \<times> frontend_diagnostic list) result \<Rightarrow>
    (frontend_fault, token list \<times> frontend_diagnostic list) result" where
  "prepend_tokens ts r = and_then r (\<lambda>(ts', ds). Inr (ts @ ts', ds))"

lemma prepend_tokens_Nil [simp]: "prepend_tokens [] r = r"
  by (cases r) (auto simp: prepend_tokens_def)

lemma lex_from_token:
  assumes "p < length source" "lex_at lx classes source p i = Inr (Lexed t)"
  shows "lex_from lx classes source p i = prepend_tokens [t] (lex_from lx classes source (tok_end t) (i + 1))"
  unfolding lex_from.simps [of lx classes source p i] prepend_tokens_def using assms by simp

lemma prepend_prepend: "prepend_tokens ts (prepend_tokens ts' r) = prepend_tokens (ts @ ts') r"
  by (cases r) (auto simp: prepend_tokens_def)

lemma lex_from_prefix:
  assumes "lex_from lx classes source p i = Inr (ts, [])" "agree e source source'" "n \<le> length ts"
    "\<forall>t\<in>set (take n ts). tok_dependency t < e" "p \<le> length source"
  shows "lex_from lx classes source' p i =
    prepend_tokens (take n ts)
      (lex_from lx classes source' (if n < length ts then tok_start (ts ! n) else length source) (i + n))"
  using assms(1,3,4,5)
proof (induction n arbitrary: p i ts)
  case 0
  from 0(1) show ?case by (cases rule: lex_from_cases) (use 0 in auto)
next
  case (Suc n)
  from Suc.prems(1) show ?case
  proof (cases rule: lex_from_cases)
    case (token t ts')
    from Suc.prems(3) token(8) have "tok_dependency t < e" by simp
    from lex_at_local [OF token(2) this assms(2)] have t: "lex_at lx classes source' p i = Inr (Lexed t)" .
    from lex_at_dependency [OF token(2)] token(3,4) \<open>tok_dependency t < e\<close> assms(2) have "p < length source'"
      by (simp add: agree_def)
    from Suc.IH [OF token(7)] Suc.prems(2,3) token(5,8) show ?thesis
      unfolding lex_from_token [OF \<open>p < length source'\<close> t] by (simp add: prepend_prepend)
  qed (use Suc.prems in auto)
qed

section \<open>An edit moves the tokens after it\<close>

definition moved :: "nat \<Rightarrow> (nat \<times> nat) option \<Rightarrow> (nat \<times> nat) option" where
  "moved n = map_option (\<lambda>(e, spec). (n + e, spec))"

lemma source_code_point_moved: "source_code_point (a @ b) (length a + p) = source_code_point b p"
  by (cases "p + 1 < length b") (simp_all add: source_code_point_def nth_append Let_def)

lemma lex_scan_moved:
  assumes "lex_scan lx b state p accepted p = Inr (result, reached)"
  shows "lex_scan lx (a @ b) state (length a + p) (moved (length a) accepted) (length a + p) =
    Inr (moved (length a) result, length a + reached)"
  using assms
proof (induction "length b - p" arbitrary: state p accepted rule: less_induct)
  case less
  from less.prems show ?case
  proof (cases rule: lex_scan_cases)
    case stop
    then show ?thesis by (simp add: lex_scan.simps [of lx "a @ b"])
  next
    case (stuck code_point width)
    then have "lex_scan lx (a @ b) state (length a + p) (moved (length a) accepted) (length a + p) =
        Inr (moved (length a) accepted, length a + p + width)"
      by (intro lex_scan_last) (simp_all add: source_code_point_moved)
    with stuck show ?thesis by (simp add: add.assoc)
  next
    case (step code_point width target spec)
    from step(1,3) have shorter: "length b - (p + width) < length b - p" by simp
    have "lex_scan lx (a @ b) state (length a + p) (moved (length a) accepted) (length a + p) =
        lex_scan lx (a @ b) target (length a + p + width)
          (if spec \<ge> 0 then Some (length a + p + width, nat spec) else moved (length a) accepted) (length a + p + width)"
      using step by (intro lex_scan_next) (simp_all add: source_code_point_moved)
    also have "(if spec \<ge> 0 then Some (length a + p + width, nat spec) else moved (length a) accepted) =
        moved (length a) (if spec \<ge> 0 then Some (p + width, nat spec) else accepted)"
      by (simp add: moved_def)
    finally show ?thesis using less.hyps [OF shorter step(7)] by (simp add: add.assoc)
  qed
qed

text \<open>The inverse direction, by what both scans return.\<close>

lemma lex_scan_unmoved:
  assumes "lex_scan lx (a @ b) state (length a + p) (moved (length a) accepted) (length a + p) = Inr (result, reached)"
  obtains result' reached' where "lex_scan lx b state p accepted p = Inr (result', reached')"
    "result = moved (length a) result'" "reached = length a + reached'"
proof (cases "lex_scan lx b state p accepted p")
  case (Inr r)
  then obtain result' reached' where r: "lex_scan lx b state p accepted p = Inr (result', reached')" by (cases r) auto
  with lex_scan_moved [OF r, of a] assms show ?thesis by (intro that) auto
next
  case (Inl fault)
  from assms Inl have False
  proof (induction "length b - p" arbitrary: state p accepted rule: less_induct)
    case less
    from less.prems(1) show ?case
    proof (cases rule: lex_scan_cases)
      case stop
      with less.prems(2) show ?thesis by (simp add: lex_scan.simps [of lx b])
    next
      case (stuck code_point width)
      with less.prems(2) show ?thesis by (simp add: source_code_point_moved lex_scan_last)
    next
      case (step code_point width target spec)
      from step(1,3) have shorter: "length b - (p + width) < length b - p" by simp
      have point: "p < length b" "source_code_point b p = (code_point, width)"
        using step(1,2) by (simp_all add: source_code_point_moved)
      have "(if spec \<ge> 0 then Some (length a + p + width, nat spec) else moved (length a) accepted) =
          moved (length a) (if spec \<ge> 0 then Some (p + width, nat spec) else accepted)"
        by (simp add: moved_def)
      with step(7) have "lex_scan lx (a @ b) target (length a + (p + width))
          (moved (length a) (if spec \<ge> 0 then Some (p + width, nat spec) else accepted)) (length a + (p + width)) =
          Inr (result, reached)" by (simp add: add.assoc)
      from less.hyps [OF shorter this] less.prems(2) show ?thesis
        by (simp add: lex_scan_next [OF point step(5,6)])
    qed
  qed
  then show ?thesis ..
qed

lemma shifted_between [simp]: "shifted (int n - int m) (m + p) = Some (n + p)"
  by (simp add: shifted_def)

lemma lex_at_moved:
  assumes "lex_at lx classes (a @ b) (length a + p) i = Inr (Lexed t)"
  obtains t' e where "shift_token t (int (length a') - int (length a)) j = Inr t'"
    "lex_at lx classes (a' @ b) (length a' + p) j = Inr (Lexed t')" "tok_end t = length a + e" "tok_end t' = length a' + e"
proof -
  from assms obtain q spec reached terminal where
      scan: "lex_scan lx (a @ b) (start_state lx) (length a + p) (moved (length a) None) (length a + p) = Inr (Some (q, spec), reached)"
      and terminal: "index_at classes spec = Inr terminal"
      and t: "t = \<lparr>tok_terminal = terminal, tok_start = length a + p, tok_end = q, tok_identity = int spec, tok_index = i,
          tok_dependency = reached\<rparr>" unfolding lex_at_Lexed by (auto simp: moved_def)
  from lex_scan_unmoved [OF scan] obtain result' reached' where
      inner: "lex_scan lx b (start_state lx) p None p = Inr (result', reached')"
      and result: "Some (q, spec) = moved (length a) result'" "reached = length a + reached'" by blast
  from result(1) obtain e where e: "result' = Some (e, spec)" "q = length a + e"
    by (cases result') (auto simp: moved_def)
  let ?t' = "\<lparr>tok_terminal = terminal, tok_start = length a' + p, tok_end = length a' + e, tok_identity = int spec,
    tok_index = j, tok_dependency = length a' + reached'\<rparr>"
  from lex_scan_moved [OF inner, of a'] e have
      "lex_scan lx (a' @ b) (start_state lx) (length a' + p) None (length a' + p) = Inr (Some (length a' + e, spec), length a' + reached')"
    by (simp add: moved_def)
  with terminal have "lex_at lx classes (a' @ b) (length a' + p) j = Inr (Lexed ?t')" unfolding lex_at_Lexed by auto
  moreover have "shift_token t (int (length a') - int (length a)) j = Inr ?t'"
    using t e result(2) by (simp add: shift_token_def expect_shifted_def)
  ultimately show ?thesis using t e by (intro that) auto
qed

lemma lex_from_moved:
  assumes "lex_from lx classes (a @ b) (length a + p) i = Inr (ts, [])"
  shows "\<exists>ts'. shift_tokens ts (int (length a') - int (length a)) j = Inr ts' \<and>
    lex_from lx classes (a' @ b) (length a' + p) j = Inr (ts', [])"
  using assms
proof (induction ts arbitrary: p i j)
  case Nil
  from Nil show ?case
    by (cases rule: lex_from_cases) (auto simp: lex_from.simps [of lx classes "a' @ b"])
next
  case (Cons t0 ts0)
  from Cons.prems show ?case
  proof (cases rule: lex_from_cases)
    case (token t ts)
    then have same: "t0 = t" "ts0 = ts" by simp_all
    from lex_at_moved [OF token(2), of a' j] obtain t' e where
        t': "shift_token t (int (length a') - int (length a)) j = Inr t'"
          "lex_at lx classes (a' @ b) (length a' + p) j = Inr (Lexed t')" "tok_end t = length a + e" "tok_end t' = length a' + e"
      by blast
    from Cons.IH [of e "i + 1" "j + 1"] token(7) same t'(3) obtain ts' where
        ts': "shift_tokens ts (int (length a') - int (length a)) (j + 1) = Inr ts'"
          "lex_from lx classes (a' @ b) (length a' + e) (j + 1) = Inr (ts', [])" by auto
    from token(1) have "length a' + p < length (a' @ b)" by simp
    from lex_from_token [OF this t'(2)] ts'(2) t'(4) have
        "lex_from lx classes (a' @ b) (length a' + p) j = Inr (t' # ts', [])" by (simp add: prepend_tokens_def)
    with t'(1) ts'(1) same show ?thesis by simp
  qed auto
qed

section \<open>Incremental lexing is lexing\<close>

lemma common_prefix_le: "common_prefix xs ys \<le> length xs \<and> common_prefix xs ys \<le> length ys"
  by (induction xs ys rule: common_prefix.induct) simp_all

lemma common_prefix_take: "take (common_prefix xs ys) xs = take (common_prefix xs ys) ys"
proof (induction xs ys rule: common_prefix.induct)
  case (1 x xs y ys)
  then show ?case by (cases "x = y") simp_all
qed simp_all

lemma common_prefix_agree: "agree (common_prefix xs ys) xs ys"
  using common_prefix_take [of xs ys] common_prefix_le [of xs ys] by (simp add: agree_def)

lemma common_suffix_drop:
  assumes "n = common_suffix xs ys limit"
  shows "drop (length xs - n) xs = drop (length ys - n) ys \<and> n \<le> length xs \<and> n \<le> length ys"
proof -
  let ?xs = "take limit (rev xs)" and ?ys = "take limit (rev ys)"
  have n: "n = common_prefix ?xs ?ys" using assms by (simp add: common_suffix_def)
  from common_prefix_le [of ?xs ?ys] n have bounds: "n \<le> limit" "n \<le> length xs" "n \<le> length ys" by simp_all
  from common_prefix_take [of ?xs ?ys] n have "take n ?xs = take n ?ys" by simp
  with bounds have "take n (rev xs) = take n (rev ys)" by (simp add: min_def)
  with bounds show ?thesis by (simp add: take_rev)
qed

lemma first_index_Some: "first_index P xs = Some k \<Longrightarrow> k < length xs \<and> P (xs ! k) \<and> (\<forall>i<k. \<not> P (xs ! i))"
  by (induction P xs arbitrary: k rule: first_index.induct) (auto simp: nth_Cons split: if_splits nat.splits)

lemma first_index_None: "first_index P xs = None \<longleftrightarrow> (\<forall>x\<in>set xs. \<not> P x)"
  by (induction P xs rule: first_index.induct) auto

lemma relex_exact:
  assumes "\<And>p i t k. p < length source \<Longrightarrow> lex_at lx classes source p i = Inr (Lexed t) \<Longrightarrow> reusable t = Some k \<Longrightarrow>
      \<exists>ts. shift_tokens (drop k old) shift i = Inr ts \<and> lex_from lx classes source p i = Inr (ts, [])"
  shows "relex lx classes source reusable old shift p i = lex_from lx classes source p i"
proof (induction "length source - p" arbitrary: p i rule: less_induct)
  case less
  show ?case
  proof (cases "p \<ge> length source")
    case True
    then show ?thesis unfolding relex.simps [of lx classes source reusable old shift p i] lex_from.simps [of lx classes source p i]
      by simp
  next
    case False
    then have inside: "p < length source" by simp
    show ?thesis
    proof (cases "lex_at lx classes source p i")
      case (Inl fault)
      with False show ?thesis
        unfolding relex.simps [of lx classes source reusable old shift p i] lex_from.simps [of lx classes source p i] by simp
    next
      case (Inr r)
      note advance = lex_at_advances [OF Inr inside]
      show ?thesis
      proof (cases r)
        case (Lexed t)
        from advance Lexed inside have shorter: "length source - tok_end t < length source - p" by auto
        show ?thesis
        proof (cases "reusable t")
          case None
          with False Inr Lexed less.hyps [OF shorter] show ?thesis
            unfolding relex.simps [of lx classes source reusable old shift p i] lex_from.simps [of lx classes source p i] by simp
        next
          case (Some k)
          from assms [OF inside Inr [unfolded Lexed] Some] obtain ts where
              "shift_tokens (drop k old) shift i = Inr ts" "lex_from lx classes source p i = Inr (ts, [])" by blast
          with False Inr Lexed Some show ?thesis
            unfolding relex.simps [of lx classes source reusable old shift p i] by simp
        qed
      next
        case (Unlexed d next_position)
        from advance Unlexed inside have shorter: "length source - next_position < length source - p" by auto
        from False Inr Unlexed less.hyps [OF shorter] show ?thesis
          unfolding relex.simps [of lx classes source reusable old shift p i] lex_from.simps [of lx classes source p i] by simp
      qed
    qed
  qed
qed

lemma reused_tokens_exact:
  assumes "lex_from lx classes old_source 0 0 = Inr (old, [])"
    "drop (length source - suffix) source = drop (length old_source - suffix) old_source"
    "suffix \<le> length source" "suffix \<le> length old_source"
    "lex_at lx classes source p i = Inr (Lexed t)"
    "reusable_index old prefix (length source - suffix) (length old_source - suffix)
       (int (length source) - int (length old_source)) t = Some k"
  shows "\<exists>ts. shift_tokens (drop k old) (int (length source) - int (length old_source)) i = Inr ts \<and>
    lex_from lx classes source p i = Inr (ts, [])"
proof -
  let ?a' = "take (length source - suffix) source" and ?a = "take (length old_source - suffix) old_source"
    and ?b = "drop (length old_source - suffix) old_source"
  have lengths: "length ?a' = length source - suffix" "length ?a = length old_source - suffix" by simp_all
  have sources: "?a' @ ?b = source" "?a @ ?b = old_source" using assms(2) append_take_drop_id by metis+
  have shift: "int (length source) - int (length old_source) = int (length ?a') - int (length ?a)"
    using assms(3,4) by (simp add: of_nat_diff)
  from assms(5) have start: "tok_start t = p" unfolding lex_at_Lexed by auto
  from assms(6) obtain old_start k0 where
      old: "length source - suffix \<le> p" "shifted (- (int (length source) - int (length old_source))) p = Some old_start"
        "length old_source - suffix \<le> old_start" "first_index (\<lambda>o'. tok_start o' = old_start) (drop prefix old) = Some k0"
        "k = prefix + k0"
    unfolding reusable_index_def start by (auto split: if_splits option.splits)
  define q where "q = p - (length source - suffix)"
  have p: "p = length ?a' + q" using old(1) by (simp add: q_def)
  have "old_start = length ?a + q"
    using old(2) assms(3,4) unfolding p lengths shifted_def by (auto split: if_splits)
  with first_index_Some [OF old(4)] old(5) have k: "k < length old" "tok_start (old ! k) = length ?a + q" by auto
  from lex_from_tail [OF assms(1) k(1)] k(2) have
      "lex_from lx classes (?a @ ?b) (length ?a + q) k = Inr (drop k old, [])" unfolding sources by simp
  from lex_from_moved [OF this, of ?a' i] show ?thesis unfolding sources p shift .
qed

lemma lex_from_adjacent:
  assumes "lex_from lx classes source p i = Inr (ts, [])" "Suc n < length ts"
  shows "tok_start (ts ! Suc n) \<le> tok_dependency (ts ! n)"
proof -
  from assms(2) have "drop n ts = ts ! n # ts ! Suc n # drop (Suc (Suc n)) ts"
    by (metis Cons_nth_drop_Suc Suc_lessD)
  with lex_from_tail [OF assms(1), of n] assms(2) have
      "lex_from lx classes source (tok_start (ts ! n)) (i + n) = Inr (ts ! n # ts ! Suc n # drop (Suc (Suc n)) ts, [])" by simp
  then show ?thesis
  proof (cases rule: lex_from_cases)
    case (token t ts')
    from token(7) token(8) have "tok_start (ts ! Suc n) = tok_end t" by (cases rule: lex_from_cases) auto
    with lex_at_dependency [OF token(2)] token(8) show ?thesis by simp
  qed auto
qed

lemma lex_incremental_exact:
  assumes "lex_from lx classes old_source 0 0 = Inr (old, [])"
  shows "lex_incremental lx classes source old_source old = lex_from lx classes source 0 0"
proof (cases "source = old_source")
  case True
  with assms show ?thesis by (simp add: lex_incremental_def)
next
  case False
  define edit where "edit = common_prefix source old_source"
  define prefix where "prefix = (case first_index (\<lambda>t. tok_dependency t \<ge> edit) old of None \<Rightarrow> length old | Some k \<Rightarrow> k)"
  define suffix where "suffix = common_suffix source old_source (min (length source - edit) (length old_source - edit))"
  define start where "start = (if prefix < length old then tok_start (old ! prefix) else length old_source)"
  define shift where "shift = int (length source) - int (length old_source)"
  define reusable where "reusable = reusable_index old prefix (length source - suffix) (length old_source - suffix) shift"
  have agree: "agree edit old_source source" using common_prefix_agree [of source old_source] by (simp add: edit_def agree_def)
  have bound: "prefix \<le> length old" and kept: "\<forall>t\<in>set (take prefix old). tok_dependency t < edit"
    using first_index_Some [of "\<lambda>t. tok_dependency t \<ge> edit" old] first_index_None [of "\<lambda>t. tok_dependency t \<ge> edit" old]
    by (auto simp: prefix_def in_set_conv_nth not_le split: option.splits)
  have "min start (length source) = start"
  proof (cases "prefix < length old")
    case True
    show ?thesis
    proof (cases prefix)
      case 0
      from assms True 0 have "tok_start (old ! 0) = 0" by (cases rule: lex_from_cases) auto
      with 0 True show ?thesis by (simp add: start_def)
    next
      case (Suc n)
      have "old ! n \<in> set (take prefix old)" using Suc bound by (auto simp: in_set_conv_nth intro!: exI [of _ n])
      with kept have "tok_dependency (old ! n) < edit" by blast
      moreover from lex_from_adjacent [OF assms] True Suc have "tok_start (old ! Suc n) \<le> tok_dependency (old ! n)" by simp
      ultimately have "tok_start (old ! Suc n) < edit" by simp
      with agree True Suc show ?thesis by (simp add: start_def agree_def)
    qed
  next
    case False
    with bound have all: "prefix = length old" by simp
    show ?thesis
    proof (cases "old = []")
      case True
      with assms have "length old_source = 0" by (cases rule: lex_from_cases) auto
      with False show ?thesis by (simp add: start_def)
    next
      case False
      then have "last old \<in> set (take prefix old)" using all by simp
      with kept have "tok_dependency (last old) < edit" by blast
      with lex_from_last [OF assms False] agree have "length old_source < length source" by (simp add: agree_def)
      with all show ?thesis by (simp add: start_def)
    qed
  qed
  note start = this
  have "relex lx classes source reusable old shift start prefix = lex_from lx classes source start prefix"
  proof (rule relex_exact)
    fix p i t k
    assume "lex_at lx classes source p i = Inr (Lexed t)" "reusable t = Some k"
    with reused_tokens_exact [OF assms] common_suffix_drop [OF suffix_def]
    show "\<exists>ts. shift_tokens (drop k old) shift i = Inr ts \<and> lex_from lx classes source p i = Inr (ts, [])"
      unfolding reusable_def shift_def by blast
  qed
  moreover have "lex_from lx classes source 0 0 = prepend_tokens (take prefix old) (lex_from lx classes source start prefix)"
    using lex_from_prefix [OF assms agree bound kept] by (simp add: start_def)
  moreover have "lex_incremental lx classes source old_source old =
      prepend_tokens (take prefix old) (relex lx classes source reusable old shift (min start (length source)) prefix)"
    using False unfolding lex_incremental_def Let_def prepend_tokens_def edit_def [symmetric] prefix_def [symmetric]
      start_def [symmetric] suffix_def [symmetric] shift_def [symmetric] reusable_def [symmetric] by simp
  ultimately show ?thesis by (simp add: start)
qed

end
