(* ===== verification/Frontend.thy ===== *)
theory Frontend
  imports ParserCorrectness LexerIncremental
begin

text \<open>
  Ingesting a source (\<open>ingest_incremental\<close> in \<open>compiler/src/frontend.rs\<close>): lexing, matching of
  delimiters, parsing, the flat words of the tree, and what is kept of the previous source: its tokens,
  and its tree where the terminals have not changed. Ingesting after an edit gives the program that
  ingesting the new source from nothing gives.
\<close>

section \<open>Words\<close>

text \<open>\<open>n as i32\<close> of a \<open>usize\<close>, and \<open>n as u32\<close>.\<close>

definition as_i32 :: "nat \<Rightarrow> int" where
  "as_i32 n = (let m = int n mod 2 ^ 32 in if m < 2 ^ 31 then m else m - 2 ^ 32)"

definition as_u32 :: "nat \<Rightarrow> nat" where
  "as_u32 n = nat (int n mod 2 ^ 32)"

fun assign_ids :: "pending_node \<Rightarrow> nat \<Rightarrow> pending_node \<times> nat"
  and assign_edge_ids :: "pending_edge list \<Rightarrow> nat \<Rightarrow> pending_edge list \<times> nat" where
  "assign_ids (PendingNode island_id s e edges id') next_id =
     (let (edges, following) = assign_edge_ids edges (next_id + 1) in (PendingNode island_id s e edges (int next_id), following))"
| "assign_edge_ids [] next_id = ([], next_id)"
| "assign_edge_ids (PendingEdge field t None ordinal # es) next_id =
     (let (es, following) = assign_edge_ids es next_id in (PendingEdge field t None ordinal # es, following))"
| "assign_edge_ids (PendingEdge field t (Some child) ordinal # es) next_id =
     (let (child, next_id) = assign_ids child next_id; (es, following) = assign_edge_ids es next_id
      in (PendingEdge field t (Some child) ordinal # es, following))"

fun node_id :: "pending_node \<Rightarrow> int" where
  "node_id (PendingNode island_id s e edges id') = id'"

definition edge_words :: "pending_edge \<Rightarrow> (frontend_fault, int list) result" where
  "edge_words edge =
     (case edge of
        PendingEdge field (Some t) child ordinal \<Rightarrow> Inr [field, as_i32 ordinal, 0, as_i32 (tok_index t)]
      | PendingEdge field None (Some child) ordinal \<Rightarrow> Inr [field, as_i32 ordinal, 1, as_i32 (nat (node_id child))]
      | PendingEdge field None None ordinal \<Rightarrow> Inl FrontendPanic)"

fun append_edge_words :: "pending_edge list \<Rightarrow> int list \<Rightarrow> (frontend_fault, int list) result" where
  "append_edge_words [] words = Inr words"
| "append_edge_words (e # es) words = and_then (edge_words e) (\<lambda>w. append_edge_words es (words @ w))"

text \<open>\<open>materialize_node\<close>: the words of a node and of its edges, then those of its children.\<close>

fun materialize_node ::
  "frontend_plan \<Rightarrow> pending_node \<Rightarrow> int list \<Rightarrow> int list \<Rightarrow> (frontend_fault, int list \<times> int list) result"
  and materialize_children ::
  "frontend_plan \<Rightarrow> pending_edge list \<Rightarrow> int list \<Rightarrow> int list \<Rightarrow> (frontend_fault, int list \<times> int list) result" where
  "materialize_node plan (PendingNode island_id s e edges id') nodes words =
     and_then (ensure (int (length nodes) = id' * 8) FrontendPanic) (\<lambda>_.
     and_then (index_at (islands plan) island_id) (\<lambda>plan_island.
     let nodes = nodes @ [rule_id plan_island, 0, as_i32 s, as_i32 e, as_i32 (length words div 4), as_i32 (length edges), -1, -1] in
     and_then (append_edge_words edges words) (\<lambda>words. materialize_children plan edges nodes words)))"
| "materialize_children plan [] nodes words = Inr (nodes, words)"
| "materialize_children plan (PendingEdge field t None ordinal # es) nodes words = materialize_children plan es nodes words"
| "materialize_children plan (PendingEdge field t (Some child) ordinal # es) nodes words =
     and_then (materialize_node plan child nodes words) (\<lambda>(nodes, words). materialize_children plan es nodes words)"

definition token_words :: "token \<Rightarrow> int list" where
  "token_words t = [tok_terminal t, as_i32 (tok_start t), as_i32 (tok_end t), tok_identity t]"

definition materialize_tokens :: "token list \<Rightarrow> int list" where
  "materialize_tokens tokens = concat (map token_words tokens)"

definition materialize :: "token list \<Rightarrow> pending_node \<Rightarrow> frontend_plan \<Rightarrow> (frontend_fault, compact_program) result" where
  "materialize tokens root plan =
     and_then (materialize_node plan (fst (assign_ids root 0)) [] []) (\<lambda>(nodes, words).
       Inr \<lparr>program_tokens = materialize_tokens tokens, program_nodes = nodes, program_edges = words\<rparr>)"

section \<open>Reuse of the previous tree\<close>

text \<open>\<open>u32::try_from\<close>, \<open>i32::try_from\<close> of a \<open>u32\<close>, and \<open>usize::try_from\<close> of an \<open>i32\<close>.\<close>

definition checked_u32 :: "nat \<Rightarrow> 32 word option" where
  "checked_u32 n = (if int n < 2 ^ 32 then Some (word_of_nat n) else None)"

definition checked_i32 :: "32 word \<Rightarrow> int option" where
  "checked_i32 w = (if uint w < 2 ^ 31 then Some (uint w) else None)"

definition checked_usize :: "int \<Rightarrow> nat option" where
  "checked_usize n = (if n < 0 then None else Some (nat n))"

text \<open>\<open>*xs.get_mut(i)? = x\<close> and \<open>*xs.get(i)?\<close>.\<close>

definition put :: "'a list \<Rightarrow> nat \<Rightarrow> 'a \<Rightarrow> 'a list option" where
  "put xs i x = (if i < length xs then Some (xs[i := x]) else None)"

definition get :: "'a list \<Rightarrow> nat \<Rightarrow> 'a option" where
  "get xs i = (if i < length xs then Some (xs ! i) else None)"

type_synonym relocation_table = "32 word list"

fun relocation_tables ::
  "(token \<times> token) list \<Rightarrow> relocation_table \<Rightarrow> relocation_table \<Rightarrow> relocation_table \<Rightarrow>
   (relocation_table \<times> relocation_table \<times> relocation_table) option" where
  "relocation_tables [] starts ends indices = Some (starts, ends, indices)"
| "relocation_tables ((old, new) # pairs) starts ends indices =
     Option.bind (checked_u32 (tok_start new)) (\<lambda>s.
     Option.bind (put starts (tok_start old) s) (\<lambda>starts.
     Option.bind (checked_u32 (tok_end new)) (\<lambda>e.
     Option.bind (put ends (tok_end old) e) (\<lambda>ends.
     Option.bind (checked_u32 (tok_index new)) (\<lambda>i.
     Option.bind (put indices (tok_index old) i) (\<lambda>indices. relocation_tables pairs starts ends indices))))))"

fun relocate_nodes :: "relocation_table \<Rightarrow> relocation_table \<Rightarrow> int list \<Rightarrow> int list option" where
  "relocate_nodes starts ends (w0 # w1 # w2 # w3 # w4 # w5 # w6 # w7 # ws) =
     Option.bind (checked_usize w2) (\<lambda>s.
     Option.bind (checked_usize w3) (\<lambda>e.
     if s = e then None
     else
       Option.bind (Option.bind (get starts s) checked_i32) (\<lambda>s.
       Option.bind (Option.bind (get ends e) checked_i32) (\<lambda>e.
       Option.bind (relocate_nodes starts ends ws) (\<lambda>ws. Some (w0 # w1 # s # e # w4 # w5 # w6 # w7 # ws))))))"
| "relocate_nodes starts ends ws = Some ws"

fun relocate_edges :: "relocation_table \<Rightarrow> int list \<Rightarrow> int list option" where
  "relocate_edges indices (w0 # w1 # w2 # w3 # ws) =
     (if w2 = 0 then
        Option.bind (checked_usize w3) (\<lambda>old.
        Option.bind (Option.bind (get indices old) checked_i32) (\<lambda>i.
        Option.bind (relocate_edges indices ws) (\<lambda>ws. Some (w0 # w1 # w2 # i # ws))))
      else Option.bind (relocate_edges indices ws) (\<lambda>ws. Some (w0 # w1 # w2 # w3 # ws)))"
| "relocate_edges indices ws = Some ws"

text \<open>\<open>MISSING\<close>, the largest \<open>u32\<close>.\<close>

definition missing_offset :: "32 word" where
  "missing_offset = - 1"

definition terminal_identity :: "token \<Rightarrow> int \<times> int" where
  "terminal_identity t = (tok_terminal t, tok_identity t)"

record node_reuse =
  reuse_previous :: nat
  reuse_current :: nat

record frontend_state =
  state_source :: "16 word list"
  state_tokens :: "token list"
  state_program :: compact_program
  state_reuse :: "node_reuse list"
  parser_executed :: bool
  semantic_input_unchanged :: bool

definition relocate_same_grammar :: "frontend_state \<Rightarrow> token list \<Rightarrow> compact_program option" where
  "relocate_same_grammar previous current =
     (let old = syntax_tokens (state_tokens previous); new = syntax_tokens current in
      if map terminal_identity old \<noteq> map terminal_identity new then None
      else
        (let size = length (state_source previous) + 1 in
         Option.bind (relocation_tables (zip old new) (replicate size missing_offset) (replicate size missing_offset)
             (replicate (length (state_tokens previous)) missing_offset)) (\<lambda>(starts, ends, indices).
         Option.bind (relocate_nodes starts ends (program_nodes (state_program previous))) (\<lambda>nodes.
         Option.bind (relocate_edges indices (program_edges (state_program previous))) (\<lambda>edges.
           Some \<lparr>program_tokens = [], program_nodes = nodes, program_edges = edges\<rparr>)))))"

text \<open>The tokens that carry syntax, but for how far the lexer read, and their texts.\<close>

definition syntax_key :: "token \<Rightarrow> int \<times> nat \<times> nat \<times> int \<times> nat" where
  "syntax_key t = (tok_terminal t, tok_start t, tok_end t, tok_identity t, tok_index t)"

definition same_syntax_tokens :: "token list \<Rightarrow> token list \<Rightarrow> bool" where
  "same_syntax_tokens current previous \<longleftrightarrow> map syntax_key (syntax_tokens current) = map syntax_key (syntax_tokens previous)"

definition source_slice :: "16 word list \<Rightarrow> token \<Rightarrow> (frontend_fault, 16 word list) result" where
  "source_slice source t =
     (if tok_start t \<le> tok_end t \<and> tok_end t \<le> length source then Inr (token_text source t) else Inl FrontendPanic)"

fun all_texts_equal :: "16 word list \<Rightarrow> 16 word list \<Rightarrow> (token \<times> token) list \<Rightarrow> (frontend_fault, bool) result" where
  "all_texts_equal current_source previous_source [] = Inr True"
| "all_texts_equal current_source previous_source ((current, previous) # pairs) =
     and_then (source_slice current_source current) (\<lambda>x.
     and_then (source_slice previous_source previous) (\<lambda>y.
       if x = y then all_texts_equal current_source previous_source pairs else Inr False))"

definition same_semantic_tokens ::
  "16 word list \<Rightarrow> token list \<Rightarrow> 16 word list \<Rightarrow> token list \<Rightarrow> (frontend_fault, bool) result" where
  "same_semantic_tokens current_source current previous_source previous =
     all_texts_equal current_source previous_source (zip (syntax_tokens current) (syntax_tokens previous))"

section \<open>Correspondence of nodes\<close>

definition identity_reuse :: "compact_program \<Rightarrow> node_reuse list" where
  "identity_reuse program =
     map (\<lambda>i. \<lparr>reuse_previous = as_u32 i, reuse_current = as_u32 i\<rparr>) [0..<length (program_nodes program) div 8]"

text \<open>The rule and the span of a node; a negative word is a large \<open>usize\<close>.\<close>

definition node_key :: "compact_program \<Rightarrow> nat \<Rightarrow> int \<times> nat \<times> nat" where
  "node_key program i =
     (let words = program_nodes program
      in (words ! (8 * i), table_index (words ! (8 * i + 2)), table_index (words ! (8 * i + 3))))"

text \<open>\<open>previous_by_span\<close>: the nodes of a rule and a span, the last one first.\<close>

definition nodes_by_key :: "compact_program \<Rightarrow> int \<times> nat \<times> nat \<Rightarrow> nat list" where
  "nodes_by_key program =
     fold (\<lambda>i m. m(node_key program i := i # m (node_key program i))) [0..<length (program_nodes program) div 8] (\<lambda>_. [])"

definition previous_span :: "nat \<Rightarrow> nat \<Rightarrow> nat \<Rightarrow> nat \<Rightarrow> nat \<Rightarrow> (nat \<times> nat) option" where
  "previous_span prefix previous_suffix current_suffix s e =
     (if e \<le> prefix then Some (s, e)
      else if s \<ge> current_suffix then Some (previous_suffix + s - current_suffix, previous_suffix + e - current_suffix)
      else None)"

fun reuse_by_key ::
  "compact_program \<Rightarrow> nat \<Rightarrow> nat \<Rightarrow> nat \<Rightarrow> nat list \<Rightarrow> (int \<times> nat \<times> nat \<Rightarrow> nat list) \<Rightarrow> node_reuse list" where
  "reuse_by_key current prefix previous_suffix current_suffix [] candidates = []"
| "reuse_by_key current prefix previous_suffix current_suffix (i # is) candidates =
     (case node_key current i of (rule, s, e) \<Rightarrow>
        (case previous_span prefix previous_suffix current_suffix s e of
           None \<Rightarrow> reuse_by_key current prefix previous_suffix current_suffix is candidates
         | Some (s, e) \<Rightarrow>
             (case candidates (rule, s, e) of
                [] \<Rightarrow> reuse_by_key current prefix previous_suffix current_suffix is candidates
              | previous # rest \<Rightarrow>
                  \<lparr>reuse_previous = as_u32 previous, reuse_current = as_u32 i\<rparr> #
                  reuse_by_key current prefix previous_suffix current_suffix is (candidates((rule, s, e) := rest)))))"

text \<open>\<open>reused_nodes\<close>; its debug assertions are left out.\<close>

definition reused_nodes ::
  "16 word list \<Rightarrow> compact_program \<Rightarrow> 16 word list \<Rightarrow> compact_program \<Rightarrow> bool \<Rightarrow> node_reuse list" where
  "reused_nodes previous_source previous source current syntax_unchanged =
     (let prefix = common_prefix previous_source source;
          suffix = common_suffix previous_source source (min (length previous_source - prefix) (length source - prefix));
          previous_suffix = length previous_source - suffix;
          current_suffix = length source - suffix
      in if syntax_unchanged then
           map (\<lambda>i. \<lparr>reuse_previous = as_u32 i, reuse_current = as_u32 i\<rparr>)
             (filter (\<lambda>i. case node_key current i of (rule, s, e) \<Rightarrow> e \<le> prefix \<or> s \<ge> current_suffix)
                [0..<length (program_nodes current) div 8])
         else
           sort_key reuse_current
             (reuse_by_key current prefix previous_suffix current_suffix [0..<length (program_nodes current) div 8]
                (nodes_by_key previous)))"

section \<open>Ingesting\<close>

definition reused_program :: "frontend_state option \<Rightarrow> token list \<Rightarrow> bool \<Rightarrow> compact_program option" where
  "reused_program previous tokens unchanged =
     (case previous of
        None \<Rightarrow> None
      | Some previous \<Rightarrow>
          if unchanged then
            Some \<lparr>program_tokens = [], program_nodes = program_nodes (state_program previous),
              program_edges = program_edges (state_program previous)\<rparr>
          else relocate_same_grammar previous tokens)"

definition lex_after ::
  "frontend_plan \<Rightarrow> 16 word list \<Rightarrow> frontend_state option \<Rightarrow> (frontend_fault, token list \<times> frontend_diagnostic list) result" where
  "lex_after plan source previous =
     (case previous of
        Some previous \<Rightarrow>
          lex_incremental (plan_lexer plan) (terminal_classification plan) source (state_source previous) (state_tokens previous)
      | None \<Rightarrow> lex_from (plan_lexer plan) (terminal_classification plan) source 0 0)"

definition unchanged_texts ::
  "16 word list \<Rightarrow> token list \<Rightarrow> frontend_state option \<Rightarrow> bool \<Rightarrow> (frontend_fault, bool) result" where
  "unchanged_texts source tokens previous unchanged =
     (case previous of
        None \<Rightarrow> Inr False
      | Some st \<Rightarrow>
          if unchanged then same_semantic_tokens source tokens (state_source st) (state_tokens st) else Inr False)"

text \<open>The program once there is no diagnostic: the reused one with the new tokens, or the parsed one.\<close>

definition finished_program ::
  "frontend_plan \<Rightarrow> token list \<Rightarrow> compact_program option \<Rightarrow> pending_node option \<Rightarrow> (frontend_fault, compact_program) result" where
  "finished_program plan tokens reused root =
     (case reused of
        Some program \<Rightarrow> Inr (program\<lparr>program_tokens := materialize_tokens tokens\<rparr>)
      | None \<Rightarrow> (case root of None \<Rightarrow> Inl FrontendPanic | Some root \<Rightarrow> materialize tokens root plan))"

definition ingest_changed ::
  "frontend_plan \<Rightarrow> 16 word list \<Rightarrow> frontend_state option \<Rightarrow> (compact_program \<times> frontend_state) run" where
  "ingest_changed plan source previous =
     run_bind (lift_run (lex_after plan source previous)) (\<lambda>(tokens, ds).
     let unchanged = (case previous of None \<Rightarrow> False | Some st \<Rightarrow> same_syntax_tokens tokens (state_tokens st)) in
     run_bind (lift_run (unchanged_texts source tokens previous unchanged)) (\<lambda>semantic_unchanged.
     let reused = reused_program previous tokens unchanged in
     run_bind (lift_run (match_delimiters tokens (boundaries plan) ds)) (\<lambda>(found, ds).
     run_bind (if ds = [] \<and> reused = None then execute_root_island tokens found plan ds else Some (Inr (None, ds))) (\<lambda>(root, ds).
     let ds = sort_diagnostics ds in
     if ds \<noteq> [] then Some (Inl (Rejected ds))
     else
       run_bind (lift_run (finished_program plan tokens reused root)) (\<lambda>program.
       let reuse = (case previous of None \<Rightarrow> []
         | Some st \<Rightarrow> reused_nodes (state_source st) (state_program st) source program (reused \<noteq> None)) in
       Some (Inr (program,
         \<lparr>state_source = source, state_tokens = tokens, state_program = program, state_reuse = reuse,
           parser_executed = (reused = None), semantic_input_unchanged = semantic_unchanged\<rparr>)))))))"

definition ingest_incremental ::
  "frontend_plan \<Rightarrow> 16 word list \<Rightarrow> frontend_state option \<Rightarrow> (compact_program \<times> frontend_state) run" where
  "ingest_incremental plan source previous =
     (case previous of
        Some st \<Rightarrow>
          if source = state_source st then
            Some (Inr (state_program st,
              \<lparr>state_source = source, state_tokens = state_tokens st, state_program = state_program st,
                state_reuse = identity_reuse (state_program st), parser_executed = False, semantic_input_unchanged = True\<rparr>))
          else ingest_changed plan source previous
      | None \<Rightarrow> ingest_changed plan source previous)"

section \<open>Tokens in order\<close>

definition tokens_ordered :: "token list \<Rightarrow> bool" where
  "tokens_ordered ts \<longleftrightarrow> sorted_wrt (\<lambda>t t'. tok_end t \<le> tok_start t') ts \<and> (\<forall>t\<in>set ts. tok_start t < tok_end t)"

lemma lex_from_ordered:
  assumes "lex_from lx classes source position i = Inr (ts, ds)"
  shows "tokens_ordered ts \<and> (\<forall>t\<in>set ts. position \<le> tok_start t \<and> tok_end t \<le> length source) \<and>
    (i \<le> position \<longrightarrow> (\<forall>t\<in>set ts. tok_index t \<le> tok_start t))"
  using assms
proof (induction "length source - position" arbitrary: position i ts ds rule: less_induct)
  case less
  from less.prems show ?case
  proof (cases rule: lex_from_cases)
    case (token t ts')
    note IH = less.hyps [OF token(6,7)]
    from lex_at_longest [OF token(2,1)] have "tok_index t = i" by simp
    moreover from IH token(4) have "\<forall>t'\<in>set ts'. position \<le> tok_start t' \<and> tok_end t \<le> tok_start t'" by auto
    ultimately show ?thesis using IH token(3,4,5,8) by (auto simp: tokens_ordered_def)
  next
    case (error d next_position ds')
    from less.hyps [OF error(4,5)] error(3) show ?thesis by fastforce
  qed (simp add: tokens_ordered_def)
qed

lemma lex_from_numbered: "lex_from lx classes source position i = Inr (ts, ds) \<Longrightarrow> numbered i ts"
  using lex_from_exact unfolding numbered_def by blast

lemma syntax_tokens_ordered: "tokens_ordered ts \<Longrightarrow> tokens_ordered (syntax_tokens ts)"
  unfolding tokens_ordered_def syntax_tokens_def by (simp add: sorted_wrt_filter)

lemma tokens_ordered_distinct:
  assumes "tokens_ordered ts"
  shows "distinct (map tok_start ts)" "distinct (map tok_end ts)"
  using assms by (induction ts) (fastforce simp: tokens_ordered_def)+

section \<open>Corresponding trees give corresponding words\<close>

inductive_simps sim_node_PendingNode: "sim_node ts us (PendingNode island_id s e edges id') node"
inductive_simps sim_edge_PendingEdge: "sim_edge ts us (PendingEdge field t child ordinal) edge"

lemma sim_edge_cases:
  assumes "sim_edge ts us (PendingEdge field t child ordinal) e'"
  obtains (token) i where "i < length ts" "t = Some (ts ! i)" "child = None" "e' = PendingEdge field (Some (us ! i)) None ordinal"
  | (child) node node' where "t = None" "child = Some node" "sim_node ts us node node'" "e' = PendingEdge field None (Some node') ordinal"
  using assms by (auto simp: sim_edge_PendingEdge)

lemma assign_ids_sim:
  "sim_node ts us node node' \<Longrightarrow> sim_node ts us (fst (assign_ids node n)) (fst (assign_ids node' n)) \<and>
     snd (assign_ids node n) = snd (assign_ids node' n)"
  "list_all2 (sim_edge ts us) edges edges' \<Longrightarrow>
     list_all2 (sim_edge ts us) (fst (assign_edge_ids edges n)) (fst (assign_edge_ids edges' n)) \<and>
     snd (assign_edge_ids edges n) = snd (assign_edge_ids edges' n)"
proof (induction node n and edges n arbitrary: node' and edges' rule: assign_ids_assign_edge_ids.induct)
  case (1 island_id s e edges id' next_id)
  from 1(2) obtain s' e' edges' where
      node': "node' = PendingNode island_id s' e' edges' id'" "list_all2 (sim_edge ts us) edges edges'" "sim_span ts us s e s' e'"
    by (auto simp: sim_node_PendingNode)
  from 1(1) [OF node'(2)] node' show ?case by (auto simp: split_def Let_def intro!: sim_node)
next
  case (3 field t ordinal es next_id)
  from 3(2) obtain e' es' where edges': "edges' = e' # es'" "sim_edge ts us (PendingEdge field t None ordinal) e'" "list_all2 (sim_edge ts us) es es'"
    by (auto simp: list_all2_Cons1)
  from edges'(2) obtain i where i: "i < length ts" "t = Some (ts ! i)" "e' = PendingEdge field (Some (us ! i)) None ordinal"
    by (cases rule: sim_edge_cases) auto
  from 3(1) [OF edges'(3)] edges'(1) i show ?case by (auto simp: split_def Let_def intro!: sim_token)
next
  case (4 field t child ordinal es next_id)
  from 4(3) obtain e' es' where edges': "edges' = e' # es'" "sim_edge ts us (PendingEdge field t (Some child) ordinal) e'" "list_all2 (sim_edge ts us) es es'"
    by (auto simp: list_all2_Cons1)
  from edges'(2) obtain node' where node': "t = None" "sim_node ts us child node'" "e' = PendingEdge field None (Some node') ordinal"
    by (cases rule: sim_edge_cases) auto
  from 4(1) [OF node'(2)] 4(2) [OF refl prod.collapse edges'(3)] edges'(1) node' show ?case
    by (auto simp: split_def Let_def intro!: sim_child)
qed (auto simp: list_all2_Nil)

definition sim_block :: "token list \<Rightarrow> token list \<Rightarrow> int list \<Rightarrow> int list \<Rightarrow> bool" where
  "sim_block ts us b b' \<longleftrightarrow> (\<exists>rule s e s' e' first count. b = [rule, 0, as_i32 s, as_i32 e, first, count, -1, -1] \<and>
     b' = [rule, 0, as_i32 s', as_i32 e', first, count, -1, -1] \<and> sim_span ts us s e s' e')"

definition sim_edge_block :: "token list \<Rightarrow> token list \<Rightarrow> int list \<Rightarrow> int list \<Rightarrow> bool" where
  "sim_edge_block ts us b b' \<longleftrightarrow>
     (\<exists>field ordinal i. i < length ts \<and> b = [field, ordinal, 0, as_i32 (tok_index (ts ! i))] \<and>
        b' = [field, ordinal, 0, as_i32 (tok_index (us ! i))]) \<or>
     (\<exists>field ordinal child. b = [field, ordinal, 1, child] \<and> b' = b)"

definition sim_words :: "(int list \<Rightarrow> int list \<Rightarrow> bool) \<Rightarrow> int list \<Rightarrow> int list \<Rightarrow> bool" where
  "sim_words R ws ws' \<longleftrightarrow> (\<exists>bs bs'. ws = concat bs \<and> ws' = concat bs' \<and> list_all2 R bs bs')"

lemma sim_words_Nil [simp]: "sim_words R [] []"
  unfolding sim_words_def by (intro exI [of _ "[]"]) simp

lemma sim_words_append:
  assumes "sim_words R ws ws'" "R b b'"
  shows "sim_words R (ws @ b) (ws' @ b')"
proof -
  from assms(1) obtain bs bs' where "ws = concat bs" "ws' = concat bs'" "list_all2 R bs bs'" by (auto simp: sim_words_def)
  with assms(2) show ?thesis unfolding sim_words_def
    by (intro exI [of _ "bs @ [b]"] exI [of _ "bs' @ [b']"]) (simp add: list_all2_appendI)
qed

lemma sim_words_length:
  assumes "sim_words R ws ws'" "\<And>b b'. R b b' \<Longrightarrow> length b = length b'"
  shows "length ws = length ws'"
proof -
  from assms(1) obtain bs bs' where bs: "ws = concat bs" "ws' = concat bs'" "list_all2 R bs bs'" by (auto simp: sim_words_def)
  from bs(3) have "length (concat bs) = length (concat bs')" by (induction rule: list_all2_induct) (use assms(2) in auto)
  with bs show ?thesis by simp
qed

lemma sim_block_length: "sim_block ts us b b' \<Longrightarrow> length b = length b'"
  and sim_edge_block_length: "sim_edge_block ts us b b' \<Longrightarrow> length b = length b'"
  by (auto simp: sim_block_def sim_edge_block_def)

lemma edge_words_sim:
  assumes "sim_edge ts us e e'"
  shows "\<exists>w w'. edge_words e = Inr w \<and> edge_words e' = Inr w' \<and> sim_edge_block ts us w w'"
proof -
  obtain field t child ordinal where e: "e = PendingEdge field t child ordinal" by (cases e)
  from assms [unfolded e] show ?thesis
  proof (cases rule: sim_edge_cases)
    case (token i)
    then show ?thesis by (auto simp: e edge_words_def sim_edge_block_def)
  next
    case (child node node')
    then have "node_id node = node_id node'" by (cases node) (auto simp: sim_node_PendingNode)
    with child show ?thesis by (simp add: e edge_words_def sim_edge_block_def)
  qed
qed

lemma append_edge_words_sim:
  "list_all2 (sim_edge ts us) es es' \<Longrightarrow> sim_words (sim_edge_block ts us) ws ws' \<Longrightarrow>
    \<exists>r r'. append_edge_words es ws = Inr r \<and> append_edge_words es' ws' = Inr r' \<and> sim_words (sim_edge_block ts us) r r'"
proof (induction es es' arbitrary: ws ws' rule: list_all2_induct)
  case (Cons e es e' es')
  from edge_words_sim [OF Cons(1)] obtain w w' where w: "edge_words e = Inr w" "edge_words e' = Inr w'" "sim_edge_block ts us w w'"
    by blast
  from Cons.IH [OF sim_words_append [OF Cons.prems w(3)]] w(1,2) show ?case by simp
qed simp

text \<open>What materializing returns on the first tree it returns on the second, in corresponding words.\<close>

definition sim_program :: "token list \<Rightarrow> token list \<Rightarrow> (frontend_fault, int list \<times> int list) result \<Rightarrow>
    (frontend_fault, int list \<times> int list) result \<Rightarrow> bool" where
  "sim_program ts us r r' \<longleftrightarrow> (\<forall>nodes words. r = Inr (nodes, words) \<longrightarrow> (\<exists>nodes' words'. r' = Inr (nodes', words') \<and>
     sim_words (sim_block ts us) nodes nodes' \<and> sim_words (sim_edge_block ts us) words words'))"

lemma materialize_sim:
  "sim_node ts us node node' \<Longrightarrow> sim_words (sim_block ts us) nodes nodes' \<Longrightarrow> sim_words (sim_edge_block ts us) words words' \<Longrightarrow>
     sim_program ts us (materialize_node plan node nodes words) (materialize_node plan node' nodes' words')"
  "list_all2 (sim_edge ts us) edges edges' \<Longrightarrow> sim_words (sim_block ts us) nodes nodes' \<Longrightarrow>
     sim_words (sim_edge_block ts us) words words' \<Longrightarrow>
     sim_program ts us (materialize_children plan edges nodes words) (materialize_children plan edges' nodes' words')"
proof (induction plan node nodes words and plan edges nodes words arbitrary: node' nodes' words' and edges' nodes' words'
    rule: materialize_node_materialize_children.induct)
  case (1 plan island_id s e edges id' nodes words)
  from 1(2) obtain s' e' edges' where
      node': "node' = PendingNode island_id s' e' edges' id'" "list_all2 (sim_edge ts us) edges edges'" "sim_span ts us s e s' e'"
    by (auto simp: sim_node_PendingNode)
  have sizes: "length nodes' = length nodes" "length words' = length words" "length edges' = length edges"
    using sim_words_length [OF 1(3) sim_block_length] sim_words_length [OF 1(4) sim_edge_block_length] node'(2)
    by (simp_all add: list_all2_lengthD)
  show ?case
  proof (cases "int (length nodes) = id' * 8 \<and> island_id < length (islands plan)")
    case True
    let ?rule = "rule_id (islands plan ! island_id)"
    let ?block = "[?rule, 0, as_i32 s, as_i32 e, as_i32 (length words div 4), as_i32 (length edges), - 1, - 1]"
      and ?block' = "[?rule, 0, as_i32 s', as_i32 e', as_i32 (length words div 4), as_i32 (length edges), - 1, - 1]"
    have guard: "ensure (int (length nodes) = id' * 8) FrontendPanic = Inr ()" "index_at (islands plan) island_id = Inr (islands plan ! island_id)"
      using True by (simp_all add: ensure_def index_at_def)
    from node'(3) have "sim_block ts us ?block ?block'" unfolding sim_block_def by blast
    with 1(3) have nodes: "sim_words (sim_block ts us) (nodes @ ?block) (nodes' @ ?block')" by (rule sim_words_append)
    from append_edge_words_sim [OF node'(2) 1(4)] obtain r r' where
        r: "append_edge_words edges words = Inr r" "append_edge_words edges' words' = Inr r'" "sim_words (sim_edge_block ts us) r r'" by blast
    from 1(1) [OF guard refl r(1) node'(2) nodes r(3)] r(1,2) guard True show ?thesis
      by (simp add: node'(1) sizes)
  next
    case False
    then show ?thesis by (auto simp: sim_program_def and_then_eq_Inr ensure_def index_at_def)
  qed
next
  case (3 plan field t ordinal es nodes words)
  from 3(2) obtain e' es' where edges': "edges' = e' # es'" "sim_edge ts us (PendingEdge field t None ordinal) e'" "list_all2 (sim_edge ts us) es es'"
    by (auto simp: list_all2_Cons1)
  from edges'(2) obtain i where "e' = PendingEdge field (Some (us ! i)) None ordinal" by (cases rule: sim_edge_cases) auto
  with 3(1) [OF edges'(3) 3(3,4)] edges'(1) show ?case by simp
next
  case (4 plan field t child ordinal es nodes words)
  from 4(3) obtain e' es' where edges': "edges' = e' # es'" "sim_edge ts us (PendingEdge field t (Some child) ordinal) e'" "list_all2 (sim_edge ts us) es es'"
    by (auto simp: list_all2_Cons1)
  from edges'(2) obtain node' where node': "sim_node ts us child node'" "e' = PendingEdge field None (Some node') ordinal"
    by (cases rule: sim_edge_cases) auto
  show ?case
  proof (cases "materialize_node plan child nodes words")
    case (Inl fault)
    then show ?thesis by (simp add: sim_program_def)
  next
    case (Inr r)
    then obtain n w where r: "materialize_node plan child nodes words = Inr (n, w)" by (cases r) auto
    with 4(1) [OF node'(1) 4(4,5)] obtain n' w' where r': "materialize_node plan node' nodes' words' = Inr (n', w')"
        "sim_words (sim_block ts us) n n'" "sim_words (sim_edge_block ts us) w w'" by (auto simp: sim_program_def)
    from 4(2) [OF r refl edges'(3) r'(2,3)] r r'(1) edges'(1) node'(2) show ?thesis by simp
  qed
qed (auto simp: sim_program_def)

section \<open>Relocating gives the words of the corresponding tree\<close>

lemma checked_usize_as_i32: "n < 2 ^ 32 \<Longrightarrow> checked_usize (as_i32 n) = Some k \<Longrightarrow> k = n"
  by (auto simp: checked_usize_def as_i32_def Let_def split: if_splits)

lemma checked_i32_as_i32: "checked_i32 (word_of_nat n) = Some w \<Longrightarrow> n < 2 ^ 32 \<Longrightarrow> w = as_i32 n"
  by (auto simp: checked_i32_def as_i32_def Let_def uint_nat unat_of_nat split: if_splits)

text \<open>A list updated at many places, each once.\<close>

definition put_all :: "(token \<Rightarrow> nat) \<Rightarrow> (token \<times> token) list \<Rightarrow> relocation_table \<Rightarrow> relocation_table" where
  "put_all f pairs xs = fold (\<lambda>(old, new) xs. xs[f old := word_of_nat (f new)]) pairs xs"

lemma put_all_length [simp]: "length (put_all f pairs xs) = length xs"
  by (induction pairs arbitrary: xs) (auto simp: put_all_def)

lemma put_all_other: "k \<notin> (f \<circ> fst) ` set pairs \<Longrightarrow> put_all f pairs xs ! k = xs ! k"
  by (induction pairs arbitrary: xs) (auto simp: put_all_def)

lemma put_all_nth:
  assumes "distinct (map (f \<circ> fst) pairs)" "(old, new) \<in> set pairs" "f old < length xs"
  shows "put_all f pairs xs ! f old = word_of_nat (f new)"
  using assms
proof (induction pairs arbitrary: xs)
  case (Cons p pairs)
  obtain o' n' where p: "p = (o', n')" by (cases p)
  have step: "put_all f (p # pairs) xs = put_all f pairs (xs[f o' := word_of_nat (f n')])" by (simp add: put_all_def p)
  show ?case
  proof (cases "(old, new) \<in> set pairs")
    case True
    with Cons.IH [of "xs[f o' := word_of_nat (f n')]"] Cons.prems show ?thesis by (simp add: step)
  next
    case False
    with Cons.prems(2) p have "o' = old" "n' = new" by auto
    moreover from this Cons.prems(1) p have "f old \<notin> (f \<circ> fst) ` set pairs" by auto
    ultimately show ?thesis using Cons.prems(3) by (simp add: step put_all_other)
  qed
qed simp

lemma relocation_tables_put:
  "relocation_tables pairs starts ends indices = Some (starts', ends', indices') \<Longrightarrow>
     starts' = put_all tok_start pairs starts \<and> ends' = put_all tok_end pairs ends \<and> indices' = put_all tok_index pairs indices \<and>
     (\<forall>(old, new)\<in>set pairs. tok_start old < length starts \<and> tok_end old < length ends \<and> tok_index old < length indices \<and>
        tok_start new < 2 ^ 32 \<and> tok_end new < 2 ^ 32 \<and> tok_index new < 2 ^ 32)"
proof (induction pairs starts ends indices rule: relocation_tables.induct)
  case (2 old new pairs starts ends indices)
  from "2.prems" have *: "tok_start old < length starts" "tok_end old < length ends"
      "tok_index old < length indices"
      "relocation_tables pairs (starts[tok_start old := word_of_nat (tok_start new)]) (ends[tok_end old := word_of_nat (tok_end new)])
         (indices[tok_index old := word_of_nat (tok_index new)]) = Some (starts', ends', indices')"
      "tok_start new < 2 ^ 32" "tok_end new < 2 ^ 32" "tok_index new < 2 ^ 32"
      "checked_u32 (tok_start new) = Some (word_of_nat (tok_start new))" "checked_u32 (tok_end new) = Some (word_of_nat (tok_end new))"
      "checked_u32 (tok_index new) = Some (word_of_nat (tok_index new))"
    by (auto simp: checked_u32_def put_def split: if_splits)
  then have "put starts (tok_start old) (word_of_nat (tok_start new)) = Some (starts[tok_start old := word_of_nat (tok_start new)])"
      "put ends (tok_end old) (word_of_nat (tok_end new)) = Some (ends[tok_end old := word_of_nat (tok_end new)])"
      "put indices (tok_index old) (word_of_nat (tok_index new)) = Some (indices[tok_index old := word_of_nat (tok_index new)])"
    by (simp_all add: put_def)
  from "2.IH" [OF *(8) this(1) *(9) this(2) *(10) this(3) *(4)] *(1-3,5-7) show ?case by (auto simp: put_all_def)
qed (simp add: put_all_def)

text \<open>Tables that send the places of the old tokens to those of the new ones.\<close>

definition relocates :: "token list \<Rightarrow> token list \<Rightarrow> (token \<Rightarrow> nat) \<Rightarrow> relocation_table \<Rightarrow> bool" where
  "relocates ts us f table \<longleftrightarrow> (\<forall>i<length ts. f (ts ! i) < length table \<and> f (us ! i) < 2 ^ 32 \<and>
     table ! f (ts ! i) = word_of_nat (f (us ! i)))"

lemma relocation_tables_relocate:
  assumes "relocation_tables (zip ts us) starts ends indices = Some (starts', ends', indices')" "length ts = length us"
    "distinct (map tok_start ts)" "distinct (map tok_end ts)" "distinct (map tok_index ts)"
  shows "relocates ts us tok_start starts' \<and> relocates ts us tok_end ends' \<and> relocates ts us tok_index indices'"
proof -
  note put = relocation_tables_put [OF assms(1)]
  have pair: "(ts ! i, us ! i) \<in> set (zip ts us)" if "i < length ts" for i using that assms(2) by (force simp: set_zip)
  have firsts: "map (f \<circ> fst) (zip ts us) = map f ts" for f :: "token \<Rightarrow> nat"
    using assms(2) by (metis map_fst_zip map_map)
  have "relocates ts us f (put_all f (zip ts us) table)"
    if "distinct (map f ts)" "\<forall>(old, new)\<in>set (zip ts us). f old < length table \<and> f new < 2 ^ 32" for f table
    unfolding relocates_def
  proof (intro allI impI)
    fix i
    assume i: "i < length ts"
    from that(2) pair [OF i] have "f (ts ! i) < length table" "f (us ! i) < 2 ^ 32" by auto
    with put_all_nth [of f "zip ts us" "ts ! i" "us ! i" table] that(1) pair [OF i] firsts
    show "f (ts ! i) < length (put_all f (zip ts us) table) \<and> f (us ! i) < 2 ^ 32 \<and>
      put_all f (zip ts us) table ! f (ts ! i) = word_of_nat (f (us ! i))" by simp
  qed
  with put assms(3-5) show ?thesis by (auto simp: split_def)
qed

lemma relocate_nodes_sim:
  assumes "list_all2 (sim_block ts us) bs bs'" "relocate_nodes starts ends (concat bs) = Some ws"
    "relocates ts us tok_start starts" "relocates ts us tok_end ends" "\<forall>t\<in>set ts. tok_start t < 2 ^ 32 \<and> tok_end t < 2 ^ 32"
  shows "ws = concat bs'"
  using assms(1,2)
proof (induction bs bs' arbitrary: ws rule: list_all2_induct)
  case (Cons b bs b' bs')
  from Cons(1) obtain rule s e s' e' first count where
      b: "b = [rule, 0, as_i32 s, as_i32 e, first, count, -1, -1]" "b' = [rule, 0, as_i32 s', as_i32 e', first, count, -1, -1]"
        "sim_span ts us s e s' e'" by (auto simp: sim_block_def)
  from Cons.prems obtain s1 e1 s2 e2 ws' where
      old: "checked_usize (as_i32 s) = Some s1" "checked_usize (as_i32 e) = Some e1" "s1 \<noteq> e1"
        "Option.bind (get starts s1) checked_i32 = Some s2" "Option.bind (get ends e1) checked_i32 = Some e2"
        "relocate_nodes starts ends (concat bs) = Some ws'" "ws = [rule, 0, s2, e2, first, count, -1, -1] @ ws'"
    by (auto simp: b(1) bind_eq_Some_conv split: if_splits)
  have "\<not> (s = e)" using old(1-3) by auto
  with b(3) obtain i j where ij: "i \<le> j" "j < length ts" "s = tok_start (ts ! i)" "e = tok_end (ts ! j)"
      "s' = tok_start (us ! i)" "e' = tok_end (us ! j)" by (auto simp: sim_span_def)
  with assms(5) have "s < 2 ^ 32" "e < 2 ^ 32" by simp_all
  then have "s1 = s" "e1 = e" using checked_usize_as_i32 [OF _ old(1)] checked_usize_as_i32 [OF _ old(2)] by blast+
  with ij assms(3,4) have "get starts s1 = Some (word_of_nat s')" "get ends e1 = Some (word_of_nat e')" "s' < 2 ^ 32" "e' < 2 ^ 32"
    by (auto simp: get_def relocates_def)
  with old(4,5) have "s2 = as_i32 s'" "e2 = as_i32 e'" using checked_i32_as_i32 by auto
  with old(7) Cons.IH [OF old(6)] b(2) show ?case by simp
qed simp

lemma relocate_edges_sim:
  assumes "list_all2 (sim_edge_block ts us) bs bs'" "relocate_edges indices (concat bs) = Some ws"
    "relocates ts us tok_index indices" "\<forall>t\<in>set ts. tok_index t < 2 ^ 32"
  shows "ws = concat bs'"
  using assms(1,2)
proof (induction bs bs' arbitrary: ws rule: list_all2_induct)
  case (Cons b bs b' bs')
  from Cons(1) consider (token) field ordinal i where "i < length ts" "b = [field, ordinal, 0, as_i32 (tok_index (ts ! i))]"
        "b' = [field, ordinal, 0, as_i32 (tok_index (us ! i))]"
    | (child) field ordinal node where "b = [field, ordinal, 1, node]" "b' = b" by (auto simp: sim_edge_block_def)
  then show ?case
  proof cases
    case (token field ordinal i)
    with Cons.prems obtain old new ws' where
        *: "checked_usize (as_i32 (tok_index (ts ! i))) = Some old" "Option.bind (get indices old) checked_i32 = Some new"
          "relocate_edges indices (concat bs) = Some ws'" "ws = [field, ordinal, 0, new] @ ws'"
      by (auto simp: bind_eq_Some_conv)
    from token(1) assms(4) have "tok_index (ts ! i) < 2 ^ 32" by simp
    then have "old = tok_index (ts ! i)" by (rule checked_usize_as_i32 [OF _ *(1)])
    with token(1) assms(3) have "get indices old = Some (word_of_nat (tok_index (us ! i)))" "tok_index (us ! i) < 2 ^ 32"
      by (auto simp: get_def relocates_def)
    with *(2) have "new = as_i32 (tok_index (us ! i))" using checked_i32_as_i32 by auto
    with *(4) Cons.IH [OF *(3)] token(3) show ?thesis by simp
  next
    case (child field ordinal node)
    with Cons.prems obtain ws' where "relocate_edges indices (concat bs) = Some ws'" "ws = b @ ws'"
      by (auto simp: bind_eq_Some_conv)
    with Cons.IH child(2) show ?thesis by simp
  qed
qed simp

text \<open>Where the tokens agree in place as well, the words are the same.\<close>

lemma sim_block_same:
  assumes "map syntax_key ts = map syntax_key us" "sim_block ts us b b'"
  shows "b = b'"
proof -
  from assms(1) have size: "length ts = length us" by (metis length_map)
  have "syntax_key (ts ! i) = syntax_key (us ! i)" if "i < length ts" for i
    using that assms(1) size by (metis nth_map)
  then have places: "tok_start (ts ! i) = tok_start (us ! i)" "tok_end (ts ! i) = tok_end (us ! i)" if "i < length ts" for i
    using that by (auto simp: syntax_key_def)
  then have "token_point ts i = token_point us i" for i by (simp add: token_point_def size)
  with places assms(2) show ?thesis unfolding sim_block_def sim_span_def by fastforce
qed

lemma sim_edge_block_same:
  assumes "map syntax_key ts = map syntax_key us" "sim_edge_block ts us b b'"
  shows "b = b'"
proof -
  from assms(1) have size: "length ts = length us" by (metis length_map)
  have "syntax_key (ts ! i) = syntax_key (us ! i)" if "i < length ts" for i
    using that assms(1) size by (metis nth_map)
  then have "tok_index (ts ! i) = tok_index (us ! i)" if "i < length ts" for i using that by (auto simp: syntax_key_def)
  with assms(2) show ?thesis unfolding sim_edge_block_def by auto
qed

lemma sim_words_same:
  assumes "sim_words R ws ws'" "\<And>b b'. R b b' \<Longrightarrow> b = b'"
  shows "ws = ws'"
proof -
  from assms(1) obtain bs bs' where bs: "ws = concat bs" "ws' = concat bs'" "list_all2 R bs bs'" by (auto simp: sim_words_def)
  from bs(3) have "bs = bs'" by (induction rule: list_all2_induct) (use assms(2) in auto)
  with bs show ?thesis by simp
qed

section \<open>States that ingesting returns\<close>

definition valid_state :: "frontend_plan \<Rightarrow> frontend_state \<Rightarrow> bool" where
  "valid_state plan st \<longleftrightarrow>
     lex_from (plan_lexer plan) (terminal_classification plan) (state_source st) 0 0 = Inr (state_tokens st, []) \<and>
     (\<exists>found root. match_delimiters (state_tokens st) (boundaries plan) [] = Inr (found, []) \<and>
        execute_root_island (state_tokens st) found plan [] = Some (Inr (Some root, [])) \<and>
        materialize (state_tokens st) root plan = Inr (state_program st))"

definition program_of :: "(compact_program \<times> frontend_state) run \<Rightarrow> compact_program run" where
  "program_of r = run_bind r (\<lambda>(program, st). Some (Inr program))"

lemma sort_diagnostics_Nil [simp]: "sort_diagnostics ds = [] \<longleftrightarrow> ds = []"
  by (metis length_0_conv length_sort sort_diagnostics_def)

text \<open>What a reused program is: the words of the tree that parsing the new tokens gives.\<close>

lemma reused_program_exact:
  assumes "valid_state plan st" "length (state_source st) < 2 ^ 32"
    "lex_from (plan_lexer plan) (terminal_classification plan) source 0 0 = Inr (tokens, [])"
    "reused_program (Some st) tokens (same_syntax_tokens tokens (state_tokens st)) = Some program"
  shows "\<exists>found root. match_delimiters tokens (boundaries plan) [] = Inr (found, []) \<and>
    execute_root_island tokens found plan [] = Some (Inr (Some root, [])) \<and>
    materialize tokens root plan = Inr (program\<lparr>program_tokens := materialize_tokens tokens\<rparr>)"
proof -
  let ?old = "syntax_tokens (state_tokens st)" and ?new = "syntax_tokens tokens"
  from assms(1) obtain found root where
      old: "lex_from (plan_lexer plan) (terminal_classification plan) (state_source st) 0 0 = Inr (state_tokens st, [])"
        "match_delimiters (state_tokens st) (boundaries plan) [] = Inr (found, [])"
        "execute_root_island (state_tokens st) found plan [] = Some (Inr (Some root, []))"
        "materialize (state_tokens st) root plan = Inr (state_program st)" by (auto simp: valid_state_def)
  have numbered: "numbered 0 (state_tokens st)" "numbered 0 tokens"
    using lex_from_numbered [OF old(1)] lex_from_numbered [OF assms(3)] .
  have relocated: "relocate_same_grammar st tokens = Some program" if "\<not> same_syntax_tokens tokens (state_tokens st)"
    using assms(4) that by (simp add: reused_program_def)
  have "map terminal_identity ?old = map terminal_identity ?new"
  proof (cases "same_syntax_tokens tokens (state_tokens st)")
    case True
    have "map terminal_identity ts = map (\<lambda>(terminal, s, e, identity, i). (terminal, identity)) (map syntax_key ts)" for ts
      by (simp add: syntax_key_def terminal_identity_def)
    with True show ?thesis unfolding same_syntax_tokens_def by metis
  next
    case False
    from relocated [OF False] show ?thesis by (auto simp: relocate_same_grammar_def Let_def split: if_splits)
  qed
  then have "map fst (map terminal_identity ?old) = map fst (map terminal_identity ?new)" by simp
  then have same: "same_terminals ?old ?new" by (simp add: same_terminals_def comp_def terminal_identity_def)
  from old(2) [unfolded match_delimiters_clean [OF numbered(1)]] obtain inner where
      inner: "clean_delimiters (boundaries plan) ?old inner" "found = renumber_matches (token_place (state_tokens st)) inner" by blast
  note clean = clean_delimiters_same [OF inner(1) same]
  from old(3) have "parse_root plan ?old (collect_matches inner []) [] = Some (Inr (Some root, []))"
    unfolding inner(2) execute_root_island_syntax [OF numbered(1) inner(1)] .
  from parse_root_sim [OF same this, of "[]"] obtain root' where
      root': "parse_root plan ?new (collect_matches inner []) [] = Some (Inr (Some root', []))" "sim_node ?old ?new root root'"
    by auto
  let ?found = "renumber_matches (token_place tokens) inner"
  have found: "match_delimiters tokens (boundaries plan) [] = Inr (?found, [])"
    using clean unfolding match_delimiters_clean [OF numbered(2)] by blast
  have executed: "execute_root_island tokens ?found plan [] = Some (Inr (Some root', []))"
    unfolding execute_root_island_syntax [OF numbered(2) clean] by (rule root'(1))
  from old(4) obtain nodes words where
      flat: "materialize_node plan (fst (assign_ids root 0)) [] [] = Inr (nodes, words)"
        "state_program st = \<lparr>program_tokens = materialize_tokens (state_tokens st), program_nodes = nodes, program_edges = words\<rparr>"
    unfolding materialize_def by (auto elim!: and_then_InrE)
  then have words: "materialize_node plan (fst (assign_ids root 0)) [] [] = Inr (nodes, words)"
      "program_nodes (state_program st) = nodes" "program_edges (state_program st) = words" by simp_all
  have "sim_program ?old ?new (materialize_node plan (fst (assign_ids root 0)) [] []) (materialize_node plan (fst (assign_ids root' 0)) [] [])"
    by (rule materialize_sim(1) [OF conjunct1 [OF assign_ids_sim(1) [OF root'(2)]]]) simp_all
  with words(1) obtain nodes' words' where
      words': "materialize_node plan (fst (assign_ids root' 0)) [] [] = Inr (nodes', words')"
        "sim_words (sim_block ?old ?new) nodes nodes'" "sim_words (sim_edge_block ?old ?new) words words'"
    by (auto simp: sim_program_def)
  have "program_nodes program = nodes' \<and> program_edges program = words'"
  proof (cases "same_syntax_tokens tokens (state_tokens st)")
    case True
    then have "map syntax_key ?old = map syntax_key ?new" by (simp add: same_syntax_tokens_def)
    with words'(2,3) have "nodes = nodes'" "words = words'"
      using sim_words_same sim_block_same sim_edge_block_same by metis+
    with assms(4) True words(2,3) show ?thesis by (auto simp: reused_program_def)
  next
    case False
    from relocated [OF False] obtain starts ends indices where
        tables: "relocation_tables (zip ?old ?new) (replicate (length (state_source st) + 1) missing_offset)
            (replicate (length (state_source st) + 1) missing_offset) (replicate (length (state_tokens st)) missing_offset) =
            Some (starts, ends, indices)"
          "relocate_nodes starts ends nodes = Some (program_nodes program)"
          "relocate_edges indices words = Some (program_edges program)"
      by (auto simp: relocate_same_grammar_def Let_def words bind_eq_Some_conv split: if_splits)
    from lex_from_ordered [OF old(1)] have order: "tokens_ordered (state_tokens st)"
        "\<forall>t\<in>set (state_tokens st). tok_end t \<le> length (state_source st) \<and> tok_index t \<le> tok_start t \<and> tok_start t < tok_end t"
      by (auto simp: tokens_ordered_def)
    have small: "\<forall>t\<in>set ?old. tok_start t < 2 ^ 32 \<and> tok_end t < 2 ^ 32 \<and> tok_index t < 2 ^ 32"
    proof
      fix t
      assume "t \<in> set ?old"
      then have "t \<in> set (state_tokens st)" by (simp add: syntax_tokens_def)
      with order(2) assms(2) show "tok_start t < 2 ^ 32 \<and> tok_end t < 2 ^ 32 \<and> tok_index t < 2 ^ 32" by fastforce
    qed
    from relocation_tables_relocate [OF tables(1) same_terminals_length [OF same]
        tokens_ordered_distinct [OF syntax_tokens_ordered [OF order(1)]] syntax_tokens_distinct [OF numbered(1)]]
    have tables': "relocates ?old ?new tok_start starts" "relocates ?old ?new tok_end ends" "relocates ?old ?new tok_index indices"
      by simp_all
    from words'(2) obtain bs bs' where bs: "nodes = concat bs" "nodes' = concat bs'" "list_all2 (sim_block ?old ?new) bs bs'"
      by (auto simp: sim_words_def)
    from words'(3) obtain cs cs' where cs: "words = concat cs" "words' = concat cs'" "list_all2 (sim_edge_block ?old ?new) cs cs'"
      by (auto simp: sim_words_def)
    from relocate_nodes_sim [OF bs(3) _ tables'(1,2), of "program_nodes program"]
      relocate_edges_sim [OF cs(3) _ tables'(3), of "program_edges program"] tables(2,3) small
    show ?thesis by (auto simp: bs(1,2) cs(1,2))
  qed
  with words'(1) have "materialize tokens root' plan = Inr (program\<lparr>program_tokens := materialize_tokens tokens\<rparr>)"
    by (simp add: materialize_def)
  with found executed show ?thesis by blast
qed

text \<open>After an edit, as from nothing: the program, the diagnostics, the panics and whether ingesting ends.\<close>

lemma all_texts_equal_answers:
  assumes "\<forall>(t, t')\<in>set pairs. tok_start t \<le> tok_end t \<and> tok_end t \<le> length source \<and>
    tok_start t' \<le> tok_end t' \<and> tok_end t' \<le> length source'"
  shows "\<exists>b. all_texts_equal source source' pairs = Inr b"
  using assms by (induction source source' pairs rule: all_texts_equal.induct) (auto simp: source_slice_def)

lemma unchanged_texts_answers:
  assumes "lex_from lx classes source 0 0 = Inr (tokens, ds)" "lex_from lx classes (state_source st) 0 0 = Inr (state_tokens st, ds')"
  shows "\<exists>b. unchanged_texts source tokens (Some st) unchanged = Inr b"
proof -
  have inside: "\<forall>t\<in>set (syntax_tokens ts). tok_start t \<le> tok_end t \<and> tok_end t \<le> length s"
    if "lex_from lx classes s 0 0 = Inr (ts, es)" for s ts es
    using lex_from_ordered [OF that] by (auto simp: tokens_ordered_def syntax_tokens_def intro: less_imp_le)
  have "\<forall>(t, t')\<in>set (zip (syntax_tokens tokens) (syntax_tokens (state_tokens st))). tok_start t \<le> tok_end t \<and>
      tok_end t \<le> length source \<and> tok_start t' \<le> tok_end t' \<and> tok_end t' \<le> length (state_source st)"
    using inside [OF assms(1)] inside [OF assms(2)] by (auto dest: set_zip_leftD set_zip_rightD)
  from all_texts_equal_answers [OF this] show ?thesis
    by (cases unchanged) (auto simp: unchanged_texts_def same_semantic_tokens_def)
qed

lemma ingest_fresh_valid:
  assumes "ingest_incremental plan source None = Some (Inr (program, st))"
  shows "valid_state plan st \<and> state_program st = program \<and> state_source st = source"
proof -
  from assms obtain tokens ds found ds' root where
      *: "lex_from (plan_lexer plan) (terminal_classification plan) source 0 0 = Inr (tokens, ds)"
        "match_delimiters tokens (boundaries plan) ds = Inr (found, ds')" "ds' = []"
        "execute_root_island tokens found plan [] = Some (Inr (Some root, []))" "materialize tokens root plan = Inr program"
        "st = \<lparr>state_source = source, state_tokens = tokens, state_program = program, state_reuse = [],
           parser_executed = True, semantic_input_unchanged = False\<rparr>"
    by (auto simp: ingest_incremental_def ingest_changed_def lex_after_def unchanged_texts_def reused_program_def finished_program_def
      run_bind_Some lift_run_def Let_def split: if_splits option.splits)
  from match_delimiters_diagnostics [OF *(2)] *(3) have "ds = []" by auto
  with * show ?thesis by (auto simp: valid_state_def)
qed

lemma ingest_again_exact:
  assumes "valid_state plan st" "length (state_source st) < 2 ^ 32"
  shows "program_of (ingest_incremental plan source (Some st)) = program_of (ingest_incremental plan source None)"
proof (cases "source = state_source st")
  case True
  from assms(1) obtain found root where
      "lex_from (plan_lexer plan) (terminal_classification plan) source 0 0 = Inr (state_tokens st, [])"
      "match_delimiters (state_tokens st) (boundaries plan) [] = Inr (found, [])"
      "execute_root_island (state_tokens st) found plan [] = Some (Inr (Some root, []))"
      "materialize (state_tokens st) root plan = Inr (state_program st)" by (auto simp: valid_state_def True)
  then show ?thesis
    by (simp add: True ingest_incremental_def ingest_changed_def lex_after_def unchanged_texts_def reused_program_def
      finished_program_def program_of_def lift_run_def)
next
  case False
  have old: "lex_from (plan_lexer plan) (terminal_classification plan) (state_source st) 0 0 = Inr (state_tokens st, [])"
    using assms(1) by (simp add: valid_state_def)
  from lex_incremental_exact [OF old] have lexed: "lex_after plan source (Some st) = lex_after plan source None"
    by (simp add: lex_after_def)
  have changed: "ingest_incremental plan source (Some st) = ingest_changed plan source (Some st)"
      "ingest_incremental plan source None = ingest_changed plan source None"
    using False by (simp_all add: ingest_incremental_def)
  show ?thesis
  proof (cases "lex_after plan source None")
    case (Inl fault)
    with lexed show ?thesis by (simp add: changed ingest_changed_def program_of_def lift_run_def)
  next
    case (Inr r)
    then obtain tokens ds where tokens: "lex_after plan source None = Inr (tokens, ds)" by (cases r) auto
    then have from_start: "lex_from (plan_lexer plan) (terminal_classification plan) source 0 0 = Inr (tokens, ds)"
      by (simp add: lex_after_def)
    let ?unchanged = "same_syntax_tokens tokens (state_tokens st)"
    from unchanged_texts_answers [OF from_start old] obtain b where b: "unchanged_texts source tokens (Some st) ?unchanged = Inr b" by blast
    show ?thesis
    proof (cases "match_delimiters tokens (boundaries plan) ds")
      case (Inl fault)
      with tokens lexed b show ?thesis
        by (simp add: changed ingest_changed_def program_of_def lift_run_def unchanged_texts_def)
    next
      case (Inr r)
      then obtain found ds1 where found: "match_delimiters tokens (boundaries plan) ds = Inr (found, ds1)" by (cases r) auto
      show ?thesis
      proof (cases "reused_program (Some st) tokens ?unchanged")
        case None
        show ?thesis
        proof (cases "if ds1 = [] then execute_root_island tokens found plan ds1 else Some (Inr (None, ds1))" rule: run_cases)
          case (3 x)
          obtain root ds2 where x: "x = (root, ds2)" by (cases x)
          show ?thesis
          proof (cases "ds2 = []")
            case True
            with None 3 x tokens lexed b found show ?thesis
              by (cases "finished_program plan tokens None root")
                (simp_all add: changed ingest_changed_def program_of_def lift_run_def unchanged_texts_def reused_program_def)
          qed (use None 3 x tokens lexed b found in
            \<open>simp add: changed ingest_changed_def program_of_def lift_run_def unchanged_texts_def reused_program_def\<close>)
        qed (use None tokens lexed b found in
          \<open>simp_all add: changed ingest_changed_def program_of_def lift_run_def unchanged_texts_def reused_program_def\<close>)
      next
        case (Some program)
        show ?thesis
        proof (cases "ds1 = []")
          case True
          with match_delimiters_diagnostics [OF found] have "ds = []" by auto
          with reused_program_exact [OF assms from_start [unfolded \<open>ds = []\<close>] Some] found True obtain root where
              "execute_root_island tokens found plan [] = Some (Inr (Some root, []))"
              "materialize tokens root plan = Inr (program\<lparr>program_tokens := materialize_tokens tokens\<rparr>)" by auto
          with Some True tokens lexed b found show ?thesis
            by (simp add: changed ingest_changed_def program_of_def lift_run_def unchanged_texts_def reused_program_def
              finished_program_def)
        next
          case False
          with Some tokens lexed b found show ?thesis
            by (simp add: changed ingest_changed_def program_of_def lift_run_def unchanged_texts_def reused_program_def)
        qed
      qed
    qed
  qed
qed

lemma ingest_again_valid:
  assumes "valid_state plan st" "length (state_source st) < 2 ^ 32"
    "ingest_incremental plan source (Some st) = Some (Inr (program, st'))"
  shows "valid_state plan st' \<and> state_program st' = program \<and> state_source st' = source"
proof (cases "source = state_source st")
  case True
  with assms show ?thesis by (auto simp: ingest_incremental_def valid_state_def)
next
  case False
  from ingest_again_exact [OF assms(1,2), of source] assms(3) obtain fresh where
      fresh: "ingest_incremental plan source None = Some (Inr (program, fresh))"
    by (cases "ingest_incremental plan source None" rule: run_cases) (auto simp: program_of_def split: prod.splits)
  from ingest_fresh_valid [OF this] have valid: "valid_state plan fresh" "state_program fresh = program" "state_source fresh = source"
    by simp_all
  have old: "lex_from (plan_lexer plan) (terminal_classification plan) (state_source st) 0 0 = Inr (state_tokens st, [])"
    using assms(1) by (simp add: valid_state_def)
  from assms(3) False have st': "state_program st' = program" "state_source st' = source"
      "\<exists>ds. lex_after plan source (Some st) = Inr (state_tokens st', ds)"
    by (auto simp: ingest_incremental_def ingest_changed_def run_bind_Some lift_run_def Let_def split: if_splits)
  with lex_incremental_exact [OF old, of source] valid have "state_tokens st' = state_tokens fresh"
    by (auto simp: lex_after_def valid_state_def)
  with valid st'(1,2) show ?thesis by (simp add: valid_state_def)
qed

section \<open>Ingesting returns\<close>

text \<open>What materializing needs of a tree: known islands, and edges with a token or a child.\<close>

fun well_built :: "frontend_plan \<Rightarrow> pending_node \<Rightarrow> bool"
  and well_built_edges :: "frontend_plan \<Rightarrow> pending_edge list \<Rightarrow> bool" where
  "well_built plan (PendingNode island_id s e edges id') \<longleftrightarrow> island_id < length (islands plan) \<and> well_built_edges plan edges"
| "well_built_edges plan [] \<longleftrightarrow> True"
| "well_built_edges plan (PendingEdge field t None ordinal # es) \<longleftrightarrow> t \<noteq> None \<and> well_built_edges plan es"
| "well_built_edges plan (PendingEdge field t (Some child) ordinal # es) \<longleftrightarrow> well_built plan child \<and> well_built_edges plan es"

lemma well_built_edges_append:
  "well_built_edges plan (es @ fs) \<longleftrightarrow> well_built_edges plan es \<and> well_built_edges plan fs"
proof (induction es)
  case (Cons e es)
  obtain field t child ordinal where "e = PendingEdge field t child ordinal" by (cases e)
  with Cons show ?case by (cases child) auto
qed simp

lemma derives_well_built:
  "derives plan ts found node i j \<Longrightarrow> well_built plan node"
  "island_path plan ts found plan_island i edges state j \<Longrightarrow> well_built_edges plan edges"
  by (induction rule: derives_island_path.inducts) (simp_all add: well_built_edges_append)

lemma append_edge_words_answers: "well_built_edges plan es \<Longrightarrow> \<exists>r. append_edge_words es words = Inr r"
proof (induction es arbitrary: words)
  case (Cons e es)
  obtain field t child ordinal where "e = PendingEdge field t child ordinal" by (cases e)
  with Cons show ?case by (cases t; cases child) (auto simp: edge_words_def)
qed simp

lemma well_built_assign:
  "well_built plan (fst (assign_ids node n)) \<longleftrightarrow> well_built plan node"
  "well_built_edges plan (fst (assign_edge_ids edges n)) \<longleftrightarrow> well_built_edges plan edges"
  by (induction node n and edges n rule: assign_ids_assign_edge_ids.induct) (auto simp: Let_def split: prod.splits)

lemma materialize_answers:
  "well_built plan node \<Longrightarrow> assign_ids node n = (node', n') \<Longrightarrow> length nodes = 8 * n \<Longrightarrow>
     \<exists>nodes' words'. materialize_node plan node' nodes words = Inr (nodes', words') \<and> length nodes' = 8 * n'"
  "well_built_edges plan edges \<Longrightarrow> assign_edge_ids edges n = (edges', n') \<Longrightarrow> length nodes = 8 * n \<Longrightarrow>
     \<exists>nodes' words'. materialize_children plan edges' nodes words = Inr (nodes', words') \<and> length nodes' = 8 * n'"
proof (induction node n and edges n arbitrary: node' n' nodes words and edges' n' nodes words
    rule: assign_ids_assign_edge_ids.induct)
  case (1 island_id s e edges id' next_id)
  from 1(3) obtain edges' where edges': "assign_edge_ids edges (next_id + 1) = (edges', n')"
      "node' = PendingNode island_id s e edges' (int next_id)" by (auto split: prod.splits)
  from 1(2) have "island_id < length (islands plan)" and built: "well_built_edges plan edges" by simp_all
  then have at: "index_at (islands plan) island_id = Inr (islands plan ! island_id)" by (simp add: index_at_def)
  from built edges'(1) have "well_built_edges plan edges'" using well_built_assign(2) [of plan edges "next_id + 1"] by simp
  then obtain r where r: "append_edge_words edges' words = Inr r" using append_edge_words_answers by blast
  let ?nodes = "nodes @ [rule_id (islands plan ! island_id), 0, as_i32 s, as_i32 e, as_i32 (length words div 4),
    as_i32 (length edges'), - 1, - 1]"
  have "length ?nodes = 8 * (next_id + 1)" using 1(4) by simp
  from 1(1) [OF built edges'(1) this, of r] show ?case
    using 1(4) by (simp add: edges'(2) at r ensure_def)
next
  case (3 field t ordinal es next_id)
  from 3(3) obtain es' where "assign_edge_ids es next_id = (es', n')" "edges' = PendingEdge field t None ordinal # es'"
    by (auto split: prod.splits)
  with 3(1) [of es' n' nodes words] 3(2,4) show ?case by simp
next
  case (4 field t child ordinal es next_id)
  from 4(4) obtain child' k es' where *: "assign_ids child next_id = (child', k)" "assign_edge_ids es k = (es', n')"
      "edges' = PendingEdge field t (Some child') ordinal # es'" by (auto split: prod.splits)
  from 4(1) [OF _ *(1) 4(5), of words] 4(3) obtain nodes1 words1 where
      first: "materialize_node plan child' nodes words = Inr (nodes1, words1)" "length nodes1 = 8 * k" by auto
  from 4(2) [OF *(1) [symmetric] refl _ *(2) first(2), of words1] 4(3) first(1) *(3) show ?case by simp
qed auto

lemma ingest_answers:
  assumes "well_formed_plan plan" "well_formed_tables (plan_lexer plan) (terminal_classification plan)"
    "consistent_delimiters (boundaries plan)" "length source < 2 ^ 32"
  shows "(\<exists>program st. ingest_incremental plan source None = Some (Inr (program, st))) \<or>
    (\<exists>d ds. ingest_incremental plan source None = Some (Inl (Rejected (d # ds))))"
proof -
  from lex_from_answers [OF assms(2,4)] obtain tokens ds where
      tokens: "lex_from (plan_lexer plan) (terminal_classification plan) source 0 0 = Inr (tokens, ds)" by blast
  from lex_from_ordered [OF tokens] assms(4) have small: "\<forall>t\<in>set tokens. tok_start t < 2 ^ 32 \<and> tok_end t < 2 ^ 32"
    by (fastforce simp: tokens_ordered_def)
  from match_delimiters_total [OF assms(3) small] obtain found ds1 where
      found: "match_delimiters tokens (boundaries plan) ds = Inr (found, ds1)" by blast
  show ?thesis
  proof (cases "ds1 = []")
    case True
    with match_delimiters_diagnostics [OF found] have "ds = []" by auto
    note numbered = lex_from_numbered [OF tokens]
    from found True \<open>ds = []\<close> obtain inner where
        inner: "clean_delimiters (boundaries plan) (syntax_tokens tokens) inner" "found = renumber_matches (token_place tokens) inner"
      using match_delimiters_clean [OF numbered] by auto
    have "\<forall>t\<in>set (syntax_tokens tokens). tok_start t < 2 ^ 32 \<and> tok_end t < 2 ^ 32"
      using small by (simp add: syntax_tokens_def)
    from parse_root_total [OF assms(1) ordered_collect_matches [OF inner(1)] this, of "[]"] obtain root ds2 where
        root: "parse_root plan (syntax_tokens tokens) (collect_matches inner []) [] = Some (Inr (root, ds2))"
          "root = None \<longrightarrow> ds2 \<noteq> []" by blast
    then have executed: "execute_root_island tokens found plan [] = Some (Inr (root, ds2))"
      unfolding inner(2) execute_root_island_syntax [OF numbered inner(1)] by simp
    show ?thesis
    proof (cases "ds2 = []")
      case True
      with root(2) obtain node where node: "root = Some node" by auto
      from parse_root_derives [OF root(1) [unfolded node]] have "well_built plan node" using derives_well_built(1) by blast
      with materialize_answers(1) [of plan node 0 "fst (assign_ids node 0)" "snd (assign_ids node 0)" "[]" "[]"]
      obtain nodes words where "materialize_node plan (fst (assign_ids node 0)) [] [] = Inr (nodes, words)" by auto
      with tokens found \<open>ds1 = []\<close> executed node True show ?thesis
        by (auto simp: ingest_incremental_def ingest_changed_def lex_after_def unchanged_texts_def reused_program_def
          finished_program_def materialize_def lift_run_def)
    next
      case False
      then have "sort_diagnostics ds2 \<noteq> []" by simp
      then obtain d rest where "sort_diagnostics ds2 = d # rest" by (cases "sort_diagnostics ds2") auto
      with tokens found \<open>ds1 = []\<close> executed False show ?thesis
        by (auto simp: ingest_incremental_def ingest_changed_def lex_after_def unchanged_texts_def reused_program_def lift_run_def)
    qed
  next
    case False
    then have "sort_diagnostics ds1 \<noteq> []" by simp
    then obtain d rest where "sort_diagnostics ds1 = d # rest" by (cases "sort_diagnostics ds1") auto
    with tokens found False show ?thesis
      by (auto simp: ingest_incremental_def ingest_changed_def lex_after_def unchanged_texts_def reused_program_def lift_run_def)
  qed
qed

section \<open>Nodes reported as reused\<close>

text \<open>A pair of nodes of one rule whose texts are the same.\<close>

definition unchanged_node :: "16 word list \<Rightarrow> compact_program \<Rightarrow> 16 word list \<Rightarrow> compact_program \<Rightarrow> node_reuse \<Rightarrow> bool" where
  "unchanged_node previous_source previous source current r \<longleftrightarrow>
     reuse_previous r < length (program_nodes previous) div 8 \<and> reuse_current r < length (program_nodes current) div 8 \<and>
     (case (node_key previous (reuse_previous r), node_key current (reuse_current r)) of
        ((rule, s, e), (rule', s', e')) \<Rightarrow>
          rule = rule' \<and> e - s = e' - s' \<and> take (e - s) (drop s previous_source) = take (e' - s') (drop s' source))"

lemma previous_span_text:
  assumes "previous_span (common_prefix old new) (length old - suffix) (length new - suffix) s e = Some (s', e')"
    "drop (length new - suffix) new = drop (length old - suffix) old"
  shows "e' - s' = e - s \<and> take (e' - s') (drop s' old) = take (e - s) (drop s new)"
proof (cases "e \<le> common_prefix old new")
  case True
  with assms(1) have same: "s' = s" "e' = e" by (simp_all add: previous_span_def)
  from common_prefix_take [of old new] True have "take e old = take e new" by (metis min.absorb1 take_take)
  then show ?thesis by (simp add: same drop_take [symmetric])
next
  case False
  let ?old = "length old - suffix" and ?new = "length new - suffix"
  from assms(1) False have s: "?new \<le> s" "s' = ?old + s - ?new" "e' = ?old + e - ?new"
    by (simp_all add: previous_span_def split: if_splits)
  then have "s' = (s - ?new) + ?old" "s = (s - ?new) + ?new" by linarith+
  then have "drop s' old = drop (s - ?new) (drop ?old old)" "drop s new = drop (s - ?new) (drop ?new new)"
    unfolding drop_drop by metis+
  moreover from s have "e' - s' = e - s" by linarith
  ultimately show ?thesis using assms(2) by simp
qed

lemma nodes_by_key_exact: "i \<in> set (nodes_by_key program key) \<longleftrightarrow> i < length (program_nodes program) div 8 \<and> node_key program i = key"
  and nodes_by_key_distinct: "distinct (nodes_by_key program key)"
proof -
  let ?step = "\<lambda>i m. m(node_key program i := i # m (node_key program i))"
  have step: "set (fold ?step is m key) = set (m key) \<union> {i \<in> set is. node_key program i = key} \<and>
      (distinct is \<longrightarrow> distinct (m key) \<longrightarrow> set is \<inter> set (m key) = {} \<longrightarrow> distinct (fold ?step is m key))" for "is" m
  proof (induction "is" arbitrary: m)
    case (Cons i "is")
    from Cons.IH [of "?step i m"] show ?case by auto
  qed simp
  from step [of "[0..<length (program_nodes program) div 8]" "\<lambda>_. []"]
  show "i \<in> set (nodes_by_key program key) \<longleftrightarrow> i < length (program_nodes program) div 8 \<and> node_key program i = key"
    "distinct (nodes_by_key program key)" by (auto simp: nodes_by_key_def)
qed

lemma reuse_by_key_exact:
  assumes "\<forall>key. \<forall>i\<in>set (candidates key). i < length (program_nodes previous) div 8 \<and> node_key previous i = key"
    "\<forall>key. distinct (candidates key)" "\<forall>i\<in>set is. i < length (program_nodes current) div 8"
    "length (program_nodes previous) div 8 \<le> 2 ^ 32" "length (program_nodes current) div 8 \<le> 2 ^ 32"
    "drop (length new - suffix) new = drop (length old - suffix) old"
  shows "(\<forall>r\<in>set (reuse_by_key current (common_prefix old new) (length old - suffix) (length new - suffix) is candidates).
      unchanged_node old previous new current r \<and> (\<exists>key. reuse_previous r \<in> set (candidates key))) \<and>
    distinct (map reuse_previous (reuse_by_key current (common_prefix old new) (length old - suffix) (length new - suffix) is candidates))"
  using assms(1-3)
proof (induction "is" arbitrary: candidates)
  case (Cons i "is")
  let ?reuse = "reuse_by_key current (common_prefix old new) (length old - suffix) (length new - suffix)"
  obtain rule s e where key: "node_key current i = (rule, s, e)" by (cases "node_key current i") auto
  from Cons.prems(3) have i: "i < length (program_nodes current) div 8" and rest: "\<forall>i\<in>set is. i < length (program_nodes current) div 8"
    by simp_all
  show ?case
  proof (cases "previous_span (common_prefix old new) (length old - suffix) (length new - suffix) s e")
    case None
    with Cons.IH [OF Cons.prems(1,2) rest] key show ?thesis by simp
  next
    case (Some span)
    obtain s' e' where span: "span = (s', e')" by (cases span)
    show ?thesis
    proof (cases "candidates (rule, s', e')")
      case Nil
      with Cons.IH [OF Cons.prems(1,2) rest] key Some span show ?thesis by simp
    next
      case found: (Cons p ps)
      define fewer where "fewer = candidates((rule, s', e') := ps)"
      from Cons.prems(1) found have p: "p < length (program_nodes previous) div 8" "node_key previous p = (rule, s', e')"
        by (metis list.set_intros(1))+
      have exact: "\<forall>key. \<forall>i\<in>set (fewer key). i < length (program_nodes previous) div 8 \<and> node_key previous i = key"
        using Cons.prems(1) found unfolding fewer_def by (metis fun_upd_apply list.set_intros(2))
      have distinct: "\<forall>key. distinct (fewer key)" using Cons.prems(2) found unfolding fewer_def by (metis distinct.simps(2) fun_upd_apply)
      note IH = Cons.IH [OF exact distinct rest]
      let ?r = "\<lparr>reuse_previous = as_u32 p, reuse_current = as_u32 i\<rparr>"
      from p(1) i assms(4,5) have "p < 2 ^ 32" "i < 2 ^ 32" by linarith+
      then have ids: "as_u32 p = p" "as_u32 i = i" by (simp_all add: as_u32_def nat_mod_as_int [symmetric])
      note same = previous_span_text [OF Some [unfolded span] assms(6)]
      from conjunct1 [OF same] conjunct2 [OF same] p i key have unchanged: "unchanged_node old previous new current ?r" by (simp add: unchanged_node_def ids)
      have gone: "p \<notin> set (fewer k)" for k
      proof
        assume "p \<in> set (fewer k)"
        with exact have "node_key previous p = k" by blast
        with p(2) have "k = (rule, s', e')" by simp
        with \<open>p \<in> set (fewer k)\<close> Cons.prems(2) found show False unfolding fewer_def by (metis distinct.simps(2) fun_upd_same)
      qed
      have within: "\<exists>key. x \<in> set (candidates key)" if "x \<in> set (fewer k)" for x k
        using that found unfolding fewer_def by (metis fun_upd_apply list.set_intros(2))
      have reuse: "?reuse (i # is) candidates = ?r # ?reuse is fewer" using key Some span found by (simp add: fewer_def)
      have "p \<notin> reuse_previous ` set (?reuse is fewer)" using IH gone by blast
      moreover have "\<exists>key. p \<in> set (candidates key)" using found by (metis list.set_intros(1))
      ultimately show ?thesis unfolding reuse using IH unchanged within by (simp add: ids del: split_paired_Ex) blast
    qed
  qed
qed simp

section \<open>Properties\<close>

text \<open>
  A small plan. Words are runs of the units 200 and 201, 202 is a blank, 203 begins a note that runs on
  to the end, 204 and 205 are parentheses. An item is a word or an item in parentheses.
\<close>

definition item_lexer :: lexer_tables where
  "item_lexer = \<lparr>state_count = 6, start_state = 0, ascii_transitions = [], transition_rows = [0, 5, 6, 7, 8, 8, 8],
     transition_triples = [200, 201, 1, 202, 202, 2, 203, 203, 3, 204, 204, 4, 205, 205, 5, 200, 201, 1, 202, 202, 2, 200, 205, 3],
     accept_spec_by_state = [-1, 0, 1, 2, 3, 4]\<rparr>"

definition on_terminal :: "int \<Rightarrow> nat \<Rightarrow> island_transition" where
  "on_terminal terminal target =
     \<lparr>transition_kind = TerminalInput, transition_input = terminal, next_state = target, emitted_field = -1\<rparr>"

definition on_island :: "int \<Rightarrow> nat \<Rightarrow> island_transition" where
  "on_island island_id target =
     \<lparr>transition_kind = IslandInput, transition_input = island_id, next_state = target, emitted_field = 0\<rparr>"

definition item_plan :: frontend_plan where
  "item_plan = \<lparr>root_island = 0, terminal_classification = [7, -1, -1, 40, 41],
     boundaries = [RootBoundary, RootBoundary, PairedBoundary 40 41],
     islands = [
       \<lparr>rule_id = 10, first_state = 0, island_states =
          [\<lparr>accepting = True, transitions = [on_island 1 0]\<rparr>]\<rparr>,
       \<lparr>rule_id = 11, first_state = 0, island_states =
          [\<lparr>accepting = False, transitions = [on_terminal 7 1, on_island 2 1]\<rparr>, \<lparr>accepting = True, transitions = []\<rparr>]\<rparr>,
       \<lparr>rule_id = 12, first_state = 0, island_states =
          [\<lparr>accepting = False, transitions = [on_terminal 40 1]\<rparr>, \<lparr>accepting = False, transitions = [on_island 1 2]\<rparr>,
           \<lparr>accepting = False, transitions = [on_terminal 41 3]\<rparr>, \<lparr>accepting = True, transitions = []\<rparr>]\<rparr>],
     plan_lexer = item_lexer\<rparr>"

text \<open>The states a host can hold: ingested from nothing, or after an edit of a state it holds.\<close>

inductive held_state :: "frontend_plan \<Rightarrow> frontend_state \<Rightarrow> bool" for plan where
  held_fresh: "ingest_incremental plan source None = Some (Inr (program, st)) \<Longrightarrow> held_state plan st"
| held_edit: "held_state plan st \<Longrightarrow> length (state_source st) < 2 ^ 32 \<Longrightarrow>
    ingest_incremental plan source (Some st) = Some (Inr (program, st')) \<Longrightarrow> held_state plan st'"

lemma held_state_valid: "held_state plan st \<Longrightarrow> valid_state plan st"
  by (induction rule: held_state.induct) (auto dest: ingest_fresh_valid ingest_again_valid)

text \<open>The source \<open>a #b\<close> and its state; then its comment is taken away and the word in it is left.\<close>

definition noted_source :: "16 word list" where
  "noted_source = [200, 202, 203, 201]"

definition noted_tokens :: "token list" where
  "noted_tokens =
     [\<lparr>tok_terminal = 7, tok_start = 0, tok_end = 1, tok_identity = 0, tok_index = 0, tok_dependency = 2\<rparr>,
      \<lparr>tok_terminal = -1, tok_start = 1, tok_end = 2, tok_identity = 1, tok_index = 1, tok_dependency = 3\<rparr>,
      \<lparr>tok_terminal = -1, tok_start = 2, tok_end = 4, tok_identity = 2, tok_index = 2, tok_dependency = 4\<rparr>]"

definition noted_root :: pending_node where
  "noted_root = PendingNode 0 0 1
     [PendingEdge 0 None (Some (PendingNode 1 0 1 [PendingEdge (-1) (Some (noted_tokens ! 0)) None 0] (2 ^ 64 - 1))) 0] (2 ^ 64 - 1)"

definition noted_program :: compact_program where
  "noted_program = \<lparr>program_tokens = [7, 0, 1, 0, -1, 1, 2, 1, -1, 2, 4, 2],
     program_nodes = [10, 0, 0, 1, 0, 1, -1, -1, 11, 0, 0, 1, 1, 1, -1, -1], program_edges = [0, 0, 1, 1, -1, 0, 0, 0]\<rparr>"

definition noted_state :: frontend_state where
  "noted_state = \<lparr>state_source = noted_source, state_tokens = noted_tokens, state_program = noted_program,
     state_reuse = [], parser_executed = True, semantic_input_unchanged = False\<rparr>"

lemma noted_state_ingested: "ingest_incremental item_plan noted_source None = Some (Inr (noted_program, noted_state))"
proof -
  have "lex_from (plan_lexer item_plan) (terminal_classification item_plan) noted_source 0 0 = Inr (noted_tokens, [])" by code_simp
  moreover have "match_delimiters noted_tokens (boundaries item_plan) [] = Inr ([], [])" by code_simp
  moreover have "execute_root_island noted_tokens [] item_plan [] = Some (Inr (Some noted_root, []))" by code_simp
  moreover have "materialize noted_tokens noted_root item_plan = Inr noted_program" by code_simp
  ultimately show ?thesis
    by (simp add: ingest_incremental_def ingest_changed_def lex_after_def unchanged_texts_def reused_program_def
      finished_program_def lift_run_def noted_state_def)
qed

text \<open>
  What a tree kept from the previous source reports is not always unchanged: the word of the state is
  reported as reused although the word that is left is another, since the node starts in the common
  suffix of the new source but not of the old one.
\<close>

lemma changed_node_reported:
  "\<exists>program st. ingest_incremental item_plan [201] (Some noted_state) = Some (Inr (program, st)) \<and>
     \<lparr>reuse_previous = 1, reuse_current = 1\<rparr> \<in> set (state_reuse st) \<and>
     \<not> unchanged_node noted_source noted_program [201] program \<lparr>reuse_previous = 1, reuse_current = 1\<rparr>"
proof -
  let ?t = "\<lparr>tok_terminal = 7, tok_start = 0, tok_end = 1, tok_identity = 0, tok_index = 0, tok_dependency = 1\<rparr>"
  let ?program = "noted_program\<lparr>program_tokens := materialize_tokens [?t]\<rparr>"
  let ?reuse = "reused_nodes noted_source noted_program [201] ?program True"
  have "lex_incremental (plan_lexer item_plan) (terminal_classification item_plan) [201] noted_source noted_tokens = Inr ([?t], [])"
    by code_simp
  moreover have "same_syntax_tokens [?t] noted_tokens" by code_simp
  moreover have "unchanged_texts [201] [?t] (Some noted_state) True = Inr False" by code_simp
  moreover have "match_delimiters [?t] (boundaries item_plan) [] = Inr ([], [])" by code_simp
  ultimately have "ingest_incremental item_plan [201] (Some noted_state) = Some (Inr (?program,
      \<lparr>state_source = [201], state_tokens = [?t], state_program = ?program, state_reuse = ?reuse, parser_executed = False,
        semantic_input_unchanged = False\<rparr>))"
    by (simp add: ingest_incremental_def ingest_changed_def lex_after_def reused_program_def finished_program_def lift_run_def
      noted_state_def noted_source_def)
      (simp add: noted_program_def)
  moreover have "\<lparr>reuse_previous = 1, reuse_current = 1\<rparr> \<in> set ?reuse" by code_simp
  moreover have "\<not> unchanged_node noted_source noted_program [201] ?program \<lparr>reuse_previous = 1, reuse_current = 1\<rparr>" by code_simp
  ultimately show ?thesis by auto
qed

text \<open>
  C5. Whatever edits led to the state a host holds, ingesting a source against it gives the program, or
  the diagnostics, that ingesting the source from nothing gives.
\<close>
theorem incremental_ingestion_exact:
  assumes "held_state plan st" "length (state_source st) < 2 ^ 32"
  shows "program_of (ingest_incremental plan source (Some st)) = program_of (ingest_incremental plan source None)"
  using ingest_again_exact [OF held_state_valid [OF assms(1)] assms(2)] .

theorem incremental_ingestion_exact_witness:
  "program_of (ingest_incremental item_plan [204, 200, 205] (Some noted_state)) =
   program_of (ingest_incremental item_plan [204, 200, 205] None)"
  by (rule incremental_ingestion_exact [OF held_fresh [OF noted_state_ingested]])
    (simp add: noted_state_def noted_source_def)

text \<open>
  C21. On the plans and tables of a generator and sources of fewer than 2^32 units ingesting returns:
  a program, or diagnostics. Neither the parser nor the lexer runs on, and nothing panics.
\<close>
theorem ingestion_answers:
  assumes "well_formed_plan plan" "well_formed_tables (plan_lexer plan) (terminal_classification plan)"
    "consistent_delimiters (boundaries plan)" "length source < 2 ^ 32"
    "previous = None \<or> (\<exists>st. previous = Some st \<and> held_state plan st \<and> length (state_source st) < 2 ^ 32)"
  shows "(\<exists>program. program_of (ingest_incremental plan source previous) = Some (Inr program)) \<or>
    (\<exists>d ds. program_of (ingest_incremental plan source previous) = Some (Inl (Rejected (d # ds))))"
proof -
  have "program_of (ingest_incremental plan source previous) = program_of (ingest_incremental plan source None)"
    using assms(5) ingest_again_exact held_state_valid by blast
  with ingest_answers [OF assms(1-4)] show ?thesis by (auto simp: program_of_def)
qed

definition complete_plan :: frontend_plan where
  "complete_plan = item_plan\<lparr>plan_lexer := item_lexer\<lparr>ascii_transitions := replicate 768 (-1)\<rparr>\<rparr>"

theorem ingestion_answers_witness:
  "(\<exists>program. program_of (ingest_incremental complete_plan [204, 200] None) = Some (Inr program)) \<or>
   (\<exists>d ds. program_of (ingest_incremental complete_plan [204, 200] None) = Some (Inl (Rejected (d # ds))))"
proof (rule ingestion_answers)
  show "well_formed_plan complete_plan" by code_simp
  show "well_formed_tables (plan_lexer complete_plan) (terminal_classification complete_plan)" by code_simp
  show "consistent_delimiters (boundaries complete_plan)" by code_simp
qed simp_all

text \<open>
  C6. The tree of an ingested source derives its tokens: it is a run of the root island, each of its nodes
  a run of its island over a contiguous stretch of tokens, delimited islands between matching delimiters,
  and its leaves are the tokens that are not trivia, in order.
\<close>
theorem parse_tree_exact:
  assumes "lex_from (plan_lexer plan) (terminal_classification plan) source 0 0 = Inr (tokens, ds)"
    "match_delimiters tokens (boundaries plan) [] = Inr (found, [])"
    "execute_root_island tokens found plan [] = Some (Inr (Some root, es))"
  shows "pending_island root = root_island plan \<and> node_tokens root = syntax_tokens tokens \<and>
    (\<exists>inner. clean_delimiters (boundaries plan) (syntax_tokens tokens) inner \<and>
       derives plan (syntax_tokens tokens) (collect_matches inner []) root 0 (length (syntax_tokens tokens)))"
proof -
  note numbered = lex_from_numbered [OF assms(1)]
  from assms(2) [unfolded match_delimiters_clean [OF numbered]] obtain inner where
      inner: "clean_delimiters (boundaries plan) (syntax_tokens tokens) inner" "found = renumber_matches (token_place tokens) inner"
    by blast
  from assms(3) have "parse_root plan (syntax_tokens tokens) (collect_matches inner []) [] = Some (Inr (Some root, es))"
    unfolding inner(2) execute_root_island_syntax [OF numbered inner(1)] .
  from parse_root_derives [OF this] inner(1) derives_tokens(1) show ?thesis by fastforce
qed

theorem parse_tree_exact_witness:
  "pending_island noted_root = root_island item_plan \<and> node_tokens noted_root = syntax_tokens noted_tokens \<and>
   (\<exists>inner. clean_delimiters (boundaries item_plan) (syntax_tokens noted_tokens) inner \<and>
      derives item_plan (syntax_tokens noted_tokens) (collect_matches inner []) noted_root 0 (length (syntax_tokens noted_tokens)))"
  by (rule parse_tree_exact [where source = noted_source and found = "[]"]) code_simp+

text \<open>
  C36. When a source is parsed anew, each pair of nodes reported as reused has one rule and one text, and no
  previous node is reported twice.
\<close>
theorem parsed_reuse_unchanged:
  assumes "length (program_nodes previous) div 8 \<le> 2 ^ 32" "length (program_nodes current) div 8 \<le> 2 ^ 32"
  shows "list_all (unchanged_node previous_source previous source current)
      (reused_nodes previous_source previous source current False) \<and>
    distinct (map reuse_previous (reused_nodes previous_source previous source current False))"
proof -
  let ?prefix = "common_prefix previous_source source"
  define suffix where "suffix = common_suffix previous_source source
    (min (length previous_source - ?prefix) (length source - ?prefix))"
  from common_suffix_drop [OF suffix_def] have
      same: "drop (length source - suffix) source = drop (length previous_source - suffix) previous_source" by simp
  have "\<forall>key. \<forall>i\<in>set (nodes_by_key previous key). i < length (program_nodes previous) div 8 \<and> node_key previous i = key"
      "\<forall>key. distinct (nodes_by_key previous key)"
      "\<forall>i\<in>set [0..<length (program_nodes current) div 8]. i < length (program_nodes current) div 8"
    by (auto simp: nodes_by_key_exact nodes_by_key_distinct)
  note reuse = reuse_by_key_exact [OF this assms same]
  have "distinct (map f (sort_key g xs)) \<longleftrightarrow> distinct (map f xs)" for f :: "node_reuse \<Rightarrow> nat" and g :: "node_reuse \<Rightarrow> nat" and xs
    by (metis distinct_map distinct_sort set_sort)
  with reuse show ?thesis by (auto simp: reused_nodes_def Let_def suffix_def [symmetric] list_all_iff)
qed

theorem parsed_reuse_unchanged_witness:
  "list_all (unchanged_node noted_source noted_program noted_source noted_program)
     (reused_nodes noted_source noted_program noted_source noted_program False) \<and>
   distinct (map reuse_previous (reused_nodes noted_source noted_program noted_source noted_program False))"
  by (rule parsed_reuse_unchanged) (simp_all add: noted_program_def)

end
