(* ===== verification/Layout.thy ===== *)
theory Layout
  imports Frontend
begin

text \<open>
  Layout (\<open>compiler/src/layout.rs\<close>): before a source is ingested its lines become explicit. A character is
  inserted where a line of a suite begins, where a suite is opened by an indented line and where it is
  closed, and \<open>;\<close> between the fields of a record that stand on lines of their own. Each unit of the
  elaborated source keeps its offset in the source.
\<close>

section \<open>Results\<close>

datatype layout_message =
  ReservedLayoutCharacter
| InconsistentIndent nat "nat list" "nat option"
| LambdaBodyHint
| UnionLineHint
| FrontendMessage frontend_diagnostic

record layout_diagnostic =
  diag_message :: layout_message
  diag_span :: "nat \<times> nat"

datatype layout_fault =
  LayoutPanic
| LayoutRejected "layout_diagnostic list"

record layout_source =
  layout_units :: "16 word list"
  original_offsets :: "nat list"
  continuation_hints :: "(nat \<times> layout_diagnostic) list"

text \<open>\<open>expect\<close>, \<open>xs[i]\<close> and \<open>&xs[a..b]\<close>.\<close>

definition expect :: "'a option \<Rightarrow> (layout_fault, 'a) result" where
  "expect x = (case x of None \<Rightarrow> Inl LayoutPanic | Some v \<Rightarrow> Inr v)"

definition item :: "'a list \<Rightarrow> nat \<Rightarrow> (layout_fault, 'a) result" where
  "item xs i = (if i < length xs then Inr (xs ! i) else Inl LayoutPanic)"

definition slice :: "'a list \<Rightarrow> nat \<Rightarrow> nat \<Rightarrow> (layout_fault, 'a list) result" where
  "slice xs a b = (if a \<le> b \<and> b \<le> length xs then Inr (take (b - a) (drop a xs)) else Inl LayoutPanic)"

fun frontend_span :: "frontend_diagnostic \<Rightarrow> nat \<times> nat" where
  "frontend_span (LexicalError s e u) = (s, e)"
| "frontend_span (MalformedDelimiter s e expected received) = (s, e)"
| "frontend_span (SyntaxError s e island) = (s, e)"

definition of_frontend :: "frontend_diagnostic \<Rightarrow> layout_diagnostic" where
  "of_frontend d = \<lparr>diag_message = FrontendMessage d, diag_span = frontend_span d\<rparr>"

section \<open>Texts\<close>

definition layout_newline :: "16 word" where
  "layout_newline = 0xe000"

definition layout_indent :: "16 word" where
  "layout_indent = 0xe001"

definition layout_dedent :: "16 word" where
  "layout_dedent = 0xe002"

definition named_token_kinds :: "string list" where
  "named_token_kinds =
     [''IDENT'', ''TYPE_IDENT'', ''INTEGER'', ''FLOAT'', ''TEXT'', ''ELSE_IF'', ''INTRINSIC'', ''ANGLE_LEFT'',
      ''ANGLE_RIGHT'', ''QUESTION'', ''LAYOUT_NEWLINE'', ''LAYOUT_INDENT'', ''LAYOUT_DEDENT'', ''OPERATOR'',
      ''WHITESPACE'', ''COMMENT'']"

definition token_kind :: "token \<Rightarrow> string option" where
  "token_kind t =
     (if 0 \<le> tok_identity t \<and> nat (tok_identity t) < length named_token_kinds
      then Some (named_token_kinds ! nat (tok_identity t)) else None)"

text \<open>The literals of the code are ASCII, where a character is one UTF-16 unit.\<close>

definition text_units :: "string \<Rightarrow> 16 word list" where
  "text_units s = map of_char s"

definition is_text :: "16 word list \<Rightarrow> token \<Rightarrow> string \<Rightarrow> bool" where
  "is_text source t expected \<longleftrightarrow> tok_start t \<le> tok_end t \<and> tok_end t \<le> length source \<and> token_text source t = text_units expected"

definition is_any :: "16 word list \<Rightarrow> token \<Rightarrow> string list \<Rightarrow> bool" where
  "is_any source t texts \<longleftrightarrow> list_ex (is_text source t) texts"

text \<open>\<open>rposition\<close>, and the widths of indentations; a tab goes to the next multiple of eight.\<close>

definition last_index :: "('a \<Rightarrow> bool) \<Rightarrow> 'a list \<Rightarrow> nat option" where
  "last_index P xs = map_option (\<lambda>k. length xs - 1 - k) (first_index P (rev xs))"

definition last_newline_end :: "16 word list \<Rightarrow> nat option" where
  "last_newline_end text =
     (case last_index (\<lambda>u. u = 10) text of
        Some i \<Rightarrow> Some (i + 1)
      | None \<Rightarrow> map_option (\<lambda>i. i + 1) (last_index (\<lambda>u. u = 13) text))"

fun indentation_from :: "nat \<Rightarrow> 16 word list \<Rightarrow> nat option" where
  "indentation_from width [] = Some width"
| "indentation_from width (u # us) =
     (if u = 32 then indentation_from (width + 1) us
      else if u = 9 then indentation_from (width + (8 - width mod 8)) us
      else if u = 13 \<or> u = 10 then indentation_from width us
      else None)"

definition indentation_width :: "16 word list \<Rightarrow> nat option" where
  "indentation_width text = indentation_from 0 text"

definition source_indent_width :: "16 word list \<Rightarrow> nat \<Rightarrow> (layout_fault, nat) result" where
  "source_indent_width source offset =
     and_then (slice source 0 offset) (\<lambda>prior.
     let line_start = (case last_index (\<lambda>u. u = 10 \<or> u = 13) prior of None \<Rightarrow> 0 | Some i \<Rightarrow> i + 1) in
     and_then (slice source line_start offset) (\<lambda>line.
     let line_end = (case first_index (\<lambda>u. u \<noteq> 32 \<and> u \<noteq> 9) line of None \<Rightarrow> offset | Some k \<Rightarrow> line_start + k) in
     and_then (slice source line_start line_end) (\<lambda>blank. expect (indentation_width blank))))"

section \<open>Records and brackets\<close>

record record_layout =
  rec_depth :: nat
  opening_end :: nat
  field_indent :: "nat option"
  field_started :: bool
  rec_decided :: bool

text \<open>The open brackets, and the open records, the innermost first.\<close>

record delimiters =
  brackets :: nat
  open_records :: "record_layout list"

definition record_separator :: "16 word list \<Rightarrow> delimiters \<Rightarrow> token \<Rightarrow> token \<Rightarrow> (layout_fault, bool) result" where
  "record_separator source ds previous t =
     (case open_records ds of
        [] \<Rightarrow> Inr False
      | r # _ \<Rightarrow>
          if rec_depth r \<noteq> brackets ds \<or> \<not> field_started r \<or> is_text source previous '';'' then Inr False
          else if is_text source t ''}'' then Inr True
          else if is_any source t [''.'', ''...''] then
            and_then (source_indent_width source (tok_start t)) (\<lambda>w. Inr (field_indent r = Some w))
          else Inr False)"

text \<open>What the first token after \<open>{\<close> decides of the record.\<close>

definition decide_record :: "16 word list \<Rightarrow> token \<Rightarrow> record_layout \<Rightarrow> (layout_fault, record_layout) result" where
  "decide_record source t r =
     (let started = is_any source t [''.'', ''...''] in
      and_then
        (if started then
           and_then (slice source (opening_end r) (tok_start t)) (\<lambda>prior.
             if 10 \<in> set prior then and_then (source_indent_width source (tok_start t)) (\<lambda>w. Inr (Some w))
             else Inr (field_indent r))
         else Inr (field_indent r)) (\<lambda>indent.
      Inr (r\<lparr>rec_decided := True, field_started := started, field_indent := indent\<rparr>)))"

definition decide_records :: "16 word list \<Rightarrow> delimiters \<Rightarrow> token \<Rightarrow> (layout_fault, delimiters) result" where
  "decide_records source ds t =
     (case open_records ds of
        [] \<Rightarrow> Inr ds
      | r # rs \<Rightarrow>
          if rec_depth r = brackets ds \<and> \<not> rec_decided r
          then and_then (decide_record source t r) (\<lambda>r. Inr (ds\<lparr>open_records := r # rs\<rparr>)) else Inr ds)"

definition bracket_delimiters :: "16 word list \<Rightarrow> delimiters \<Rightarrow> token \<Rightarrow> delimiters" where
  "bracket_delimiters source ds t =
     (if is_any source t [''('', ''['', ''{''] then
        (let depth = brackets ds + 1 in
         \<lparr>brackets = depth,
          open_records =
            (if is_text source t ''{''
             then [\<lparr>rec_depth = depth, opening_end = tok_end t, field_indent = None, field_started = False, rec_decided = False\<rparr>]
             else []) @ open_records ds\<rparr>)
      else if is_any source t ['')'', '']'', ''}''] then
        \<lparr>brackets = brackets ds - 1,
         open_records =
           (case open_records ds of [] \<Rightarrow> [] | r # rs \<Rightarrow> if rec_depth r = brackets ds then rs else r # rs)\<rparr>
      else ds)"

definition update_delimiters :: "16 word list \<Rightarrow> delimiters \<Rightarrow> token \<Rightarrow> (layout_fault, delimiters) result" where
  "update_delimiters source ds t = and_then (decide_records source ds t) (\<lambda>ds. Inr (bracket_delimiters source ds t))"

section \<open>Annotations and suites\<close>

text \<open>For each closing bracket the position after its opening one, and zero elsewhere.\<close>

fun mark_openings :: "16 word list \<Rightarrow> nat \<Rightarrow> token list \<Rightarrow> nat list \<Rightarrow> nat list" where
  "mark_openings source i [] pending = []"
| "mark_openings source i (t # ts) pending =
     (if is_any source t [''('', ''['', ''{''] then 0 # mark_openings source (i + 1) ts (i # pending)
      else if is_any source t ['')'', '']'', ''}''] then
        (case pending of
           [] \<Rightarrow> 0 # mark_openings source (i + 1) ts []
         | opened # pending \<Rightarrow> (opened + 1) # mark_openings source (i + 1) ts pending)
      else 0 # mark_openings source (i + 1) ts pending)"

definition delimiter_openings :: "16 word list \<Rightarrow> token list \<Rightarrow> nat list" where
  "delimiter_openings source tokens = mark_openings source 0 tokens []"

text \<open>The loop over the prefixes of a pattern, backwards.\<close>

function skip_prefixes :: "16 word list \<Rightarrow> token list \<Rightarrow> nat \<Rightarrow> (layout_fault, nat) result" where
  "skip_prefixes source tokens start =
     (if start = 0 then Inr 0
      else
        and_then (item tokens (start - 1)) (\<lambda>prior.
          if is_any source prior [''!'', ''?'', ''&'', ''~'', ''^'', ''-''] then skip_prefixes source tokens (start - 1)
          else if start > 1 \<and> token_kind prior = Some ''TYPE_IDENT'' then
            and_then (item tokens (start - 2)) (\<lambda>qualifier.
              if is_text source qualifier ''#'' then skip_prefixes source tokens (start - 2) else Inr start)
          else Inr start))"
  by pat_completeness auto
termination skip_prefixes
  by (relation "measure (\<lambda>(source, tokens, start). start)") auto

declare skip_prefixes.simps [simp del]

text \<open>Where the pattern that ends at the token before \<open>index\<close> starts, without its prefixes.\<close>

definition pattern_start :: "16 word list \<Rightarrow> token list \<Rightarrow> nat list \<Rightarrow> nat \<Rightarrow> (layout_fault, nat option) result" where
  "pattern_start source tokens openings final =
     and_then (item tokens final) (\<lambda>ending.
       if is_any source ending ['')'', '']'', ''}''] then
         and_then (item openings final) (\<lambda>opened. Inr (if opened = 0 then None else Some (opened - 1)))
       else if token_kind ending \<in> Some ` {''IDENT'', ''TYPE_IDENT'', ''INTEGER'', ''FLOAT'', ''TEXT''} then Inr (Some final)
       else Inr None)"

text \<open>The \<open>#\<close> before it, and what stands before the pattern.\<close>

definition skip_constructor :: "16 word list \<Rightarrow> token list \<Rightarrow> nat \<Rightarrow> (layout_fault, nat) result" where
  "skip_constructor source tokens start =
     (if start > 0 then
        and_then (item tokens (start - 1)) (\<lambda>prior. Inr (if is_text source prior ''#'' then start - 1 else start))
      else Inr start)"

definition pattern_introduced :: "16 word list \<Rightarrow> token list \<Rightarrow> nat \<Rightarrow> (layout_fault, bool) result" where
  "pattern_introduced source tokens start =
     (if start = 0 then Inr False
      else
        and_then (item tokens (start - 1)) (\<lambda>prior.
          if is_any source prior [''let'', ''const'', ''use'', ''('', '',''] then Inr True
          else if start > 1 \<and> is_text source prior ''rec'' then
            and_then (item tokens (start - 2)) (\<lambda>binder. Inr (is_any source binder [''let'', ''const'']))
          else Inr False))"

definition is_annotation_colon :: "16 word list \<Rightarrow> token list \<Rightarrow> nat list \<Rightarrow> nat \<Rightarrow> (layout_fault, bool) result" where
  "is_annotation_colon source tokens openings index =
     (if index = 0 then Inr False
      else
        and_then (item tokens index) (\<lambda>colon.
          if \<not> is_text source colon '':'' then Inr False
          else
            and_then (pattern_start source tokens openings (index - 1)) (\<lambda>found.
              case found of
                None \<Rightarrow> Inr False
              | Some start \<Rightarrow>
                  and_then (skip_constructor source tokens start) (\<lambda>start.
                  and_then (skip_prefixes source tokens start) (\<lambda>start. pattern_introduced source tokens start)))))"

definition opens_suite :: "16 word list \<Rightarrow> token \<Rightarrow> bool" where
  "opens_suite source t \<longleftrightarrow> is_any source t [''='', ''=>'', ''<-'', ''of'', '':''] \<or>
     token_kind t = Some ''OPERATOR'' \<and> is_text source t '':''"

definition closes_layout_expression :: "16 word list \<Rightarrow> token \<Rightarrow> bool" where
  "closes_layout_expression source t \<longleftrightarrow> is_any source t ['';'', '')'', '']'', ''}'', '','', ''else''] \<or>
     token_kind t = Some ''ELSE_IF''"

definition introduces_suite :: "16 word list \<Rightarrow> token list \<Rightarrow> nat list \<Rightarrow> nat \<Rightarrow> token \<Rightarrow> (layout_fault, bool) result" where
  "introduces_suite source tokens openings i t =
     (if opens_suite source t
      then and_then (is_annotation_colon source tokens openings i) (\<lambda>annotation. Inr (\<not> annotation)) else Inr False)"

section \<open>Lines\<close>

record layout_frame =
  frame_indent :: nat
  close_indent :: nat
  frame_brackets :: nat

text \<open>The loop that closes the suites that are indented more than the line.\<close>

fun close_suites ::
  "nat \<Rightarrow> layout_frame list \<Rightarrow> nat option \<Rightarrow> bool \<Rightarrow> 16 word list \<Rightarrow> layout_frame list \<times> nat option \<times> 16 word list" where
  "close_suites indent (f # f' # fs) structural closed markers =
     (if indent < frame_indent f then
        close_suites indent (f' # fs) (Some (close_indent f)) True
          (markers @ (if closed then [layout_newline] else []) @ [layout_dedent])
      else (f # f' # fs, structural, markers))"
| "close_suites indent frames structural closed markers = (frames, structural, markers)"

text \<open>
  The frames and the markers of a line, or \<open>None\<close> where an indented line goes on with the one before it.
\<close>

definition line_markers ::
  "16 word list \<Rightarrow> token \<Rightarrow> token \<Rightarrow> bool \<Rightarrow> bool \<Rightarrow> nat \<Rightarrow> nat \<Rightarrow> nat \<Rightarrow> layout_frame list \<Rightarrow>
   (layout_fault, (layout_frame list \<times> 16 word list) option) result" where
  "line_markers source previous t suite separator depth line_start indent frames =
     (case frames of
        [] \<Rightarrow> Inl LayoutPanic
      | frame # _ \<Rightarrow>
          if indent > frame_indent frame then
            (if \<not> suite then Inr None
             else
               and_then (source_indent_width source (tok_start previous)) (\<lambda>w.
                 Inr (Some (\<lparr>frame_indent = indent, close_indent = w, frame_brackets = depth\<rparr> # frames,
                   [layout_newline, layout_indent]))))
          else if indent < frame_indent frame then
            (case close_suites indent frames None False [layout_newline] of
               ([], structural, markers) \<Rightarrow> Inl LayoutPanic
             | (active # frames, structural, markers) \<Rightarrow>
                 if indent \<noteq> frame_indent active \<and> Some indent \<noteq> structural \<and> \<not> is_any source t ['')'', '']'', ''}''] then
                   Inl (LayoutRejected
                     [\<lparr>diag_message = InconsistentIndent indent (map frame_indent (rev (active # frames))) structural,
                       diag_span = (as_u32 line_start, as_u32 (tok_start t))\<rparr>])
                 else
                   Inr (Some (active # frames,
                     markers @ (if \<not> separator \<and> \<not> closes_layout_expression source t then [layout_newline] else []))))
          else Inr (Some (frames, [layout_newline])))"

text \<open>What the code suggests where a line cannot go on as written.\<close>

definition line_hint :: "16 word list \<Rightarrow> token \<Rightarrow> token \<Rightarrow> (token \<times> layout_message) option" where
  "line_hint source previous t =
     (if is_text source previous ''=>'' \<and> \<not> is_text source t ''do'' then Some (previous, LambdaBodyHint)
      else if is_text source t ''|'' then Some (t, UnionLineHint)
      else None)"

section \<open>Elaboration\<close>

record layout_state =
  lay_insertions :: "(nat \<times> 16 word list) list"
  lay_frames :: "layout_frame list"
  lay_delimiters :: delimiters
  lay_previous :: token
  lay_declaration :: nat
  lay_hints :: "(nat \<times> layout_diagnostic) list"

definition hint_line :: "16 word list \<Rightarrow> token \<Rightarrow> layout_state \<Rightarrow> layout_state" where
  "hint_line source t st =
     (case line_hint source (lay_previous st) t of
        None \<Rightarrow> st
      | Some (at, text) \<Rightarrow>
          st\<lparr>lay_hints := lay_hints st @
            [(lay_declaration st, \<lparr>diag_message = text, diag_span = (as_u32 (tok_start at), as_u32 (tok_end at))\<rparr>)]\<rparr>)"

text \<open>A token that begins a line; \<open>newline\<close> is where the line starts after the previous token.\<close>

definition begin_line ::
  "16 word list \<Rightarrow> token \<Rightarrow> nat \<Rightarrow> bool \<Rightarrow> bool \<Rightarrow> layout_state \<Rightarrow> (layout_fault, layout_state) result" where
  "begin_line source t newline suite separator st =
     (let st = hint_line source t st; line_start = tok_end (lay_previous st) + newline in
      and_then (slice source line_start (tok_start t)) (\<lambda>blank.
      and_then (expect (indentation_width blank)) (\<lambda>indent.
      and_then (line_markers source (lay_previous st) t suite separator (brackets (lay_delimiters st)) line_start indent
          (lay_frames st)) (\<lambda>line.
        case line of
          None \<Rightarrow> Inr st
        | Some (frames, markers) \<Rightarrow>
            Inr (st\<lparr>lay_frames := frames,
              lay_insertions := lay_insertions st @ [(tok_start t, markers @ (if separator then [59] else []))]\<rparr>)))))"

definition layout_active :: "layout_state \<Rightarrow> layout_frame \<Rightarrow> bool \<Rightarrow> bool" where
  "layout_active st frame suite \<longleftrightarrow>
     length (lay_frames st) > 1 \<and> brackets (lay_delimiters st) = frame_brackets frame \<or>
     brackets (lay_delimiters st) = 0 \<or> suite"

definition insert_separator :: "token \<Rightarrow> bool \<Rightarrow> layout_state \<Rightarrow> layout_state" where
  "insert_separator t separator st =
     (if separator then st\<lparr>lay_insertions := lay_insertions st @ [(tok_start t, [59])]\<rparr> else st)"

definition declare_start :: "16 word list \<Rightarrow> token \<Rightarrow> bool \<Rightarrow> layout_state \<Rightarrow> layout_state" where
  "declare_start source t active st =
     (if active \<and> is_any source t [''const'', ''let''] then st\<lparr>lay_declaration := as_u32 (tok_start t)\<rparr> else st)"

definition place_token ::
  "16 word list \<Rightarrow> token \<Rightarrow> nat option \<Rightarrow> bool \<Rightarrow> bool \<Rightarrow> bool \<Rightarrow> layout_state \<Rightarrow> (layout_fault, layout_state) result" where
  "place_token source t newline active suite separator st =
     (case newline of
        Some newline \<Rightarrow>
          if active then begin_line source t newline suite separator st else Inr (insert_separator t separator st)
      | None \<Rightarrow> Inr (insert_separator t separator st))"

text \<open>The body of the loop over the tokens.\<close>

definition layout_step ::
  "16 word list \<Rightarrow> token list \<Rightarrow> nat list \<Rightarrow> nat \<times> token \<Rightarrow> layout_state \<Rightarrow> (layout_fault, layout_state) result" where
  "layout_step source tokens openings indexed st =
     (case indexed of (i, t) \<Rightarrow>
      and_then (slice source (tok_end (lay_previous st)) (tok_start t)) (\<lambda>gap.
      let newline = last_newline_end gap in
      and_then (if newline = None then Inr False else record_separator source (lay_delimiters st) (lay_previous st) t) (\<lambda>separator.
      and_then (introduces_suite source tokens openings (i - 1) (lay_previous st)) (\<lambda>suite.
      and_then (item (lay_frames st) 0) (\<lambda>frame.
      let active = layout_active st frame suite in
      and_then (place_token source t newline active suite separator (declare_start source t active st)) (\<lambda>st.
      and_then (update_delimiters source (lay_delimiters st) t) (\<lambda>ds.
        Inr (st\<lparr>lay_delimiters := ds, lay_previous := t\<rparr>))))))))"

fun copied_from :: "16 word list \<Rightarrow> nat \<Rightarrow> (nat \<times> 16 word list) list \<Rightarrow> (layout_fault, 16 word list \<times> nat list) result" where
  "copied_from source cursor [] =
     and_then (slice source cursor (length source)) (\<lambda>us. Inr (us, map as_u32 [cursor + 1..<length source + 1]))"
| "copied_from source cursor ((offset, markers) # insertions) =
     and_then (ensure (cursor \<le> offset) LayoutPanic) (\<lambda>_.
     and_then (slice source cursor offset) (\<lambda>us.
     and_then (copied_from source offset insertions) (\<lambda>(vs, offsets).
       Inr (us @ markers @ vs, map as_u32 [cursor + 1..<offset + 1] @ replicate (length markers) (as_u32 offset) @ offsets))))"

definition apply_insertions :: "16 word list \<Rightarrow> (nat \<times> 16 word list) list \<Rightarrow> (layout_fault, layout_source) result" where
  "apply_insertions source insertions =
     and_then (copied_from source 0 insertions) (\<lambda>(us, offsets).
     and_then (ensure (length (0 # offsets) = length us + 1) LayoutPanic) (\<lambda>_.
       Inr \<lparr>layout_units = us, original_offsets = 0 # offsets, continuation_hints = []\<rparr>))"

definition identity_layout :: "16 word list \<Rightarrow> layout_source" where
  "identity_layout source =
     \<lparr>layout_units = source, original_offsets = map as_u32 [0..<length source + 1], continuation_hints = []\<rparr>"

definition reserved_character :: "16 word list \<Rightarrow> 16 word \<Rightarrow> (layout_fault, unit) result" where
  "reserved_character source marker =
     (case first_index (\<lambda>u. u = marker) source of
        Some offset \<Rightarrow>
          Inl (LayoutRejected [\<lparr>diag_message = ReservedLayoutCharacter, diag_span = (as_u32 offset, as_u32 (offset + 1))\<rparr>])
      | None \<Rightarrow> Inr ())"

definition lexed_source :: "lexer_tables \<Rightarrow> int list \<Rightarrow> 16 word list \<Rightarrow> (layout_fault, token list) result" where
  "lexed_source lx classes source =
     (case lex_source lx classes source of
        Inl (Rejected ds) \<Rightarrow> Inl (LayoutRejected (map of_frontend ds))
      | Inl _ \<Rightarrow> Inl LayoutPanic
      | Inr tokens \<Rightarrow> Inr tokens)"

text \<open>The state at the first token and the loop over the others; then the layout that closes every suite.\<close>

definition layout_start :: "16 word list \<Rightarrow> token \<Rightarrow> (layout_fault, layout_state) result" where
  "layout_start source t =
     and_then (update_delimiters source \<lparr>brackets = 0, open_records = []\<rparr> t) (\<lambda>ds.
       Inr \<lparr>lay_insertions = [], lay_frames = [\<lparr>frame_indent = 0, close_indent = 0, frame_brackets = 0\<rparr>],
         lay_delimiters = ds, lay_previous = t, lay_declaration = as_u32 (tok_start t), lay_hints = []\<rparr>)"

definition layout_lines :: "16 word list \<Rightarrow> token list \<Rightarrow> (layout_fault, layout_state) result" where
  "layout_lines source tokens =
     and_then (item tokens 0) (\<lambda>t.
     and_then (layout_start source t)
       (fold_each (layout_step source tokens (delimiter_openings source tokens))
         (zip [1..<length tokens] (tl tokens))))"

definition closing_markers :: "layout_frame list \<Rightarrow> 16 word list" where
  "closing_markers frames = layout_newline # concat (replicate (length frames - 1) [layout_dedent, layout_newline])"

definition elaborate :: "lexer_tables \<Rightarrow> int list \<Rightarrow> 16 word list \<Rightarrow> (layout_fault, layout_source) result" where
  "elaborate lx classes source =
     and_then (check_each (reserved_character source) [layout_newline, layout_indent, layout_dedent]) (\<lambda>_.
     and_then (lexed_source lx classes source) (\<lambda>all_tokens.
     let tokens = syntax_tokens all_tokens in
     if tokens = [] then Inr (identity_layout source)
     else
       and_then (layout_lines source tokens) (\<lambda>st.
       and_then
         (apply_insertions source
           (lay_insertions st @ [(tok_end (lay_previous st), closing_markers (lay_frames st))])) (\<lambda>layout.
         Inr (layout\<lparr>continuation_hints := lay_hints st\<rparr>)))))"

section \<open>Spans of the elaborated source\<close>

definition original_offset :: "layout_source \<Rightarrow> nat \<Rightarrow> nat" where
  "original_offset layout i = (if i < length (original_offsets layout) then original_offsets layout ! i else i)"

definition map_span :: "layout_source \<Rightarrow> nat \<times> nat \<Rightarrow> nat \<times> nat" where
  "map_span layout span = (original_offset layout (fst span), original_offset layout (snd span))"

definition map_diagnostic :: "layout_source \<Rightarrow> layout_diagnostic \<Rightarrow> layout_diagnostic" where
  "map_diagnostic layout d =
     (let d = d\<lparr>diag_span := map_span layout (diag_span d)\<rparr> in
      case find (\<lambda>(start, hint). start = fst (diag_span d)) (continuation_hints layout) of
        None \<Rightarrow> d
      | Some (start, hint) \<Rightarrow> hint)"

definition map_diagnostics :: "layout_source \<Rightarrow> layout_diagnostic list \<Rightarrow> layout_diagnostic list" where
  "map_diagnostics layout ds = map (map_diagnostic layout) ds"

section \<open>What is inserted\<close>

text \<open>
  The units of an elaborated source with their offsets, from \<open>a\<close> to \<open>c\<close>: a unit of the source, which
  moves the offset on, or an inserted one, which does not.
\<close>

definition layout_markers :: "16 word set" where
  "layout_markers = {layout_newline, layout_indent, layout_dedent, 59}"

fun woven :: "16 word list \<Rightarrow> nat \<Rightarrow> nat \<Rightarrow> 16 word list \<Rightarrow> nat list \<Rightarrow> bool" where
  "woven source a c [] [] \<longleftrightarrow> a = c"
| "woven source a c (u # us) (b # bs) \<longleftrightarrow>
     (b = a \<and> u \<in> layout_markers \<or> b = Suc a \<and> a < length source \<and> u = source ! a) \<and> woven source b c us bs"
| "woven source a c us bs \<longleftrightarrow> False"

fun copied_units :: "nat \<Rightarrow> 16 word list \<Rightarrow> nat list \<Rightarrow> 16 word list" where
  "copied_units a (u # us) (b # bs) = (if b = a then copied_units b us bs else u # copied_units b us bs)"
| "copied_units a us bs = []"

fun inserted_units :: "nat \<Rightarrow> 16 word list \<Rightarrow> nat list \<Rightarrow> 16 word list" where
  "inserted_units a (u # us) (b # bs) = (if b = a then u # inserted_units b us bs else inserted_units b us bs)"
| "inserted_units a us bs = []"

lemma woven_append:
  "woven source a b us bs \<Longrightarrow> woven source b c vs cs \<Longrightarrow> woven source a c (us @ vs) (bs @ cs)"
  by (induction source a b us bs rule: woven.induct) auto

lemma woven_copy:
  assumes "a \<le> c" "c \<le> length source"
  shows "woven source a c (take (c - a) (drop a source)) [a + 1..<c + 1]"
  using assms
proof (induction "c - a" arbitrary: a)
  case (Suc n)
  then have "take (c - a) (drop a source) = source ! a # take (c - Suc a) (drop (Suc a) source)"
    by (metis Cons_nth_drop_Suc Suc_diff_Suc Suc_le_lessD less_le_trans take_Suc_Cons zero_less_Suc zero_less_diff)
  moreover from Suc have "[a + 1..<c + 1] = (a + 1) # [Suc a + 1..<c + 1]" by (simp add: upt_conv_Cons del: upt_Suc)
  ultimately show ?case using Suc by (simp del: upt_Suc)
qed simp

lemma woven_markers: "set us \<subseteq> layout_markers \<Longrightarrow> woven source a a us (replicate (length us) a)"
  by (induction us) auto

lemma woven_length: "woven source a c us bs \<Longrightarrow> length bs = length us"
  by (induction source a c us bs rule: woven.induct) auto

lemma woven_copied: "woven source a c us bs \<Longrightarrow> a \<le> c \<and> copied_units a us bs = take (c - a) (drop a source)"
proof (induction source a c us bs rule: woven.induct)
  case (2 source a c u us b bs)
  then have IH: "b \<le> c" "copied_units b us bs = take (c - b) (drop b source)" by auto
  from "2.prems" show ?case
  proof (clarsimp, elim disjE conjE, goal_cases)
    case 2
    then have "take (c - a) (drop a source) = source ! a # take (c - Suc a) (drop (Suc a) source)"
      using IH(1) by (metis Cons_nth_drop_Suc Suc_diff_Suc Suc_le_lessD take_Suc_Cons)
    with 2 IH show ?case by auto
  qed (use IH in auto)
qed auto

lemma woven_inserted: "woven source a c us bs \<Longrightarrow> set (inserted_units a us bs) \<subseteq> layout_markers"
  by (induction source a c us bs rule: woven.induct) auto

lemma woven_sorted: "woven source a c us bs \<Longrightarrow> sorted (a # bs) \<and> last (a # bs) = c"
  by (induction source a c us bs rule: woven.induct) (auto simp: less_Suc_eq_le)

lemma as_u32_small: "n < 2 ^ 32 \<Longrightarrow> as_u32 n = n"
  by (simp add: as_u32_def nat_mod_as_int [symmetric])

lemma map_as_u32: "n \<le> 2 ^ 32 \<Longrightarrow> map as_u32 [a..<n] = [a..<n]"
  by (rule map_idI) (simp add: as_u32_small)

lemma slice_Inr: "slice xs a b = Inr ys \<longleftrightarrow> a \<le> b \<and> b \<le> length xs \<and> ys = take (b - a) (drop a xs)"
  by (auto simp: slice_def)

lemma copied_from_woven:
  assumes "copied_from source cursor insertions = Inr (us, offsets)" "length source < 2 ^ 32"
    "\<forall>(offset, markers)\<in>set insertions. set markers \<subseteq> layout_markers"
  shows "woven source cursor (length source) us offsets"
  using assms
proof (induction source cursor insertions arbitrary: us offsets rule: copied_from.induct)
  case (1 source cursor)
  then show ?case using woven_copy [of cursor "length source" source]
    by (auto simp: and_then_eq_Inr slice_Inr map_as_u32 simp del: upt_Suc)
next
  case (2 source cursor offset markers insertions)
  from "2.prems"(1) obtain vs cs where steps: "cursor \<le> offset" "offset \<le> length source"
      "copied_from source offset insertions = Inr (vs, cs)"
      "us = take (offset - cursor) (drop cursor source) @ markers @ vs"
      "offsets = map as_u32 [cursor + 1..<offset + 1] @ replicate (length markers) (as_u32 offset) @ cs"
    by (auto simp: and_then_eq_Inr slice_Inr simp del: upt_Suc)
  have "as_u32 offset = offset" "map as_u32 [cursor + 1..<offset + 1] = [cursor + 1..<offset + 1]"
    using steps(2) "2.prems"(2) by (simp_all add: as_u32_small map_as_u32 del: upt_Suc)
  moreover from "2.prems" have "woven source offset offset markers (replicate (length markers) offset)"
    by (auto intro: woven_markers)
  moreover have "woven source offset (length source) vs cs" using 2 steps by (auto simp: slice_Inr)
  ultimately show ?case using woven_copy [OF steps(1,2)] unfolding steps(4,5) by (metis woven_append)
qed

section \<open>Suites are opened and closed in pairs\<close>

text \<open>How deep the suites are after some units, when none is closed that is not open.\<close>

fun nesting :: "nat \<Rightarrow> 16 word list \<Rightarrow> nat option" where
  "nesting depth [] = Some depth"
| "nesting depth (u # us) =
     (if u = layout_indent then nesting (depth + 1) us
      else if u = layout_dedent then (if depth = 0 then None else nesting (depth - 1) us)
      else nesting depth us)"

lemma nesting_append: "nesting depth (us @ vs) = Option.bind (nesting depth us) (\<lambda>depth. nesting depth vs)"
  by (induction depth us rule: nesting.induct) auto

lemma nesting_plain: "layout_indent \<notin> set us \<Longrightarrow> layout_dedent \<notin> set us \<Longrightarrow> nesting depth us = Some depth"
  by (induction us) auto

lemma marker_simps [simp]:
  "layout_newline \<noteq> layout_indent" "layout_newline \<noteq> layout_dedent" "layout_indent \<noteq> layout_dedent"
  "layout_dedent \<noteq> layout_indent" "59 \<noteq> layout_indent" "59 \<noteq> layout_dedent"
  by (simp_all add: layout_newline_def layout_indent_def layout_dedent_def)

text \<open>The markers so far are markers, and leave as many suites open as there are frames beside the root.\<close>

definition suites_open :: "nat \<Rightarrow> layout_frame list \<Rightarrow> 16 word list \<Rightarrow> bool" where
  "suites_open depth frames us \<longleftrightarrow> frames \<noteq> [] \<and> set us \<subseteq> layout_markers \<and> nesting depth us = Some (length frames - 1)"

lemma suites_open_append:
  "suites_open depth frames us \<Longrightarrow> suites_open (length frames - 1) frames' vs \<Longrightarrow> suites_open depth frames' (us @ vs)"
  by (simp add: suites_open_def nesting_append)

lemma close_suites_open:
  assumes "close_suites indent frames structural closed markers = (frames', structural', markers')"
    "suites_open depth frames markers"
  shows "suites_open depth frames' markers'"
  using assms
proof (induction indent frames structural closed markers rule: close_suites.induct)
  case (1 indent f f' fs structural closed markers)
  have "suites_open (length (f # f' # fs) - 1) (f' # fs) ((if closed then [layout_newline] else []) @ [layout_dedent])"
    by (auto simp: suites_open_def layout_markers_def)
  with "1.prems"(2) have "suites_open depth (f' # fs) (markers @ (if closed then [layout_newline] else []) @ [layout_dedent])"
    by (rule suites_open_append)
  with 1 show ?case by (auto split: if_splits)
qed auto

lemma line_markers_open:
  assumes "line_markers source previous t suite separator depth line_start indent frames = Inr (Some (frames', markers))"
  shows "suites_open (length frames - 1) frames' markers"
proof (cases frames)
  case Nil
  with assms show ?thesis by (simp add: line_markers_def)
next
  case (Cons frame rest)
  show ?thesis
  proof (cases "indent < frame_indent frame")
    case True
    obtain frames1 structural markers1 where
        closing: "close_suites indent frames None False [layout_newline] = (frames1, structural, markers1)"
      by (metis prod_cases3)
    have "suites_open (length frames - 1) frames [layout_newline]"
      by (simp add: Cons suites_open_def layout_markers_def)
    from close_suites_open [OF closing this] have "suites_open (length frames - 1) frames1 markers1" .
    moreover from assms True Cons closing obtain more where
        "frames' = frames1" "markers = markers1 @ more" "more = [] \<or> more = [layout_newline]"
      by (auto simp: line_markers_def split: list.splits if_splits)
    moreover from this calculation have "suites_open (length frames1 - 1) frames1 more"
      by (auto simp: suites_open_def layout_markers_def)
    ultimately show ?thesis by (auto intro: suites_open_append)
  next
    case False
    with assms Cons show ?thesis
      by (auto simp: line_markers_def suites_open_def layout_markers_def and_then_eq_Inr split: if_splits)
  qed
qed

definition insertions_open :: "layout_state \<Rightarrow> bool" where
  "insertions_open st \<longleftrightarrow> suites_open 0 (lay_frames st) (concat (map snd (lay_insertions st)))"

lemma insertions_open_push:
  assumes "insertions_open st" "suites_open (length (lay_frames st) - 1) frames us"
  shows "suites_open 0 frames (concat (map snd (lay_insertions st @ [(offset, us)])))"
  using assms by (auto simp: insertions_open_def intro: suites_open_append)

lemma separator_open: "frames \<noteq> [] \<Longrightarrow> suites_open (length frames - 1) frames (if separator then [59] else [])"
  by (simp add: suites_open_def layout_markers_def)

lemma begin_line_open:
  assumes "begin_line source t newline suite separator st = Inr st'" "insertions_open st"
  shows "insertions_open st' \<and> lay_previous st' = lay_previous st"
proof -
  have hinted: "lay_frames (hint_line source t st) = lay_frames st" "lay_insertions (hint_line source t st) = lay_insertions st"
      "lay_previous (hint_line source t st) = lay_previous st"
    by (simp_all add: hint_line_def split: option.splits prod.splits)
  from assms(1) obtain line blank indent where
      line: "line_markers source (lay_previous st) t suite separator (brackets (lay_delimiters (hint_line source t st)))
        (tok_end (lay_previous st) + newline) indent (lay_frames st) = Inr line"
      "(case line of None \<Rightarrow> Inr (hint_line source t st)
        | Some (frames, markers) \<Rightarrow> Inr (hint_line source t st\<lparr>lay_frames := frames,
            lay_insertions := lay_insertions st @ [(tok_start t, markers @ (if separator then [59] else []))]\<rparr>)) =
       (Inr st' :: (layout_fault, layout_state) result)"
    unfolding begin_line_def Let_def and_then_eq_Inr hinted by blast
  show ?thesis
  proof (cases line)
    case None
    with line assms(2) hinted show ?thesis by (auto simp: insertions_open_def)
  next
    case (Some frames_markers)
    then obtain frames markers where "line = Some (frames, markers)" by (cases frames_markers) simp
    with line(1) have opened: "suites_open (length (lay_frames st) - 1) frames markers" by (metis line_markers_open)
    then have "frames \<noteq> []" by (simp add: suites_open_def)
    from insertions_open_push [OF assms(2) suites_open_append [OF opened separator_open [OF this]]]
    show ?thesis using line(2) hinted \<open>line = Some (frames, markers)\<close> by (auto simp: insertions_open_def)
  qed
qed

lemma place_token_open:
  assumes "place_token source t newline active suite separator st = Inr st'" "insertions_open st"
  shows "insertions_open st'"
proof -
  have "insertions_open (insert_separator t separator st)"
  proof (cases separator)
    case True
    from assms(2) have "suites_open (length (lay_frames st) - 1) (lay_frames st) [59]"
      by (auto simp: insertions_open_def suites_open_def layout_markers_def)
    from insertions_open_push [OF assms(2) this] True show ?thesis by (simp add: insert_separator_def insertions_open_def)
  qed (use assms(2) in \<open>simp add: insert_separator_def\<close>)
  with assms show ?thesis
    by (auto simp: place_token_def dest: begin_line_open split: option.splits if_splits)
qed

lemma layout_step_open:
  assumes "layout_step source tokens openings indexed st = Inr st'" "insertions_open st"
  shows "insertions_open st'"
proof -
  obtain i t where indexed: "indexed = (i, t)" by (cases indexed)
  from assms(1) obtain newline active suite separator st1 ds where
      placed: "place_token source t newline active suite separator (declare_start source t active st) = Inr st1"
      "st' = st1\<lparr>lay_delimiters := ds, lay_previous := t\<rparr>"
    unfolding layout_step_def indexed Let_def prod.case and_then_eq_Inr by auto
  have "insertions_open (declare_start source t active st)" using assms(2) by (simp add: declare_start_def insertions_open_def)
  from place_token_open [OF placed(1) this] placed(2) show ?thesis by (simp add: insertions_open_def)
qed

lemma layout_lines_open:
  assumes "layout_lines source tokens = Inr st"
  shows "insertions_open st"
proof -
  from assms obtain t start where "layout_start source t = Inr start"
      and lines: "fold_each (layout_step source tokens (delimiter_openings source tokens)) (zip [1..<length tokens] (tl tokens)) start = Inr st"
    by (auto simp: layout_lines_def and_then_eq_Inr)
  then have "insertions_open start"
    by (auto simp: layout_start_def and_then_eq_Inr insertions_open_def suites_open_def)
  with lines show ?thesis by (rule fold_each_invariant) (rule layout_step_open)
qed

lemma closing_markers_open: "frames \<noteq> [] \<Longrightarrow> nesting (length frames - 1) (closing_markers frames) = Some 0 \<and>
    set (closing_markers frames) \<subseteq> layout_markers"
proof -
  have "nesting n (concat (replicate n [layout_dedent, layout_newline])) = Some 0" for n
    by (induction n) auto
  then show ?thesis by (auto simp: closing_markers_def layout_markers_def)
qed

lemma copied_from_nesting:
  assumes "copied_from source cursor insertions = Inr (us, offsets)" "layout_indent \<notin> set source" "layout_dedent \<notin> set source"
  shows "nesting depth us = nesting depth (concat (map snd insertions))"
  using assms(1)
proof (induction insertions arbitrary: cursor us offsets depth)
  case Nil
  then have "set us \<subseteq> set source" by (auto simp: and_then_eq_Inr slice_Inr dest: in_set_takeD in_set_dropD)
  with assms(2,3) show ?case by (auto intro: nesting_plain)
next
  case (Cons insertion insertions)
  obtain offset markers where insertion: "insertion = (offset, markers)" by (cases insertion)
  from Cons.prems obtain vs cs where steps: "copied_from source offset insertions = Inr (vs, cs)"
      "us = take (offset - cursor) (drop cursor source) @ markers @ vs"
    by (auto simp: insertion and_then_eq_Inr slice_Inr simp del: upt_Suc)
  have "nesting depth (take (offset - cursor) (drop cursor source)) = Some depth"
    using assms(2,3) by (intro nesting_plain) (auto dest: in_set_takeD in_set_dropD)
  with Cons.IH [OF steps(1)] show ?case by (simp add: steps(2) insertion nesting_append)
qed

text \<open>The layout of a source that is not empty of tokens, from its insertions.\<close>

lemma elaborate_Inr:
  assumes "elaborate lx classes source = Inr layout"
  obtains (identity) "layout = identity_layout source"
      "layout_newline \<notin> set source" "layout_indent \<notin> set source" "layout_dedent \<notin> set source"
  | (lines) st :: layout_state and us offsets insertions where
      "copied_from source 0 insertions = Inr (us, offsets)" "suites_open 0 (lay_frames st) (concat (map snd (lay_insertions st)))"
      "insertions = lay_insertions st @ [(tok_end (lay_previous st), closing_markers (lay_frames st))]"
      "layout_units layout = us" "original_offsets layout = 0 # offsets"
      "layout_newline \<notin> set source" "layout_indent \<notin> set source" "layout_dedent \<notin> set source"
proof -
  have unreserved: "reserved_character source u = Inr () \<longleftrightarrow> u \<notin> set source" for u
    by (auto simp: reserved_character_def first_index_None split: option.splits dest!: first_index_Some)
  from assms have "check_each (reserved_character source) [layout_newline, layout_indent, layout_dedent] = Inr ()"
    unfolding elaborate_def and_then_eq_Inr by auto
  then have "\<forall>u\<in>set [layout_newline, layout_indent, layout_dedent]. u \<notin> set source"
    by (simp only: check_each_Inr unreserved)
  then have clean: "layout_newline \<notin> set source" "layout_indent \<notin> set source" "layout_dedent \<notin> set source" by simp_all
  from assms consider "layout = identity_layout source" | tokens st l where "layout_lines source tokens = Inr st"
      "apply_insertions source (lay_insertions st @ [(tok_end (lay_previous st), closing_markers (lay_frames st))]) = Inr l"
      "layout = l\<lparr>continuation_hints := lay_hints st\<rparr>"
    by (auto simp: elaborate_def and_then_eq_Inr Let_def split: if_splits)
  then show thesis
  proof cases
    case 1
    from this clean show thesis by (rule identity)
  next
    case 2
    from 2(2) obtain us offsets where
        "copied_from source 0 (lay_insertions st @ [(tok_end (lay_previous st), closing_markers (lay_frames st))]) = Inr (us, offsets)"
        "l = \<lparr>layout_units = us, original_offsets = 0 # offsets, continuation_hints = []\<rparr>"
      by (auto simp: apply_insertions_def and_then_eq_Inr)
    with 2 clean layout_lines_open [OF 2(1)] show thesis by (intro lines [of _ us offsets st]) (auto simp: insertions_open_def)
  qed
qed

lemma elaborated_woven:
  assumes "elaborate lx classes source = Inr layout" "length source < 2 ^ 32"
  shows "\<exists>bs. original_offsets layout = 0 # bs \<and> woven source 0 (length source) (layout_units layout) bs"
  using assms(1)
proof (cases rule: elaborate_Inr)
  case identity
  moreover have "[0..<length source + 1] = 0 # [0 + 1..<length source + 1]" by (simp add: upt_conv_Cons del: upt_Suc)
  moreover have "map as_u32 [0..<length source + 1] = [0..<length source + 1]" using assms(2) by (intro map_as_u32) simp
  ultimately show ?thesis using woven_copy [of 0 "length source" source]
    by (simp add: identity_layout_def del: upt_Suc)
next
  case (lines st us offsets insertions)
  from lines(2) have frames: "lay_frames st \<noteq> []" and markers: "\<Union> (set ` snd ` set (lay_insertions st)) \<subseteq> layout_markers"
    by (simp_all add: suites_open_def image_image)
  have "set markers \<subseteq> layout_markers" if "(offset, markers) \<in> set (lay_insertions st)" for offset markers
  proof -
    from that have "set markers \<in> set ` snd ` set (lay_insertions st)" by force
    with markers show ?thesis by blast
  qed
  with closing_markers_open [OF frames] have "\<forall>(offset, markers)\<in>set insertions. set markers \<subseteq> layout_markers"
    by (auto simp: lines(3))
  from copied_from_woven [OF lines(1) assms(2) this] lines(4,5) show ?thesis by blast
qed

lemma elaborated_nesting:
  assumes "elaborate lx classes source = Inr layout"
  shows "nesting 0 (layout_units layout) = Some 0"
  using assms
proof (cases rule: elaborate_Inr)
  case identity
  then show ?thesis by (simp add: identity_layout_def nesting_plain)
next
  case (lines st us offsets insertions)
  have "nesting 0 us = nesting 0 (concat (map snd insertions))" by (rule copied_from_nesting [OF lines(1,7,8)])
  with lines(2,3,4) closing_markers_open [of "lay_frames st"] show ?thesis by (auto simp: suites_open_def nesting_append)
qed

section \<open>Gaps between tokens\<close>

fun tiles :: "nat \<Rightarrow> token list \<Rightarrow> nat \<Rightarrow> bool" where
  "tiles a [] c \<longleftrightarrow> a = c"
| "tiles a (t # ts) c \<longleftrightarrow> tok_start t = a \<and> a < tok_end t \<and> tiles (tok_end t) ts c"

lemma tiles_append: "tiles a ts b \<Longrightarrow> tiles b us c \<Longrightarrow> tiles a (ts @ us) c"
  by (induction a ts b rule: tiles.induct) auto

lemma tiles_le: "tiles a ts c \<Longrightarrow> a \<le> c"
  by (induction a ts c rule: tiles.induct) auto

lemma tiles_cover: "tiles a ts c \<Longrightarrow> a \<le> i \<Longrightarrow> i < c \<Longrightarrow> \<exists>t\<in>set ts. tok_start t \<le> i \<and> i < tok_end t \<and> tok_end t \<le> c"
proof (induction a ts c rule: tiles.induct)
  case (2 a t ts c)
  then show ?case by (cases "i < tok_end t") (auto dest: tiles_le)
qed auto

lemma lex_from_tiles:
  assumes "lex_from lx classes source position i = Inr (ts, [])" "position \<le> length source"
  shows "tiles position ts (length source)"
  using assms
proof (induction "length source - position" arbitrary: position i ts rule: less_induct)
  case less
  from less.prems(1) show ?case
  proof (cases rule: lex_from_cases)
    case stop
    with less.prems(2) show ?thesis by simp
  next
    case (token t ts')
    from less.hyps [OF token(6,7,5)] token show ?thesis by simp
  qed simp
qed

text \<open>
  What the grammar says of the tokens: trivia are white space, or comments that reach to the end of their
  line, and no other token begins with a line end.
\<close>

definition line_end :: "16 word \<Rightarrow> bool" where
  "line_end u \<longleftrightarrow> u = 10 \<or> u = 13"

definition blank_unit :: "16 word \<Rightarrow> bool" where
  "blank_unit u \<longleftrightarrow> u = 32 \<or> u = 9 \<or> line_end u"

definition lawful_token :: "16 word list \<Rightarrow> token \<Rightarrow> bool" where
  "lawful_token source t \<longleftrightarrow>
     (if tok_terminal t < 0 then
        list_all blank_unit (token_text source t) \<or>
        list_all (\<lambda>u. \<not> line_end u) (token_text source t) \<and> (tok_end t < length source \<longrightarrow> line_end (source ! tok_end t))
      else \<not> line_end (source ! tok_start t))"

text \<open>Lines end in line feeds that may follow carriage returns, or in carriage returns alone.\<close>

definition uniform_line_ends :: "16 word list \<Rightarrow> bool" where
  "uniform_line_ends source \<longleftrightarrow>
     10 \<notin> set source \<or> (\<forall>i<length source. source ! i = 13 \<longrightarrow> i + 1 < length source \<and> source ! (i + 1) = 10)"

definition spaced :: "16 word list \<Rightarrow> token \<Rightarrow> token \<Rightarrow> bool" where
  "spaced source s t \<longleftrightarrow> tok_end s \<le> tok_start t \<and> tok_start t < tok_end t \<and> tok_end t \<le> length source \<and>
     (\<forall>n. last_newline_end (take (tok_start t - tok_end s) (drop (tok_end s) source)) = Some n \<longrightarrow>
        tok_end s + n \<le> tok_start t \<and>
        indentation_width (take (tok_start t - (tok_end s + n)) (drop (tok_end s + n) source)) \<noteq> None)"

lemma last_index_Some:
  assumes "last_index P xs = Some i"
  shows "i < length xs \<and> P (xs ! i) \<and> (\<forall>j. i < j \<and> j < length xs \<longrightarrow> \<not> P (xs ! j))"
proof -
  from assms obtain k where k: "first_index P (rev xs) = Some k" "i = length xs - 1 - k"
    by (auto simp: last_index_def)
  from first_index_Some [OF k(1)] have "k < length xs" "P (rev xs ! k)" "\<forall>j<k. \<not> P (rev xs ! j)" by auto
  moreover have "\<not> P (xs ! j)" if "i < j" "j < length xs" for j
  proof -
    from that k(2) \<open>k < length xs\<close> have "length xs - 1 - j < k" "rev xs ! (length xs - 1 - j) = xs ! j"
      by (simp_all add: rev_nth)
    with \<open>\<forall>j<k. \<not> P (rev xs ! j)\<close> show ?thesis by metis
  qed
  ultimately show ?thesis using k(2) by (auto simp: rev_nth)
qed

lemma last_index_None: "last_index P xs = None \<longleftrightarrow> (\<forall>x\<in>set xs. \<not> P x)"
  by (simp add: last_index_def first_index_None)

lemma indentation_defined: "\<forall>u\<in>set us. blank_unit u \<Longrightarrow> \<exists>w. indentation_from width us = Some w"
  by (induction us arbitrary: width) (auto simp: blank_unit_def line_end_def)

lemma last_newline_end_Some:
  assumes "last_newline_end text = Some n"
  shows "0 < n \<and> n \<le> length text \<and> (\<forall>j. n \<le> j \<and> j < length text \<longrightarrow> text ! j \<noteq> 10 \<and> (10 \<in> set text \<or> text ! j \<noteq> 13))"
proof (cases "last_index (\<lambda>u. u = 10) text")
  case None
  with assms obtain i where "last_index (\<lambda>u. u = 13) text = Some i" "n = i + 1" by (auto simp: last_newline_end_def)
  with last_index_Some [OF this(1)] None show ?thesis by (auto simp: last_index_None Suc_le_eq)
next
  case (Some i)
  with assms have "n = i + 1" by (simp add: last_newline_end_def)
  moreover from last_index_Some [OF Some] have "10 \<in> set text" by (metis nth_mem)
  ultimately show ?thesis using last_index_Some [OF Some] by (auto simp: Suc_le_eq)
qed

lemma gap_blank:
  assumes "tiles a us p" "p < length source" "\<not> line_end (source ! p)"
    "\<forall>u\<in>set us. tok_terminal u < 0 \<and> lawful_token source u" "uniform_line_ends source"
    "last_newline_end (take (p - a) (drop a source)) = Some n" "a + n \<le> i" "i < p"
  shows "blank_unit (source ! i)"
proof -
  let ?gap = "take (p - a) (drop a source)"
  from tiles_le [OF assms(1)] assms(2) have gap: "?gap ! (j - a) = source ! j" "j - a < length ?gap" if "a \<le> j" "j < p" for j
    using that by auto
  note after = last_newline_end_Some [OF assms(6)]
  have no_end: "source ! j \<noteq> 10 \<and> (10 \<in> set source \<or> source ! j \<noteq> 13)" if "a + n \<le> j" "j < p" for j
  proof -
    from that have "a \<le> j" "n \<le> j - a" by simp_all
    with after gap [OF _ that(2)] have "source ! j \<noteq> 10" "10 \<in> set ?gap \<or> source ! j \<noteq> 13" by metis+
    then show ?thesis by (metis in_set_dropD in_set_takeD)
  qed
  from tiles_cover [OF assms(1), of i] assms(7,8) obtain u where
      u: "u \<in> set us" "tok_start u \<le> i" "i < tok_end u" "tok_end u \<le> p" by auto
  then have "token_text source u ! (i - tok_start u) = source ! i" "i - tok_start u < length (token_text source u)"
    using assms(2) by (simp_all add: token_text_def)
  then have inside: "source ! i \<in> set (token_text source u)" by (metis nth_mem)
  show ?thesis
  proof (rule ccontr)
    assume stays: "\<not> blank_unit (source ! i)"
    have "tok_terminal u < 0" "lawful_token source u" "tok_end u < length source" using assms(2,4) u(1,4) by auto
    with stays inside have ending: "line_end (source ! tok_end u)" unfolding lawful_token_def list_all_iff by metis
    with assms(3) u(4) have "tok_end u < p" by (metis le_neq_implies_less)
    with no_end [of "tok_end u"] ending u(3) assms(7) have "source ! tok_end u = 13" "10 \<in> set source"
      by (auto simp: line_end_def)
    with assms(2,5) \<open>tok_end u < p\<close> have "source ! (tok_end u + 1) = 10" by (simp add: uniform_line_ends_def)
    with assms(3) no_end [of "tok_end u + 1"] u(3) assms(7) \<open>tok_end u < p\<close> show False
      by (cases "tok_end u + 1 = p") (auto simp: line_end_def)
  qed
qed

lemma gap_spaced:
  assumes "tiles (tok_end s) us (tok_start t)" "tok_start t < tok_end t" "tok_end t \<le> length source"
    "0 \<le> tok_terminal t" "lawful_token source t" "\<forall>u\<in>set us. tok_terminal u < 0 \<and> lawful_token source u" "uniform_line_ends source"
  shows "spaced source s t"
proof -
  have "\<exists>w. indentation_width (take (tok_start t - (tok_end s + n)) (drop (tok_end s + n) source)) = Some w"
      if n: "last_newline_end (take (tok_start t - tok_end s) (drop (tok_end s) source)) = Some n" for n
  proof -
    have "blank_unit u" if "u \<in> set (take (tok_start t - (tok_end s + n)) (drop (tok_end s + n) source))" for u
    proof -
      from that obtain j where j: "j < tok_start t - (tok_end s + n)" "u = source ! (tok_end s + n + j)"
        using assms(2,3) by (auto simp: in_set_conv_nth)
      show ?thesis unfolding j(2)
        by (rule gap_blank [OF assms(1) _ _ assms(6,7) n]) (use assms(2-5) j(1) in \<open>auto simp: lawful_token_def\<close>)
    qed
    then show ?thesis unfolding indentation_width_def by (intro indentation_defined ballI)
  qed
  moreover have "tok_end s + n \<le> tok_start t"
      if "last_newline_end (take (tok_start t - tok_end s) (drop (tok_end s) source)) = Some n" for n
    using last_newline_end_Some [OF that] tiles_le [OF assms(1)] by (simp, arith)
  ultimately show ?thesis using tiles_le [OF assms(1)] assms(2,3) by (auto simp: spaced_def)
qed

lemma syntax_spaced:
  assumes "tiles (tok_end s) us p" "tiles p ts (length source)" "\<forall>u\<in>set us. tok_terminal u < 0"
    "\<forall>t\<in>set (us @ ts). lawful_token source t" "uniform_line_ends source"
  shows "successively (spaced source) (s # syntax_tokens ts)"
  using assms
proof (induction ts arbitrary: s us p)
  case (Cons t ts)
  from Cons.prems(2) have t: "tok_start t = p" "p < tok_end t" "tiles (tok_end t) ts (length source)" by auto
  show ?case
  proof (cases "tok_terminal t < 0")
    case True
    from Cons.prems(1) t have "tiles (tok_end s) (us @ [t]) (tok_end t)" by (intro tiles_append [of _ _ p]) auto
    from Cons.IH [OF this t(3)] Cons.prems True show ?thesis by (auto simp: syntax_tokens_def)
  next
    case False
    have "successively (spaced source) (t # syntax_tokens ts)"
      using Cons.IH [of t "[]" "tok_end t"] Cons.prems t by auto
    moreover have "spaced source s t"
      using gap_spaced [of s us t source] Cons.prems t tiles_le [OF t(3)] False by auto
    ultimately show ?thesis using False by (simp add: syntax_tokens_def)
  qed
qed (simp add: syntax_tokens_def)

text \<open>What layout asks of the lexer: its tokens cut the source into pieces that are not empty.\<close>

locale tokenizer =
  fixes tokenize :: "16 word list \<Rightarrow> (frontend_fault, token list) result"
  assumes tokens_tile: "tokenize source = Inr tokens \<Longrightarrow> tiles 0 tokens (length source)"
begin

lemma tokens_spaced:
  assumes "tokenize source = Inr tokens" "\<forall>t\<in>set tokens. lawful_token source t" "uniform_line_ends source"
    "syntax_tokens tokens = t # ts"
  shows "successively (spaced source) (t # ts) \<and> tok_start t < tok_end t \<and> tok_end t \<le> length source"
proof -
  let ?origin = "t\<lparr>tok_end := 0\<rparr>"
  from tokens_tile [OF assms(1)] have "tiles (tok_end ?origin) [] 0" "tiles 0 tokens (length source)" by simp_all
  from syntax_spaced [OF this] assms(2-4) show ?thesis by (simp add: spaced_def)
qed

end

interpretation source_lexer: tokenizer "lex_source lx classes" for lx classes
proof
  fix source tokens
  assume "lex_source lx classes source = Inr tokens"
  then have "lex_from lx classes source 0 0 = Inr (tokens, [])"
    by (auto simp: lex_source_def and_then_eq_Inr sort_diagnostics_Nil split: if_splits)
  from lex_from_tiles [OF this] show "tiles 0 tokens (length source)" by simp
qed

section \<open>Layout answers\<close>

text \<open>A result that is a value with a property, or a refusal with a diagnostic, and never a panic.\<close>

definition answered :: "('a \<Rightarrow> bool) \<Rightarrow> (layout_fault, 'a) result \<Rightarrow> bool" where
  "answered P r = (case r of Inr x \<Rightarrow> P x | Inl fault \<Rightarrow> \<exists>d ds. fault = LayoutRejected (d # ds))"

lemma answered_Inr [simp]: "answered P (Inr x) \<longleftrightarrow> P x"
  by (simp add: answered_def)

lemma answered_Inl [simp]: "answered P (Inl fault) \<longleftrightarrow> (\<exists>d ds. fault = LayoutRejected (d # ds))"
  by (simp add: answered_def)

lemma answered_bind: "answered Q r \<Longrightarrow> (\<And>x. r = Inr x \<Longrightarrow> Q x \<Longrightarrow> answered P (k x)) \<Longrightarrow> answered P (and_then r k)"
  by (cases r) auto

lemma answered_any: "answered P r \<Longrightarrow> (\<And>x. P x \<Longrightarrow> Q x) \<Longrightarrow> answered Q r"
  by (cases r) auto

lemma answered_item: "i < length xs \<Longrightarrow> answered (\<lambda>x. x = xs ! i) (item xs i)"
  by (simp add: item_def)

lemma answered_slice: "a \<le> b \<Longrightarrow> b \<le> length xs \<Longrightarrow> answered (\<lambda>ys. ys = take (b - a) (drop a xs)) (slice xs a b)"
  by (simp add: slice_def)

lemma source_indent_answers:
  assumes "offset \<le> length source"
  shows "answered (\<lambda>_. True) (source_indent_width source offset)"
proof -
  let ?before = "take offset source"
  define line_start where "line_start = (case last_index (\<lambda>u. u = 10 \<or> u = 13) ?before of None \<Rightarrow> 0 | Some i \<Rightarrow> i + 1)"
  have start: "line_start \<le> offset"
    using assms by (auto simp: line_start_def Suc_le_eq dest!: last_index_Some split: option.splits)
  let ?line = "take (offset - line_start) (drop line_start source)"
  define line_end' where "line_end' = (case first_index (\<lambda>u. u \<noteq> 32 \<and> u \<noteq> 9) ?line of None \<Rightarrow> offset | Some k \<Rightarrow> line_start + k)"
  have ending: "line_start \<le> line_end'" "line_end' \<le> offset"
    using start assms by (auto simp: line_end'_def dest!: first_index_Some split: option.splits)
  have "blank_unit u" if "u \<in> set (take (line_end' - line_start) (drop line_start source))" for u
  proof -
    from that obtain j where j: "j < line_end' - line_start" "u = ?line ! j"
      using ending assms by (auto simp: in_set_conv_nth)
    with ending assms have "j < length ?line" by auto
    show ?thesis
    proof (cases "first_index (\<lambda>u. u \<noteq> 32 \<and> u \<noteq> 9) ?line")
      case None
      with nth_mem [OF \<open>j < length ?line\<close>] show ?thesis unfolding j(2) first_index_None by (auto simp: blank_unit_def)
    next
      case (Some k)
      with j(1) have "j < k" by (simp add: line_end'_def)
      with first_index_Some [OF Some] show ?thesis by (auto simp: j(2) blank_unit_def)
    qed
  qed
  then obtain w where "indentation_width (take (line_end' - line_start) (drop line_start source)) = Some w"
    unfolding indentation_width_def using indentation_defined by blast
  with start ending assms show ?thesis
    by (simp add: source_indent_width_def slice_def line_start_def [symmetric] line_end'_def [symmetric] expect_def)
qed

lemma record_separator_answers:
  assumes "tok_start t \<le> length source"
  shows "answered (\<lambda>_. True) (record_separator source ds previous t)"
  using source_indent_answers [OF assms]
  by (auto simp: record_separator_def intro: answered_bind split: list.splits)

lemma decide_record_answers:
  assumes "opening_end r \<le> tok_start t" "tok_start t \<le> length source"
  shows "answered (\<lambda>r'. opening_end r' = opening_end r) (decide_record source t r)"
proof -
  have "answered (\<lambda>_. True)
      (if is_any source t [''.'', ''...''] then
         and_then (slice source (opening_end r) (tok_start t)) (\<lambda>before.
           if 10 \<in> set before then and_then (source_indent_width source (tok_start t)) (\<lambda>w. Inr (Some w))
           else Inr (field_indent r))
       else Inr (field_indent r))"
    using answered_slice [OF assms] source_indent_answers [OF assms(2)] by (auto intro!: answered_bind)
  then show ?thesis unfolding decide_record_def Let_def by (rule answered_bind) simp
qed

definition opened_before :: "nat \<Rightarrow> delimiters \<Rightarrow> bool" where
  "opened_before p ds \<longleftrightarrow> (\<forall>r\<in>set (open_records ds). opening_end r \<le> p)"

lemma update_delimiters_answers:
  assumes "opened_before p ds" "p \<le> tok_start t" "tok_start t < tok_end t" "tok_end t \<le> length source"
  shows "answered (opened_before (tok_end t)) (update_delimiters source ds t)"
proof -
  have "answered (opened_before (tok_start t)) (decide_records source ds t)"
  proof (cases "open_records ds")
    case (Cons r rs)
    with assms have before: "\<forall>r\<in>set (r # rs). opening_end r \<le> tok_start t" and "tok_start t \<le> length source"
      by (auto simp: opened_before_def intro: order_trans)
    then have "answered (\<lambda>r'. opening_end r' = opening_end r) (decide_record source t r)" by (simp add: decide_record_answers)
    with Cons before show ?thesis by (auto simp: decide_records_def opened_before_def intro!: answered_bind)
  qed (use assms in \<open>auto simp: decide_records_def opened_before_def\<close>)
  moreover have "opened_before (tok_end t) (bracket_delimiters source ds t)" if "opened_before (tok_start t) ds" for ds
  proof -
    from that assms(3) have "\<forall>r\<in>set (open_records ds). opening_end r \<le> tok_end t" by (auto simp: opened_before_def)
    then show ?thesis by (cases "open_records ds") (auto simp: bracket_delimiters_def opened_before_def Let_def)
  qed
  ultimately show ?thesis unfolding update_delimiters_def by (auto intro: answered_bind)
qed

text \<open>The openings point before their brackets, so looking a pattern up never leaves the tokens.\<close>

lemma mark_openings_before:
  assumes "\<forall>k\<in>set pending. k < i"
  shows "length (mark_openings source i ts pending) = length ts \<and>
    (\<forall>k<length ts. mark_openings source i ts pending ! k \<le> i + k)"
  using assms
proof (induction source i ts pending rule: mark_openings.induct)
  case (2 source i t ts pending)
  from "2.prems" have later: "\<forall>k\<in>set pending. k < i + 1" by auto
  have nth: "(x # xs) ! k \<le> i + k" if "x \<le> i" "\<forall>k<length ts. xs ! k \<le> i + 1 + k" "k < Suc (length ts)" for x xs k
    using that by (cases k) auto
  show ?case
  proof (cases "is_any source t [''('', ''['', ''{'']")
    case True
    with 2 later show ?thesis by (auto intro!: nth)
  next
    case False
    note opened = this
    show ?thesis
    proof (cases "is_any source t ['')'', '']'', ''}'']")
      case True
      with 2 later opened show ?thesis by (cases pending) (auto intro!: nth)
    next
      case False
      with 2 later opened show ?thesis by (auto intro!: nth)
    qed
  qed
qed simp

lemma delimiter_openings_before:
  "length (delimiter_openings source tokens) = length tokens \<and>
   (\<forall>k<length tokens. delimiter_openings source tokens ! k \<le> k)"
  using mark_openings_before [of "[]" 0 source tokens] by (simp add: delimiter_openings_def)

lemma skip_prefixes_answers:
  "start \<le> length tokens \<Longrightarrow> answered (\<lambda>start'. start' \<le> start) (skip_prefixes source tokens start)"
proof (induction start rule: less_induct)
  case (less start)
  show ?case
  proof (cases "start = 0")
    case False
    with less.prems have "start - 1 < length tokens" "start - 2 < length tokens" by simp_all
    note here = answered_item [OF this(1)] answered_item [OF this(2)]
    have "answered (\<lambda>start'. start' \<le> start) (skip_prefixes source tokens k)" if "k < start" for k
      using less.prems that by (intro answered_any [OF less.IH [OF that]]) auto
    from this [of "start - 1"] this [of "start - 2"] False have
        "answered (\<lambda>start'. start' \<le> start) (skip_prefixes source tokens (start - 1))"
        "answered (\<lambda>start'. start' \<le> start) (skip_prefixes source tokens (start - 2))" by simp_all
    with False here show ?thesis unfolding skip_prefixes.simps [of source tokens start]
      by (auto intro!: answered_bind)
  qed (simp add: skip_prefixes.simps [of source tokens 0])
qed

lemma pattern_start_answers:
  assumes "i < length tokens" "length openings = length tokens" "\<forall>k<length tokens. openings ! k \<le> k"
  shows "answered (\<lambda>found. \<forall>start. found = Some start \<longrightarrow> start \<le> i) (pattern_start source tokens openings i)"
proof -
  from assms have "answered (\<lambda>opened. opened \<le> i) (item openings i)" by (auto intro: answered_any [OF answered_item])
  with answered_item [OF assms(1)] show ?thesis
    unfolding pattern_start_def by (fastforce intro!: answered_bind)
qed

lemma is_annotation_colon_answers:
  assumes "i < length tokens" "length openings = length tokens" "\<forall>k<length tokens. openings ! k \<le> k"
  shows "answered (\<lambda>_. True) (is_annotation_colon source tokens openings i)"
proof -
  have constructor: "answered (\<lambda>start'. start' \<le> start) (skip_constructor source tokens start)" if "start \<le> length tokens" for start
  proof (cases start)
    case (Suc k)
    with that have "k < length tokens" by simp
    from answered_item [OF this] Suc show ?thesis by (auto simp: skip_constructor_def intro!: answered_bind)
  qed (simp add: skip_constructor_def)
  have introduced: "answered (\<lambda>_. True) (pattern_introduced source tokens start)" if "start \<le> length tokens" for start
  proof (cases start)
    case (Suc k)
    with that have "k < length tokens" "k - 1 < length tokens" by auto
    from answered_item [OF this(1)] answered_item [OF this(2)] Suc show ?thesis
      by (auto simp: pattern_introduced_def intro!: answered_bind)
  qed (simp add: pattern_introduced_def)
  have "answered (\<lambda>found. \<forall>start. found = Some start \<longrightarrow> start \<le> i - 1) (pattern_start source tokens openings (i - 1))"
    by (rule pattern_start_answers) (use assms in auto)
  moreover have "answered (\<lambda>_. True)
      (and_then (skip_constructor source tokens start) (\<lambda>start.
       and_then (skip_prefixes source tokens start) (\<lambda>start. pattern_introduced source tokens start)))"
      if "start \<le> i - 1" for start
    by (intro answered_bind [OF constructor] answered_bind [OF skip_prefixes_answers] introduced) (use that assms(1) in auto)
  ultimately show ?thesis using answered_item [OF assms(1)] unfolding is_annotation_colon_def
    by (auto intro!: answered_bind [of _ "item tokens i"] answered_bind [of _ "pattern_start source tokens openings (i - Suc 0)"]
      split: option.splits)
qed

lemma introduces_suite_answers:
  assumes "i < length tokens"
  shows "answered (\<lambda>_. True) (introduces_suite source tokens (delimiter_openings source tokens) i t)"
  using is_annotation_colon_answers [OF assms, of "delimiter_openings source tokens" source] delimiter_openings_before [of source tokens]
  by (auto simp: introduces_suite_def intro: answered_bind)

lemma close_suites_nonempty: "frames \<noteq> [] \<Longrightarrow> fst (close_suites indent frames structural closed markers) \<noteq> []"
  by (induction indent frames structural closed markers rule: close_suites.induct) auto

lemma line_markers_answers:
  assumes "frames \<noteq> []" "tok_start previous \<le> length source"
  shows "answered (\<lambda>line. \<forall>frames markers. line = Some (frames, markers) \<longrightarrow> frames \<noteq> [])
    (line_markers source previous t suite separator depth line_start indent frames)"
  using assms(1) source_indent_answers [OF assms(2)] close_suites_nonempty [OF assms(1), of indent None False "[layout_newline]"]
  by (auto simp: line_markers_def intro!: answered_bind split: list.splits prod.splits)

text \<open>The states of the loop: the last token, and offsets and records that do not lie beyond it.\<close>

definition steady :: "16 word list \<Rightarrow> layout_state \<Rightarrow> bool" where
  "steady source st \<longleftrightarrow> lay_frames st \<noteq> [] \<and> tok_start (lay_previous st) < tok_end (lay_previous st) \<and>
     tok_end (lay_previous st) \<le> length source \<and> opened_before (tok_end (lay_previous st)) (lay_delimiters st) \<and>
     sorted (map fst (lay_insertions st) @ [tok_start (lay_previous st)])"

definition placed :: "16 word list \<Rightarrow> layout_state \<Rightarrow> token \<Rightarrow> layout_state \<Rightarrow> bool" where
  "placed source st t st' \<longleftrightarrow> lay_frames st' \<noteq> [] \<and> lay_delimiters st' = lay_delimiters st \<and>
     sorted (map fst (lay_insertions st') @ [tok_start t])"

lemma hint_line_simps:
  "lay_frames (hint_line source t st) = lay_frames st" "lay_insertions (hint_line source t st) = lay_insertions st"
  "lay_previous (hint_line source t st) = lay_previous st" "lay_delimiters (hint_line source t st) = lay_delimiters st"
  by (simp_all add: hint_line_def split: option.splits prod.splits)

lemma place_token_answers:
  assumes "steady source st" "spaced source (lay_previous st) t"
    "newline = last_newline_end (take (tok_start t - tok_end (lay_previous st)) (drop (tok_end (lay_previous st)) source))"
  shows "answered (placed source st t) (place_token source t newline active suite separator (declare_start source t active st))"
proof -
  let ?st = "declare_start source t active st"
  have same: "lay_frames ?st = lay_frames st" "lay_insertions ?st = lay_insertions st"
      "lay_previous ?st = lay_previous st" "lay_delimiters ?st = lay_delimiters st"
    by (simp_all add: declare_start_def)
  from assms(1,2) have frames: "lay_frames st \<noteq> []" "tok_start (lay_previous st) \<le> length source"
      and sorted: "sorted (map fst (lay_insertions st) @ [tok_start t])" "sorted (map fst (lay_insertions st) @ [tok_start t, tok_start t])"
    by (auto simp: steady_def spaced_def sorted_append)
  have kept: "placed source st t (insert_separator t separator ?st)"
    using frames sorted by (simp add: insert_separator_def placed_def same)
  have "answered (placed source st t) (begin_line source t n suite separator ?st)" if "newline = Some n" for n
  proof -
    from assms(3) that have
        "last_newline_end (take (tok_start t - tok_end (lay_previous st)) (drop (tok_end (lay_previous st)) source)) = Some n" by simp
    with assms(2) obtain w where gap: "tok_end (lay_previous st) + n \<le> tok_start t" "tok_start t \<le> length source"
        "indentation_width (take (tok_start t - (tok_end (lay_previous st) + n)) (drop (tok_end (lay_previous st) + n) source)) = Some w"
      by (auto simp: spaced_def)
    show ?thesis
      unfolding begin_line_def Let_def hint_line_simps same slice_def expect_def
      using gap frames sorted
      by (auto intro!: answered_bind [OF line_markers_answers] simp: placed_def hint_line_simps same split: option.splits)
  qed
  with kept show ?thesis by (auto simp: place_token_def split: option.splits)
qed

lemma layout_step_answers:
  assumes "steady source st" "spaced source (lay_previous st) t" "i - 1 < length tokens"
  shows "answered (\<lambda>st'. steady source st' \<and> lay_previous st' = t)
    (layout_step source tokens (delimiter_openings source tokens) (i, t) st)"
proof -
  let ?gap = "take (tok_start t - tok_end (lay_previous st)) (drop (tok_end (lay_previous st)) source)"
  from assms(1,2) have gap: "slice source (tok_end (lay_previous st)) (tok_start t) = Inr ?gap"
      and frame: "item (lay_frames st) 0 = Inr (lay_frames st ! 0)"
      and ends: "tok_start t \<le> length source" "tok_end (lay_previous st) \<le> tok_start t" "tok_start t < tok_end t"
        "tok_end t \<le> length source" "opened_before (tok_end (lay_previous st)) (lay_delimiters st)"
    by (auto simp: steady_def spaced_def slice_def item_def)
  have separator: "answered (\<lambda>_. True)
      (if last_newline_end ?gap = None then Inr False else record_separator source (lay_delimiters st) (lay_previous st) t)"
    using record_separator_answers [OF ends(1)] by simp
  have updated: "answered (opened_before (tok_end t)) (update_delimiters source (lay_delimiters st') t)"
      if "placed source st t st'" for st'
    using update_delimiters_answers [OF ends(5,2,3,4)] that by (simp add: placed_def)
  show ?thesis
    unfolding layout_step_def prod.case gap and_then_Inr Let_def
    by (rule answered_bind [OF separator], rule answered_bind [OF introduces_suite_answers [OF assms(3)]],
        unfold frame and_then_Inr, rule answered_bind [OF place_token_answers [OF assms(1,2) refl]],
        rule answered_bind [OF updated])
      (use ends in \<open>auto simp: steady_def placed_def\<close>)
qed

lemma layout_fold_answers:
  assumes "steady source st" "successively (spaced source) (lay_previous st # ts)" "0 < i" "i + length ts \<le> length tokens"
  shows "answered (steady source) (fold_each (layout_step source tokens (delimiter_openings source tokens)) (zip [i..<i + length ts] ts) st)"
  using assms
proof (induction ts arbitrary: i st)
  case (Cons t ts)
  have enumerated: "zip [i..<i + length (t # ts)] (t # ts) = (i, t) # zip [i + 1..<i + 1 + length ts] ts"
    by (simp add: upt_conv_Cons del: upt_Suc)
  from Cons.prems have here: "spaced source (lay_previous st) t" "successively (spaced source) (t # ts)" "i - 1 < length tokens" by auto
  show ?case unfolding enumerated fold_each.simps
    by (rule answered_bind [OF layout_step_answers [OF Cons.prems(1) here(1,3)]], rule Cons.IH)
      (use Cons.prems here(2) in auto)
qed simp

lemma layout_lines_answers:
  assumes "successively (spaced source) (t # ts)" "tok_start t < tok_end t" "tok_end t \<le> length source"
  shows "answered (steady source) (layout_lines source (t # ts))"
proof -
  have "answered (opened_before (tok_end t)) (update_delimiters source \<lparr>brackets = 0, open_records = []\<rparr> t)"
    by (rule update_delimiters_answers [of 0]) (use assms in \<open>auto simp: opened_before_def\<close>)
  then have start: "answered (\<lambda>st. steady source st \<and> lay_previous st = t) (layout_start source t)"
    using assms(2,3) by (auto simp: layout_start_def steady_def intro!: answered_bind)
  have "answered (steady source)
      (fold_each (layout_step source (t # ts) (delimiter_openings source (t # ts))) (zip [1..<length (t # ts)] (tl (t # ts))) st)"
      if "steady source st \<and> lay_previous st = t" for st
    using layout_fold_answers [of source st ts 1 "t # ts"] that assms(1) by simp
  then show ?thesis by (auto simp: layout_lines_def item_def intro: answered_bind [OF start])
qed

lemma copied_from_answers:
  assumes "sorted (cursor # map fst insertions)" "\<forall>(offset, markers)\<in>set insertions. offset \<le> length source" "cursor \<le> length source"
  shows "\<exists>us offsets. copied_from source cursor insertions = Inr (us, offsets) \<and> length offsets = length us"
  using assms
proof (induction source cursor insertions rule: copied_from.induct)
  case (2 source cursor offset markers insertions)
  then obtain us offsets where "copied_from source offset insertions = Inr (us, offsets)" "length offsets = length us"
    by (auto simp: slice_def)
  moreover from "2.prems" have "cursor \<le> offset" "offset \<le> length source" by auto
  ultimately show ?case by (simp add: slice_def del: upt_Suc)
qed (simp add: slice_def del: upt_Suc)

lemma apply_insertions_answers:
  assumes "sorted (map fst insertions)" "\<forall>(offset, markers)\<in>set insertions. offset \<le> length source"
  shows "\<exists>layout. apply_insertions source insertions = Inr layout"
  using copied_from_answers [of 0 insertions source] assms by (auto simp: apply_insertions_def)

lemma reserved_characters_answer: "answered (\<lambda>_. True) (check_each (reserved_character source) markers)"
proof (induction markers)
  case (Cons marker markers)
  have "answered (\<lambda>_. True) (reserved_character source marker)"
    by (simp add: reserved_character_def split: option.splits)
  with Cons show ?case by (auto intro: answered_bind)
qed simp

lemma elaborate_answers:
  assumes "well_formed_tables lx classes" "length source < 2 ^ 32" "uniform_line_ends source"
    "\<And>t. exact_token lx classes source t \<Longrightarrow> lawful_token source t"
  shows "answered (\<lambda>_. True) (elaborate lx classes source)"
proof -
  from lex_from_answers [OF assms(1,2), of 0 0] obtain ts ds where from_start: "lex_from lx classes source 0 0 = Inr (ts, ds)"
    by blast
  show ?thesis
  proof (cases "ds = []")
    case False
    then obtain d ds' where "sort_diagnostics ds = d # ds'" by (metis list.exhaust sort_diagnostics_Nil)
    with from_start False have "lexed_source lx classes source = Inl (LayoutRejected (of_frontend d # map of_frontend ds'))"
      by (simp add: lexed_source_def lex_source_def)
    then show ?thesis unfolding elaborate_def by (intro answered_bind [OF reserved_characters_answer]) simp
  next
    case True
    with from_start have lexed: "lex_source lx classes source = Inr ts" by (simp add: lex_source_def)
    then have lexed': "lexed_source lx classes source = Inr ts" by (simp add: lexed_source_def)
    from lex_from_exact [OF from_start] assms(4) have lawful: "\<forall>t\<in>set ts. lawful_token source t" by blast
    have lines: "answered (steady source) (layout_lines source (syntax_tokens ts))" if some: "syntax_tokens ts \<noteq> []"
    proof -
      from some obtain u us where us: "syntax_tokens ts = u # us" by (cases "syntax_tokens ts") auto
      from source_lexer.tokens_spaced [OF lexed lawful assms(3) us] show ?thesis by (simp add: us layout_lines_answers)
    qed
    have closed: "answered (\<lambda>_. True) (apply_insertions source
        (lay_insertions st @ [(tok_end (lay_previous st), closing_markers (lay_frames st))]))" if "steady source st" for st
    proof -
      from that have "sorted (map fst (lay_insertions st @ [(tok_end (lay_previous st), closing_markers (lay_frames st))]))"
          "\<forall>(offset, markers)\<in>set (lay_insertions st @ [(tok_end (lay_previous st), closing_markers (lay_frames st))]). offset \<le> length source"
        by (fastforce simp: steady_def sorted_append)+
      from apply_insertions_answers [OF this] show ?thesis by auto
    qed
    show ?thesis
    proof (cases "syntax_tokens ts = []")
      case True
      then show ?thesis unfolding elaborate_def lexed' and_then_Inr Let_def
        by (intro answered_bind [OF reserved_characters_answer]) simp
    next
      case False
      then show ?thesis unfolding elaborate_def lexed' and_then_Inr Let_def if_not_P [OF False]
        by (intro answered_bind [OF reserved_characters_answer] answered_bind [OF lines] answered_bind [OF closed]) simp_all
    qed
  qed
qed

section \<open>A small lexer\<close>

text \<open>Words of lower-case letters, white space, comments and single characters of punctuation.\<close>

definition demo_target :: "nat \<Rightarrow> int \<Rightarrow> int" where
  "demo_target state c =
     (if state = 0 then
        (if 97 \<le> c \<and> c \<le> 122 then 1 else if c \<in> {9, 10, 13, 32} then 2 else if c = 47 then 3
         else if c \<in> {40, 41, 46, 58, 59, 61, 123, 125} then 5 else -1)
      else if state = 1 then (if 97 \<le> c \<and> c \<le> 122 then 1 else -1)
      else if state = 2 then (if c \<in> {9, 10, 13, 32} then 2 else -1)
      else if state = 3 then (if c = 47 then 4 else -1)
      else if state = 4 then (if c \<in> {10, 13} then -1 else 4)
      else -1)"

definition demo_lexer :: lexer_tables where
  "demo_lexer = \<lparr>state_count = 6, start_state = 0,
     ascii_transitions = map (demo_target 0) [0..127] @ map (demo_target 1) [0..127] @ map (demo_target 2) [0..127] @
       map (demo_target 3) [0..127] @ map (demo_target 4) [0..127] @ map (demo_target 5) [0..127],
     transition_rows = [0, 0, 0, 0, 0, 1, 1], transition_triples = [128, 1114111, 4],
     accept_spec_by_state = [-1, 0, 14, -1, 15, 13]\<rparr>"

definition demo_classes :: "int list" where
  "demo_classes = [0, 1, 2, 3, 4, 5, 6, 7, 8, 9, 10, 11, 12, 13, -1, -1]"

lemma source_code_point_range:
  assumes "source_code_point source p = (c, w)" "p < length source"
  shows "0 \<le> c \<and> c \<le> 1114111 \<and> (w = 1 \<and> c = uint (source ! p) \<or>
    w = 2 \<and> p + 1 < length source \<and> 128 \<le> c \<and> 55296 \<le> uint (source ! p) \<and> 56320 \<le> uint (source ! (p + 1)))"
proof -
  have "0 \<le> uint u" "uint u < 65536" for u :: "16 word" using uint_lt2p [of u] by simp_all
  from this [of "source ! p"] this [of "source ! (p + 1)"] assms show ?thesis
    by (auto simp: source_code_point_def Let_def split: if_splits)
qed

lemma line_end_uint: "line_end u \<longleftrightarrow> uint u = 10 \<or> uint u = 13"
  by (auto simp: line_end_def word_uint_eq_iff)

lemma demo_transition:
  assumes "state < 6" "0 \<le> c"
  shows "lexer_transition demo_lexer state c = Inr
    (if c < 128 then transition_target (demo_target state c) else if state = 4 \<and> c \<le> 1114111 then Some 4 else None)"
proof -
  from assms(1) consider "state = 0" | "state = 1" | "state = 2" | "state = 3" | "state = 4" | "state = 5" by linarith
  then show ?thesis
    by cases (use assms(2) in \<open>simp_all add: lexer_transition_def demo_lexer_def index_at_def nth_append nat_less_iff
      table_index_def search_ranges.simps transition_target_def\<close>)
qed

lemma demo_step:
  assumes "p < length source" "source_code_point source p = (c, w)" "state < 6"
    "lexer_transition demo_lexer state c = Inr (Some target)"
  shows "target \<in> {1..5} \<and> (target = 2 \<longrightarrow> state \<in> {0, 2} \<and> w = 1 \<and> blank_unit (source ! p)) \<and> (state = 2 \<longrightarrow> target = 2) \<and>
    (target \<in> {3, 4} \<longrightarrow> state \<in> {0, 3, 4} \<and> (\<forall>i. p \<le> i \<and> i < p + w \<longrightarrow> \<not> line_end (source ! i))) \<and>
    (state = 0 \<and> line_end (source ! p) \<longrightarrow> target = 2)"
proof -
  note range = source_code_point_range [OF assms(2,1)]
  have step: "(if c < 128 then transition_target (demo_target state c) else if state = 4 \<and> c \<le> 1114111 then Some 4 else None) =
      Some target"
    using assms(4) range by (simp add: demo_transition [OF assms(3)])
  show ?thesis
  proof (cases "c < 128")
    case True
    with range have one: "w = 1" "c = uint (source ! p)" by auto
    from step True have "transition_target (demo_target state c) = Some target" by simp
    with one(2) have target: "target \<in> {1..5} \<and> (target = 2 \<longrightarrow> state \<in> {0, 2} \<and> blank_unit (source ! p)) \<and> (state = 2 \<longrightarrow> target = 2) \<and>
        (target \<in> {3, 4} \<longrightarrow> state \<in> {0, 3, 4} \<and> \<not> line_end (source ! p)) \<and> (state = 0 \<and> line_end (source ! p) \<longrightarrow> target = 2)"
      by (auto simp: demo_target_def transition_target_def blank_unit_def line_end_uint word_uint_eq_iff split: if_splits)
    moreover have "i = p" if "p \<le> i" "i < p + w" for i using that one(1) by simp
    ultimately show ?thesis using one(1) by blast
  next
    case False
    with step have "state = 4" "target = 4" by (auto split: if_splits)
    moreover have "\<not> line_end (source ! i)" if "p \<le> i" "i < p + w" for i
    proof (cases "i = p")
      case True
      with range False show ?thesis by (auto simp: line_end_uint)
    next
      case other: False
      with that range have "w = 2" "i = p + 1" by auto
      with range show ?thesis by (auto simp: line_end_uint)
    qed
    ultimately show ?thesis by auto
  qed
qed

lemma demo_reads_state:
  "reads demo_lexer source state p final q \<Longrightarrow> state < 6 \<Longrightarrow> final < 6 \<and> (state = 2 \<longrightarrow> final = 2) \<and> (state \<noteq> 0 \<longrightarrow> final \<noteq> 0)"
proof (induction rule: reads.induct)
  case (reads_one p c w state target final q)
  note step = demo_step [OF reads_one.hyps(1,2) reads_one.prems reads_one.hyps(3)]
  from step [THEN conjunct1] have "target < 6" "target \<noteq> 0" by simp_all
  moreover from step have "state = 2 \<longrightarrow> target = 2" by (elim conjE)
  ultimately show ?case using reads_one.IH by metis
qed simp

lemma demo_reads_blank:
  "reads demo_lexer source state p final q \<Longrightarrow> state < 6 \<Longrightarrow> final = 2 \<Longrightarrow>
   state \<in> {0, 2} \<and> (\<forall>i. p \<le> i \<and> i < q \<longrightarrow> blank_unit (source ! i))"
proof (induction rule: reads.induct)
  case (reads_one p c w state target final q)
  note step = demo_step [OF reads_one.hyps(1,2) reads_one.prems(1) reads_one.hyps(3)]
  from step [THEN conjunct1] have "target < 6" "target \<noteq> 0" by simp_all
  from reads_one.IH [OF this(1) reads_one.prems(2)] this(2) have IH: "target = 2"
      "\<forall>i. p + w \<le> i \<and> i < q \<longrightarrow> blank_unit (source ! i)" by blast+
  from step IH(1) have first: "w = 1" "blank_unit (source ! p)" "state \<in> {0, 2}" by blast+
  have "blank_unit (source ! i)" if "p \<le> i" "i < q" for i
    using that IH(2) first(1,2) by (cases "i = p") auto
  with first(3) show ?case by blast
qed (simp add: linorder_not_le [symmetric])

lemma demo_reads_comment:
  "reads demo_lexer source state p final q \<Longrightarrow> state < 6 \<Longrightarrow> final \<in> {3, 4} \<Longrightarrow>
   state \<in> {0, 3, 4} \<and> (\<forall>i. p \<le> i \<and> i < q \<longrightarrow> \<not> line_end (source ! i))"
proof (induction rule: reads.induct)
  case (reads_one p c w state target final q)
  note step = demo_step [OF reads_one.hyps(1,2) reads_one.prems(1) reads_one.hyps(3)]
  from step [THEN conjunct1] have "target < 6" "target \<noteq> 0" by simp_all
  from reads_one.IH [OF this(1) reads_one.prems(2)] this(2) have IH: "target \<in> {3, 4}"
      "\<forall>i. p + w \<le> i \<and> i < q \<longrightarrow> \<not> line_end (source ! i)" by blast+
  from step IH(1) have first: "\<forall>i. p \<le> i \<and> i < p + w \<longrightarrow> \<not> line_end (source ! i)" "state \<in> {0, 3, 4}" by blast+
  have "\<not> line_end (source ! i)" if "p \<le> i" "i < q" for i
    using that IH(2) first(1) by (cases "i < p + w") auto
  with first(2) show ?case by blast
qed (simp add: linorder_not_le [symmetric])

lemma demo_reads_line_end:
  assumes "reads demo_lexer source 0 p final q" "p < q" "line_end (source ! p)"
  shows "final = 2"
  using assms(1)
proof (rule reads_cases)
  fix c w target
  assume one: "p < length source" "source_code_point source p = (c, w)" "lexer_transition demo_lexer 0 c = Inr (Some target)"
    "reads demo_lexer source target (p + w) final q"
  have "(0 :: nat) < 6" by simp
  from demo_step [OF one(1,2) this one(3)] assms(3) have "target = 2" by blast
  with demo_reads_state [OF one(4)] show "final = 2" by simp
qed (use assms(2) in simp)

lemma reads_trans: "reads lx source state p mid q \<Longrightarrow> reads lx source mid q final r \<Longrightarrow> reads lx source state p final r"
  by (induction rule: reads.induct) (auto intro: reads.intros)

lemma demo_lawful:
  assumes "exact_token demo_lexer demo_classes source t"
  shows "lawful_token source t"
proof -
  let ?p = "tok_start t" and ?q = "tok_end t" and ?spec = "nat (tok_identity t)"
  from assms have inside: "?p < ?q" "?q \<le> length source" and terminal: "tok_terminal t = demo_classes ! ?spec"
      and longest: "\<And>q' spec'. matches_from demo_lexer source 0 ?p q' spec' \<Longrightarrow> q' \<le> ?q"
      and "\<exists>final. reads demo_lexer source 0 ?p final ?q \<and> accepts demo_lexer final ?spec"
    by (auto simp: exact_token_def longest_match_def matches_from_def demo_lexer_def)
  then obtain final where final: "reads demo_lexer source 0 ?p final ?q" "accepts demo_lexer final ?spec" by blast
  have places: "u \<in> set (token_text source t) \<longleftrightarrow> (\<exists>i. ?p \<le> i \<and> i < ?q \<and> u = source ! i)" for u
  proof
    assume "\<exists>i. ?p \<le> i \<and> i < ?q \<and> u = source ! i"
    then obtain i where "?p \<le> i" "i < ?q" "u = source ! i" by blast
    with inside have "i - ?p < length (token_text source t)" "token_text source t ! (i - ?p) = u" by (auto simp: token_text_def)
    then show "u \<in> set (token_text source t)" by (metis nth_mem)
  next
    assume "u \<in> set (token_text source t)"
    then obtain k where "k < ?q - ?p" "u = source ! (?p + k)" using inside by (auto simp: token_text_def in_set_conv_nth)
    then show "\<exists>i. ?p \<le> i \<and> i < ?q \<and> u = source ! i" by (intro exI [of _ "?p + k"]) simp
  qed
  from final(2) have "final \<in> {1, 2, 4, 5} \<and>
      ?spec = (if final = 1 then 0 else if final = 2 then 14 else if final = 4 then 15 else 13)"
    by (auto simp: accepts_def demo_lexer_def nth_Cons' less_Suc_eq numeral_eq_Suc split: if_splits)
  then consider "final \<in> {1, 5}" "?spec \<in> {0, 13}" | "final = 2" "?spec = 14" | "final = 4" "?spec = 15" by (auto split: if_splits)
  then show ?thesis
  proof cases
    case 1
    with demo_reads_line_end [OF final(1) inside(1)] terminal show ?thesis by (auto simp: lawful_token_def demo_classes_def)
  next
    case 2
    with demo_reads_blank [OF final(1)] terminal show ?thesis
      by (auto simp: lawful_token_def demo_classes_def list_all_iff places)
  next
    case 3
    have "line_end (source ! ?q)" if "?q < length source"
    proof (rule ccontr)
      assume no_end: "\<not> line_end (source ! ?q)"
      obtain c w where here: "source_code_point source ?q = (c, w)" by (cases "source_code_point source ?q")
      from source_code_point_range [OF here that] no_end have
          "lexer_transition demo_lexer 4 c = Inr (Some 4)"
        by (auto simp: demo_transition demo_target_def transition_target_def line_end_uint nat_eq_iff)
      from reads_trans [OF final(1)] reads_one [OF that here this reads_none] 3 have
          "reads demo_lexer source 0 ?p 4 (?q + w)" by blast
      moreover have "accepts demo_lexer 4 15" by (simp add: accepts_def demo_lexer_def)
      moreover have "w > 0" using width_positive [of c w source ?q] here by simp
      ultimately have "matches_from demo_lexer source 0 ?p (?q + w) 15" using inside(1) by (auto simp: matches_from_def)
      from longest [OF this] \<open>w > 0\<close> show False by simp
    qed
    with 3 demo_reads_comment [OF final(1)] terminal show ?thesis
      by (auto simp: lawful_token_def demo_classes_def list_all_iff places)
  qed
qed


section \<open>Reading a source\<close>

text \<open>
  The first steps of \<open>lower_incremental\<close> (\<open>compiler/src/source.rs\<close>): layout, ingestion, and the diagnostics of
  the elaborated source at their places in the source. \<open>None\<close> is a parse that does not end.
\<close>

definition read_source ::
  "frontend_plan \<Rightarrow> 16 word list \<Rightarrow> frontend_state option \<Rightarrow>
   (layout_fault, layout_source \<times> compact_program \<times> frontend_state) result option" where
  "read_source plan source previous =
     (case elaborate (plan_lexer plan) (terminal_classification plan) source of
        Inl fault \<Rightarrow> Some (Inl fault)
      | Inr layout \<Rightarrow>
          (case ingest_incremental plan (layout_units layout) previous of
             None \<Rightarrow> None
           | Some (Inr (program, st)) \<Rightarrow> Some (Inr (layout, program, st))
           | Some (Inl (Rejected ds)) \<Rightarrow> Some (Inl (LayoutRejected (map_diagnostics layout (map of_frontend ds))))
           | Some (Inl fault) \<Rightarrow> Some (Inl LayoutPanic)))"

definition program_read ::
  "(layout_fault, layout_source \<times> compact_program \<times> frontend_state) result option \<Rightarrow>
   (layout_fault, layout_source \<times> compact_program) result option" where
  "program_read = map_option (map_sum id (\<lambda>(layout, program, st). (layout, program)))"

lemma read_source_exact:
  assumes "held_state plan st" "length (state_source st) < 2 ^ 32"
  shows "program_read (read_source plan source (Some st)) = program_read (read_source plan source None)"
proof (cases "elaborate (plan_lexer plan) (terminal_classification plan) source")
  case (Inr layout)
  from ingest_again_exact [OF held_state_valid [OF assms(1)] assms(2)] have same:
      "program_of (ingest_incremental plan (layout_units layout) (Some st)) =
       program_of (ingest_incremental plan (layout_units layout) None)" .
  show ?thesis
  proof (cases "ingest_incremental plan (layout_units layout) None" rule: run_cases)
    case 1
    with same Inr show ?thesis
      by (cases "ingest_incremental plan (layout_units layout) (Some st)" rule: run_cases)
        (auto simp: read_source_def program_of_def split: prod.splits)
  next
    case (2 fault)
    with same Inr show ?thesis
      by (cases "ingest_incremental plan (layout_units layout) (Some st)" rule: run_cases)
        (auto simp: read_source_def program_of_def split: prod.splits)
  next
    case (3 r)
    with same Inr show ?thesis
      by (cases "ingest_incremental plan (layout_units layout) (Some st)" rule: run_cases)
        (auto simp: read_source_def program_of_def program_read_def split: prod.splits)
  qed
qed (simp add: read_source_def)

section \<open>Properties\<close>

text \<open>
  A line feed before a comment that ends in a carriage return: the line of the next token is taken to
  start at the line feed, and the comment is read as its indentation.
\<close>

lemma mixed_line_ends_panic: "elaborate demo_lexer demo_classes [97, 10, 47, 47, 98, 13, 98] = Inl LayoutPanic"
  by code_simp

text \<open>
  C17. Elaboration only inserts: the units at which the offset moves on are the source, the others are
  layout characters and semicolons, and offsets grow from zero to the length of the source, so that spans
  of the elaborated source map to spans of the source.
\<close>
theorem elaboration_erasable:
  assumes "elaborate lx classes source = Inr layout" "length source < 2 ^ 32"
  shows "length (original_offsets layout) = length (layout_units layout) + 1 \<and>
    copied_units 0 (layout_units layout) (tl (original_offsets layout)) = source \<and>
    set (inserted_units 0 (layout_units layout) (tl (original_offsets layout))) \<subseteq> layout_markers \<and>
    sorted (original_offsets layout) \<and> hd (original_offsets layout) = 0 \<and> last (original_offsets layout) = length source"
proof -
  from elaborated_woven [OF assms] obtain bs where
      woven: "original_offsets layout = 0 # bs" "woven source 0 (length source) (layout_units layout) bs" by blast
  from woven_length [OF woven(2)] woven_copied [OF woven(2)] woven_inserted [OF woven(2)] woven_sorted [OF woven(2)] woven(1)
  show ?thesis by simp
qed

definition demo_layout :: layout_source where
  "demo_layout = \<lparr>
     layout_units = [97, 61, 10, 47, 47, 98, 10, 32, 32, 0xe000, 0xe001, 98, 0xe000, 0xe002, 0xe000],
     original_offsets = [0, 1, 2, 3, 4, 5, 6, 7, 8, 9, 9, 9, 10, 10, 10, 10], continuation_hints = []\<rparr>"

lemma demo_elaborated: "elaborate demo_lexer demo_classes [97, 61, 10, 47, 47, 98, 10, 32, 32, 98] = Inr demo_layout"
  by code_simp

theorem elaboration_erasable_witness:
  "length (original_offsets demo_layout) = length (layout_units demo_layout) + 1 \<and>
   copied_units 0 (layout_units demo_layout) (tl (original_offsets demo_layout)) = [97, 61, 10, 47, 47, 98, 10, 32, 32, 98] \<and>
   set (inserted_units 0 (layout_units demo_layout) (tl (original_offsets demo_layout))) \<subseteq> layout_markers \<and>
   sorted (original_offsets demo_layout) \<and> hd (original_offsets demo_layout) = 0 \<and>
   last (original_offsets demo_layout) = length [97 :: 16 word, 61, 10, 47, 47, 98, 10, 32, 32, 98]"
  by (rule elaboration_erasable [OF demo_elaborated]) simp

text \<open>
  C18. Suites are bracketed: reading an elaborated source from left to right, no suite is closed that is
  not open, and at the end every suite has been closed.
\<close>
theorem suites_balanced:
  assumes "elaborate lx classes source = Inr layout"
  shows "nesting 0 (layout_units layout) = Some 0"
  by (rule elaborated_nesting [OF assms])

theorem suites_balanced_witness: "nesting 0 (layout_units demo_layout) = Some 0"
  by (rule suites_balanced [OF demo_elaborated])

text \<open>
  C19. On the tables of a generator whose trivia are white space and line comments, and on a source of fewer
  than 2^32 units whose lines end in one way, elaboration returns a layout or diagnostics: it never panics.
\<close>
theorem layout_answers:
  assumes "well_formed_tables lx classes" "length source < 2 ^ 32" "uniform_line_ends source"
    "\<And>t. exact_token lx classes source t \<Longrightarrow> lawful_token source t"
  shows "(\<exists>layout. elaborate lx classes source = Inr layout) \<or>
    (\<exists>d ds. elaborate lx classes source = Inl (LayoutRejected (d # ds)))"
  using elaborate_answers [OF assms] by (cases "elaborate lx classes source") auto

theorem layout_answers_witness:
  "(\<exists>layout. elaborate demo_lexer demo_classes [97, 13, 10, 47, 47, 98, 13, 10, 98] = Inr layout) \<or>
   (\<exists>d ds. elaborate demo_lexer demo_classes [97, 13, 10, 47, 47, 98, 13, 10, 98] = Inl (LayoutRejected (d # ds)))"
proof (rule layout_answers [OF _ _ _ demo_lawful])
  show "well_formed_tables demo_lexer demo_classes" by code_simp
  show "uniform_line_ends [97, 13, 10, 47, 47, 98, 13, 10, 98]" by code_simp
qed simp_all

end
