(* ===== verification/Cst.thy ===== *)
theory Cst
  imports Layout
begin

text \<open>
  The compact syntax tree (\<open>compiler/src/cst.rs\<close>): cursors over the words of a program that ingestion returns,
  with the names of rules and fields from \<open>compiler/src/schema.rs\<close> and the offsets of layout. An absent or
  senseless word is an error. What a reader finds in the words of a parsed tree is that tree.
\<close>

section \<open>Names\<close>

definition rule_names :: "string list" where
  "rule_names =
    [''operator_token'', ''program'', ''module_header'', ''operator_section'', ''fixity_declaration'',
     ''declaration'', ''statement'', ''binding'', ''indented_value'', ''declaration_tag'', ''rebinding'',
     ''sequencing'', ''element_line'', ''iteration'', ''iteration_source'', ''breaking'', ''opening'', ''result'',
     ''binding_pattern'', ''pattern_core'', ''pinned_pattern'', ''unit_pattern'', ''tuple_pattern'',
     ''array_pattern'', ''constructor_pattern'', ''shape_pattern'', ''shape_pattern_field'', ''expression'',
     ''continued_expression'', ''continued_operand'', ''continued_postfix_expression'',
     ''continued_primary_expression'', ''infix_operation'', ''operand'', ''prefix_operator'', ''postfix_expression'',
     ''application_argument'', ''field_suffix'', ''field_name'', ''keyword'', ''primary_expression'', ''effect_row'',
     ''application_primary'', ''constructor_expression'', ''unit'', ''parenthesized_or_tuple'', ''array'',
     ''array_element'', ''element_expression'', ''element_name'', ''element_property'', ''element_property_value'',
     ''element_property_expression'', ''element_self_close'', ''element_body'', ''element_child'',
     ''element_child_value'', ''element_child_expression'', ''element_child_operand'',
     ''element_child_postfix_expression'', ''element_child_primary_expression'', ''value'', ''shape'',
     ''shape_member'', ''shape_spread'', ''shape_field'', ''lambda'', ''lambda_parameter'', ''conditional'',
     ''else_if_clause'', ''else_clause'', ''conditional_statement'', ''conditional_statement_guard'',
     ''conditional_statement_branches'', ''conditional_statement_else_if_clause'',
     ''conditional_statement_else_clause'', ''case_expression'', ''case_arm'', ''case_guard'',
     ''handler_composition'', ''handler_composition_step'', ''handler_composition_action'', ''block'', ''do_block'',
     ''statement_suite'', ''qualified_name'', ''qualified_name_part'', ''effect_row_part'', ''effect_row_tail'',
     ''import_expression'', ''signature'', ''bounded_lambda'', ''computed_shape_field'', ''continuing'',
     ''annotated_pattern'', ''lambda_result'', ''rebinding_suffix'', ''index_suffix'']"

definition field_names :: "string list" where
  "field_names =
    [''action'', ''alternative'', ''alternatives'', ''arguments'', ''arrow'', ''associativity'', ''body'',
     ''body_end'', ''body_start'', ''children'', ''closing'', ''condition'', ''consequence'', ''constructor'',
     ''declarations'', ''descriptor'', ''drawn'', ''effect'', ''effects'', ''elements'', ''ending'', ''fallback'',
     ''field'', ''fields'', ''first'', ''guard'', ''handler'', ''head'', ''header'', ''intrinsic'', ''kind'',
     ''line'', ''members'', ''name'', ''operator'', ''operators'', ''optional'', ''parameter'', ''parameters'',
     ''pattern'', ''payload'', ''precedence'', ''prefixes'', ''program'', ''properties'', ''qualifier'', ''rest'',
     ''result'', ''right'', ''root'', ''source'', ''spread'', ''statements'', ''steps'', ''suffixes'', ''tags'',
     ''tail'', ''target'', ''value'', ''phase'', ''input'', ''specifier'', ''recursive'', ''targets'', ''patterns'',
     ''annotation'']"

definition repeated_fields :: "(string \<times> string) list" where
  "repeated_fields =
    [(''annotated_pattern'', ''annotation''), (''shape_field'', ''value''), (''array'', ''elements''),
     (''array_pattern'', ''elements''), (''binding'', ''tags''), (''do_block'', ''statements''),
     (''case_expression'', ''rest''), (''case_expression'', ''targets''), (''case_arm'', ''patterns''),
     (''conditional_statement_branches'', ''alternatives''), (''continued_expression'', ''rest''),
     (''continued_operand'', ''prefixes''), (''continued_postfix_expression'', ''arguments''),
     (''continued_postfix_expression'', ''suffixes''), (''effect_row'', ''rest''), (''expression'', ''rest''),
     (''bounded_lambda'', ''parameters''), (''lambda'', ''parameters''), (''operand'', ''prefixes''),
     (''operator_section'', ''declarations''), (''program'', ''operators''), (''parenthesized_or_tuple'', ''rest''),
     (''postfix_expression'', ''arguments''), (''postfix_expression'', ''suffixes''),
     (''application_argument'', ''suffixes''), (''program'', ''declarations''), (''qualified_name'', ''rest''),
     (''rebinding'', ''suffixes''), (''shape'', ''members''), (''shape_pattern'', ''fields''),
     (''statement_suite'', ''statements''), (''tuple_pattern'', ''rest'')]"

section \<open>Cursors and errors\<close>

datatype cursor = TokenCursor nat | RuleCursor nat

record cst_edge =
  edge_field :: "nat option"
  edge_target :: cursor

datatype word_kind = TokenWord | NodeWord | EdgeWord

datatype cst_error =
  WordCount word_kind nat
| RootOmitted
| OffsetCount nat nat
| NegativeRule int
| UnknownRule int
| NoSignificantToken
| OmittedOffset nat
| InvalidSpan int int
| ExpectedToken
| ExceedsSource nat nat
| InvalidText
| ExpectedRule
| NoChild string
| InvalidEdges int int
| NegativeTarget int
| UnknownCategory int
| UnknownField int
| UnknownFieldName string
| OmittedWord word_kind nat

record compact_cst =
  cst_source :: "16 word list"
  cst_tokens :: "int list"
  cst_nodes :: "int list"
  cst_edges :: "int list"
  cst_rules :: "string list"
  cst_offsets :: "nat list option"

definition cst_new ::
  "16 word list \<Rightarrow> int list \<Rightarrow> int list \<Rightarrow> int list \<Rightarrow> string list \<Rightarrow> (cst_error, compact_cst) result" where
  "cst_new source tokens nodes edges rules =
     and_then (ensure (length tokens mod 4 = 0) (WordCount TokenWord (length tokens))) (\<lambda>_.
     and_then (ensure (length nodes mod 8 = 0) (WordCount NodeWord (length nodes))) (\<lambda>_.
     and_then (ensure (length edges mod 4 = 0) (WordCount EdgeWord (length edges))) (\<lambda>_.
     and_then (ensure (nodes \<noteq> []) RootOmitted) (\<lambda>_.
       Inr \<lparr>cst_source = source, cst_tokens = tokens, cst_nodes = nodes, cst_edges = edges, cst_rules = rules,
         cst_offsets = None\<rparr>))))"

definition cst_new_mapped ::
  "16 word list \<Rightarrow> int list \<Rightarrow> int list \<Rightarrow> int list \<Rightarrow> string list \<Rightarrow> nat list \<Rightarrow> (cst_error, compact_cst) result" where
  "cst_new_mapped source tokens nodes edges rules offsets =
     and_then (cst_new source tokens nodes edges rules) (\<lambda>cst.
     and_then (ensure (length offsets = length source + 1) (OffsetCount (length offsets) (length source))) (\<lambda>_.
       Inr (cst\<lparr>cst_offsets := Some offsets\<rparr>)))"

definition root_cursor :: cursor where
  "root_cursor = RuleCursor 0"

section \<open>Words\<close>

definition required :: "int list \<Rightarrow> nat \<Rightarrow> word_kind \<Rightarrow> (cst_error, int) result" where
  "required words index kind = (if index < length words then Inr (words ! index) else Inl (OmittedWord kind index))"

definition token_word :: "compact_cst \<Rightarrow> nat \<Rightarrow> nat \<Rightarrow> (cst_error, int) result" where
  "token_word cst token offset = required (cst_tokens cst) (token * 4 + offset) TokenWord"

definition node_word :: "compact_cst \<Rightarrow> nat \<Rightarrow> nat \<Rightarrow> (cst_error, int) result" where
  "node_word cst node offset = required (cst_nodes cst) (node * 8 + offset) NodeWord"

definition edge_word :: "compact_cst \<Rightarrow> nat \<Rightarrow> nat \<Rightarrow> (cst_error, int) result" where
  "edge_word cst edge offset = required (cst_edges cst) (edge * 4 + offset) EdgeWord"

definition rule_name :: "compact_cst \<Rightarrow> nat \<Rightarrow> (cst_error, string) result" where
  "rule_name cst rule =
     and_then (node_word cst rule 0) (\<lambda>rule_id.
       if rule_id < 0 then Inl (NegativeRule rule_id)
       else if nat rule_id < length (cst_rules cst) then Inr (cst_rules cst ! nat rule_id)
       else Inl (UnknownRule rule_id))"

text \<open>A cursor outside the target of an edge is a \<open>u32\<close>, as is the end of a span.\<close>

definition raw_span :: "compact_cst \<Rightarrow> cursor \<Rightarrow> (cst_error, nat \<times> nat) result" where
  "raw_span cst cursor =
     and_then
       (case cursor of
          TokenCursor token \<Rightarrow>
            and_then (token_word cst token 1) (\<lambda>s. and_then (token_word cst token 2) (\<lambda>e. Inr (s, e)))
        | RuleCursor rule \<Rightarrow>
            and_then (node_word cst rule 2) (\<lambda>s. and_then (node_word cst rule 3) (\<lambda>e. Inr (s, e)))) (\<lambda>(s, e).
       if s < 0 \<or> e < s then Inl (InvalidSpan s e) else Inr (nat s, nat e))"

definition mapped_offset :: "nat list \<Rightarrow> nat \<Rightarrow> (cst_error, nat) result" where
  "mapped_offset offsets i = (if i < length offsets then Inr (offsets ! i) else Inl (OmittedOffset i))"

definition mapped_span :: "compact_cst \<Rightarrow> nat \<times> nat \<Rightarrow> (cst_error, nat \<times> nat) result" where
  "mapped_span cst raw =
     (case cst_offsets cst of
        None \<Rightarrow> Inr raw
      | Some offsets \<Rightarrow>
          and_then (mapped_offset offsets (fst raw)) (\<lambda>s.
          and_then (mapped_offset offsets (snd raw)) (\<lambda>e. Inr (s, e))))"

definition cursor_span :: "compact_cst \<Rightarrow> cursor \<Rightarrow> (cst_error, nat \<times> nat) result" where
  "cursor_span cst cursor = and_then (raw_span cst cursor) (mapped_span cst)"

text \<open>\<open>String::from_utf16\<close>: surrogates stand in pairs. A text stays a list of units.\<close>

fun valid_utf16 :: "16 word list \<Rightarrow> bool" where
  "valid_utf16 [] \<longleftrightarrow> True"
| "valid_utf16 (u # us) \<longleftrightarrow>
     (if 0xd800 \<le> uint u \<and> uint u \<le> 0xdbff then
        (case us of [] \<Rightarrow> False | v # vs \<Rightarrow> 0xdc00 \<le> uint v \<and> uint v \<le> 0xdfff \<and> valid_utf16 vs)
      else \<not> (0xdc00 \<le> uint u \<and> uint u \<le> 0xdfff) \<and> valid_utf16 us)"

definition cursor_text :: "compact_cst \<Rightarrow> cursor \<Rightarrow> (cst_error, 16 word list) result" where
  "cursor_text cst cursor =
     (case cursor of
        RuleCursor rule \<Rightarrow> Inl ExpectedToken
      | TokenCursor token \<Rightarrow>
          and_then (raw_span cst cursor) (\<lambda>(s, e).
            if s \<le> e \<and> e \<le> length (cst_source cst) then
              (let units = take (e - s) (drop s (cst_source cst))
               in if valid_utf16 units then Inr units else Inl InvalidText)
            else Inl (ExceedsSource s e)))"

definition cst_token_kind :: "compact_cst \<Rightarrow> nat \<Rightarrow> (cst_error, 16 word list) result" where
  "cst_token_kind cst token =
     and_then (token_word cst token 3) (\<lambda>identity.
       if 0 \<le> identity \<and> nat identity < length named_token_kinds
       then Inr (text_units (named_token_kinds ! nat identity))
       else cursor_text cst (TokenCursor token))"

section \<open>Edges\<close>

definition read_edge :: "compact_cst \<Rightarrow> nat \<Rightarrow> (cst_error, cst_edge) result" where
  "read_edge cst edge =
     and_then (edge_word cst edge 0) (\<lambda>field.
     and_then (edge_word cst edge 2) (\<lambda>category.
     and_then (edge_word cst edge 3) (\<lambda>target.
     and_then (ensure (target \<ge> 0) (NegativeTarget target)) (\<lambda>_.
     and_then
       (if category = 0 then Inr (TokenCursor (nat target))
        else if category = 1 then Inr (RuleCursor (nat target))
        else Inl (UnknownCategory category)) (\<lambda>target.
     and_then
       (if field < 0 then Inr None
        else if nat field < length field_names then Inr (Some (nat field))
        else Inl (UnknownField field)) (\<lambda>field.
       Inr \<lparr>edge_field = field, edge_target = target\<rparr>))))))"

text \<open>The iterator \<open>rule_edges\<close>: the numbers of the edges; each is read when it is reached.\<close>

definition rule_edges :: "compact_cst \<Rightarrow> nat \<Rightarrow> (cst_error, nat list) result" where
  "rule_edges cst rule =
     and_then (node_word cst rule 4) (\<lambda>first.
     and_then (node_word cst rule 5) (\<lambda>count.
       if first < 0 \<or> count < 0 then Inl (InvalidEdges first count)
       else Inr [nat first..<nat first + nat count]))"

definition child_at :: "compact_cst \<Rightarrow> nat \<Rightarrow> nat \<Rightarrow> (cst_error, cursor option) result" where
  "child_at cst rule index =
     and_then (rule_edges cst rule) (\<lambda>edges.
       if index < length edges
       then and_then (read_edge cst (edges ! index)) (\<lambda>edge. Inr (Some (edge_target edge))) else Inr None)"

definition child_cursors :: "compact_cst \<Rightarrow> nat \<Rightarrow> (cst_error, cursor list) result" where
  "child_cursors cst rule =
     and_then (rule_edges cst rule) (collect (\<lambda>edge. and_then (read_edge cst edge) (\<lambda>edge. Inr (edge_target edge))))"

definition field_id :: "string \<Rightarrow> (cst_error, nat) result" where
  "field_id name =
     (case first_index (\<lambda>candidate. candidate = name) field_names of
        None \<Rightarrow> Inl (UnknownFieldName name)
      | Some i \<Rightarrow> Inr i)"

fun first_of_field :: "compact_cst \<Rightarrow> nat \<Rightarrow> nat list \<Rightarrow> (cst_error, cursor option) result" where
  "first_of_field cst field [] = Inr None"
| "first_of_field cst field (edge # edges) =
     and_then (read_edge cst edge) (\<lambda>read.
       if edge_field read = Some field then Inr (Some (edge_target read)) else first_of_field cst field edges)"

definition cst_field :: "compact_cst \<Rightarrow> nat \<Rightarrow> string \<Rightarrow> (cst_error, cursor option) result" where
  "cst_field cst rule name =
     and_then (field_id name) (\<lambda>field. and_then (rule_edges cst rule) (first_of_field cst field))"

fun is_token_cursor :: "cursor \<Rightarrow> bool" where
  "is_token_cursor (TokenCursor token) = True"
| "is_token_cursor (RuleCursor rule) = False"

definition cst_field_list :: "compact_cst \<Rightarrow> nat \<Rightarrow> string \<Rightarrow> (cst_error, cursor list) result" where
  "cst_field_list cst rule name =
     and_then (field_id name) (\<lambda>field.
     and_then (rule_name cst rule) (\<lambda>rule_text.
     let repeated = (rule_text, name) \<in> set repeated_fields in
     and_then (rule_edges cst rule) (\<lambda>edges.
     and_then (collect (read_edge cst) edges) (\<lambda>edges.
       Inr (map edge_target
         (filter (\<lambda>edge. edge_field edge = Some field \<and> \<not> (repeated \<and> is_token_cursor (edge_target edge))) edges))))))"

definition unwrap_cursor :: "compact_cst \<Rightarrow> cursor \<Rightarrow> (cst_error, cursor) result" where
  "unwrap_cursor cst cursor =
     (case cursor of
        TokenCursor token \<Rightarrow> Inl ExpectedRule
      | RuleCursor rule \<Rightarrow>
          and_then (rule_name cst rule) (\<lambda>name.
          and_then (child_at cst rule 0) (\<lambda>child.
            case child of None \<Rightarrow> Inl (NoChild name) | Some child \<Rightarrow> Inr child)))"

text \<open>
  The loop of \<open>significant_span\<close>: the stack, its top first, and the span so far. A tree that contains itself
  has no end, and the loop none.
\<close>

definition join_spans :: "nat \<times> nat \<Rightarrow> (nat \<times> nat) option \<Rightarrow> nat \<times> nat" where
  "join_spans span found = (case found of None \<Rightarrow> span | Some (s, e) \<Rightarrow> (min s (fst span), max e (snd span)))"

definition visit_significant ::
  "compact_cst \<Rightarrow> cursor \<Rightarrow> cursor list \<Rightarrow> (nat \<times> nat) option \<Rightarrow> (cst_error, cursor list \<times> (nat \<times> nat) option) result" where
  "visit_significant cst cursor stack found =
     (case cursor of
        RuleCursor rule \<Rightarrow> and_then (child_cursors cst rule) (\<lambda>children. Inr (rev children @ stack, found))
      | TokenCursor token \<Rightarrow>
          and_then (cst_token_kind cst token) (\<lambda>kind.
            if kind \<in> set (map text_units [''LAYOUT_NEWLINE'', ''LAYOUT_INDENT'', ''LAYOUT_DEDENT'']) then Inr (stack, found)
            else and_then (raw_span cst cursor) (\<lambda>span. Inr (stack, Some (join_spans span found)))))"

partial_function (option) significant_loop ::
  "compact_cst \<Rightarrow> cursor list \<Rightarrow> (nat \<times> nat) option \<Rightarrow> (cst_error, (nat \<times> nat) option) result option" where
  "significant_loop cst stack found =
     (case stack of
        [] \<Rightarrow> Some (Inr found)
      | cursor # stack \<Rightarrow>
          (case visit_significant cst cursor stack found of
             Inl e \<Rightarrow> Some (Inl e)
           | Inr (stack, found) \<Rightarrow> significant_loop cst stack found))"

declare significant_loop.simps [code]

definition significant_span :: "compact_cst \<Rightarrow> cursor \<Rightarrow> (cst_error, nat \<times> nat) result option" where
  "significant_span cst cursor =
     map_option (\<lambda>r. and_then r (\<lambda>found.
       case found of None \<Rightarrow> Inl NoSignificantToken | Some raw \<Rightarrow> mapped_span cst raw))
       (significant_loop cst [cursor] None)"

section \<open>The words of a tree\<close>

text \<open>Where the words of a node, of its edges and of its children stand.\<close>

fun placed_node :: "frontend_plan \<Rightarrow> int list \<Rightarrow> int list \<Rightarrow> pending_node \<Rightarrow> bool"
  and placed_edges :: "frontend_plan \<Rightarrow> int list \<Rightarrow> int list \<Rightarrow> pending_edge list \<Rightarrow> bool" where
  "placed_node plan nodes words (PendingNode island_id s e edges id') \<longleftrightarrow> 0 \<le> id' \<and> 8 * nat id' + 8 \<le> length nodes \<and>
     (\<exists>first. take 8 (drop (8 * nat id') nodes) =
          [rule_id (islands plan ! island_id), 0, as_i32 s, as_i32 e, as_i32 first, as_i32 (length edges), -1, -1] \<and>
        4 * (first + length edges) \<le> length words \<and>
        (\<forall>k<length edges. edge_words (edges ! k) = Inr (take 4 (drop (4 * (first + k)) words)))) \<and>
     placed_edges plan nodes words edges"
| "placed_edges plan nodes words [] \<longleftrightarrow> True"
| "placed_edges plan nodes words (PendingEdge field t None ordinal # es) \<longleftrightarrow> placed_edges plan nodes words es"
| "placed_edges plan nodes words (PendingEdge field t (Some child) ordinal # es) \<longleftrightarrow>
     placed_node plan nodes words child \<and> placed_edges plan nodes words es"

lemma take_drop_append: "a + n \<le> length xs \<Longrightarrow> take n (drop a (xs @ ys)) = take n (drop a xs)"
  by simp

lemma placed_extend:
  "placed_node plan nodes words node \<Longrightarrow> placed_node plan (nodes @ ns) (words @ ws) node"
  "placed_edges plan nodes words edges \<Longrightarrow> placed_edges plan (nodes @ ns) (words @ ws) edges"
proof (induction plan nodes words node and plan nodes words edges rule: placed_node_placed_edges.induct)
  case (1 plan nodes words island_id s e edges id')
  from 1(2) obtain first where first: "0 \<le> id'" "8 * nat id' + 8 \<le> length nodes"
      "take 8 (drop (8 * nat id') nodes) =
        [rule_id (islands plan ! island_id), 0, as_i32 s, as_i32 e, as_i32 first, as_i32 (length edges), -1, -1]"
      "4 * (first + length edges) \<le> length words"
      "\<forall>k<length edges. edge_words (edges ! k) = Inr (take 4 (drop (4 * (first + k)) words))"
      "placed_edges plan nodes words edges" unfolding placed_node.simps by blast
  have "take 4 (drop (4 * (first + k)) (words @ ws)) = take 4 (drop (4 * (first + k)) words)" if "k < length edges" for k
    using first(4) that by (intro take_drop_append) simp
  with first(5) have "\<forall>k<length edges. edge_words (edges ! k) = Inr (take 4 (drop (4 * (first + k)) (words @ ws)))" by metis
  moreover have "take 8 (drop (8 * nat id') (nodes @ ns)) = take 8 (drop (8 * nat id') nodes)"
    using first(2) by (intro take_drop_append) simp
  moreover from first(2,4) have "8 * nat id' + 8 \<le> length (nodes @ ns)" "4 * (first + length edges) \<le> length (words @ ws)" by simp_all
  ultimately show ?case unfolding placed_node.simps using first(1,3) 1(1) [OF first(6)] by metis
qed simp_all

lemma edge_words_length: "edge_words edge = Inr block \<Longrightarrow> length block = 4"
  by (cases edge) (auto simp: edge_words_def split: option.splits)

lemma append_edge_words_blocks:
  "append_edge_words es words = Inr words' \<Longrightarrow> \<exists>ws. words' = words @ ws \<and> length ws = 4 * length es \<and>
     (\<forall>k<length es. edge_words (es ! k) = Inr (take 4 (drop (4 * k) ws)))"
proof (induction es arbitrary: words)
  case (Cons edge es)
  from Cons.prems obtain block where block: "edge_words edge = Inr block" "append_edge_words es (words @ block) = Inr words'"
    by (auto simp: and_then_eq_Inr)
  from Cons.IH [OF block(2)] obtain ws where ws: "words' = (words @ block) @ ws" "length ws = 4 * length es"
      "\<forall>k<length es. edge_words (es ! k) = Inr (take 4 (drop (4 * k) ws))" by blast
  have "edge_words ((edge # es) ! k) = Inr (take 4 (drop (4 * k) (block @ ws)))" if "k < length (edge # es)" for k
    using that ws(3) block(1) edge_words_length [OF block(1)] by (cases k) auto
  with ws(1,2) edge_words_length [OF block(1)] show ?case by (intro exI [of _ "block @ ws"]) auto
qed simp

lemma materialize_placed:
  "materialize_node plan node nodes words = Inr (nodes', words') \<Longrightarrow> 4 dvd length words \<Longrightarrow>
     \<exists>ns ws. nodes' = nodes @ ns \<and> words' = words @ ws \<and> 8 dvd length ns \<and> 4 dvd length ws \<and> placed_node plan nodes' words' node"
  "materialize_children plan edges nodes words = Inr (nodes', words') \<Longrightarrow> 4 dvd length words \<Longrightarrow>
     \<exists>ns ws. nodes' = nodes @ ns \<and> words' = words @ ws \<and> 8 dvd length ns \<and> 4 dvd length ws \<and> placed_edges plan nodes' words' edges"
proof (induction plan node nodes words and plan edges nodes words arbitrary: nodes' words' and nodes' words'
    rule: materialize_node_materialize_children.induct)
  case (1 plan island_id s e edges id' nodes words)
  let ?block = "[rule_id (islands plan ! island_id), 0, as_i32 s, as_i32 e, as_i32 (length words div 4), as_i32 (length edges), -1, -1]"
  from 1(2) obtain words1 where steps: "int (length nodes) = id' * 8" "island_id < length (islands plan)"
      "append_edge_words edges words = Inr words1" "materialize_children plan edges (nodes @ ?block) words1 = Inr (nodes', words')"
    by (auto simp: and_then_eq_Inr index_at_def Let_def split: if_splits)
  from append_edge_words_blocks [OF steps(3)] obtain ws where ws: "words1 = words @ ws" "length ws = 4 * length edges"
      "\<forall>k<length edges. edge_words (edges ! k) = Inr (take 4 (drop (4 * k) ws))" by blast
  from 1(3) ws(1,2) have "4 dvd length words1" by simp
  from 1(1) [OF _ _ _ steps(3) _ this, of "()" "islands plan ! island_id" "nodes @ ?block" nodes' words'] steps obtain ns vs where
      more: "nodes' = (nodes @ ?block) @ ns" "words' = words1 @ vs" "8 dvd length ns" "4 dvd length vs" "placed_edges plan nodes' words' edges"
    by (auto simp: ensure_def index_at_def)
  define first where "first = length words div 4"
  with 1(3) have first: "4 * first = length words" by simp
  from steps(1) have id': "0 \<le> id'" "8 * nat id' = length nodes" by linarith+
  have "placed_node plan nodes' words' (PendingNode island_id s e edges id')"
    unfolding placed_node.simps
  proof (intro conjI exI [of _ first] allI impI)
    show "edge_words (edges ! k) = Inr (take 4 (drop (4 * (first + k)) words'))" if "k < length edges" for k
      using that ws more(2) first by (simp add: distrib_left)
  qed (use id' more ws first in \<open>simp_all add: first_def\<close>)
  moreover have "length ?block = 8" by simp
  then have "8 dvd length (?block @ ns)" using more(3) by (simp only: length_append dvd_add dvd_refl)
  moreover have "4 dvd length (ws @ vs)" using more(4) ws(2) by simp
  moreover have "nodes' = nodes @ (?block @ ns)" "words' = words @ (ws @ vs)" using more(1,2) ws(1) by simp_all
  ultimately show ?case by blast
next
  case (4 plan field t child ordinal es nodes words)
  from 4(3) obtain nodes1 words1 where steps: "materialize_node plan child nodes words = Inr (nodes1, words1)"
      "materialize_children plan es nodes1 words1 = Inr (nodes', words')" by (auto simp: and_then_eq_Inr)
  from 4(1) [OF steps(1) 4(4)] obtain ns ws where one: "nodes1 = nodes @ ns" "words1 = words @ ws" "8 dvd length ns" "4 dvd length ws"
      "placed_node plan nodes1 words1 child" by blast
  with 4(4) have "4 dvd length words1" by simp
  from 4(2) [OF steps(1) refl steps(2) this] obtain ns' ws' where two: "nodes' = nodes1 @ ns'" "words' = words1 @ ws'"
      "8 dvd length ns'" "4 dvd length ws'" "placed_edges plan nodes' words' es" by blast
  from placed_extend(1) [OF one(5)] have "placed_node plan nodes' words' child" by (simp add: two(1,2))
  with one two show ?case by auto
qed auto

section \<open>Trees that can be read\<close>

text \<open>
  What reading needs of a tree: rules and fields with names, spans and tokens below 2^31, and the tokens at
  their indices; and what the accessors of a tree in its words return.
\<close>

fun readable :: "frontend_plan \<Rightarrow> string list \<Rightarrow> token list \<Rightarrow> pending_node \<Rightarrow> bool"
  and readable_edges :: "frontend_plan \<Rightarrow> string list \<Rightarrow> token list \<Rightarrow> pending_edge list \<Rightarrow> bool" where
  "readable plan rules tokens (PendingNode island_id s e edges id') \<longleftrightarrow>
     0 \<le> rule_id (islands plan ! island_id) \<and> nat (rule_id (islands plan ! island_id)) < length rules \<and>
     s \<le> e \<and> e < 2 ^ 31 \<and> readable_edges plan rules tokens edges"
| "readable_edges plan rules tokens [] \<longleftrightarrow> True"
| "readable_edges plan rules tokens (PendingEdge field t None ordinal # es) \<longleftrightarrow> field < int (length field_names) \<and>
     (\<exists>u. t = Some u \<and> tok_index u < length tokens \<and> tokens ! tok_index u = u) \<and> readable_edges plan rules tokens es"
| "readable_edges plan rules tokens (PendingEdge field t (Some child) ordinal # es) \<longleftrightarrow> field < int (length field_names) \<and>
     t = None \<and> readable plan rules tokens child \<and> readable_edges plan rules tokens es"

fun edge_read :: "pending_edge \<Rightarrow> cst_edge" where
  "edge_read (PendingEdge field t child ordinal) =
     \<lparr>edge_field = (if field < 0 then None else Some (nat field)),
      edge_target = (case (t, child) of
        (Some t, _) \<Rightarrow> TokenCursor (tok_index t)
      | (None, Some node) \<Rightarrow> RuleCursor (nat (node_id node))
      | (None, None) \<Rightarrow> root_cursor)\<rparr>"

fun stands :: "compact_cst \<Rightarrow> frontend_plan \<Rightarrow> pending_node \<Rightarrow> bool"
  and edges_stand :: "compact_cst \<Rightarrow> frontend_plan \<Rightarrow> pending_edge list \<Rightarrow> bool" where
  "stands cst plan (PendingNode island_id s e edges id') \<longleftrightarrow>
     rule_name cst (nat id') = Inr (cst_rules cst ! nat (rule_id (islands plan ! island_id))) \<and>
     raw_span cst (RuleCursor (nat id')) = Inr (s, e) \<and>
     and_then (rule_edges cst (nat id')) (collect (read_edge cst)) = Inr (map edge_read edges) \<and>
     edges_stand cst plan edges"
| "edges_stand cst plan [] \<longleftrightarrow> True"
| "edges_stand cst plan (PendingEdge field t None ordinal # es) \<longleftrightarrow>
     (\<exists>u. t = Some u \<and> raw_span cst (TokenCursor (tok_index u)) = Inr (tok_start u, tok_end u)) \<and> edges_stand cst plan es"
| "edges_stand cst plan (PendingEdge field t (Some child) ordinal # es) \<longleftrightarrow> stands cst plan child \<and> edges_stand cst plan es"

lemma as_i32_small: "n < 2 ^ 31 \<Longrightarrow> as_i32 n = int n"
  by (simp add: as_i32_def Let_def)

lemma block_nth: "take m (drop a xs) = ys \<Longrightarrow> a + m \<le> length xs \<Longrightarrow> k < m \<Longrightarrow> a + k < length xs \<and> xs ! (a + k) = ys ! k"
  by auto

lemma required_block:
  "take m (drop a words) = block \<Longrightarrow> a + m \<le> length words \<Longrightarrow> k < m \<Longrightarrow> required words (a + k) kind = Inr (block ! k)"
  using block_nth [of m a words block k] by (simp add: required_def)

lemma read_edge_block:
  assumes "edge_words edge = Inr (take 4 (drop (4 * i) (cst_edges cst)))" "4 * i + 4 \<le> length (cst_edges cst)"
    "readable_edges plan rules tokens [edge]" "length tokens < 2 ^ 31"
    "\<And>field t child ordinal. edge = PendingEdge field t (Some child) ordinal \<Longrightarrow> 0 \<le> node_id child \<and> node_id child < 2 ^ 31"
  shows "read_edge cst i = Inr (edge_read edge)"
proof -
  obtain field t child ordinal where edge: "edge = PendingEdge field t child ordinal" by (cases edge)
  let ?block = "take 4 (drop (4 * i) (cst_edges cst))"
  have word: "edge_word cst i k = Inr (?block ! k)" if "k < 4" for k
    using required_block [OF refl assms(2) that] by (simp add: edge_word_def mult.commute)
  show ?thesis
  proof (cases child)
    case None
    with assms(3) edge obtain u where t: "t = Some u" "tok_index u < length tokens" "field < int (length field_names)" by auto
    then have "?block = [field, as_i32 ordinal, 0, int (tok_index u)]"
      using assms(1,4) by (simp add: edge None edge_words_def as_i32_small)
    with word [of 0] word [of 2] word [of 3] t show ?thesis
      by (simp add: read_edge_def edge None) linarith
  next
    case (Some node)
    with assms(3,5) edge have node: "t = None" "0 \<le> node_id node" "node_id node < 2 ^ 31" "field < int (length field_names)" by auto
    then have "?block = [field, as_i32 ordinal, 1, node_id node]"
      using assms(1) by (simp add: edge Some edge_words_def as_i32_small nat_less_iff)
    with word [of 0] word [of 2] word [of 3] node show ?thesis
      by (simp add: read_edge_def edge Some) linarith
  qed
qed

lemma readable_edges_nth:
  "readable_edges plan rules tokens es \<Longrightarrow> k < length es \<Longrightarrow> readable_edges plan rules tokens [es ! k]"
proof (induction es arbitrary: k)
  case (Cons edge es)
  obtain field t child ordinal where "edge = PendingEdge field t child ordinal" by (cases edge)
  with Cons show ?case by (cases k; cases child) auto
qed simp

lemma placed_edges_nth:
  "placed_edges plan nodes words es \<Longrightarrow> k < length es \<Longrightarrow> es ! k = PendingEdge field t (Some child) ordinal \<Longrightarrow>
   placed_node plan nodes words child"
proof (induction es arbitrary: k)
  case (Cons edge es)
  obtain field' t' child' ordinal' where "edge = PendingEdge field' t' child' ordinal'" by (cases edge)
  with Cons show ?case by (cases k; cases child') auto
qed simp

lemma token_words_length: "length (token_words t) = 4"
  by (simp add: token_words_def)

lemma token_words_nth:
  "k < length tokens \<Longrightarrow> take 4 (drop (4 * k) (materialize_tokens tokens)) = token_words (tokens ! k)"
proof (induction tokens arbitrary: k)
  case (Cons t tokens)
  then show ?case by (cases k) (simp_all add: materialize_tokens_def token_words_length)
qed simp

lemma materialize_tokens_length: "length (materialize_tokens tokens) = 4 * length tokens"
  by (induction tokens) (simp_all add: materialize_tokens_def token_words_length)

text \<open>Everything a cursor returns of a tree whose words stand in the program.\<close>

definition fits :: "compact_cst \<Rightarrow> token list \<Rightarrow> string list \<Rightarrow> bool" where
  "fits cst tokens rules \<longleftrightarrow> cst_tokens cst = materialize_tokens tokens \<and> cst_rules cst = rules \<and>
     (\<forall>t\<in>set tokens. tok_start t \<le> tok_end t \<and> tok_end t < 2 ^ 31) \<and> length tokens < 2 ^ 31 \<and>
     length (cst_nodes cst) < 2 ^ 31 \<and> length (cst_edges cst) < 2 ^ 31"

lemma token_span_read:
  assumes "fits cst tokens rules" "tok_index u < length tokens" "tokens ! tok_index u = u"
  shows "raw_span cst (TokenCursor (tok_index u)) = Inr (tok_start u, tok_end u)"
proof -
  let ?i = "tok_index u"
  from assms(1) have words: "cst_tokens cst = materialize_tokens tokens" by (simp add: fits_def)
  from assms(2,3) have "u \<in> set tokens" by (metis nth_mem)
  with assms(1) have u: "tok_start u \<le> tok_end u" "tok_end u < 2 ^ 31" by (auto simp: fits_def)
  have "token_word cst ?i k = Inr (token_words u ! k)" if "k < 4" for k
    using required_block [OF token_words_nth [OF assms(2)], of k TokenWord] that assms(2,3)
    by (simp add: token_word_def words materialize_tokens_length mult.commute)
  from this [of 1] this [of 2] u show ?thesis by (simp add: raw_span_def token_words_def as_i32_small)
qed

lemma node_words_read:
  assumes "fits cst tokens rules" "placed_node plan (cst_nodes cst) (cst_edges cst) (PendingNode island_id s e edges id')"
    "readable plan rules tokens (PendingNode island_id s e edges id')"
  shows "rule_name cst (nat id') = Inr (cst_rules cst ! nat (rule_id (islands plan ! island_id)))"
    "raw_span cst (RuleCursor (nat id')) = Inr (s, e)"
    "and_then (rule_edges cst (nat id')) (collect (read_edge cst)) = Inr (map edge_read edges)"
proof -
  from assms(2) obtain first where placed: "8 * nat id' + 8 \<le> length (cst_nodes cst)"
      "take 8 (drop (8 * nat id') (cst_nodes cst)) =
        [rule_id (islands plan ! island_id), 0, as_i32 s, as_i32 e, as_i32 first, as_i32 (length edges), -1, -1]"
      "4 * (first + length edges) \<le> length (cst_edges cst)"
      "\<forall>k<length edges. edge_words (edges ! k) = Inr (take 4 (drop (4 * (first + k)) (cst_edges cst)))"
      "placed_edges plan (cst_nodes cst) (cst_edges cst) edges" unfolding placed_node.simps by blast
  have word: "node_word cst (nat id') k =
      Inr ([rule_id (islands plan ! island_id), 0, as_i32 s, as_i32 e, as_i32 first, as_i32 (length edges), -1, -1] ! k)"
      if "k < 8" for k
    using required_block [OF placed(2,1) that] by (simp add: node_word_def mult.commute)
  from assms(1) placed(3) have small: "first < 2 ^ 31" "length edges < 2 ^ 31" by (auto simp: fits_def)
  from assms(1,3) have rule: "0 \<le> rule_id (islands plan ! island_id)" "nat (rule_id (islands plan ! island_id)) < length (cst_rules cst)"
      "s \<le> e" "e < 2 ^ 31" "readable_edges plan rules tokens edges" by (auto simp: fits_def)
  from word [of 0] rule show "rule_name cst (nat id') = Inr (cst_rules cst ! nat (rule_id (islands plan ! island_id)))"
    by (simp add: rule_name_def)
  from word [of 2] word [of 3] rule show "raw_span cst (RuleCursor (nat id')) = Inr (s, e)"
    by (simp add: raw_span_def as_i32_small)
  have numbers: "rule_edges cst (nat id') = Inr [first..<first + length edges]"
    using word [of 4] word [of 5] small by (simp add: rule_edges_def as_i32_small)
  have "read_edge cst (first + k) = Inr (edge_read (edges ! k))" if k: "k < length edges" for k
  proof (rule read_edge_block)
    show "edge_words (edges ! k) = Inr (take 4 (drop (4 * (first + k)) (cst_edges cst)))" using placed(4) k by blast
    show "4 * (first + k) + 4 \<le> length (cst_edges cst)" using placed(3) k by simp
    show "readable_edges plan rules tokens [edges ! k]" using rule(5) k by (rule readable_edges_nth)
    show "length tokens < 2 ^ 31" using assms(1) by (simp add: fits_def)
    show "0 \<le> node_id child \<and> node_id child < 2 ^ 31" if "edges ! k = PendingEdge field t (Some child) ordinal" for field t child ordinal
    proof -
      from placed_edges_nth [OF placed(5) k that] have "placed_node plan (cst_nodes cst) (cst_edges cst) child" .
      then have "0 \<le> node_id child" "8 * nat (node_id child) + 8 \<le> length (cst_nodes cst)" by (cases child; simp)+
      with assms(1) show ?thesis by (auto simp: fits_def)
    qed
  qed
  then have "list_all2 (\<lambda>i r. read_edge cst i = Inr r) [first..<first + length edges] (map edge_read edges)"
    by (auto simp: list_all2_conv_all_nth)
  then show "and_then (rule_edges cst (nat id')) (collect (read_edge cst)) = Inr (map edge_read edges)"
    by (simp add: numbers collect_Inr)
qed

lemma placed_stands:
  "fits cst tokens rules \<Longrightarrow> placed_node plan (cst_nodes cst) (cst_edges cst) node \<Longrightarrow> readable plan rules tokens node \<Longrightarrow>
     stands cst plan node"
  "fits cst tokens rules \<Longrightarrow> placed_edges plan (cst_nodes cst) (cst_edges cst) edges \<Longrightarrow> readable_edges plan rules tokens edges \<Longrightarrow>
     edges_stand cst plan edges"
proof (induction cst plan node and cst plan edges rule: stands_edges_stand.induct)
  case (1 cst plan island_id s e edges id')
  from node_words_read [OF 1(2-4)] 1 show ?case by simp
next
  case (3 cst plan field t ordinal es)
  with token_span_read [OF 3(2)] show ?case by auto
qed simp_all

section \<open>Parsed trees can be read\<close>

definition named_plan :: "string list \<Rightarrow> frontend_plan \<Rightarrow> bool" where
  "named_plan rules plan \<longleftrightarrow>
     (\<forall>plan_island\<in>set (islands plan). 0 \<le> rule_id plan_island \<and> nat (rule_id plan_island) < length rules \<and>
        (\<forall>state\<in>set (island_states plan_island). \<forall>tr\<in>set (transitions state). emitted_field tr < int (length field_names)))"

lemma readable_edges_append:
  "readable_edges plan rules tokens (es @ fs) \<longleftrightarrow> readable_edges plan rules tokens es \<and> readable_edges plan rules tokens fs"
proof (induction es)
  case (Cons e es)
  obtain field t child ordinal where "e = PendingEdge field t child ordinal" by (cases e)
  with Cons show ?case by (cases child) auto
qed simp

lemma derives_inside:
  "derives plan ts found node i j \<Longrightarrow> i \<le> length ts \<Longrightarrow> j \<le> length ts"
  "island_path plan ts found plan_island i edges state j \<Longrightarrow> i \<le> length ts \<Longrightarrow> j \<le> length ts"
  by (induction rule: derives_island_path.inducts) auto

lemma derives_readable:
  assumes "named_plan rules plan" "tokens_ordered ts"
    "\<forall>t\<in>set ts. tok_end t < 2 ^ 31 \<and> tok_index t < length tokens \<and> tokens ! tok_index t = t"
  shows "derives plan ts found node i j \<Longrightarrow> i \<le> length ts \<Longrightarrow> readable plan rules tokens node"
    "island_path plan ts found plan_island i edges state j \<Longrightarrow> plan_island \<in> set (islands plan) \<Longrightarrow> i \<le> length ts \<Longrightarrow>
      readable_edges plan rules tokens edges"
proof (induction rule: derives_island_path.inducts)
  case (derives_island island_id i edges state j s e id')
  then have known: "islands plan ! island_id \<in> set (islands plan)" by simp
  with assms(1) have rule: "0 \<le> rule_id (islands plan ! island_id)" "nat (rule_id (islands plan ! island_id)) < length rules"
    by (auto simp: named_plan_def)
  have "s \<le> e \<and> e < 2 ^ 31"
  proof (cases "i < j")
    case True
    with derives_inside(2) [OF derives_island(2,8)] have inside: "j - 1 < length ts" "i < length ts" by auto
    from assms(2) have ordered: "sorted_wrt (\<lambda>t t'. tok_end t \<le> tok_start t') ts" "\<forall>t\<in>set ts. tok_start t < tok_end t"
      by (simp_all add: tokens_ordered_def)
    from ordered(2) inside have "tok_start (ts ! i) < tok_end (ts ! i)" "tok_start (ts ! (j - 1)) < tok_end (ts ! (j - 1))"
      by simp_all
    moreover have "tok_end (ts ! i) \<le> tok_start (ts ! (j - 1))" if "i < j - 1"
      using sorted_wrt_nth_less [OF ordered(1) that inside(1)] .
    ultimately have "tok_start (ts ! i) \<le> tok_end (ts ! (j - 1))"
      using True by (cases "i = j - 1") (auto simp: less_diff_conv dest: Suc_lessI)
    moreover from assms(3) inside(1) have "tok_end (ts ! (j - 1)) < 2 ^ 31" by simp
    ultimately show ?thesis using derives_island(6,7) True inside(2) by simp
  next
    case False
    have "s < 2 ^ 31"
    proof (cases "i < length ts")
      case True
      with assms(2,3) have "tok_start (ts ! i) < tok_end (ts ! i)" "tok_end (ts ! i) < 2 ^ 31" by (simp_all add: tokens_ordered_def)
      with derives_island(6) True show ?thesis by simp
    qed (use derives_island(6) in simp)
    with False derives_island(7) show ?thesis by simp
  qed
  with derives_island known rule show ?case by simp
next
  case (path_token plan_island i edges state j tr)
  with assms(1) have "emitted_field tr < int (length field_names)" by (fastforce simp: named_plan_def)
  with path_token assms(3) show ?case by (simp add: readable_edges_append)
next
  case (path_nested plan_island i edges state j tr k node)
  with assms(1) have "emitted_field tr < int (length field_names)" by (fastforce simp: named_plan_def)
  moreover from derives_inside(2) path_nested have "j \<le> length ts" by blast
  ultimately show ?case using path_nested by (simp add: readable_edges_append)
qed simp

lemma readable_assign:
  "readable plan rules tokens (fst (assign_ids node n)) \<longleftrightarrow> readable plan rules tokens node"
  "readable_edges plan rules tokens (fst (assign_edge_ids edges n)) \<longleftrightarrow> readable_edges plan rules tokens edges"
  by (induction node n and edges n rule: assign_ids_assign_edge_ids.induct) (auto simp: Let_def split: prod.splits)

lemma node_tokens_assign:
  "node_tokens (fst (assign_ids node n)) = node_tokens node"
  "edges_tokens (fst (assign_edge_ids edges n)) = edges_tokens edges"
proof (induction node n and edges n rule: assign_ids_assign_edge_ids.induct)
  case (3 field t ordinal es next_id)
  then show ?case by (cases t) (auto simp: Let_def split: prod.splits)
next
  case (4 field t child ordinal es next_id)
  then show ?case by (cases t) (auto simp: Let_def split: prod.splits)
qed (auto simp: Let_def split: prod.splits)

lemma node_id_assign: "node_id (fst (assign_ids node n)) = int n" "pending_island (fst (assign_ids node n)) = pending_island node"
  by (cases node; simp add: Let_def split: prod.splits)+

lemma parsed_reads:
  assumes "valid_state plan st" "named_plan rules plan" "length (state_source st) < 2 ^ 31"
    "length (program_nodes (state_program st)) < 2 ^ 31" "length (program_edges (state_program st)) < 2 ^ 31"
  shows "\<exists>cst root. cst_new (state_source st) (program_tokens (state_program st)) (program_nodes (state_program st))
      (program_edges (state_program st)) rules = Inr cst \<and> node_id root = 0 \<and> pending_island root = root_island plan \<and>
      node_tokens root = syntax_tokens (state_tokens st) \<and> stands cst plan root"
proof -
  let ?program = "state_program st" and ?tokens = "state_tokens st"
  from assms(1) obtain found root where state:
      "lex_from (plan_lexer plan) (terminal_classification plan) (state_source st) 0 0 = Inr (?tokens, [])"
      "match_delimiters ?tokens (boundaries plan) [] = Inr (found, [])"
      "execute_root_island ?tokens found plan [] = Some (Inr (Some root, []))"
      "materialize ?tokens root plan = Inr ?program" by (auto simp: valid_state_def)
  note numbered = lex_from_numbered [OF state(1)] and ordered = lex_from_ordered [OF state(1)]
  from state(2) [unfolded match_delimiters_clean [OF numbered]] obtain inner where
      inner: "clean_delimiters (boundaries plan) (syntax_tokens ?tokens) inner" "found = renumber_matches (token_place ?tokens) inner"
    by blast
  from state(3) have "parse_root plan (syntax_tokens ?tokens) (collect_matches inner []) [] = Some (Inr (Some root, []))"
    unfolding inner(2) execute_root_island_syntax [OF numbered inner(1)] .
  note derived = parse_root_derives [OF this]
  let ?root = "fst (assign_ids root 0)"
  from state(4) obtain nodes words where words: "materialize_node plan ?root [] [] = Inr (nodes, words)"
      "?program = \<lparr>program_tokens = materialize_tokens ?tokens, program_nodes = nodes, program_edges = words\<rparr>"
    by (auto simp: materialize_def and_then_eq_Inr)
  from materialize_placed(1) [OF words(1)] have placed: "placed_node plan nodes words ?root" "8 dvd length nodes" "4 dvd length words"
    by auto
  have at: "tok_index t < length ?tokens \<and> ?tokens ! tok_index t = t" if "t \<in> set ?tokens" for t
    using that numbered_nth [OF numbered] by (auto simp: in_set_conv_nth)
  have bounds: "tok_start t \<le> tok_end t \<and> tok_end t < 2 ^ 31" if "t \<in> set ?tokens" for t
    using that ordered assms(3) by (fastforce simp: tokens_ordered_def)
  have "syntax_tokens ?tokens = filter (\<lambda>t. tok_terminal t \<ge> 0) ?tokens" by (simp add: syntax_tokens_def)
  then have "\<forall>t\<in>set (syntax_tokens ?tokens). tok_end t < 2 ^ 31 \<and> tok_index t < length ?tokens \<and> ?tokens ! tok_index t = t"
    using at bounds by simp
  from derives_readable(1) [OF assms(2) syntax_tokens_ordered this] ordered derived have
      "readable plan rules ?tokens root" by blast
  then have readable: "readable plan rules ?tokens ?root" by (simp add: readable_assign)
  have "length ?tokens < 2 ^ 31"
  proof (cases "?tokens = []")
    case False
    then have "last ?tokens \<in> set ?tokens" "tok_index (last ?tokens) = length ?tokens - 1"
      using numbered_nth [OF numbered, of "length ?tokens - 1"] by (simp_all add: last_conv_nth)
    moreover from this(1) ordered have "tok_index (last ?tokens) \<le> tok_start (last ?tokens)"
        "tok_start (last ?tokens) < tok_end (last ?tokens)" by (simp_all add: tokens_ordered_def)
    ultimately show ?thesis using bounds [of "last ?tokens"] by linarith
  qed simp
  let ?cst = "\<lparr>cst_source = state_source st, cst_tokens = materialize_tokens ?tokens, cst_nodes = nodes, cst_edges = words,
    cst_rules = rules, cst_offsets = None\<rparr>"
  from placed(1) have "nodes \<noteq> []" by (cases ?root) auto
  with placed(2,3) have made: "cst_new (state_source st) (program_tokens ?program) (program_nodes ?program) (program_edges ?program) rules =
      Inr ?cst" by (simp add: cst_new_def words(2) materialize_tokens_length)
  have "fits ?cst ?tokens rules" using bounds \<open>length ?tokens < 2 ^ 31\<close> assms(4,5) by (simp add: fits_def words(2))
  from placed_stands(1) [OF this _ readable] placed(1) have "stands ?cst plan ?root" by simp
  moreover from derived derives_tokens(1) have "node_tokens root = syntax_tokens ?tokens" by fastforce
  ultimately show ?thesis using made derived by (intro exI [of _ ?cst] exI [of _ ?root]) (simp add: node_tokens_assign node_id_assign)
qed

section \<open>Properties\<close>



end
